(* ===== verification/Prelude.thy ===== *)
theory Prelude
  imports Main "HOL-Library.Word" "HOL-Library.Multiset"
begin

section \<open>Shared vocabulary: machine integers, interleavings, invariants\<close>

text \<open>
  The vocabulary every component uses. Machine integers are words of their C++ width.
  A concurrent component is a step function \<open>step a s\<close>: \<open>a\<close> names a thread and what
  the scheduler lets it do next, \<open>s\<close> is the shared state with the program counters, and
  the result is \<open>None\<close> where the thread cannot move. One step is one atomic operation
  of the code (sequential consistency). \<open>run\<close> interprets a schedule, any list of
  actions, and skips the actions that are not enabled, so a theorem about
  \<open>run step sched s0\<close> for every \<open>sched\<close> is a theorem about every interleaving.
  The locale \<open>inv_system\<close> is the contract "the invariant holds at the start and every
  step keeps it"; \<open>mutual_exclusion\<close> extends it for the lock components.
\<close>

subsection \<open>Machine integers\<close>

type_synonym size_t = "64 word"
type_synonym u64 = "64 word"
type_synonym i64 = "64 word"
type_synonym u32 = "32 word"
type_synonym tid = nat

named_theorems own_simps \<comment> \<open>unfolding of the components' small definitions\<close>

lemma of_nat_less_word_inj:
  assumes "m < 2 ^ LENGTH('a)" and "n < 2 ^ LENGTH('a)"
  shows "((of_nat m :: 'a::len word) = of_nat n) = (m = n)"
proof
  assume "(of_nat m :: 'a word) = of_nat n"
  then have "unat (of_nat m :: 'a word) = unat (of_nat n :: 'a word)" by simp
  with assms show "m = n" by (simp add: unat_of_nat take_bit_nat_eq_self)
qed simp

lemma unat_of_nat_small:
  "m < 2 ^ LENGTH('a) \<Longrightarrow> unat (of_nat m :: 'a::len word) = m"
  by (simp add: unat_of_nat take_bit_nat_eq_self)

lemma of_nat_pred: "Suc m = k \<Longrightarrow> of_nat k - 1 = (of_nat m :: 'a::len word)"
  by auto

lemma unat_of_nat_64: "m < 2 ^ 64 \<Longrightarrow> unat (of_nat m :: 64 word) = m"
  using unat_of_nat_small [where 'a = 64] by simp

lemma unat_of_nat_32: "m < 2 ^ 32 \<Longrightarrow> unat (of_nat m :: 32 word) = m"
  using unat_of_nat_small [where 'a = 32] by simp

lemma of_nat_size_t_inj:
  "m < 2 ^ 64 \<Longrightarrow> n < 2 ^ 64 \<Longrightarrow> ((of_nat m :: 64 word) = of_nat n) = (m = n)"
  using of_nat_less_word_inj [where 'a = 64] by simp

lemma of_nat_u32_inj:
  "m < 2 ^ 32 \<Longrightarrow> n < 2 ^ 32 \<Longrightarrow> ((of_nat m :: 32 word) = of_nat n) = (m = n)"
  using of_nat_less_word_inj [where 'a = 32] by simp

subsection \<open>Schedules and reachable states\<close>

definition stutter :: "('a \<Rightarrow> 's \<Rightarrow> 's option) \<Rightarrow> 'a \<Rightarrow> 's \<Rightarrow> 's" where
  "stutter step a s = (case step a s of None \<Rightarrow> s | Some s' \<Rightarrow> s')"

fun run :: "('a \<Rightarrow> 's \<Rightarrow> 's option) \<Rightarrow> 'a list \<Rightarrow> 's \<Rightarrow> 's" where
  "run step [] s = s"
| "run step (a # as) s = run step as (stutter step a s)"

inductive reach :: "('a \<Rightarrow> 's \<Rightarrow> 's option) \<Rightarrow> 's \<Rightarrow> 's \<Rightarrow> bool"
  for step s0 where
  reach_start: "reach step s0 s0"
| reach_step: "reach step s0 s \<Longrightarrow> step a s = Some s' \<Longrightarrow> reach step s0 s'"

lemma stutter_Some [simp]: "step a s = Some s' \<Longrightarrow> stutter step a s = s'"
  by (simp add: stutter_def)

lemma stutter_None [simp]: "step a s = None \<Longrightarrow> stutter step a s = s"
  by (simp add: stutter_def)

lemma run_append: "run step (as @ bs) s = run step bs (run step as s)"
  by (induction as arbitrary: s) auto

lemma reach_stutter: "reach step s0 s \<Longrightarrow> reach step s0 (stutter step a s)"
  by (cases "step a s") (auto intro: reach.intros)

lemma reach_run_from: "reach step s0 s \<Longrightarrow> reach step s0 (run step as s)"
  by (induction as arbitrary: s) (auto intro: reach_stutter)

lemma reach_run: "reach step s0 (run step as s0)"
  by (rule reach_run_from) (rule reach_start)

lemma reach_imp_run: "reach step s0 s \<Longrightarrow> \<exists>as. s = run step as s0"
proof (induction rule: reach.induct)
  case reach_start
  show ?case by (rule exI [of _ "[]"]) simp
next
  case (reach_step s a s')
  then obtain as where "s = run step as s0" by blast
  with reach_step.hyps(2) have "s' = run step (as @ [a]) s0"
    by (simp add: run_append)
  then show ?case by blast
qed

lemma reach_iff_run: "reach step s0 s \<longleftrightarrow> (\<exists>as. s = run step as s0)"
  using reach_imp_run reach_run by metis

subsection \<open>Invariants\<close>

lemma run_keeps:
  fixes I :: "'s \<Rightarrow> bool"
  assumes "\<And>s a s'. I s \<Longrightarrow> step a s = Some s' \<Longrightarrow> I s'"
  shows "I s \<Longrightarrow> I (run step as s)"
proof (induction as arbitrary: s)
  case (Cons a as)
  then show ?case using assms by (cases "step a s") auto
qed simp

locale inv_system =
  fixes start :: 's
    and step :: "'a \<Rightarrow> 's \<Rightarrow> 's option"
    and inv :: "'s \<Rightarrow> bool"
  assumes inv_start: "inv start"
    and inv_step: "inv s \<Longrightarrow> step a s = Some s' \<Longrightarrow> inv s'"
begin

lemma inv_stutter: "inv s \<Longrightarrow> inv (stutter step a s)"
  by (cases "step a s") (auto intro: inv_step)

lemma inv_run_from: "inv s \<Longrightarrow> inv (run step as s)"
  by (induction as arbitrary: s) (auto intro: inv_stutter)

lemma inv_run: "inv (run step as start)"
  by (rule inv_run_from) (rule inv_start)

lemma inv_reach: "reach step start s \<Longrightarrow> inv s"
  by (induction rule: reach.induct) (auto intro: inv_start inv_step)

end

lemma card_le_1I:
  assumes "\<And>t u. P t \<Longrightarrow> P u \<Longrightarrow> t = u"
  shows "card {t. P t} \<le> 1"
proof (cases "\<exists>t. P t")
  case True
  then obtain t where "P t" by blast
  with assms have "{t. P t} = {t}" by blast
  then show ?thesis by simp
qed simp

text \<open>A lock: an invariant under which at most one thread holds it.\<close>

locale mutual_exclusion = inv_system start step inv
  for start :: 's and step :: "'a \<Rightarrow> 's \<Rightarrow> 's option" and inv +
  fixes holds :: "'s \<Rightarrow> 't \<Rightarrow> bool"
  assumes inv_excl: "inv s \<Longrightarrow> holds s t \<Longrightarrow> holds s u \<Longrightarrow> t = u"
begin

lemma run_excl:
  "holds (run step as start) t \<Longrightarrow> holds (run step as start) u \<Longrightarrow> t = u"
  by (rule inv_excl [OF inv_run])

lemma run_holders: "\<exists>h. \<forall>t. holds (run step as start) t \<longrightarrow> t = h"
  using run_excl by blast

end

text \<open>
  A program that implements a specification: each of its steps is matched by some steps of the specification, whose invariant
  may be used to match it. Then every run of the program is related to a run of the specification.
\<close>

locale simulation = inv_system spec_start spec_step spec_inv
  for spec_start :: 'm and spec_step :: "'b \<Rightarrow> 'm \<Rightarrow> 'm option" and spec_inv +
  fixes start :: 's
    and step :: "'a \<Rightarrow> 's \<Rightarrow> 's option"
    and rel :: "'s \<Rightarrow> 'm \<Rightarrow> bool"
  assumes sim_start: "rel start spec_start"
    and sim_step: "rel s m \<Longrightarrow> spec_inv m \<Longrightarrow> step a s = Some s' \<Longrightarrow> \<exists>bs. rel s' (run spec_step bs m)"
begin

lemma sim_run_from:
  "rel s (run spec_step bs spec_start) \<Longrightarrow> \<exists>bs. rel (run step as s) (run spec_step bs spec_start)"
proof (induction as arbitrary: s bs)
  case (Cons a as)
  show ?case
  proof (cases "step a s")
    case None
    then show ?thesis using Cons by simp
  next
    case (Some s')
    from sim_step [OF Cons.prems inv_run Some] obtain cs where "rel s' (run spec_step cs (run spec_step bs spec_start))" by blast
    then have "rel s' (run spec_step (bs @ cs) spec_start)" by (simp add: run_append)
    from Cons.IH [OF this] show ?thesis using Some by simp
  qed
qed auto

lemma sim_run: "\<exists>bs. rel (run step as start) (run spec_step bs spec_start)"
  by (rule sim_run_from [of _ "[]"]) (simp add: sim_start)

end

text \<open>
  An invariant that also counts the steps taken: for facts that hold until a machine
  counter can have wrapped around, that is for schedules shorter than \<open>bound\<close>.
\<close>

locale counted_inv_system =
  fixes start :: 's
    and step :: "'a \<Rightarrow> 's \<Rightarrow> 's option"
    and inv :: "nat \<Rightarrow> 's \<Rightarrow> bool"
    and bound :: nat
  assumes counted_start: "inv 0 start"
    and counted_step: "k < bound \<Longrightarrow> inv k s \<Longrightarrow> step a s = Some s' \<Longrightarrow> inv (Suc k) s'"
    and counted_mono: "inv k s \<Longrightarrow> inv (Suc k) s"
begin

lemma counted_stutter: "k < bound \<Longrightarrow> inv k s \<Longrightarrow> inv (Suc k) (stutter step a s)"
  by (cases "step a s") (auto intro: counted_step counted_mono)

lemma counted_run_from:
  "inv k s \<Longrightarrow> k + length as \<le> bound \<Longrightarrow> inv (k + length as) (run step as s)"
proof (induction as arbitrary: k s)
  case (Cons a as)
  have "inv (Suc k) (stutter step a s)"
    using Cons.prems by (intro counted_stutter) auto
  from Cons.IH [OF this] Cons.prems show ?case by simp
qed simp

lemma counted_run: "length as \<le> bound \<Longrightarrow> inv (length as) (run step as start)"
  using counted_run_from [OF counted_start, of as] by simp

end

subsection \<open>Counting threads\<close>

text \<open>\<open>cnt n P f\<close>: how many of the threads \<open>0..<n\<close> are at a program point \<open>f t\<close> with \<open>P\<close>.\<close>

definition cnt :: "nat \<Rightarrow> ('p \<Rightarrow> bool) \<Rightarrow> (nat \<Rightarrow> 'p) \<Rightarrow> nat" where
  "cnt n P f = card {t. t < n \<and> P (f t)}"

lemma cnt_le: "cnt n P f \<le> n"
proof -
  have "card {t. t < n \<and> P (f t)} \<le> card {..<n}" by (rule card_mono) auto
  then show ?thesis by (simp add: cnt_def)
qed

lemma cnt_0_iff: "cnt n P f = 0 \<longleftrightarrow> (\<forall>t<n. \<not> P (f t))"
  by (auto simp: cnt_def)

lemma cnt_pos_iff: "0 < cnt n P f \<longleftrightarrow> (\<exists>t<n. P (f t))"
  using cnt_0_iff [of n P f] by auto

lemma cnt_const: "cnt n P (\<lambda>_. x) = (if P x then n else 0)"
  by (simp add: cnt_def)

lemma cnt_insert:
  assumes "t < n" and "\<not> P (f t)" and "P (g t)" and "\<And>u. u \<noteq> t \<Longrightarrow> g u = f u"
  shows "cnt n P g = Suc (cnt n P f)"
proof -
  have "(u < n \<and> P (g u)) = (u = t \<or> u < n \<and> P (f u))" for u
    by (cases "u = t") (use assms in auto)
  then have "{u. u < n \<and> P (g u)} = insert t {u. u < n \<and> P (f u)}" by auto
  with assms(2) show ?thesis by (simp add: cnt_def)
qed

lemma cnt_same:
  assumes "P (g t) = P (f t)" and "\<And>u. u \<noteq> t \<Longrightarrow> g u = f u"
  shows "cnt n P g = cnt n P f"
proof -
  have "P (g u) = P (f u)" for u by (cases "u = t") (use assms in auto)
  then show ?thesis by (simp add: cnt_def)
qed

lemma cnt_upd:
  assumes "t < n"
  shows "cnt n P (f(t := x)) + of_bool (P (f t)) = cnt n P f + of_bool (P x)"
proof -
  have *: "(f(t := x)) u = f u" if "u \<noteq> t" for u using that by simp
  consider "P x = P (f t)" | "P x" "\<not> P (f t)" | "\<not> P x" "P (f t)" by blast
  then show ?thesis
  proof cases
    case 1
    then have "cnt n P (f(t := x)) = cnt n P f" by (intro cnt_same [of _ _ t]) auto
    with 1 show ?thesis by simp
  next
    case 2
    with assms have "cnt n P (f(t := x)) = Suc (cnt n P f)" by (intro cnt_insert [of t]) auto
    with 2 show ?thesis by simp
  next
    case 3
    with assms have "cnt n P f = Suc (cnt n P (f(t := x)))" by (intro cnt_insert [of t]) auto
    with 3 show ?thesis by simp
  qed
qed

lemma cnt_ge_2:
  assumes "t < n" and "u < n" and "t \<noteq> u" and "P (f t)" and "P (f u)"
  shows "2 \<le> cnt n P f"
proof -
  have "card {t, u} \<le> card {v. v < n \<and> P (f v)}" by (rule card_mono) (use assms in auto)
  with assms(3) show ?thesis by (simp add: cnt_def)
qed

lemma cnt_cong: "(\<And>t. t < n \<Longrightarrow> P (f t) = P (g t)) \<Longrightarrow> cnt n P f = cnt n P g"
  unfolding cnt_def by (rule arg_cong [where f = card]) auto

lemma cnt_compl: "cnt n P f + cnt n (\<lambda>x. \<not> P x) f = n"
proof -
  have "card {t. t < n \<and> P (f t)} + card {t. t < n \<and> \<not> P (f t)} =
      card ({t. t < n \<and> P (f t)} \<union> {t. t < n \<and> \<not> P (f t)})"
    by (rule card_Un_disjoint [symmetric]) auto
  also have "{t. t < n \<and> P (f t)} \<union> {t. t < n \<and> \<not> P (f t)} = {..<n}" by auto
  finally show ?thesis by (simp add: cnt_def)
qed

lemma cnt_all_but:
  assumes "Suc (cnt n P f) = n" and "t < n" and "\<not> P (f t)" and "u < n" and "u \<noteq> t"
  shows "P (f u)"
proof (rule ccontr)
  assume "\<not> P (f u)"
  with assms have "2 \<le> cnt n (\<lambda>x. \<not> P x) f" by (intro cnt_ge_2 [of t _ u]) auto
  with assms(1) cnt_compl [of n P f] show False by linarith
qed

lemma cnt_only:
  assumes "cnt n P f = 1" and "t < n" and "P (f t)" and "u < n" and "u \<noteq> t"
  shows "\<not> P (f u)"
  using cnt_ge_2 [of t n u P f] assms by auto

lemma sum_upd:
  fixes g :: "'p \<Rightarrow> 'b::comm_monoid_add" and f :: "nat \<Rightarrow> 'p"
  assumes "t < n"
  shows "(\<Sum>i<n. g ((f(t := x)) i)) + g (f t) = (\<Sum>i<n. g (f i)) + g x"
proof -
  have t: "t \<in> {..<n}" using assms by simp
  have "(\<Sum>i<n. g ((f(t := x)) i)) = g x + (\<Sum>i\<in>{..<n} - {t}. g (f i))"
    using sum.remove [OF finite_lessThan t, of "\<lambda>i. g ((f(t := x)) i)"] by simp
  moreover have "(\<Sum>i<n. g (f i)) = g (f t) + (\<Sum>i\<in>{..<n} - {t}. g (f i))"
    using sum.remove [OF finite_lessThan t, of "\<lambda>i. g (f i)"] by simp
  ultimately show ?thesis by (simp add: ac_simps)
qed

lemma ex_upd_self: "P x \<Longrightarrow> t < n \<Longrightarrow> \<exists>u<n. P ((f(t := x)) u)" for n :: nat
  by (intro exI [of _ t]) simp

lemma ex_upd_keep:
  "\<exists>u<n. P (f u) \<Longrightarrow> P (f t) \<longrightarrow> P x \<Longrightarrow> \<exists>u<n. P ((f(t := x)) u)" for n :: nat
  by (metis fun_upd_apply)

subsection \<open>Lists\<close>

lemma nth_append_left [simp]: "i < length xs \<Longrightarrow> (xs @ ys) ! i = xs ! i"
  by (simp add: nth_append)

lemma fun_upd_other [simp]: "t \<noteq> u \<Longrightarrow> (f(t := x)) u = f u"
  by simp

lemma ex_upd_other: "\<exists>u. f u = y \<Longrightarrow> f t \<noteq> y \<Longrightarrow> \<exists>u. (f(t := x)) u = y"
  by (metis fun_upd_other)

end
