(* ===== verification/SpinLocks.thy ===== *)
theory SpinLocks
  imports Prelude
begin

section \<open>Spin locks: the atomic cell, test-and-set, TrickyLock\<close>

text \<open>
  \<open>mutex/spinlock/atomic.hpp\<close> (the cell the assembler routines work on),
  \<open>mutex/spinlock/spinlock.hpp\<close> (TASSpinLock), \<open>tasks/executors/exe/threads/spinlock.hpp\<close>
  (the SpinLock the fibers and executors use) and \<open>mutex/livelock\<close> (TrickyLock and the
  two contenders of the livelock simulation). Threads call Lock, TryLock and Unlock in
  any order that a correct client may use: Unlock only while holding the lock.
\<close>

subsection \<open>Atomic: an int64 cell with load, store, exchange\<close>

record Atomic =
  cell :: i64

definition Atomic_init :: "i64 \<Rightarrow> Atomic" where
  "Atomic_init initial_value = \<lparr>cell = initial_value\<rparr>"

definition Atomic_Store :: "Atomic \<Rightarrow> i64 \<Rightarrow> Atomic" where
  "Atomic_Store a value = a\<lparr>cell := value\<rparr>"

definition Atomic_Load :: "Atomic \<Rightarrow> i64" where
  "Atomic_Load a = cell a"

definition Atomic_Exchange :: "Atomic \<Rightarrow> i64 \<Rightarrow> i64 \<times> Atomic" where
  "Atomic_Exchange a new_value = (cell a, a\<lparr>cell := new_value\<rparr>)"

lemmas Atomic_defs = Atomic_init_def Atomic_Store_def Atomic_Load_def Atomic_Exchange_def

subsection \<open>TASSpinLock\<close>

text \<open>
  \<open>TAS_Lock\<close> is one iteration of the loop: \<open>True\<close> when it leaves the loop, \<open>False\<close> when
  it goes through \<open>CpuRelax\<close> and tries again.
\<close>

definition TAS_Lock :: "Atomic \<Rightarrow> bool \<times> Atomic" where
  "TAS_Lock locked = (let (old, locked') = Atomic_Exchange locked 1
                      in if old = 1 then (False, locked') else (True, locked'))"

definition TAS_TryLock :: "Atomic \<Rightarrow> bool \<times> Atomic" where
  "TAS_TryLock locked = (let (old, locked') = Atomic_Exchange locked 1 in (old = 0, locked'))"

definition TAS_Unlock :: "Atomic \<Rightarrow> Atomic" where
  "TAS_Unlock locked = Atomic_Store locked 0"

subsection \<open>SpinLock: an atomic flag\<close>

definition SpinLock_Lock :: "bool \<Rightarrow> bool \<times> bool" where
  "SpinLock_Lock locked = (if locked then (False, True) else (True, True))"

definition SpinLock_TryLock :: "bool \<Rightarrow> bool \<times> bool" where
  "SpinLock_TryLock locked = (\<not> locked, True)"

definition SpinLock_Unlock :: "bool \<Rightarrow> bool" where
  "SpinLock_Unlock locked = False"

subsection \<open>Threads that use a spin lock\<close>

text \<open>
  The step relation is the same for every lock with the interface Lock (one iteration),
  TryLock, Unlock, so the operations are its parameters.
\<close>

datatype spin_pc = SpIdle | SpSpinning | SpCritical

datatype spin_act = CallLock | SpinOnce | CallTryLock | CallUnlock

record 'l spin_state =
  sp_lock :: 'l
  sp_pc :: "tid \<Rightarrow> spin_pc"

definition spin_start :: "'l \<Rightarrow> 'l spin_state" where
  "spin_start l = \<lparr>sp_lock = l, sp_pc = (\<lambda>_. SpIdle)\<rparr>"

fun spin_step :: "('l \<Rightarrow> bool \<times> 'l) \<Rightarrow> ('l \<Rightarrow> bool \<times> 'l) \<Rightarrow> ('l \<Rightarrow> 'l) \<Rightarrow>
    tid \<times> spin_act \<Rightarrow> 'l spin_state \<Rightarrow> 'l spin_state option" where
  "spin_step lock trylock unlock (t, CallLock) s =
     (if sp_pc s t = SpIdle then Some (s\<lparr>sp_pc := (sp_pc s)(t := SpSpinning)\<rparr>) else None)"
| "spin_step lock trylock unlock (t, SpinOnce) s =
     (if sp_pc s t = SpSpinning then
        (let (ok, l) = lock (sp_lock s)
         in Some (s\<lparr>sp_lock := l, sp_pc := (sp_pc s)(t := if ok then SpCritical else SpSpinning)\<rparr>))
      else None)"
| "spin_step lock trylock unlock (t, CallTryLock) s =
     (if sp_pc s t = SpIdle then
        (let (ok, l) = trylock (sp_lock s)
         in Some (s\<lparr>sp_lock := l, sp_pc := (sp_pc s)(t := if ok then SpCritical else SpIdle)\<rparr>))
      else None)"
| "spin_step lock trylock unlock (t, CallUnlock) s =
     (if sp_pc s t = SpCritical then
        Some (s\<lparr>sp_lock := unlock (sp_lock s), sp_pc := (sp_pc s)(t := SpIdle)\<rparr>)
      else None)"

definition spin_holds :: "'l spin_state \<Rightarrow> tid \<Rightarrow> bool" where
  "spin_holds s t \<longleftrightarrow> sp_pc s t = SpCritical"

definition spin_inv :: "('l \<Rightarrow> bool) \<Rightarrow> ('l \<Rightarrow> bool) \<Rightarrow> 'l spin_state \<Rightarrow> bool" where
  "spin_inv free taken s \<longleftrightarrow>
     (free (sp_lock s) \<and> (\<forall>t. \<not> spin_holds s t)) \<or>
     (taken (sp_lock s) \<and> (\<exists>h. spin_holds s h) \<and> (\<forall>t u. spin_holds s t \<longrightarrow> spin_holds s u \<longrightarrow> t = u))"

text \<open>
  The interface: a lock value is free or taken; Lock and TryLock succeed exactly on a
  free one and leave it taken; Unlock frees it.
\<close>

locale spin_lock =
  fixes init :: 'l
    and lock :: "'l \<Rightarrow> bool \<times> 'l"
    and trylock :: "'l \<Rightarrow> bool \<times> 'l"
    and unlock :: "'l \<Rightarrow> 'l"
    and free :: "'l \<Rightarrow> bool"
    and taken :: "'l \<Rightarrow> bool"
  assumes init_free: "free init"
    and lock_free: "free l \<Longrightarrow> \<exists>l'. lock l = (True, l') \<and> taken l'"
    and lock_taken: "taken l \<Longrightarrow> \<exists>l'. lock l = (False, l') \<and> taken l'"
    and try_free: "free l \<Longrightarrow> \<exists>l'. trylock l = (True, l') \<and> taken l'"
    and try_taken: "taken l \<Longrightarrow> \<exists>l'. trylock l = (False, l') \<and> taken l'"
    and unlock_taken: "taken l \<Longrightarrow> free (unlock l)"
begin

lemma spin_acquire:
  assumes inv: "spin_inv free taken s" and pc: "\<not> spin_holds s t"
    and op: "\<And>l. free l \<Longrightarrow> \<exists>l'. f l = (True, l') \<and> taken l'"
      "\<And>l. taken l \<Longrightarrow> \<exists>l'. f l = (False, l') \<and> taken l'"
    and p: "p \<noteq> SpCritical" and f: "f (sp_lock s) = (ok, l)"
  shows "spin_inv free taken
    (s\<lparr>sp_lock := l, sp_pc := (sp_pc s)(t := if ok then SpCritical else p)\<rparr>)"
proof (cases "free (sp_lock s) \<and> (\<forall>t. \<not> spin_holds s t)")
  case True
  with op(1) f have "ok" "taken l" by force+
  with True show ?thesis by (auto simp: spin_inv_def spin_holds_def)
next
  case False
  with inv have c: "taken (sp_lock s)" "\<exists>h. spin_holds s h"
    "\<forall>t u. spin_holds s t \<longrightarrow> spin_holds s u \<longrightarrow> t = u" by (auto simp: spin_inv_def)
  with op(2) f have ok: "\<not> ok" "taken l" by force+
  have "spin_holds (s\<lparr>sp_lock := l, sp_pc := (sp_pc s)(t := p)\<rparr>) u = spin_holds s u" for u
    using pc p by (simp add: spin_holds_def)
  with ok c show ?thesis by (simp add: spin_inv_def)
qed

lemma spin_inv_step:
  assumes inv: "spin_inv free taken s" and st: "spin_step lock trylock unlock a s = Some s'"
  shows "spin_inv free taken s'"
proof -
  obtain t b where a: "a = (t, b)" by (cases a)
  show ?thesis
  proof (cases b)
    case CallLock
    with st a have "spin_holds s' = spin_holds s" "sp_lock s' = sp_lock s"
      by (auto simp: spin_holds_def fun_eq_iff split: if_splits)
    with inv show ?thesis by (simp add: spin_inv_def)
  next
    case SpinOnce
    with st a spin_acquire [where f = lock and t = t and p = SpSpinning, OF inv _ lock_free lock_taken] show ?thesis
      by (auto simp: spin_holds_def split: if_splits prod.splits)
  next
    case CallTryLock
    with st a spin_acquire [where f = trylock and t = t and p = SpIdle, OF inv _ try_free try_taken] show ?thesis
      by (auto simp: spin_holds_def split: if_splits prod.splits)
  next
    case CallUnlock
    with st a have h: "spin_holds s t"
      and s': "s' = s\<lparr>sp_lock := unlock (sp_lock s), sp_pc := (sp_pc s)(t := SpIdle)\<rparr>"
      by (auto simp: spin_holds_def split: if_splits)
    from inv h have "taken (sp_lock s)" "\<And>u. spin_holds s u \<Longrightarrow> u = t"
      by (auto simp: spin_inv_def)
    then show ?thesis unfolding s' by (auto simp: spin_inv_def spin_holds_def unlock_taken)
  qed
qed

lemma spin_inv_start: "spin_inv free taken (spin_start init)"
  by (simp add: spin_inv_def spin_start_def spin_holds_def init_free)

lemma spin_inv_excl: "spin_inv free taken s \<Longrightarrow> spin_holds s t \<Longrightarrow> spin_holds s u \<Longrightarrow> t = u"
  by (auto simp: spin_inv_def)

end

sublocale spin_lock \<subseteq> mutual_exclusion "spin_start init" "spin_step lock trylock unlock"
    "spin_inv free taken" spin_holds
  by unfold_locales (auto intro: spin_inv_start spin_inv_step dest: spin_inv_excl)

lemmas tas_defs = TAS_Lock_def TAS_TryLock_def TAS_Unlock_def Atomic_defs
lemmas spinlock_defs = SpinLock_Lock_def SpinLock_TryLock_def SpinLock_Unlock_def

interpretation tas: spin_lock "Atomic_init 0" TAS_Lock TAS_TryLock TAS_Unlock
    "\<lambda>l. cell l = 0" "\<lambda>l. cell l = 1"
  by unfold_locales (simp_all add: tas_defs)

interpretation sl: spin_lock False SpinLock_Lock SpinLock_TryLock SpinLock_Unlock
    "\<lambda>l. \<not> l" "\<lambda>l. l"
  by unfold_locales (auto simp: spinlock_defs)

text \<open>the test-and-set spin lock excludes: after any schedule of Lock iterations, TryLock
  and Unlock calls by any number of threads, at most one thread is in its critical section.\<close>

theorem tas_mutual_exclusion:
  "\<exists>h. \<forall>t. sp_pc (run (spin_step TAS_Lock TAS_TryLock TAS_Unlock) sched (spin_start (Atomic_init 0))) t
     = SpCritical \<longleftrightarrow> h = Some t"
proof -
  let ?s = "run (spin_step TAS_Lock TAS_TryLock TAS_Unlock) sched (spin_start (Atomic_init 0))"
  show ?thesis
  proof (cases "\<exists>h. spin_holds ?s h")
    case True
    then obtain h where "spin_holds ?s h" by blast
    with tas.run_excl [of sched] show ?thesis
      unfolding spin_holds_def by (intro exI [of _ "Some h"]) auto
  next
    case False
    then show ?thesis unfolding spin_holds_def by (intro exI [of _ None]) auto
  qed
qed

text \<open>the SpinLock of the executors and fibers excludes, and never leaks: its flag is set
  exactly while some thread is in its critical section, and that thread is unique.\<close>

theorem spinlock_flag_iff_held:
  "let s = run (spin_step SpinLock_Lock SpinLock_TryLock SpinLock_Unlock) sched (spin_start False)
   in (sp_lock s \<longleftrightarrow> (\<exists>h. sp_pc s h = SpCritical)) \<and>
      card {h. sp_pc s h = SpCritical} \<le> 1"
proof -
  let ?s = "run (spin_step SpinLock_Lock SpinLock_TryLock SpinLock_Unlock) sched (spin_start False)"
  have inv: "spin_inv (\<lambda>l. \<not> l) (\<lambda>l. l) ?s" by (rule sl.inv_run)
  have "card {h. spin_holds ?s h} \<le> 1"
    by (rule card_le_1I) (rule sl.run_excl)
  with inv show ?thesis by (auto simp: Let_def spin_inv_def spin_holds_def)
qed

subsection \<open>TrickyLock\<close>

text \<open>
  \<open>mutex/livelock/tricky_lock.hpp\<close>: Lock adds one and, when the counter was not zero,
  steps back and tries again. \<open>n\<close> threads, fewer than \<open>2 ^ 64\<close>.
\<close>

datatype tricky_pc = TrIdle | TrTrying | TrBack | TrCritical

datatype tricky_act = TrCall | TrAdd | TrSub | TrUnlock

record tricky_state =
  thread_count :: size_t
  tr_pc :: "tid \<Rightarrow> tricky_pc"

definition tricky_start :: tricky_state where
  "tricky_start = \<lparr>thread_count = 0, tr_pc = (\<lambda>_. TrIdle)\<rparr>"

definition Tricky_Lock_add :: "size_t \<Rightarrow> bool \<times> size_t" where
  "Tricky_Lock_add c = (if c > 0 then (False, c + 1) else (True, c + 1))"

definition Tricky_sub :: "size_t \<Rightarrow> size_t" where
  "Tricky_sub c = c - 1"

fun tricky_step :: "nat \<Rightarrow> tid \<times> tricky_act \<Rightarrow> tricky_state \<Rightarrow> tricky_state option" where
  "tricky_step n (t, TrCall) s =
     (if t < n \<and> tr_pc s t = TrIdle then Some (s\<lparr>tr_pc := (tr_pc s)(t := TrTrying)\<rparr>) else None)"
| "tricky_step n (t, TrAdd) s =
     (if t < n \<and> tr_pc s t = TrTrying then
        (let (ok, c) = Tricky_Lock_add (thread_count s)
         in Some (s\<lparr>thread_count := c, tr_pc := (tr_pc s)(t := if ok then TrCritical else TrBack)\<rparr>))
      else None)"
| "tricky_step n (t, TrSub) s =
     (if t < n \<and> tr_pc s t = TrBack then
        Some (s\<lparr>thread_count := Tricky_sub (thread_count s), tr_pc := (tr_pc s)(t := TrTrying)\<rparr>)
      else None)"
| "tricky_step n (t, TrUnlock) s =
     (if t < n \<and> tr_pc s t = TrCritical then
        Some (s\<lparr>thread_count := Tricky_sub (thread_count s), tr_pc := (tr_pc s)(t := TrIdle)\<rparr>)
      else None)"

fun tricky_counted :: "tricky_pc \<Rightarrow> bool" where
  "tricky_counted TrIdle = False"
| "tricky_counted TrTrying = False"
| "tricky_counted TrBack = True"
| "tricky_counted TrCritical = True"

definition tricky_inv :: "nat \<Rightarrow> tricky_state \<Rightarrow> bool" where
  "tricky_inv n s \<longleftrightarrow>
     thread_count s = of_nat (cnt n tricky_counted (tr_pc s)) \<and>
     (\<forall>t\<ge>n. tr_pc s t = TrIdle) \<and>
     (\<forall>t u. tr_pc s t = TrCritical \<longrightarrow> tr_pc s u = TrCritical \<longrightarrow> t = u)"

lemma tricky_inv_step:
  assumes n: "n < 2 ^ 64" and inv: "tricky_inv n s" and st: "tricky_step n a s = Some s'"
  shows "tricky_inv n s'"
proof -
  obtain t b where a: "a = (t, b)" by (cases a)
  from st a have t: "t < n" by (cases b) (auto split: if_splits)
  let ?c = "cnt n tricky_counted (tr_pc s)"
  have U: "cnt n tricky_counted ((tr_pc s)(t := p)) + of_bool (tricky_counted (tr_pc s t))
      = ?c + of_bool (tricky_counted p)" for p
    by (rule cnt_upd [OF t])
  have I: "thread_count s = of_nat ?c" "\<And>t. t \<ge> n \<Longrightarrow> tr_pc s t = TrIdle"
    "\<And>t u. tr_pc s t = TrCritical \<Longrightarrow> tr_pc s u = TrCritical \<Longrightarrow> t = u"
    using inv by (auto simp: tricky_inv_def)
  show ?thesis
  proof (cases b)
    case TrCall
    with st a I U [of TrTrying] show ?thesis
      by (auto simp: tricky_inv_def split: if_splits)
  next
    case TrAdd
    have "of_nat ?c = (0 :: size_t) \<Longrightarrow> ?c = 0"
      using of_nat_size_t_inj [of ?c 0] n cnt_le [of n tricky_counted "tr_pc s"] by simp
    then have "thread_count s = 0 \<Longrightarrow> tr_pc s u \<noteq> TrCritical" for u
      using I(1) I(2) [of u] cnt_0_iff [of n tricky_counted "tr_pc s"]
      by (cases "u < n") auto
    moreover have "\<not> thread_count s > 0 \<longleftrightarrow> thread_count s = 0" by (simp add: word_gt_0)
    ultimately show ?thesis
      using st a I TrAdd U [of TrCritical] U [of TrBack]
      by (auto simp: tricky_inv_def Tricky_Lock_add_def add.commute
          split: if_splits)
  next
    case TrSub
    with st a I U [of TrTrying] show ?thesis
      by (auto simp: tricky_inv_def Tricky_sub_def intro: of_nat_pred split: if_splits)
  next
    case TrUnlock
    with st a I U [of TrIdle] show ?thesis
      by (auto simp: tricky_inv_def Tricky_sub_def intro: of_nat_pred split: if_splits)
  qed
qed

lemma tricky_inv_start: "tricky_inv n tricky_start"
  by (simp add: tricky_inv_def tricky_start_def cnt_const)

text \<open>The interpretation is for the largest number of threads whose counter cannot wrap.\<close>

interpretation tricky: mutual_exclusion tricky_start "tricky_step (2 ^ 64 - 1)"
    "tricky_inv (2 ^ 64 - 1)" "\<lambda>s t. tr_pc s t = TrCritical"
proof unfold_locales
  fix s a s' assume "tricky_inv (2 ^ 64 - 1) s" "tricky_step (2 ^ 64 - 1) a s = Some s'"
  then show "tricky_inv (2 ^ 64 - 1) s'" by (rule tricky_inv_step [rotated]) simp
next
  fix s t u assume "tricky_inv (2 ^ 64 - 1) s" "tr_pc s t = TrCritical" "tr_pc s u = TrCritical"
  then show "t = u" unfolding tricky_inv_def by blast
qed (rule tricky_inv_start)

text \<open>TrickyLock is safe but not live. For fewer than \<open>2 ^ 64\<close> threads no schedule lets two
  threads into the critical section; and there is a schedule of two threads that reaches a
  state with the lock held by nobody, from which four further steps (each thread steps back
  and tries again) lead back to that very state, again with nobody inside.\<close>

theorem tricky_safe_but_livelocks:
  "(\<forall>sched t u. tr_pc (run (tricky_step (2 ^ 64 - 1)) sched tricky_start) t = TrCritical \<longrightarrow>
      tr_pc (run (tricky_step (2 ^ 64 - 1)) sched tricky_start) u = TrCritical \<longrightarrow> t = u) \<and>
   (let s = run (tricky_step 2) [(0, TrCall), (0, TrAdd), (1, TrCall), (1, TrAdd), (0, TrUnlock),
              (0, TrCall), (0, TrAdd)] tricky_start;
        round = [(1, TrSub), (1, TrAdd), (0, TrSub), (0, TrAdd)]
    in run (tricky_step 2) round s = s \<and>
       (\<forall>k \<le> 4. \<forall>t \<in> {0, 1}. tr_pc (run (tricky_step 2) (take k round) s) t \<noteq> TrCritical))"
proof -
  have "\<forall>sched t u. tr_pc (run (tricky_step (2 ^ 64 - 1)) sched tricky_start) t = TrCritical \<longrightarrow>
      tr_pc (run (tricky_step (2 ^ 64 - 1)) sched tricky_start) u = TrCritical \<longrightarrow> t = u"
    using tricky.run_excl by blast
  moreover have "k \<le> 4 \<longleftrightarrow> k \<in> {0, 1, 2, 3, 4}" for k :: nat by auto
  ultimately show ?thesis
    by (simp add: tricky_start_def Tricky_Lock_add_def Tricky_sub_def stutter_def Let_def
        fun_upd_twist fun_eq_iff)
qed

lemma tricky_safe_but_livelocks_witness:
  "let s = run (tricky_step (2 ^ 64 - 1)) [(3, TrCall), (3, TrAdd), (4, TrCall), (4, TrAdd)] tricky_start
   in tr_pc s 3 = TrCritical \<and> tr_pc s 4 \<noteq> TrCritical"
proof -
  let ?s = "run (tricky_step (2 ^ 64 - 1)) [(3, TrCall), (3, TrAdd), (4, TrCall), (4, TrAdd)] tricky_start"
  have c: "tr_pc ?s 3 = TrCritical"
    by (simp add: tricky_start_def Tricky_Lock_add_def stutter_def)
  have "tr_pc ?s 4 \<noteq> TrCritical"
  proof
    assume "tr_pc ?s 4 = TrCritical"
    from tricky_safe_but_livelocks [THEN conjunct1, rule_format, OF c this] show False by simp
  qed
  with c show ?thesis unfolding Let_def by (rule conjI)
qed

subsection \<open>The livelock simulation\<close>

text \<open>
  \<open>mutex/livelock/sim.cpp\<close>: two fibers run the contender's loop and switch at \<open>Yield\<close>, so a
  resumed fiber runs from one Yield to the next. The suspension points carry the iteration.
\<close>

datatype sim_at = SimStart | SimYield1 nat | SimYield2 nat | SimDone

record sim_state =
  sim_thread_count :: size_t
  sim_cs_count :: size_t

definition kIterations :: nat where "kIterations = 100"

definition contender_lock :: "nat \<Rightarrow> sim_state \<Rightarrow> sim_at \<times> sim_state" where
  "contender_lock i s =
     (let s' = s\<lparr>sim_thread_count := sim_thread_count s + 1\<rparr>
      in if sim_thread_count s > 0 then (SimYield1 i, s')
         else (SimYield2 i, s'\<lparr>sim_cs_count := sim_cs_count s + 1\<rparr>))"

definition contender_for :: "nat \<Rightarrow> sim_state \<Rightarrow> sim_at \<times> sim_state" where
  "contender_for i s = (if i < kIterations then contender_lock i s else (SimDone, s))"

definition contender_resume :: "sim_at \<Rightarrow> sim_state \<Rightarrow> sim_at \<times> sim_state" where
  "contender_resume p s =
     (let s' = s\<lparr>sim_thread_count := sim_thread_count s - 1\<rparr>
      in case p of
           SimStart \<Rightarrow> contender_for 0 s
         | SimYield1 i \<Rightarrow> contender_lock i s'
         | SimYield2 i \<Rightarrow> contender_for (Suc i) s'
         | SimDone \<Rightarrow> (SimDone, s))"

text \<open>The scheduler of the simulation resumes the two fibers in turn.\<close>

fun LiveLock :: "nat \<Rightarrow> sim_at \<times> sim_at \<times> sim_state" where
  "LiveLock 0 = (SimStart, SimStart, \<lparr>sim_thread_count = 0, sim_cs_count = 0\<rparr>)"
| "LiveLock (Suc k) =
     (let (p, q, s) = LiveLock k;
          (p', s') = contender_resume p s;
          (q', s'') = contender_resume q s'
      in (p', q', s''))"

lemma LiveLock_stuck:
  "LiveLock (Suc (Suc k)) = (SimYield1 1, SimYield1 0, \<lparr>sim_thread_count = 2, sim_cs_count = 1\<rparr>)"
  by (induction k)
     (simp_all add: contender_resume_def contender_for_def contender_lock_def kIterations_def Let_def)

text \<open>the livelock simulation never ends and never passes its second critical section: when
  the two fibers are resumed in turn, then after every number of rounds from the second on both
  fibers are stepping back, no fiber is done, and exactly one critical section was executed (the
  assertion \<open>cs_count < 3\<close> of the code holds throughout).\<close>

theorem livelock_simulation_never_ends:
  "let (p, q, s) = LiveLock k
   in (2 \<le> k \<longrightarrow> p = SimYield1 1 \<and> q = SimYield1 0 \<and> sim_cs_count s = 1) \<and>
      p \<noteq> SimDone \<and> q \<noteq> SimDone \<and> sim_cs_count s < 3"
proof -
  consider "k = 0" | "k = 1" | j where "k = Suc (Suc j)" by (metis One_nat_def not0_implies_Suc)
  then show ?thesis
  proof cases
    case 3
    then show ?thesis by (simp add: LiveLock_stuck del: LiveLock.simps)
  qed (simp_all add: contender_resume_def contender_for_def contender_lock_def kIterations_def Let_def)
qed

lemma livelock_simulation_never_ends_witness:
  "case LiveLock 1000 of (p, q, s) \<Rightarrow> p = SimYield1 1 \<and> sim_cs_count s = 1"
  using livelock_simulation_never_ends [of 1000] unfolding Let_def by (auto split: prod.splits)

end
