(* ===== verification/TicketLock.thy ===== *)
theory TicketLock
  imports Prelude
begin

section \<open>TicketLock\<close>

text \<open>
  \<open>mutex/try-lock/ticket_lock.hpp\<close>. Tickets are \<open>uint64_t\<close> words. \<open>Lock\<close> is two atomic
  operations (take a ticket, then poll the owner), \<open>TryLock\<close> is two (load the owner,
  compare-and-swap the next ticket), \<open>Unlock\<close> is one. A thread in its critical section
  remembers the ticket it entered with, for the statements only.
\<close>

record ticket_lock =
  next_free_ticket :: u64
  owner_ticket :: u64

definition ticket_init :: ticket_lock where
  "ticket_init = \<lparr>next_free_ticket = 0, owner_ticket = 0\<rparr>"

definition Ticket_Lock_take :: "ticket_lock \<Rightarrow> u64 \<times> ticket_lock" where
  "Ticket_Lock_take l = (next_free_ticket l, l\<lparr>next_free_ticket := next_free_ticket l + 1\<rparr>)"

definition Ticket_Lock_poll :: "ticket_lock \<Rightarrow> u64 \<Rightarrow> bool" where
  "Ticket_Lock_poll l this_thread_ticket \<longleftrightarrow> \<not> (this_thread_ticket \<noteq> owner_ticket l)"

definition Ticket_TryLock_load :: "ticket_lock \<Rightarrow> u64" where
  "Ticket_TryLock_load l = owner_ticket l"

definition Ticket_TryLock_cas :: "ticket_lock \<Rightarrow> u64 \<Rightarrow> bool \<times> ticket_lock" where
  "Ticket_TryLock_cas l owner =
     (if next_free_ticket l = owner then (True, l\<lparr>next_free_ticket := owner + 1\<rparr>) else (False, l))"

definition Ticket_Unlock :: "ticket_lock \<Rightarrow> ticket_lock" where
  "Ticket_Unlock l = l\<lparr>owner_ticket := owner_ticket l + 1\<rparr>"

lemmas ticket_ops = ticket_init_def Ticket_Lock_take_def Ticket_Lock_poll_def
  Ticket_TryLock_load_def Ticket_TryLock_cas_def Ticket_Unlock_def

datatype tl_pc = TlIdle | TlWaiting u64 | TlTrying u64 | TlCritical u64

datatype tl_act = TlLock | TlPoll | TlTryLoad | TlTryCas | TlUnlock

record tl_state =
  tl_lock :: ticket_lock
  tl_pc :: "tid \<Rightarrow> tl_pc"

definition tl_start :: tl_state where
  "tl_start = \<lparr>tl_lock = ticket_init, tl_pc = (\<lambda>_. TlIdle)\<rparr>"

fun tl_step :: "tid \<times> tl_act \<Rightarrow> tl_state \<Rightarrow> tl_state option" where
  "tl_step (t, TlLock) s = (case tl_pc s t of
     TlIdle \<Rightarrow> (let (tk, l) = Ticket_Lock_take (tl_lock s)
       in Some (s\<lparr>tl_lock := l, tl_pc := (tl_pc s)(t := TlWaiting tk)\<rparr>))
   | _ \<Rightarrow> None)"
| "tl_step (t, TlPoll) s = (case tl_pc s t of
     TlWaiting tk \<Rightarrow>
       if Ticket_Lock_poll (tl_lock s) tk
       then Some (s\<lparr>tl_pc := (tl_pc s)(t := TlCritical tk)\<rparr>) else Some s
   | _ \<Rightarrow> None)"
| "tl_step (t, TlTryLoad) s = (case tl_pc s t of
     TlIdle \<Rightarrow> Some (s\<lparr>tl_pc := (tl_pc s)(t := TlTrying (Ticket_TryLock_load (tl_lock s)))\<rparr>)
   | _ \<Rightarrow> None)"
| "tl_step (t, TlTryCas) s = (case tl_pc s t of
     TlTrying ow \<Rightarrow> (let (ok, l) = Ticket_TryLock_cas (tl_lock s) ow
       in Some (s\<lparr>tl_lock := l, tl_pc := (tl_pc s)(t := if ok then TlCritical ow else TlIdle)\<rparr>))
   | _ \<Rightarrow> None)"
| "tl_step (t, TlUnlock) s = (case tl_pc s t of
     TlCritical _ \<Rightarrow>
       Some (s\<lparr>tl_lock := Ticket_Unlock (tl_lock s), tl_pc := (tl_pc s)(t := TlIdle)\<rparr>)
   | _ \<Rightarrow> None)"

subsection \<open>The invariant: outstanding tickets are the interval from owner to next\<close>

text \<open>
  \<open>ow\<close> and \<open>nx\<close> are the two counters as natural numbers, \<open>tk t\<close> the number of \<open>t\<close>'s
  ticket. While fewer than \<open>2 ^ 64\<close> tickets were issued the words are these numbers.
\<close>

fun tl_active :: "tl_pc \<Rightarrow> bool" where
  "tl_active (TlWaiting _) = True"
| "tl_active (TlCritical _) = True"
| "tl_active _ = False"

fun tl_ok :: "nat \<Rightarrow> nat \<Rightarrow> nat \<Rightarrow> tl_pc \<Rightarrow> bool" where
  "tl_ok nx ow m TlIdle = True"
| "tl_ok nx ow m (TlWaiting w) = (w = of_nat m \<and> ow \<le> m \<and> m < nx)"
| "tl_ok nx ow m (TlCritical w) = (w = of_nat m \<and> ow = m \<and> m < nx)"
| "tl_ok nx ow m (TlTrying w) = (\<exists>j \<le> ow. w = of_nat j)"

definition tl_num :: "nat \<Rightarrow> nat \<Rightarrow> (tid \<Rightarrow> nat) \<Rightarrow> tl_state \<Rightarrow> bool" where
  "tl_num nx ow tk s \<longleftrightarrow>
     ow \<le> nx \<and> next_free_ticket (tl_lock s) = of_nat nx \<and> owner_ticket (tl_lock s) = of_nat ow \<and>
     (\<forall>t. tl_ok nx ow (tk t) (tl_pc s t)) \<and>
     (\<forall>t u. tl_active (tl_pc s t) \<longrightarrow> tl_active (tl_pc s u) \<longrightarrow> tk t = tk u \<longrightarrow> t = u) \<and>
     (\<forall>m. ow \<le> m \<longrightarrow> m < nx \<longrightarrow> (\<exists>t. tl_active (tl_pc s t) \<and> tk t = m))"

definition tl_inv :: "nat \<Rightarrow> tl_state \<Rightarrow> bool" where
  "tl_inv k s \<longleftrightarrow> (\<exists>nx ow tk. nx \<le> k \<and> tl_num nx ow tk s)"

lemma tl_numD:
  assumes "tl_num nx ow tk s"
  shows "ow \<le> nx" "next_free_ticket (tl_lock s) = of_nat nx" "owner_ticket (tl_lock s) = of_nat ow"
    "\<And>t. tl_ok nx ow (tk t) (tl_pc s t)"
    "\<And>t u. tl_active (tl_pc s t) \<Longrightarrow> tl_active (tl_pc s u) \<Longrightarrow> tk t = tk u \<Longrightarrow> t = u"
    "\<And>m. ow \<le> m \<Longrightarrow> m < nx \<Longrightarrow> \<exists>t. tl_active (tl_pc s t) \<and> tk t = m"
  using assms unfolding tl_num_def by blast+

lemma tl_ok_mono: "tl_ok nx ow m p \<Longrightarrow> nx \<le> nx' \<Longrightarrow> tl_ok nx' ow m p"
  by (cases p) auto

lemma tl_ok_active_ge: "tl_ok nx ow m p \<Longrightarrow> tl_active p \<Longrightarrow> ow \<le> m \<and> m < nx"
  by (cases p) auto

lemma tl_numI:
  assumes "ow \<le> nx" "next_free_ticket (tl_lock s) = of_nat nx" "owner_ticket (tl_lock s) = of_nat ow"
    "\<And>t. tl_ok nx ow (tk t) (tl_pc s t)"
    "\<And>t u. tl_active (tl_pc s t) \<Longrightarrow> tl_active (tl_pc s u) \<Longrightarrow> tk t = tk u \<Longrightarrow> t = u"
    "\<And>m. ow \<le> m \<Longrightarrow> m < nx \<Longrightarrow> \<exists>t. tl_active (tl_pc s t) \<and> tk t = m"
  shows "tl_num nx ow tk s"
  using assms unfolding tl_num_def by blast

lemma tl_num_cong:
  assumes "tl_num nx ow tk s" and "tl_lock s' = tl_lock s"
    and "\<And>u. tl_ok nx ow (tk u) (tl_pc s' u)" and "\<And>u. tl_active (tl_pc s' u) = tl_active (tl_pc s u)"
  shows "tl_num nx ow tk s'"
  using assms(1) unfolding tl_num_def by (simp add: assms(2-4))

lemma tl_issue:
  assumes "tl_num nx ow tk s" and "\<not> tl_active (tl_pc s t)"
    and "p = TlWaiting (of_nat nx) \<or> (p = TlCritical (of_nat nx) \<and> nx = ow)"
  shows "tl_num (Suc nx) ow (tk(t := nx))
    (s\<lparr>tl_lock := (tl_lock s)\<lparr>next_free_ticket := of_nat nx + 1\<rparr>, tl_pc := (tl_pc s)(t := p)\<rparr>)"
proof -
  note D = tl_numD [OF assms(1)]
  have p: "tl_active p" "tl_ok (Suc nx) ow nx p" using assms(3) D(1) by auto
  have below: "tk u < nx" if "tl_active (tl_pc s u)" for u
    using tl_ok_active_ge [OF D(4) that] by simp
  show ?thesis
  proof (rule tl_numI, goal_cases)
    case (4 u)
    show ?case using p D(4) [of u] tl_ok_mono [of nx ow "tk u" "tl_pc s u" "Suc nx"] by simp
  next
    case (5 u v)
    then show ?case using D(5) [of u v] below [of u] below [of v] by (auto split: if_splits)
  next
    case (6 m)
    show ?case
    proof (cases "m = nx")
      case True
      with p show ?thesis by (intro exI [of _ t]) simp
    next
      case False
      with 6 obtain u where "tl_active (tl_pc s u)" "tk u = m" using D(6) [of m] by auto
      moreover from this assms(2) have "u \<noteq> t" by auto
      ultimately show ?thesis by (intro exI [of _ u]) simp
    qed
  qed (use D(1-3) in \<open>simp_all add: add.commute\<close>)
qed

lemma tl_release:
  assumes "tl_num nx ow tk s" and "tl_pc s t = TlCritical w"
  shows "tl_num nx (Suc ow) tk
    (s\<lparr>tl_lock := Ticket_Unlock (tl_lock s), tl_pc := (tl_pc s)(t := TlIdle)\<rparr>)"
proof -
  note D = tl_numD [OF assms(1)]
  have t: "tk t = ow" "ow < nx" using D(4) [of t] assms(2) by auto
  have other: "tk u \<noteq> ow" if "tl_active (tl_pc s u)" "u \<noteq> t" for u
    using D(5) [of u t] that t assms(2) by auto
  show ?thesis
  proof (rule tl_numI, goal_cases)
    case (4 u)
    show ?case using other [of u] D(4) [of u] by (cases "tl_pc s u") (auto intro: le_SucI)
  next
    case (5 u v)
    then show ?case using D(5) [of u v] by (auto split: if_splits)
  next
    case (6 m)
    then obtain u where "tl_active (tl_pc s u)" "tk u = m" using D(6) [of m] by auto
    moreover from this 6 t have "u \<noteq> t" by auto
    ultimately show ?case by (intro exI [of _ u]) simp
  qed (use D(1-3) t in \<open>simp_all add: Ticket_Unlock_def add.commute\<close>)
qed

lemma tl_enter:
  assumes "tl_num nx ow tk s" and "nx < 2 ^ 64"
    and "tl_pc s t = TlWaiting w" and "w = owner_ticket (tl_lock s)"
  shows "tl_num nx ow tk (s\<lparr>tl_pc := (tl_pc s)(t := TlCritical w)\<rparr>)"
proof -
  note D = tl_numD [OF assms(1)]
  have t: "w = of_nat (tk t)" "tk t < nx" using D(4) [of t] assms(3) by simp_all
  have "(of_nat (tk t) :: u64) = of_nat ow" using t(1) assms(4) D(3) by metis
  then have "tk t = ow" using of_nat_size_t_inj [of "tk t" ow] t(2) D(1) assms(2) by linarith
  with t have ok: "tl_ok nx ow (tk t) (TlCritical w)" by simp
  show ?thesis
    by (rule tl_num_cong [OF assms(1)]) (use ok D(4) assms(3) in auto)
qed

lemma tl_inactive_upd:
  assumes "tl_num nx ow tk s" and "\<not> tl_active (tl_pc s t)" and "\<not> tl_active p" and "tl_ok nx ow (tk t) p"
  shows "tl_num nx ow tk (s\<lparr>tl_pc := (tl_pc s)(t := p)\<rparr>)"
  by (rule tl_num_cong [OF assms(1)]) (use assms(2-4) tl_numD(4) [OF assms(1)] in auto)

lemma tl_invI: "tl_num nx ow tk s \<Longrightarrow> nx \<le> k \<Longrightarrow> tl_inv k s"
  by (auto simp: tl_inv_def)

lemma tl_inv_step:
  assumes k: "k < 2 ^ 64 - 1" and inv: "tl_inv k s" and st: "tl_step a s = Some s'"
  shows "tl_inv (Suc k) s'"
proof -
  from inv obtain nx ow tk where nx: "nx \<le> k" and N: "tl_num nx ow tk s" by (auto simp: tl_inv_def)
  note D = tl_numD [OF N]
  obtain t b where a: "a = (t, b)" by (cases a)
  show ?thesis
  proof (cases b)
    case TlLock
    with st a obtain "tl_pc s t = TlIdle"
      and s': "s' = s\<lparr>tl_lock := (tl_lock s)\<lparr>next_free_ticket := of_nat nx + 1\<rparr>,
        tl_pc := (tl_pc s)(t := TlWaiting (of_nat nx))\<rparr>"
      by (auto simp: Ticket_Lock_take_def D split: tl_pc.splits)
    then have "tl_num (Suc nx) ow (tk(t := nx)) s'" unfolding s'
      by (intro tl_issue [OF N]) auto
    then show ?thesis by (rule tl_invI) (use nx in simp)
  next
    case TlPoll
    with st a obtain w where w: "tl_pc s t = TlWaiting w"
      and s': "s' = (if w = owner_ticket (tl_lock s) then s\<lparr>tl_pc := (tl_pc s)(t := TlCritical w)\<rparr> else s)"
      by (auto simp: Ticket_Lock_poll_def split: tl_pc.splits if_splits)
    have "tl_num nx ow tk s'" unfolding s'
      using tl_enter [OF N _ w] N nx k by auto
    then show ?thesis by (rule tl_invI) (use nx in simp)
  next
    case TlTryLoad
    with st a have pc: "tl_pc s t = TlIdle"
      and s': "s' = s\<lparr>tl_pc := (tl_pc s)(t := TlTrying (of_nat ow))\<rparr>"
      by (auto simp: Ticket_TryLock_load_def D split: tl_pc.splits)
    then have "tl_num nx ow tk s'" unfolding s'
      by (intro tl_inactive_upd [OF N]) auto
    then show ?thesis by (rule tl_invI) (use nx in simp)
  next
    case TlTryCas
    with st a obtain w where w: "tl_pc s t = TlTrying w"
      and s': "s' = (if next_free_ticket (tl_lock s) = w
         then s\<lparr>tl_lock := (tl_lock s)\<lparr>next_free_ticket := w + 1\<rparr>, tl_pc := (tl_pc s)(t := TlCritical w)\<rparr>
         else s\<lparr>tl_pc := (tl_pc s)(t := TlIdle)\<rparr>)"
      by (auto simp: Ticket_TryLock_cas_def split: tl_pc.splits if_splits)
    show ?thesis
    proof (cases "next_free_ticket (tl_lock s) = w")
      case True
      from D(4) [of t] w obtain j where "j \<le> ow" "w = of_nat j" by auto
      with True D(1,2) nx k have "j = nx" and "nx = ow"
        using of_nat_size_t_inj [of nx j] by auto
      then have "tl_num (Suc nx) ow (tk(t := nx)) s'" unfolding s'
        using True D(2) w tl_issue [OF N, of t "TlCritical (of_nat nx)"] by simp
      then show ?thesis by (rule tl_invI) (use nx in simp)
    next
      case False
      then have "tl_num nx ow tk s'" unfolding s'
        using tl_inactive_upd [OF N, of t TlIdle] w by simp
      then show ?thesis by (rule tl_invI) (use nx in simp)
    qed
  next
    case TlUnlock
    with st a obtain w where w: "tl_pc s t = TlCritical w"
      and s': "s' = s\<lparr>tl_lock := Ticket_Unlock (tl_lock s), tl_pc := (tl_pc s)(t := TlIdle)\<rparr>"
      by (auto split: tl_pc.splits)
    have "tl_num nx (Suc ow) tk s'" unfolding s' by (rule tl_release [OF N w])
    then show ?thesis by (rule tl_invI) (use nx in simp)
  qed
qed

interpretation tl: counted_inv_system tl_start tl_step tl_inv "2 ^ 64 - 1"
proof unfold_locales
  show "tl_inv 0 tl_start"
    unfolding tl_inv_def tl_num_def tl_start_def ticket_init_def
    by (intro exI [of _ "0::nat"] exI [of _ "\<lambda>_::tid. 0::nat"]) simp
next
  fix k s assume "tl_inv k s" then show "tl_inv (Suc k) s"
    unfolding tl_inv_def by (meson le_Suc_eq)
qed (rule tl_inv_step)

subsection \<open>What the invariant gives\<close>

text \<open>C32: TicketLock is a mutual-exclusion lock on every interleaving of Lock, TryLock and
  Unlock shorter than \<open>2 ^ 64\<close> steps (so that no ticket counter has wrapped around): two
  threads that are both in their critical section are the same thread.\<close>

theorem ticket_mutual_exclusion:
  assumes "length sched < 2 ^ 64"
    and "tl_pc (run tl_step sched tl_start) t = TlCritical v"
    and "tl_pc (run tl_step sched tl_start) u = TlCritical w"
  shows "t = u"
proof -
  have "tl_inv (length sched) (run tl_step sched tl_start)"
    by (rule tl.counted_run) (use assms(1) in simp)
  then obtain nx ow tk where "tl_num nx ow tk (run tl_step sched tl_start)" by (auto simp: tl_inv_def)
  note D = tl_numD [OF this]
  from D(4) [of t] D(4) [of u] D(5) [of t u] assms show ?thesis by simp
qed

lemma ticket_mutual_exclusion_witness:
  "let s = run tl_step [(3, TlTryLoad), (3, TlTryCas), (5, TlLock), (5, TlPoll)] tl_start
   in tl_pc s 3 = TlCritical 0 \<and> tl_pc s 5 \<noteq> TlCritical 1"
proof -
  let ?sched = "[(3, TlTryLoad), (3, TlTryCas), (5, TlLock), (5, TlPoll)]"
  have "length ?sched < 2 ^ 64" "tl_pc (run tl_step ?sched tl_start) 3 = TlCritical 0"
    by (simp_all add: tl_start_def ticket_ops stutter_def)
  from ticket_mutual_exclusion [OF this, of 5 1] this(2) show ?thesis by (auto simp: Let_def)
qed

text \<open>C33: TicketLock grants the lock in ticket order and never strands it: while a thread is
  in its critical section every waiting thread has a later ticket, and whenever a ticket is
  outstanding some thread either is in its critical section or enters at its next poll.\<close>

theorem ticket_fifo_and_progress:
  assumes "length sched < 2 ^ 64" and "s = run tl_step sched tl_start"
  shows "(tl_pc s t = TlCritical v \<longrightarrow> tl_pc s u = TlWaiting w \<longrightarrow> unat v < unat w) \<and>
    (next_free_ticket (tl_lock s) \<noteq> owner_ticket (tl_lock s) \<longrightarrow>
      (\<exists>h. tl_pc s h = TlCritical (owner_ticket (tl_lock s)) \<or>
        (\<exists>s'. tl_step (h, TlPoll) s = Some s' \<and> tl_pc s' h = TlCritical (owner_ticket (tl_lock s)))))"
proof -
  have "tl_inv (length sched) s"
    unfolding assms(2) by (rule tl.counted_run) (use assms(1) in simp)
  then obtain nx ow tk where "nx \<le> length sched" and N: "tl_num nx ow tk s"
    by (auto simp: tl_inv_def)
  then have nx: "nx < 2 ^ 64" using assms(1) by simp
  note D = tl_numD [OF N]
  have "unat v < unat w" if "tl_pc s t = TlCritical v" "tl_pc s u = TlWaiting w"
  proof -
    from that D(4) [of t] D(4) [of u] have v: "v = of_nat ow" "tk t = ow" and w: "w = of_nat (tk u)"
      "ow \<le> tk u" "tk u < nx" by auto
    moreover have "tk u \<noteq> ow"
    proof
      assume "tk u = ow"
      with v(2) that have "t = u" by (intro D(5) [of t u]) simp_all
      with that show False by simp
    qed
    moreover have "unat (of_nat ow :: u64) = ow" and "unat (of_nat (tk u) :: u64) = tk u"
      using nx w by (intro unat_of_nat_64; linarith)+
    ultimately show ?thesis by simp
  qed
  moreover have "\<exists>h. tl_pc s h = TlCritical (owner_ticket (tl_lock s)) \<or>
      (\<exists>s'. tl_step (h, TlPoll) s = Some s' \<and> tl_pc s' h = TlCritical (owner_ticket (tl_lock s)))"
    if "next_free_ticket (tl_lock s) \<noteq> owner_ticket (tl_lock s)"
  proof -
    have "ow \<noteq> nx" using that D(2,3) by metis
    then have "ow < nx" using D(1) by linarith
    then obtain h where h: "tl_active (tl_pc s h)" "tk h = ow" using D(6) by blast
    from D(3) D(4) [of h] h(2) show ?thesis
      by (intro exI [of _ h], cases "tl_pc s h") (use h(1) in \<open>simp_all add: Ticket_Lock_poll_def\<close>)
  qed
  ultimately show ?thesis by blast
qed

lemma ticket_fifo_and_progress_witness:
  "unat (0 :: u64) < unat (1 :: u64) \<and>
   tl_pc (run tl_step [(7, TlLock), (2, TlLock), (2, TlPoll), (7, TlPoll)] tl_start) 7 = TlCritical 0"
proof -
  let ?s = "run tl_step [(7, TlLock), (2, TlLock), (2, TlPoll), (7, TlPoll)] tl_start"
  have pcs: "tl_pc ?s 7 = TlCritical 0" "tl_pc ?s 2 = TlWaiting 1"
    by (simp_all add: tl_start_def ticket_ops stutter_def)
  have "unat (0 :: u64) < unat (1 :: u64)"
    by (rule ticket_fifo_and_progress [THEN conjunct1, rule_format, OF _ refl pcs]) simp
  with pcs(1) show ?thesis by simp
qed

end
