(* ===== verification/McsLock.thy ===== *)
theory McsLock
  imports Prelude
begin

section \<open>QueueSpinLock: a queue of guards\<close>

text \<open>
  \<open>mutex/queue/queue_spinlock.hpp\<close>. A \<open>Guard\<close> lives from its constructor (Acquire) to its
  destructor (Release), one per thread at a time, so a guard is named by its thread. The
  program points are the atomic operations of the two functions: the exchange of the tail,
  the store to \<open>is_owner\<close>, the store to the predecessor's \<open>next\<close>, the spin load, and in
  Release the load of \<open>next\<close>, the compare-and-swap of the tail, the hand-over store.
\<close>

datatype mcs_pc =
    McIdle
  | McSetOwner "tid option"  \<comment> \<open>after the exchange, with \<open>prev_tail\<close>\<close>
  | McLink tid               \<comment> \<open>about to store \<open>prev_tail->next\<close>\<close>
  | McSpin
  | McCritical
  | McRelCas                 \<comment> \<open>Release saw \<open>next == nullptr\<close>\<close>
  | McRelGrant               \<comment> \<open>Release saw a successor\<close>

record mcs_state =
  mc_tail :: "tid option"
  mc_next :: "tid \<Rightarrow> tid option"
  mc_owner :: "tid \<Rightarrow> bool"
  mc_pc :: "tid \<Rightarrow> mcs_pc"

definition mcs_start :: mcs_state where
  "mcs_start = \<lparr>mc_tail = None, mc_next = (\<lambda>_. None), mc_owner = (\<lambda>_. False), mc_pc = (\<lambda>_. McIdle)\<rparr>"

datatype mcs_act = McGuard | McStep | McDestroy

text \<open>\<open>Guard(host)\<close> initialises its two fields and runs the first operation of Acquire.\<close>

definition Guard_construct :: "tid \<Rightarrow> mcs_state \<Rightarrow> mcs_state" where
  "Guard_construct t s =
     s\<lparr>mc_next := (mc_next s)(t := None), mc_owner := (mc_owner s)(t := False),
       mc_tail := Some t, mc_pc := (mc_pc s)(t := McSetOwner (mc_tail s))\<rparr>"

definition Acquire_set_owner :: "tid \<Rightarrow> tid option \<Rightarrow> mcs_state \<Rightarrow> mcs_state" where
  "Acquire_set_owner t prev_tail s =
     (let is_owner = (prev_tail = None)
      in s\<lparr>mc_owner := (mc_owner s)(t := is_owner),
           mc_pc := (mc_pc s)(t := case prev_tail of None \<Rightarrow> McSpin | Some p \<Rightarrow> McLink p)\<rparr>)"

definition Acquire_link :: "tid \<Rightarrow> tid \<Rightarrow> mcs_state \<Rightarrow> mcs_state" where
  "Acquire_link t p s = s\<lparr>mc_next := (mc_next s)(p := Some t), mc_pc := (mc_pc s)(t := McSpin)\<rparr>"

definition Acquire_spin :: "tid \<Rightarrow> mcs_state \<Rightarrow> mcs_state" where
  "Acquire_spin t s = (if mc_owner s t then s\<lparr>mc_pc := (mc_pc s)(t := McCritical)\<rparr> else s)"

text \<open>Release: the test at the head of the loop, the compare-and-swap, the hand-over.\<close>

definition Release_test :: "tid \<Rightarrow> mcs_state \<Rightarrow> mcs_state" where
  "Release_test t s =
     s\<lparr>mc_pc := (mc_pc s)(t := if mc_next s t = None then McRelCas else McRelGrant)\<rparr>"

definition Release_cas :: "tid \<Rightarrow> mcs_state \<Rightarrow> mcs_state" where
  "Release_cas t s =
     (if mc_tail s = Some t then s\<lparr>mc_tail := None, mc_pc := (mc_pc s)(t := McIdle)\<rparr>
      else Release_test t s)"

definition Release_grant :: "tid \<Rightarrow> mcs_state \<Rightarrow> mcs_state option" where
  "Release_grant t s = (case mc_next s t of
     None \<Rightarrow> None
   | Some w \<Rightarrow> Some (s\<lparr>mc_owner := (mc_owner s)(w := True), mc_pc := (mc_pc s)(t := McIdle)\<rparr>))"

lemmas mcs_ops = Guard_construct_def Acquire_set_owner_def Acquire_link_def Acquire_spin_def
  Release_test_def Release_cas_def Release_grant_def

fun mcs_step :: "tid \<times> mcs_act \<Rightarrow> mcs_state \<Rightarrow> mcs_state option" where
  "mcs_step (t, McGuard) s = (if mc_pc s t = McIdle then Some (Guard_construct t s) else None)"
| "mcs_step (t, McDestroy) s = (if mc_pc s t = McCritical then Some (Release_test t s) else None)"
| "mcs_step (t, McStep) s = (case mc_pc s t of
     McSetOwner prev \<Rightarrow> Some (Acquire_set_owner t prev s)
   | McLink p \<Rightarrow> Some (Acquire_link t p s)
   | McSpin \<Rightarrow> Some (Acquire_spin t s)
   | McRelCas \<Rightarrow> Some (Release_cas t s)
   | McRelGrant \<Rightarrow> Release_grant t s
   | _ \<Rightarrow> None)"

subsection \<open>The queue behind the pointers\<close>

text \<open>
  \<open>mcs_q q s\<close>: the live guards in the order of their exchanges are \<open>q\<close>. The first is the
  owner (or about to learn it), every other one waits, and the \<open>next\<close> pointer of a guard is
  its successor, or still null while the successor has not linked itself.
\<close>

fun mcs_first_ok :: "bool \<Rightarrow> mcs_pc \<Rightarrow> bool" where
  "mcs_first_ok ow McIdle = False"
| "mcs_first_ok ow (McSetOwner prev) = (prev = None)"
| "mcs_first_ok ow (McLink _) = False"
| "mcs_first_ok ow _ = ow"

fun mcs_wait_ok :: "tid \<Rightarrow> tid option \<Rightarrow> bool \<Rightarrow> tid \<Rightarrow> mcs_pc \<Rightarrow> bool" where
  "mcs_wait_ok p nx ow t (McSetOwner prev) = (prev = Some p \<and> nx = None)"
| "mcs_wait_ok p nx ow t (McLink q) = (q = p \<and> nx = None \<and> \<not> ow)"
| "mcs_wait_ok p nx ow t McSpin = (nx = Some t \<and> \<not> ow)"
| "mcs_wait_ok p nx ow t _ = False"

definition mcs_q :: "tid list \<Rightarrow> mcs_state \<Rightarrow> bool" where
  "mcs_q q s \<longleftrightarrow>
     distinct q \<and> (\<forall>t. t \<in> set q \<longleftrightarrow> mc_pc s t \<noteq> McIdle) \<and>
     mc_tail s = (if q = [] then None else Some (last q)) \<and>
     (q \<noteq> [] \<longrightarrow> mcs_first_ok (mc_owner s (hd q)) (mc_pc s (hd q)) \<and> mc_next s (last q) = None) \<and>
     (\<forall>i. Suc i < length q \<longrightarrow>
        mcs_wait_ok (q ! i) (mc_next s (q ! i)) (mc_owner s (q ! Suc i)) (q ! Suc i) (mc_pc s (q ! Suc i))) \<and>
     (\<forall>t. mc_pc s t = McRelGrant \<longrightarrow> mc_next s t \<noteq> None)"

definition mcs_inv :: "mcs_state \<Rightarrow> bool" where
  "mcs_inv s \<longleftrightarrow> (\<exists>q. mcs_q q s)"

lemma mcs_qD:
  assumes "mcs_q q s"
  shows "distinct q" "\<And>t. t \<in> set q \<longleftrightarrow> mc_pc s t \<noteq> McIdle"
    "mc_tail s = (if q = [] then None else Some (last q))"
    "q \<noteq> [] \<Longrightarrow> mcs_first_ok (mc_owner s (hd q)) (mc_pc s (hd q))"
    "q \<noteq> [] \<Longrightarrow> mc_next s (last q) = None"
    "\<And>i. Suc i < length q \<Longrightarrow>
      mcs_wait_ok (q ! i) (mc_next s (q ! i)) (mc_owner s (q ! Suc i)) (q ! Suc i) (mc_pc s (q ! Suc i))"
    "\<And>t. mc_pc s t = McRelGrant \<Longrightarrow> mc_next s t \<noteq> None"
  using assms unfolding mcs_q_def by blast+

text \<open>Where a live guard is in the queue decides what it can be doing.\<close>

lemma mcs_waiter:
  assumes "mcs_q q s" and "t \<in> set q" and "t \<noteq> hd q"
  obtains i where "Suc i < length q" "q ! Suc i = t"
    "mcs_wait_ok (q ! i) (mc_next s (q ! i)) (mc_owner s t) t (mc_pc s t)"
proof -
  from assms(2) obtain j where j: "j < length q" "q ! j = t" by (auto simp: in_set_conv_nth)
  have "j \<noteq> 0"
  proof
    assume "j = 0"
    with j have "hd q = t" by (cases q) auto
    with assms(3) show False by simp
  qed
  then obtain i where "j = Suc i" by (cases j) auto
  with j mcs_qD(6) [OF assms(1), of i] that show thesis by auto
qed

fun mcs_owner_pc :: "mcs_pc \<Rightarrow> bool" where
  "mcs_owner_pc McCritical = True"
| "mcs_owner_pc McRelCas = True"
| "mcs_owner_pc McRelGrant = True"
| "mcs_owner_pc _ = False"

lemma mcs_owner_is_first:
  assumes "mcs_q q s" and "mcs_owner_pc (mc_pc s t)"
  shows "q \<noteq> []" and "t = hd q"
proof -
  have t: "t \<in> set q" using mcs_qD(2) [OF assms(1), of t] assms(2) by auto
  then show "q \<noteq> []" by auto
  show "t = hd q"
  proof (rule ccontr)
    assume "t \<noteq> hd q"
    from mcs_waiter [OF assms(1) t this] obtain i where
      "mcs_wait_ok (q ! i) (mc_next s (q ! i)) (mc_owner s t) t (mc_pc s t)" by blast
    with assms(2) show False by (cases "mc_pc s t") auto
  qed
qed

lemma mcs_spin_owner_first:
  assumes "mcs_q q s" and "mc_pc s t = McSpin" and "mc_owner s t"
  shows "q \<noteq> [] \<and> t = hd q"
proof -
  have t: "t \<in> set q" using mcs_qD(2) [OF assms(1), of t] assms(2) by auto
  have "t = hd q"
  proof (rule ccontr)
    assume "t \<noteq> hd q"
    from mcs_waiter [OF assms(1) t this] obtain i where
      "mcs_wait_ok (q ! i) (mc_next s (q ! i)) (mc_owner s t) t (mc_pc s t)" by blast
    with assms(2,3) show False by simp
  qed
  with t show ?thesis by auto
qed

text \<open>Changes that keep the queue: one guard's program point, when the checks still pass.\<close>

lemma mcs_q_upd:
  assumes q: "mcs_q q s" and "t \<in> set q" and p: "p \<noteq> McIdle"
    and s': "mc_tail s' = mc_tail s" "mc_pc s' = (mc_pc s)(t := p)"
      "\<And>u. u \<noteq> t \<Longrightarrow> mc_owner s' u = mc_owner s u"
    and nx: "\<And>u. Suc 0 \<le> length q \<Longrightarrow> mc_next s' (last q) = None"
    and nxi: "\<And>i. Suc i < length q \<Longrightarrow> q ! Suc i \<noteq> t \<Longrightarrow> mc_next s' (q ! i) = mc_next s (q ! i)"
    and first: "t = hd q \<Longrightarrow> mcs_first_ok (mc_owner s' t) p"
    and wait: "\<And>i. Suc i < length q \<Longrightarrow> q ! Suc i = t \<Longrightarrow>
      mcs_wait_ok (q ! i) (mc_next s' (q ! i)) (mc_owner s' t) t p"
    and grant: "\<And>u. (mc_pc s' u = McRelGrant) \<Longrightarrow> mc_next s' u \<noteq> None"
  shows "mcs_q q s'"
proof -
  note D = mcs_qD [OF q]
  have ne: "q \<noteq> []" using assms(2) by auto
  have "mcs_wait_ok (q ! i) (mc_next s' (q ! i)) (mc_owner s' (q ! Suc i)) (q ! Suc i) (mc_pc s' (q ! Suc i))"
    if "Suc i < length q" for i
    using that wait [of i] nxi [of i] D(6) [of i] s' by (cases "q ! Suc i = t") auto
  moreover have "mcs_first_ok (mc_owner s' (hd q)) (mc_pc s' (hd q))"
    using first D(4) [OF ne] s' by (cases "t = hd q") auto
  moreover have "u \<in> set q \<longleftrightarrow> mc_pc s' u \<noteq> McIdle" for u
    using D(2) [of u] assms(2) p s'(2) by auto
  moreover have "mc_next s' (last q) = None" using nx ne by (cases q) auto
  ultimately show ?thesis
    unfolding mcs_q_def using D(1,3) s'(1) grant by simp
qed

lemma mcs_q_construct:
  assumes q: "mcs_q q s" and t: "mc_pc s t = McIdle"
  shows "mcs_q (q @ [t]) (Guard_construct t s)"
proof -
  note D = mcs_qD [OF q]
  have notin: "t \<notin> set q" using D(2) [of t] t by simp
  let ?s = "Guard_construct t s"
  have other: "u \<noteq> t" if "u \<in> set q" for u using that notin by auto
  have "mcs_wait_ok ((q @ [t]) ! i) (mc_next ?s ((q @ [t]) ! i)) (mc_owner ?s ((q @ [t]) ! Suc i))
      ((q @ [t]) ! Suc i) (mc_pc ?s ((q @ [t]) ! Suc i))" if i: "Suc i < length (q @ [t])" for i
  proof (cases "Suc i < length q")
    case True
    with D(6) [OF True] other [of "q ! i"] other [of "q ! Suc i"] show ?thesis
      by (simp add: Guard_construct_def nth_append)
  next
    case False
    with i have "Suc i = length q" by simp
    then have ne: "q \<noteq> []" by auto
    have "i = length q - 1" using \<open>Suc i = length q\<close> by simp
    with ne have l: "q ! i = last q" by (simp add: last_conv_nth)
    have "i < length q" using \<open>Suc i = length q\<close> by simp
    then have "(q @ [t]) ! i = last q" using l by simp
    moreover have "(q @ [t]) ! Suc i = t" using \<open>Suc i = length q\<close> by (simp add: nth_append)
    ultimately show ?thesis
      using D(3) D(5) [OF ne] other [of "last q"] ne by (simp add: Guard_construct_def)
  qed
  moreover have "mcs_first_ok (mc_owner ?s (hd (q @ [t]))) (mc_pc ?s (hd (q @ [t])))"
  proof (cases q)
    case Nil
    with D(3) show ?thesis by (simp add: Guard_construct_def)
  next
    case (Cons a q')
    with D(4) other [of a] show ?thesis by (simp add: Guard_construct_def)
  qed
  moreover have "mc_pc ?s u = McRelGrant \<Longrightarrow> mc_next ?s u \<noteq> None" for u
    using D(7) [of u] by (auto simp: Guard_construct_def split: if_splits)
  moreover have "u \<in> set (q @ [t]) \<longleftrightarrow> mc_pc ?s u \<noteq> McIdle" for u
    using D(2) [of u] by (auto simp: Guard_construct_def)
  ultimately show ?thesis
    unfolding mcs_q_def using D(1) notin by (simp add: Guard_construct_def)
qed

lemma mcs_q_set_owner:
  assumes q: "mcs_q q s" and t: "mc_pc s t = McSetOwner prev"
  shows "mcs_q q (Acquire_set_owner t prev s)"
proof -
  note D = mcs_qD [OF q]
  have mem: "t \<in> set q" using D(2) [of t] t by simp
  have first: "t = hd q \<longleftrightarrow> prev = None"
  proof (cases "t = hd q")
    case True
    with D(4) t mem show ?thesis by (cases q) auto
  next
    case False
    from mcs_waiter [OF q mem False] t False show ?thesis by auto
  qed
  show ?thesis
    by (rule mcs_q_upd [OF q mem, of "case prev of None \<Rightarrow> McSpin | Some p \<Rightarrow> McLink p"])
       (use D(5,7) D(6) t first in \<open>force simp: Acquire_set_owner_def Let_def split: option.splits if_splits\<close>)+
qed

lemma mcs_q_link:
  assumes q: "mcs_q q s" and t: "mc_pc s t = McLink p"
  shows "mcs_q q (Acquire_link t p s)" and "p \<in> set q" and "mc_pc s p \<noteq> McIdle"
proof -
  note D = mcs_qD [OF q]
  have mem: "t \<in> set q" using D(2) [of t] t by simp
  have "t \<noteq> hd q" using D(4) t mem by (cases q) auto
  from mcs_waiter [OF q mem this] t obtain i where
    i: "Suc i < length q" "q ! Suc i = t" "q ! i = p" and nx: "mc_next s p = None" "\<not> mc_owner s t"
    by auto
  then show p: "p \<in> set q" by (metis Suc_lessD nth_mem)
  with D(2) [of p] show "mc_pc s p \<noteq> McIdle" by simp
  have uniq: "j = i" if "j < length q" "q ! j = p" for j
    using that i D(1) by (metis Suc_lessD nth_eq_iff_index_eq)
  have ne: "q \<noteq> []" using mem by auto
  have notlast: "last q \<noteq> p"
  proof
    assume "last q = p"
    moreover have "q \<noteq> []" using mem by auto
    ultimately have "length q - 1 = i" by (intro uniq) (auto simp: last_conv_nth)
    with i(1) show False by simp
  qed
  show "mcs_q q (Acquire_link t p s)"
  proof (rule mcs_q_upd [OF q mem, of McSpin], goal_cases)
    case (6 j)
    then show ?case using uniq [of j] i by (auto simp: Acquire_link_def)
  next
    case (8 j)
    then have "j = i" using i D(1) by (metis Suc_inject nth_eq_iff_index_eq)
    with i nx show ?case by (simp add: Acquire_link_def)
  qed (use D(5) [OF ne] D(7) notlast \<open>t \<noteq> hd q\<close> mem in \<open>auto simp: Acquire_link_def split: if_splits\<close>)
qed

lemma mcs_link_other:
  assumes q: "mcs_q q s" and t: "mc_pc s t = McLink p"
  shows "p \<noteq> t"
proof -
  note D = mcs_qD [OF q]
  have mem: "t \<in> set q" using D(2) [of t] t by simp
  have "t \<noteq> hd q" using D(4) t mem by (cases q) auto
  from mcs_waiter [OF q mem this] t obtain i where
    i: "Suc i < length q" "q ! Suc i = t" "q ! i = p" by auto
  then show ?thesis using D(1) nth_eq_iff_index_eq [of q i "Suc i"] by auto
qed

lemma mcs_q_first_move:
  assumes q: "mcs_q q s" and ne: "q \<noteq> []" and t: "t = hd q" and own: "mc_owner s t"
    and p: "mcs_owner_pc p" and grant: "p = McRelGrant \<Longrightarrow> mc_next s t \<noteq> None"
  shows "mcs_q q (s\<lparr>mc_pc := (mc_pc s)(t := p)\<rparr>)"
proof -
  note D = mcs_qD [OF q]
  have mem: "t \<in> set q" using t ne by simp
  have no: "q ! Suc i \<noteq> t" if "Suc i < length q" for i
    using that t ne D(1) nth_eq_iff_index_eq [of q "Suc i" 0] by (auto simp: hd_conv_nth)
  have p': "p \<noteq> McIdle" "mcs_first_ok True p" using p by (cases p; simp)+
  show ?thesis
    by (rule mcs_q_upd [OF q mem, of p])
       (use D(5) [OF ne] D(7) p' own grant no in \<open>auto split: if_splits\<close>)
qed

lemma mcs_q_release:
  assumes q: "mcs_q [t] s"
  shows "mcs_q [] (s\<lparr>mc_tail := None, mc_pc := (mc_pc s)(t := McIdle)\<rparr>)"
  using mcs_qD(2,7) [OF q] by (auto simp: mcs_q_def split: if_splits)

lemma mcs_q_grant:
  assumes q: "mcs_q (t # qs) s" and nx: "mc_next s t = Some w"
  shows "qs \<noteq> [] \<and> w = hd qs \<and> mc_pc s w = McSpin \<and>
    mcs_q qs (s\<lparr>mc_owner := (mc_owner s)(w := True), mc_pc := (mc_pc s)(t := McIdle)\<rparr>)"
proof -
  note D = mcs_qD [OF q]
  have ne: "qs \<noteq> []" using D(5) nx by (cases qs) auto
  then obtain v vs where qs: "qs = v # vs" by (cases qs) auto
  have v: "mcs_wait_ok t (mc_next s t) (mc_owner s v) v (mc_pc s v)" using D(6) [of 0] qs by simp
  then have w: "w = v" "mc_pc s v = McSpin" using nx by (cases "mc_pc s v"; simp)+
  have tv: "t \<noteq> v" "t \<notin> set vs" "v \<notin> set vs" using D(1) qs by auto
  let ?s = "s\<lparr>mc_owner := (mc_owner s)(w := True), mc_pc := (mc_pc s)(t := McIdle)\<rparr>"
  have "mcs_wait_ok (qs ! i) (mc_next ?s (qs ! i)) (mc_owner ?s (qs ! Suc i)) (qs ! Suc i) (mc_pc ?s (qs ! Suc i))"
    if i: "Suc i < length qs" for i
  proof -
    have "qs ! Suc i \<in> set vs" using i qs by simp
    with tv have "qs ! Suc i \<noteq> t" "qs ! Suc i \<noteq> w" using w by auto
    with D(6) [of "Suc i"] i show ?thesis by simp
  qed
  moreover have "u \<in> set qs \<longleftrightarrow> mc_pc ?s u \<noteq> McIdle" for u
    using D(1) D(2) [of u] by auto
  moreover have "mc_pc ?s u = McRelGrant \<Longrightarrow> mc_next ?s u \<noteq> None" for u
    using D(7) [of u] by (auto split: if_splits)
  moreover have "mcs_first_ok (mc_owner ?s (hd qs)) (mc_pc ?s (hd qs))" using w tv qs by simp
  ultimately have "mcs_q qs ?s"
    unfolding mcs_q_def using D(1,3,5) ne by simp
  with ne qs w show ?thesis by simp
qed

lemma mcs_test_keeps:
  assumes q: "mcs_q q s" and pc: "mcs_owner_pc (mc_pc s t)"
  shows "mcs_q q (Release_test t s)"
proof -
  note f = mcs_owner_is_first [OF q pc]
  have "mcs_first_ok (mc_owner s t) (mc_pc s t)" using mcs_qD(4) [OF q] f by simp
  then have "mc_owner s t" using pc by (cases "mc_pc s t") auto
  then show ?thesis unfolding Release_test_def
    by (intro mcs_q_first_move [OF q f(1,2)]) (auto split: if_splits)
qed

lemma mcs_cas_keeps:
  assumes q: "mcs_q q s" and pc: "mc_pc s t = McRelCas"
  shows "\<exists>q'. mcs_q q' (Release_cas t s)"
proof (cases "mc_tail s = Some t")
  case True
  have f: "q \<noteq> []" "t = hd q" using mcs_owner_is_first [OF q, of t] pc by auto
  have "last q = t" using True mcs_qD(3) [OF q] f(1) by simp
  with f mcs_qD(1) [OF q] have "q = [t]" by (cases q) (auto split: if_splits)
  with mcs_q_release q True show ?thesis by (auto simp: Release_cas_def)
next
  case False
  then show ?thesis using mcs_test_keeps [OF q, of t] pc by (auto simp: Release_cas_def)
qed

lemma mcs_spin_keeps:
  assumes q: "mcs_q q s" and pc: "mc_pc s t = McSpin"
  shows "mcs_q q (Acquire_spin t s)"
  using mcs_spin_owner_first [OF q pc] mcs_q_first_move [OF q, of t McCritical] q
  by (simp add: Acquire_spin_def)

lemma mcs_inv_step:
  assumes inv: "mcs_inv s" and st: "mcs_step a s = Some s'"
  shows "mcs_inv s'"
proof -
  from inv obtain q where q: "mcs_q q s" by (auto simp: mcs_inv_def)
  obtain t b where a: "a = (t, b)" by (cases a)
  have "\<exists>q'. mcs_q q' s'"
  proof (cases b)
    case McGuard
    with st a mcs_q_construct [OF q, of t] show ?thesis by (auto split: if_splits)
  next
    case McDestroy
    with st a mcs_test_keeps [OF q, of t] show ?thesis by (auto split: if_splits)
  next
    case McStep
    show ?thesis
    proof (cases "mc_pc s t")
      case McRelGrant
      with st a McStep obtain w where w: "mc_next s t = Some w"
        and s': "s' = s\<lparr>mc_owner := (mc_owner s)(w := True), mc_pc := (mc_pc s)(t := McIdle)\<rparr>"
        by (auto simp: Release_grant_def split: option.splits)
      have "q \<noteq> []" "t = hd q" using mcs_owner_is_first [OF q, of t] McRelGrant by auto
      then have "q = t # tl q" by simp
      with mcs_q_grant [of t "tl q" s w] q w s' show ?thesis by metis
    qed (use st a McStep q mcs_q_set_owner [OF q, of t] mcs_q_link(1) [OF q, of t]
        mcs_spin_keeps [OF q, of t] mcs_cas_keeps [OF q, of t] in auto)
  qed
  then show ?thesis by (simp add: mcs_inv_def)
qed

lemma mcs_inv_excl: "mcs_inv s \<Longrightarrow> mc_pc s t = McCritical \<Longrightarrow> mc_pc s u = McCritical \<Longrightarrow> t = u"
  unfolding mcs_inv_def using mcs_owner_is_first(2) by (metis mcs_owner_pc.simps(1))

interpretation mcs: mutual_exclusion mcs_start mcs_step mcs_inv "\<lambda>s t. mc_pc s t = McCritical"
proof unfold_locales
  show "mcs_inv mcs_start"
    unfolding mcs_inv_def by (rule exI [of _ "[]"]) (simp add: mcs_q_def mcs_start_def)
qed (auto intro: mcs_inv_step dest: mcs_inv_excl)

subsection \<open>What the invariant gives\<close>

text \<open>C24: on every interleaving of guard constructors and destructors, QueueSpinLock has at most
  one guard in its critical section; every pointer the code is about to write through names a
  guard that is still alive (the predecessor whose \<open>next\<close> is set, and the successor that is
  handed the lock, which is spinning); and the \<open>next\<close> pointer Release dereferences is not null.\<close>

theorem mcs_exclusion_and_memory_safety:
  "let s = run mcs_step sched mcs_start
   in card {t. mc_pc s t = McCritical} \<le> 1 \<and>
      (\<forall>t p. mc_pc s t = McLink p \<longrightarrow> mc_pc s p \<noteq> McIdle \<and> p \<noteq> t) \<and>
      (\<forall>t. mc_pc s t = McRelGrant \<longrightarrow> (\<exists>w. mc_next s t = Some w \<and> mc_pc s w = McSpin \<and> w \<noteq> t))"
proof -
  define s where "s = run mcs_step sched mcs_start"
  have "mcs_inv s" unfolding s_def by (rule mcs.inv_run)
  then obtain q where q: "mcs_q q s" by (auto simp: mcs_inv_def)
  have "card {t. mc_pc s t = McCritical} \<le> 1"
    by (rule card_le_1I) (use mcs.run_excl s_def in blast)
  moreover have "mc_pc s p \<noteq> McIdle \<and> p \<noteq> t" if "mc_pc s t = McLink p" for t p
    using mcs_q_link(3) [OF q that] mcs_link_other [OF q that] by blast
  moreover have "\<exists>w. mc_next s t = Some w \<and> mc_pc s w = McSpin \<and> w \<noteq> t" if t: "mc_pc s t = McRelGrant" for t
  proof -
    obtain w where w: "mc_next s t = Some w" using mcs_qD(7) [OF q t] by blast
    have "q = t # tl q" using mcs_owner_is_first [OF q, of t] t by simp
    with mcs_q_grant [of t "tl q" s w] q w t show ?thesis by (metis mcs_pc.distinct)
  qed
  ultimately show ?thesis unfolding s_def [symmetric] by (simp add: Let_def)
qed

lemma mcs_exclusion_and_memory_safety_witness:
  "(let s = run mcs_step [(4, McGuard), (7, McGuard), (7, McStep)] mcs_start
    in mc_pc s 7 = McLink 4 \<and> mc_pc s 4 \<noteq> McIdle)"
  using mcs_exclusion_and_memory_safety [of "[(4, McGuard), (7, McGuard), (7, McStep)]"]
  by (simp add: mcs_start_def mcs_ops stutter_def)



end
