(* ===== verification/FutexMutex.thy ===== *)
theory FutexMutex
  imports Prelude
begin

section \<open>The futex mutex\<close>

text \<open>
  \<open>mutex/mutex/mutex.hpp\<close>, and the same class with \<open>lock\<close>/\<open>unlock\<close> aliases in
  \<open>cond/condvar/mutex.hpp\<close>. The word \<open>m_\<close> is Unlocked, Locked or Sleeping (locked with
  waiters). The futex is the operating system's: \<open>Wait(m, v)\<close> puts the thread to sleep if
  the word still holds \<open>v\<close>, in one atomic step; \<open>WakeOne\<close> lets one sleeping thread
  return, if there is one, and the scheduler says which; a sleeper may also return
  spuriously. The local \<open>c\<close> of Lock is in the program counter.
\<close>

definition Unlocked :: u32 where "Unlocked = 0"
definition Locked :: u32 where "Locked = 1"
definition Sleeping :: u32 where "Sleeping = 2"

lemmas mx_status = Unlocked_def Locked_def Sleeping_def

datatype mx_pc =
    MxIdle
  | MxLoop u32     \<comment> \<open>at the head of the loop, with \<open>c\<close>\<close>
  | MxCallWait     \<comment> \<open>about to call \<open>Wait(m_, Sleeping)\<close>\<close>
  | MxSleep
  | MxRecas        \<comment> \<open>about to evaluate the loop condition\<close>
  | MxCritical
  | MxCallWake     \<comment> \<open>Unlock saw waiters\<close>

record mx_state =
  mx_m :: u32
  mx_pc :: "tid \<Rightarrow> mx_pc"

definition mx_start :: mx_state where
  "mx_start = \<lparr>mx_m = Unlocked, mx_pc = (\<lambda>_. MxIdle)\<rparr>"

definition Cmpxchg :: "u32 \<Rightarrow> u32 \<Rightarrow> u32 \<Rightarrow> u32 \<times> u32" where
  "Cmpxchg m old_st new_st = (m, if m = old_st then new_st else m)"

definition Mutex_Lock_first :: "u32 \<Rightarrow> mx_pc \<times> u32" where
  "Mutex_Lock_first m =
     (let (c, m') = Cmpxchg m Unlocked Locked
      in (if c \<noteq> Unlocked then MxLoop c else MxCritical, m'))"

definition Mutex_Lock_body :: "u32 \<Rightarrow> u32 \<Rightarrow> mx_pc \<times> u32" where
  "Mutex_Lock_body c m =
     (if c = Sleeping then (MxCallWait, m)
      else let (r, m') = Cmpxchg m Locked Sleeping
           in (if r \<noteq> Unlocked then MxCallWait else MxRecas, m'))"

definition Mutex_Lock_wait :: "u32 \<Rightarrow> mx_pc" where
  "Mutex_Lock_wait m = (if m = Sleeping then MxSleep else MxRecas)"

definition Mutex_Lock_again :: "u32 \<Rightarrow> mx_pc \<times> u32" where
  "Mutex_Lock_again m =
     (let (c, m') = Cmpxchg m Unlocked Sleeping
      in (if c \<noteq> Unlocked then MxLoop c else MxCritical, m'))"

definition Mutex_Unlock :: "u32 \<Rightarrow> mx_pc \<times> u32" where
  "Mutex_Unlock m = (if m \<noteq> Locked then MxCallWake else MxIdle, Unlocked)"

lemmas mx_ops = Cmpxchg_def Mutex_Lock_first_def Mutex_Lock_body_def Mutex_Lock_wait_def
  Mutex_Lock_again_def Mutex_Unlock_def mx_status

datatype mx_act = MxLock | MxStep | MxUnlock | MxWakeOne tid | MxWakeNone | MxSpurious

definition mx_set :: "tid \<Rightarrow> mx_pc \<times> u32 \<Rightarrow> mx_state \<Rightarrow> mx_state" where
  "mx_set t r s = s\<lparr>mx_m := snd r, mx_pc := (mx_pc s)(t := fst r)\<rparr>"

definition mx_wake :: "tid \<Rightarrow> tid \<Rightarrow> mx_state \<Rightarrow> mx_state" where
  "mx_wake t u s = s\<lparr>mx_pc := (mx_pc s)(t := MxIdle, u := MxRecas)\<rparr>"

text \<open>\<open>n\<close> threads; the futex finds no sleeper only when none of them sleeps.\<close>

fun mx_step :: "nat \<Rightarrow> tid \<times> mx_act \<Rightarrow> mx_state \<Rightarrow> mx_state option" where
  "mx_step n (t, MxLock) s =
     (if t < n \<and> mx_pc s t = MxIdle then Some (mx_set t (Mutex_Lock_first (mx_m s)) s) else None)"
| "mx_step n (t, MxStep) s = (case mx_pc s t of
     MxLoop c \<Rightarrow> Some (mx_set t (Mutex_Lock_body c (mx_m s)) s)
   | MxCallWait \<Rightarrow> Some (mx_set t (Mutex_Lock_wait (mx_m s), mx_m s) s)
   | MxRecas \<Rightarrow> Some (mx_set t (Mutex_Lock_again (mx_m s)) s)
   | _ \<Rightarrow> None)"
| "mx_step n (t, MxUnlock) s =
     (if mx_pc s t = MxCritical then Some (mx_set t (Mutex_Unlock (mx_m s)) s) else None)"
| "mx_step n (t, MxWakeOne u) s =
     (if mx_pc s t = MxCallWake \<and> mx_pc s u = MxSleep then Some (mx_wake t u s) else None)"
| "mx_step n (t, MxWakeNone) s =
     (if mx_pc s t = MxCallWake \<and> list_all (\<lambda>u. mx_pc s u \<noteq> MxSleep) [0..<n]
      then Some (mx_set t (MxIdle, mx_m s) s) else None)"
| "mx_step n (t, MxSpurious) s =
     (if mx_pc s t = MxSleep then Some (mx_set t (MxRecas, mx_m s) s) else None)"

text \<open>The aliases of the condition variable's copy of the class.\<close>

definition cv_mutex_lock :: "u32 \<Rightarrow> mx_pc \<times> u32" where
  "cv_mutex_lock m = Mutex_Lock_first m"

definition cv_mutex_unlock :: "u32 \<Rightarrow> mx_pc \<times> u32" where
  "cv_mutex_unlock m = Mutex_Unlock m"

subsection \<open>The invariant\<close>

text \<open>A contender will set the word to Sleeping before it sleeps or enters.\<close>

fun mx_contends :: "mx_pc \<Rightarrow> bool" where
  "mx_contends (MxLoop _) = True"
| "mx_contends MxCallWait = True"
| "mx_contends MxRecas = True"
| "mx_contends MxCallWake = True"
| "mx_contends _ = False"

definition mx_inv :: "nat \<Rightarrow> mx_state \<Rightarrow> bool" where
  "mx_inv n s \<longleftrightarrow>
     mx_m s \<in> {0, 1, 2} \<and> (\<forall>t \<ge> n. mx_pc s t = MxIdle) \<and>
     (mx_m s = 0 \<longleftrightarrow> (\<forall>t. mx_pc s t \<noteq> MxCritical)) \<and>
     (\<forall>t u. mx_pc s t = MxCritical \<longrightarrow> mx_pc s u = MxCritical \<longrightarrow> t = u) \<and>
     (\<forall>u. mx_pc s u = MxSleep \<longrightarrow> mx_m s = 2 \<or> (\<exists>v. mx_contends (mx_pc s v)))"

lemma mx_invD:
  assumes "mx_inv n s"
  shows "mx_m s = 0 \<or> mx_m s = 1 \<or> mx_m s = 2" "\<And>t. t \<ge> n \<Longrightarrow> mx_pc s t = MxIdle"
    "mx_m s = 0 \<longleftrightarrow> (\<forall>t. mx_pc s t \<noteq> MxCritical)"
    "\<And>t u. mx_pc s t = MxCritical \<Longrightarrow> mx_pc s u = MxCritical \<Longrightarrow> t = u"
    "\<And>u. mx_pc s u = MxSleep \<Longrightarrow> mx_m s = 2 \<or> (\<exists>v. mx_contends (mx_pc s v))"
  using assms unfolding mx_inv_def by blast+

lemma mx_invI:
  assumes "mx_m s \<in> {0, 1, 2}" "\<forall>t \<ge> n. mx_pc s t = MxIdle"
    "mx_m s = 0 \<longleftrightarrow> (\<forall>t. mx_pc s t \<noteq> MxCritical)"
    "\<And>t u. mx_pc s t = MxCritical \<Longrightarrow> mx_pc s u = MxCritical \<Longrightarrow> t = u"
    "\<And>u. mx_pc s u = MxSleep \<Longrightarrow> mx_m s = 2 \<or> (\<exists>v. mx_contends (mx_pc s v))"
  shows "mx_inv n s"
  unfolding mx_inv_def by (intro conjI allI impI) (use assms in blast)+

lemma mx_inv_quiet:
  \<comment> \<open>a step of \<open>t\<close> that neither enters nor leaves the critical section\<close>
  assumes inv: "mx_inv n s" and t: "t < n" and p: "p \<noteq> MxCritical" "mx_pc s t \<noteq> MxCritical"
    and m: "m = 0 \<longleftrightarrow> mx_m s = 0" "m \<in> {0, 1, 2}" "mx_m s = 2 \<Longrightarrow> m = 2"
    and ok: "mx_contends p \<or> m = 2"
  shows "mx_inv n (mx_set t (p, m) s)"
proof -
  note D = mx_invD [OF inv]
  have "mx_m s = 2 \<Longrightarrow> m = 2" by (rule m(3))
  have "m = 2 \<or> (\<exists>v. mx_contends (((mx_pc s)(t := p)) v))" using ok by (auto intro: exI [of _ t])
  moreover have "((mx_pc s)(t := p)) u = MxCritical \<longleftrightarrow> mx_pc s u = MxCritical" for u
    using p by simp
  moreover have "\<forall>u\<ge>n. ((mx_pc s)(t := p)) u = MxIdle" using D(2) t by simp
  ultimately show ?thesis
    unfolding mx_inv_def mx_set_def using D(3,4) m(1,2) by simp
qed

lemma mx_inv_setI:
  assumes inv: "mx_inv n s" and t: "t < n" and m: "m \<in> {0, 1, 2}"
    and z: "m = 0 \<longleftrightarrow> p \<noteq> MxCritical \<and> (\<forall>u. u \<noteq> t \<longrightarrow> mx_pc s u \<noteq> MxCritical)"
    and ex: "\<And>u. p = MxCritical \<Longrightarrow> u \<noteq> t \<Longrightarrow> mx_pc s u \<noteq> MxCritical"
    and sl: "\<And>u. u \<noteq> t \<Longrightarrow> mx_pc s u = MxSleep \<Longrightarrow>
      m = 2 \<or> mx_contends p \<or> (\<exists>v. v \<noteq> t \<and> mx_contends (mx_pc s v))"
    and own: "p = MxSleep \<Longrightarrow> m = 2"
  shows "mx_inv n (mx_set t (p, m) s)"
proof -
  note D = mx_invD [OF inv]
  let ?f = "(mx_pc s)(t := p)"
  have "m = 0 \<longleftrightarrow> (\<forall>u. ?f u \<noteq> MxCritical)" using z by auto
  moreover have "u = v" if "?f u = MxCritical" "?f v = MxCritical" for u v
    using that ex D(4) by (metis fun_upd_apply)
  moreover have "m = 2 \<or> (\<exists>v. mx_contends (?f v))" if "?f u = MxSleep" for u
  proof (cases "u = t")
    case True
    with that own show ?thesis by simp
  next
    case False
    with that have "mx_pc s u = MxSleep" by simp
    with sl [OF False] show ?thesis by (metis fun_upd_apply)
  qed
  moreover have "\<forall>u\<ge>n. ?f u = MxIdle" using D(2) t by simp
  moreover have [simp]: "mx_pc (mx_set t (p, m) s) = ?f" "mx_m (mx_set t (p, m) s) = m"
    by (simp_all add: mx_set_def)
  ultimately show ?thesis using m by (intro mx_invI) metis+
qed

lemma mx_inv_enter:
  assumes inv: "mx_inv n s" and t: "t < n" and m: "mx_m s = 0"
    and m': "m = 2 \<or> m = 1 \<and> \<not> mx_contends (mx_pc s t)"
  shows "mx_inv n (mx_set t (MxCritical, m) s)"
proof -
  note D = mx_invD [OF inv]
  have no: "mx_pc s u \<noteq> MxCritical" for u using D(3) m by simp
  show ?thesis
  proof (rule mx_inv_setI [OF inv t], goal_cases)
    case (4 u)
    with D(5) [of u] m m' show ?case by force
  qed (use no m' in auto)
qed

lemma mx_inv_leave:
  assumes inv: "mx_inv n s" and t: "t < n" and c: "mx_pc s t = MxCritical"
  shows "mx_inv n (mx_set t (Mutex_Unlock (mx_m s)) s)"
  unfolding Mutex_Unlock_def mx_status
proof (rule mx_inv_setI [OF inv t], goal_cases)
  case (4 u)
  with mx_invD(5) [OF inv, of u] have "mx_m s = 2 \<or> (\<exists>v. mx_contends (mx_pc s v))" by simp
  with c show ?case by (cases "mx_m s = 1") ((simp, metis mx_contends.simps), simp)
qed (use mx_invD(4) [OF inv c] in \<open>auto split: if_splits\<close>)

lemma mx_inv_wake:
  assumes inv: "mx_inv n s" and "mx_pc s t = MxCallWake" "mx_pc s u = MxSleep"
  shows "mx_inv n (mx_wake t u s)"
proof -
  note D = mx_invD [OF inv]
  have tu: "t \<noteq> u" using assms(2,3) by auto
  have "mx_pc (mx_wake t u s) v = MxCritical \<longleftrightarrow> mx_pc s v = MxCritical" for v
    using assms(2,3) by (simp add: mx_wake_def)
  moreover have "mx_contends (mx_pc (mx_wake t u s) u)" using tu by (simp add: mx_wake_def)
  moreover have "u < n" "t < n"
    using D(2) [of u] D(2) [of t] assms(2,3) by (metis linorder_not_le mx_pc.distinct)+
  then have "\<forall>v\<ge>n. mx_pc (mx_wake t u s) v = MxIdle" using D(2) by (simp add: mx_wake_def)
  moreover have "mx_m (mx_wake t u s) = mx_m s" by (simp add: mx_wake_def)
  ultimately show ?thesis
    unfolding mx_inv_def using D(1,3,4) by auto
qed

lemma mx_inv_no_sleeper:
  assumes inv: "mx_inv n s" and t: "t < n" "mx_pc s t = MxCallWake"
    and no: "\<And>u. u < n \<Longrightarrow> mx_pc s u \<noteq> MxSleep"
  shows "mx_inv n (mx_set t (MxIdle, mx_m s) s)"
proof -
  note D = mx_invD [OF inv]
  have "mx_pc s u \<noteq> MxSleep" for u using no [of u] D(2) [of u] by (cases "u < n") auto
  moreover have "mx_m s = 0 \<longleftrightarrow> (\<forall>u. u \<noteq> t \<longrightarrow> mx_pc s u \<noteq> MxCritical)" using D(3) t(2) by force
  ultimately show ?thesis using D(1) by (intro mx_inv_setI [OF inv t(1)]) auto
qed

lemma mx_inv_step:
  assumes inv: "mx_inv n s" and st: "mx_step n a s = Some s'"
  shows "mx_inv n s'"
proof -
  note D = mx_invD [OF inv]
  obtain t b where a: "a = (t, b)" by (cases a)
  have tn: "t < n" using st a D(2) [of t] by (cases b) (auto simp: not_le [symmetric] split: if_splits mx_pc.splits)
  show ?thesis
  proof (cases b)
    case MxLock
    with st a mx_inv_enter [OF inv tn, of 1] mx_inv_quiet [OF inv tn, of "MxLoop (mx_m s)" "mx_m s"] D(1)
    show ?thesis by (auto simp: mx_ops split: if_splits)
  next
    case MxStep
    show ?thesis
    proof (cases "mx_pc s t")
      case (MxLoop c)
      with st a MxStep D(1) mx_inv_quiet [OF inv tn, of MxCallWait "mx_m s"]
        mx_inv_quiet [OF inv tn, of MxCallWait 2] mx_inv_quiet [OF inv tn, of MxRecas "mx_m s"]
      show ?thesis by (auto simp: mx_ops split: if_splits)
    next
      case MxCallWait
      with st a MxStep D(1) mx_inv_quiet [OF inv tn, of MxSleep "mx_m s"]
        mx_inv_quiet [OF inv tn, of MxRecas "mx_m s"]
      show ?thesis by (auto simp: mx_ops split: if_splits)
    next
      case MxRecas
      with st a MxStep D(1) mx_inv_enter [OF inv tn, of 2] mx_inv_quiet [OF inv tn, of "MxLoop (mx_m s)" "mx_m s"]
      show ?thesis by (auto simp: mx_ops split: if_splits)
    qed (use st a MxStep in auto)
  next
    case MxUnlock
    with st a mx_inv_leave [OF inv tn] show ?thesis by (auto split: if_splits)
  next
    case (MxWakeOne u)
    with st a mx_inv_wake [OF inv, of t u] show ?thesis by (auto split: if_splits)
  next
    case MxWakeNone
    with st a mx_inv_no_sleeper [OF inv tn] show ?thesis by (auto simp: list_all_iff split: if_splits)
  next
    case MxSpurious
    with st a D(1) mx_inv_quiet [OF inv tn, of MxRecas "mx_m s"] show ?thesis by (auto split: if_splits)
  qed
qed

lemma mx_inv_start: "mx_inv n mx_start"
  by (simp add: mx_inv_def mx_start_def mx_status)

interpretation mx: mutual_exclusion mx_start "mx_step n" "mx_inv n" "\<lambda>s t. mx_pc s t = MxCritical"
  by unfold_locales (auto intro: mx_inv_start mx_inv_step dest: mx_invD(4))

subsection \<open>What the invariant gives\<close>

text \<open>C34: the futex mutex excludes and its word tells the truth: on every interleaving of Lock,
  Unlock, futex waits, wakes and spurious wakes of \<open>n\<close> threads, at most one thread is in the
  critical section, and the word is Unlocked exactly when none is.\<close>

theorem futex_mutex_exclusion:
  "let s = run (mx_step n) sched mx_start
   in card {t. mx_pc s t = MxCritical} \<le> 1 \<and>
      (mx_m s = Unlocked \<longleftrightarrow> {t. mx_pc s t = MxCritical} = {}) \<and>
      mx_m s \<in> {Unlocked, Locked, Sleeping}"
proof -
  have inv: "mx_inv n (run (mx_step n) sched mx_start)" by (rule mx.inv_run)
  have "card {t. mx_pc (run (mx_step n) sched mx_start) t = MxCritical} \<le> 1"
    by (rule card_le_1I) (rule mx.run_excl)
  then show ?thesis using mx_invD(1,3) [OF inv] by (auto simp: Let_def mx_status)
qed

text \<open>C35: the futex mutex loses no wake-up. When a thread sleeps, either the word is Sleeping
  (so the Unlock that follows will wake a sleeper) or some thread is on its way to wake one or
  to compete for the lock; so in a state where the mutex is free and no thread is between
  its calls of the futex, nobody sleeps.\<close>

theorem futex_mutex_no_lost_wakeup:
  assumes "s = run (mx_step n) sched mx_start" and "mx_pc s u = MxSleep"
  shows "(mx_m s = Sleeping \<or> (\<exists>v. mx_contends (mx_pc s v))) \<and>
    (mx_m s = Sleeping \<longrightarrow> (\<exists>h. mx_pc s h = MxCritical \<and> fst (Mutex_Unlock (mx_m s)) = MxCallWake))"
proof -
  have inv: "mx_inv n s" unfolding assms(1) by (rule mx.inv_run)
  have "mx_m s = Sleeping \<or> (\<exists>v. mx_contends (mx_pc s v))"
    using mx_invD(5) [OF inv assms(2)] by (simp add: mx_status)
  moreover have "\<exists>h. mx_pc s h = MxCritical \<and> fst (Mutex_Unlock (mx_m s)) = MxCallWake" if "mx_m s = Sleeping"
    using mx_invD(3) [OF inv] that by (auto simp: mx_ops)
  ultimately show ?thesis by blast
qed

lemma futex_mutex_no_lost_wakeup_witness:
  "let s = run (mx_step 2) [(0, MxLock), (1, MxLock), (1, MxStep), (1, MxStep)] mx_start
   in mx_pc s 1 = MxSleep \<and> (mx_m s = Sleeping \<or> (\<exists>v. mx_contends (mx_pc s v)))"
  using futex_mutex_no_lost_wakeup [of _ 2 "[(0, MxLock), (1, MxLock), (1, MxStep), (1, MxStep)]" 1, OF refl]
  by (simp add: mx_start_def mx_ops mx_set_def stutter_def)

end
