(* ===== verification/Dining.thy ===== *)
theory Dining
  imports Prelude
begin

section \<open>Dining philosophers and the deadlock simulations\<close>

text \<open>
  \<open>mutex/dining\<close> (\<open>table.hpp\<close>, \<open>philosopher.hpp\<close>, \<open>philosopher.cpp\<close>): \<open>n\<close> philosophers,
  fork \<open>i\<close> to the left of seat \<open>i\<close>, the forks are mutexes. A step is one lock, one unlock
  or one access of a plate. A lock step is enabled only when the fork is free.
  \<open>mutex/deadlock/sims\<close>: one and two fibers that do deadlock.
\<close>

subsection \<open>Table and Philosopher\<close>

definition ToRight :: "nat \<Rightarrow> nat \<Rightarrow> nat" where
  "ToRight num_seats seat = (seat + 1) mod num_seats"

definition LeftFork :: "nat \<Rightarrow> nat \<Rightarrow> nat" where
  "LeftFork num_seats seat = seat"

definition RightFork :: "nat \<Rightarrow> nat \<Rightarrow> nat" where
  "RightFork num_seats seat = ToRight num_seats seat"

text \<open>AcquireForks: seat 0 takes its right fork first, every other seat its left fork.\<close>

definition first_fork :: "nat \<Rightarrow> nat \<Rightarrow> nat" where
  "first_fork n seat = (if seat = 0 then RightFork n seat else LeftFork n seat)"

definition second_fork :: "nat \<Rightarrow> nat \<Rightarrow> nat" where
  "second_fork n seat = (if seat = 0 then LeftFork n seat else RightFork n seat)"

datatype ph_pc =
    PhThink
  | PhFirst     \<comment> \<open>about to lock the first fork\<close>
  | PhSecond    \<comment> \<open>holds the first fork, about to lock the second\<close>
  | PhOwnPlate  \<comment> \<open>accessing \<open>plates_[seat]\<close>\<close>
  | PhNextPlate \<comment> \<open>accessing \<open>plates_[ToRight(seat)]\<close>\<close>
  | PhReleaseRight
  | PhReleaseLeft

record table =
  forks :: "nat \<Rightarrow> nat option"   \<comment> \<open>which philosopher has locked the fork\<close>
  ph_pc :: "nat \<Rightarrow> ph_pc"
  meals :: "nat \<Rightarrow> nat"

definition Table_init :: table where
  "Table_init = \<lparr>forks = (\<lambda>_. None), ph_pc = (\<lambda>_. PhThink), meals = (\<lambda>_. 0)\<rparr>"

definition fork_lock :: "nat \<Rightarrow> nat \<Rightarrow> ph_pc \<Rightarrow> table \<Rightarrow> table option" where
  "fork_lock t f p s =
     (if forks s f = None then Some (s\<lparr>forks := (forks s)(f := Some t), ph_pc := (ph_pc s)(t := p)\<rparr>)
      else None)"

definition fork_unlock :: "nat \<Rightarrow> nat \<Rightarrow> ph_pc \<Rightarrow> table \<Rightarrow> table" where
  "fork_unlock t f p s = s\<lparr>forks := (forks s)(f := None), ph_pc := (ph_pc s)(t := p)\<rparr>"

text \<open>The action of the scheduler is the seat of the philosopher that moves.\<close>

definition Philosopher_Eat :: "nat \<Rightarrow> nat \<Rightarrow> table \<Rightarrow> table option" where
  "Philosopher_Eat n t s =
     (if \<not> t < n then None
      else case ph_pc s t of
        PhThink \<Rightarrow> Some (s\<lparr>ph_pc := (ph_pc s)(t := PhFirst)\<rparr>)
      | PhFirst \<Rightarrow> fork_lock t (first_fork n t) PhSecond s
      | PhSecond \<Rightarrow> fork_lock t (second_fork n t) PhOwnPlate s
      | PhOwnPlate \<Rightarrow> Some (s\<lparr>ph_pc := (ph_pc s)(t := PhNextPlate)\<rparr>)
      | PhNextPlate \<Rightarrow> Some (s\<lparr>ph_pc := (ph_pc s)(t := PhReleaseRight), meals := (meals s)(t := meals s t + 1)\<rparr>)
      | PhReleaseRight \<Rightarrow> Some (fork_unlock t (RightFork n t) PhReleaseLeft s)
      | PhReleaseLeft \<Rightarrow> Some (fork_unlock t (LeftFork n t) PhThink s))"

lemmas dining_defs = ToRight_def LeftFork_def RightFork_def first_fork_def second_fork_def
  fork_lock_def fork_unlock_def

subsection \<open>Who holds which fork\<close>

fun ph_has :: "nat \<Rightarrow> nat \<Rightarrow> ph_pc \<Rightarrow> nat \<Rightarrow> bool" where
  "ph_has n t PhThink f = False"
| "ph_has n t PhFirst f = False"
| "ph_has n t PhSecond f = (f = first_fork n t)"
| "ph_has n t PhReleaseLeft f = (f = LeftFork n t)"
| "ph_has n t _ f = (f = LeftFork n t \<or> f = RightFork n t)"

definition dining_inv :: "nat \<Rightarrow> table \<Rightarrow> bool" where
  "dining_inv n s \<longleftrightarrow> (\<forall>f t. forks s f = Some t \<longleftrightarrow> t < n \<and> ph_has n t (ph_pc s t) f)"

text \<open>The plate a philosopher is accessing.\<close>

fun ph_plate :: "nat \<Rightarrow> nat \<Rightarrow> ph_pc \<Rightarrow> nat option" where
  "ph_plate n t PhOwnPlate = Some t"
| "ph_plate n t PhNextPlate = Some (ToRight n t)"
| "ph_plate n t _ = None"

lemma forks_differ: "2 \<le> n \<Longrightarrow> t < n \<Longrightarrow> LeftFork n t \<noteq> RightFork n t"
  by (cases "t + 1 = n") (auto simp: dining_defs)

lemma both_forks:
  "{first_fork n t, second_fork n t} = {LeftFork n t, RightFork n t}"
  by (auto simp: first_fork_def second_fork_def)

lemma first_second_differ: "2 \<le> n \<Longrightarrow> t < n \<Longrightarrow> first_fork n t \<noteq> second_fork n t"
  using forks_differ [of n t] by (auto simp: first_fork_def second_fork_def)

lemma plate_needs_fork: "ph_plate n t p = Some i \<Longrightarrow> ph_has n t p i"
  by (cases p) (auto simp: LeftFork_def RightFork_def)

lemma dining_invD: "dining_inv n s \<Longrightarrow> forks s f = Some t \<longleftrightarrow> t < n \<and> ph_has n t (ph_pc s t) f"
  unfolding dining_inv_def by blast

lemma dining_stay:
  assumes inv: "dining_inv n s" and "\<And>f. ph_has n t p f = ph_has n t (ph_pc s t) f"
    and "forks s' = forks s" "ph_pc s' = (ph_pc s)(t := p)"
  shows "dining_inv n s'"
  unfolding dining_inv_def assms(3,4) using dining_invD [OF inv] assms(2) by simp

lemma dining_lock:
  assumes inv: "dining_inv n s" and t: "t < n" and l: "fork_lock t g p s = Some s'"
    and has: "\<And>f. ph_has n t p f \<longleftrightarrow> f = g \<or> ph_has n t (ph_pc s t) f"
  shows "dining_inv n s'"
proof -
  from l have free: "forks s g = None"
    and s': "forks s' = (forks s)(g := Some t)" "ph_pc s' = (ph_pc s)(t := p)"
    by (auto simp: fork_lock_def split: if_splits)
  have none: "\<not> (u < n \<and> ph_has n u (ph_pc s u) g)" for u
    using dining_invD [OF inv, of g u] free by simp
  have "forks s' f = Some u \<longleftrightarrow> u < n \<and> ph_has n u (ph_pc s' u) f" for f u
    using dining_invD [OF inv, of f u] none [of u] has [of f] t unfolding s'
    by (cases "f = g"; cases "u = t") auto
  then show ?thesis unfolding dining_inv_def by blast
qed

lemma dining_unlock:
  assumes inv: "dining_inv n s" and t: "t < n" and own: "ph_has n t (ph_pc s t) g"
    and has: "\<And>f. ph_has n t p f \<longleftrightarrow> f \<noteq> g \<and> ph_has n t (ph_pc s t) f"
  shows "dining_inv n (fork_unlock t g p s)"
proof -
  have g: "forks s g = Some t" using dining_invD [OF inv, of g t] own t by simp
  have "forks (fork_unlock t g p s) f = Some u \<longleftrightarrow> u < n \<and> ph_has n u (ph_pc (fork_unlock t g p s) u) f" for f u
    using dining_invD [OF inv, of f u] g has [of f]
    by (cases "f = g"; cases "u = t") (auto simp: fork_unlock_def)
  then show ?thesis unfolding dining_inv_def by blast
qed

lemma dining_inv_step:
  assumes n: "2 \<le> n" and inv: "dining_inv n s" and st: "Philosopher_Eat n t s = Some s'"
  shows "dining_inv n s'"
proof -
  from st have t: "t < n" by (auto simp: Philosopher_Eat_def split: if_splits)
  note ne = forks_differ [OF n t]
  show ?thesis
  proof (cases "ph_pc s t")
    case PhFirst
    with st t show ?thesis by (intro dining_lock [OF inv t]) (auto simp: Philosopher_Eat_def)
  next
    case PhSecond
    have eq: "f = LeftFork n t \<or> f = RightFork n t \<longleftrightarrow> f = second_fork n t \<or> f = first_fork n t" for f
      by (auto simp: first_fork_def second_fork_def)
    have "fork_lock t (second_fork n t) PhOwnPlate s = Some s'"
      using PhSecond st t by (simp add: Philosopher_Eat_def)
    then show ?thesis by (rule dining_lock [OF inv t]) (simp add: PhSecond eq)
  next
    case PhReleaseRight
    then have "dining_inv n (fork_unlock t (RightFork n t) PhReleaseLeft s)"
      using ne by (intro dining_unlock [OF inv t]) auto
    with PhReleaseRight st t show ?thesis by (simp add: Philosopher_Eat_def)
  next
    case PhReleaseLeft
    then have "dining_inv n (fork_unlock t (LeftFork n t) PhThink s)"
      by (intro dining_unlock [OF inv t]) auto
    with PhReleaseLeft st t show ?thesis by (simp add: Philosopher_Eat_def)
  next
    case PhThink
    with st t show ?thesis by (intro dining_stay [OF inv, of t PhFirst]) (auto simp: Philosopher_Eat_def)
  next
    case PhOwnPlate
    with st t show ?thesis by (intro dining_stay [OF inv, of t PhNextPlate]) (auto simp: Philosopher_Eat_def)
  next
    case PhNextPlate
    with st t show ?thesis by (intro dining_stay [OF inv, of t PhReleaseRight]) (auto simp: Philosopher_Eat_def)
  qed
qed

lemma dining_inv_start: "dining_inv n Table_init"
  by (simp add: dining_inv_def Table_init_def)

text \<open>A plate is held by the philosopher that accesses it; two seats are enough for the contract.\<close>

interpretation dining: mutual_exclusion Table_init "Philosopher_Eat (Suc (Suc m))"
  "dining_inv (Suc (Suc m))"
  "\<lambda>s t. t < Suc (Suc m) \<and> ph_plate (Suc (Suc m)) t (ph_pc s t) = Some i"
proof unfold_locales
  fix s t u assume inv: "dining_inv (Suc (Suc m)) s"
    and h: "t < Suc (Suc m) \<and> ph_plate (Suc (Suc m)) t (ph_pc s t) = Some i"
      "u < Suc (Suc m) \<and> ph_plate (Suc (Suc m)) u (ph_pc s u) = Some i"
  have "forks s i = Some t" "forks s i = Some u"
    using dining_invD [OF inv, of i] h plate_needs_fork by blast+
  then show "t = u" by simp
qed (auto intro: dining_inv_start dining_inv_step)

subsection \<open>Deadlock freedom\<close>

text \<open>The order of the forks that every seat respects: 1, 2, ..., n - 1, 0.\<close>

definition fork_rank :: "nat \<Rightarrow> nat \<Rightarrow> nat" where
  "fork_rank n f = (if f = 0 then n else f)"

lemma fork_rank_increases:
  "2 \<le> n \<Longrightarrow> t < n \<Longrightarrow> fork_rank n (first_fork n t) < fork_rank n (second_fork n t)"
  by (cases "t + 1 = n") (auto simp: fork_rank_def dining_defs)

lemma blocked_on:
  assumes inv: "dining_inv n s" and t: "t < n" and bl: "Philosopher_Eat n t s = None"
  shows "\<exists>f h. forks s f = Some h \<and> h < n \<and> ph_has n h (ph_pc s h) f \<and>
    (ph_pc s t = PhFirst \<and> f = first_fork n t \<or> ph_pc s t = PhSecond \<and> f = second_fork n t)"
proof -
  from bl t obtain f h where "forks s f = Some h"
    "ph_pc s t = PhFirst \<and> f = first_fork n t \<or> ph_pc s t = PhSecond \<and> f = second_fork n t"
    by (auto simp: Philosopher_Eat_def fork_lock_def split: ph_pc.splits if_splits)
  with dining_invD [OF inv, of f h] show ?thesis by blast
qed

lemma blocked_second:
  assumes "Philosopher_Eat n t s = None" "t < n" "ph_has n t (ph_pc s t) f"
  shows "ph_pc s t = PhSecond \<and> f = first_fork n t"
  using assms by (cases "ph_pc s t") (auto simp: Philosopher_Eat_def)

lemma second_can_move:
  assumes n: "2 \<le> n" and inv: "dining_inv n s" and sec: "\<exists>t<n. ph_pc s t = PhSecond"
  shows "\<exists>t<n. Philosopher_Eat n t s \<noteq> None \<and> ph_pc s t \<noteq> PhThink"
proof (rule ccontr)
  assume "\<not> ?thesis"
  then have stuck: "Philosopher_Eat n t s = None" if "t < n" "ph_pc s t \<noteq> PhThink" for t
    using that by blast
  let ?A = "{fork_rank n (second_fork n t) | t. t < n \<and> ph_pc s t = PhSecond}"
  have "?A = (\<lambda>t. fork_rank n (second_fork n t)) ` {t. t < n \<and> ph_pc s t = PhSecond}" by auto
  then have fin: "finite ?A" by simp
  have "?A \<noteq> {}" using sec by blast
  with fin have "Max ?A \<in> ?A" by (rule Max_in)
  then obtain t where t: "t < n" "ph_pc s t = PhSecond" and mx: "fork_rank n (second_fork n t) = Max ?A"
    by auto
  from blocked_on [OF inv t(1) stuck [OF t(1)]] t(2) obtain h where
    h: "h < n" "ph_has n h (ph_pc s h) (second_fork n t)" by auto
  have "ph_pc s h \<noteq> PhThink" using h(2) by auto
  from blocked_second [OF stuck [OF h(1) this] h] have h2: "ph_pc s h = PhSecond"
    "second_fork n t = first_fork n h" by simp_all
  from h2(1) h(1) have "fork_rank n (second_fork n h) \<in> ?A" by blast
  then have "fork_rank n (second_fork n h) \<le> Max ?A" using fin by simp
  with fork_rank_increases [OF n h(1)] h2(2) mx show False by simp
qed

text \<open>at a table of two or more seats no plate is ever accessed by two philosophers at once
  (the data race the code tries to provoke), whatever the schedule, and every fork is locked by
  exactly the philosopher that has taken it and not yet released it.\<close>

theorem dining_plates_exclusive:
  assumes "2 \<le> n" and "s = run (Philosopher_Eat n) sched Table_init"
  shows "(t < n \<and> u < n \<and> t \<noteq> u \<longrightarrow>
      ph_plate n t (ph_pc s t) = None \<or> ph_plate n t (ph_pc s t) \<noteq> ph_plate n u (ph_pc s u)) \<and>
    (forks s f = Some t \<longleftrightarrow> t < n \<and> ph_has n t (ph_pc s t) f)"
proof -
  obtain m where n: "n = Suc (Suc m)" using assms(1) by (metis add_2_eq_Suc le_Suc_ex)
  have inv: "dining_inv n s" unfolding assms(2) n by (rule dining.inv_run)
  have "t = u" if "t < n" "u < n" "ph_plate n t (ph_pc s t) = Some i" "ph_plate n u (ph_pc s u) = Some i" for i
    using dining.inv_excl [of m s t i u] that inv n by blast
  with dining_invD [OF inv] show ?thesis by (metis not_None_eq)
qed

lemma dining_plates_exclusive_witness:
  "let s = run (Philosopher_Eat 3) [0, 0, 0, 1, 1] Table_init
   in ph_plate 3 0 (ph_pc s 0) = Some 0 \<and> forks s 1 = Some 0 \<and> ph_pc s 1 = PhFirst"
  using dining_plates_exclusive [of 3 _ "[0, 0, 0, 1, 1]", OF _ refl, of 0 1 1]
  by (simp add: Table_init_def Philosopher_Eat_def dining_defs stutter_def Let_def)

text \<open>C36: the table does not deadlock: with two or more seats, in every reachable state in which
  some philosopher is not thinking, a philosopher that is not thinking can take its next step.
  With one seat the only philosopher locks the same fork twice and is stuck.\<close>

theorem dining_no_deadlock:
  assumes "s = run (Philosopher_Eat n) sched Table_init" and "2 \<le> n"
    and "t < n" and "ph_pc s t \<noteq> PhThink"
  shows "(\<exists>u<n. Philosopher_Eat n u s \<noteq> None \<and> ph_pc s u \<noteq> PhThink) \<and>
    (let s1 = run (Philosopher_Eat 1) [0, 0] Table_init
     in ph_pc s1 0 = PhSecond \<and> Philosopher_Eat 1 0 s1 = None)"
proof -
  obtain m where n: "n = Suc (Suc m)" using assms(2) by (metis add_2_eq_Suc le_Suc_ex)
  have inv: "dining_inv n s" unfolding assms(1) n by (rule dining.inv_run)
  have "\<exists>u<n. Philosopher_Eat n u s \<noteq> None \<and> ph_pc s u \<noteq> PhThink"
  proof (cases "Philosopher_Eat n t s = None")
    case True
    from blocked_on [OF inv assms(3) True] obtain f h where
      h: "h < n" "ph_has n h (ph_pc s h) f" by blast
    then have nt: "ph_pc s h \<noteq> PhThink" by auto
    show ?thesis
    proof (cases "Philosopher_Eat n h s = None")
      case True
      from blocked_second [OF True h] second_can_move [OF assms(2) inv] h(1) show ?thesis by blast
    qed (use h nt in blast)
  qed (use assms(3,4) in blast)
  moreover have "let s1 = run (Philosopher_Eat 1) [0, 0] Table_init
     in ph_pc s1 0 = PhSecond \<and> Philosopher_Eat 1 0 s1 = None"
    by (simp add: Table_init_def Philosopher_Eat_def dining_defs stutter_def Let_def)
  ultimately show ?thesis by blast
qed

lemma dining_no_deadlock_witness:
  "\<exists>u. Philosopher_Eat 2 u (run (Philosopher_Eat 2) [0, 0, 1, 1] Table_init) \<noteq> None"
proof -
  have "ph_pc (run (Philosopher_Eat 2) [0, 0, 1, 1] Table_init) 0 \<noteq> PhThink"
    by (simp add: Table_init_def Philosopher_Eat_def dining_defs stutter_def)
  from dining_no_deadlock [OF refl _ _ this] show ?thesis by auto
qed

subsection \<open>The deadlock simulations\<close>

text \<open>
  \<open>mutex/deadlock/sims/two.cpp\<close>: two fibers and two fiber mutexes \<open>a\<close> and \<open>b\<close>. A resumed
  fiber runs to its next Yield, to a Lock that blocks, or to its end. \<open>me\<close> is the fiber
  (0 for \<open>first\<close>, 1 for \<open>second\<close>); a blocked fiber stays at its Lock when it is resumed
  while the mutex is taken. \<open>one.cpp\<close>: a fiber that locks a mutex and calls itself.
\<close>

datatype dl_at = DlStart | DlYield | DlLock | DlDone

record dl_state =
  dl_a :: "nat option"
  dl_b :: "nat option"
  a_locked :: bool
  b_locked :: bool

definition dl_init :: dl_state where
  "dl_init = \<lparr>dl_a = None, dl_b = None, a_locked = False, b_locked = False\<rparr>"

definition first_resume :: "nat \<Rightarrow> dl_at \<Rightarrow> dl_state \<Rightarrow> dl_at \<times> dl_state" where
  "first_resume me p s = (case p of
     DlStart \<Rightarrow> if dl_a s = None then (DlYield, s\<lparr>dl_a := Some me, a_locked := True\<rparr>) else (DlStart, s)
   | DlYield \<Rightarrow> if \<not> b_locked s then (DlDone, s\<lparr>dl_a := None, a_locked := False\<rparr>)
       else if dl_b s = None then (DlDone, s\<lparr>dl_b := Some me\<rparr>) else (DlLock, s)
   | DlLock \<Rightarrow> if dl_b s = None then (DlDone, s\<lparr>dl_b := Some me\<rparr>) else (DlLock, s)
   | DlDone \<Rightarrow> (DlDone, s))"

definition second_resume :: "nat \<Rightarrow> dl_at \<Rightarrow> dl_state \<Rightarrow> dl_at \<times> dl_state" where
  "second_resume me p s = (case p of
     DlStart \<Rightarrow> if dl_b s = None then (DlYield, s\<lparr>dl_b := Some me, b_locked := True\<rparr>) else (DlStart, s)
   | DlYield \<Rightarrow> if \<not> a_locked s then (DlDone, s\<lparr>dl_b := None, b_locked := False\<rparr>)
       else if dl_a s = None then (DlDone, s\<lparr>dl_a := Some me\<rparr>) else (DlLock, s)
   | DlLock \<Rightarrow> if dl_a s = None then (DlDone, s\<lparr>dl_a := Some me\<rparr>) else (DlLock, s)
   | DlDone \<Rightarrow> (DlDone, s))"

text \<open>\<open>Spawn(routine).Join()\<close>: the fiber alone, resumed until it is done.\<close>

fun join_alone :: "nat \<Rightarrow> (dl_at \<Rightarrow> dl_state \<Rightarrow> dl_at \<times> dl_state) \<Rightarrow> dl_at \<Rightarrow> dl_state \<Rightarrow> (dl_at \<times> dl_state)" where
  "join_alone 0 f p s = (p, s)"
| "join_alone (Suc k) f p s = (if p = DlDone then (p, s) else (let (p', s') = f p s in join_alone k f p' s'))"

text \<open>The two fibers together, resumed in the order of a schedule (\<open>False\<close>: first).\<close>

fun TwoFibers :: "bool list \<Rightarrow> dl_at \<times> dl_at \<times> dl_state \<Rightarrow> dl_at \<times> dl_at \<times> dl_state" where
  "TwoFibers [] c = c"
| "TwoFibers (b # bs) (p, q, s) =
     (if b then (let (q', s') = second_resume 1 q s in TwoFibers bs (p, q', s'))
      else (let (p', s') = first_resume 0 p s in TwoFibers bs (p', q, s')))"

definition fiber_again :: "nat option \<Rightarrow> bool \<times> nat option" where
  "fiber_again mutex = (if mutex = None then (True, Some 0) else (False, mutex))"

fun OneFiberDeadLock :: "nat \<Rightarrow> nat option \<Rightarrow> nat \<times> nat option" where
  "OneFiberDeadLock 0 m = (0, m)"
| "OneFiberDeadLock (Suc k) m =
     (let (ok, m') = fiber_again m
      in if ok then (let (d, r) = OneFiberDeadLock k m' in (Suc d, r)) else (0, m'))"

lemma two_fibers_stuck:
  "TwoFibers sched (DlLock, DlLock, \<lparr>dl_a = Some x, dl_b = Some y, a_locked = u, b_locked = v\<rparr>) =
     (DlLock, DlLock, \<lparr>dl_a = Some x, dl_b = Some y, a_locked = u, b_locked = v\<rparr>)"
  by (induction sched) (simp_all add: first_resume_def second_resume_def)

text \<open>the deadlock simulations do what they announce: each routine alone, run twice, ends with
  both mutexes unlocked; the two together, resumed in turn as the scheduler does, block each
  other, and no further schedule changes anything; the single fiber never gets past its second
  Lock, however often it is resumed.\<close>

theorem deadlock_simulations:
  "join_alone 2 (first_resume 0) DlStart dl_init = (DlDone, dl_init) \<and>
   join_alone 2 (second_resume 0) DlStart dl_init = (DlDone, dl_init) \<and>
   (let c = TwoFibers [False, True, False, True] (DlStart, DlStart, dl_init)
    in fst c = DlLock \<and> fst (snd c) = DlLock \<and> TwoFibers sched c = c) \<and>
   OneFiberDeadLock (Suc (Suc k)) None = (1, Some 0)"
proof -
  have "OneFiberDeadLock (Suc (Suc k)) None = (1, Some 0)"
    by (simp add: fiber_again_def)
  moreover have "TwoFibers [False, True, False, True] (DlStart, DlStart, dl_init) =
      (DlLock, DlLock, \<lparr>dl_a = Some 0, dl_b = Some 1, a_locked = True, b_locked = True\<rparr>)"
    by (simp add: first_resume_def second_resume_def dl_init_def)
  ultimately show ?thesis
    using two_fibers_stuck
    by (simp add: first_resume_def second_resume_def dl_init_def Let_def numeral_2_eq_2)
qed

end
