(* ===== verification/Semaphores.thy ===== *)
theory Semaphores
  imports Prelude
begin

section \<open>Semaphores, tagged tokens and the bounded blocking queue\<close>

text \<open>
  \<open>cond/semaphore/semaphore.hpp\<close>, \<open>tagged_semaphore.hpp\<close> and \<open>queue.hpp\<close>. The body of
  Acquire and Release runs under the semaphore's mutex, so the part from one lock to the
  next unlock (or wait) is one step. A thread in \<open>wait_cv_.wait\<close> sleeps until a notify or
  a spurious wake lets it take the mutex and evaluate the predicate again.
\<close>

subsection \<open>Semaphore\<close>

text \<open>\<open>None\<close>: the predicate is false and the thread waits. The flag of Release: notify all.\<close>

definition Semaphore_Acquire :: "size_t \<Rightarrow> size_t option" where
  "Semaphore_Acquire tokens = (if tokens \<noteq> 0 then Some (tokens - 1) else None)"

definition Semaphore_Release :: "size_t \<Rightarrow> size_t \<times> bool" where
  "Semaphore_Release tokens = (let tokens' = tokens + 1 in (tokens', tokens' = 1))"

lemmas semaphore_ops = Semaphore_Acquire_def Semaphore_Release_def

datatype sem_pc = SemIdle | SemTry | SemSleep

datatype sem_act = SemCallAcquire | SemLocked | SemSpurious | SemCallRelease

record sem_state =
  sem_tokens :: size_t
  sem_pc :: "tid \<Rightarrow> sem_pc"
  sem_acquired :: nat   \<comment> \<open>how many Acquire calls have returned\<close>
  sem_released :: nat   \<comment> \<open>how many Release calls have returned\<close>

definition sem_start :: "size_t \<Rightarrow> sem_state" where
  "sem_start tokens = \<lparr>sem_tokens = tokens, sem_pc = (\<lambda>_. SemIdle), sem_acquired = 0, sem_released = 0\<rparr>"

definition sem_notify_all :: "(tid \<Rightarrow> sem_pc) \<Rightarrow> tid \<Rightarrow> sem_pc" where
  "sem_notify_all f = (\<lambda>u. if f u = SemSleep then SemTry else f u)"

fun sem_step :: "tid \<times> sem_act \<Rightarrow> sem_state \<Rightarrow> sem_state option" where
  "sem_step (t, SemCallAcquire) s =
     (if sem_pc s t = SemIdle then Some (s\<lparr>sem_pc := (sem_pc s)(t := SemTry)\<rparr>) else None)"
| "sem_step (t, SemLocked) s =
     (if sem_pc s t = SemTry then
        (case Semaphore_Acquire (sem_tokens s) of
           Some k \<Rightarrow> Some (s\<lparr>sem_tokens := k, sem_pc := (sem_pc s)(t := SemIdle), sem_acquired := sem_acquired s + 1\<rparr>)
         | None \<Rightarrow> Some (s\<lparr>sem_pc := (sem_pc s)(t := SemSleep)\<rparr>))
      else None)"
| "sem_step (t, SemSpurious) s =
     (if sem_pc s t = SemSleep then Some (s\<lparr>sem_pc := (sem_pc s)(t := SemTry)\<rparr>) else None)"
| "sem_step (t, SemCallRelease) s =
     (if sem_pc s t = SemIdle then
        (let (k, notify) = Semaphore_Release (sem_tokens s)
         in Some (s\<lparr>sem_tokens := k, sem_released := sem_released s + 1,
                    sem_pc := (if notify then sem_notify_all (sem_pc s) else sem_pc s)\<rparr>))
      else None)"

definition sem_inv :: "size_t \<Rightarrow> sem_state \<Rightarrow> bool" where
  "sem_inv init s \<longleftrightarrow>
     (\<forall>t. sem_pc s t = SemSleep \<longrightarrow> sem_tokens s = 0) \<and>
     sem_tokens s + of_nat (sem_acquired s) = init + of_nat (sem_released s)"

lemma sem_inv_step:
  assumes inv: "sem_inv init s" and st: "sem_step a s = Some s'"
  shows "sem_inv init s'"
proof -
  obtain t b where a: "a = (t, b)" by (cases a)
  have c: "sem_tokens s + of_nat (sem_acquired s) = init + of_nat (sem_released s)"
    and sl: "\<And>t. sem_pc s t = SemSleep \<Longrightarrow> sem_tokens s = 0"
    using inv by (auto simp: sem_inv_def)
  show ?thesis
  proof (cases b)
    case SemLocked
    show ?thesis
    proof (cases "sem_tokens s = 0")
      case True
      with st a SemLocked c show ?thesis by (auto simp: sem_inv_def semaphore_ops split: if_splits)
    next
      case False
      then have "sem_pc s u \<noteq> SemSleep" for u using sl by blast
      with False st a SemLocked c show ?thesis by (auto simp: sem_inv_def semaphore_ops split: if_splits)
    qed
  next
    case SemCallRelease
    show ?thesis
    proof (cases "sem_tokens s = 0")
      case True
      with st a SemCallRelease c show ?thesis
        by (auto simp: sem_inv_def semaphore_ops sem_notify_all_def Let_def split: if_splits)
    next
      case False
      then have "sem_pc s u \<noteq> SemSleep" for u using sl by blast
      with st a SemCallRelease c show ?thesis
        by (auto simp: sem_inv_def semaphore_ops sem_notify_all_def Let_def algebra_simps split: if_splits)
    qed
  qed (use st a c sl in \<open>auto simp: sem_inv_def split: if_splits\<close>)
qed

interpretation sem: inv_system "sem_start init" sem_step "sem_inv init"
proof unfold_locales
  show "sem_inv init (sem_start init)" by (simp add: sem_inv_def sem_start_def)
qed (rule sem_inv_step)



text \<open>The contract a client of the semaphore uses, in terms of the number of tokens.\<close>

locale token_counter =
  fixes tokens :: "'s \<Rightarrow> nat"
    and acquire :: "'s \<Rightarrow> 's option"
    and release :: "'s \<Rightarrow> 's"
    and capacity :: nat
  assumes acquire_blocks: "acquire s = None \<longleftrightarrow> tokens s = 0"
    and acquire_takes: "acquire s = Some s' \<Longrightarrow> tokens s = Suc (tokens s')"
    and release_adds: "Suc (tokens s) < capacity \<Longrightarrow> tokens (release s) = Suc (tokens s)"
begin

lemma acquire_some: "0 < tokens s \<Longrightarrow> \<exists>s'. acquire s = Some s' \<and> tokens s' = tokens s - 1"
  using acquire_blocks [of s] acquire_takes [of s] by (cases "acquire s") auto

lemma acquire_release: "Suc (tokens s) < capacity \<Longrightarrow> \<exists>s'. acquire (release s) = Some s' \<and> tokens s' = tokens s"
  using acquire_some [of "release s"] release_adds [of s] by auto

end

lemma unat_minus_one_size_t: "x \<noteq> (0 :: size_t) \<Longrightarrow> unat x = Suc (unat (x - 1))"
  by (metis Suc_pred' unat_gt_0 unat_minus_one)

lemma unat_plus_one_size_t: "Suc (unat x) < 2 ^ 64 \<Longrightarrow> unat (x + 1 :: size_t) = Suc (unat x)"
  using unat_of_nat_64 [of "Suc (unat x)"] by (simp add: add.commute)

interpretation tokens: token_counter unat Semaphore_Acquire "\<lambda>s. fst (Semaphore_Release s)" "2 ^ 64"
proof unfold_locales
  fix s s' :: size_t
  show "Semaphore_Acquire s = None \<longleftrightarrow> unat s = 0" by (simp add: Semaphore_Acquire_def unat_eq_0)
  show "Semaphore_Acquire s = Some s' \<Longrightarrow> unat s = Suc (unat s')"
    by (auto simp: Semaphore_Acquire_def unat_minus_one_size_t split: if_splits)
  show "Suc (unat s) < 2 ^ 64 \<Longrightarrow> unat (fst (Semaphore_Release s)) = Suc (unat s)"
    by (simp add: Semaphore_Release_def unat_plus_one_size_t)
qed

subsection \<open>TaggedSemaphore: linear tokens\<close>

text \<open>
  A token is valid or not; \<open>None\<close> is a failed assertion. Moving invalidates the source and
  gives a fresh valid token; the destructor asserts that the token was given back.
\<close>

record Token =
  valid :: bool

definition Token_new :: Token where
  "Token_new = \<lparr>valid = True\<rparr>"

definition Token_Invalidate :: "Token \<Rightarrow> Token option" where
  "Token_Invalidate token = (if valid token then Some (token\<lparr>valid := False\<rparr>) else None)"

definition Token_move :: "Token \<Rightarrow> (Token \<times> Token) option" where
  "Token_move that = (case Token_Invalidate that of None \<Rightarrow> None | Some that' \<Rightarrow> Some (Token_new, that'))"

definition Token_destroy :: "Token \<Rightarrow> unit option" where
  "Token_destroy token = (if \<not> valid token then Some () else None)"

definition TaggedSemaphore_Acquire :: "size_t \<Rightarrow> (Token \<times> size_t) option" where
  "TaggedSemaphore_Acquire impl = (case Semaphore_Acquire impl of
     None \<Rightarrow> None | Some impl' \<Rightarrow> Some (Token_new, impl'))"

definition TaggedSemaphore_Release :: "size_t \<Rightarrow> Token \<Rightarrow> (size_t \<times> Token option)" where
  "TaggedSemaphore_Release impl token = (fst (Semaphore_Release impl), Token_Invalidate token)"

lemmas token_defs = Token_new_def Token_Invalidate_def Token_move_def Token_destroy_def

subsection \<open>BoundedBlockingQueue\<close>

text \<open>
  Put and Take at the granularity of the semaphore operations and the two buffer
  operations. The tokens that a call holds are in its program counter. An Acquire that
  would sleep is not enabled. \<open>bq_pushed\<close> and \<open>bq_taken\<close> are the histories of the buffer.
\<close>

datatype 'a bq_pc =
    BqIdle
  | BqPut 'a                         \<comment> \<open>Put was called\<close>
  | BqPutMutex 'a Token              \<comment> \<open>holds a free token\<close>
  | BqPutPush 'a Token Token         \<comment> \<open>and the mutex token\<close>
  | BqPutUnlock Token Token
  | BqPutAvail Token
  | BqTake
  | BqTakeMutex Token
  | BqTakePop Token Token
  | BqTakeUnlock 'a Token Token
  | BqTakeFree 'a Token
  | BqFailed                         \<comment> \<open>an assertion failed, or front() of an empty buffer\<close>

record 'a bq_state =
  buffer :: "'a list"
  free_sem :: size_t
  avail_sem :: size_t
  mutex_sem :: size_t
  bq_pc :: "tid \<Rightarrow> 'a bq_pc"
  bq_pushed :: "'a list"
  bq_taken :: "'a list"

definition Queue_init :: "size_t \<Rightarrow> 'a bq_state" where
  "Queue_init capacity = \<lparr>buffer = [], free_sem = capacity, avail_sem = 0, mutex_sem = 1,
     bq_pc = (\<lambda>_. BqIdle), bq_pushed = [], bq_taken = []\<rparr>"

text \<open>\<open>Token token(std::move(sem.Acquire()))\<close>: the temporary is moved from and destroyed.\<close>

definition acquire_token :: "size_t \<Rightarrow> (Token option \<times> size_t) option" where
  "acquire_token sem = (case TaggedSemaphore_Acquire sem of
     None \<Rightarrow> None
   | Some (tmp, sem') \<Rightarrow>
       (case Token_move tmp of
          None \<Rightarrow> Some (None, sem')
        | Some (token, tmp') \<Rightarrow> Some (if Token_destroy tmp' = None then None else Some token, sem')))"

text \<open>\<open>Release(std::move(token))\<close> and the end of the token's scope.\<close>

definition release_token :: "size_t \<Rightarrow> Token \<Rightarrow> size_t \<times> bool" where
  "release_token sem token = (let (sem', r) = TaggedSemaphore_Release sem token
     in (sem', case r of None \<Rightarrow> False | Some token' \<Rightarrow> Token_destroy token' \<noteq> None))"

definition bq_set :: "tid \<Rightarrow> 'a bq_pc \<Rightarrow> 'a bq_state \<Rightarrow> 'a bq_state" where
  "bq_set t p s = s\<lparr>bq_pc := (bq_pc s)(t := p)\<rparr>"

definition Queue_Put_step :: "tid \<Rightarrow> 'a bq_state \<Rightarrow> 'a bq_state option" where
  "Queue_Put_step t s = (case bq_pc s t of
     BqPut value \<Rightarrow> (case acquire_token (free_sem s) of
         None \<Rightarrow> None
       | Some (tk, f) \<Rightarrow> Some (bq_set t (case tk of None \<Rightarrow> BqFailed | Some token \<Rightarrow> BqPutMutex value token) (s\<lparr>free_sem := f\<rparr>)))
   | BqPutMutex value token \<Rightarrow> (case acquire_token (mutex_sem s) of
         None \<Rightarrow> None
       | Some (tk, m) \<Rightarrow> Some (bq_set t (case tk of None \<Rightarrow> BqFailed | Some mutex_token \<Rightarrow> BqPutPush value token mutex_token)
           (s\<lparr>mutex_sem := m\<rparr>)))
   | BqPutPush value token mutex_token \<Rightarrow>
       Some (bq_set t (BqPutUnlock token mutex_token) (s\<lparr>buffer := buffer s @ [value], bq_pushed := bq_pushed s @ [value]\<rparr>))
   | BqPutUnlock token mutex_token \<Rightarrow>
       (let (m, ok) = release_token (mutex_sem s) mutex_token
        in Some (bq_set t (if ok then BqPutAvail token else BqFailed) (s\<lparr>mutex_sem := m\<rparr>)))
   | BqPutAvail token \<Rightarrow>
       (let (a, ok) = release_token (avail_sem s) token
        in Some (bq_set t (if ok then BqIdle else BqFailed) (s\<lparr>avail_sem := a\<rparr>)))
   | _ \<Rightarrow> None)"

definition Queue_Take_step :: "tid \<Rightarrow> 'a bq_state \<Rightarrow> 'a bq_state option" where
  "Queue_Take_step t s = (case bq_pc s t of
     BqTake \<Rightarrow> (case acquire_token (avail_sem s) of
         None \<Rightarrow> None
       | Some (tk, a) \<Rightarrow> Some (bq_set t (case tk of None \<Rightarrow> BqFailed | Some token \<Rightarrow> BqTakeMutex token) (s\<lparr>avail_sem := a\<rparr>)))
   | BqTakeMutex token \<Rightarrow> (case acquire_token (mutex_sem s) of
         None \<Rightarrow> None
       | Some (tk, m) \<Rightarrow> Some (bq_set t (case tk of None \<Rightarrow> BqFailed | Some mutex_token \<Rightarrow> BqTakePop token mutex_token)
           (s\<lparr>mutex_sem := m\<rparr>)))
   | BqTakePop token mutex_token \<Rightarrow> (case buffer s of
         [] \<Rightarrow> Some (bq_set t BqFailed s)
       | value # rest \<Rightarrow>
           Some (bq_set t (BqTakeUnlock value token mutex_token) (s\<lparr>buffer := rest, bq_taken := bq_taken s @ [value]\<rparr>)))
   | BqTakeUnlock value token mutex_token \<Rightarrow>
       (let (m, ok) = release_token (mutex_sem s) mutex_token
        in Some (bq_set t (if ok then BqTakeFree value token else BqFailed) (s\<lparr>mutex_sem := m\<rparr>)))
   | BqTakeFree value token \<Rightarrow>
       (let (f, ok) = release_token (free_sem s) token
        in Some (bq_set t (if ok then BqIdle else BqFailed) (s\<lparr>free_sem := f\<rparr>)))
   | _ \<Rightarrow> None)"

datatype 'a bq_act = BqCallPut 'a | BqCallTake | BqStepPut | BqStepTake

fun bq_step :: "nat \<Rightarrow> tid \<times> 'a bq_act \<Rightarrow> 'a bq_state \<Rightarrow> 'a bq_state option" where
  "bq_step n (t, BqCallPut v) s = (case bq_pc s t of BqIdle \<Rightarrow> if t < n then Some (bq_set t (BqPut v) s) else None | _ \<Rightarrow> None)"
| "bq_step n (t, BqCallTake) s = (case bq_pc s t of BqIdle \<Rightarrow> if t < n then Some (bq_set t BqTake s) else None | _ \<Rightarrow> None)"
| "bq_step n (t, BqStepPut) s = (if t < n then Queue_Put_step t s else None)"
| "bq_step n (t, BqStepTake) s = (if t < n then Queue_Take_step t s else None)"

text \<open>What a call at a program point holds: free or avail tokens, the mutex, an item.\<close>

fun bq_mid_put :: "'a bq_pc \<Rightarrow> bool" where  \<comment> \<open>holds a free token, has not pushed\<close>
  "bq_mid_put (BqPutMutex _ _) = True" | "bq_mid_put (BqPutPush _ _ _) = True" | "bq_mid_put _ = False"

fun bq_end_put :: "'a bq_pc \<Rightarrow> bool" where  \<comment> \<open>has pushed, has not announced it\<close>
  "bq_end_put (BqPutUnlock _ _) = True" | "bq_end_put (BqPutAvail _) = True" | "bq_end_put _ = False"

fun bq_mid_take :: "'a bq_pc \<Rightarrow> bool" where
  "bq_mid_take (BqTakeMutex _) = True" | "bq_mid_take (BqTakePop _ _) = True" | "bq_mid_take _ = False"

fun bq_end_take :: "'a bq_pc \<Rightarrow> bool" where
  "bq_end_take (BqTakeUnlock _ _ _) = True" | "bq_end_take (BqTakeFree _ _) = True" | "bq_end_take _ = False"

fun bq_in_mutex :: "'a bq_pc \<Rightarrow> bool" where
  "bq_in_mutex (BqPutPush _ _ _) = True" | "bq_in_mutex (BqPutUnlock _ _) = True"
| "bq_in_mutex (BqTakePop _ _) = True" | "bq_in_mutex (BqTakeUnlock _ _ _) = True" | "bq_in_mutex _ = False"

fun bq_tokens_ok :: "'a bq_pc \<Rightarrow> bool" where
  "bq_tokens_ok (BqPutMutex _ t) = valid t" | "bq_tokens_ok (BqPutPush _ t m) = (valid t \<and> valid m)"
| "bq_tokens_ok (BqPutUnlock t m) = (valid t \<and> valid m)" | "bq_tokens_ok (BqPutAvail t) = valid t"
| "bq_tokens_ok (BqTakeMutex t) = valid t" | "bq_tokens_ok (BqTakePop t m) = (valid t \<and> valid m)"
| "bq_tokens_ok (BqTakeUnlock _ t m) = (valid t \<and> valid m)" | "bq_tokens_ok (BqTakeFree _ t) = valid t"
| "bq_tokens_ok BqFailed = False" | "bq_tokens_ok _ = True"

definition bq_inv :: "nat \<Rightarrow> size_t \<Rightarrow> 'a bq_state \<Rightarrow> bool" where
  "bq_inv n capacity s \<longleftrightarrow>
     unat (free_sem s) + cnt n bq_mid_put (bq_pc s) + length (buffer s) + cnt n bq_end_take (bq_pc s) = unat capacity \<and>
     unat (avail_sem s) + cnt n bq_mid_take (bq_pc s) + cnt n bq_end_put (bq_pc s) = length (buffer s) \<and>
     unat (mutex_sem s) + cnt n bq_in_mutex (bq_pc s) = 1 \<and>
     (\<forall>t. bq_tokens_ok (bq_pc s t)) \<and> bq_pushed s = bq_taken s @ buffer s"

lemma acquire_token_eq:
  "acquire_token sem = (if sem = 0 then None else Some (Some Token_new, sem - 1))"
  by (simp add: acquire_token_def TaggedSemaphore_Acquire_def Semaphore_Acquire_def token_defs)

lemma release_token_eq: "release_token sem token = (fst (Semaphore_Release sem), valid token)"
  by (simp add: release_token_def TaggedSemaphore_Release_def token_defs)

lemma bq_inv_set:
  assumes inv: "bq_inv n c s" and t: "t < n" and ok: "bq_tokens_ok p" and pc: "bq_pc s1 = bq_pc s"
    and hist: "bq_pushed s1 = bq_taken s1 @ buffer s1"
    and free: "unat (free_sem s1) + of_bool (bq_mid_put p) + length (buffer s1) + of_bool (bq_end_take p)
      = unat (free_sem s) + of_bool (bq_mid_put (bq_pc s t)) + length (buffer s) + of_bool (bq_end_take (bq_pc s t))"
    and avail: "unat (avail_sem s1) + of_bool (bq_mid_take p) + of_bool (bq_end_put p) + length (buffer s)
      = unat (avail_sem s) + of_bool (bq_mid_take (bq_pc s t)) + of_bool (bq_end_put (bq_pc s t)) + length (buffer s1)"
    and mtx: "unat (mutex_sem s1) + of_bool (bq_in_mutex p) = unat (mutex_sem s) + of_bool (bq_in_mutex (bq_pc s t))"
  shows "bq_inv n c (bq_set t p s1)"
proof -
  note U = cnt_upd [OF t, of _ "bq_pc s" p]
  from inv have I: "unat (free_sem s) + cnt n bq_mid_put (bq_pc s) + length (buffer s) + cnt n bq_end_take (bq_pc s) = unat c"
    "unat (avail_sem s) + cnt n bq_mid_take (bq_pc s) + cnt n bq_end_put (bq_pc s) = length (buffer s)"
    "unat (mutex_sem s) + cnt n bq_in_mutex (bq_pc s) = 1" "\<And>t. bq_tokens_ok (bq_pc s t)"
    unfolding bq_inv_def by blast+
  have "unat (free_sem s1) + cnt n bq_mid_put ((bq_pc s)(t := p)) + length (buffer s1)
      + cnt n bq_end_take ((bq_pc s)(t := p)) = unat c"
    using I(1) free U [of bq_mid_put] U [of bq_end_take] by linarith
  moreover have "unat (avail_sem s1) + cnt n bq_mid_take ((bq_pc s)(t := p)) + cnt n bq_end_put ((bq_pc s)(t := p))
      = length (buffer s1)"
    using I(2) avail U [of bq_mid_take] U [of bq_end_put] by linarith
  moreover have "unat (mutex_sem s1) + cnt n bq_in_mutex ((bq_pc s)(t := p)) = 1"
    using I(3) mtx U [of bq_in_mutex] by linarith
  ultimately show ?thesis
    using ok I(4) hist unfolding bq_inv_def bq_set_def by (simp add: pc)
qed

text \<open>What the invariant says at a program point, with no machine counter about to wrap.\<close>

lemma bq_inv_at:
  assumes inv: "bq_inv n c s" and t: "t < n"
  shows "bq_end_take (bq_pc s t) \<Longrightarrow> Suc (unat (free_sem s)) < 2 ^ 64"
    and "bq_end_put (bq_pc s t) \<Longrightarrow> Suc (unat (avail_sem s)) < 2 ^ 64"
    and "bq_in_mutex (bq_pc s t) \<Longrightarrow> Suc (unat (mutex_sem s)) < 2 ^ 64"
    and "bq_mid_take (bq_pc s t) \<Longrightarrow> buffer s \<noteq> []"
    and "bq_tokens_ok (bq_pc s u)" and "bq_pushed s = bq_taken s @ buffer s"
proof -
  from inv have I: "unat (free_sem s) + cnt n bq_mid_put (bq_pc s) + length (buffer s) + cnt n bq_end_take (bq_pc s) = unat c"
    "unat (avail_sem s) + cnt n bq_mid_take (bq_pc s) + cnt n bq_end_put (bq_pc s) = length (buffer s)"
    "unat (mutex_sem s) + cnt n bq_in_mutex (bq_pc s) = 1"
    unfolding bq_inv_def by blast+
  have pos: "P (bq_pc s t) \<Longrightarrow> 0 < cnt n P (bq_pc s)" for P using cnt_pos_iff t by blast
  have "unat c < 2 ^ LENGTH(64)" by (rule unsigned_less)
  then have c: "unat c < 2 ^ 64" by simp
  show "Suc (unat (free_sem s)) < 2 ^ 64" if "bq_end_take (bq_pc s t)" using I(1) pos [of bq_end_take, OF that] c by linarith
  show "Suc (unat (avail_sem s)) < 2 ^ 64" if "bq_end_put (bq_pc s t)" using I(1,2) pos [of bq_end_put, OF that] c by linarith
  show "Suc (unat (mutex_sem s)) < 2 ^ 64" if "bq_in_mutex (bq_pc s t)" using I(3) pos [of bq_in_mutex, OF that] by simp
  show "buffer s \<noteq> []" if "bq_mid_take (bq_pc s t)" using I(2) pos [of bq_mid_take, OF that] by auto
  show "bq_tokens_ok (bq_pc s u)" "bq_pushed s = bq_taken s @ buffer s"
    using inv unfolding bq_inv_def by blast+
qed

lemma bq_put_keeps:
  assumes inv: "bq_inv n c s" and t: "t < n" and st: "Queue_Put_step t s = Some s'"
  shows "bq_inv n c s'"
proof -
  note at = bq_inv_at [OF inv t]
  note ops = Queue_Put_step_def acquire_token_eq release_token_eq Token_new_def
  show ?thesis
  proof (cases "bq_pc s t")
    case (BqPut v)
    with st have f: "free_sem s \<noteq> 0" and s': "s' = bq_set t (BqPutMutex v Token_new) (s\<lparr>free_sem := free_sem s - 1\<rparr>)"
      by (auto simp: ops split: if_splits)
    show ?thesis unfolding s'
      by (rule bq_inv_set [OF inv t]) (use BqPut at(6) unat_minus_one_size_t [OF f] in \<open>simp_all add: Token_new_def\<close>)
  next
    case (BqPutMutex v tk)
    with st have f: "mutex_sem s \<noteq> 0" and s': "s' = bq_set t (BqPutPush v tk Token_new) (s\<lparr>mutex_sem := mutex_sem s - 1\<rparr>)"
      by (auto simp: ops split: if_splits)
    show ?thesis unfolding s'
      by (rule bq_inv_set [OF inv t])
        (use BqPutMutex at(6) at(5) [of t] unat_minus_one_size_t [OF f] in \<open>simp_all add: Token_new_def\<close>)
  next
    case (BqPutPush v tk m)
    with st have s': "s' = bq_set t (BqPutUnlock tk m) (s\<lparr>buffer := buffer s @ [v], bq_pushed := bq_pushed s @ [v]\<rparr>)"
      by (simp add: ops)
    show ?thesis unfolding s'
      by (rule bq_inv_set [OF inv t]) (use BqPutPush at(6) at(5) [of t] in simp_all)
  next
    case (BqPutUnlock tk m)
    with st at(5) [of t] have s': "s' = bq_set t (BqPutAvail tk) (s\<lparr>mutex_sem := fst (Semaphore_Release (mutex_sem s))\<rparr>)"
      by (simp add: ops)
    show ?thesis unfolding s'
      by (rule bq_inv_set [OF inv t]) (use BqPutUnlock at(6) at(5) [of t] tokens.release_adds at(3) in simp_all)
  next
    case (BqPutAvail tk)
    with st at(5) [of t] have s': "s' = bq_set t BqIdle (s\<lparr>avail_sem := fst (Semaphore_Release (avail_sem s))\<rparr>)"
      by (simp add: ops)
    show ?thesis unfolding s'
      by (rule bq_inv_set [OF inv t]) (use BqPutAvail at(6) tokens.release_adds at(2) in simp_all)
  qed (use st in \<open>simp_all add: Queue_Put_step_def\<close>)
qed

lemma bq_take_keeps:
  assumes inv: "bq_inv n c s" and t: "t < n" and st: "Queue_Take_step t s = Some s'"
  shows "bq_inv n c s'"
proof -
  note at = bq_inv_at [OF inv t]
  note ops = Queue_Take_step_def acquire_token_eq release_token_eq Token_new_def
  show ?thesis
  proof (cases "bq_pc s t")
    case BqTake
    with st have f: "avail_sem s \<noteq> 0" and s': "s' = bq_set t (BqTakeMutex Token_new) (s\<lparr>avail_sem := avail_sem s - 1\<rparr>)"
      by (auto simp: ops split: if_splits)
    show ?thesis unfolding s'
      by (rule bq_inv_set [OF inv t]) (use BqTake at(6) unat_minus_one_size_t [OF f] in \<open>simp_all add: Token_new_def\<close>)
  next
    case (BqTakeMutex tk)
    with st have f: "mutex_sem s \<noteq> 0" and s': "s' = bq_set t (BqTakePop tk Token_new) (s\<lparr>mutex_sem := mutex_sem s - 1\<rparr>)"
      by (auto simp: ops split: if_splits)
    show ?thesis unfolding s'
      by (rule bq_inv_set [OF inv t])
        (use BqTakeMutex at(6) at(5) [of t] unat_minus_one_size_t [OF f] in \<open>simp_all add: Token_new_def\<close>)
  next
    case (BqTakePop tk m)
    with at(4) obtain v rest where b: "buffer s = v # rest" by (cases "buffer s") auto
    with BqTakePop st have s': "s' = bq_set t (BqTakeUnlock v tk m) (s\<lparr>buffer := rest, bq_taken := bq_taken s @ [v]\<rparr>)"
      by (simp add: ops)
    show ?thesis unfolding s'
      by (rule bq_inv_set [OF inv t]) (use BqTakePop b at(6) at(5) [of t] in simp_all)
  next
    case (BqTakeUnlock v tk m)
    with st at(5) [of t] have s': "s' = bq_set t (BqTakeFree v tk) (s\<lparr>mutex_sem := fst (Semaphore_Release (mutex_sem s))\<rparr>)"
      by (simp add: ops)
    show ?thesis unfolding s'
      by (rule bq_inv_set [OF inv t]) (use BqTakeUnlock at(6) at(5) [of t] tokens.release_adds at(3) in simp_all)
  next
    case (BqTakeFree v tk)
    with st at(5) [of t] have s': "s' = bq_set t BqIdle (s\<lparr>free_sem := fst (Semaphore_Release (free_sem s))\<rparr>)"
      by (simp add: ops)
    show ?thesis unfolding s'
      by (rule bq_inv_set [OF inv t]) (use BqTakeFree at(6) tokens.release_adds at(1) in simp_all)
  qed (use st in \<open>simp_all add: Queue_Take_step_def\<close>)
qed

lemma bq_inv_step:
  assumes inv: "bq_inv n c s" and st: "bq_step n a s = Some s'"
  shows "bq_inv n c s'"
proof -
  obtain t b where a: "a = (t, b)" by (cases a)
  show ?thesis
  proof (cases b)
    case (BqCallPut v)
    with st a have t: "t < n" "bq_pc s t = BqIdle" and s': "s' = bq_set t (BqPut v) s"
      by (auto split: bq_pc.splits if_splits)
    show ?thesis unfolding s'
      by (rule bq_inv_set [OF inv t(1)]) (use t bq_inv_at(6) [OF inv t(1)] in simp_all)
  next
    case BqCallTake
    with st a have t: "t < n" "bq_pc s t = BqIdle" and s': "s' = bq_set t BqTake s"
      by (auto split: bq_pc.splits if_splits)
    show ?thesis unfolding s'
      by (rule bq_inv_set [OF inv t(1)]) (use t bq_inv_at(6) [OF inv t(1)] in simp_all)
  qed (use st a bq_put_keeps [OF inv] bq_take_keeps [OF inv] in \<open>auto split: if_splits\<close>)
qed

interpretation bq: inv_system "Queue_init c" "bq_step n" "bq_inv n c"
proof unfold_locales
  show "bq_inv n c (Queue_init c)" by (simp add: bq_inv_def Queue_init_def cnt_const)
qed (rule bq_inv_step)

text \<open>C20: the bounded blocking queue is a FIFO of bounded length for every capacity, number of
  threads and schedule: the buffer never exceeds the capacity, what was taken followed by what
  is in the buffer is exactly what was put, in order; \<open>front()\<close> is never called on an empty
  buffer and no assertion of the linear tokens fails; at most one thread is at the buffer.\<close>

theorem bounded_queue_fifo:
  fixes sched :: "(tid \<times> 'a bq_act) list"
  shows "let s = run (bq_step n) sched (Queue_init capacity)
   in length (buffer s) \<le> unat capacity \<and> bq_pushed s = bq_taken s @ buffer s \<and>
      {t. bq_pc s t = BqFailed} = {} \<and> cnt n bq_in_mutex (bq_pc s) \<le> 1"
proof -
  let ?s = "run (bq_step n) sched (Queue_init capacity)"
  have inv: "bq_inv n capacity ?s" by (rule bq.inv_run)
  have "bq_tokens_ok (bq_pc ?s t)" for t using inv unfolding bq_inv_def by blast
  then have "bq_pc ?s t \<noteq> BqFailed" for t by (metis bq_tokens_ok.simps(9))
  then have "{t. bq_pc ?s t = BqFailed} = {}" by simp
  moreover have "length (buffer ?s) \<le> unat capacity" "cnt n bq_in_mutex (bq_pc ?s) \<le> 1"
    using inv unfolding bq_inv_def by linarith+
  moreover have "bq_pushed ?s = bq_taken ?s @ buffer ?s" using inv unfolding bq_inv_def by blast
  ultimately show ?thesis by (simp add: Let_def)
qed

end
