(* ===== verification/WaitGroups.thy ===== *)
theory WaitGroups
  imports Prelude
begin

section \<open>Wait groups\<close>

text \<open>
  Five versions of the same class. Counter only: \<open>cond/wait_group/wait_group-v1-1atomic.hpp\<close>
  (futex on the counter), \<open>wait_group-v2-condvar.hpp\<close> (condition variable). Counter and done
  flag: \<open>cond/wait_group/wait_group.hpp\<close>, \<open>tasks/thread-pool/tp/wait_group.hpp\<close>,
  \<open>futures/fun/exe/threads/wait_group.hpp\<close>. Every version is its atomic operations: what Add
  does, what Done does after its decrement, what Wait tests and what it sleeps on. A
  suspended thread is at one of these program points.
\<close>

datatype wg_pc =
    WgIdle
  | WgClear u32      \<comment> \<open>in Add of so many units, about to store 0 to \<open>done_\<close>\<close>
  | WgStore          \<comment> \<open>in Done, about to store 1 to \<open>done_\<close>\<close>
  | WgPrepare        \<comment> \<open>in Done, about to call \<open>PrepareWake\<close> on a field of the object\<close>
  | WgPrepareStore   \<comment> \<open>in Done, \<open>PrepareWake\<close> before the store\<close>
  | WgWakeAll        \<comment> \<open>in Done, about to wake with the prepared key\<close>
  | WgTest           \<comment> \<open>in Wait, about to evaluate the loop condition\<close>
  | WgPark u32       \<comment> \<open>in Wait, about to sleep if the futex word still has this value\<close>
  | WgSleep
  | WgReturned       \<comment> \<open>Wait has returned\<close>

record wg_state =
  wg_counter :: u32
  wg_done :: u32
  wg_pc :: "tid \<Rightarrow> wg_pc"
  wg_units :: nat   \<comment> \<open>units added by an Add that has returned, and not yet done\<close>

definition wg_init :: wg_state where
  "wg_init = \<lparr>wg_counter = 0, wg_done = 1, wg_pc = (\<lambda>_. WgIdle), wg_units = 0\<rparr>"

subsection \<open>The versions\<close>

text \<open>Each function returns the new counter or flag and the next program point of the caller.\<close>

definition Wg1_Add :: "u32 \<Rightarrow> u32 \<Rightarrow> u32 \<times> wg_pc" where
  "Wg1_Add n counter = (counter + n, WgIdle)"

definition Wg1_Done :: "u32 \<Rightarrow> u32 \<times> wg_pc" where
  "Wg1_Done counter = (counter - 1, if counter = 1 then WgPrepare else WgIdle)"

definition Wg1_Wait_test :: "u32 \<Rightarrow> u32 \<Rightarrow> wg_pc" where
  "Wg1_Wait_test counter done = (let c = counter in if c = 0 then WgReturned else WgPark c)"

definition Wg2_Add :: "u32 \<Rightarrow> u32 \<Rightarrow> u32 \<times> wg_pc" where
  "Wg2_Add n counter = (counter + n, if counter = 0 then WgClear n else WgIdle)"

definition Wg2_Done :: "u32 \<Rightarrow> u32 \<times> wg_pc" where
  "Wg2_Done counter = (counter - 1, if counter - 1 = 0 then WgStore else WgIdle)"

definition Wg2_Wait_test :: "u32 \<Rightarrow> u32 \<Rightarrow> wg_pc" where
  "Wg2_Wait_test counter done = (if done = 0 then WgPark 0 else WgReturned)"

definition WgTp_Add :: "u32 \<Rightarrow> u32 \<Rightarrow> u32 \<Rightarrow> u32 \<times> wg_pc" where
  "WgTp_Add init n counter = (counter + n, if counter = init then WgClear n else WgIdle)"

definition WgTp_Done :: "u32 \<Rightarrow> u32 \<Rightarrow> u32 \<times> wg_pc" where
  "WgTp_Done init counter = (counter - 1, if counter - 1 = init then WgStore else WgIdle)"

definition WgTp_Wait_test :: "u32 \<Rightarrow> u32 \<Rightarrow> u32 \<Rightarrow> wg_pc" where
  "WgTp_Wait_test init counter done = (if counter \<noteq> init then WgPark 0 else WgReturned)"

definition WgFun_Add :: "u32 \<Rightarrow> u32 \<Rightarrow> u32 \<times> wg_pc" where
  "WgFun_Add n counter = (counter + n, WgClear n)"

definition WgFun_Done :: "u32 \<Rightarrow> u32 \<times> wg_pc" where
  "WgFun_Done counter = (counter - 1, if 0 = counter - 1 then WgPrepareStore else WgIdle)"

definition WgFun_Wait_test :: "u32 \<Rightarrow> u32 \<Rightarrow> wg_pc" where
  "WgFun_Wait_test counter done = (if 0 = done then WgPark 0 else WgReturned)"

text \<open>The version with a condition variable: Done notifies under the mutex, Wait tests under it.\<close>

definition WgCv_Add :: "u32 \<Rightarrow> u32 \<Rightarrow> u32 \<times> wg_pc" where
  "WgCv_Add n counter = (counter + n, WgIdle)"

definition WgCv_Done :: "u32 \<Rightarrow> u32 \<times> wg_pc" where
  "WgCv_Done counter = (counter - 1, if counter = 1 then WgWakeAll else WgIdle)"

definition WgCv_Wait_test :: "u32 \<Rightarrow> u32 \<Rightarrow> wg_pc" where
  "WgCv_Wait_test counter done = (if counter = 0 then WgReturned else WgSleep)"

lemmas wg_ops = Wg1_Add_def Wg1_Done_def Wg1_Wait_test_def Wg2_Add_def Wg2_Done_def Wg2_Wait_test_def
  WgTp_Add_def WgTp_Done_def WgTp_Wait_test_def WgFun_Add_def WgFun_Done_def WgFun_Wait_test_def
  WgCv_Add_def WgCv_Done_def WgCv_Wait_test_def

datatype wg_version = OneAtomic | CondVar | TwoAtomics | ThreadPoolWg | FuturesWg

fun wg_add_of :: "wg_version \<Rightarrow> u32 \<Rightarrow> u32 \<Rightarrow> u32 \<times> wg_pc" where
  "wg_add_of OneAtomic = Wg1_Add" | "wg_add_of CondVar = WgCv_Add" | "wg_add_of TwoAtomics = Wg2_Add"
| "wg_add_of ThreadPoolWg = WgTp_Add 0" | "wg_add_of FuturesWg = WgFun_Add"

fun wg_done_of :: "wg_version \<Rightarrow> u32 \<Rightarrow> u32 \<times> wg_pc" where
  "wg_done_of OneAtomic = Wg1_Done" | "wg_done_of CondVar = WgCv_Done" | "wg_done_of TwoAtomics = Wg2_Done"
| "wg_done_of ThreadPoolWg = WgTp_Done 0" | "wg_done_of FuturesWg = WgFun_Done"

fun wg_test_of :: "wg_version \<Rightarrow> u32 \<Rightarrow> u32 \<Rightarrow> wg_pc" where
  "wg_test_of OneAtomic = Wg1_Wait_test" | "wg_test_of CondVar = WgCv_Wait_test" | "wg_test_of TwoAtomics = Wg2_Wait_test"
| "wg_test_of ThreadPoolWg = WgTp_Wait_test 0" | "wg_test_of FuturesWg = WgFun_Wait_test"

text \<open>The word the futex compares: the counter in the first version, the flag in the others.\<close>

fun wg_word_of :: "wg_version \<Rightarrow> wg_state \<Rightarrow> u32" where
  "wg_word_of OneAtomic = wg_counter" | "wg_word_of _ = wg_done"

subsection \<open>Threads\<close>

text \<open>
  A thread calls Add at any time, Done while there is a unit, Wait at any time. The ghost
  field \<open>wg_units\<close> counts a unit from the return of its Add to the call of its Done.
\<close>

datatype wg_act = WgAdd u32 | WgDone | WgWait | WgStep | WgSpurious

definition wg_wake_all :: "(tid \<Rightarrow> wg_pc) \<Rightarrow> tid \<Rightarrow> wg_pc" where
  "wg_wake_all f = (\<lambda>u. if f u = WgSleep then WgTest else f u)"

definition wg_go :: "tid \<Rightarrow> wg_pc \<Rightarrow> wg_state \<Rightarrow> wg_state" where
  "wg_go t p s = s\<lparr>wg_pc := (wg_pc s)(t := p)\<rparr>"

fun wg_step :: "wg_version \<Rightarrow> tid \<times> wg_act \<Rightarrow> wg_state \<Rightarrow> wg_state option" where
  "wg_step v (t, WgAdd n) s =
     (if wg_pc s t = WgIdle then
        (let (c, p) = wg_add_of v n (wg_counter s)
         in Some (wg_go t p (s\<lparr>wg_counter := c, wg_units := (if p = WgIdle then wg_units s + unat n else wg_units s)\<rparr>)))
      else None)"
| "wg_step v (t, WgDone) s =
     (if wg_pc s t = WgIdle \<and> 0 < wg_units s then
        (let (c, p) = wg_done_of v (wg_counter s)
         in Some (wg_go t p (s\<lparr>wg_counter := c, wg_units := wg_units s - 1\<rparr>)))
      else None)"
| "wg_step v (t, WgWait) s =
     (if wg_pc s t = WgIdle then Some (wg_go t WgTest s) else None)"
| "wg_step v (t, WgStep) s = (case wg_pc s t of
     WgClear n \<Rightarrow> Some (wg_go t WgIdle (s\<lparr>wg_done := 0, wg_units := wg_units s + unat n\<rparr>))
   | WgStore \<Rightarrow> Some (wg_go t WgPrepare (s\<lparr>wg_done := 1\<rparr>))
   | WgPrepare \<Rightarrow> Some (wg_go t WgWakeAll s)
   | WgPrepareStore \<Rightarrow> Some (wg_go t WgWakeAll (s\<lparr>wg_done := 1\<rparr>))
   | WgWakeAll \<Rightarrow> Some (s\<lparr>wg_pc := (wg_wake_all (wg_pc s))(t := WgIdle)\<rparr>)
   | WgTest \<Rightarrow> Some (wg_go t (wg_test_of v (wg_counter s) (wg_done s)) s)
   | WgPark w \<Rightarrow> Some (wg_go t (if wg_word_of v s = w then WgSleep else WgTest) s)
   | _ \<Rightarrow> None)"
| "wg_step v (t, WgSpurious) s =
     (if wg_pc s t = WgSleep then Some (wg_go t WgTest s) else None)"

subsection \<open>One-shot use\<close>

text \<open>
  The comment over Wait says one-shot: the units are added first, then each is done once while
  any number of threads wait. \<open>wg_shot_start v n\<close> is the state after \<open>Add(n)\<close> returned.
\<close>

definition wg_shot_start :: "wg_version \<Rightarrow> nat \<Rightarrow> wg_state" where
  "wg_shot_start v n = run (wg_step v) [(0, WgAdd (of_nat n)), (0, WgStep)] wg_init"

fun wg_shot_step :: "wg_version \<Rightarrow> tid \<times> wg_act \<Rightarrow> wg_state \<Rightarrow> wg_state option" where
  "wg_shot_step v (t, WgAdd n) s = None"
| "wg_shot_step v a s = wg_step v a s"

fun wg_storing :: "wg_pc \<Rightarrow> bool" where
  "wg_storing WgStore = True" | "wg_storing WgPrepareStore = True" | "wg_storing _ = False"

fun wg_last :: "wg_pc \<Rightarrow> bool" where   \<comment> \<open>the Done that reached zero, until it has woken the waiters\<close>
  "wg_last WgStore = True" | "wg_last WgPrepareStore = True" | "wg_last WgPrepare = True"
| "wg_last WgWakeAll = True" | "wg_last _ = False"

fun wg_touches :: "wg_pc \<Rightarrow> bool" where   \<comment> \<open>a Done that will still use a field of the object\<close>
  "wg_touches WgStore = True" | "wg_touches WgPrepareStore = True" | "wg_touches WgPrepare = True"
| "wg_touches _ = False"

definition shot_inv :: "wg_version \<Rightarrow> bool \<Rightarrow> bool \<Rightarrow> wg_state \<Rightarrow> bool" where
  "shot_inv v flag safe s \<longleftrightarrow>
     wg_counter s = of_nat (wg_units s) \<and> wg_units s < 2 ^ 32 \<and>
     (\<forall>t. wg_last (wg_pc s t) \<longrightarrow> wg_units s = 0) \<and>
     (\<exists>h. \<forall>u. wg_last (wg_pc s u) \<longrightarrow> u = h) \<and>
     (wg_done s = 0 \<longrightarrow> flag \<and> (0 < wg_units s \<or> (\<exists>t. wg_storing (wg_pc s t)))) \<and>
     (flag \<longrightarrow> wg_done s \<noteq> 0 \<longrightarrow> wg_units s = 0 \<and> (\<forall>t. \<not> wg_storing (wg_pc s t))) \<and>
     (\<forall>t. wg_pc s t = WgSleep \<longrightarrow> 0 < wg_units s \<or> (\<exists>u. wg_last (wg_pc s u))) \<and>
     (\<forall>t. wg_pc s t = WgReturned \<longrightarrow> wg_units s = 0 \<and> (safe \<longrightarrow> wg_done s \<noteq> 0)) \<and>
     (\<forall>t w s1. wg_pc s t = WgPark w \<longrightarrow> wg_word_of v s1 = w \<longrightarrow> wg_counter s1 \<noteq> 0 \<or> wg_done s1 = 0) \<and>
     (\<forall>t w. wg_pc s t \<noteq> WgClear w) \<and>
     (safe \<longrightarrow> (\<forall>t. wg_pc s t \<noteq> WgPrepare \<and> wg_pc s t \<noteq> WgStore))"

lemma shot_invD:
  assumes "shot_inv v flag safe s"
  shows "wg_counter s = of_nat (wg_units s)" "wg_units s < 2 ^ 32"
    "\<And>t. wg_last (wg_pc s t) \<Longrightarrow> wg_units s = 0"
    "\<exists>h. \<forall>u. wg_last (wg_pc s u) \<longrightarrow> u = h"
    "wg_done s = 0 \<Longrightarrow> flag \<and> (0 < wg_units s \<or> (\<exists>t. wg_storing (wg_pc s t)))"
    "flag \<Longrightarrow> wg_done s \<noteq> 0 \<Longrightarrow> wg_units s = 0 \<and> (\<forall>t. \<not> wg_storing (wg_pc s t))"
    "\<And>t. wg_pc s t = WgSleep \<Longrightarrow> 0 < wg_units s \<or> (\<exists>u. wg_last (wg_pc s u))"
    "\<And>t. wg_pc s t = WgReturned \<Longrightarrow> wg_units s = 0 \<and> (safe \<longrightarrow> wg_done s \<noteq> 0)"
    "\<And>t w s1. wg_pc s t = WgPark w \<Longrightarrow> wg_word_of v s1 = w \<Longrightarrow> wg_counter s1 \<noteq> 0 \<or> wg_done s1 = 0"
    "\<And>t w. wg_pc s t \<noteq> WgClear w" "safe \<Longrightarrow> wg_pc s t \<noteq> WgPrepare \<and> wg_pc s t \<noteq> WgStore"
  using assms unfolding shot_inv_def by blast+

lemma shot_invI:
  assumes "wg_counter s = of_nat (wg_units s)" "wg_units s < 2 ^ 32"
    "\<And>t. wg_last (wg_pc s t) \<Longrightarrow> wg_units s = 0"
    "\<exists>h. \<forall>u. wg_last (wg_pc s u) \<longrightarrow> u = h"
    "wg_done s = 0 \<Longrightarrow> flag \<and> (0 < wg_units s \<or> (\<exists>t. wg_storing (wg_pc s t)))"
    "flag \<Longrightarrow> wg_done s \<noteq> 0 \<Longrightarrow> wg_units s = 0 \<and> (\<forall>t. \<not> wg_storing (wg_pc s t))"
    "\<And>t. wg_pc s t = WgSleep \<Longrightarrow> 0 < wg_units s \<or> (\<exists>u. wg_last (wg_pc s u))"
    "\<And>t. wg_pc s t = WgReturned \<Longrightarrow> wg_units s = 0 \<and> (safe \<longrightarrow> wg_done s \<noteq> 0)"
    "\<And>t w s1. wg_pc s t = WgPark w \<Longrightarrow> wg_word_of v s1 = w \<Longrightarrow> wg_counter s1 \<noteq> 0 \<or> wg_done s1 = 0"
    "\<And>t w. wg_pc s t \<noteq> WgClear w" "\<And>t. safe \<Longrightarrow> wg_pc s t \<noteq> WgPrepare \<and> wg_pc s t \<noteq> WgStore"
  shows "shot_inv v flag safe s"
  unfolding shot_inv_def by (intro conjI allI impI) (use assms in blast)+

lemma wg_storing_last: "wg_storing p \<Longrightarrow> wg_last p"
  by (cases p) auto

text \<open>One thread moves, the others stay.\<close>

lemma shot_inv_move:
  assumes inv: "shot_inv v flag safe s"
    and s': "wg_pc s' = (wg_pc s)(t := p)" "wg_counter s' = of_nat (wg_units s')" "wg_units s' \<le> wg_units s"
    and last: "wg_last p \<Longrightarrow> wg_units s' = 0 \<and> (\<forall>u. u \<noteq> t \<longrightarrow> \<not> wg_last (wg_pc s u))"
    and d0: "wg_done s' = 0 \<Longrightarrow> flag \<and> (0 < wg_units s' \<or> wg_storing p \<or> (\<exists>u. u \<noteq> t \<and> wg_storing (wg_pc s u)))"
    and d1: "flag \<Longrightarrow> wg_done s' \<noteq> 0 \<Longrightarrow>
      wg_units s' = 0 \<and> \<not> wg_storing p \<and> (\<forall>u. u \<noteq> t \<longrightarrow> \<not> wg_storing (wg_pc s u))"
    and d2: "wg_done s' = wg_done s \<or> wg_done s' \<noteq> 0"
    and sl: "(\<exists>u. u \<noteq> t \<and> wg_pc s u = WgSleep) \<or> p = WgSleep \<Longrightarrow>
      0 < wg_units s' \<or> wg_last p \<or> (\<exists>u. u \<noteq> t \<and> wg_last (wg_pc s u))"
    and ret: "p = WgReturned \<Longrightarrow> wg_units s' = 0 \<and> (safe \<longrightarrow> wg_done s' \<noteq> 0)"
    and park: "\<And>w s1. p = WgPark w \<Longrightarrow> wg_word_of v s1 = w \<Longrightarrow> wg_counter s1 \<noteq> 0 \<or> wg_done s1 = 0"
    and p: "\<And>w. p \<noteq> WgClear w" "safe \<Longrightarrow> p \<noteq> WgPrepare \<and> p \<noteq> WgStore"
  shows "shot_inv v flag safe s'"
proof -
  note D = shot_invD [OF inv]
  have at: "wg_pc s' t = p" "\<And>u. u \<noteq> t \<Longrightarrow> wg_pc s' u = wg_pc s u" using s'(1) by simp_all
  show ?thesis
  proof (rule shot_invI, goal_cases)
    case 2 show ?case using D(2) s'(3) by simp
  next
    case (3 u) show ?case
      using 3 last D(3) [of u] at s'(3) by (cases "u = t") auto
  next
    case 4 show ?case
    proof (cases "wg_last p")
      case True
      with last at have "\<forall>u. wg_last (wg_pc s' u) \<longrightarrow> u = t" by metis
      then show ?thesis by blast
    next
      case False
      with D(4) at show ?thesis by metis
    qed
  next
    case 5 then show ?case using d0 at by metis
  next
    case 6 then show ?case using d1 at by metis
  next
    case (7 u) then show ?case using sl at by metis
  next
    case (8 u) show ?case
    proof (cases "u = t")
      case True with 8 ret at show ?thesis by simp
    next
      case False
      with 8 at have "wg_pc s u = WgReturned" by simp
      from D(8) [OF this] s'(3) d2 show ?thesis by auto
    qed
  next
    case (9 u w s1) then show ?case using park D(9) at by (cases "u = t") auto
  next
    case (10 u w) then show ?case using p(1) D(10) at by (cases "u = t") auto
  next
    case (11 u) then show ?case using p(2) D(11) [of u] at by (cases "u = t") auto
  qed (use s' in simp_all)
qed

lemma shot_inv_wake:
  assumes inv: "shot_inv v flag safe s" and t: "wg_pc s t = WgWakeAll"
  shows "shot_inv v flag safe (s\<lparr>wg_pc := (wg_wake_all (wg_pc s))(t := WgIdle)\<rparr>)" (is "shot_inv v flag safe ?s")
proof -
  note D = shot_invD [OF inv]
  obtain h where h: "\<And>u. wg_last (wg_pc s u) \<Longrightarrow> u = h" using D(4) by blast
  have th: "t = h" using h [of t] t by simp
  have nl: "\<not> wg_last (wg_pc ?s u)" for u
  proof (cases "u = t")
    case False
    with h th have "\<not> wg_last (wg_pc s u)" by blast
    then show ?thesis by (simp add: wg_wake_all_def)
  qed simp
  then have ns: "\<not> wg_storing (wg_pc ?s u)" for u using wg_storing_last by blast
  have st: "\<not> wg_storing (wg_pc s u)" for u
    using h [of u] th t wg_storing_last [of "wg_pc s u"] by auto
  show ?thesis
  proof (rule shot_invI, goal_cases)
    case 5 then show ?case using D(5) st by simp
  next
    case 6 then show ?case using D(6) ns by simp
  next
    case (7 u) then show ?case by (simp add: wg_wake_all_def split: if_splits)
  next
    case (8 u) then show ?case using D(8) [of u] by (simp add: wg_wake_all_def split: if_splits)
  next
    case (9 u w s1) then show ?case using D(9) [of u w s1] by (simp add: wg_wake_all_def split: if_splits)
  next
    case (10 u w) then show ?case using D(10) [of u w] by (simp add: wg_wake_all_def)
  next
    case (11 u) then show ?case using D(11) [of u] by (simp add: wg_wake_all_def)
  qed (use D(1,2) nl in auto)
qed

text \<open>
  The contract of a version: what Done does at zero (\<open>fin\<close>), when Wait may return, when it
  may sleep. \<open>flag\<close>: there is a done flag. \<open>safe\<close>: Wait returns on the flag only, and the key
  is prepared before the flag is set.
\<close>

locale wait_group =
  fixes v :: wg_version and fin :: wg_pc and flag :: bool and safe :: bool
  assumes done_eq: "wg_done_of v c = (c - 1, if c = 1 then fin else WgIdle)"
    and fin_last: "wg_last fin" and fin_flag: "wg_storing fin \<longleftrightarrow> flag"
    and test_cases: "(wg_test_of v c d = WgReturned \<and> (c = 0 \<or> flag \<and> d \<noteq> 0)) \<or>
      (wg_test_of v c d = WgSleep \<and> c \<noteq> 0) \<or>
      (\<exists>w. wg_test_of v c d = WgPark w \<and> (\<forall>s. wg_word_of v s = w \<longrightarrow> wg_counter s \<noteq> 0 \<or> wg_done s = 0))"
    and add_eq: "wg_shot_start v n = \<lparr>wg_counter = of_nat n, wg_done = (if flag then 0 else 1),
      wg_pc = (\<lambda>_. WgIdle), wg_units = unat (of_nat n :: u32)\<rparr>"
    and safe_fin: "safe \<Longrightarrow> fin = WgPrepareStore"
    and safe_test: "safe \<Longrightarrow> wg_test_of v c d = WgReturned \<Longrightarrow> d \<noteq> 0"
begin

lemma shot_start:
  assumes "0 < n" and "n < 2 ^ 32"
  shows "shot_inv v flag safe (wg_shot_start v n)"
proof -
  have "unat (of_nat n :: u32) = n" by (rule unat_of_nat_32 [OF assms(2)])
  with assms show ?thesis
    unfolding add_eq by (intro shot_invI) (auto split: if_splits)
qed

lemma shot_done:
  assumes inv: "shot_inv v flag safe s" and st: "wg_shot_step v (t, WgDone) s = Some s'"
  shows "shot_inv v flag safe s'"
proof -
  note D = shot_invD [OF inv]
  let ?p = "if wg_counter s = 1 then fin else WgIdle"
  from st have pc: "wg_pc s t = WgIdle" and u: "0 < wg_units s"
    and s': "s' = wg_go t ?p (s\<lparr>wg_counter := wg_counter s - 1, wg_units := wg_units s - 1\<rparr>)"
    by (auto simp: done_eq split: if_splits)
  have one: "wg_counter s = 1 \<longleftrightarrow> wg_units s = 1"
    using of_nat_u32_inj [of "wg_units s" 1] D(1,2) by simp
  have nl: "\<not> wg_last (wg_pc s x)" for x using D(3) [of x] u by auto
  then have ns: "\<not> wg_storing (wg_pc s x)" for x using wg_storing_last by blast
  have d: "flag \<longleftrightarrow> wg_done s = 0" using D(5,6) u by auto
  have cnt: "wg_counter s - 1 = of_nat (wg_units s - 1)" using D(1) u by (metis Suc_pred' of_nat_pred)
  have fin: "fin \<noteq> WgSleep" "fin \<noteq> WgReturned" "\<And>w. fin \<noteq> WgPark w" "\<And>w. fin \<noteq> WgClear w"
    using fin_last by (cases fin; simp)+
  show ?thesis
  proof (rule shot_inv_move [OF inv, of _ t ?p], goal_cases)
    case 4 then show ?case using one nl unfolding s' by (auto simp: wg_go_def split: if_splits)
  next
    case 5 then show ?case using one u d fin_flag unfolding s' by (auto simp: wg_go_def split: if_splits)
  next
    case 6 then show ?case using d unfolding s' by (auto simp: wg_go_def)
  next
    case 8 then show ?case using one u fin_last unfolding s' by (auto simp: wg_go_def split: if_splits)
  qed (use s' cnt fin safe_fin in \<open>auto simp: wg_go_def split: if_splits\<close>)
qed

lemma shot_move:
  assumes inv: "shot_inv v flag safe s" and st: "wg_shot_step v (t, WgStep) s = Some s'"
  shows "shot_inv v flag safe s'"
proof -
  note D = shot_invD [OF inv]
  obtain h where h: "\<And>u. wg_last (wg_pc s u) \<Longrightarrow> u = h" using D(4) by blast
  have others: "\<not> wg_last (wg_pc s u)" "\<not> wg_storing (wg_pc s u)" if "wg_last (wg_pc s t)" "u \<noteq> t" for u
    using h [of t] h [of u] that wg_storing_last [of "wg_pc s u"] by auto
  have sleepers: "0 < wg_units s \<or> (\<exists>u. wg_last (wg_pc s u))" if "\<exists>u. u \<noteq> t \<and> wg_pc s u = WgSleep"
    using D(7) that by blast
  have keep: "(\<exists>u. P (wg_pc s u)) = (\<exists>u. u \<noteq> t \<and> P (wg_pc s u))" if "\<not> P (wg_pc s t)" for P
    using that by metis
  show ?thesis
  proof (cases "wg_pc s t")
    case (WgClear w)
    then show ?thesis using D(10) by blast
  next
    case WgStore
    then have s': "s' = wg_go t WgPrepare (s\<lparr>wg_done := 1\<rparr>)" using st by simp
    have l: "wg_last (wg_pc s t)" using WgStore by simp
    have ns: "\<not> safe" using D(11) WgStore by blast
    show ?thesis
      by (rule shot_inv_move [OF inv, of _ t WgPrepare])
         (use D(1) D(3) [OF l] others [OF l] ns in \<open>auto simp: s' wg_go_def\<close>)
  next
    case WgPrepare
    then have s': "s' = wg_go t WgWakeAll s" using st by simp
    have l: "wg_last (wg_pc s t)" using WgPrepare by simp
    have st0: "wg_done s \<noteq> 0"
      using D(3) [OF l] D(5) others(2) [OF l] WgPrepare by (metis neq0_conv wg_storing.simps)
    show ?thesis
      by (rule shot_inv_move [OF inv, of _ t WgWakeAll])
         (use D(1) D(3) [OF l] others [OF l] st0 in \<open>auto simp: s' wg_go_def\<close>)
  next
    case WgPrepareStore
    then have s': "s' = wg_go t WgWakeAll (s\<lparr>wg_done := 1\<rparr>)" using st by simp
    have l: "wg_last (wg_pc s t)" using WgPrepareStore by simp
    show ?thesis
      by (rule shot_inv_move [OF inv, of _ t WgWakeAll])
         (use D(1) D(3) [OF l] others [OF l] in \<open>auto simp: s' wg_go_def\<close>)
  next
    case WgWakeAll
    with shot_inv_wake [OF inv this] st show ?thesis by simp
  next
    case WgTest
    let ?p = "wg_test_of v (wg_counter s) (wg_done s)"
    have s': "s' = wg_go t ?p s" using WgTest st by simp
    have c0: "wg_counter s = 0 \<longleftrightarrow> wg_units s = 0"
      using of_nat_u32_inj [of "wg_units s" 0] D(1,2) by simp
    have pc: "\<not> wg_last ?p" "\<not> wg_storing ?p" "\<And>w. ?p \<noteq> WgClear w" "?p \<noteq> WgPrepare" "?p \<noteq> WgStore"
      using test_cases [of "wg_counter s" "wg_done s"] by auto
    have nt: "\<not> wg_last (wg_pc s t)" "\<not> wg_storing (wg_pc s t)" using WgTest by simp_all
    show ?thesis
    proof (rule shot_inv_move [OF inv, of _ t ?p], goal_cases)
      case 5 then show ?case using D(5) keep [of wg_storing, OF nt(2)] by (auto simp: s' wg_go_def)
    next
      case 6 then show ?case using D(6) pc by (simp add: s' wg_go_def)
    next
      case 8
      have "0 < wg_units s \<or> (\<exists>u. wg_last (wg_pc s u))"
      proof (cases "?p = WgSleep")
        case True
        then have "wg_counter s \<noteq> 0" using test_cases [of "wg_counter s" "wg_done s"] by auto
        with c0 show ?thesis by simp
      next
        case False
        with 8 sleepers show ?thesis by blast
      qed
      then show ?case using keep [of wg_last, OF nt(1)] by (auto simp: s' wg_go_def)
    next
      case 9
      then have "wg_counter s = 0 \<or> flag \<and> wg_done s \<noteq> 0"
        using test_cases [of "wg_counter s" "wg_done s"] by auto
      then show ?case using c0 D(6) safe_test [OF _ 9] by (auto simp: s' wg_go_def)
    next
      case (10 w s1)
      then show ?case using test_cases [of "wg_counter s" "wg_done s"] by auto
    qed (use s' D(1) pc in \<open>auto simp: wg_go_def\<close>)
  next
    case (WgPark w)
    let ?p = "if wg_word_of v s = w then WgSleep else WgTest"
    have s': "s' = wg_go t ?p s" using WgPark st by simp
    have nt: "\<not> wg_last (wg_pc s t)" "\<not> wg_storing (wg_pc s t)" using WgPark by simp_all
    have c0: "wg_counter s \<noteq> 0 \<Longrightarrow> 0 < wg_units s" using D(1) by (cases "wg_units s = 0") simp_all
    show ?thesis
    proof (rule shot_inv_move [OF inv, of _ t ?p], goal_cases)
      case 5 then show ?case using D(5) keep [of wg_storing, OF nt(2)] by (auto simp: s' wg_go_def)
    next
      case 6 then show ?case using D(6) by (simp add: s' wg_go_def)
    next
      case 8
      have "0 < wg_units s \<or> (\<exists>u. wg_last (wg_pc s u))"
      proof (cases "wg_word_of v s = w")
        case True
        from D(9) [OF WgPark True] c0 D(5) wg_storing_last show ?thesis by blast
      next
        case False
        with 8 sleepers show ?thesis by auto
      qed
      then show ?case using keep [of wg_last, OF nt(1)] by (auto simp: s' wg_go_def)
    qed (use s' D(1) in \<open>auto simp: wg_go_def split: if_splits\<close>)
  qed (use st in simp_all)
qed

lemma shot_to_test:
  assumes inv: "shot_inv v flag safe s" and pc: "wg_pc s t = WgIdle \<or> wg_pc s t = WgSleep"
  shows "shot_inv v flag safe (wg_go t WgTest s)"
proof -
  note D = shot_invD [OF inv]
  have nt: "\<not> wg_last (wg_pc s t)" "\<not> wg_storing (wg_pc s t)" using pc by auto
  have keep: "(\<exists>u. P (wg_pc s u)) = (\<exists>u. u \<noteq> t \<and> P (wg_pc s u))" if "\<not> P (wg_pc s t)" for P
    using that by metis
  show ?thesis
  proof (rule shot_inv_move [OF inv, of _ t WgTest], goal_cases)
    case 5 then show ?case using D(5) keep [of wg_storing, OF nt(2)] by (simp add: wg_go_def)
  next
    case 6 then show ?case using D(6) by (simp add: wg_go_def)
  next
    case 8
    then obtain u where "wg_pc s u = WgSleep" by auto
    from D(7) [OF this] show ?case using keep [of wg_last, OF nt(1)] by (simp add: wg_go_def)
  qed (use D(1) in \<open>auto simp: wg_go_def\<close>)
qed

lemma shot_step:
  assumes inv: "shot_inv v flag safe s" and st: "wg_shot_step v a s = Some s'"
  shows "shot_inv v flag safe s'"
proof -
  obtain t b where a: "a = (t, b)" by (cases a)
  show ?thesis
  proof (cases b)
    case WgDone
    with shot_done [OF inv] st a show ?thesis by blast
  next
    case WgStep
    with shot_move [OF inv] st a show ?thesis by blast
  qed (use st a shot_to_test [OF inv, of t] in \<open>auto split: if_splits\<close>)
qed

lemma shot_run: "0 < n \<Longrightarrow> n < 2 ^ 32 \<Longrightarrow> shot_inv v flag safe (run (wg_shot_step v) sched (wg_shot_start v n))"
  by (rule run_keeps [where I = "shot_inv v flag safe"]) (rule shot_step, assumption+, rule shot_start)

end

lemma wg_shot_start_eqs:
  "wg_shot_start OneAtomic n = \<lparr>wg_counter = of_nat n, wg_done = 1, wg_pc = (\<lambda>_. WgIdle), wg_units = unat (of_nat n :: u32)\<rparr>"
  "wg_shot_start CondVar n = \<lparr>wg_counter = of_nat n, wg_done = 1, wg_pc = (\<lambda>_. WgIdle), wg_units = unat (of_nat n :: u32)\<rparr>"
  "wg_shot_start TwoAtomics n = \<lparr>wg_counter = of_nat n, wg_done = 0, wg_pc = (\<lambda>_. WgIdle), wg_units = unat (of_nat n :: u32)\<rparr>"
  "wg_shot_start ThreadPoolWg n = \<lparr>wg_counter = of_nat n, wg_done = 0, wg_pc = (\<lambda>_. WgIdle), wg_units = unat (of_nat n :: u32)\<rparr>"
  "wg_shot_start FuturesWg n = \<lparr>wg_counter = of_nat n, wg_done = 0, wg_pc = (\<lambda>_. WgIdle), wg_units = unat (of_nat n :: u32)\<rparr>"
  by (simp_all add: wg_shot_start_def wg_init_def wg_ops wg_go_def stutter_def fun_eq_iff)

interpretation wg1: wait_group OneAtomic WgPrepare False False
  by unfold_locales (auto simp: wg_ops wg_shot_start_eqs Let_def)

interpretation wgcv: wait_group CondVar WgWakeAll False False
  by unfold_locales (auto simp: wg_ops wg_shot_start_eqs)

interpretation wg2: wait_group TwoAtomics WgStore True False
  by unfold_locales (auto simp: wg_ops wg_shot_start_eqs)

interpretation wgtp: wait_group ThreadPoolWg WgStore True False
  by unfold_locales (auto simp: wg_ops wg_shot_start_eqs)

interpretation wgfun: wait_group FuturesWg WgPrepareStore True True
  by unfold_locales (auto simp: wg_ops wg_shot_start_eqs split: if_splits)

lemma wg_shot_inv:
  assumes "0 < n" and "n < 2 ^ 32"
  shows "\<exists>flag. shot_inv v flag (v = FuturesWg) (run (wg_shot_step v) sched (wg_shot_start v n))"
proof (cases v)
  case OneAtomic then show ?thesis using wg1.shot_run [OF assms] by auto
next
  case CondVar then show ?thesis using wgcv.shot_run [OF assms] by auto
next
  case TwoAtomics then show ?thesis using wg2.shot_run [OF assms] by auto
next
  case ThreadPoolWg then show ?thesis using wgtp.shot_run [OF assms] by auto
next
  case FuturesWg then show ?thesis using wgfun.shot_run [OF assms] by auto
qed

subsection \<open>What the versions guarantee, and what they do not\<close>

text \<open>C40: one-shot, all five wait groups are correct: after Add of \<open>n\<close> units, on every schedule of
  Done calls, Wait calls and spurious wakes, a Wait has returned only after every unit was done;
  and no waiter is forgotten: while one sleeps a unit is outstanding or the last Done is still
  on its way to wake it.\<close>

theorem wait_group_one_shot:
  assumes "0 < n" and "n < 2 ^ 32" and "s = run (wg_shot_step v) sched (wg_shot_start v n)"
  shows "wg_counter s = of_nat (wg_units s) \<and> (wg_pc s t = WgReturned \<longrightarrow> wg_units s = 0) \<and>
    (wg_pc s t = WgSleep \<longrightarrow> 0 < wg_units s \<or> (\<exists>u. wg_last (wg_pc s u)))"
proof -
  obtain flag where inv: "shot_inv v flag (v = FuturesWg) s"
    using wg_shot_inv [OF assms(1,2), of v sched] assms(3) by blast
  note D = shot_invD [OF inv]
  show ?thesis using D(1) D(7) [of t] D(8) [of t] by blast
qed

lemma wait_group_one_shot_witness:
  "let s = run (wg_shot_step TwoAtomics) [(5, WgWait), (5, WgStep), (5, WgStep), (1, WgDone)] (wg_shot_start TwoAtomics 2)
   in wg_pc s 5 = WgSleep \<and> wg_counter s = of_nat (wg_units s)"
  using wait_group_one_shot [of 2 _ TwoAtomics "[(5, WgWait), (5, WgStep), (5, WgStep), (1, WgDone)]", OF _ _ refl]
  by (simp add: wg_shot_start_eqs wg_ops wg_go_def stutter_def Let_def)

text \<open>the wait group of the futures may be destroyed by a waiter: in one-shot use, once a Wait
  has returned no Done will use a field of the object again (the key was prepared and the flag
  stored before). The other versions with a futex do not have this: each has a schedule on which a
  Wait has returned and the last Done still has to store the flag or prepare its key.\<close>

theorem wait_group_storage_safe:
  assumes "0 < n" and "n < 2 ^ 32"
  shows "(let s = run (wg_shot_step FuturesWg) sched (wg_shot_start FuturesWg n)
     in wg_pc s t = WgReturned \<longrightarrow> {u. wg_touches (wg_pc s u)} = {}) \<and>
   (\<forall>v \<in> {OneAtomic, TwoAtomics, ThreadPoolWg}. \<exists>unsafe.
     let s = run (wg_shot_step v) unsafe (wg_shot_start v 1)
     in wg_pc s 1 = WgReturned \<and> wg_touches (wg_pc s 0))"
proof -
  let ?s = "run (wg_shot_step FuturesWg) sched (wg_shot_start FuturesWg n)"
  have inv: "shot_inv FuturesWg True True ?s" by (rule wgfun.shot_run [OF assms])
  note D = shot_invD [OF inv]
  have "\<not> wg_touches (wg_pc ?s u)" if "wg_pc ?s t = WgReturned" for u
  proof -
    have "wg_done ?s \<noteq> 0" using D(8) [OF that] by simp
    with D(6) have "\<not> wg_storing (wg_pc ?s u)" by blast
    with D(11) [of u] show ?thesis by (cases "wg_pc ?s u") auto
  qed
  moreover have "\<exists>unsafe. let s = run (wg_shot_step OneAtomic) unsafe (wg_shot_start OneAtomic 1)
     in wg_pc s 1 = WgReturned \<and> wg_touches (wg_pc s 0)"
    unfolding Let_def
    by (rule exI [of _ "[(0, WgDone), (1, WgWait), (1, WgStep)]"], rule conjI; simp add: wg_shot_start_eqs wg_ops wg_go_def stutter_def)
  moreover have "\<exists>unsafe. let s = run (wg_shot_step TwoAtomics) unsafe (wg_shot_start TwoAtomics 1)
     in wg_pc s 1 = WgReturned \<and> wg_touches (wg_pc s 0)"
    unfolding Let_def
    by (rule exI [of _ "[(0, WgDone), (0, WgStep), (1, WgWait), (1, WgStep)]"], rule conjI; simp add: wg_shot_start_eqs wg_ops wg_go_def stutter_def)
  moreover have "\<exists>unsafe. let s = run (wg_shot_step ThreadPoolWg) unsafe (wg_shot_start ThreadPoolWg 1)
     in wg_pc s 1 = WgReturned \<and> wg_touches (wg_pc s 0)"
    unfolding Let_def
    by (rule exI [of _ "[(0, WgDone), (1, WgWait), (1, WgStep)]"], rule conjI; simp add: wg_shot_start_eqs wg_ops wg_go_def stutter_def)
  ultimately show ?thesis unfolding Let_def by blast
qed

lemma wait_group_storage_safe_witness:
  "let s = run (wg_shot_step FuturesWg) [(0, WgDone), (0, WgStep), (1, WgWait), (1, WgStep)] (wg_shot_start FuturesWg 1)
   in wg_pc s 1 = WgReturned \<and> {u. wg_touches (wg_pc s u)} = {}"
proof -
  have "wg_pc (run (wg_shot_step FuturesWg) [(0, WgDone), (0, WgStep), (1, WgWait), (1, WgStep)]
      (wg_shot_start FuturesWg 1)) 1 = WgReturned"
    by (simp add: wg_shot_start_eqs wg_ops wg_go_def stutter_def)
  with wait_group_storage_safe [THEN conjunct1, of 1 "[(0, WgDone), (0, WgStep), (1, WgWait), (1, WgStep)]" 1]
  show ?thesis by (simp add: Let_def del: run.simps)
qed

text \<open>used again after the counter reached zero (as \<open>ThreadPool::WaitIdle\<close> does), the versions
  that wait on the flag can let Wait return with a unit outstanding: the Done that reached zero
  stores the flag after the next Add has cleared it.\<close>

theorem wait_group_reuse_race:
  "v \<in> {TwoAtomics, FuturesWg} \<Longrightarrow>
   (let s = run (wg_step v) [(0, WgAdd 1), (0, WgStep), (1, WgDone), (0, WgAdd 1), (0, WgStep), (1, WgStep),
              (2, WgWait), (2, WgStep)] wg_init
    in wg_pc s 2 = WgReturned \<and> wg_units s = 1 \<and> wg_counter s = 1)"
  unfolding Let_def
  by (elim insertE emptyE; intro conjI; simp add: wg_init_def wg_ops wg_go_def stutter_def)

lemma wait_group_reuse_race_witness:
  "wg_pc (run (wg_step FuturesWg) [(0, WgAdd 1), (0, WgStep), (1, WgDone), (0, WgAdd 1), (0, WgStep), (1, WgStep),
              (2, WgWait), (2, WgStep)] wg_init) 2 = WgReturned"
  using wait_group_reuse_race [of FuturesWg] by (simp add: Let_def del: run.simps)

end
