(* ===== verification/Barrier.thy ===== *)
theory Barrier
  imports Prelude
begin

section \<open>CyclicBarrier\<close>

text \<open>
  \<open>cond/barrier/cyclic_barrier.hpp\<close>. The two tests before the lock are atomic loads; everything else runs under
  \<open>mtx_\<close>, and the part from one lock to the next unlock or wait is one step here; that \<open>cyclic_barrier.hpp\<close> and its drafts
  \<open>-v1\<close> and \<open>-v2\<close> implement this, with each of their writes a step, is shown in \<open>BarrierSteps\<close>. A wait whose
  predicate holds at once does not release the lock. The ghost field \<open>cb_passed\<close> counts the
  calls of each thread that have departed, \<open>cb_entered\<close> those that have arrived.
\<close>

datatype cb_pc =
    CbIdle
  | CbCheckArrived    \<comment> \<open>about to load \<open>arrived_\<close> (no lock)\<close>
  | CbCheckDeparted   \<comment> \<open>about to load \<open>departed_\<close> (no lock)\<close>
  | CbLimit           \<comment> \<open>about to lock and evaluate the limit predicate\<close>
  | CbLimitSleep
  | CbArrive          \<comment> \<open>about to lock and arrive\<close>
  | CbWait            \<comment> \<open>woken, about to lock and evaluate the arrival predicate\<close>
  | CbWaitSleep

record cb_state =
  arrived :: size_t
  departed :: size_t
  is_notified :: bool
  cb_pc :: "tid \<Rightarrow> cb_pc"
  cb_entered :: "tid \<Rightarrow> nat"
  cb_passed :: "tid \<Rightarrow> nat"

definition CyclicBarrier_init :: cb_state where
  "CyclicBarrier_init = \<lparr>arrived = 0, departed = 0, is_notified = False, cb_pc = (\<lambda>_. CbIdle),
     cb_entered = (\<lambda>_. 0), cb_passed = (\<lambda>_. 0)\<rparr>"

definition notify_arrival :: "(tid \<Rightarrow> cb_pc) \<Rightarrow> tid \<Rightarrow> cb_pc" where
  "notify_arrival f = (\<lambda>u. if f u = CbWaitSleep then CbWait else f u)"

definition notify_limit :: "(tid \<Rightarrow> cb_pc) \<Rightarrow> tid \<Rightarrow> cb_pc" where
  "notify_limit f = (\<lambda>u. if f u = CbLimitSleep then CbLimit else f u)"

text \<open>The limit lock: the unlocked test, and the wait on \<open>limit_reached_cv_\<close>.\<close>

definition limit_check_arrived :: "size_t \<Rightarrow> cb_state \<Rightarrow> cb_pc" where
  "limit_check_arrived participants s = (if arrived s \<ge> participants then CbLimit else CbCheckDeparted)"

definition limit_check_departed :: "cb_state \<Rightarrow> cb_pc" where
  "limit_check_departed s = (if departed s \<noteq> 0 then CbLimit else CbArrive)"

definition limit_wait :: "size_t \<Rightarrow> cb_state \<Rightarrow> cb_pc" where
  "limit_wait participants s = (if arrived s < participants \<and> departed s = 0 then CbArrive else CbLimitSleep)"

text \<open>After the arrival wait: notify once, depart, and reset when everyone has departed.\<close>

definition depart :: "size_t \<Rightarrow> tid \<Rightarrow> cb_state \<Rightarrow> cb_state" where
  "depart participants t s =
     (let s1 = (if arrived s = participants \<and> \<not> is_notified s
                then s\<lparr>is_notified := True, cb_pc := notify_arrival (cb_pc s)\<rparr> else s);
          s2 = s1\<lparr>departed := departed s1 + 1\<rparr>;
          s3 = (if departed s2 = arrived s2
                then s2\<lparr>arrived := 0, departed := 0, is_notified := False, cb_pc := notify_limit (cb_pc s2)\<rparr> else s2)
      in s3\<lparr>cb_pc := (cb_pc s3)(t := CbIdle), cb_passed := (cb_passed s3)(t := cb_passed s3 t + 1)\<rparr>)"

definition arrival_wait :: "size_t \<Rightarrow> tid \<Rightarrow> cb_state \<Rightarrow> cb_state" where
  "arrival_wait participants t s =
     (if arrived s = participants then depart participants t s else s\<lparr>cb_pc := (cb_pc s)(t := CbWaitSleep)\<rparr>)"

definition arrive :: "size_t \<Rightarrow> tid \<Rightarrow> cb_state \<Rightarrow> cb_state" where
  "arrive participants t s =
     arrival_wait participants t (s\<lparr>arrived := arrived s + 1, cb_entered := (cb_entered s)(t := cb_entered s t + 1)\<rparr>)"

definition cb_go :: "tid \<Rightarrow> cb_pc \<Rightarrow> cb_state \<Rightarrow> cb_state" where
  "cb_go t p s = s\<lparr>cb_pc := (cb_pc s)(t := p)\<rparr>"

datatype cb_act = CbStep | CbSpurious

text \<open>\<open>n\<close> threads call ArriveAndWait again and again.\<close>

fun ArriveAndWait :: "nat \<Rightarrow> size_t \<Rightarrow> tid \<times> cb_act \<Rightarrow> cb_state \<Rightarrow> cb_state option" where
  "ArriveAndWait n participants (t, CbStep) s =
     (if \<not> t < n then None
      else case cb_pc s t of
        CbIdle \<Rightarrow> Some (cb_go t CbCheckArrived s)
      | CbCheckArrived \<Rightarrow> Some (cb_go t (limit_check_arrived participants s) s)
      | CbCheckDeparted \<Rightarrow> Some (cb_go t (limit_check_departed s) s)
      | CbLimit \<Rightarrow> Some (cb_go t (limit_wait participants s) s)
      | CbLimitSleep \<Rightarrow> None
      | CbArrive \<Rightarrow> Some (arrive participants t s)
      | CbWait \<Rightarrow> Some (arrival_wait participants t s)
      | CbWaitSleep \<Rightarrow> None)"
| "ArriveAndWait n participants (t, CbSpurious) s =
     (if cb_pc s t = CbLimitSleep then Some (cb_go t CbLimit s)
      else if cb_pc s t = CbWaitSleep then Some (cb_go t CbWait s) else None)"

subsection \<open>As many threads as participants\<close>

text \<open>
  A generation \<open>g\<close> is gathering (no one has departed) or draining. The program points a
  thread may have in each, by whether it has arrived in the generation.
\<close>

fun cb_inside :: "cb_pc \<Rightarrow> bool" where   \<comment> \<open>has arrived and not departed\<close>
  "cb_inside CbWait = True" | "cb_inside CbWaitSleep = True" | "cb_inside _ = False"

fun cb_late :: "cb_pc \<Rightarrow> bool" where     \<comment> \<open>has departed from a draining generation\<close>
  "cb_late CbIdle = True" | "cb_late CbCheckArrived = True" | "cb_late CbLimit = True"
| "cb_late CbLimitSleep = True" | "cb_late _ = False"

definition cb_gather :: "nat \<Rightarrow> nat \<Rightarrow> cb_state \<Rightarrow> bool" where
  "cb_gather p g s \<longleftrightarrow>
     arrived s = of_nat (cnt p cb_inside (cb_pc s)) \<and> cnt p cb_inside (cb_pc s) < p \<and> departed s = 0 \<and>
     \<not> is_notified s \<and> (\<forall>t. cb_pc s t \<noteq> CbLimitSleep) \<and>
     (\<forall>t<p. cb_passed s t = g \<and> cb_entered s t = (if cb_inside (cb_pc s t) then Suc g else g))"

definition cb_drain :: "nat \<Rightarrow> nat \<Rightarrow> cb_state \<Rightarrow> bool" where
  "cb_drain p g s \<longleftrightarrow>
     arrived s = of_nat p \<and> departed s = of_nat (p - cnt p cb_inside (cb_pc s)) \<and>
     0 < cnt p cb_inside (cb_pc s) \<and> cnt p cb_inside (cb_pc s) < p \<and> is_notified s \<and>
     (\<forall>t<p. cb_pc s t \<noteq> CbWaitSleep \<and> (cb_inside (cb_pc s t) \<or> cb_late (cb_pc s t)) \<and>
        cb_entered s t = Suc g \<and> cb_passed s t = (if cb_inside (cb_pc s t) then g else Suc g))"

definition cb_inv :: "nat \<Rightarrow> cb_state \<Rightarrow> bool" where
  "cb_inv p s \<longleftrightarrow> (\<forall>t\<ge>p. cb_pc s t = CbIdle) \<and> (\<exists>g. cb_gather p g s \<or> cb_drain p g s)"

lemma cnt_inside_notify [simp]:
  "cnt p cb_inside (notify_arrival f) = cnt p cb_inside f" "cnt p cb_inside (notify_limit f) = cnt p cb_inside f"
  by (rule cnt_cong, simp add: notify_arrival_def notify_limit_def)+

lemma gather_move:
  assumes g: "cb_gather p g s" and q: "q \<noteq> CbLimitSleep" "cb_inside q = cb_inside (cb_pc s t)"
  shows "cb_gather p g (cb_go t q s)"
proof -
  have c: "cnt p cb_inside ((cb_pc s)(t := q)) = cnt p cb_inside (cb_pc s)"
    by (rule cnt_same [of _ _ t]) (use q in auto)
  have i: "cb_inside (((cb_pc s)(t := q)) u) = cb_inside (cb_pc s u)" for u using q by simp
  show ?thesis
    using g q(1) unfolding cb_gather_def cb_go_def by (simp add: c i q(2))
qed

lemma drain_move:
  assumes d: "cb_drain p g s" and q: "q \<noteq> CbWaitSleep" "cb_inside q = cb_inside (cb_pc s t)" "cb_inside q \<or> cb_late q"
  shows "cb_drain p g (cb_go t q s)"
proof -
  have c: "cnt p cb_inside ((cb_pc s)(t := q)) = cnt p cb_inside (cb_pc s)"
    by (rule cnt_same [of _ _ t]) (use q in auto)
  have i: "cb_inside (((cb_pc s)(t := q)) u) = cb_inside (cb_pc s u)" for u using q by simp
  have l: "cb_inside (((cb_pc s)(t := q)) u) \<or> cb_late (((cb_pc s)(t := q)) u)"
    if "cb_inside (cb_pc s u) \<or> cb_late (cb_pc s u)" for u using that q by auto
  show ?thesis
    using d q(1) l unfolding cb_drain_def cb_go_def by (simp add: c i q(2))
qed

lemma gather_arrive:
  assumes p: "0 < p" "p < 2 ^ 64" and g: "cb_gather p g s" and t: "t < p" and pc: "cb_pc s t = CbArrive"
  shows "\<exists>g'. cb_gather p g' (arrive (of_nat p) t s) \<or> cb_drain p g' (arrive (of_nat p) t s)"
proof -
  let ?c = "cnt p cb_inside (cb_pc s)"
  let ?s = "arrive (of_nat p) t s"
  have c: "?c < p" and a: "arrived s + 1 = of_nat (Suc ?c)" and d: "departed s = 0" "\<not> is_notified s"
    "\<And>u. cb_pc s u \<noteq> CbLimitSleep"
    and gh: "\<And>u. u < p \<Longrightarrow> cb_passed s u = g \<and> cb_entered s u = (if cb_inside (cb_pc s u) then Suc g else g)"
    using g unfolding cb_gather_def by auto
  have full: "arrived s + 1 = of_nat p \<longleftrightarrow> Suc ?c = p"
    unfolding a using of_nat_size_t_inj [of "Suc ?c" p] c p by simp
  have ni: "\<not> cb_inside (cb_pc s t)" using pc by simp
  show ?thesis
  proof (cases "Suc ?c = p")
    case False
    then have s': "?s = s\<lparr>arrived := arrived s + 1, cb_entered := (cb_entered s)(t := Suc (cb_entered s t)),
        cb_pc := (cb_pc s)(t := CbWaitSleep)\<rparr>"
      using full by (simp add: arrive_def arrival_wait_def)
    have "cnt p cb_inside ((cb_pc s)(t := CbWaitSleep)) = Suc ?c"
      using cnt_upd [OF t, of cb_inside "cb_pc s" CbWaitSleep] ni by simp
    then have "cb_gather p g ?s"
      unfolding s' cb_gather_def using c a d False gh t ni by auto
    then show ?thesis by blast
  next
    case True
    have others: "cb_inside (cb_pc s u)" if "u < p" "u \<noteq> t" for u
      by (rule cnt_all_but [OF True t ni that])
    show ?thesis
    proof (cases "p = 1")
      case one: True
      then have s': "?s = s\<lparr>arrived := 0, departed := 0, is_notified := False,
          cb_entered := (cb_entered s)(t := Suc (cb_entered s t)), cb_passed := (cb_passed s)(t := Suc (cb_passed s t)),
          cb_pc := (notify_limit (notify_arrival (cb_pc s)))(t := CbIdle)\<rparr>"
        using full True d by (simp add: arrive_def arrival_wait_def depart_def Let_def)
      have "t = 0" using t one by simp
      have "cnt p cb_inside ((notify_limit (notify_arrival (cb_pc s)))(t := CbIdle)) = 0"
        using t one by (auto simp: cnt_0_iff)
      moreover have "((notify_limit (notify_arrival (cb_pc s)))(t := CbIdle)) u \<noteq> CbLimitSleep" for u
        by (simp add: notify_limit_def)
      ultimately have "cb_gather p (Suc g) ?s"
        unfolding s' cb_gather_def using one gh [of t] t ni by auto
      then show ?thesis by blast
    next
      case False
      then have "(1 :: size_t) \<noteq> of_nat p" using of_nat_size_t_inj [of 1 p] p by simp
      then have s': "?s = s\<lparr>arrived := of_nat p, departed := 1, is_notified := True,
          cb_entered := (cb_entered s)(t := Suc (cb_entered s t)), cb_passed := (cb_passed s)(t := Suc (cb_passed s t)),
          cb_pc := (notify_arrival (cb_pc s))(t := CbIdle)\<rparr>"
        using full True d by (simp add: arrive_def arrival_wait_def depart_def Let_def)
      have nt: "notify_arrival (cb_pc s) t = CbArrive" using pc by (simp add: notify_arrival_def)
      have cn: "cnt p cb_inside ((notify_arrival (cb_pc s))(t := CbIdle)) = ?c"
        using cnt_upd [OF t, of cb_inside "notify_arrival (cb_pc s)" CbIdle] nt by simp
      have pn: "cb_inside (notify_arrival (cb_pc s) u) = cb_inside (cb_pc s u)"
        "notify_arrival (cb_pc s) u \<noteq> CbWaitSleep" for u by (simp_all add: notify_arrival_def)
      have "p - ?c = 1" "0 < ?c" using True False by linarith+
      then have "cb_drain p g ?s"
        unfolding s' cb_drain_def using c cn gh t ni others pn by auto
      then show ?thesis by blast
    qed
  qed
qed

lemma drain_depart:
  assumes p: "p < 2 ^ 64" and d: "cb_drain p g s" and t: "t < p" and pc: "cb_pc s t = CbWait"
  shows "\<exists>g'. cb_gather p g' (arrival_wait (of_nat p) t s) \<or> cb_drain p g' (arrival_wait (of_nat p) t s)"
proof -
  let ?c = "cnt p cb_inside (cb_pc s)"
  let ?s = "arrival_wait (of_nat p) t s"
  have c: "0 < ?c" "?c < p" and a: "arrived s = of_nat p" "departed s = of_nat (p - ?c)" "is_notified s"
    and at: "\<And>u. u < p \<Longrightarrow> cb_pc s u \<noteq> CbWaitSleep \<and> (cb_inside (cb_pc s u) \<or> cb_late (cb_pc s u))"
    and gh: "\<And>u. u < p \<Longrightarrow> cb_entered s u = Suc g \<and> cb_passed s u = (if cb_inside (cb_pc s u) then g else Suc g)"
    using d unfolding cb_drain_def by auto
  have inn: "cb_inside (cb_pc s t)" using pc by simp
  have e: "departed s + 1 = of_nat (p - (?c - 1))"
  proof -
    have "p - (?c - 1) = Suc (p - ?c)" using c by linarith
    then show ?thesis using a(2) by (simp add: add.commute)
  qed
  have full: "departed s + 1 = of_nat p \<longleftrightarrow> ?c = 1"
    unfolding e using of_nat_size_t_inj [of "p - (?c - 1)" p] c p by auto
  have cn: "cnt p cb_inside ((cb_pc s)(t := CbIdle)) = ?c - 1"
    using cnt_upd [OF t, of cb_inside "cb_pc s" CbIdle] inn by simp
  show ?thesis
  proof (cases "?c = 1")
    case True
    then have s': "?s = s\<lparr>arrived := 0, departed := 0, is_notified := False,
        cb_passed := (cb_passed s)(t := Suc (cb_passed s t)), cb_pc := (notify_limit (cb_pc s))(t := CbIdle)\<rparr>"
      using a full by (simp add: arrival_wait_def depart_def Let_def)
    have others: "\<not> cb_inside (cb_pc s u)" if "u < p" "u \<noteq> t" for u by (rule cnt_only [OF True t inn that])
    have nl: "cb_inside (notify_limit (cb_pc s) u) = cb_inside (cb_pc s u)" "notify_limit (cb_pc s) u \<noteq> CbLimitSleep" for u
      by (simp_all add: notify_limit_def)
    have "cnt p cb_inside ((notify_limit (cb_pc s))(t := CbIdle)) = 0"
      using others nl by (auto simp: cnt_0_iff)
    then have "cb_gather p (Suc g) ?s"
      unfolding s' cb_gather_def using gh t inn others nl c by auto
    then show ?thesis by blast
  next
    case False
    then have s': "?s = s\<lparr>departed := departed s + 1, cb_passed := (cb_passed s)(t := Suc (cb_passed s t)),
        cb_pc := (cb_pc s)(t := CbIdle)\<rparr>"
      using a full by (simp add: arrival_wait_def depart_def Let_def)
    have "0 < ?c - 1" "?c - 1 < p" using c False by linarith+
    then have "cb_drain p g ?s"
      unfolding s' cb_drain_def using a cn e gh t inn at by auto
    then show ?thesis by blast
  qed
qed

lemma cb_step_gather:
  assumes p: "0 < p" "p < 2 ^ 64" and g: "cb_gather p g s" and st: "ArriveAndWait p (of_nat p) (t, CbStep) s = Some s'"
  shows "\<exists>g'. cb_gather p g' s' \<or> cb_drain p g' s'"
proof -
  from st have t: "t < p" by (auto split: if_splits)
  let ?c = "cnt p cb_inside (cb_pc s)"
  have c: "?c < p" and a: "arrived s = of_nat ?c" "departed s = 0" "cb_pc s t \<noteq> CbLimitSleep"
    using g unfolding cb_gather_def by auto
  have lt: "of_nat ?c < (of_nat p :: size_t)"
    using c p unat_of_nat_64 [of ?c] unat_of_nat_64 [of p] by (simp add: word_less_nat_alt)
  have ne: "of_nat ?c \<noteq> (of_nat p :: size_t)" using lt by auto
  have move: "\<exists>g'. cb_gather p g' (cb_go t q s) \<or> cb_drain p g' (cb_go t q s)"
    if "q \<noteq> CbLimitSleep" "cb_inside q = cb_inside (cb_pc s t)" for q
    using gather_move [OF g that] by blast
  show ?thesis
  proof (cases "cb_pc s t")
    case CbArrive
    with gather_arrive [OF p g t] st t show ?thesis by simp
  next
    case CbWait
    have "cb_gather p g (cb_go t CbWaitSleep s)" using CbWait by (intro gather_move [OF g]) simp_all
    moreover have "s' = cb_go t CbWaitSleep s" using st t CbWait a ne by (simp add: arrival_wait_def cb_go_def)
    ultimately show ?thesis by blast
  qed (use st t a lt move in
      \<open>auto simp: limit_check_arrived_def limit_check_departed_def limit_wait_def not_le [symmetric]\<close>)
qed

lemma cb_step_drain:
  assumes p: "p < 2 ^ 64" and d: "cb_drain p g s" and st: "ArriveAndWait p (of_nat p) (t, CbStep) s = Some s'"
  shows "\<exists>g'. cb_gather p g' s' \<or> cb_drain p g' s'"
proof -
  from st have t: "t < p" by (auto split: if_splits)
  have a: "arrived s = of_nat p" "cb_inside (cb_pc s t) \<or> cb_late (cb_pc s t)" "cb_pc s t \<noteq> CbWaitSleep"
    using d t unfolding cb_drain_def by auto
  have move: "\<exists>g'. cb_gather p g' (cb_go t q s) \<or> cb_drain p g' (cb_go t q s)"
    if "q \<noteq> CbWaitSleep" "cb_inside q = cb_inside (cb_pc s t)" "cb_inside q \<or> cb_late q" for q
    using drain_move [OF d that] by blast
  show ?thesis
  proof (cases "cb_pc s t")
    case CbWait
    with drain_depart [OF p d t] st t show ?thesis by simp
  qed (use st t a move in
      \<open>auto simp: limit_check_arrived_def limit_wait_def\<close>)
qed

lemma cb_inv_step:
  assumes p: "0 < p" "p < 2 ^ 64" and inv: "cb_inv p s" and st: "ArriveAndWait p (of_nat p) a s = Some s'"
  shows "cb_inv p s'"
proof -
  obtain t b where a: "a = (t, b)" by (cases a)
  from inv obtain g where g: "cb_gather p g s \<or> cb_drain p g s" and idle: "\<And>u. u \<ge> p \<Longrightarrow> cb_pc s u = CbIdle"
    unfolding cb_inv_def by blast
  have t: "t < p" using st a idle [of t] by (cases b) (auto simp: not_le [symmetric] split: if_splits)
  have same: "cb_pc s' u = CbIdle" if "u \<ge> p" for u
    using that t st a idle [OF that]
    by (cases b) (auto simp: cb_go_def arrive_def arrival_wait_def depart_def Let_def notify_arrival_def
        notify_limit_def split: if_splits cb_pc.splits)
  have "\<exists>g'. cb_gather p g' s' \<or> cb_drain p g' s'"
  proof (cases b)
    case CbStep
    with st a g cb_step_gather [OF p] cb_step_drain [OF p(2)] show ?thesis by blast
  next
    case CbSpurious
    show ?thesis
    proof (cases "cb_pc s t = CbLimitSleep")
      case True
      then have "s' = cb_go t CbLimit s" using st a CbSpurious by simp
      then show ?thesis using g gather_move [of p g s CbLimit t] drain_move [of p g s CbLimit t] True by auto
    next
      case False
      then have "cb_pc s t = CbWaitSleep" "s' = cb_go t CbWait s" using st a CbSpurious by (auto split: if_splits)
      then show ?thesis using g gather_move [of p g s CbWait t] drain_move [of p g s CbWait t] by auto
    qed
  qed
  with same show ?thesis unfolding cb_inv_def by blast
qed

lemma cb_inv_start: "0 < p \<Longrightarrow> cb_inv p CyclicBarrier_init"
  unfolding cb_inv_def by (auto simp: CyclicBarrier_init_def cb_gather_def cnt_const intro: exI [of _ 0])

lemma cb_inv_run:
  "0 < p \<Longrightarrow> p < 2 ^ 64 \<Longrightarrow> cb_inv p (run (ArriveAndWait p (of_nat p)) sched CyclicBarrier_init)"
  by (rule run_keeps [where I = "cb_inv p"]) (rule cb_inv_step, assumption+, rule cb_inv_start)

text \<open>What the invariant gives: nobody is ahead of a thread that has not arrived, and someone can move.\<close>

lemma cb_inv_barrier:
  assumes inv: "cb_inv p s" and t: "t < p" and u: "u < p"
  shows "cb_passed s t \<le> cb_entered s u" and "cb_entered s t \<le> Suc (cb_passed s u)"
  using assms unfolding cb_inv_def cb_gather_def cb_drain_def by auto

lemma cb_inv_awake:
  assumes inv: "cb_inv p s"
  shows "\<exists>w<p. cb_pc s w \<noteq> CbLimitSleep \<and> cb_pc s w \<noteq> CbWaitSleep"
proof -
  obtain g where "cb_gather p g s \<or> cb_drain p g s" using inv unfolding cb_inv_def by blast
  then show ?thesis
  proof
    assume gg: "cb_gather p g s"
    then have "cnt p cb_inside (cb_pc s) < p" unfolding cb_gather_def by simp
    then have "0 < cnt p (\<lambda>x. \<not> cb_inside x) (cb_pc s)" using cnt_compl [of p cb_inside "cb_pc s"] by linarith
    then obtain w where "w < p" "\<not> cb_inside (cb_pc s w)" by (auto simp: cnt_pos_iff)
    with gg show ?thesis unfolding cb_gather_def by (metis cb_inside.simps(2))
  next
    assume d: "cb_drain p g s"
    then have "0 < cnt p cb_inside (cb_pc s)" unfolding cb_drain_def by simp
    then obtain w where "w < p" "cb_inside (cb_pc s w)" by (auto simp: cnt_pos_iff)
    with d show ?thesis unfolding cb_drain_def by (metis cb_inside.simps(7))
  qed
qed

text \<open>with as many threads as participants the cyclic barrier is a barrier, in every cycle and
  on every schedule: a thread has departed \<open>k\<close> times only if every thread has arrived at least
  \<open>k\<close> times, and no thread is ever two cycles ahead; and it does not get stuck: while a thread
  is inside a call, some thread can move.\<close>

theorem cyclic_barrier_correct:
  assumes "0 < p" and "p < 2 ^ 64" and "t < p" and "u < p"
    and "s = run (ArriveAndWait p (of_nat p)) sched CyclicBarrier_init"
  shows "cb_passed s t \<le> cb_entered s u \<and> cb_entered s t \<le> Suc (cb_passed s u) \<and>
    (\<exists>w<p. ArriveAndWait p (of_nat p) (w, CbStep) s \<noteq> None)"
proof -
  have inv: "cb_inv p s" unfolding assms(5) by (rule cb_inv_run [OF assms(1,2)])
  have "\<exists>w<p. ArriveAndWait p (of_nat p) (w, CbStep) s \<noteq> None"
    using cb_inv_awake [OF inv] by (elim exE conjE, intro exI conjI) (assumption, auto split: cb_pc.splits)
  then show ?thesis using cb_inv_barrier [OF inv] assms(3,4) by blast
qed

text \<open>with more threads than participants the limit lock does not protect the barrier: the tests
  before the lock are not repeated under it. Two participants, three threads: a schedule after
  which three have arrived, the predicate \<open>arrived == participants\<close> can never hold again, all
  three sleep, and no thread has a step other than a spurious wake.\<close>

theorem cyclic_barrier_overshoot:
  "let sched = [(0, CbStep), (0, CbStep), (0, CbStep), (1, CbStep), (1, CbStep), (1, CbStep),
      (2, CbStep), (2, CbStep), (2, CbStep), (0, CbStep), (1, CbStep), (2, CbStep), (0, CbStep),
      (1, CbStep), (1, CbStep), (1, CbStep)];
    s = run (ArriveAndWait 3 2) sched CyclicBarrier_init
   in arrived s = 3 \<and> cb_pc s 0 = CbWaitSleep \<and> cb_pc s 1 = CbLimitSleep \<and> cb_pc s 2 = CbWaitSleep \<and>
      ArriveAndWait 3 2 (0, CbStep) s = None \<and> ArriveAndWait 3 2 (1, CbStep) s = None \<and>
      ArriveAndWait 3 2 (2, CbStep) s = None"
  by (simp add: CyclicBarrier_init_def cb_go_def limit_check_arrived_def limit_check_departed_def
      limit_wait_def arrive_def arrival_wait_def depart_def notify_arrival_def notify_limit_def stutter_def)

lemma cyclic_barrier_correct_witness:
  "let s = run (ArriveAndWait 2 2) (replicate 4 (0, CbStep) @ replicate 4 (1, CbStep)) CyclicBarrier_init
   in cb_passed s 1 = 1 \<and> cb_passed s 1 \<le> cb_entered s 0"
proof -
  have "cb_passed (run (ArriveAndWait 2 2) (replicate 4 (0, CbStep) @ replicate 4 (1, CbStep)) CyclicBarrier_init) 1 = 1"
    by (simp add: numeral_eq_Suc CyclicBarrier_init_def cb_go_def limit_check_arrived_def limit_check_departed_def
        limit_wait_def arrive_def arrival_wait_def depart_def notify_arrival_def notify_limit_def stutter_def)
  with cyclic_barrier_correct [of 2 1 0 _ "replicate 4 (0, CbStep) @ replicate 4 (1, CbStep)", OF _ _ _ _ refl]
  show ?thesis by (simp add: Let_def)
qed

end
