(* ===== verification/BlockingQueue.thy ===== *)
theory BlockingQueue
  imports Prelude
begin

section \<open>UnboundedBlockingQueue\<close>

text \<open>
  \<open>tasks/thread-pool/tp/queue.hpp\<close>, its linked-list draft \<open>queue-v2.hpp\<close>, and the copy in
  \<open>tasks/executors/exe/support/queue.hpp\<close>, which notifies under the lock. An operation is its
  critical section; what it notifies, and whether under the lock or after it, is part of its
  result. A Take whose predicate is false sleeps on the condition variable.
\<close>

datatype notify = NotifyNone | NotifyAfter | NotifyUnder

record 'a ubq =
  is_opened :: bool
  queue :: "'a list"

definition Queue_construct :: "'a ubq" where
  "Queue_construct = \<lparr>is_opened = True, queue = []\<rparr>"

definition Queue_Put :: "'a \<Rightarrow> 'a ubq \<Rightarrow> bool \<times> 'a ubq \<times> notify" where
  "Queue_Put e q = (if \<not> is_opened q then (False, q, NotifyNone)
     else (True, q\<lparr>queue := queue q @ [e]\<rparr>, NotifyAfter))"

text \<open>\<open>None\<close>: the predicate of the wait is false. \<open>Some (None, _)\<close>: \<open>std::nullopt\<close>.\<close>

definition Queue_Take :: "'a ubq \<Rightarrow> ('a option \<times> 'a ubq) option" where
  "Queue_Take q = (if \<not> (\<not> is_opened q \<or> queue q \<noteq> []) then None
     else if \<not> is_opened q \<and> queue q = [] then Some (None, q)
     else Some (Some (hd (queue q)), q\<lparr>queue := tl (queue q)\<rparr>))"

definition Queue_Close :: "'a ubq \<Rightarrow> 'a ubq \<times> notify" where
  "Queue_Close q = (if \<not> is_opened q then (q, NotifyNone) else (q\<lparr>is_opened := False\<rparr>, NotifyAfter))"

definition Queue_Count :: "'a ubq \<Rightarrow> nat" where
  "Queue_Count q = length (queue q)"

definition Queue_IsEmpty :: "'a ubq \<Rightarrow> bool" where
  "Queue_IsEmpty q \<longleftrightarrow> length (queue q) = 0"

definition Queue_IsClosed :: "'a ubq \<Rightarrow> bool" where
  "Queue_IsClosed q \<longleftrightarrow> \<not> is_opened q"

lemmas queue_ops = Queue_construct_def Queue_Put_def Queue_Take_def Queue_Close_def

text \<open>The copy of the executors: the same, but Put notifies before it releases the lock.\<close>

definition SupportQueue_Put :: "'a \<Rightarrow> 'a ubq \<Rightarrow> bool \<times> 'a ubq \<times> notify" where
  "SupportQueue_Put e q = (if \<not> is_opened q then (False, q, NotifyNone)
     else (True, q\<lparr>queue := queue q @ [e]\<rparr>, NotifyUnder))"

definition SupportQueue_Take :: "'a ubq \<Rightarrow> ('a option \<times> 'a ubq) option" where
  "SupportQueue_Take q = Queue_Take q"

definition SupportQueue_Close :: "'a ubq \<Rightarrow> 'a ubq \<times> notify" where
  "SupportQueue_Close q = Queue_Close q"

subsection \<open>The linked-list version\<close>

text \<open>Nodes live at addresses; \<open>next_addr\<close> is what \<open>new\<close> returns next. Nothing is deleted.\<close>

record 'a qnode =
  elem :: 'a
  prev :: "nat option"

record 'a ubq2 =
  is_opened2 :: bool
  head :: "nat option"
  tail :: "nat option"
  heap :: "nat \<Rightarrow> 'a qnode option"
  next_addr :: nat

definition Queue2_construct :: "'a ubq2" where
  "Queue2_construct = \<lparr>is_opened2 = True, head = None, tail = None, heap = (\<lambda>_. None), next_addr = 0\<rparr>"

definition Queue2_Put :: "'a \<Rightarrow> 'a ubq2 \<Rightarrow> bool \<times> 'a ubq2 \<times> notify" where
  "Queue2_Put e q =
     (if \<not> is_opened2 q then (False, q, NotifyNone)
      else
        let node = next_addr q;
            q1 = q\<lparr>next_addr := Suc node, heap := (heap q)(node \<mapsto> \<lparr>elem = e, prev = None\<rparr>)\<rparr>;
            (q2, nfy) = (if head q1 = None then (q1\<lparr>head := Some node\<rparr>, NotifyUnder) else (q1, NotifyNone));
            q3 = (case tail q2 of None \<Rightarrow> q2
                  | Some t \<Rightarrow> q2\<lparr>heap := (heap q2)(t := map_option (\<lambda>nd. nd\<lparr>prev := Some node\<rparr>) (heap q2 t))\<rparr>)
        in (True, q3\<lparr>tail := Some node\<rparr>, nfy))"

definition Queue2_Take :: "'a ubq2 \<Rightarrow> ('a option \<times> 'a ubq2) option" where
  "Queue2_Take q =
     (if \<not> (\<not> is_opened2 q \<or> head q \<noteq> None) then None
      else if \<not> is_opened2 q \<and> head q = None then Some (None, q)
      else (case head q of None \<Rightarrow> None
        | Some h \<Rightarrow> (case heap q h of None \<Rightarrow> None
            | Some nd \<Rightarrow>
                if prev nd = None then Some (Some (elem nd), q\<lparr>head := None, tail := None\<rparr>)
                else Some (Some (elem nd), q\<lparr>head := prev nd\<rparr>))))"

definition Queue2_Close :: "'a ubq2 \<Rightarrow> 'a ubq2 \<times> notify" where
  "Queue2_Close q = (if \<not> is_opened2 q then (q, NotifyNone) else (q\<lparr>is_opened2 := False\<rparr>, NotifyAfter))"

text \<open>Count walks the list; the fuel is the number of nodes ever allocated.\<close>

fun Queue2_walk :: "nat \<Rightarrow> 'a ubq2 \<Rightarrow> nat option \<Rightarrow> nat" where
  "Queue2_walk 0 q node = 0"
| "Queue2_walk (Suc k) q node = (case node of None \<Rightarrow> 0
     | Some a \<Rightarrow> Suc (case heap q a of None \<Rightarrow> 0 | Some nd \<Rightarrow> Queue2_walk k q (prev nd)))"

definition Queue2_Count :: "'a ubq2 \<Rightarrow> nat" where
  "Queue2_Count q = Queue2_walk (next_addr q) q (head q)"

text \<open>\<open>q2_list h p as xs\<close>: following \<open>prev\<close> from \<open>p\<close> visits the nodes \<open>as\<close> with elements \<open>xs\<close>.\<close>

fun q2_list :: "(nat \<Rightarrow> 'a qnode option) \<Rightarrow> nat option \<Rightarrow> nat list \<Rightarrow> 'a list \<Rightarrow> bool" where
  "q2_list h None [] [] = True"
| "q2_list h (Some a) (b # as) (x # xs) =
     (a = b \<and> (case h a of None \<Rightarrow> False | Some nd \<Rightarrow> elem nd = x \<and> q2_list h (prev nd) as xs))"
| "q2_list h _ _ _ = False"

definition ubq2_rep :: "'a ubq2 \<Rightarrow> bool \<Rightarrow> 'a list \<Rightarrow> bool" where
  "ubq2_rep q op xs \<longleftrightarrow> is_opened2 q = op \<and>
     (\<exists>as. q2_list (heap q) (head q) as xs \<and> distinct as \<and> (\<forall>a\<in>set as. a < next_addr q) \<and>
        tail q = (if as = [] then None else Some (last as)))"

definition ubq_rep :: "'a ubq \<Rightarrow> bool \<Rightarrow> 'a list \<Rightarrow> bool" where
  "ubq_rep q op xs \<longleftrightarrow> is_opened q = op \<and> queue q = xs"

lemma q2_list_length: "q2_list h p as xs \<Longrightarrow> length as = length xs"
  by (induction h p as xs rule: q2_list.induct) (auto split: option.splits)

lemma q2_list_cong:
  "q2_list h p as xs \<Longrightarrow> (\<And>a. a \<in> set as \<Longrightarrow> h' a = h a) \<Longrightarrow> q2_list h' p as xs"
  by (induction h p as xs rule: q2_list.induct) (auto split: option.splits)

lemma q2_list_nil: "q2_list h p as [] \<longleftrightarrow> p = None \<and> as = []"
  by (cases p; cases as) auto

lemma q2_list_cons:
  "q2_list h p as (x # xs) \<longleftrightarrow>
     (\<exists>a as' nd. p = Some a \<and> as = a # as' \<and> h a = Some nd \<and> elem nd = x \<and> q2_list h (prev nd) as' xs)"
  by (cases p; cases as) (auto split: option.splits)

lemma q2_list_append:
  assumes "q2_list h p as xs" and "as \<noteq> []" and "distinct as" and "n \<notin> set as"
    and "h n = Some \<lparr>elem = e, prev = None\<rparr>"
  shows "q2_list (h(last as := map_option (\<lambda>nd. nd\<lparr>prev := Some n\<rparr>) (h (last as)))) p (as @ [n]) (xs @ [e])"
  using assms
proof (induction xs arbitrary: p as)
  case Nil
  then show ?case by (simp add: q2_list_nil)
next
  case (Cons x xs)
  then obtain a as' nd where a: "p = Some a" "as = a # as'" "h a = Some nd" "elem nd = x"
    "q2_list h (prev nd) as' xs" by (auto simp: q2_list_cons)
  show ?case
  proof (cases "as' = []")
    case True
    with a Cons.prems have "xs = []" using q2_list_length by fastforce
    with a True Cons.prems show ?thesis by auto
  next
    case False
    have
      IH: "q2_list (h(last as' := map_option (\<lambda>nd. nd\<lparr>prev := Some n\<rparr>) (h (last as')))) (prev nd) (as' @ [n]) (xs @ [e])"
      by (rule Cons.IH [OF a(5) False]) (use Cons.prems a(2) in auto)
    have "a \<noteq> last as'" using Cons.prems(3) a(2) False by auto
    then have nd: "(h(last as' := map_option (\<lambda>nd. nd\<lparr>prev := Some n\<rparr>) (h (last as')))) a = Some nd"
      using a(3) by simp
    have la: "last as = last as'" using a(2) False by simp
    show ?thesis
      unfolding la unfolding a(1,2) append_Cons q2_list_cons
      by (intro exI [of _ a] exI [of _ "as' @ [n]"] exI [of _ nd] conjI refl nd a(4) IH)
  qed
qed

text \<open>The contract of a blocking queue.\<close>

locale blocking_queue =
  fixes rep :: "'q \<Rightarrow> bool \<Rightarrow> 'a list \<Rightarrow> bool"
    and construct :: 'q
    and put :: "'a \<Rightarrow> 'q \<Rightarrow> bool \<times> 'q \<times> notify"
    and take :: "'q \<Rightarrow> ('a option \<times> 'q) option"
    and close :: "'q \<Rightarrow> 'q \<times> notify"
  assumes rep_construct: "rep construct True []"
    and put_closed: "rep q False xs \<Longrightarrow> put e q = (False, q, NotifyNone)"
    and put_opened: "rep q True xs \<Longrightarrow> \<exists>q' nf. put e q = (True, q', nf) \<and> rep q' True (xs @ [e])"
    and take_waits: "rep q True [] \<Longrightarrow> take q = None"
    and take_null: "rep q False [] \<Longrightarrow> take q = Some (None, q)"
    and take_item: "rep q op (x # xs) \<Longrightarrow> \<exists>q'. take q = Some (Some x, q') \<and> rep q' op xs"
    and close_rep: "rep q op xs \<Longrightarrow> \<exists>q'. close q = (q', if op then NotifyAfter else NotifyNone) \<and> rep q' False xs"

locale notifying_queue = blocking_queue +
  assumes put_notifies: "rep q True xs \<Longrightarrow> snd (snd (put e q)) \<noteq> NotifyNone"

interpretation ubq: notifying_queue ubq_rep Queue_construct Queue_Put Queue_Take Queue_Close
  by unfold_locales (auto simp: ubq_rep_def queue_ops)

interpretation support: notifying_queue ubq_rep Queue_construct SupportQueue_Put SupportQueue_Take SupportQueue_Close
  by unfold_locales
    (auto simp: ubq_rep_def queue_ops SupportQueue_Put_def SupportQueue_Take_def SupportQueue_Close_def)

lemma ubq2_put_opened:
  assumes "ubq2_rep q True xs"
  shows "\<exists>q' nf. Queue2_Put e q = (True, q', nf) \<and> ubq2_rep q' True (xs @ [e])"
proof -
  from assms obtain as where o: "is_opened2 q" and l: "q2_list (heap q) (head q) as xs" and d: "distinct as"
    and b: "\<And>a. a \<in> set as \<Longrightarrow> a < next_addr q" and t: "tail q = (if as = [] then None else Some (last as))"
    unfolding ubq2_rep_def by blast
  let ?n = "next_addr q"
  let ?h = "(heap q)(?n \<mapsto> \<lparr>elem = e, prev = None\<rparr>)"
  have new: "?n \<notin> set as" using b by blast
  have l': "q2_list ?h (head q) as xs" by (rule q2_list_cong [OF l]) (use new in auto)
  show ?thesis
  proof (cases "as = []")
    case True
    with l have "head q = None" "xs = []" by (cases "head q"; cases xs; simp)+
    with o t True show ?thesis
      by (auto simp: Queue2_Put_def ubq2_rep_def Let_def intro!: exI [of _ "[?n]"])
  next
    case False
    with l obtain a where "head q = Some a" by (cases "head q"; cases as; cases xs) auto
    let ?h' = "?h(last as := map_option (\<lambda>nd. nd\<lparr>prev := Some ?n\<rparr>) (?h (last as)))"
    let ?q = "q\<lparr>next_addr := Suc ?n, heap := ?h', tail := Some ?n\<rparr>"
    have "Queue2_Put e q = (True, ?q, NotifyNone)"
      using o t False \<open>head q = Some a\<close> by (simp add: Queue2_Put_def Let_def)
    moreover have "q2_list ?h' (head q) (as @ [?n]) (xs @ [e])"
      by (rule q2_list_append [OF l' False d new]) simp
    moreover have "\<forall>a\<in>set (as @ [?n]). a < Suc ?n" using b by (auto simp: less_Suc_eq)
    ultimately have "ubq2_rep ?q True (xs @ [e])"
      unfolding ubq2_rep_def using o d new by (intro conjI exI [of _ "as @ [?n]"]) simp_all
    with \<open>Queue2_Put e q = (True, ?q, NotifyNone)\<close> show ?thesis by blast
  qed
qed

lemma ubq2_take_item:
  assumes "ubq2_rep q op (x # xs)"
  shows "\<exists>q'. Queue2_Take q = Some (Some x, q') \<and> ubq2_rep q' op xs"
proof -
  from assms obtain as where o: "is_opened2 q = op" and l: "q2_list (heap q) (head q) as (x # xs)" and d: "distinct as"
    and b: "\<forall>a\<in>set as. a < next_addr q" and t: "tail q = (if as = [] then None else Some (last as))"
    unfolding ubq2_rep_def by blast
  from l obtain a as' nd where a: "head q = Some a" "as = a # as'" "heap q a = Some nd" "elem nd = x"
    "q2_list (heap q) (prev nd) as' xs" by (auto simp: q2_list_cons)
  show ?thesis
  proof (cases "prev nd")
    case None
    with a(5) have "as' = []" "xs = []" by (cases as'; cases xs; simp)+
    with a None o show ?thesis by (auto simp: Queue2_Take_def ubq2_rep_def)
  next
    case (Some c)
    with a(5) have "as' \<noteq> []" by (cases as') auto
    with a Some o t d b show ?thesis by (auto simp: Queue2_Take_def ubq2_rep_def)
  qed
qed

interpretation ubq2: blocking_queue ubq2_rep Queue2_construct Queue2_Put Queue2_Take Queue2_Close
proof unfold_locales
  show "ubq2_rep Queue2_construct True []" by (simp add: ubq2_rep_def Queue2_construct_def q2_list_nil)
  show "ubq2_rep q False xs \<Longrightarrow> Queue2_Put e q = (False, q, NotifyNone)" for q :: "'a ubq2" and xs e
    by (simp add: ubq2_rep_def Queue2_Put_def)
  show "ubq2_rep q True [] \<Longrightarrow> Queue2_Take q = None" for q :: "'a ubq2"
    by (auto simp: ubq2_rep_def Queue2_Take_def q2_list_nil)
  show "ubq2_rep q False [] \<Longrightarrow> Queue2_Take q = Some (None, q)" for q :: "'a ubq2"
    by (auto simp: ubq2_rep_def Queue2_Take_def q2_list_nil)
  show "ubq2_rep q op xs \<Longrightarrow> \<exists>q'. Queue2_Close q = (q', if op then NotifyAfter else NotifyNone) \<and> ubq2_rep q' False xs"
    for q :: "'a ubq2" and op xs by (auto simp: ubq2_rep_def Queue2_Close_def)
qed (rule ubq2_put_opened ubq2_take_item, assumption)+

lemma Queue2_walk_list:
  "q2_list (heap q) p as xs \<Longrightarrow> length as \<le> k \<Longrightarrow> Queue2_walk k q p = length xs"
proof (induction xs arbitrary: p as k)
  case Nil
  then show ?case by (cases k) (simp_all add: q2_list_nil)
next
  case (Cons x xs)
  then show ?case by (cases k) (auto simp: q2_list_cons)
qed

text \<open>The fuel is enough: Count is the number of elements.\<close>

lemma Queue2_Count_rep: "ubq2_rep q op xs \<Longrightarrow> Queue2_Count q = length xs"
proof -
  assume "ubq2_rep q op xs"
  then obtain as where l: "q2_list (heap q) (head q) as xs" and d: "distinct as" and b: "set as \<subseteq> {..<next_addr q}"
    unfolding ubq2_rep_def by auto
  have "length as = card (set as)" using d by (simp add: distinct_card)
  also have "\<dots> \<le> card {..<next_addr q}" by (rule card_mono) (use b in auto)
  finally show ?thesis unfolding Queue2_Count_def using Queue2_walk_list [OF l] by simp
qed

subsection \<open>Threads on a queue\<close>

datatype uq_pc = UqIdle | UqTry | UqSleep | UqNotifyOne | UqNotifyAll

record ('q, 'a) uq_state =
  uq_q :: 'q
  uq_pc :: "tid \<Rightarrow> uq_pc"
  uq_put :: "'a list"      \<comment> \<open>accepted by Put, in order\<close>
  uq_taken :: "'a list"    \<comment> \<open>returned by Take, in order\<close>

definition uq_start :: "'q \<Rightarrow> ('q, 'a) uq_state" where
  "uq_start q = \<lparr>uq_q = q, uq_pc = (\<lambda>_. UqIdle), uq_put = [], uq_taken = []\<rparr>"

text \<open>\<open>notify_one\<close> wakes a sleeper of the scheduler's choice, nobody only if nobody sleeps.\<close>

definition uq_wake_one :: "nat \<Rightarrow> tid option \<Rightarrow> (tid \<Rightarrow> uq_pc) \<Rightarrow> (tid \<Rightarrow> uq_pc) option" where
  "uq_wake_one n w f = (case w of
     Some u \<Rightarrow> if u < n \<and> f u = UqSleep then Some (f(u := UqTry)) else None
   | None \<Rightarrow> if list_all (\<lambda>u. f u \<noteq> UqSleep) [0..<n] then Some f else None)"

definition uq_wake_all :: "(tid \<Rightarrow> uq_pc) \<Rightarrow> tid \<Rightarrow> uq_pc" where
  "uq_wake_all f = (\<lambda>u. if f u = UqSleep then UqTry else f u)"

datatype 'a uq_act = UqPut 'a "tid option" | UqTake | UqStep | UqClose | UqNotify "tid option" | UqSpurious

fun uq_step :: "('a \<Rightarrow> 'q \<Rightarrow> bool \<times> 'q \<times> notify) \<Rightarrow> ('q \<Rightarrow> ('a option \<times> 'q) option) \<Rightarrow> ('q \<Rightarrow> 'q \<times> notify) \<Rightarrow>
    nat \<Rightarrow> tid \<times> 'a uq_act \<Rightarrow> ('q, 'a) uq_state \<Rightarrow> ('q, 'a) uq_state option" where
  "uq_step pt tk cl n (t, UqPut e w) s =
     (if t < n \<and> uq_pc s t = UqIdle then
        (let (ok, q, nf) = pt e (uq_q s);
             s1 = s\<lparr>uq_q := q, uq_put := (if ok then uq_put s @ [e] else uq_put s)\<rparr>
         in case nf of
              NotifyNone \<Rightarrow> Some s1
            | NotifyAfter \<Rightarrow> Some (s1\<lparr>uq_pc := (uq_pc s)(t := UqNotifyOne)\<rparr>)
            | NotifyUnder \<Rightarrow> map_option (\<lambda>f. s1\<lparr>uq_pc := f\<rparr>) (uq_wake_one n w (uq_pc s)))
      else None)"
| "uq_step pt tk cl n (t, UqTake) s =
     (if t < n \<and> uq_pc s t = UqIdle then Some (s\<lparr>uq_pc := (uq_pc s)(t := UqTry)\<rparr>) else None)"
| "uq_step pt tk cl n (t, UqStep) s =
     (if t < n \<and> uq_pc s t = UqTry then
        (case tk (uq_q s) of
           None \<Rightarrow> Some (s\<lparr>uq_pc := (uq_pc s)(t := UqSleep)\<rparr>)
         | Some (r, q) \<Rightarrow> Some (s\<lparr>uq_q := q, uq_pc := (uq_pc s)(t := UqIdle),
             uq_taken := (case r of None \<Rightarrow> uq_taken s | Some e \<Rightarrow> uq_taken s @ [e])\<rparr>))
      else None)"
| "uq_step pt tk cl n (t, UqClose) s =
     (if t < n \<and> uq_pc s t = UqIdle then
        (let (q, nf) = cl (uq_q s)
         in Some (s\<lparr>uq_q := q, uq_pc := (uq_pc s)(t := if nf = NotifyNone then UqIdle else UqNotifyAll)\<rparr>))
      else None)"
| "uq_step pt tk cl n (t, UqNotify w) s =
     (if t < n then
        (case uq_pc s t of
           UqNotifyOne \<Rightarrow> map_option (\<lambda>f. s\<lparr>uq_pc := f(t := UqIdle)\<rparr>) (uq_wake_one n w (uq_pc s))
         | UqNotifyAll \<Rightarrow> Some (s\<lparr>uq_pc := (uq_wake_all (uq_pc s))(t := UqIdle)\<rparr>)
         | _ \<Rightarrow> None)
      else None)"
| "uq_step pt tk cl n (t, UqSpurious) s =
     (if t < n \<and> uq_pc s t = UqSleep then Some (s\<lparr>uq_pc := (uq_pc s)(t := UqTry)\<rparr>) else None)"

definition uq_inv :: "('q \<Rightarrow> bool \<Rightarrow> 'a list \<Rightarrow> bool) \<Rightarrow> ('q, 'a) uq_state \<Rightarrow> bool" where
  "uq_inv rep s \<longleftrightarrow> (\<exists>op xs. rep (uq_q s) op xs \<and> uq_put s = uq_taken s @ xs)"

text \<open>While a thread sleeps: every element has a taker or a notify on its way.\<close>

fun uq_awake :: "uq_pc \<Rightarrow> bool" where
  "uq_awake UqTry = True" | "uq_awake UqNotifyOne = True" | "uq_awake _ = False"

definition uq_live :: "nat \<Rightarrow> ('q \<Rightarrow> bool \<Rightarrow> 'a list \<Rightarrow> bool) \<Rightarrow> ('q, 'a) uq_state \<Rightarrow> bool" where
  "uq_live n rep s \<longleftrightarrow> (\<forall>t\<ge>n. uq_pc s t = UqIdle) \<and>
     (\<exists>op xs. rep (uq_q s) op xs \<and> uq_put s = uq_taken s @ xs \<and>
        (\<forall>t. uq_pc s t = UqSleep \<longrightarrow>
          (if op then length xs \<le> cnt n uq_awake (uq_pc s) else (\<exists>u. uq_pc s u = UqNotifyAll))))"

context blocking_queue
begin

lemma take_cases:
  assumes "rep q op xs"
  obtains "op" "xs = []" "take q = None" | "\<not> op" "xs = []" "take q = Some (None, q)"
  | x ys q' where "xs = x # ys" "take q = Some (Some x, q')" "rep q' op ys"
proof (cases xs)
  case Nil
  with assms that(1,2) take_waits [of q] take_null [of q] show thesis by (cases op) auto
next
  case (Cons x ys)
  with assms that(3) take_item show thesis by blast
qed

lemma put_cases:
  assumes "rep q op xs"
  obtains "\<not> op" "put e q = (False, q, NotifyNone)"
  | q' nf where "op" "put e q = (True, q', nf)" "rep q' op (xs @ [e])"
proof (cases op)
  case True
  with assms have "rep q True xs" by simp
  from put_opened [OF this, of e] that(2) True show thesis by auto
next
  case False
  with assms put_closed [of q xs e] that(1) show thesis by simp
qed

lemma uq_inv_step:
  assumes inv: "uq_inv rep s" and st: "uq_step put take close n a s = Some s'"
  shows "uq_inv rep s'"
proof -
  from inv obtain op xs where r: "rep (uq_q s) op xs" and h: "uq_put s = uq_taken s @ xs"
    unfolding uq_inv_def by blast
  obtain t b where a: "a = (t, b)" by (cases a)
  have stay: "uq_inv rep s'" if "uq_q s' = uq_q s" "uq_put s' = uq_put s" "uq_taken s' = uq_taken s"
    unfolding uq_inv_def using that r h by auto
  show ?thesis
  proof (cases b)
    case (UqPut e w)
    show ?thesis
    proof (rule put_cases [OF r, of e])
      assume "\<not> op" "put e (uq_q s) = (False, uq_q s, NotifyNone)"
      with st a UqPut show ?thesis by (intro stay) (auto split: if_splits)
    next
      fix q' nf assume q: "op" "put e (uq_q s) = (True, q', nf)" "rep q' op (xs @ [e])"
      with st a UqPut have "uq_q s' = q'" "uq_put s' = uq_put s @ [e]" "uq_taken s' = uq_taken s"
        by (auto simp: Let_def split: if_splits notify.splits)
      with q h show ?thesis unfolding uq_inv_def by auto
    qed
  next
    case UqStep
    show ?thesis
    proof (rule take_cases [OF r])
      fix x ys q' assume q: "xs = x # ys" "take (uq_q s) = Some (Some x, q')" "rep q' op ys"
      with st a UqStep have "uq_q s' = q'" "uq_put s' = uq_put s" "uq_taken s' = uq_taken s @ [x]"
        by (auto split: if_splits)
      with q h show ?thesis unfolding uq_inv_def by auto
    qed (use st a UqStep stay in \<open>auto split: if_splits\<close>)
  next
    case UqClose
    from close_rep [OF r] obtain q' where q: "close (uq_q s) = (q', if op then NotifyAfter else NotifyNone)" "rep q' False xs"
      by blast
    with st a UqClose have "uq_q s' = q'" "uq_put s' = uq_put s" "uq_taken s' = uq_taken s"
      by (auto split: if_splits)
    with q h show ?thesis unfolding uq_inv_def by auto
  qed (use st a stay in \<open>auto split: if_splits uq_pc.splits\<close>)
qed

lemma uq_inv_start: "uq_inv rep (uq_start construct)"
  unfolding uq_inv_def uq_start_def using rep_construct by auto

end

sublocale blocking_queue \<subseteq> inv_system "uq_start construct" "uq_step put take close n" "uq_inv rep" for n
  by unfold_locales (auto intro: uq_inv_start uq_inv_step)

lemma uq_liveI:
  assumes "\<And>t. t \<ge> n \<Longrightarrow> uq_pc s t = UqIdle" and "rep (uq_q s) op xs" and "uq_put s = uq_taken s @ xs"
    and "\<And>t. uq_pc s t = UqSleep \<Longrightarrow>
      if op then length xs \<le> cnt n uq_awake (uq_pc s) else (\<exists>u. uq_pc s u = UqNotifyAll)"
  shows "uq_live n rep s"
  unfolding uq_live_def using assms by blast

lemma wake_one_none: "uq_wake_one n None f = Some g \<Longrightarrow> g = f \<and> (\<forall>u<n. f u \<noteq> UqSleep)"
  by (auto simp: uq_wake_one_def list_all_iff split: if_splits)

lemma wake_one_some: "uq_wake_one n (Some u) f = Some g \<Longrightarrow> g = f(u := UqTry) \<and> u < n \<and> f u = UqSleep"
  by (auto simp: uq_wake_one_def split: if_splits)

context notifying_queue
begin

lemma uq_live_put:
  assumes live: "uq_live n rep s" and st: "uq_step put take close n (t, UqPut e w) s = Some s'"
  shows "uq_live n rep s'"
proof -
  from live obtain op xs where idle: "\<And>t. t \<ge> n \<Longrightarrow> uq_pc s t = UqIdle"
    and r: "rep (uq_q s) op xs" and h: "uq_put s = uq_taken s @ xs"
    and sl: "\<And>t. uq_pc s t = UqSleep \<Longrightarrow> if op then length xs \<le> cnt n uq_awake (uq_pc s) else (\<exists>u. uq_pc s u = UqNotifyAll)"
    unfolding uq_live_def by blast
  from st have t: "t < n" "uq_pc s t = UqIdle" by (auto split: if_splits)
  show ?thesis
  proof (rule put_cases [OF r, of e])
    assume "\<not> op" "put e (uq_q s) = (False, uq_q s, NotifyNone)"
    with st have "s' = s" by (auto split: if_splits)
    with live show ?thesis by simp
  next
    fix q' nf assume q: "op" "put e (uq_q s) = (True, q', nf)" "rep q' op (xs @ [e])"
    with r put_notifies [of "uq_q s" xs e] have nf: "nf \<noteq> NotifyNone" by auto
    show ?thesis
    proof (cases nf)
      case NotifyAfter
      with st q have s': "s' = s\<lparr>uq_q := q', uq_put := uq_put s @ [e], uq_pc := (uq_pc s)(t := UqNotifyOne)\<rparr>"
        by (auto simp: Let_def split: if_splits)
      have "cnt n uq_awake ((uq_pc s)(t := UqNotifyOne)) = Suc (cnt n uq_awake (uq_pc s))"
        using cnt_upd [OF t(1), of uq_awake "uq_pc s" UqNotifyOne] t by simp
      then show ?thesis unfolding s'
        by (intro uq_liveI [where op = op and xs = "xs @ [e]"]) (use idle t q h sl in \<open>auto split: if_splits\<close>)
    next
      case NotifyUnder
      with st q obtain f where f: "uq_wake_one n w (uq_pc s) = Some f"
        and s': "s' = s\<lparr>uq_q := q', uq_put := uq_put s @ [e], uq_pc := f\<rparr>"
        by (auto simp: Let_def split: if_splits)
      show ?thesis
      proof (cases w)
        case None
        with f wake_one_none have "f = uq_pc s" "\<And>u. u < n \<Longrightarrow> uq_pc s u \<noteq> UqSleep" by blast+
        moreover from this idle have "uq_pc s u \<noteq> UqSleep" for u by (cases "u < n") auto
        ultimately show ?thesis unfolding s'
          by (intro uq_liveI [where op = op and xs = "xs @ [e]"]) (use idle q h in auto)
      next
        case (Some u)
        with f wake_one_some have f: "f = (uq_pc s)(u := UqTry)" and u: "u < n" "uq_pc s u = UqSleep" by blast+
        have "cnt n uq_awake f = Suc (cnt n uq_awake (uq_pc s))"
          using cnt_upd [OF u(1), of uq_awake "uq_pc s" UqTry] u f by simp
        then show ?thesis unfolding s'
          by (intro uq_liveI [where op = op and xs = "xs @ [e]"]) (use idle q h sl [OF u(2)] u f in auto)
      qed
    qed (use nf in simp)
  qed
qed

lemma uq_live_take:
  assumes live: "uq_live n rep s" and st: "uq_step put take close n (t, UqStep) s = Some s'"
  shows "uq_live n rep s'"
proof -
  from live obtain op xs where idle: "\<And>t. t \<ge> n \<Longrightarrow> uq_pc s t = UqIdle"
    and r: "rep (uq_q s) op xs" and h: "uq_put s = uq_taken s @ xs"
    and sl: "\<And>t. uq_pc s t = UqSleep \<Longrightarrow> if op then length xs \<le> cnt n uq_awake (uq_pc s) else (\<exists>u. uq_pc s u = UqNotifyAll)"
    unfolding uq_live_def by blast
  from st have t: "t < n" "uq_pc s t = UqTry" by (auto split: if_splits)
  have oth: "\<exists>u. ((uq_pc s)(t := p)) u = UqNotifyAll" if "\<exists>u. uq_pc s u = UqNotifyAll" for p
    by (rule ex_upd_other [OF that]) (simp add: t)
  show ?thesis
  proof (rule take_cases [OF r])
    assume q: "op" "xs = []" "take (uq_q s) = None"
    with st have s': "s' = s\<lparr>uq_pc := (uq_pc s)(t := UqSleep)\<rparr>" by (auto split: if_splits)
    show ?thesis unfolding s'
      by (intro uq_liveI [where op = op and xs = xs]) (use idle t q r h in auto)
  next
    assume q: "\<not> op" "xs = []" "take (uq_q s) = Some (None, uq_q s)"
    with st have s': "s' = s\<lparr>uq_q := uq_q s, uq_pc := (uq_pc s)(t := UqIdle), uq_taken := uq_taken s\<rparr>"
      by (auto split: if_splits)
    show ?thesis unfolding s'
      by (intro uq_liveI [where op = op and xs = xs])
        (use idle t q r h sl oth [of UqIdle] in \<open>auto split: if_splits\<close>)
  next
    fix x ys q' assume q: "xs = x # ys" "take (uq_q s) = Some (Some x, q')" "rep q' op ys"
    with st have s': "s' = s\<lparr>uq_q := q', uq_pc := (uq_pc s)(t := UqIdle), uq_taken := uq_taken s @ [x]\<rparr>"
      by (auto split: if_splits)
    have c: "Suc (cnt n uq_awake ((uq_pc s)(t := UqIdle))) = cnt n uq_awake (uq_pc s)"
      using cnt_upd [OF t(1), of uq_awake "uq_pc s" UqIdle] t by simp
    show ?thesis unfolding s'
    proof (rule uq_liveI [where op = op and xs = ys], goal_cases)
      case (4 u)
      then have "uq_pc s u = UqSleep" by (auto split: if_splits)
      from sl [OF this] c q(1) oth [of UqIdle] show ?case by (cases op) auto
    qed (use idle t q h in auto)
  qed
qed

lemma uq_live_notify:
  assumes live: "uq_live n rep s" and st: "uq_step put take close n (t, UqNotify w) s = Some s'"
  shows "uq_live n rep s'"
proof -
  from live obtain op xs where idle: "\<And>t. t \<ge> n \<Longrightarrow> uq_pc s t = UqIdle"
    and r: "rep (uq_q s) op xs" and h: "uq_put s = uq_taken s @ xs"
    and sl: "\<And>t. uq_pc s t = UqSleep \<Longrightarrow> if op then length xs \<le> cnt n uq_awake (uq_pc s) else (\<exists>u. uq_pc s u = UqNotifyAll)"
    unfolding uq_live_def by blast
  from st have t: "t < n" by (auto split: if_splits)
  show ?thesis
  proof (cases "uq_pc s t")
    case UqNotifyAll
    with st have s': "s' = s\<lparr>uq_pc := (uq_wake_all (uq_pc s))(t := UqIdle)\<rparr>" by (auto split: if_splits)
    show ?thesis unfolding s'
      by (intro uq_liveI [where op = op and xs = xs]) (use idle t r h in \<open>auto simp: uq_wake_all_def split: if_splits\<close>)
  next
    case UqNotifyOne
    with st t obtain f where f: "uq_wake_one n w (uq_pc s) = Some f" and s': "s' = s\<lparr>uq_pc := f(t := UqIdle)\<rparr>"
      by auto
    show ?thesis
    proof (cases w)
      case None
      with f wake_one_none have f: "f = uq_pc s" and "\<And>u. u < n \<Longrightarrow> uq_pc s u \<noteq> UqSleep" by blast+
      moreover from this idle have "uq_pc s u \<noteq> UqSleep" for u by (cases "u < n") auto
      ultimately show ?thesis unfolding s'
        by (intro uq_liveI [where op = op and xs = xs]) (use idle r h in \<open>auto split: if_splits\<close>)
    next
      case (Some u)
      with f wake_one_some have f: "f = (uq_pc s)(u := UqTry)" and u: "u < n" "uq_pc s u = UqSleep" by blast+
      have ut: "u \<noteq> t" using u UqNotifyOne by auto
      have "cnt n uq_awake f = Suc (cnt n uq_awake (uq_pc s))"
        using cnt_upd [OF u(1), of uq_awake "uq_pc s" UqTry] u f by simp
      moreover have "Suc (cnt n uq_awake (f(t := UqIdle))) = cnt n uq_awake f"
        using cnt_upd [OF t, of uq_awake f UqIdle] UqNotifyOne ut f by simp
      ultimately have c: "cnt n uq_awake (f(t := UqIdle)) = cnt n uq_awake (uq_pc s)" by simp
      have oth: "\<exists>v. (f(t := UqIdle)) v = UqNotifyAll" if "\<exists>v. uq_pc s v = UqNotifyAll"
      proof -
        from that obtain v where v: "uq_pc s v = UqNotifyAll" by blast
        with u UqNotifyOne have "v \<noteq> u" "v \<noteq> t" by auto
        with v f show ?thesis by (intro exI [of _ v]) simp
      qed
      show ?thesis unfolding s'
      proof (rule uq_liveI [where op = op and xs = xs], goal_cases)
        case (4 x) then show ?case using sl [OF u(2)] c oth by (cases op) auto
      qed (use idle u r h f t in auto)
    qed
  qed (use st in \<open>auto split: if_splits\<close>)
qed

lemma uq_live_to_try:
  assumes live: "uq_live n rep s" and t: "t < n" "uq_pc s t = UqIdle \<or> uq_pc s t = UqSleep"
  shows "uq_live n rep (s\<lparr>uq_pc := (uq_pc s)(t := UqTry)\<rparr>)"
proof -
  from live obtain op xs where idle: "\<And>t. t \<ge> n \<Longrightarrow> uq_pc s t = UqIdle"
    and r: "rep (uq_q s) op xs" and h: "uq_put s = uq_taken s @ xs"
    and sl: "\<And>t. uq_pc s t = UqSleep \<Longrightarrow> if op then length xs \<le> cnt n uq_awake (uq_pc s) else (\<exists>u. uq_pc s u = UqNotifyAll)"
    unfolding uq_live_def by blast
  have c: "cnt n uq_awake ((uq_pc s)(t := UqTry)) = Suc (cnt n uq_awake (uq_pc s))"
    using cnt_upd [OF t(1), of uq_awake "uq_pc s" UqTry] t by auto
  have oth: "\<exists>v. ((uq_pc s)(t := UqTry)) v = UqNotifyAll" if "\<exists>v. uq_pc s v = UqNotifyAll"
    by (rule ex_upd_other [OF that]) (use t in auto)
  show ?thesis
  proof (rule uq_liveI [where op = op and xs = xs], goal_cases)
    case (4 u)
    then have "uq_pc s u = UqSleep" by (auto split: if_splits)
    from sl [OF this] c oth show ?case by (cases op) auto
  qed (use idle t r h in auto)
qed

lemma uq_live_close:
  assumes live: "uq_live n rep s" and st: "uq_step put take close n (t, UqClose) s = Some s'"
  shows "uq_live n rep s'"
proof -
  from live obtain op xs where idle: "\<And>t. t \<ge> n \<Longrightarrow> uq_pc s t = UqIdle"
    and r: "rep (uq_q s) op xs" and h: "uq_put s = uq_taken s @ xs"
    and sl: "\<And>t. uq_pc s t = UqSleep \<Longrightarrow> if op then length xs \<le> cnt n uq_awake (uq_pc s) else (\<exists>u. uq_pc s u = UqNotifyAll)"
    unfolding uq_live_def by blast
  from st have t: "t < n" "uq_pc s t = UqIdle" by (auto split: if_splits)
  from close_rep [OF r] obtain q' where q: "close (uq_q s) = (q', if op then NotifyAfter else NotifyNone)" "rep q' False xs"
    by blast
  with st t have s': "s' = s\<lparr>uq_q := q', uq_pc := (uq_pc s)(t := if op then UqNotifyAll else UqIdle)\<rparr>"
    by auto
  have same: "(uq_pc s)(t := UqIdle) = uq_pc s" using t by auto
  show ?thesis unfolding s'
  proof (rule uq_liveI [where op = False and xs = xs], goal_cases)
    case (4 u)
    show ?case
    proof (cases op)
      case True
      then show ?thesis by (auto intro: exI [of _ t])
    next
      case False
      with 4 same have "uq_pc s u = UqSleep" by simp
      with sl [OF this] False same show ?thesis by simp
    qed
  qed (use idle t q h in auto)
qed

lemma uq_live_step:
  assumes live: "uq_live n rep s" and st: "uq_step put take close n a s = Some s'"
  shows "uq_live n rep s'"
proof -
  obtain t b where a: "a = (t, b)" by (cases a)
  show ?thesis
  proof (cases b)
    case (UqPut e w)
    with uq_live_put [OF live] st a show ?thesis by blast
  next
    case UqStep
    with uq_live_take [OF live] st a show ?thesis by blast
  next
    case UqClose
    with uq_live_close [OF live] st a show ?thesis by blast
  next
    case (UqNotify w)
    with uq_live_notify [OF live] st a show ?thesis by blast
  qed (use st a uq_live_to_try [OF live, of t] in \<open>auto split: if_splits\<close>)
qed

lemma uq_live_run: "uq_live n rep (run (uq_step put take close n) sched (uq_start construct))"
  by (rule run_keeps [where I = "uq_live n rep"], rule uq_live_step)
    (assumption+, rule uq_liveI [where op = True and xs = "[]"], use rep_construct in \<open>auto simp: uq_start_def\<close>)

end

subsection \<open>Properties\<close>

text \<open>C7: the blocking queue and its linked-list draft are the same FIFO queue for every number of
  threads and every schedule of Put, Take, Close and wake-ups: what Take returned, followed by
  what the queue holds, is what Put accepted, in order. For the draft what it holds is read off
  its nodes, whose chain is never broken, and Count is its length.\<close>

theorem blocking_queue_fifo:
  "(let s = run (uq_step Queue_Put Queue_Take Queue_Close n) sched (uq_start Queue_construct)
    in uq_put s = uq_taken s @ queue (uq_q s)) \<and>
   (let s = run (uq_step Queue2_Put Queue2_Take Queue2_Close n) sched2 (uq_start Queue2_construct)
    in \<exists>xs. ubq2_rep (uq_q s) (is_opened2 (uq_q s)) xs \<and> uq_put s = uq_taken s @ xs \<and> Queue2_Count (uq_q s) = length xs)"
proof -
  have "uq_inv ubq_rep (run (uq_step Queue_Put Queue_Take Queue_Close n) sched (uq_start Queue_construct))"
    by (rule ubq.inv_run)
  then have 1: "let s = run (uq_step Queue_Put Queue_Take Queue_Close n) sched (uq_start Queue_construct)
      in uq_put s = uq_taken s @ queue (uq_q s)"
    by (auto simp: uq_inv_def ubq_rep_def Let_def)
  have "uq_inv ubq2_rep (run (uq_step Queue2_Put Queue2_Take Queue2_Close n) sched2 (uq_start Queue2_construct))"
    by (rule ubq2.inv_run)
  then obtain op xs where "ubq2_rep (uq_q (run (uq_step Queue2_Put Queue2_Take Queue2_Close n) sched2 (uq_start Queue2_construct))) op xs"
    "uq_put (run (uq_step Queue2_Put Queue2_Take Queue2_Close n) sched2 (uq_start Queue2_construct)) =
     uq_taken (run (uq_step Queue2_Put Queue2_Take Queue2_Close n) sched2 (uq_start Queue2_construct)) @ xs"
    unfolding uq_inv_def by blast
  moreover from this(1) have "op = is_opened2 (uq_q (run (uq_step Queue2_Put Queue2_Take Queue2_Close n) sched2 (uq_start Queue2_construct)))"
    unfolding ubq2_rep_def by simp
  ultimately show ?thesis using 1 Queue2_Count_rep unfolding Let_def by blast
qed

text \<open>the blocking queue forgets no sleeping taker: while a thread sleeps in Take and the queue is
  open, there are at most as many elements as takers about to look and notifies under way; once
  it is closed a notify-all is under way. So when no call is in progress besides the sleepers,
  the queue is open and empty. The copy that notifies under the lock has the same guarantee.\<close>

theorem blocking_queue_no_lost_wakeup:
  assumes "s \<in> {run (uq_step Queue_Put Queue_Take Queue_Close n) sched (uq_start Queue_construct),
      run (uq_step SupportQueue_Put SupportQueue_Take SupportQueue_Close n) sched (uq_start Queue_construct)}"
    and "uq_pc s t = UqSleep"
  shows "if is_opened (uq_q s) then length (queue (uq_q s)) \<le> cnt n uq_awake (uq_pc s)
    else (\<exists>u. uq_pc s u = UqNotifyAll)"
proof -
  have "uq_live n ubq_rep s"
    using assms(1) ubq.uq_live_run [of n sched] support.uq_live_run [of n sched] by auto
  then show ?thesis using assms(2) unfolding uq_live_def ubq_rep_def by blast
qed

lemma blocking_queue_no_lost_wakeup_witness:
  "let s = run (uq_step Queue_Put Queue_Take Queue_Close 3)
      [(0, UqTake), (0, UqStep), (1, UqPut (7::nat) None)] (uq_start Queue_construct)
   in uq_pc s 0 = UqSleep \<and> length (queue (uq_q s)) \<le> cnt 3 uq_awake (uq_pc s)"
proof -
  let ?s = "run (uq_step Queue_Put Queue_Take Queue_Close 3)
      [(0, UqTake), (0, UqStep), (1, UqPut (7::nat) None)] (uq_start Queue_construct)"
  have s: "uq_pc ?s 0 = UqSleep" "is_opened (uq_q ?s)" by (simp_all add: uq_start_def queue_ops stutter_def)
  have "if is_opened (uq_q ?s) then length (queue (uq_q ?s)) \<le> cnt 3 uq_awake (uq_pc ?s)
    else (\<exists>u. uq_pc ?s u = UqNotifyAll)"
    by (rule blocking_queue_no_lost_wakeup [OF insertI1 s(1)])
  with s show ?thesis unfolding Let_def by (simp only: if_True simp_thms)
qed

text \<open>the linked-list draft does forget one: it notifies only when the list was empty. Two takers
  sleep, two Puts follow; one taker is woken and takes one element; the other sleeps for ever
  beside an open queue with an element in it, and no notify is under way.\<close>

theorem linked_queue_lost_wakeup:
  "let s = run (uq_step Queue2_Put Queue2_Take Queue2_Close 3)
      [(0, UqTake), (0, UqStep), (1, UqTake), (1, UqStep), (2, UqPut (7::nat) (Some 0)), (2, UqPut 8 None), (0, UqStep)]
      (uq_start Queue2_construct)
   in uq_taken s = [7] \<and> Queue2_Count (uq_q s) = 1 \<and> is_opened2 (uq_q s) \<and> uq_pc s 1 = UqSleep \<and>
      uq_pc s 0 = UqIdle \<and> uq_pc s 2 = UqIdle"
  unfolding Let_def
  by (intro conjI; simp add: uq_start_def Queue2_construct_def Queue2_Put_def Queue2_Take_def Queue2_Count_def
      uq_wake_one_def stutter_def numeral_eq_Suc)

end
