(* ===== verification/ThreadPool.thy ===== *)
theory ThreadPool
  imports BlockingQueue WaitGroups
begin

section \<open>ThreadPool\<close>

text \<open>
  \<open>tasks/thread-pool/tp/thread_pool.cpp\<close> and its successors
  \<open>tasks/executors/exe/executors/tp/compute/thread_pool.cpp\<close> and
  \<open>fibers/yield/exe/tp/thread_pool.cpp\<close>, which add counters for their log line. Clients
  submit, wait and stop; \<open>w\<close> workers run WorkerRoutine. A step is one operation on the task
  queue, on the wait group's counter, on \<open>is_running_\<close>, or one critical section of
  \<open>worker_routine_mtx_\<close>. A Take of an open empty queue is not enabled.
\<close>

datatype pool_version = PoolTp | PoolCompute | PoolFibers

datatype 'a client_pc =
    ClIdle
  | ClPut 'a          \<comment> \<open>Submit: added to the wait group, about to Put\<close>
  | ClRunning         \<comment> \<open>about to set \<open>is_running_\<close>\<close>
  | ClNotify          \<comment> \<open>about to lock and notify one worker\<close>
  | ClStopClose | ClStopNotify | ClStopJoin | ClStopped
  | ClWaitIdle

datatype 'a worker_pc =
    WkTake            \<comment> \<open>about to Take\<close>
  | WkRun 'a          \<comment> \<open>running the task\<close>
  | WkDone            \<comment> \<open>about to call Done\<close>
  | WkCheck           \<comment> \<open>Take returned nullopt, about to load \<open>is_running_\<close>\<close>
  | WkWait            \<comment> \<open>about to lock and evaluate the predicate\<close>
  | WkSleep
  | WkExit

record 'a pool =
  tasks :: "'a ubq"
  is_running :: bool
  incomplete_wg :: u32
  submitted_tasks :: size_t
  completed_tasks :: size_t
  processing_tasks :: size_t
  waiting_workers :: size_t
  client :: "tid \<Rightarrow> 'a client_pc"
  worker :: "nat \<Rightarrow> 'a worker_pc"
  accepted :: "'a list"     \<comment> \<open>tasks the queue accepted, in order\<close>
  started :: "'a list"      \<comment> \<open>tasks a worker has taken, in order\<close>
  finished :: "'a list"     \<comment> \<open>tasks a worker has run to the end\<close>
  rejected :: nat           \<comment> \<open>tasks whose Put returned false\<close>

definition ThreadPool_Start :: "'a pool" where
  "ThreadPool_Start = \<lparr>tasks = Queue_construct, is_running = False, incomplete_wg = 0,
     submitted_tasks = 0, completed_tasks = 0, processing_tasks = 0, waiting_workers = 0,
     client = (\<lambda>_. ClIdle), worker = (\<lambda>_. WkTake), accepted = [], started = [], finished = [], rejected = 0\<rparr>"

definition cl_go :: "tid \<Rightarrow> 'a client_pc \<Rightarrow> 'a pool \<Rightarrow> 'a pool" where
  "cl_go t p s = s\<lparr>client := (client s)(t := p)\<rparr>"

definition wk_go :: "nat \<Rightarrow> 'a worker_pc \<Rightarrow> 'a pool \<Rightarrow> 'a pool" where
  "wk_go i p s = s\<lparr>worker := (worker s)(i := p)\<rparr>"

text \<open>Submit.\<close>

definition Submit_add :: "tid \<Rightarrow> 'a \<Rightarrow> 'a pool \<Rightarrow> 'a pool" where
  "Submit_add t task s = cl_go t (ClPut task) (s\<lparr>incomplete_wg := incomplete_wg s + 1\<rparr>)"

definition Submit_put :: "tid \<Rightarrow> 'a \<Rightarrow> 'a pool \<Rightarrow> 'a pool" where
  "Submit_put t task s =
     (let (ok, q, _) = Queue_Put task (tasks s)
      in cl_go t ClRunning (s\<lparr>tasks := q, accepted := (if ok then accepted s @ [task] else accepted s),
           rejected := (if ok then rejected s else rejected s + 1)\<rparr>))"

definition Submit_running :: "pool_version \<Rightarrow> tid \<Rightarrow> 'a pool \<Rightarrow> 'a pool" where
  "Submit_running v t s = cl_go t ClNotify (s\<lparr>is_running := True,
     submitted_tasks := (if v = PoolTp then submitted_tasks s else submitted_tasks s + 1)\<rparr>)"

text \<open>\<open>notify_one\<close> under the mutex: wakes a sleeping worker, none only if none sleeps.\<close>

definition Submit_notify :: "nat \<Rightarrow> tid \<Rightarrow> nat option \<Rightarrow> 'a pool \<Rightarrow> 'a pool option" where
  "Submit_notify w t u s = (case u of
     Some i \<Rightarrow> if i < w \<and> worker s i = WkSleep then Some (cl_go t ClIdle (wk_go i WkWait s)) else None
   | None \<Rightarrow> if list_all (\<lambda>i. worker s i \<noteq> WkSleep) [0..<w]
       then Some (cl_go t ClIdle s) else None)"

text \<open>WorkerRoutine.\<close>

definition Worker_take :: "pool_version \<Rightarrow> nat \<Rightarrow> 'a pool \<Rightarrow> 'a pool option" where
  "Worker_take v i s = (case Queue_Take (tasks s) of
     None \<Rightarrow> None
   | Some (None, q) \<Rightarrow> Some (wk_go i WkCheck (s\<lparr>tasks := q\<rparr>))
   | Some (Some task, q) \<Rightarrow> Some (wk_go i (WkRun task) (s\<lparr>tasks := q, started := started s @ [task],
       processing_tasks := (if v = PoolTp then processing_tasks s else processing_tasks s + 1)\<rparr>)))"

definition Worker_run :: "pool_version \<Rightarrow> nat \<Rightarrow> 'a \<Rightarrow> 'a pool \<Rightarrow> 'a pool" where
  "Worker_run v i task s = wk_go i WkDone (s\<lparr>finished := finished s @ [task],
     processing_tasks := (if v = PoolTp then processing_tasks s else processing_tasks s - 1)\<rparr>)"

definition Worker_done :: "pool_version \<Rightarrow> nat \<Rightarrow> 'a pool \<Rightarrow> 'a pool" where
  "Worker_done v i s = wk_go i WkWait (s\<lparr>incomplete_wg := incomplete_wg s - 1,
     completed_tasks := (if v = PoolTp then completed_tasks s else completed_tasks s + 1)\<rparr>)"

definition Worker_check :: "nat \<Rightarrow> 'a pool \<Rightarrow> 'a pool" where
  "Worker_check i s = wk_go i (if \<not> is_running s then WkExit else WkWait) s"

definition Worker_wait :: "nat \<Rightarrow> 'a pool \<Rightarrow> 'a pool" where
  "Worker_wait i s = wk_go i (if \<not> Queue_IsEmpty (tasks s) \<or> \<not> is_running s then WkTake else WkSleep) s"

definition Worker_step :: "pool_version \<Rightarrow> nat \<Rightarrow> 'a pool \<Rightarrow> 'a pool option" where
  "Worker_step v i s = (case worker s i of
     WkTake \<Rightarrow> Worker_take v i s
   | WkRun task \<Rightarrow> Some (Worker_run v i task s)
   | WkDone \<Rightarrow> Some (Worker_done v i s)
   | WkCheck \<Rightarrow> Some (Worker_check i s)
   | WkWait \<Rightarrow> Some (Worker_wait i s)
   | WkSleep \<Rightarrow> None
   | WkExit \<Rightarrow> None)"

text \<open>Stop and WaitIdle. Join returns when every worker has left its routine.\<close>

definition Stop_running :: "tid \<Rightarrow> 'a pool \<Rightarrow> 'a pool" where
  "Stop_running t s = cl_go t ClStopClose (s\<lparr>is_running := False\<rparr>)"

definition Stop_close :: "tid \<Rightarrow> 'a pool \<Rightarrow> 'a pool" where
  "Stop_close t s = cl_go t ClStopNotify (s\<lparr>tasks := fst (Queue_Close (tasks s))\<rparr>)"

definition Stop_notify :: "tid \<Rightarrow> 'a pool \<Rightarrow> 'a pool" where
  "Stop_notify t s = cl_go t ClStopJoin
     (s\<lparr>worker := (\<lambda>i. case worker s i of WkSleep \<Rightarrow> WkWait | p \<Rightarrow> p)\<rparr>)"

definition Stop_join :: "nat \<Rightarrow> tid \<Rightarrow> 'a pool \<Rightarrow> 'a pool option" where
  "Stop_join w t s = (if list_all (\<lambda>i. worker s i = WkExit) [0..<w]
     then Some (cl_go t ClStopped s) else None)"

definition WaitIdle_test :: "tid \<Rightarrow> 'a pool \<Rightarrow> 'a pool option" where
  "WaitIdle_test t s = (if WgTp_Wait_test 0 (incomplete_wg s) 0 = WgReturned then Some (cl_go t ClIdle s) else None)"

datatype 'a pool_act =
  ClSubmit 'a | ClStop | ClCallWaitIdle | ClStep "nat option" | WkStep

text \<open>\<open>n\<close> client threads, \<open>w\<close> workers.\<close>

fun pool_step :: "pool_version \<Rightarrow> nat \<Rightarrow> nat \<Rightarrow> nat \<times> 'a pool_act \<Rightarrow> 'a pool \<Rightarrow> 'a pool option" where
  "pool_step v n w (t, ClSubmit task) s =
     (case client s t of ClIdle \<Rightarrow> if t < n then Some (Submit_add t task s) else None | _ \<Rightarrow> None)"
| "pool_step v n w (t, ClStop) s =
     (case client s t of ClIdle \<Rightarrow> if t < n then Some (Stop_running t s) else None | _ \<Rightarrow> None)"
| "pool_step v n w (t, ClCallWaitIdle) s =
     (case client s t of ClIdle \<Rightarrow> if t < n then Some (cl_go t ClWaitIdle s) else None | _ \<Rightarrow> None)"
| "pool_step v n w (t, ClStep u) s =
     (if \<not> t < n then None else case client s t of
        ClPut task \<Rightarrow> Some (Submit_put t task s)
      | ClRunning \<Rightarrow> Some (Submit_running v t s)
      | ClNotify \<Rightarrow> Submit_notify w t u s
      | ClStopClose \<Rightarrow> Some (Stop_close t s)
      | ClStopNotify \<Rightarrow> Some (Stop_notify t s)
      | ClStopJoin \<Rightarrow> Stop_join w t s
      | ClWaitIdle \<Rightarrow> WaitIdle_test t s
      | _ \<Rightarrow> None)"
| "pool_step v n w (i, WkStep) s = (if i < w then Worker_step v i s else None)"

definition tp_step :: "nat \<Rightarrow> nat \<Rightarrow> nat \<times> 'a pool_act \<Rightarrow> 'a pool \<Rightarrow> 'a pool option" where
  "tp_step = pool_step PoolTp"

definition compute_step :: "nat \<Rightarrow> nat \<Rightarrow> nat \<times> 'a pool_act \<Rightarrow> 'a pool \<Rightarrow> 'a pool option" where
  "compute_step = pool_step PoolCompute"

definition fibers_tp_step :: "nat \<Rightarrow> nat \<Rightarrow> nat \<times> 'a pool_act \<Rightarrow> 'a pool \<Rightarrow> 'a pool option" where
  "fibers_tp_step = pool_step PoolFibers"

text \<open>The destructor's assertions, and Current in the two ways it is written.\<close>

definition ThreadPool_destroy_ok :: "'a pool \<Rightarrow> bool" where
  "ThreadPool_destroy_ok s \<longleftrightarrow> Queue_IsEmpty (tasks s) \<and> Queue_IsClosed (tasks s)"

definition Current_tp :: "'p option \<Rightarrow> nat \<Rightarrow> nat \<Rightarrow> 'p option" where
  "Current_tp ctp ctp_tid this_thread_id = (if this_thread_id = ctp_tid then None else ctp)"

definition Current_compute :: "(nat \<Rightarrow> 'p option) \<Rightarrow> nat \<Rightarrow> 'p option" where
  "Current_compute current_pool this_thread_id = current_pool this_thread_id"

lemmas pool_ops = Submit_add_def Submit_put_def Submit_running_def Submit_notify_def Worker_take_def
  Worker_run_def Worker_done_def Worker_check_def Worker_wait_def Stop_running_def Stop_close_def
  Stop_notify_def Stop_join_def WaitIdle_test_def cl_go_def wk_go_def

subsection \<open>Accounting\<close>

fun cl_adding :: "'a client_pc \<Rightarrow> bool" where
  "cl_adding (ClPut _) = True" | "cl_adding _ = False"

fun wk_busy :: "'a worker_pc \<Rightarrow> bool" where
  "wk_busy (WkRun _) = True" | "wk_busy WkDone = True" | "wk_busy _ = False"

fun wk_task :: "'a worker_pc \<Rightarrow> 'a multiset" where
  "wk_task (WkRun task) = {#task#}" | "wk_task _ = {#}"

fun wk_awake :: "'a worker_pc \<Rightarrow> bool" where
  "wk_awake WkSleep = False" | "wk_awake WkExit = False" | "wk_awake _ = True"

fun cl_will_notify :: "'a client_pc \<Rightarrow> bool" where
  "cl_will_notify ClRunning = True" | "cl_will_notify ClNotify = True" | "cl_will_notify _ = False"

definition outstanding :: "nat \<Rightarrow> nat \<Rightarrow> 'a pool \<Rightarrow> nat" where
  "outstanding n w s = cnt n cl_adding (client s) + length (queue (tasks s)) + cnt w wk_busy (worker s) + rejected s"

definition pool_inv :: "nat \<Rightarrow> nat \<Rightarrow> 'a pool \<Rightarrow> bool" where
  "pool_inv n w s \<longleftrightarrow>
     incomplete_wg s = of_nat (outstanding n w s) \<and>
     accepted s = started s @ queue (tasks s) \<and>
     mset (started s) = mset (finished s) + (\<Sum>i<w. wk_task (worker s i)) \<and>
     ((\<exists>i. worker s i = WkExit \<or> worker s i = WkCheck) \<longrightarrow> \<not> is_opened (tasks s) \<and> queue (tasks s) = []) \<and>
     (queue (tasks s) \<noteq> [] \<longrightarrow> (\<exists>i<w. worker s i = WkSleep) \<longrightarrow>
        (\<exists>i<w. wk_awake (worker s i)) \<or> (\<exists>t<n. cl_will_notify (client s t)))"

lemma pool_invI:
  assumes "incomplete_wg s = of_nat (outstanding n w s)" "accepted s = started s @ queue (tasks s)"
    "mset (started s) = mset (finished s) + (\<Sum>i<w. wk_task (worker s i))"
    "\<And>i. worker s i = WkExit \<or> worker s i = WkCheck \<Longrightarrow> \<not> is_opened (tasks s) \<and> queue (tasks s) = []"
    "queue (tasks s) \<noteq> [] \<Longrightarrow> \<exists>i<w. worker s i = WkSleep \<Longrightarrow>
      (\<exists>i<w. wk_awake (worker s i)) \<or> (\<exists>t<n. cl_will_notify (client s t))"
  shows "pool_inv n w s"
  unfolding pool_inv_def using assms by blast

lemma pool_invD:
  assumes "pool_inv n w s"
  shows "incomplete_wg s = of_nat (outstanding n w s)" "accepted s = started s @ queue (tasks s)"
    "mset (started s) = mset (finished s) + (\<Sum>i<w. wk_task (worker s i))"
    "\<And>i. worker s i = WkExit \<or> worker s i = WkCheck \<Longrightarrow> \<not> is_opened (tasks s) \<and> queue (tasks s) = []"
    "queue (tasks s) \<noteq> [] \<Longrightarrow> \<exists>i<w. worker s i = WkSleep \<Longrightarrow>
      (\<exists>i<w. wk_awake (worker s i)) \<or> (\<exists>t<n. cl_will_notify (client s t))"
  using assms unfolding pool_inv_def by blast+

text \<open>A client moves and the workers stay; the queue and its history may change by \<open>added\<close>.\<close>

lemma pool_client:
  assumes inv: "pool_inv n w s" and t: "t < n"
    and s': "client s' = (client s)(t := p)" "worker s' = worker s" "started s' = started s" "finished s' = finished s"
    and q: "accepted s' = accepted s @ added" "queue (tasks s') = queue (tasks s) @ added"
      "is_opened (tasks s') \<longrightarrow> is_opened (tasks s)" "added \<noteq> [] \<longrightarrow> is_opened (tasks s)"
    and wg: "incomplete_wg s' + of_nat (of_bool (cl_adding (client s t)) + rejected s) =
      incomplete_wg s + of_nat (of_bool (cl_adding p) + length added + rejected s')"
    and notif: "cl_will_notify (client s t) \<longrightarrow> cl_will_notify p \<or> \<not> (\<exists>i<w. worker s i = WkSleep)"
      "added \<noteq> [] \<longrightarrow> cl_will_notify p"
  shows "pool_inv n w s'"
proof -
  note D = pool_invD [OF inv]
  note U = cnt_upd [OF t, of cl_adding "client s" p]
  have o: "outstanding n w s' + (of_bool (cl_adding (client s t)) + rejected s) =
      outstanding n w s + (of_bool (cl_adding p) + length added + rejected s')"
    unfolding outstanding_def s' q using U by simp
  then have "(of_nat (outstanding n w s') :: u32) + of_nat (of_bool (cl_adding (client s t)) + rejected s) =
      of_nat (outstanding n w s) + of_nat (of_bool (cl_adding p) + length added + rejected s')"
    by (metis of_nat_add)
  then have w: "incomplete_wg s' = of_nat (outstanding n w s')"
    using wg D(1) by (metis add_right_cancel)
  have n: "(\<exists>i<w. wk_awake (worker s' i)) \<or> (\<exists>u<n. cl_will_notify (client s' u))"
    if ne: "queue (tasks s') \<noteq> []" and sl: "\<exists>i<w. worker s' i = WkSleep"
  proof (cases "added = []")
    case True
    with ne sl D(5) have "(\<exists>i<w. wk_awake (worker s i)) \<or> (\<exists>u<n. cl_will_notify (client s u))"
      unfolding q s' by simp
    moreover have "(\<exists>u<n. cl_will_notify (client s' u))" if "\<exists>u<n. cl_will_notify (client s u)"
      unfolding s' by (rule ex_upd_keep [of _ cl_will_notify, OF that]) (use notif(1) sl s'(2) in auto)
    ultimately show ?thesis using s'(2) by auto
  next
    case False
    with notif(2) t have "\<exists>u<n. cl_will_notify (client s' u)" unfolding s' by (intro ex_upd_self) auto
    then show ?thesis by blast
  qed
  show ?thesis
  proof (rule pool_invI [OF w _ _ _ n])
    fix i assume "worker s' i = WkExit \<or> worker s' i = WkCheck"
    with D(4) [of i] s'(2) have "\<not> is_opened (tasks s) \<and> queue (tasks s) = []" by simp
    with q(2-4) show "\<not> is_opened (tasks s') \<and> queue (tasks s') = []" by auto
  qed (use D(2,3) q(1,2) s' in auto)
qed

text \<open>A worker moves and the clients stay; it may have taken the first task of the queue.\<close>

lemma pool_worker:
  assumes inv: "pool_inv n w s" and i: "i < w"
    and s': "worker s' = (worker s)(i := p)" "client s' = client s" "rejected s' = rejected s" "accepted s' = accepted s"
    and q: "queue (tasks s) = took @ queue (tasks s')" "is_opened (tasks s') = is_opened (tasks s)"
      "started s' = started s @ took" "finished s' = finished s @ ended"
    and run: "mset took + wk_task (worker s i) = mset ended + wk_task p"
    and wg: "incomplete_wg s' + of_nat (length took + of_bool (wk_busy (worker s i))) =
      incomplete_wg s + of_nat (of_bool (wk_busy p))"
    and ex: "p = WkExit \<or> p = WkCheck \<Longrightarrow> \<not> is_opened (tasks s') \<and> queue (tasks s') = []"
    and aw: "queue (tasks s') \<noteq> [] \<Longrightarrow> wk_awake (worker s i) \<Longrightarrow> wk_awake p"
      "queue (tasks s') \<noteq> [] \<Longrightarrow> p \<noteq> WkSleep"
  shows "pool_inv n w s'"
proof -
  note D = pool_invD [OF inv]
  note U = cnt_upd [OF i, of wk_busy "worker s" p]
  have "outstanding n w s' + (length took + of_bool (wk_busy (worker s i))) = outstanding n w s + of_bool (wk_busy p)"
    unfolding outstanding_def s' using U arg_cong [OF q(1), of length] by simp
  then have "(of_nat (outstanding n w s') :: u32) + of_nat (length took + of_bool (wk_busy (worker s i))) =
      of_nat (outstanding n w s) + of_nat (of_bool (wk_busy p))"
    by (metis of_nat_add)
  then have wg': "incomplete_wg s' = of_nat (outstanding n w s')"
    using wg D(1) by (metis add_right_cancel)
  have "(\<Sum>j<w. wk_task (worker s' j)) + wk_task (worker s i) = (\<Sum>j<w. wk_task (worker s j)) + wk_task p"
    unfolding s' by (rule sum_upd [OF i])
  then have sm: "(\<Sum>j<w. wk_task (worker s j)) + wk_task p = (\<Sum>j<w. wk_task (worker s' j)) + wk_task (worker s i)" by simp
  have "mset (started s') + wk_task (worker s i) =
      mset (finished s) + (\<Sum>j<w. wk_task (worker s j)) + (mset took + wk_task (worker s i))"
    by (simp add: q(3) D(3) ac_simps)
  also have "\<dots> = mset (finished s) + mset ended + ((\<Sum>j<w. wk_task (worker s j)) + wk_task p)"
    unfolding run by (simp add: ac_simps)
  also have "\<dots> = mset (finished s') + (\<Sum>j<w. wk_task (worker s' j)) + wk_task (worker s i)"
    unfolding sm by (simp add: q(4) ac_simps)
  finally have m: "mset (started s') = mset (finished s') + (\<Sum>j<w. wk_task (worker s' j))"
    by (simp only: add_right_cancel)
  show ?thesis
  proof (rule pool_invI [OF wg' _ m], goal_cases)
    case 1
    show ?case using D(2) q(1,3) s'(4) by simp
  next
    case (2 j)
    show ?case
    proof (cases "j = i")
      case True
      with 2 ex s'(1) show ?thesis by simp
    next
      case False
      with 2 D(4) [of j] s'(1) q(1,2) show ?thesis by simp
    qed
  next
    case 3
    then have ne: "queue (tasks s) \<noteq> []" using q(1) by auto
    from 3(2) obtain j where j: "j < w" "worker s' j = WkSleep" by blast
    with aw(2) [OF 3(1)] s'(1) have "j \<noteq> i" by auto
    with j s'(1) have "\<exists>j<w. worker s j = WkSleep" by auto
    from D(5) [OF ne this] show ?case
    proof
      assume "\<exists>j<w. wk_awake (worker s j)"
      then have "\<exists>j<w. wk_awake (worker s' j)" unfolding s' by (rule ex_upd_keep [of _ wk_awake]) (use aw(1) [OF 3(1)] in blast)
      then show ?thesis by blast
    qed (use s'(2) in simp)
  qed
qed

lemma pool_notify:
  assumes inv: "pool_inv n w s" and t: "t < n" and pc: "client s t = ClNotify"
    and st: "Submit_notify w t u s = Some s'"
  shows "pool_inv n w s'"
proof (cases u)
  case None
  with st have "s' = cl_go t ClIdle s" "\<not> (\<exists>i<w. worker s i = WkSleep)"
    by (auto simp: Submit_notify_def list_all_iff split: if_splits)
  then show ?thesis
    by (intro pool_client [OF inv t, of s' ClIdle "[]"]) (use pc in \<open>auto simp: cl_go_def\<close>)
next
  case (Some i)
  note D = pool_invD [OF inv]
  from Some st have sl: "worker s i = WkSleep" and i: "i < w" and s': "s' = cl_go t ClIdle (wk_go i WkWait s)"
    by (auto simp: Submit_notify_def split: if_splits)
  have "outstanding n w s' = outstanding n w s"
    unfolding s' outstanding_def cl_go_def wk_go_def
    using cnt_upd [OF t, of cl_adding "client s" ClIdle] cnt_upd [OF i, of wk_busy "worker s" WkWait] pc sl by simp
  moreover have "(\<Sum>j<w. wk_task (((worker s)(i := WkWait)) j)) = (\<Sum>j<w. wk_task (worker s j))"
    using sum_upd [OF i, of wk_task "worker s" WkWait] sl by simp
  moreover have "\<exists>j<w. wk_awake (((worker s)(i := WkWait)) j)" by (rule ex_upd_self [OF _ i]) simp
  ultimately show ?thesis
    by (intro pool_invI) (use D in \<open>auto simp: s' cl_go_def wk_go_def split: if_splits\<close>)
qed

lemma pool_stop_notify:
  assumes inv: "pool_inv n w s" and t: "t < n" and pc: "client s t = ClStopNotify"
  shows "pool_inv n w (Stop_notify t s)"
proof -
  note D = pool_invD [OF inv]
  let ?g = "\<lambda>i. case worker s i of WkSleep \<Rightarrow> WkWait | p \<Rightarrow> p"
  have g: "wk_busy (?g i) = wk_busy (worker s i)" "wk_task (?g i) = wk_task (worker s i)"
    "?g i = WkExit \<longleftrightarrow> worker s i = WkExit" "?g i = WkCheck \<longleftrightarrow> worker s i = WkCheck" "?g i \<noteq> WkSleep" for i
    by (cases "worker s i"; simp)+
  have "cnt w wk_busy ?g = cnt w wk_busy (worker s)" by (rule cnt_cong) (rule g(1))
  then have "outstanding n w (Stop_notify t s) = outstanding n w s"
    unfolding outstanding_def Stop_notify_def cl_go_def
    using cnt_upd [OF t, of cl_adding "client s" ClStopJoin] pc by simp
  then show ?thesis
    by (intro pool_invI) (use D g in \<open>auto simp: Stop_notify_def cl_go_def\<close>)
qed

lemma pool_client_step:
  assumes inv: "pool_inv n w s" and st: "pool_step v n w (t, ClStep u) s = Some s'"
  shows "pool_inv n w s'"
proof -
  from st have t: "t < n" by (auto split: if_splits)
  show ?thesis
  proof (cases "client s t")
    case (ClPut task)
    show ?thesis
    proof (cases "is_opened (tasks s)")
      case True
      with st t ClPut show ?thesis
        by (intro pool_client [OF inv t, of s' ClRunning "[task]"])
           (auto simp: Submit_put_def Queue_Put_def cl_go_def)
    next
      case False
      with st t ClPut show ?thesis
        by (intro pool_client [OF inv t, of s' ClRunning "[]"])
           (auto simp: Submit_put_def Queue_Put_def cl_go_def)
    qed
  next
    case ClRunning
    with st t show ?thesis
      by (intro pool_client [OF inv t, of s' ClNotify "[]"]) (auto simp: Submit_running_def cl_go_def)
  next
    case ClNotify
    with st t pool_notify [OF inv t ClNotify, of u s'] show ?thesis by simp
  next
    case ClStopClose
    with st t show ?thesis
      by (intro pool_client [OF inv t, of s' ClStopNotify "[]"])
         (auto simp: Stop_close_def Queue_Close_def cl_go_def split: if_splits)
  next
    case ClStopNotify
    with st t pool_stop_notify [OF inv t ClStopNotify] show ?thesis by simp
  next
    case ClStopJoin
    with st t show ?thesis
      by (intro pool_client [OF inv t, of s' ClStopped "[]"]) (auto simp: Stop_join_def cl_go_def split: if_splits)
  next
    case ClWaitIdle
    with st t show ?thesis
      by (intro pool_client [OF inv t, of s' ClIdle "[]"]) (auto simp: WaitIdle_test_def cl_go_def split: if_splits)
  qed (use st t in simp_all)
qed

lemma pool_worker_step:
  assumes inv: "pool_inv n w s" and st: "pool_step v n w (i, WkStep) s = Some s'"
  shows "pool_inv n w s'"
proof -
  note D = pool_invD [OF inv]
  from st have i: "i < w" and st': "Worker_step v i s = Some s'" by (auto split: if_splits)
  show ?thesis
  proof (cases "worker s i")
    case WkTake
    show ?thesis
    proof (cases "queue (tasks s)")
      case Nil
      with WkTake st' show ?thesis
        by (intro pool_worker [OF inv i, of s' WkCheck "[]" "[]"])
           (auto simp: Worker_step_def Worker_take_def Queue_Take_def wk_go_def split: if_splits)
    next
      case (Cons task rest)
      with WkTake st' show ?thesis
        by (intro pool_worker [OF inv i, of s' "WkRun task" "[task]" "[]"])
           (auto simp: Worker_step_def Worker_take_def Queue_Take_def wk_go_def)
    qed
  next
    case (WkRun task)
    with st' show ?thesis
      by (intro pool_worker [OF inv i, of s' WkDone "[]" "[task]"])
         (auto simp: Worker_step_def Worker_run_def wk_go_def)
  next
    case WkDone
    with st' show ?thesis
      by (intro pool_worker [OF inv i, of s' WkWait "[]" "[]"])
         (auto simp: Worker_step_def Worker_done_def wk_go_def)
  next
    case WkCheck
    with st' D(4) [of i] show ?thesis
      by (intro pool_worker [OF inv i, of s' "if \<not> is_running s then WkExit else WkWait" "[]" "[]"])
         (auto simp: Worker_step_def Worker_check_def wk_go_def)
  next
    case WkWait
    with st' show ?thesis
      by (intro pool_worker [OF inv i, of s' "if \<not> Queue_IsEmpty (tasks s) \<or> \<not> is_running s then WkTake else WkSleep" "[]" "[]"])
         (auto simp: Worker_step_def Worker_wait_def Queue_IsEmpty_def wk_go_def split: if_splits)
  qed (use st' in \<open>simp_all add: Worker_step_def\<close>)
qed

lemma pool_inv_step:
  assumes inv: "pool_inv n w s" and st: "pool_step v n w a s = Some s'"
  shows "pool_inv n w s'"
proof -
  obtain t b where a: "a = (t, b)" by (cases a)
  show ?thesis
  proof (cases b)
    case (ClSubmit task)
    with st a have "t < n" "client s t = ClIdle" "s' = Submit_add t task s" by (auto split: client_pc.splits if_splits)
    then show ?thesis
      by (intro pool_client [OF inv, of t s' "ClPut task" "[]"]) (auto simp: Submit_add_def cl_go_def)
  next
    case ClStop
    with st a have "t < n" "client s t = ClIdle" "s' = Stop_running t s" by (auto split: client_pc.splits if_splits)
    then show ?thesis
      by (intro pool_client [OF inv, of t s' ClStopClose "[]"]) (auto simp: Stop_running_def cl_go_def)
  next
    case ClCallWaitIdle
    with st a have "t < n" "client s t = ClIdle" "s' = cl_go t ClWaitIdle s" by (auto split: client_pc.splits if_splits)
    then show ?thesis
      by (intro pool_client [OF inv, of t s' ClWaitIdle "[]"]) (auto simp: cl_go_def)
  next
    case (ClStep u)
    with pool_client_step [OF inv] st a show ?thesis by blast
  next
    case WkStep
    with pool_worker_step [OF inv] st a show ?thesis by blast
  qed
qed

interpretation pool: inv_system ThreadPool_Start "pool_step v n w" "pool_inv n w"
proof unfold_locales
  show "pool_inv n w ThreadPool_Start"
    by (intro pool_invI) (simp_all add: ThreadPool_Start_def outstanding_def Queue_construct_def cnt_const)
qed (rule pool_inv_step)

subsection \<open>Properties\<close>

text \<open>C4: a pool runs every accepted task exactly once, in the order of acceptance, in all three
  versions and on every schedule of submitters, stoppers, waiters and workers: the tasks started,
  followed by the queue, are the tasks accepted; every started task is finished or being run by
  one worker. While fewer than \<open>2 ^ 32\<close> tasks are outstanding, WaitIdle can return only when every
  accepted task is finished, nobody is in the middle of a Submit and no task was rejected.\<close>

theorem pool_runs_each_task_once:
  fixes sched :: "(nat \<times> 'a pool_act) list"
  assumes "s = run (pool_step v n w) sched ThreadPool_Start"
  shows "accepted s = started s @ queue (tasks s) \<and>
    mset (started s) = mset (finished s) + (\<Sum>i<w. wk_task (worker s i)) \<and>
    (WaitIdle_test t s \<noteq> None \<longrightarrow> outstanding n w s < 2 ^ 32 \<longrightarrow>
      mset (finished s) = mset (accepted s) \<and> cnt n cl_adding (client s) = 0 \<and> rejected s = 0)"
proof -
  have inv: "pool_inv n w s" unfolding assms by (rule pool.inv_run)
  note D = pool_invD [OF inv]
  have "mset (finished s) = mset (accepted s) \<and> cnt n cl_adding (client s) = 0 \<and> rejected s = 0"
    if "WaitIdle_test t s \<noteq> None" "outstanding n w s < 2 ^ 32"
  proof -
    from that(1) have "incomplete_wg s = 0" by (auto simp: WaitIdle_test_def WgTp_Wait_test_def split: if_splits)
    with D(1) have "(of_nat (outstanding n w s) :: u32) = of_nat 0" by simp
    then have "outstanding n w s = 0" using of_nat_u32_inj [OF that(2), of 0] by simp
    then have z: "cnt n cl_adding (client s) = 0" "queue (tasks s) = []" "cnt w wk_busy (worker s) = 0" "rejected s = 0"
      unfolding outstanding_def by simp_all
    from z(3) have "wk_task (worker s i) = {#}" if "i < w" for i
      using that by (cases "worker s i") (auto simp: cnt_0_iff)
    then have "(\<Sum>i<w. wk_task (worker s i)) = {#}" by simp
    with D(2,3) z show ?thesis by simp
  qed
  with D(2,3) show ?thesis by blast
qed

lemma pool_runs_each_task_once_witness:
  "let s = run (pool_step PoolCompute 1 1)
      [(0, ClSubmit (5::nat)), (0, ClStep None), (0, ClStep None), (0, WkStep), (0, WkStep), (0, WkStep)] ThreadPool_Start
   in WaitIdle_test 0 s \<noteq> None \<and> mset (finished s) = mset (accepted s) \<and> accepted s = [5]"
proof -
  let ?sched = "[(0, ClSubmit (5::nat)), (0, ClStep None), (0, ClStep None), (0, WkStep), (0, WkStep), (0, WkStep)]"
  let ?s = "run (pool_step PoolCompute 1 1) ?sched ThreadPool_Start"
  have e: "{t :: nat. t = 0 \<and> 0 < t} = {}" by auto
  have s: "WaitIdle_test 0 ?s \<noteq> None" "outstanding 1 1 ?s < 2 ^ 32" "accepted ?s = [5]"
    by (simp_all add: ThreadPool_Start_def pool_ops Worker_step_def queue_ops stutter_def WgTp_Wait_test_def
        outstanding_def cnt_def e)
  from pool_runs_each_task_once [of ?s PoolCompute 1 1 ?sched 0, OF refl] s show ?thesis unfolding Let_def by blast
qed

text \<open>the pool forgets no task and stops cleanly: while the queue holds a task and a worker
  sleeps, another worker is awake or a submitter is about to notify; and once a worker has left
  its routine the queue is closed and empty, which is what the destructor asserts, so that no task
  is accepted afterwards.\<close>

theorem pool_wakes_and_stops:
  assumes "s = run (pool_step v n w) sched ThreadPool_Start"
  shows "(queue (tasks s) \<noteq> [] \<longrightarrow> (\<exists>i<w. worker s i = WkSleep) \<longrightarrow>
      (\<exists>i<w. wk_awake (worker s i)) \<or> (\<exists>t<n. cl_will_notify (client s t))) \<and>
    (worker s i = WkExit \<longrightarrow> ThreadPool_destroy_ok s \<and> fst (Queue_Put task (tasks s)) = False)"
proof -
  have inv: "pool_inv n w s" unfolding assms by (rule pool.inv_run)
  note D = pool_invD [OF inv]
  show ?thesis
    using D(4) [of i] D(5)
    by (auto simp: ThreadPool_destroy_ok_def Queue_IsEmpty_def Queue_IsClosed_def Queue_Put_def)
qed

lemma pool_wakes_and_stops_witness:
  "let s = run (pool_step PoolTp 1 1) [(0, ClStop), (0, ClStep None), (0, WkStep), (0, WkStep)]
      (ThreadPool_Start :: nat pool)
   in worker s 0 = WkExit \<and> ThreadPool_destroy_ok s"
proof -
  let ?sched = "[(0, ClStop), (0, ClStep None), (0, WkStep), (0, WkStep)] :: (nat \<times> nat pool_act) list"
  have w: "worker (run (pool_step PoolTp 1 1) ?sched ThreadPool_Start) 0 = WkExit"
    by (simp add: ThreadPool_Start_def pool_ops Worker_step_def queue_ops stutter_def)
  from pool_wakes_and_stops [of _ PoolTp 1 1 ?sched, OF refl] w show ?thesis unfolding Let_def by blast
qed

text \<open>what the pool does not survive. A Submit after Stop is counted in the wait group but its Put
  is refused, so the counter stays at one and WaitIdle cannot return. A Submit that overlaps Stop
  can set \<open>is_running_\<close> after Stop has cleared it: the worker then goes to sleep on a closed
  empty queue after both notifications, and Stop waits in join for ever.\<close>

theorem pool_submit_and_stop:
  "(let s = run (pool_step v 1 1) [(0, ClStop), (0, ClStep None), (0, WkStep), (0, WkStep), (0, ClStep None)]
        (ThreadPool_Start :: nat pool);
      s1 = Submit_put 0 7 (Submit_add 0 7 s)
    in worker s 0 = WkExit \<and> rejected s1 = 1 \<and> incomplete_wg s1 = 1 \<and> WaitIdle_test 0 s1 = None) \<and>
   (let s = run (pool_step v 2 1) [(0, ClSubmit (7::nat)), (0, ClStep None), (0, WkStep), (0, WkStep), (0, WkStep), (0, WkStep),
        (1, ClStop), (1, ClStep None), (0, ClStep None), (0, WkStep), (0, WkStep), (0, WkStep),
        (1, ClStep None), (0, WkStep), (0, ClStep (Some 0)), (0, WkStep)] ThreadPool_Start
    in worker s 0 = WkSleep \<and> client s 1 = ClStopJoin \<and> client s 0 = ClIdle \<and>
       pool_step v 2 1 (0, WkStep) s = None \<and> pool_step v 2 1 (1, ClStep None) s = None)"
  unfolding Let_def
  by (intro conjI; simp add: ThreadPool_Start_def pool_ops Worker_step_def queue_ops stutter_def WgTp_Wait_test_def
      Queue_IsEmpty_def)

end
