(* ===== verification/StealQueue.thy ===== *)
theory StealQueue
  imports Prelude
begin

section \<open>WorkStealingQueue\<close>

text \<open>
  \<open>lockfree/steal/work_stealing_queue.hpp\<close>: a ring of \<open>Capacity + 1\<close> slots with a producer
  (TryPush, TryPop) and any number of grabbers. A step is one atomic load, store or
  compare-and-swap; loads of \<open>tail_\<close> by the producer, its only writer, are merged with the
  next step. The order of the two loads in \<open>CountElements\<close> is unspecified in C++, so the
  scheduler picks it. Ghost fields: \<open>pushed\<close> the items whose push completed, \<open>sq_taken\<close> the
  items returned by pops and grabs in the order of their compare-and-swaps.
\<close>

datatype 'a producer_pc =
    PrIdle
  | PrPush 'a                  \<comment> \<open>about to load \<open>head_\<close> in IsFull\<close>
  | PrStore 'a                 \<comment> \<open>about to store the slot\<close>
  | PrTail                     \<comment> \<open>about to store \<open>tail_\<close>\<close>
  | PrPopCheck size_t          \<comment> \<open>in TryPop with \<open>current_head\<close>, about to evaluate IsEmpty\<close>
  | PrPopRead size_t
  | PrPopCas size_t "'a option"

datatype 'a grab_pc =
    GrIdle
  | GrStart size_t             \<comment> \<open>called with a buffer of this size\<close>
  | GrLoop size_t size_t       \<comment> \<open>buffer size, \<open>current_head\<close>\<close>
  | GrHaveTail size_t size_t size_t
  | GrHaveHead size_t size_t size_t
  | GrRead size_t size_t size_t "'a option list"  \<comment> \<open>and \<open>to_grab\<close>, the items read\<close>

record 'a steal =
  sq_head :: size_t
  sq_tail :: size_t
  slots :: "nat \<Rightarrow> 'a option"
  pr_pc :: "'a producer_pc"
  pr_item :: "'a option"       \<comment> \<open>ghost: the item stored but not yet published\<close>
  gr_pc :: "tid \<Rightarrow> 'a grab_pc"
  pushed :: "'a list"
  sq_taken :: "'a option list"

definition steal_init :: "'a steal" where
  "steal_init = \<lparr>sq_head = 0, sq_tail = 0, slots = (\<lambda>_. None), pr_pc = PrIdle, pr_item = None,
     gr_pc = (\<lambda>_. GrIdle), pushed = [], sq_taken = []\<rparr>"

definition kRealCapacity :: "size_t \<Rightarrow> size_t" where
  "kRealCapacity Capacity = Capacity + 1"

definition ToIndex :: "size_t \<Rightarrow> size_t \<Rightarrow> size_t" where
  "ToIndex Capacity pos = pos mod kRealCapacity Capacity"

definition IsFull :: "size_t \<Rightarrow> 'a steal \<Rightarrow> bool" where
  "IsFull Capacity s \<longleftrightarrow> sq_tail s - sq_head s = Capacity"

definition IsEmpty :: "'a steal \<Rightarrow> bool" where
  "IsEmpty s \<longleftrightarrow> sq_head s = sq_tail s"

definition TryPush_check :: "size_t \<Rightarrow> 'a \<Rightarrow> 'a steal \<Rightarrow> 'a steal" where
  "TryPush_check Capacity item s = s\<lparr>pr_pc := (if IsFull Capacity s then PrIdle else PrStore item)\<rparr>"

definition TryPush_store :: "size_t \<Rightarrow> 'a \<Rightarrow> 'a steal \<Rightarrow> 'a steal" where
  "TryPush_store Capacity item s =
     s\<lparr>slots := (slots s)(unat (ToIndex Capacity (sq_tail s)) := Some item), pr_pc := PrTail, pr_item := Some item\<rparr>"

definition TryPush_publish :: "'a steal \<Rightarrow> 'a steal" where
  "TryPush_publish s = s\<lparr>sq_tail := sq_tail s + 1, pr_pc := PrIdle, pr_item := None,
     pushed := pushed s @ (case pr_item s of None \<Rightarrow> [] | Some x \<Rightarrow> [x])\<rparr>"

definition TryPop_check :: "size_t \<Rightarrow> 'a steal \<Rightarrow> 'a steal" where
  "TryPop_check current_head s = s\<lparr>pr_pc := (if IsEmpty s then PrIdle else PrPopRead current_head)\<rparr>"

definition TryPop_read :: "size_t \<Rightarrow> size_t \<Rightarrow> 'a steal \<Rightarrow> 'a steal" where
  "TryPop_read Capacity current_head s =
     s\<lparr>pr_pc := PrPopCas current_head (slots s (unat (ToIndex Capacity current_head)))\<rparr>"

definition TryPop_cas :: "size_t \<Rightarrow> 'a option \<Rightarrow> 'a steal \<Rightarrow> 'a steal" where
  "TryPop_cas current_head item s =
     (if sq_head s = current_head
      then s\<lparr>sq_head := current_head + 1, pr_pc := PrIdle, sq_taken := sq_taken s @ [item]\<rparr>
      else s\<lparr>pr_pc := PrPopCheck (sq_head s)\<rparr>)"

definition CountElements :: "size_t \<Rightarrow> size_t \<Rightarrow> size_t" where
  "CountElements tail head = tail - head"

definition Grab_count :: "size_t \<Rightarrow> size_t \<Rightarrow> size_t \<Rightarrow> 'a grab_pc" where
  "Grab_count buf current_head element_count =
     (if element_count = 0 then GrIdle
      else GrRead buf current_head (if buf < element_count then buf else element_count) [])"

definition Grab_read :: "size_t \<Rightarrow> size_t \<Rightarrow> 'a option list \<Rightarrow> 'a steal \<Rightarrow> 'a option list" where
  "Grab_read Capacity current_head out_buffer s =
     out_buffer @ [slots s (unat (ToIndex Capacity (current_head + of_nat (length out_buffer))))]"

definition Grab_cas :: "tid \<Rightarrow> size_t \<Rightarrow> size_t \<Rightarrow> size_t \<Rightarrow> 'a option list \<Rightarrow> 'a steal \<Rightarrow> 'a steal" where
  "Grab_cas t buf current_head to_grab out_buffer s =
     (if sq_head s = current_head
      then s\<lparr>sq_head := current_head + to_grab, gr_pc := (gr_pc s)(t := GrIdle), sq_taken := sq_taken s @ out_buffer\<rparr>
      else s\<lparr>gr_pc := (gr_pc s)(t := GrLoop buf (sq_head s))\<rparr>)"

datatype 'a sq_act = SqPush 'a | SqPop | SqProducer | SqGrab size_t | SqStep | SqHeadFirst

fun steal_step :: "size_t \<Rightarrow> tid \<times> 'a sq_act \<Rightarrow> 'a steal \<Rightarrow> 'a steal option" where
  "steal_step C (t, SqPush item) s = (case pr_pc s of PrIdle \<Rightarrow> Some (s\<lparr>pr_pc := PrPush item\<rparr>) | _ \<Rightarrow> None)"
| "steal_step C (t, SqPop) s = (case pr_pc s of PrIdle \<Rightarrow> Some (s\<lparr>pr_pc := PrPopCheck (sq_head s)\<rparr>) | _ \<Rightarrow> None)"
| "steal_step C (t, SqProducer) s = (case pr_pc s of
     PrIdle \<Rightarrow> None
   | PrPush item \<Rightarrow> Some (TryPush_check C item s)
   | PrStore item \<Rightarrow> Some (TryPush_store C item s)
   | PrTail \<Rightarrow> Some (TryPush_publish s)
   | PrPopCheck ch \<Rightarrow> Some (TryPop_check ch s)
   | PrPopRead ch \<Rightarrow> Some (TryPop_read C ch s)
   | PrPopCas ch item \<Rightarrow> Some (TryPop_cas ch item s))"
| "steal_step C (t, SqGrab buf) s = (case gr_pc s t of
     GrIdle \<Rightarrow> Some (s\<lparr>gr_pc := (gr_pc s)(t := GrStart buf)\<rparr>) | _ \<Rightarrow> None)"
| "steal_step C (t, SqStep) s = (case gr_pc s t of
     GrStart buf \<Rightarrow> Some (s\<lparr>gr_pc := (gr_pc s)(t := GrLoop buf (sq_head s))\<rparr>)
   | GrLoop buf ch \<Rightarrow> Some (s\<lparr>gr_pc := (gr_pc s)(t := GrHaveTail buf ch (sq_tail s))\<rparr>)
   | GrHaveTail buf ch t0 \<Rightarrow> Some (s\<lparr>gr_pc := (gr_pc s)(t := Grab_count buf ch (CountElements t0 (sq_head s)))\<rparr>)
   | GrHaveHead buf ch h0 \<Rightarrow> Some (s\<lparr>gr_pc := (gr_pc s)(t := Grab_count buf ch (CountElements (sq_tail s) h0))\<rparr>)
   | GrRead buf ch to_grab out \<Rightarrow>
       if length out < unat to_grab
       then Some (s\<lparr>gr_pc := (gr_pc s)(t := GrRead buf ch to_grab (Grab_read C ch out s))\<rparr>)
       else Some (Grab_cas t buf ch to_grab out s)
   | _ \<Rightarrow> None)"
| "steal_step C (t, SqHeadFirst) s = (case gr_pc s t of
     GrLoop buf ch \<Rightarrow> Some (s\<lparr>gr_pc := (gr_pc s)(t := GrHaveHead buf ch (sq_head s))\<rparr>)
   | _ \<Rightarrow> None)"

lemmas steal_ops = TryPush_check_def TryPush_store_def TryPush_publish_def TryPop_check_def TryPop_read_def
  TryPop_cas_def Grab_count_def Grab_read_def Grab_cas_def CountElements_def IsFull_def IsEmpty_def
  ToIndex_def kRealCapacity_def

subsection \<open>The invariant\<close>

text \<open>
  \<open>h\<close> and \<open>n\<close> are the two positions as numbers. What a grabber knows is conditional: only if
  its \<open>current_head\<close> is still the head is what it has read worth anything, and only then
  its compare-and-swap succeeds.
\<close>

abbreviation W :: "nat \<Rightarrow> size_t" where "W \<equiv> of_nat"

fun gr_ok :: "'a list \<Rightarrow> nat \<Rightarrow> 'a grab_pc \<Rightarrow> bool" where
  "gr_ok xs h GrIdle = True"
| "gr_ok xs h (GrStart buf) = True"
| "gr_ok xs h (GrLoop buf ch) = (\<exists>c\<le>h. ch = W c)"
| "gr_ok xs h (GrHaveTail buf ch t0) = (\<exists>c t. ch = W c \<and> t0 = W t \<and> c \<le> h \<and> c \<le> t \<and> t \<le> length xs)"
| "gr_ok xs h (GrHaveHead buf ch h0) = (\<exists>c g. ch = W c \<and> h0 = W g \<and> c \<le> g \<and> g \<le> h)"
| "gr_ok xs h (GrRead buf ch k out) = (\<exists>c\<le>h. ch = W c \<and>
     (c = h \<longrightarrow> c + unat k \<le> length xs \<and> length out \<le> unat k \<and> out = map Some (take (length out) (drop c xs))))"

fun pr_ok :: "nat \<Rightarrow> 'a list \<Rightarrow> nat \<Rightarrow> 'a producer_pc \<Rightarrow> bool" where
  "pr_ok C xs h (PrStore item) = (length xs < h + C)"
| "pr_ok C xs h PrTail = (length xs < h + C)"
| "pr_ok C xs h (PrPopCheck ch) = (\<exists>c\<le>h. ch = W c)"
| "pr_ok C xs h (PrPopRead ch) = (\<exists>c\<le>h. ch = W c \<and> (c = h \<longrightarrow> c < length xs))"
| "pr_ok C xs h (PrPopCas ch item) = (\<exists>c\<le>h. ch = W c \<and> (c = h \<longrightarrow> c < length xs \<and> item = Some (xs ! c)))"
| "pr_ok C xs h _ = True"

definition steal_num :: "nat \<Rightarrow> nat \<Rightarrow> 'a steal \<Rightarrow> bool" where
  "steal_num C h s \<longleftrightarrow>
     h \<le> length (pushed s) \<and> length (pushed s) \<le> h + C \<and>
     sq_head s = W h \<and> sq_tail s = W (length (pushed s)) \<and>
     sq_taken s = map Some (take h (pushed s)) \<and>
     (\<forall>p. h \<le> p \<longrightarrow> p < length (pushed s) \<longrightarrow> slots s (p mod Suc C) = Some (pushed s ! p)) \<and>
     (pr_pc s = PrTail \<longrightarrow> (\<exists>x. pr_item s = Some x \<and> slots s (length (pushed s) mod Suc C) = Some x)) \<and>
     pr_ok C (pushed s) h (pr_pc s) \<and> (\<forall>t. gr_ok (pushed s) h (gr_pc s t))"

definition steal_inv :: "nat \<Rightarrow> nat \<Rightarrow> 'a steal \<Rightarrow> bool" where
  "steal_inv C k s \<longleftrightarrow> length (pushed s) \<le> k \<and> (\<exists>h. steal_num C h s)"

lemma steal_numD:
  assumes "steal_num C h s"
  shows "h \<le> length (pushed s)" "length (pushed s) \<le> h + C" "sq_head s = W h"
    "sq_tail s = W (length (pushed s))" "sq_taken s = map Some (take h (pushed s))"
    "\<And>p. h \<le> p \<Longrightarrow> p < length (pushed s) \<Longrightarrow> slots s (p mod Suc C) = Some (pushed s ! p)"
    "pr_pc s = PrTail \<Longrightarrow> \<exists>x. pr_item s = Some x \<and> slots s (length (pushed s) mod Suc C) = Some x"
    "pr_ok C (pushed s) h (pr_pc s)" "\<And>t. gr_ok (pushed s) h (gr_pc s t)"
  using assms unfolding steal_num_def by blast+

lemma steal_numI:
  assumes "h \<le> length (pushed s)" "length (pushed s) \<le> h + C" "sq_head s = W h"
    "sq_tail s = W (length (pushed s))" "sq_taken s = map Some (take h (pushed s))"
    "\<And>p. h \<le> p \<Longrightarrow> p < length (pushed s) \<Longrightarrow> slots s (p mod Suc C) = Some (pushed s ! p)"
    "pr_pc s = PrTail \<Longrightarrow> \<exists>x. pr_item s = Some x \<and> slots s (length (pushed s) mod Suc C) = Some x"
    "pr_ok C (pushed s) h (pr_pc s)" "\<And>t. gr_ok (pushed s) h (gr_pc s t)"
  shows "steal_num C h s"
  using assms unfolding steal_num_def by blast

lemma index_eq:
  assumes "p < 2 ^ 64" and "Suc C < 2 ^ 64"
  shows "unat (ToIndex (W C) (W p)) = p mod Suc C"
proof -
  have "unat (W C + 1) = Suc C"
    using unat_of_nat_64 [OF assms(2)] by (simp add: add.commute)
  then show ?thesis
    using unat_of_nat_64 [OF assms(1)] by (simp add: ToIndex_def kRealCapacity_def unat_mod_distrib)
qed

lemma W_inj: "m < 2 ^ 64 \<Longrightarrow> n < 2 ^ 64 \<Longrightarrow> W m = W n \<longleftrightarrow> m = n"
  by (rule of_nat_size_t_inj)

lemma W_diff: "m \<le> n \<Longrightarrow> W n - W m = W (n - m)"
  by (simp add: of_nat_diff)

lemma take_more: "m + c \<le> length xs \<Longrightarrow> take m (drop c (xs @ ys)) = take m (drop c xs)"
  by simp

text \<open>What a thread knows survives a push and a move of the head.\<close>

lemma gr_ok_push:
  assumes "gr_ok xs h p"
  shows "gr_ok (xs @ [x]) h p"
proof (cases p)
  case (GrHaveTail a b c)
  with assms show ?thesis by (auto intro: le_SucI)
next
  case (GrRead a b k out)
  with assms obtain c where c: "c \<le> h" "b = W c"
    "c = h \<longrightarrow> c + unat k \<le> length xs \<and> length out \<le> unat k \<and> out = map Some (take (length out) (drop c xs))" by auto
  have "out = map Some (take (length out) (drop c (xs @ [x])))" if "c = h"
  proof -
    have "length out + c \<le> length xs" using c(3) that by linarith
    then show ?thesis using take_more [of "length out" c xs "[x]"] c(3) that by simp
  qed
  with c GrRead show ?thesis by auto
qed (use assms in auto)

lemma le_less_cond: "c \<le> h \<Longrightarrow> h < h' \<Longrightarrow> c \<le> h' \<and> (c = h' \<longrightarrow> P)" for h :: nat
  by simp

lemma gr_ok_head:
  assumes "gr_ok xs h p" and "h < h'"
  shows "gr_ok xs h' p"
proof (cases p)
  case (GrLoop a b)
  with assms show ?thesis by (auto intro: less_imp_le le_less_trans)
next
  case (GrHaveTail a b c)
  with assms obtain c' t where "b = W c' \<and> c = W t \<and> c' \<le> h \<and> c' \<le> t \<and> t \<le> length xs" by auto
  with assms(2) show ?thesis unfolding GrHaveTail gr_ok.simps by (intro exI [of _ c'] exI [of _ t]) simp
next
  case (GrHaveHead a b c)
  with assms obtain c' g where "b = W c' \<and> c = W g \<and> c' \<le> g \<and> g \<le> h" by auto
  with assms(2) show ?thesis unfolding GrHaveHead gr_ok.simps by (intro exI [of _ c'] exI [of _ g]) simp
next
  case (GrRead a b k out)
  with assms obtain c where "c \<le> h" "b = W c" by auto
  with assms(2) show ?thesis unfolding GrRead gr_ok.simps by (intro exI [of _ c]) simp
qed simp_all

lemma pr_ok_head:
  assumes "pr_ok C xs h p" and "h < h'"
  shows "pr_ok C xs h' p"
proof (cases p)
  case (PrPopCheck b)
  with assms obtain c where "c \<le> h" "b = W c" by auto
  with assms(2) show ?thesis unfolding PrPopCheck pr_ok.simps by (intro exI [of _ c]) simp
next
  case (PrPopRead b)
  with assms obtain c where "c \<le> h" "b = W c" by auto
  with assms(2) show ?thesis unfolding PrPopRead pr_ok.simps by (intro exI [of _ c]) simp
next
  case (PrPopCas b i)
  with assms obtain c where "c \<le> h" "b = W c" by auto
  with assms(2) show ?thesis unfolding PrPopCas pr_ok.simps by (intro exI [of _ c]) simp
qed (use assms in simp_all)

subsection \<open>Every step keeps the invariant\<close>

text \<open>Moving only the program counters.\<close>

lemma steal_num_pc:
  assumes "steal_num C h s" and "pr_ok C (pushed s) h p" and "p \<noteq> PrTail"
  shows "steal_num C h (s\<lparr>pr_pc := p\<rparr>)"
  by (rule steal_numI; insert assms; (simp add: steal_numD)?)

lemma steal_num_gr:
  assumes "steal_num C h s" and "gr_ok (pushed s) h p"
  shows "steal_num C h (s\<lparr>gr_pc := (gr_pc s)(t := p)\<rparr>)"
  by (rule steal_numI; insert assms; (simp add: steal_numD)?)

lemma steal_num_store:
  assumes I: "steal_num C h s" and pc: "pr_pc s = PrStore x"
    and b: "length (pushed s) < 2 ^ 64" "Suc C < 2 ^ 64"
  shows "steal_num C h (TryPush_store (W C) x s)"
proof -
  note D = steal_numD [OF I]
  have i: "unat (ToIndex (W C) (sq_tail s)) = length (pushed s) mod Suc C"
    unfolding D(4) by (rule index_eq [OF b])
  have full: "length (pushed s) < h + C" using D(8) pc by simp
  have other: "p mod Suc C \<noteq> length (pushed s) mod Suc C" if "h \<le> p" "p < length (pushed s)" for p
  proof
    assume "p mod Suc C = length (pushed s) mod Suc C"
    then have "Suc C dvd length (pushed s) - p" using mod_eq_dvd_iff_nat that by (metis less_imp_le)
    moreover have "0 < length (pushed s) - p" "length (pushed s) - p < Suc C" using that full by auto
    ultimately show False by (metis nat_dvd_not_less)
  qed
  show ?thesis
    by (rule steal_numI; unfold TryPush_store_def i; insert D other full; simp)
qed

lemma steal_num_publish:
  assumes I: "steal_num C h s" and pc: "pr_pc s = PrTail"
  shows "steal_num C h (TryPush_publish s)"
proof -
  note D = steal_numD [OF I]
  obtain x where x: "pr_item s = Some x" "slots s (length (pushed s) mod Suc C) = Some x" using D(7) [OF pc] by blast
  have full: "length (pushed s) < h + C" using D(8) pc by simp
  have slot: "slots s (p mod Suc C) = Some ((pushed s @ [x]) ! p)" if "h \<le> p" "p < Suc (length (pushed s))" for p
    using that D(6) x(2) by (cases "p = length (pushed s)") (auto simp: nth_append)
  have eq: "TryPush_publish s = s\<lparr>sq_tail := sq_tail s + 1, pr_pc := PrIdle, pr_item := None, pushed := pushed s @ [x]\<rparr>"
    by (simp add: TryPush_publish_def x)
  show ?thesis unfolding eq
    by (rule steal_numI; insert D(1-5) full slot gr_ok_push [OF D(9)]; simp add: add.commute)
qed

text \<open>A successful compare-and-swap of the head takes the next items.\<close>

lemma steal_num_head:
  assumes I: "steal_num C h s" and le: "h + m \<le> length (pushed s)" and p: "pr_ok C (pushed s) h p" "p \<noteq> PrTail \<or> p = pr_pc s"
    and g: "\<And>t. gr_ok (pushed s) h (f t)"
  shows "steal_num C (h + m) (s\<lparr>sq_head := W h + W m, pr_pc := p, gr_pc := f,
    sq_taken := sq_taken s @ map Some (take m (drop h (pushed s)))\<rparr>)"
proof -
  note D = steal_numD [OF I]
  have tk: "map Some (take h (pushed s)) @ map Some (take m (drop h (pushed s))) = map Some (take (h + m) (pushed s))"
    by (simp add: take_add)
  have pr: "pr_ok C (pushed s) (h + m) p"
    using p(1) pr_ok_head [of C "pushed s" h p "h + m"] by (cases m) auto
  have gr: "gr_ok (pushed s) (h + m) (f t)" for t
    using g [of t] gr_ok_head [of "pushed s" h "f t" "h + m"] by (cases m) auto
  show ?thesis
    by (rule steal_numI; insert D le p(2) pr gr tk; auto)
qed

lemma steal_num_pop_cas:
  assumes I: "steal_num C h s" and pc: "pr_pc s = PrPopCas ch item" and b: "length (pushed s) < 2 ^ 64"
  shows "\<exists>h'. steal_num C h' (TryPop_cas ch item s)"
proof -
  note D = steal_numD [OF I]
  obtain c where c: "c \<le> h" "ch = W c" "c = h \<longrightarrow> c < length (pushed s) \<and> item = Some (pushed s ! c)"
    using D(8) pc by auto
  show ?thesis
  proof (cases "c = h")
    case True
    then have it: "[item] = map Some (take 1 (drop h (pushed s)))" "h + 1 \<le> length (pushed s)"
      using c(3) by (simp_all add: take_Suc_conv_app_nth hd_drop_conv_nth take_Suc)
    have "steal_num C (h + 1) (s\<lparr>sq_head := W h + W 1, pr_pc := PrIdle, gr_pc := gr_pc s,
        sq_taken := sq_taken s @ map Some (take 1 (drop h (pushed s)))\<rparr>)"
      by (rule steal_num_head [OF I it(2)]) (use D in auto)
    moreover have "TryPop_cas ch item s = s\<lparr>sq_head := W h + W 1, pr_pc := PrIdle, gr_pc := gr_pc s,
        sq_taken := sq_taken s @ map Some (take 1 (drop h (pushed s)))\<rparr>"
      using True c(2) D(3) by (simp add: TryPop_cas_def it(1))
    ultimately show ?thesis by auto
  next
    case False
    have "W c \<noteq> W h" using False c(1) D(1) b W_inj [of c h] by simp
    then have "TryPop_cas ch item s = s\<lparr>pr_pc := PrPopCheck (sq_head s)\<rparr>"
      using c(2) D(3) by (simp add: TryPop_cas_def)
    moreover have "steal_num C h (s\<lparr>pr_pc := PrPopCheck (sq_head s)\<rparr>)"
      by (rule steal_num_pc [OF I]) (use D(3) in auto)
    ultimately show ?thesis by auto
  qed
qed

lemma steal_num_grab_cas:
  assumes I: "steal_num C h s" and pc: "gr_pc s t = GrRead buf ch k out" and len: "\<not> length out < unat k"
    and b: "length (pushed s) < 2 ^ 64"
  shows "\<exists>h'. steal_num C h' (Grab_cas t buf ch k out s)"
proof -
  note D = steal_numD [OF I]
  obtain c where c: "c \<le> h" "ch = W c"
    "c = h \<longrightarrow> c + unat k \<le> length (pushed s) \<and> length out \<le> unat k \<and> out = map Some (take (length out) (drop c (pushed s)))"
    using D(9) [of t] pc by auto
  show ?thesis
  proof (cases "c = h")
    case True
    with c(3) len have o: "h + unat k \<le> length (pushed s)" "length out = unat k"
      "out = map Some (take (unat k) (drop h (pushed s)))" by auto
    have "steal_num C (h + unat k) (s\<lparr>sq_head := W h + W (unat k), pr_pc := pr_pc s, gr_pc := (gr_pc s)(t := GrIdle),
        sq_taken := sq_taken s @ map Some (take (unat k) (drop h (pushed s)))\<rparr>)"
      by (rule steal_num_head [OF I o(1) D(8)]) (use D(9) in auto)
    moreover have "Grab_cas t buf ch k out s = s\<lparr>sq_head := W h + W (unat k), pr_pc := pr_pc s,
        gr_pc := (gr_pc s)(t := GrIdle), sq_taken := sq_taken s @ map Some (take (unat k) (drop h (pushed s)))\<rparr>"
      using True c(2) D(3) by (simp add: Grab_cas_def flip: o(3))
    ultimately show ?thesis by auto
  next
    case False
    have "W c \<noteq> W h" using False c(1) D(1) b W_inj [of c h] by simp
    then have "Grab_cas t buf ch k out s = s\<lparr>gr_pc := (gr_pc s)(t := GrLoop buf (sq_head s))\<rparr>"
      using c(2) D(3) by (simp add: Grab_cas_def)
    moreover have "steal_num C h (s\<lparr>gr_pc := (gr_pc s)(t := GrLoop buf (sq_head s))\<rparr>)"
      by (rule steal_num_gr [OF I]) (use D(3) in auto)
    ultimately show ?thesis by auto
  qed
qed

lemma gr_ok_count:
  assumes c: "c \<le> h" "c = h \<Longrightarrow> n = W m \<and> c + m \<le> length xs" and b: "length xs < 2 ^ 64"
  shows "gr_ok xs h (Grab_count buf (W c) n)"
proof (cases "c = h \<and> n \<noteq> 0")
  case True
  then have m: "unat n = m" "c + m \<le> length xs" using c(2) b unat_of_nat_64 [of m] by auto
  have "unat (if buf < n then buf else n) \<le> unat n" by (simp add: word_less_nat_alt)
  then have "c + unat (if buf < n then buf else n) \<le> length xs" using m by linarith
  with True show ?thesis unfolding Grab_count_def by (auto intro!: exI [of _ c])
qed (use c(1) in \<open>auto simp: Grab_count_def\<close>)

lemma steal_num_producer:
  assumes I: "steal_num C h s" and b: "length (pushed s) < 2 ^ 64" "Suc C < 2 ^ 64"
    and st: "steal_step (W C) (t, SqProducer) s = Some s'"
  shows "\<exists>h'. steal_num C h' s'"
proof (cases "pr_pc s")
  case (PrPush x)
  note D = steal_numD [OF I]
  have "length (pushed s) < h + C" if "\<not> IsFull (W C) s"
  proof -
    have "W (length (pushed s) - h) \<noteq> W C" using that D(1,3,4) by (simp add: IsFull_def of_nat_diff)
    then have "length (pushed s) - h \<noteq> C" by blast
    with D(1,2) show ?thesis by linarith
  qed
  then have "steal_num C h (TryPush_check (W C) x s)"
    unfolding TryPush_check_def by (intro steal_num_pc [OF I]) auto
  with st PrPush show ?thesis by auto
next
  case (PrStore x)
  with st steal_num_store [OF I PrStore b] show ?thesis by auto
next
  case PrTail
  with st steal_num_publish [OF I PrTail] show ?thesis by auto
next
  case (PrPopCheck ch)
  note D = steal_numD [OF I]
  obtain c where c: "c \<le> h" "ch = W c" using D(8) PrPopCheck by auto
  have "h < length (pushed s)" if "\<not> IsEmpty s"
    using that D(1,3,4) by (cases "h = length (pushed s)") (auto simp: IsEmpty_def)
  then have "steal_num C h (TryPop_check ch s)"
    unfolding TryPop_check_def using c by (intro steal_num_pc [OF I]) auto
  with st PrPopCheck show ?thesis by auto
next
  case (PrPopRead ch)
  note D = steal_numD [OF I]
  obtain c where c: "c \<le> h" "ch = W c" "c = h \<longrightarrow> c < length (pushed s)" using D(8) PrPopRead by auto
  have "slots s (unat (ToIndex (W C) ch)) = Some (pushed s ! c)" if "c = h"
    using index_eq [of c C] D(6) [of c] c that b by simp
  then have "steal_num C h (TryPop_read (W C) ch s)"
    unfolding TryPop_read_def using c by (intro steal_num_pc [OF I]) auto
  with st PrPopRead show ?thesis by auto
next
  case (PrPopCas ch item)
  with st steal_num_pop_cas [OF I PrPopCas b(1)] show ?thesis by simp
qed (use st in simp)

lemma steal_num_read:
  assumes I: "steal_num C h s" and b: "length (pushed s) < 2 ^ 64" "Suc C < 2 ^ 64"
    and g: "gr_ok (pushed s) h (GrRead buf ch k out)" and len: "length out < unat k"
  shows "gr_ok (pushed s) h (GrRead buf ch k (Grab_read (W C) ch out s))"
proof -
  note D = steal_numD [OF I]
  obtain c where c: "c \<le> h" "ch = W c"
    "c = h \<longrightarrow> c + unat k \<le> length (pushed s) \<and> out = map Some (take (length out) (drop c (pushed s)))"
    using g by auto
  show ?thesis
  proof (cases "c = h")
    case True
    let ?p = "c + length out"
    have p: "?p < length (pushed s)" "h \<le> ?p" using True c(3) len by auto
    have "slots s (unat (ToIndex (W C) (ch + of_nat (length out)))) = Some (pushed s ! ?p)"
      using index_eq [of ?p C] D(6) [OF p(2,1)] p b c(2) by simp
    moreover have "take (Suc (length out)) (drop c (pushed s)) = take (length out) (drop c (pushed s)) @ [pushed s ! ?p]"
      using p by (simp add: take_Suc_conv_app_nth)
    ultimately have "Grab_read (W C) ch out s = map Some (take (Suc (length out)) (drop c (pushed s)))"
      using c(3) True by (simp add: Grab_read_def)
    moreover have "length (Grab_read (W C) ch out s) = Suc (length out)" by (simp add: Grab_read_def)
    ultimately show ?thesis unfolding gr_ok.simps using c len True by (intro exI [of _ c]) simp
  next
    case False
    with c show ?thesis unfolding gr_ok.simps by (intro exI [of _ c]) simp
  qed
qed

lemma steal_num_grab:
  assumes I: "steal_num C h s" and b: "length (pushed s) < 2 ^ 64" "Suc C < 2 ^ 64"
    and st: "steal_step (W C) (t, SqStep) s = Some s'"
  shows "\<exists>h'. steal_num C h' s'"
proof (cases "gr_pc s t")
  case (GrStart buf)
  note D = steal_numD [OF I]
  have "steal_num C h (s\<lparr>gr_pc := (gr_pc s)(t := GrLoop buf (sq_head s))\<rparr>)"
    by (rule steal_num_gr [OF I]) (use D(3) in auto)
  with st GrStart show ?thesis by auto
next
  case (GrLoop buf ch)
  note D = steal_numD [OF I]
  obtain c where c: "c \<le> h" "ch = W c" using D(9) [of t] GrLoop by auto
  have "gr_ok (pushed s) h (GrHaveTail buf ch (sq_tail s))"
    unfolding gr_ok.simps using c D(1,4) by (intro exI [of _ c] exI [of _ "length (pushed s)"]) simp
  from steal_num_gr [OF I this] st GrLoop show ?thesis by auto
next
  case (GrHaveTail buf ch t0)
  note D = steal_numD [OF I]
  obtain c n where c: "ch = W c" "t0 = W n" "c \<le> h" "c \<le> n" "n \<le> length (pushed s)" using D(9) [of t] GrHaveTail by auto
  have "gr_ok (pushed s) h (Grab_count buf ch (CountElements t0 (sq_head s)))"
    unfolding c(1)
  proof (rule gr_ok_count [OF c(3) _ b(1)])
    assume "c = h"
    then show "CountElements t0 (sq_head s) = W (n - h) \<and> c + (n - h) \<le> length (pushed s)"
      using c(4,5) W_diff [of h n] by (simp add: CountElements_def c(2) D(3))
  qed
  with st GrHaveTail steal_num_gr [OF I] show ?thesis by auto
next
  case (GrHaveHead buf ch h0)
  note D = steal_numD [OF I]
  obtain c g where c: "ch = W c" "h0 = W g" "c \<le> g" "g \<le> h" using D(9) [of t] GrHaveHead by auto
  have "gr_ok (pushed s) h (Grab_count buf ch (CountElements (sq_tail s) h0))"
    unfolding c(1)
  proof (rule gr_ok_count [OF _ _ b(1)])
    show "c \<le> h" using c(3,4) by simp
    assume "c = h"
    then have "g = h" using c(3,4) by simp
    with \<open>c = h\<close> show "CountElements (sq_tail s) h0 = W (length (pushed s) - h) \<and> c + (length (pushed s) - h) \<le> length (pushed s)"
      using D(1) W_diff [of h "length (pushed s)"] by (simp add: CountElements_def c(2) D(4))
  qed
  with st GrHaveHead steal_num_gr [OF I] show ?thesis by auto
next
  case (GrRead buf ch k out)
  note D = steal_numD [OF I]
  show ?thesis
  proof (cases "length out < unat k")
    case True
    have "gr_ok (pushed s) h (GrRead buf ch k (Grab_read (W C) ch out s))"
      by (rule steal_num_read [OF I b _ True]) (use D(9) [of t] GrRead in simp)
    from steal_num_gr [OF I this] st GrRead True show ?thesis by auto
  next
    case False
    with st GrRead steal_num_grab_cas [OF I GrRead False b(1)] show ?thesis by simp
  qed
qed (use st in simp)

lemma steal_num_headfirst:
  assumes I: "steal_num C h s" and st: "steal_step (W C) (t, SqHeadFirst) s = Some s'"
  shows "\<exists>h'. steal_num C h' s'"
proof (cases "gr_pc s t")
  case (GrLoop buf ch)
  note D = steal_numD [OF I]
  obtain c where c: "c \<le> h" "ch = W c" using D(9) [of t] GrLoop by auto
  have "gr_ok (pushed s) h (GrHaveHead buf ch (sq_head s))"
    unfolding gr_ok.simps using c D(3) by (intro exI [of _ c] exI [of _ h]) simp
  from steal_num_gr [OF I this] st GrLoop show ?thesis by auto
qed (use st in simp_all)

lemma steal_num_step:
  assumes I: "steal_num C h s" and b: "length (pushed s) < 2 ^ 64" "Suc C < 2 ^ 64"
    and st: "steal_step (W C) (t, op) s = Some s'"
  shows "\<exists>h'. steal_num C h' s'"
proof (cases op)
  case (SqPush x)
  with st have "s' = s\<lparr>pr_pc := PrPush x\<rparr>" by (auto split: producer_pc.splits)
  moreover have "steal_num C h (s\<lparr>pr_pc := PrPush x\<rparr>)" by (rule steal_num_pc [OF I]) auto
  ultimately show ?thesis by blast
next
  case SqPop
  with st have "s' = s\<lparr>pr_pc := PrPopCheck (sq_head s)\<rparr>" by (auto split: producer_pc.splits)
  moreover have "steal_num C h (s\<lparr>pr_pc := PrPopCheck (sq_head s)\<rparr>)"
    by (rule steal_num_pc [OF I]) (use steal_numD(3) [OF I] in auto)
  ultimately show ?thesis by blast
next
  case (SqGrab buf)
  with st have "s' = s\<lparr>gr_pc := (gr_pc s)(t := GrStart buf)\<rparr>" by (auto split: grab_pc.splits)
  moreover have "steal_num C h (s\<lparr>gr_pc := (gr_pc s)(t := GrStart buf)\<rparr>)" by (rule steal_num_gr [OF I]) auto
  ultimately show ?thesis by blast
next
  case SqProducer
  with st show ?thesis using steal_num_producer [OF I b] by simp
next
  case SqStep
  with st show ?thesis using steal_num_grab [OF I b] by simp
next
  case SqHeadFirst
  with st show ?thesis using steal_num_headfirst [OF I] by simp
qed

lemma steal_step_pushed:
  assumes "steal_step C (t, op) s = Some s'"
  shows "length (pushed s') \<le> Suc (length (pushed s))"
proof (cases op)
  case SqProducer
  with assms show ?thesis by (auto simp: steal_ops split: producer_pc.splits option.splits if_splits)
qed (use assms in \<open>auto simp: steal_ops split: producer_pc.splits grab_pc.splits if_splits\<close>)

text \<open>Until the 64-bit positions can have wrapped; the capacity is below \<open>2 ^ 64 - 1\<close>.\<close>

interpretation steal: counted_inv_system "steal_init :: 'a steal" "steal_step (W C)"
  "\<lambda>k s. Suc C < 2 ^ 64 \<longrightarrow> steal_inv C k s" "2 ^ 64 - 1" for C
proof (unfold_locales, goal_cases)
  case 1
  have "steal_num C 0 (steal_init :: 'a steal)" by (rule steal_numI) (auto simp: steal_init_def)
  then show ?case by (auto simp: steal_inv_def steal_init_def)
next
  case (2 k s a s')
  show ?case
  proof
    assume C: "Suc C < 2 ^ 64"
    with 2 obtain h where h: "steal_num C h s" "length (pushed s) \<le> k" by (auto simp: steal_inv_def)
    have "steal_step (W C) (fst a, snd a) s = Some s'" using 2 by simp
    from steal_num_step [OF h(1) _ C this] steal_step_pushed [OF this] h 2(1)
    show "steal_inv C (Suc k) s'" unfolding steal_inv_def by auto
  qed
next
  case (3 k s)
  then show ?case by (auto simp: steal_inv_def)
qed

text \<open>C6: On every schedule of the producer and the grabbers shorter than the 64-bit counters,
  what pops and grabs returned is exactly a prefix of what was pushed, in order: nothing is
  lost, duplicated, reordered, or read from a slot that was overwritten or never filled. At most
  Capacity items are held, a push is refused only when the ring holds Capacity items, and a pop
  fails only when it holds none.\<close>

theorem steal_queue_fifo:
  assumes "Suc C < 2 ^ 64" and "length as \<le> 2 ^ 64 - 1"
  defines "s \<equiv> run (steal_step (W C)) as steal_init"
  shows "sq_taken s = map Some (take (length (sq_taken s)) (pushed s)) \<and>
    length (pushed s) \<le> length (sq_taken s) + C \<and>
    (IsFull (W C) s \<longleftrightarrow> length (pushed s) = length (sq_taken s) + C) \<and>
    (IsEmpty s \<longleftrightarrow> length (pushed s) = length (sq_taken s))"
proof -
  have "steal_inv C (length as) s" unfolding s_def using steal.counted_run [OF assms(2)] assms(1) by blast
  then obtain h where h: "steal_num C h s" "length (pushed s) < 2 ^ 64" using assms(2) by (auto simp: steal_inv_def)
  note D = steal_numD [OF h(1)]
  have len: "length (sq_taken s) = h" using D(1,5) by simp
  have f: "IsFull (W C) s \<longleftrightarrow> length (pushed s) - h = C"
    unfolding IsFull_def D(3,4) W_diff [OF D(1)] by (rule W_inj) (use h(2) assms(1) in linarith)+
  have e: "IsEmpty s \<longleftrightarrow> h = length (pushed s)"
    unfolding IsEmpty_def D(3,4) by (rule W_inj) (use h(2) D(1) in linarith)+
  show ?thesis unfolding len f e using D(1,2,5) by auto
qed

theorem steal_queue_fifo_witness:
  "let s = run (steal_step (W 2)) [(0, SqPush 7), (0, SqProducer), (0, SqProducer), (0, SqProducer),
      (1, SqGrab 4), (1, SqStep), (1, SqHeadFirst), (1, SqStep), (1, SqStep), (1, SqStep)] (steal_init :: nat steal)
   in sq_taken s = map Some (take (length (sq_taken s)) (pushed s)) \<and> sq_taken s = [Some 7] \<and> IsEmpty s"
proof -
  let ?as = "[(0, SqPush 7), (0, SqProducer), (0, SqProducer), (0, SqProducer),
      (1, SqGrab 4), (1, SqStep), (1, SqHeadFirst), (1, SqStep), (1, SqStep), (1, SqStep)] :: (tid \<times> nat sq_act) list"
  have p: "pushed (run (steal_step (W 2)) ?as steal_init) = [7]" "sq_taken (run (steal_step (W 2)) ?as steal_init) = [Some 7]"
    by (simp_all add: stutter_def steal_init_def steal_ops)
  have b: "Suc 2 < 2 ^ 64" "length ?as \<le> 2 ^ 64 - 1" by simp_all
  note f = steal_queue_fifo [OF b]
  show ?thesis unfolding Let_def p using f unfolding p by (simp del: run.simps)
qed

text \<open>Grab may return nothing although the ring was not empty at any moment of the call:
  the two loads of CountElements are not one observation. With the tail loaded first, a push and
  a pop in between make the count 0.\<close>

theorem grab_spurious_empty:
  "let as = [(0, SqPush 7), (0, SqProducer), (0, SqProducer), (0, SqProducer),
       (1, SqGrab 4), (1, SqStep), (1, SqStep), (0, SqPush 8), (0, SqProducer), (0, SqProducer), (0, SqProducer),
       (0, SqPop), (0, SqProducer), (0, SqProducer), (0, SqProducer), (1, SqStep)];
     s = (\<lambda>k. run (steal_step 2) (List.take k as) (steal_init :: nat steal))
   in gr_pc (s 5) 1 = GrStart 4 \<and> gr_pc (s 16) 1 = GrIdle \<and> sq_taken (s 16) = [Some 7] \<and>
      map (\<lambda>k. IsEmpty (s k)) [5..<17] = replicate 12 False"
  unfolding Let_def by (intro conjI; simp add: stutter_def steal_init_def steal_ops upt_rec numeral_eq_Suc)

end
