(* ===== verification/SharedState.thy ===== *)
theory SharedState
  imports Prelude
begin

section \<open>SharedState of a future: the rendezvous of result and callback\<close>

text \<open>
  \<open>futures/fun/exe/futures/state/shared_state.hpp\<close> at the level of its atomic steps: a producer
  in \<open>SetResult\<close> and, on the other side, either a consumer in \<open>SetCallback\<close> or a thread in
  \<open>SyncGet\<close>. \<open>SetResult\<close> locks, stores, notifies, then exchanges the state; \<open>SetCallback\<close>
  stores, then exchanges. Whichever exchange comes second finds the other's mark and submits
  the callback to the executor. \<open>submitted\<close> records what the executor was given: \<open>None\<close> stands
  for a moved-from callback.
\<close>

datatype State = Initial | CallbackSet | ResultSet | ResultConsumed

datatype set_pc = SetIdle | SetNotify | SetExchange | SetSubmit | SetDone
datatype cb_pc = CbStart | CbExchange | CbSubmit | CbDone
datatype get_pc = GetIdle | GetSleep | GetDone

record ('r, 'c) shared_state =
  result_opt :: "'r option"
  callback_opt :: "'c option option"   \<comment> \<open>\<open>Some None\<close>: moved from\<close>
  state :: State
  set_pc :: set_pc
  cb_pc :: cb_pc
  get_pc :: get_pc
  submitted :: "('c option \<times> 'r) list"
  got :: "'r option"

definition shared_init :: "('r, 'c) shared_state" where
  "shared_init = \<lparr>result_opt = None, callback_opt = None, state = Initial, set_pc = SetIdle, cb_pc = CbStart,
     get_pc = GetIdle, submitted = [], got = None\<rparr>"

definition SubmitCallbackIntoExecutor :: "('r, 'c) shared_state \<Rightarrow> ('r, 'c) shared_state" where
  "SubmitCallbackIntoExecutor s = (case (result_opt s, callback_opt s) of
     (Some r, Some cb) \<Rightarrow> s\<lparr>submitted := submitted s @ [(cb, r)], callback_opt := Some None\<rparr>
   | _ \<Rightarrow> s)"

fun SetResult_step :: "'r \<Rightarrow> ('r, 'c) shared_state \<Rightarrow> ('r, 'c) shared_state option" where
  "SetResult_step r s = (case set_pc s of
     SetIdle \<Rightarrow> Some (s\<lparr>result_opt := Some r, set_pc := SetNotify\<rparr>)
   | SetNotify \<Rightarrow> Some (s\<lparr>set_pc := SetExchange, get_pc := (if get_pc s = GetSleep then GetIdle else get_pc s)\<rparr>)
   | SetExchange \<Rightarrow> Some (s\<lparr>state := ResultSet, set_pc := (if state s = CallbackSet then SetSubmit else SetDone)\<rparr>)
   | SetSubmit \<Rightarrow> Some ((SubmitCallbackIntoExecutor s)\<lparr>set_pc := SetDone\<rparr>)
   | SetDone \<Rightarrow> None)"

fun SetCallback_step :: "'c \<Rightarrow> ('r, 'c) shared_state \<Rightarrow> ('r, 'c) shared_state option" where
  "SetCallback_step c s = (case cb_pc s of
     CbStart \<Rightarrow> Some (s\<lparr>callback_opt := Some (Some c), cb_pc := CbExchange\<rparr>)
   | CbExchange \<Rightarrow> Some (s\<lparr>state := CallbackSet, cb_pc := (if state s = ResultSet then CbSubmit else CbDone)\<rparr>)
   | CbSubmit \<Rightarrow> Some ((SubmitCallbackIntoExecutor s)\<lparr>cb_pc := CbDone\<rparr>)
   | CbDone \<Rightarrow> None)"

fun SyncGet_step :: "('r, 'c) shared_state \<Rightarrow> ('r, 'c) shared_state option" where
  "SyncGet_step s = (case get_pc s of
     GetIdle \<Rightarrow> Some (case result_opt s of None \<Rightarrow> s\<lparr>get_pc := GetSleep\<rparr>
                      | Some r \<Rightarrow> s\<lparr>got := Some r, get_pc := GetDone\<rparr>)
   | _ \<Rightarrow> None)"

datatype ss_act = Producer | Consumer | Getter

fun shared_step :: "'r \<Rightarrow> 'c \<Rightarrow> ss_act \<Rightarrow> ('r, 'c) shared_state \<Rightarrow> ('r, 'c) shared_state option" where
  "shared_step r c Producer s = SetResult_step r s"
| "shared_step r c Consumer s = SetCallback_step c s"
| "shared_step r c Getter s = SyncGet_step s"

text \<open>The invariant: each combination of program points determines the shared fields.\<close>

fun state_of :: "set_pc \<Rightarrow> cb_pc \<Rightarrow> State \<Rightarrow> bool" where
  "state_of SetDone CbSubmit st = (st = CallbackSet)"
| "state_of SetDone CbDone st = (st = ResultSet \<or> st = CallbackSet)"
| "state_of SetDone _ st = (st = ResultSet)"
| "state_of SetSubmit c st = (c = CbDone \<and> st = ResultSet)"
| "state_of _ CbSubmit st = False"
| "state_of _ CbDone st = (st = CallbackSet)"
| "state_of _ _ st = (st = Initial)"

definition both_done :: "('r, 'c) shared_state \<Rightarrow> bool" where
  "both_done s \<longleftrightarrow> set_pc s = SetDone \<and> cb_pc s = CbDone"

definition shared_inv :: "'r \<Rightarrow> 'c \<Rightarrow> ('r, 'c) shared_state \<Rightarrow> bool" where
  "shared_inv r c s \<longleftrightarrow>
     state_of (set_pc s) (cb_pc s) (state s) \<and>
     result_opt s = (if set_pc s = SetIdle then None else Some r) \<and>
     callback_opt s = (if cb_pc s = CbStart then None else if both_done s then Some None else Some (Some c)) \<and>
     submitted s = (if both_done s then [(Some c, r)] else []) \<and>
     (get_pc s = GetSleep \<longrightarrow> set_pc s \<in> {SetIdle, SetNotify}) \<and>
     got s = (if get_pc s = GetDone then Some r else None)"

interpretation shared: inv_system shared_init "shared_step r c" "shared_inv r c" for r c
proof (unfold_locales, goal_cases)
  case 1
  show ?case by (simp add: shared_inv_def shared_init_def both_done_def)
next
  case (2 s a s')
  obtain ro co st sp cp gp sub g where s: "s = \<lparr>result_opt = ro, callback_opt = co, state = st, set_pc = sp,
      cb_pc = cp, get_pc = gp, submitted = sub, got = g\<rparr>" by (cases s)
  show ?case
  proof (cases a)
    case Producer
    with 2 show ?thesis unfolding s shared_inv_def
      by (cases sp; cases cp; simp add: both_done_def SubmitCallbackIntoExecutor_def; elim conjE; hypsubst; simp)
  next
    case Consumer
    with 2 show ?thesis unfolding s shared_inv_def
      by (cases sp; cases cp; simp add: both_done_def SubmitCallbackIntoExecutor_def; elim conjE; hypsubst; simp)
  next
    case Getter
    with 2 show ?thesis unfolding s shared_inv_def
      by (cases gp; cases sp; cases cp; simp add: both_done_def; elim conjE; hypsubst; simp)
  qed
qed



text \<open>A second SetResult breaks the rendezvous: if the promise is set, then the callback, then
  the promise again, the exchange of the second SetResult finds CallbackSet and submits the
  callback a second time, moved from.\<close>

theorem second_set_result_resubmits:
  "let s1 = run (shared_step r1 c) [Producer, Producer, Producer, Consumer, Consumer, Consumer] shared_init;
       s2 = run (shared_step r2 c) [Producer, Producer, Producer, Producer] (s1\<lparr>set_pc := SetIdle\<rparr>)
   in submitted s1 = [(Some c, r1)] \<and> submitted s2 = [(Some c, r1), (None, r2)]"
  unfolding Let_def by (simp add: shared_init_def stutter_def SubmitCallbackIntoExecutor_def)

end
