(* ===== verification/Futures.thy ===== *)
theory Futures
  imports SharedState
begin

section \<open>Futures, promises and their combinators\<close>

text \<open>
  \<open>futures/fun/exe/futures\<close>: a heap of shared states, the tasks the executors hold, and the
  combinators as the callbacks they subscribe. Here SetResult and SetCallback are atomic; that
  their interleavings amount to this is \<open>shared_state_rendezvous\<close> of SharedState. A scheduler
  picks any pending task, which covers every executor, the inline one included, since no
  combinator does anything after it has set a promise. User functions are arbitrary functions;
  those of FlatMap and Flatten, which return futures, return the future of an expression.
  \<open>crashed\<close>: an uncaught exception, from \<open>value()\<close> on an error or from calling a moved-from
  callback, ends the program.
\<close>

subsection \<open>Values, results, callbacks\<close>

datatype val = UnitV | Num int | Tup val val | FutV nat

type_synonym error = nat  \<comment> \<open>\<open>std::error_code\<close>\<close>
type_synonym res = "error + val"  \<comment> \<open>\<open>tl::expected<T, Error>\<close>\<close>

datatype executor = Inline | Exe nat

definition Ok :: "val \<Rightarrow> res" where "Ok v = Inr v"
definition Err :: "error \<Rightarrow> res" where "Err e = Inl e"

text \<open>The pipelines a program writes. The function of Submit is its result.\<close>

datatype fexpr =
    FValue val
  | FFailure error
  | FSubmit executor res
  | FMap fexpr "val \<Rightarrow> val"
  | FAndThen fexpr "val \<Rightarrow> res"
  | FOrElse fexpr "error \<Rightarrow> res"
  | FFlatMap fexpr "val \<Rightarrow> fexpr"
  | FVia fexpr executor

text \<open>The lambdas the combinators pass to Subscribe; the \<open>nat\<close> is the captured promise.\<close>

datatype cb =
    CbMap "val \<Rightarrow> val" nat
  | CbAndThen "val \<Rightarrow> res" nat
  | CbOrElse "error \<Rightarrow> res" nat
  | CbFlatMap "val \<Rightarrow> fexpr" nat
  | CbFlatInner nat
  | CbFlatten nat
  | CbBoth nat bool nat      \<comment> \<open>counter block, \<open>is_x\<close>, promise\<close>
  | CbFirst nat nat          \<comment> \<open>counter block, promise\<close>
  | CbUser nat               \<comment> \<open>a user's own subscription\<close>

datatype 'a slot = Empty | Has 'a | Moved  \<comment> \<open>\<open>std::optional\<close>, holding a moved-from value\<close>

record sstate =
  fs_result :: "res slot"
  fs_callback :: "cb slot"
  fs_exec :: executor
  fs_state :: State

definition sstate_init :: sstate where
  "sstate_init = \<lparr>fs_result = Empty, fs_callback = Empty, fs_exec = Inline, fs_state = Initial\<rparr>"

datatype task =
    RunFun executor nat res                 \<comment> \<open>of Submit: set the promise\<close>
  | RunCb executor nat "cb slot" "res slot" \<comment> \<open>\<open>this\<close>, callback and result as moved into the task\<close>

text \<open>RefCounter and RefCounterForBoth.\<close>

record counter =
  ct_value :: size_t
  ct_ref_count :: size_t
  ct_res :: "val \<times> val"
  ct_freed :: bool

definition counter_init :: "size_t \<Rightarrow> size_t \<Rightarrow> counter" where
  "counter_init init_ref_count init_value =
     \<lparr>ct_value = init_value, ct_ref_count = init_ref_count, ct_res = (UnitV, UnitV), ct_freed = False\<rparr>"

record fworld =
  states :: "nat \<Rightarrow> sstate"
  next_ss :: nat
  ftasks :: "task list"
  counters :: "nat \<Rightarrow> counter"
  next_ct :: nat
  user_calls :: "(nat \<times> res) list"
  crashed :: bool

definition fworld_init :: fworld where
  "fworld_init = \<lparr>states = (\<lambda>_. sstate_init), next_ss = 0, ftasks = [], counters = (\<lambda>_. counter_init 0 0),
     next_ct = 0, user_calls = [], crashed = False\<rparr>"

definition upd_ss :: "nat \<Rightarrow> (sstate \<Rightarrow> sstate) \<Rightarrow> fworld \<Rightarrow> fworld" where
  "upd_ss i f w = w\<lparr>states := (states w)(i := f (states w i))\<rparr>"

subsection \<open>SharedState, Promise, Future\<close>

definition Contract :: "fworld \<Rightarrow> nat \<times> fworld" where
  "Contract w = (next_ss w, w\<lparr>states := (states w)(next_ss w := sstate_init), next_ss := Suc (next_ss w)\<rparr>)"

definition Executor_Submit :: "task \<Rightarrow> fworld \<Rightarrow> fworld" where
  "Executor_Submit t w = w\<lparr>ftasks := ftasks w @ [t]\<rparr>"

definition moved :: "'a slot \<Rightarrow> 'a slot" where
  "moved x = (case x of Empty \<Rightarrow> Empty | _ \<Rightarrow> Moved)"

definition SubmitCallback :: "nat \<Rightarrow> fworld \<Rightarrow> fworld" where
  "SubmitCallback i w = (let s = states w i in
     Executor_Submit (RunCb (fs_exec s) i (fs_callback s) (fs_result s))
       (upd_ss i (\<lambda>s. s\<lparr>fs_result := moved (fs_result s), fs_callback := moved (fs_callback s)\<rparr>) w))"

definition SetResult :: "nat \<Rightarrow> res \<Rightarrow> fworld \<Rightarrow> fworld" where
  "SetResult i r w = (let w1 = upd_ss i (\<lambda>s. s\<lparr>fs_result := Has r, fs_state := ResultSet\<rparr>) w
     in if fs_state (states w i) = CallbackSet then SubmitCallback i w1 else w1)"

definition SetCallback :: "nat \<Rightarrow> cb \<Rightarrow> fworld \<Rightarrow> fworld" where
  "SetCallback i c w = (let w1 = upd_ss i (\<lambda>s. s\<lparr>fs_callback := Has c, fs_state := CallbackSet\<rparr>) w
     in if fs_state (states w i) = ResultSet then SubmitCallback i w1 else w1)"

definition SetExecutor :: "nat \<Rightarrow> executor \<Rightarrow> fworld \<Rightarrow> fworld" where
  "SetExecutor i e w = upd_ss i (\<lambda>s. s\<lparr>fs_exec := e\<rparr>) w"

definition GetExecutor :: "nat \<Rightarrow> fworld \<Rightarrow> executor" where
  "GetExecutor i w = fs_exec (states w i)"

definition Promise_SetValue :: "nat \<Rightarrow> val \<Rightarrow> fworld \<Rightarrow> fworld" where
  "Promise_SetValue p v = SetResult p (Ok v)"

definition Promise_SetError :: "nat \<Rightarrow> error \<Rightarrow> fworld \<Rightarrow> fworld" where
  "Promise_SetError p e = SetResult p (Err e)"

text \<open>\<open>Get\<close>: the result if the future is ready, else the thread waits.\<close>

definition GetResult :: "nat \<Rightarrow> fworld \<Rightarrow> res option" where
  "GetResult i w = (case fs_result (states w i) of Has r \<Rightarrow> Some r | _ \<Rightarrow> None)"

subsection \<open>Makers and combinators\<close>

definition Value :: "val \<Rightarrow> fworld \<Rightarrow> nat \<times> fworld" where
  "Value v w = (let (p, w) = Contract w in (p, Promise_SetValue p v w))"

definition Failure :: "error \<Rightarrow> fworld \<Rightarrow> nat \<times> fworld" where
  "Failure e w = (let (p, w) = Contract w in (p, Promise_SetError p e w))"

definition Just :: "fworld \<Rightarrow> nat \<times> fworld" where
  "Just w = (let (p, w) = Contract w in (p, Promise_SetValue p UnitV w))"

definition Submit :: "executor \<Rightarrow> res \<Rightarrow> fworld \<Rightarrow> nat \<times> fworld" where
  "Submit exe fun_result w = (let (p, w) = Contract w in (p, Executor_Submit (RunFun exe p fun_result) w))"

text \<open>\<open>Get\<close> waits for the result; \<open>Detach\<close> does nothing at all.\<close>

definition Get_Pipe :: "nat \<Rightarrow> fworld \<Rightarrow> res option" where
  "Get_Pipe i w = GetResult i w"

definition Detach_Pipe :: "nat \<Rightarrow> fworld \<Rightarrow> fworld" where
  "Detach_Pipe i w = w"

text \<open>\<open>Pipe\<close> of Map, AndThen, OrElse and FlatMap: contract, subscribe, inherit the executor. \<open>env\<close>
  is what other threads do between these calls.\<close>

definition Pipe :: "(nat \<Rightarrow> fworld \<Rightarrow> fworld) \<Rightarrow> (nat \<Rightarrow> cb) \<Rightarrow> nat \<Rightarrow> fworld \<Rightarrow> nat \<times> fworld" where
  "Pipe env mk i w = (let (p, w) = Contract w;
       w = SetCallback i (mk p) (env p w);
       w = env p w
     in (p, SetExecutor p (GetExecutor i w) w))"

definition Map_Pipe :: "(nat \<Rightarrow> fworld \<Rightarrow> fworld) \<Rightarrow> (val \<Rightarrow> val) \<Rightarrow> nat \<Rightarrow> fworld \<Rightarrow> nat \<times> fworld" where
  "Map_Pipe env f = Pipe env (CbMap f)"

definition AndThen_Pipe :: "(nat \<Rightarrow> fworld \<Rightarrow> fworld) \<Rightarrow> (val \<Rightarrow> res) \<Rightarrow> nat \<Rightarrow> fworld \<Rightarrow> nat \<times> fworld" where
  "AndThen_Pipe env f = Pipe env (CbAndThen f)"

definition OrElse_Pipe :: "(nat \<Rightarrow> fworld \<Rightarrow> fworld) \<Rightarrow> (error \<Rightarrow> res) \<Rightarrow> nat \<Rightarrow> fworld \<Rightarrow> nat \<times> fworld" where
  "OrElse_Pipe env f = Pipe env (CbOrElse f)"

definition FlatMap_Pipe :: "(nat \<Rightarrow> fworld \<Rightarrow> fworld) \<Rightarrow> (val \<Rightarrow> fexpr) \<Rightarrow> nat \<Rightarrow> fworld \<Rightarrow> nat \<times> fworld" where
  "FlatMap_Pipe env f = Pipe env (CbFlatMap f)"

definition Via_Pipe :: "executor \<Rightarrow> nat \<Rightarrow> fworld \<Rightarrow> nat \<times> fworld" where
  "Via_Pipe x i w = (i, SetExecutor i x w)"

lemmas Pipe_defs = Map_Pipe_def AndThen_Pipe_def OrElse_Pipe_def FlatMap_Pipe_def Via_Pipe_def

primrec build :: "(nat \<Rightarrow> fworld \<Rightarrow> fworld) \<Rightarrow> fexpr \<Rightarrow> fworld \<Rightarrow> nat \<times> fworld" where
  "build env (FValue v) w = Value v w"
| "build env (FFailure e) w = Failure e w"
| "build env (FSubmit exe r) w = Submit exe r w"
| "build env (FMap e f) w = (let (i, w) = build env e w in Map_Pipe env f i w)"
| "build env (FAndThen e f) w = (let (i, w) = build env e w in AndThen_Pipe env f i w)"
| "build env (FOrElse e f) w = (let (i, w) = build env e w in OrElse_Pipe env f i w)"
| "build env (FFlatMap e f) w = (let (i, w) = build env e w in FlatMap_Pipe env f i w)"
| "build env (FVia e x) w = (let (i, w) = build env e w in Via_Pipe x i w)"

text \<open>Flatten does not inherit the executor.\<close>

definition Flatten :: "nat \<Rightarrow> fworld \<Rightarrow> nat \<times> fworld" where
  "Flatten i w = (let (p, w) = Contract w in (p, SetCallback i (CbFlatten p) w))"

definition new_counter :: "fworld \<Rightarrow> nat \<times> fworld" where
  "new_counter w = (next_ct w, w\<lparr>counters := (counters w)(next_ct w := counter_init 2 2), next_ct := Suc (next_ct w)\<rparr>)"

definition Both :: "nat \<Rightarrow> nat \<Rightarrow> fworld \<Rightarrow> nat \<times> fworld" where
  "Both fx fy w = (let (c, w) = new_counter w; (p, w) = Contract w;
     w = SetCallback fx (CbBoth c True p) (SetExecutor fx Inline w);
     w = SetCallback fy (CbBoth c False p) (SetExecutor fy Inline w) in (p, w))"

definition First :: "nat \<Rightarrow> nat \<Rightarrow> fworld \<Rightarrow> nat \<times> fworld" where
  "First f1 f2 w = (let (c, w) = new_counter w; (p, w) = Contract w;
     w = SetCallback f1 (CbFirst c p) (SetExecutor f1 Inline w);
     w = SetCallback f2 (CbFirst c p) (SetExecutor f2 Inline w) in (p, w))"

subsection \<open>Running a task\<close>

definition ReleaseRef :: "nat \<Rightarrow> fworld \<Rightarrow> fworld" where
  "ReleaseRef c w = w\<lparr>counters := (counters w)(c := (counters w c)
     \<lparr>ct_ref_count := ct_ref_count (counters w c) - 1,
      ct_freed := ct_freed (counters w c) \<or> ct_ref_count (counters w c) = 1\<rparr>)\<rparr>"

definition value_fetch_sub :: "nat \<Rightarrow> fworld \<Rightarrow> size_t \<times> fworld" where
  "value_fetch_sub c w = (ct_value (counters w c),
     w\<lparr>counters := (counters w)(c := (counters w c)\<lparr>ct_value := ct_value (counters w c) - 1\<rparr>)\<rparr>)"

definition Both_store :: "nat \<Rightarrow> bool \<Rightarrow> val \<Rightarrow> fworld \<Rightarrow> fworld" where
  "Both_store c is_x v w = w\<lparr>counters := (counters w)(c := (counters w c)
     \<lparr>ct_res := (let (x, y) = ct_res (counters w c) in if is_x then (v, y) else (x, v))\<rparr>)\<rparr>"

definition Both_cb :: "nat \<Rightarrow> bool \<Rightarrow> nat \<Rightarrow> res \<Rightarrow> fworld \<Rightarrow> fworld" where
  "Both_cb c is_x p r w = (case r of
     Inl e \<Rightarrow> ReleaseRef c (Promise_SetError p e w)
   | Inr v \<Rightarrow> let (n, w) = value_fetch_sub c (Both_store c is_x v w);
                  (x, y) = ct_res (counters w c);
                  w = (if n = 1 then SetResult p (Ok (Tup x y)) w else w)
              in ReleaseRef c w)"

definition First_cb :: "nat \<Rightarrow> nat \<Rightarrow> res \<Rightarrow> fworld \<Rightarrow> fworld" where
  "First_cb c p r w = (case r of
     Inr v \<Rightarrow> ReleaseRef c (SetResult p r w)
   | Inl e \<Rightarrow> let (n, w) = value_fetch_sub c w
              in if n = 1 then ReleaseRef c (SetResult p r w) else ReleaseRef c w)"

text \<open>The futures a FlatMap function returns are built without interleaving.\<close>

definition throw :: "fworld \<Rightarrow> fworld" where
  "throw w = w\<lparr>crashed := True\<rparr>"

definition Inner_cb :: "nat \<Rightarrow> res \<Rightarrow> fworld \<Rightarrow> fworld" where
  "Inner_cb p r w = (case r of Inr v \<Rightarrow> SetResult p (Ok v) w | Inl e \<Rightarrow> throw w)"

definition Map_cb :: "(val \<Rightarrow> val) \<Rightarrow> nat \<Rightarrow> res \<Rightarrow> fworld \<Rightarrow> fworld" where
  "Map_cb f p r w = (case r of Inr v \<Rightarrow> Promise_SetValue p (f v) w | Inl e \<Rightarrow> Promise_SetError p e w)"

definition AndThen_cb :: "(val \<Rightarrow> res) \<Rightarrow> nat \<Rightarrow> res \<Rightarrow> fworld \<Rightarrow> fworld" where
  "AndThen_cb f p r w = (case r of Inr v \<Rightarrow> SetResult p (f v) w | Inl e \<Rightarrow> SetResult p r w)"

definition OrElse_cb :: "(error \<Rightarrow> res) \<Rightarrow> nat \<Rightarrow> res \<Rightarrow> fworld \<Rightarrow> fworld" where
  "OrElse_cb f p r w = (case r of Inl e \<Rightarrow> SetResult p (f e) w | Inr v \<Rightarrow> SetResult p r w)"

definition FlatMap_cb :: "(val \<Rightarrow> fexpr) \<Rightarrow> nat \<Rightarrow> res \<Rightarrow> fworld \<Rightarrow> fworld" where
  "FlatMap_cb f p r w = (case r of
     Inr v \<Rightarrow> let (j, w) = build (\<lambda>_ w. w) (f v) w in SetCallback j (CbFlatInner p) w
   | Inl e \<Rightarrow> Promise_SetError p e w)"

definition Flatten_cb :: "nat \<Rightarrow> res \<Rightarrow> fworld \<Rightarrow> fworld" where
  "Flatten_cb p r w = (case r of
     Inr v \<Rightarrow> (case v of FutV j \<Rightarrow> SetCallback j (CbFlatInner p) w | _ \<Rightarrow> w)
   | Inl e \<Rightarrow> Promise_SetError p e w)"

lemmas cb_defs = Map_cb_def AndThen_cb_def OrElse_cb_def FlatMap_cb_def Flatten_cb_def

fun run_cb :: "cb \<Rightarrow> res \<Rightarrow> fworld \<Rightarrow> fworld" where
  "run_cb (CbMap f p) r w = Map_cb f p r w"
| "run_cb (CbAndThen f p) r w = AndThen_cb f p r w"
| "run_cb (CbOrElse f p) r w = OrElse_cb f p r w"
| "run_cb (CbFlatMap f p) r w = FlatMap_cb f p r w"
| "run_cb (CbFlatInner p) r w = Inner_cb p r w"
| "run_cb (CbFlatten p) r w = Flatten_cb p r w"
| "run_cb (CbBoth c is_x p) r w = Both_cb c is_x p r w"
| "run_cb (CbFirst c p) r w = First_cb c p r w"
| "run_cb (CbUser u) r w = w\<lparr>user_calls := user_calls w @ [(u, r)]\<rparr>"

fun run_task :: "task \<Rightarrow> fworld \<Rightarrow> fworld" where
  "run_task (RunFun exe p r) w = SetResult p r w"
| "run_task (RunCb exe i (Has c) (Has r)) w = run_cb c r w"
| "run_task (RunCb exe i _ _) w = throw w"

definition take_task :: "nat \<Rightarrow> fworld \<Rightarrow> fworld" where
  "take_task k w = w\<lparr>ftasks := List.take k (ftasks w) @ drop (Suc k) (ftasks w)\<rparr>"

definition fut_step :: "nat \<Rightarrow> fworld \<Rightarrow> fworld option" where
  "fut_step k w = (if crashed w \<or> \<not> k < length (ftasks w) then None
     else Some (run_task (ftasks w ! k) (take_task k w)))"

subsection \<open>What a pipeline means\<close>

text \<open>\<open>None\<close>: the pipeline throws. \<open>cost\<close>: the tasks it takes.\<close>

definition inner :: "res option \<Rightarrow> res option" where
  "inner d = (case d of Some (Inr v) \<Rightarrow> Some (Inr v) | _ \<Rightarrow> None)"

primrec eval :: "fexpr \<Rightarrow> res option" where
  "eval (FValue v) = Some (Inr v)"
| "eval (FFailure e) = Some (Inl e)"
| "eval (FSubmit exe r) = Some r"
| "eval (FMap e f) = (case eval e of None \<Rightarrow> None | Some (Inl x) \<Rightarrow> Some (Inl x) | Some (Inr v) \<Rightarrow> Some (Inr (f v)))"
| "eval (FAndThen e f) = (case eval e of None \<Rightarrow> None | Some (Inl x) \<Rightarrow> Some (Inl x) | Some (Inr v) \<Rightarrow> Some (f v))"
| "eval (FOrElse e f) = (case eval e of None \<Rightarrow> None | Some (Inl x) \<Rightarrow> Some (f x) | Some (Inr v) \<Rightarrow> Some (Inr v))"
| "eval (FFlatMap e f) = (case eval e of None \<Rightarrow> None | Some (Inl x) \<Rightarrow> Some (Inl x) | Some (Inr v) \<Rightarrow> inner (eval (f v)))"
| "eval (FVia e x) = eval e"

primrec exec_of :: "fexpr \<Rightarrow> executor" where
  "exec_of (FValue v) = Inline"
| "exec_of (FFailure e) = Inline"
| "exec_of (FSubmit exe r) = Inline"
| "exec_of (FMap e f) = exec_of e"
| "exec_of (FAndThen e f) = exec_of e"
| "exec_of (FOrElse e f) = exec_of e"
| "exec_of (FFlatMap e f) = exec_of e"
| "exec_of (FVia e x) = x"

primrec cost :: "fexpr \<Rightarrow> nat" where
  "cost (FValue v) = 0"
| "cost (FFailure e) = 0"
| "cost (FSubmit exe r) = 1"
| "cost (FMap e f) = Suc (cost e)"
| "cost (FAndThen e f) = Suc (cost e)"
| "cost (FOrElse e f) = Suc (cost e)"
| "cost (FFlatMap e f) = cost e + Suc (case eval e of Some (Inr v) \<Rightarrow> Suc (cost (f v)) | _ \<Rightarrow> 0)"
| "cost (FVia e x) = cost e"

primrec strip :: "fexpr \<Rightarrow> fexpr" where
  "strip (FValue v) = FValue v"
| "strip (FFailure e) = FFailure e"
| "strip (FSubmit exe r) = FSubmit exe r"
| "strip (FMap e f) = FMap e f"
| "strip (FAndThen e f) = FAndThen e f"
| "strip (FOrElse e f) = FOrElse e f"
| "strip (FFlatMap e f) = FFlatMap e f"
| "strip (FVia e x) = strip e"

lemma eval_strip [simp]: "eval (strip e) = eval e"
  by (induction e) auto

subsection \<open>Who will set each promise\<close>

text \<open>
  The flow of a world: every pending task, every subscribed callback and every result, each
  with the shared state it is for. The balance says that each shared state has exactly one of
  them, or that its promise is still held by the code that is running (\<open>H\<close>).
\<close>

datatype item = IFun nat res | ICb nat cb | IDone nat | IBad

fun cb_target :: "cb \<Rightarrow> nat" where
  "cb_target (CbMap f p) = p"
| "cb_target (CbAndThen f p) = p"
| "cb_target (CbOrElse f p) = p"
| "cb_target (CbFlatMap f p) = p"
| "cb_target (CbFlatInner p) = p"
| "cb_target (CbFlatten p) = p"
| "cb_target (CbBoth c x p) = p"
| "cb_target (CbFirst c p) = p"
| "cb_target (CbUser u) = u"

fun item_target :: "item \<Rightarrow> nat" where
  "item_target (IFun p r) = p"
| "item_target (ICb i c) = cb_target c"
| "item_target (IDone i) = i"
| "item_target IBad = 0"

fun task_item :: "task \<Rightarrow> item" where
  "task_item (RunFun exe p r) = IFun p r"
| "task_item (RunCb exe i (Has c) (Has r)) = ICb i c"
| "task_item (RunCb exe i _ _) = IBad"

definition contrib :: "nat \<Rightarrow> sstate \<Rightarrow> item multiset" where
  "contrib i s = (case fs_callback s of Has c \<Rightarrow> {#ICb i c#} | _ \<Rightarrow> {#}) +
     (if fs_result s = Empty then {#} else {#IDone i#})"

definition flow :: "fworld \<Rightarrow> item multiset" where
  "flow w = mset (map task_item (ftasks w)) + (\<Sum>i<next_ss w. contrib i (states w i))"

fun cb_ok :: "(nat \<Rightarrow> fexpr) \<Rightarrow> nat \<Rightarrow> cb \<Rightarrow> bool" where
  "cb_ok ex i (CbMap f p) = (\<exists>e. ex p = FMap e f \<and> strip e = ex i)"
| "cb_ok ex i (CbAndThen f p) = (\<exists>e. ex p = FAndThen e f \<and> strip e = ex i)"
| "cb_ok ex i (CbOrElse f p) = (\<exists>e. ex p = FOrElse e f \<and> strip e = ex i)"
| "cb_ok ex i (CbFlatMap f p) = (\<exists>e. ex p = FFlatMap e f \<and> strip e = ex i)"
| "cb_ok ex i (CbFlatInner p) = (\<exists>e f v. ex p = FFlatMap e f \<and> eval e = Some (Inr v) \<and> strip (f v) = ex i)"
| "cb_ok ex i _ = False"

fun item_ok :: "(nat \<Rightarrow> fexpr) \<Rightarrow> nat \<Rightarrow> item \<Rightarrow> bool" where
  "item_ok ex n (IFun p r) = (eval (ex p) = Some r)"
| "item_ok ex n (ICb i c) = (i < n \<and> cb_ok ex i c)"
| "item_ok ex n (IDone i) = True"
| "item_ok ex n IBad = False"

fun task_ok :: "(nat \<Rightarrow> fexpr) \<Rightarrow> task \<Rightarrow> bool" where
  "task_ok ex (RunFun exe p r) = True"
| "task_ok ex (RunCb exe i (Has c) (Has r)) = (eval (ex i) = Some r)"
| "task_ok ex (RunCb exe i _ _) = False"

fun st_ok :: "State \<Rightarrow> cb slot \<Rightarrow> res slot \<Rightarrow> bool" where
  "st_ok Initial c r = (c = Empty \<and> r = Empty)"
| "st_ok ResultSet c r = (c = Empty \<and> r \<noteq> Empty \<and> r \<noteq> Moved \<or> c = Moved \<and> r = Moved)"
| "st_ok CallbackSet c r = (c \<noteq> Empty \<and> c \<noteq> Moved \<and> r = Empty \<or> c = Moved \<and> r = Moved)"
| "st_ok ResultConsumed c r = False"

definition fut_ok :: "(nat \<Rightarrow> fexpr) \<Rightarrow> bool \<Rightarrow> nat multiset \<Rightarrow> fworld \<Rightarrow> bool" where
  "fut_ok ex R H w \<longleftrightarrow>
     \<not> crashed w \<and>
     (\<forall>i<next_ss w. st_ok (fs_state (states w i)) (fs_callback (states w i)) (fs_result (states w i))) \<and>
     (\<forall>i<next_ss w. \<forall>r. fs_result (states w i) = Has r \<longrightarrow> eval (ex i) = Some r) \<and>
     (\<forall>t\<in>set (ftasks w). task_ok ex t) \<and>
     (\<forall>x\<in>#flow w. item_ok ex (next_ss w) x) \<and>
     image_mset item_target (flow w) + H = mset_set {..<next_ss w} \<and>
     (\<forall>i<next_ss w. eval (ex i) = None \<longrightarrow> R)"

lemma fut_okD:
  assumes "fut_ok ex R H w"
  shows "\<not> crashed w"
    "\<And>i. i < next_ss w \<Longrightarrow> st_ok (fs_state (states w i)) (fs_callback (states w i)) (fs_result (states w i))"
    "\<And>i r. i < next_ss w \<Longrightarrow> fs_result (states w i) = Has r \<Longrightarrow> eval (ex i) = Some r"
    "\<And>t. t \<in> set (ftasks w) \<Longrightarrow> task_ok ex t"
    "\<And>x. x \<in># flow w \<Longrightarrow> item_ok ex (next_ss w) x"
    "image_mset item_target (flow w) + H = mset_set {..<next_ss w}"
    "\<And>i. i < next_ss w \<Longrightarrow> eval (ex i) = None \<Longrightarrow> R"
  using assms unfolding fut_ok_def by blast+

lemma fut_okI:
  assumes "\<not> crashed w"
    "\<And>i. i < next_ss w \<Longrightarrow> st_ok (fs_state (states w i)) (fs_callback (states w i)) (fs_result (states w i))"
    "\<And>i r. i < next_ss w \<Longrightarrow> fs_result (states w i) = Has r \<Longrightarrow> eval (ex i) = Some r"
    "\<And>t. t \<in> set (ftasks w) \<Longrightarrow> task_ok ex t"
    "\<And>x. x \<in># flow w \<Longrightarrow> item_ok ex (next_ss w) x"
    "image_mset item_target (flow w) + H = mset_set {..<next_ss w}"
    "\<And>i. i < next_ss w \<Longrightarrow> eval (ex i) = None \<Longrightarrow> R"
  shows "fut_ok ex R H w"
  using assms unfolding fut_ok_def by blast

fun weight :: "(nat \<Rightarrow> fexpr) \<Rightarrow> item \<Rightarrow> nat" where
  "weight ex (IFun p r) = 1"
| "weight ex (ICb i (CbFlatMap f p)) = Suc (case eval (ex i) of Some (Inr v) \<Rightarrow> Suc (cost (f v)) | _ \<Rightarrow> 0)"
| "weight ex (ICb i c) = 1"
| "weight ex (IDone i) = 0"
| "weight ex IBad = 0"

definition work :: "(nat \<Rightarrow> fexpr) \<Rightarrow> fworld \<Rightarrow> nat" where
  "work ex w = (\<Sum>x\<in>#flow w. weight ex x)"

text \<open>What nobody but the owner of a future changes.\<close>

definition frame :: "fworld \<Rightarrow> fworld \<Rightarrow> bool" where
  "frame w w' \<longleftrightarrow> next_ss w \<le> next_ss w' \<and> (\<forall>i<next_ss w. fs_exec (states w' i) = fs_exec (states w i) \<and>
     (fs_callback (states w i) = Empty \<longrightarrow> fs_callback (states w' i) = Empty))"

subsection \<open>How the operations move the flow\<close>

lemma sum_upd_idx:
  fixes g :: "nat \<Rightarrow> 's \<Rightarrow> 'b::comm_monoid_add"
  assumes "t < n"
  shows "(\<Sum>i<n. g i ((f(t := x)) i)) + g t (f t) = (\<Sum>i<n. g i (f i)) + g t x"
proof -
  have t: "t \<in> {..<n}" using assms by simp
  have "(\<Sum>i<n. g i ((f(t := x)) i)) = g t x + (\<Sum>i\<in>{..<n} - {t}. g i (f i))"
    using sum.remove [OF finite_lessThan t, of "\<lambda>i. g i ((f(t := x)) i)"] by simp
  moreover have "(\<Sum>i<n. g i (f i)) = g t (f t) + (\<Sum>i\<in>{..<n} - {t}. g i (f i))"
    using sum.remove [OF finite_lessThan t, of "\<lambda>i. g i (f i)"] by simp
  ultimately show ?thesis by (simp add: ac_simps)
qed

lemma flow_upd_ss:
  "i < next_ss w \<Longrightarrow> flow (upd_ss i f w) + contrib i (states w i) = flow w + contrib i (f (states w i))"
  using sum_upd_idx [of i "next_ss w" contrib "states w" "f (states w i)"]
  by (simp add: flow_def upd_ss_def add.assoc)

lemma flow_submit [simp]: "flow (Executor_Submit t w) = add_mset (task_item t) (flow w)"
  by (simp add: flow_def Executor_Submit_def)

lemma flow_take:
  assumes "k < length (ftasks w)"
  shows "flow w = add_mset (task_item (ftasks w ! k)) (flow (take_task k w))"
proof -
  have "mset (ftasks w) = add_mset (ftasks w ! k) (mset (List.take k (ftasks w) @ drop (Suc k) (ftasks w)))"
    using id_take_nth_drop [OF assms] by (metis mset.simps(2) mset_append union_mset_add_mset_right)
  then have "image_mset task_item (mset (ftasks w)) = add_mset (task_item (ftasks w ! k))
      (image_mset task_item (mset (List.take k (ftasks w) @ drop (Suc k) (ftasks w))))" by simp
  then show ?thesis by (simp add: flow_def take_task_def)
qed

lemma flow_Contract [simp]: "flow (snd (Contract w)) = flow w"
  by (simp add: flow_def Contract_def sstate_init_def contrib_def)

lemma Contract_fst [simp]: "fst (Contract w) = next_ss w"
  by (simp add: Contract_def)

lemma ok_upd:
  assumes ok: "fut_ok ex R (H + K) w" and i: "i < next_ss w"
    and fl: "contrib i (f (states w i)) + mset (map task_item ts) = contrib i (states w i) + F"
    and F: "image_mset item_target F = K" "\<And>x. x \<in># F \<Longrightarrow> item_ok ex (next_ss w) x"
    and st: "st_ok (fs_state (f (states w i))) (fs_callback (f (states w i))) (fs_result (f (states w i)))"
    and r: "\<And>r. fs_result (f (states w i)) = Has r \<Longrightarrow> eval (ex i) = Some r"
    and ts: "\<And>t. t \<in> set ts \<Longrightarrow> task_ok ex t"
  defines "w' \<equiv> w\<lparr>states := (states w)(i := f (states w i)), ftasks := ftasks w @ ts\<rparr>"
  shows "fut_ok ex R H w' \<and> flow w' = flow w + F"
proof -
  note D = fut_okD [OF ok]
  have sums: "(\<Sum>j<next_ss w. contrib j (((states w)(i := f (states w i))) j)) + contrib i (states w i)
      = (\<Sum>j<next_ss w. contrib j (states w j)) + contrib i (f (states w i))"
    by (rule sum_upd_idx [OF i])
  have "flow w' + contrib i (states w i) = flow w + mset (map task_item ts) + contrib i (f (states w i))"
    unfolding flow_def w'_def using sums by (simp add: ac_simps)
  also have "\<dots> = flow w + F + contrib i (states w i)" using fl by (metis add.assoc add.commute)
  finally have flow: "flow w' = flow w + F" by simp
  have n: "next_ss w' = next_ss w" by (simp add: w'_def)
  have "fut_ok ex R H w'"
  proof (rule fut_okI)
    show "image_mset item_target (flow w') + H = mset_set {..<next_ss w'}"
      using D(6) F(1) by (simp add: flow n ac_simps)
    show "item_ok ex (next_ss w') x" if "x \<in># flow w'" for x
      using that D(5) F(2) unfolding flow n by auto
    show "st_ok (fs_state (states w' j)) (fs_callback (states w' j)) (fs_result (states w' j))" if "j < next_ss w'" for j
      using that D(2) st by (cases "j = i") (simp_all add: w'_def)
    show "eval (ex j) = Some q" if "j < next_ss w'" "fs_result (states w' j) = Has q" for j q
      using that D(3) r by (cases "j = i") (simp_all add: w'_def)
  qed (use D(1,4,7) ts in \<open>auto simp: w'_def\<close>)
  with flow show ?thesis by simp
qed

text \<open>The shared state of a held promise has no result yet.\<close>

lemma target_bound: "fut_ok ex R H w \<Longrightarrow> x \<in># flow w \<Longrightarrow> item_target x < next_ss w"
proof -
  assume ok: "fut_ok ex R H w" and x: "x \<in># flow w"
  from x have "item_target x \<in># image_mset item_target (flow w) + H" by simp
  then show "item_target x < next_ss w" unfolding fut_okD(6) [OF ok] by simp
qed

lemma contrib_flow: "i < next_ss w \<Longrightarrow> x \<in># contrib i (states w i) \<Longrightarrow> x \<in># flow w"
  by (auto simp: flow_def set_mset_sum)

lemma held_promise:
  assumes "fut_ok ex R (H + {#p#}) w"
  shows "p < next_ss w" and "fs_result (states w p) = Empty"
proof -
  note B = fut_okD(6) [OF assms]
  have cnt: "count (mset_set {..<next_ss w}) q \<le> 1" for q by (simp add: count_mset_set')
  have "p \<in># mset_set {..<next_ss w}" using B by (metis union_iff union_single_eq_member)
  then show p: "p < next_ss w" by simp
  show "fs_result (states w p) = Empty"
  proof (rule ccontr)
    assume "fs_result (states w p) \<noteq> Empty"
    then have "IDone p \<in># flow w" using p by (intro contrib_flow [OF p]) (simp add: contrib_def)
    then have "p \<in># image_mset item_target (flow w)" by force
    then obtain M where M: "image_mset item_target (flow w) = add_mset p M" by (meson multi_member_split)
    have "2 \<le> count (mset_set {..<next_ss w}) p" unfolding B [symmetric] M by simp
    with cnt [of p] show False by simp
  qed
qed

subsection \<open>Each operation keeps the invariant\<close>

definition fut_keeps :: "(nat \<Rightarrow> fexpr) \<Rightarrow> bool \<Rightarrow> nat multiset \<Rightarrow> fworld \<Rightarrow> item multiset \<Rightarrow> fworld \<Rightarrow> bool" where
  "fut_keeps ex R H w F w' \<longleftrightarrow> fut_ok ex R H w' \<and> flow w' = flow w + F \<and> frame w w' \<and> next_ss w' = next_ss w"

lemma SetResult_idle:
  "fs_state (states w p) \<noteq> CallbackSet \<Longrightarrow>
   SetResult p r w = w\<lparr>states := (states w)(p := (states w p)\<lparr>fs_result := Has r, fs_state := ResultSet\<rparr>), ftasks := ftasks w @ []\<rparr>"
  by (simp add: SetResult_def upd_ss_def)

lemma SetResult_subscribed:
  "fs_state (states w p) = CallbackSet \<Longrightarrow> fs_callback (states w p) = Has c \<Longrightarrow>
   SetResult p r w = w\<lparr>states := (states w)(p := (states w p)\<lparr>fs_state := ResultSet, fs_result := Moved, fs_callback := Moved\<rparr>),
     ftasks := ftasks w @ [RunCb (fs_exec (states w p)) p (Has c) (Has r)]\<rparr>"
  by (simp add: SetResult_def SubmitCallback_def upd_ss_def Executor_Submit_def moved_def)

lemma ok_SetResult:
  assumes ok: "fut_ok ex R (H + {#p#}) w" and r: "eval (ex p) = Some r"
  shows "fut_keeps ex R H w {#IDone p#} (SetResult p r w)"
proof -
  note p = held_promise [OF ok]
  have st: "st_ok (fs_state (states w p)) (fs_callback (states w p)) Empty" using fut_okD(2) [OF ok p(1)] p(2) by simp
  show ?thesis
  proof (cases "fs_state (states w p)")
    case Initial
    with st have c: "fs_callback (states w p) = Empty" by simp
    show ?thesis unfolding fut_keeps_def SetResult_idle [OF State.distinct(1) [folded Initial]]
      by (intro conjI ok_upd [OF ok p(1), where F = "{#IDone p#}" and f = "\<lambda>s. s\<lparr>fs_result := Has r, fs_state := ResultSet\<rparr>",
            THEN conjunct1] ok_upd [OF ok p(1), where F = "{#IDone p#}" and f = "\<lambda>s. s\<lparr>fs_result := Has r, fs_state := ResultSet\<rparr>",
            THEN conjunct2])
        (simp_all add: contrib_def c p(2) r frame_def)
  next
    case CallbackSet
    with st obtain c where c: "fs_callback (states w p) = Has c" by (cases "fs_callback (states w p)") auto
    show ?thesis unfolding fut_keeps_def SetResult_subscribed [OF CallbackSet c]
      by (intro conjI ok_upd [OF ok p(1), where F = "{#IDone p#}" and f = "\<lambda>s. s\<lparr>fs_state := ResultSet, fs_result := Moved, fs_callback := Moved\<rparr>",
            THEN conjunct1] ok_upd [OF ok p(1), where F = "{#IDone p#}" and f = "\<lambda>s. s\<lparr>fs_state := ResultSet, fs_result := Moved, fs_callback := Moved\<rparr>",
            THEN conjunct2])
        (simp_all add: contrib_def c p(2) r frame_def)
  qed (use st in simp_all)
qed

lemma SetCallback_idle:
  "fs_state (states w i) \<noteq> ResultSet \<Longrightarrow>
   SetCallback i c w = w\<lparr>states := (states w)(i := (states w i)\<lparr>fs_callback := Has c, fs_state := CallbackSet\<rparr>), ftasks := ftasks w @ []\<rparr>"
  by (simp add: SetCallback_def upd_ss_def)

lemma SetCallback_ready:
  "fs_state (states w i) = ResultSet \<Longrightarrow> fs_result (states w i) = Has r \<Longrightarrow>
   SetCallback i c w = w\<lparr>states := (states w)(i := (states w i)\<lparr>fs_state := CallbackSet, fs_result := Moved, fs_callback := Moved\<rparr>),
     ftasks := ftasks w @ [RunCb (fs_exec (states w i)) i (Has c) (Has r)]\<rparr>"
  by (simp add: SetCallback_def SubmitCallback_def upd_ss_def Executor_Submit_def moved_def)

lemma frame_upd:
  "frame w (w\<lparr>states := (states w)(i := s), ftasks := ts\<rparr>)"
  if "fs_exec s = fs_exec (states w i)" "fs_callback (states w i) = Empty \<longrightarrow> i < next_ss w \<longrightarrow> fs_callback s = Empty"
  using that by (simp add: frame_def)

text \<open>Subscribing is the owner's operation: it changes the callback, so there is no frame here.\<close>

definition frame_but :: "nat \<Rightarrow> fworld \<Rightarrow> fworld \<Rightarrow> bool" where
  "frame_but j w w' \<longleftrightarrow> next_ss w \<le> next_ss w' \<and> (\<forall>i<next_ss w. fs_exec (states w' i) = fs_exec (states w i) \<and>
     (i \<noteq> j \<longrightarrow> fs_callback (states w i) = Empty \<longrightarrow> fs_callback (states w' i) = Empty))"

lemma ok_SetCallback:
  assumes ok: "fut_ok ex R (H + {#cb_target c#}) w" and i: "i < next_ss w" "fs_callback (states w i) = Empty"
    and c: "cb_ok ex i c"
  shows "fut_ok ex R H (SetCallback i c w) \<and> flow (SetCallback i c w) = flow w + {#ICb i c#} \<and>
    frame_but i w (SetCallback i c w) \<and> next_ss (SetCallback i c w) = next_ss w"
proof -
  have st: "st_ok (fs_state (states w i)) Empty (fs_result (states w i))" using fut_okD(2) [OF ok i(1)] i(2) by simp
  show ?thesis
  proof (cases "fs_state (states w i)")
    case Initial
    with st have r: "fs_result (states w i) = Empty" by simp
    have ne: "fs_state (states w i) \<noteq> ResultSet" using Initial by simp
    show ?thesis unfolding SetCallback_idle [OF ne]
      by (intro conjI ok_upd [OF ok i(1), where F = "{#ICb i c#}" and f = "\<lambda>s. s\<lparr>fs_callback := Has c, fs_state := CallbackSet\<rparr>",
            THEN conjunct1] ok_upd [OF ok i(1), where F = "{#ICb i c#}" and f = "\<lambda>s. s\<lparr>fs_callback := Has c, fs_state := CallbackSet\<rparr>",
            THEN conjunct2])
        (simp_all add: contrib_def c r i frame_but_def)
  next
    case ResultSet
    with st obtain r where r: "fs_result (states w i) = Has r" by (cases "fs_result (states w i)") auto
    show ?thesis unfolding SetCallback_ready [OF ResultSet r]
      by (intro conjI ok_upd [OF ok i(1), where F = "{#ICb i c#}" and f = "\<lambda>s. s\<lparr>fs_state := CallbackSet, fs_result := Moved, fs_callback := Moved\<rparr>",
            THEN conjunct1] ok_upd [OF ok i(1), where F = "{#ICb i c#}" and f = "\<lambda>s. s\<lparr>fs_state := CallbackSet, fs_result := Moved, fs_callback := Moved\<rparr>",
            THEN conjunct2])
        (simp_all add: contrib_def c r i frame_but_def fut_okD(3) [OF ok i(1) r])
  qed (use st in simp_all)
qed

lemma ok_SetExecutor:
  assumes ok: "fut_ok ex R H w" and i: "i < next_ss w"
  shows "fut_ok ex R H (SetExecutor i x w) \<and> flow (SetExecutor i x w) = flow w \<and> next_ss (SetExecutor i x w) = next_ss w"
proof -
  have ok': "fut_ok ex R (H + {#}) w" using ok by simp
  have eq: "SetExecutor i x w = w\<lparr>states := (states w)(i := (states w i)\<lparr>fs_exec := x\<rparr>), ftasks := ftasks w @ []\<rparr>"
    by (simp add: SetExecutor_def upd_ss_def)
  show ?thesis unfolding eq
    using ok_upd [OF ok' i, where F = "{#}" and f = "\<lambda>s. s\<lparr>fs_exec := x\<rparr>" and ts = "[]"]
      fut_okD(2,3) [OF ok i] by (simp add: contrib_def)
qed

lemma ok_Submit_task:
  assumes ok: "fut_ok ex R (H + {#p#}) w" and r: "eval (ex p) = Some r"
  shows "fut_keeps ex R H w {#IFun p r#} (Executor_Submit (RunFun exe p r) w)"
proof -
  note p = held_promise [OF ok]
  have eq: "Executor_Submit (RunFun exe p r) w = w\<lparr>states := (states w)(p := states w p), ftasks := ftasks w @ [RunFun exe p r]\<rparr>"
    by (simp add: Executor_Submit_def)
  show ?thesis unfolding fut_keeps_def eq
    using ok_upd [OF ok p(1), where F = "{#IFun p r#}" and f = "\<lambda>s. s" and ts = "[RunFun exe p r]"]
      fut_okD(2,3) [OF ok p(1)] r by (simp add: frame_def)
qed

text \<open>A new contract extends the assignment of expressions.\<close>

lemma cb_ok_upd:
  "cb_ok ex i c \<Longrightarrow> i < n \<Longrightarrow> cb_target c < n \<Longrightarrow> cb_ok (ex(n := e)) i c"
  by (cases c) auto

lemma item_ok_upd:
  "item_ok ex n x \<Longrightarrow> item_target x < n \<Longrightarrow> item_ok (ex(n := e)) (Suc n) x"
  by (cases x) (auto intro: cb_ok_upd)

lemma weight_upd: "item_ok ex n x \<Longrightarrow> item_target x < n \<Longrightarrow> weight (ex(n := e)) x = weight ex x"
proof (cases x)
  case (ICb i c)
  then show "item_ok ex n x \<Longrightarrow> weight (ex(n := e)) x = weight ex x" by (cases c) auto
qed auto

lemma task_ok_upd:
  "task_ok ex t \<Longrightarrow> item_ok ex n (task_item t) \<Longrightarrow> task_ok (ex(n := e)) t"
  by (cases "(ex, t)" rule: task_ok.cases) auto

lemma work_upd: "fut_ok ex R H w \<Longrightarrow> work (ex(next_ss w := e)) w = work ex w"
  unfolding work_def
  by (rule arg_cong [where f = sum_mset], rule image_mset_cong) (metis weight_upd fut_okD(5) target_bound)

lemma ok_Contract:
  assumes ok: "fut_ok ex R H w" and e: "eval e = None \<Longrightarrow> R"
  shows "fut_ok (ex(next_ss w := e)) R (H + {#next_ss w#}) (snd (Contract w))"
proof (rule fut_okI)
  let ?n = "next_ss w" and ?w = "snd (Contract w)" and ?ex = "ex(next_ss w := e)"
  note D = fut_okD [OF ok]
  have n: "next_ss ?w = Suc ?n" "ftasks ?w = ftasks w" "crashed ?w = crashed w"
    "states ?w = (states w)(?n := sstate_init)" by (simp_all add: Contract_def)
  show "\<not> crashed ?w" using D(1) n by simp
  show "st_ok (fs_state (states ?w i)) (fs_callback (states ?w i)) (fs_result (states ?w i))" if "i < next_ss ?w" for i
    using that D(2) unfolding n by (cases "i = ?n") (auto simp: sstate_init_def)
  show "eval (?ex i) = Some r" if "i < next_ss ?w" "fs_result (states ?w i) = Has r" for i r
    using that D(3) unfolding n by (cases "i = ?n") (auto simp: sstate_init_def)
  show "task_ok ?ex t" if "t \<in> set (ftasks ?w)" for t
  proof -
    have t: "t \<in> set (ftasks w)" using that n by simp
    then have "task_item t \<in># flow w" by (simp add: flow_def)
    with D(4,5) t show ?thesis by (blast intro: task_ok_upd)
  qed
  show "item_ok ?ex (next_ss ?w) x" if "x \<in># flow ?w" for x
    using that D(5) target_bound [OF ok] unfolding n flow_Contract by (blast intro: item_ok_upd)
  have "mset_set {..<Suc ?n} = add_mset ?n (mset_set {..<?n})" by (simp add: lessThan_Suc)
  then show "image_mset item_target (flow ?w) + (H + {#?n#}) = mset_set {..<next_ss ?w}"
    using D(6) unfolding n flow_Contract by simp
  show "R" if "i < next_ss ?w" "eval (?ex i) = None" for i
    using that D(7) [of i] e unfolding n by (cases "i = ?n") (auto simp: less_Suc_eq)
qed

lemma crashed_ops [simp]:
  "crashed (snd (Contract w)) = crashed w" "crashed (SetResult p r w) = crashed w" "crashed (SetCallback i c w) = crashed w"
  "crashed (SetExecutor i x w) = crashed w" "crashed (Executor_Submit t w) = crashed w"
  by (simp_all add: Contract_def SetResult_def SetCallback_def SetExecutor_def Executor_Submit_def upd_ss_def
      SubmitCallback_def Let_def)

lemma next_ops [simp]:
  "next_ss (snd (Contract w)) = Suc (next_ss w)" "next_ss (SetExecutor i x w) = next_ss w"
  by (simp_all add: Contract_def SetExecutor_def upd_ss_def)

lemma frame_refl: "frame w w"
  by (simp add: frame_def)

lemma frame_trans: "frame w w1 \<Longrightarrow> frame w1 w2 \<Longrightarrow> frame w w2"
  by (auto simp: frame_def)

lemma frame_trans_but: "frame w w1 \<Longrightarrow> frame_but i w1 w2 \<Longrightarrow> next_ss w \<le> i \<Longrightarrow> frame w w2"
  by (auto simp: frame_def frame_but_def)

lemma frame_but_trans: "frame_but i w w1 \<Longrightarrow> frame w1 w2 \<Longrightarrow> frame_but i w w2"
  by (auto simp: frame_def frame_but_def)

lemma frame_imp_but: "frame w w1 \<Longrightarrow> frame_but i w w1"
  by (auto simp: frame_def frame_but_def)

lemma frame_Contract: "frame w (snd (Contract w))"
  by (simp add: frame_def Contract_def)

lemma frame_SetExecutor: "frame w w1 \<Longrightarrow> next_ss w \<le> i \<Longrightarrow> frame w (SetExecutor i x w1)"
  by (simp add: frame_def SetExecutor_def upd_ss_def)

lemma frame_but_SetExecutor: "frame_but j w w1 \<Longrightarrow> next_ss w \<le> i \<Longrightarrow> frame_but j w (SetExecutor i x w1)"
  by (simp add: frame_but_def SetExecutor_def upd_ss_def)

lemma work_flow: "flow w' = flow w + F \<Longrightarrow> work ex w' = work ex w + (\<Sum>x\<in>#F. weight ex x)"
  by (simp add: work_def)

text \<open>What a piece of code that runs concurrently may do to a world.\<close>

definition agree :: "fworld \<Rightarrow> (nat \<Rightarrow> fexpr) \<Rightarrow> (nat \<Rightarrow> fexpr) \<Rightarrow> bool" where
  "agree w ex ex' \<longleftrightarrow> (\<forall>i<next_ss w. ex' i = ex i)"

definition env_ok :: "(nat \<Rightarrow> fworld \<Rightarrow> fworld) \<Rightarrow> bool" where
  "env_ok env \<longleftrightarrow> (\<forall>k w. (crashed w \<longrightarrow> crashed (env k w)) \<and>
     (\<forall>ex R H. fut_ok ex R H w \<longrightarrow> crashed (env k w) \<and> R \<or>
        (\<exists>ex'. agree w ex ex' \<and> fut_ok ex' R H (env k w) \<and> frame w (env k w) \<and> work ex' (env k w) \<le> work ex w)))"

lemma env_crashed: "env_ok env \<Longrightarrow> crashed w \<Longrightarrow> crashed (env k w)"
  by (simp add: env_ok_def)

lemma env_okD:
  assumes "env_ok env" and "fut_ok ex R H w"
  obtains (crash) "crashed (env k w)" "R"
    | (ok) ex' where "agree w ex ex'" "fut_ok ex' R H (env k w)" "frame w (env k w)" "work ex' (env k w) \<le> work ex w"
  using assms unfolding env_ok_def by blast

lemma Pipe_crashed: "env_ok env \<Longrightarrow> crashed w \<Longrightarrow> crashed (snd (Pipe env mk i w))"
  by (simp add: Pipe_def Let_def split_beta env_crashed)

lemma Pipe_ok:
  assumes env: "env_ok env" and ok: "fut_ok ex R H w" and i: "i < next_ss w" "fs_callback (states w i) = Empty"
    and e0: "eval e0 = None \<Longrightarrow> R"
    and mk: "cb_target (mk (next_ss w)) = next_ss w"
      "\<And>ex'. ex' (next_ss w) = e0 \<Longrightarrow> ex' i = ex i \<Longrightarrow> cb_ok ex' i (mk (next_ss w))"
      "\<And>ex'. ex' i = ex i \<Longrightarrow> weight ex' (ICb i (mk (next_ss w))) \<le> k"
  defines "p \<equiv> next_ss w" and "w' \<equiv> snd (Pipe env mk i w)"
  shows "fst (Pipe env mk i w) = p \<and> (crashed w' \<and> R \<or>
    (\<exists>ex'. agree w ex ex' \<and> fut_ok ex' R H w' \<and> frame_but i w w' \<and> p < next_ss w' \<and> ex' p = e0 \<and>
       fs_callback (states w' p) = Empty \<and> fs_exec (states w' p) = fs_exec (states w i) \<and> work ex' w' \<le> work ex w + k))"
proof -
  let ?w1 = "snd (Contract w)" and ?ex1 = "ex(p := e0)"
  let ?w2 = "env p ?w1"
  let ?w3 = "SetCallback i (mk p) ?w2"
  let ?w4 = "env p ?w3"
  have w': "w' = SetExecutor p (GetExecutor i ?w4) ?w4" and fst: "fst (Pipe env mk i w) = p"
    by (simp_all add: w'_def Pipe_def Let_def split_beta p_def)
  have ok1: "fut_ok ?ex1 R (H + {#p#}) ?w1" unfolding p_def by (rule ok_Contract [OF ok e0])
  have work1: "work ?ex1 ?w1 = work ex w" unfolding p_def using work_upd [OF ok] by (simp add: work_def)
  have p1: "p < next_ss ?w1" "fs_callback (states ?w1 p) = Empty" by (simp_all add: p_def Contract_def sstate_init_def)
  have i1: "i < next_ss ?w1" "fs_callback (states ?w1 i) = Empty" "i \<noteq> p" "fs_exec (states ?w1 i) = fs_exec (states w i)"
    using i by (simp_all add: p_def Contract_def)
  from env ok1 show ?thesis
  proof (cases rule: env_okD [where k = p])
    case crash
    then show ?thesis unfolding fst w' using env_crashed [OF env] by simp
  next
    case (ok ex2)
    note fr = ok(3) [unfolded frame_def, THEN conjunct2, rule_format]
    have i2: "i < next_ss ?w2" "fs_callback (states ?w2 i) = Empty" "ex2 i = ex i" "ex2 p = e0"
      using ok(1,3) fr [OF i1(1)] i1 p1 by (auto simp: frame_def agree_def)
    have ok2: "fut_ok ex2 R (H + {#cb_target (mk p)#}) ?w2" using ok(2) mk(1) by (simp add: p_def)
    have c: "cb_ok ex2 i (mk p)" using mk(2) i2 unfolding p_def by blast
    note S = ok_SetCallback [OF ok2 i2(1,2) c]
    have work3: "work ex2 ?w3 \<le> work ex w + k"
      using work_flow [of ?w3 ?w2 _ ex2] S ok(4) work1 mk(3) [of ex2] i2(3) by (fastforce simp: p_def)
    from env S [THEN conjunct1] show ?thesis
    proof (cases rule: env_okD [where k = p])
      case crash
      then show ?thesis unfolding fst w' using env_crashed [OF env] by simp
    next
      case ok4: (ok ex4)
      have p4: "p < next_ss ?w4" using p1 ok(3) S ok4(3) by (auto simp: frame_def)
      have "frame_but i w ?w4"
        by (rule frame_but_trans [OF _ ok4(3)]) (use S frame_trans [OF frame_Contract ok(3)] in \<open>auto simp: frame_but_def frame_def\<close>)
      then have f: "frame_but i w w'" unfolding w' by (rule frame_but_SetExecutor) (simp add: p_def)
      have cb: "fs_callback (states ?w4 p) = Empty"
        using p1 fr [OF p1(1)] ok(3) S ok4(3) i1(3) by (auto simp: frame_def frame_but_def)
      have exec: "fs_exec (states ?w4 i) = fs_exec (states w i)"
        using fr [OF i1(1)] i1(4) S i2(1) ok4(3) by (auto simp: frame_def frame_but_def)
      have ag: "agree w ex ex4" "ex4 p = e0"
        using ok(1,3) S ok4(1) i2(4) p1 by (auto simp: agree_def frame_def p_def)
      note E = ok_SetExecutor [OF ok4(2) p4, of "GetExecutor i ?w4"]
      show ?thesis
      proof (intro conjI disjI2 exI [of _ ex4])
        show "fut_ok ex4 R H w'" "p < next_ss w'" unfolding w' using E p4 by simp_all
        show "work ex4 w' \<le> work ex w + k" unfolding w' work_def using E ok4(4) work3 by (simp add: work_def)
        show "fs_callback (states w' p) = Empty" "fs_exec (states w' p) = fs_exec (states w i)"
          unfolding w' using cb exec by (simp_all add: SetExecutor_def upd_ss_def GetExecutor_def)
      qed (use f ag fst in auto)
    qed
  qed
qed

definition built :: "(nat \<Rightarrow> fexpr) \<Rightarrow> bool \<Rightarrow> nat multiset \<Rightarrow> fworld \<Rightarrow> fexpr \<Rightarrow> nat \<times> fworld \<Rightarrow> bool" where
  "built ex R H w e r \<longleftrightarrow> (case r of (i, w') \<Rightarrow> crashed w' \<and> R \<or>
     (\<exists>ex'. agree w ex ex' \<and> fut_ok ex' R H w' \<and> frame w w' \<and> next_ss w \<le> i \<and> i < next_ss w' \<and> ex' i = strip e \<and>
        fs_callback (states w' i) = Empty \<and> fs_exec (states w' i) = exec_of e \<and> work ex' w' \<le> work ex w + cost e))"

lemma build_pipe:
  assumes env: "env_ok env" and IH: "built ex R H w e (i, w1)"
    and e0: "eval e0 = None \<Longrightarrow> R" "strip e0 = e0" "exec_of e0 = exec_of e" "cost e0 = cost e + k"
    and mk: "\<And>p. cb_target (mk p) = p" "\<And>ex' p. ex' p = e0 \<Longrightarrow> ex' i = strip e \<Longrightarrow> cb_ok ex' i (mk p)"
      "\<And>ex' p. ex' i = strip e \<Longrightarrow> weight ex' (ICb i (mk p)) \<le> k"
  shows "built ex R H w e0 (Pipe env mk i w1)"
  using IH [unfolded built_def prod.case]
proof (elim disjE exE conjE)
  assume "crashed w1" "R"
  then show ?thesis using Pipe_crashed [OF env] by (simp add: built_def split_beta)
next
  fix ex1
  assume a: "agree w ex ex1" "fut_ok ex1 R H w1" "frame w w1" "next_ss w \<le> i" "i < next_ss w1" "ex1 i = strip e"
    "fs_callback (states w1 i) = Empty" "fs_exec (states w1 i) = exec_of e" "work ex1 w1 \<le> work ex w + cost e"
  have le: "next_ss w \<le> next_ss w1" using a(3) by (simp add: frame_def)
  let ?p = "next_ss w1" and ?w2 = "snd (Pipe env mk i w1)"
  have P: "fst (Pipe env mk i w1) = ?p \<and> (crashed ?w2 \<and> R \<or>
    (\<exists>ex'. agree w1 ex1 ex' \<and> fut_ok ex' R H ?w2 \<and> frame_but i w1 ?w2 \<and> ?p < next_ss ?w2 \<and> ex' ?p = e0 \<and>
       fs_callback (states ?w2 ?p) = Empty \<and> fs_exec (states ?w2 ?p) = fs_exec (states w1 i) \<and> work ex' ?w2 \<le> work ex1 w1 + k))"
    by (rule Pipe_ok [OF env a(2,5,7)]) (use e0(1) mk a(6) in simp_all)
  from P show ?thesis
  proof (elim conjE disjE exE)
    assume "fst (Pipe env mk i w1) = next_ss w1" "crashed (snd (Pipe env mk i w1))" "R"
    then show ?thesis by (simp add: built_def split_beta)
  next
    fix ex2
    let ?w2 = "snd (Pipe env mk i w1)"
    assume b: "fst (Pipe env mk i w1) = next_ss w1" "agree w1 ex1 ex2" "fut_ok ex2 R H ?w2" "frame_but i w1 ?w2"
      "next_ss w1 < next_ss ?w2" "ex2 (next_ss w1) = e0" "fs_callback (states ?w2 (next_ss w1)) = Empty"
      "fs_exec (states ?w2 (next_ss w1)) = fs_exec (states w1 i)" "work ex2 ?w2 \<le> work ex1 w1 + k"
    have ag: "agree w ex ex2" using a(1) b(2) le by (simp add: agree_def)
    have fr: "frame w ?w2" by (rule frame_trans_but [OF a(3) b(4) a(4)])
    have wk: "work ex2 ?w2 \<le> work ex w + cost e0" using a(9) b(9) e0(4) by linarith
    show ?thesis unfolding built_def split_beta b(1)
      by (intro disjI2 exI [of _ ex2] conjI) (use ag fr wk b le e0 a(8) in simp_all)
  qed
qed

lemma built_root:
  assumes ok: "fut_ok ex R H w" and e: "eval e \<noteq> None" "strip e = e" "exec_of e = Inline"
    and op: "fut_keeps (ex(next_ss w := e)) R H (snd (Contract w)) F w'" and wt: "(\<Sum>x\<in>#F. weight (ex(next_ss w := e)) x) = cost e"
  shows "built ex R H w e (next_ss w, w')"
proof -
  let ?w1 = "snd (Contract w)" and ?ex = "ex(next_ss w := e)"
  have p: "next_ss w < next_ss ?w1" "fs_callback (states ?w1 (next_ss w)) = Empty" "fs_exec (states ?w1 (next_ss w)) = Inline"
    by (simp_all add: Contract_def sstate_init_def)
  have fr: "frame ?w1 w'" "next_ss w' = Suc (next_ss w)" using op by (simp_all add: fut_keeps_def)
  have "work ?ex w' = work ?ex ?w1 + cost e"
    using op wt work_flow [of w' ?w1 F ?ex] by (simp add: fut_keeps_def)
  then have wk: "work ?ex w' = work ex w + cost e" using work_upd [OF ok, of e] by (simp add: work_def)
  have pw: "fs_callback (states w' (next_ss w)) = Empty" "fs_exec (states w' (next_ss w)) = Inline"
    using fr(1) p by (auto simp: frame_def)
  show ?thesis unfolding built_def prod.case
    by (intro disjI2 exI [of _ ?ex] conjI)
      (use op fr wk pw e frame_trans [OF frame_Contract fr(1)] in \<open>simp_all add: fut_keeps_def agree_def\<close>)
qed

lemma built_via:
  assumes "built ex R H w e (i, w1)"
  shows "built ex R H w (FVia e x) (i, SetExecutor i x w1)"
  unfolding built_def prod.case using assms [unfolded built_def prod.case]
proof (elim disjE exE conjE)
  fix ex1
  assume a: "agree w ex ex1" "fut_ok ex1 R H w1" "frame w w1" "next_ss w \<le> i" "i < next_ss w1" "ex1 i = strip e"
    "fs_callback (states w1 i) = Empty" "fs_exec (states w1 i) = exec_of e" "work ex1 w1 \<le> work ex w + cost e"
  note E = ok_SetExecutor [OF a(2,5), of x]
  have "fs_callback (states (SetExecutor i x w1) i) = Empty" "fs_exec (states (SetExecutor i x w1) i) = x"
    using a(7) by (simp_all add: SetExecutor_def upd_ss_def)
  moreover have "work ex1 (SetExecutor i x w1) = work ex1 w1" using E by (simp add: work_def)
  ultimately show "crashed (SetExecutor i x w1) \<and> R \<or>
    (\<exists>ex'. agree w ex ex' \<and> fut_ok ex' R H (SetExecutor i x w1) \<and> frame w (SetExecutor i x w1) \<and>
        next_ss w \<le> i \<and> i < next_ss (SetExecutor i x w1) \<and> ex' i = strip (FVia e x) \<and>
        fs_callback (states (SetExecutor i x w1) i) = Empty \<and>
        fs_exec (states (SetExecutor i x w1) i) = exec_of (FVia e x) \<and>
        work ex' (SetExecutor i x w1) \<le> work ex w + cost (FVia e x))"
    by (intro disjI2 exI [of _ ex1] conjI) (use a E frame_SetExecutor [OF a(3,4)] in simp_all)
qed simp

lemma build_ok:
  assumes env: "env_ok env" and "fut_ok ex R H w" and "eval e = None \<Longrightarrow> R"
  shows "built ex R H w e (build env e w)"
  using assms(2,3)
proof (induction e arbitrary: ex H w)
  case (FValue v)
  have 1: "fut_ok (ex(next_ss w := FValue v)) R (H + {#next_ss w#}) (snd (Contract w))"
    by (rule ok_Contract [OF FValue.prems])
  from ok_SetResult [OF this, of "Inr v"] show ?case
    by (auto simp: Value_def split_beta Promise_SetValue_def Ok_def intro!: built_root [OF FValue.prems(1)])
next
  case (FFailure x)
  have 1: "fut_ok (ex(next_ss w := FFailure x)) R (H + {#next_ss w#}) (snd (Contract w))"
    by (rule ok_Contract [OF FFailure.prems])
  from ok_SetResult [OF this, of "Inl x"] show ?case
    by (auto simp: Failure_def split_beta Promise_SetError_def Err_def intro!: built_root [OF FFailure.prems(1)])
next
  case (FSubmit exe r)
  have 1: "fut_ok (ex(next_ss w := FSubmit exe r)) R (H + {#next_ss w#}) (snd (Contract w))"
    by (rule ok_Contract [OF FSubmit.prems])
  from ok_Submit_task [OF this, of r exe] show ?case
    by (auto simp: Submit_def split_beta intro!: built_root [OF FSubmit.prems(1)])
next
  case (FMap e f)
  have IH: "built ex R H w e (build env e w)" by (rule FMap.IH [OF FMap.prems(1)]) (use FMap.prems(2) in auto)
  show ?case unfolding build.simps Pipe_defs split_beta Let_def
    by (rule build_pipe [OF env, where k = 1]) (use IH FMap.prems(2) in auto)
next
  case (FAndThen e f)
  have IH: "built ex R H w e (build env e w)" by (rule FAndThen.IH [OF FAndThen.prems(1)]) (use FAndThen.prems(2) in auto)
  show ?case unfolding build.simps Pipe_defs split_beta Let_def
    by (rule build_pipe [OF env, where k = 1]) (use IH FAndThen.prems(2) in auto)
next
  case (FOrElse e f)
  have IH: "built ex R H w e (build env e w)" by (rule FOrElse.IH [OF FOrElse.prems(1)]) (use FOrElse.prems(2) in auto)
  show ?case unfolding build.simps Pipe_defs split_beta Let_def
    by (rule build_pipe [OF env, where k = 1]) (use IH FOrElse.prems(2) in auto)
next
  case (FFlatMap e f)
  have IH: "built ex R H w e (build env e w)" by (rule FFlatMap.IH(1) [OF FFlatMap.prems(1)]) (use FFlatMap.prems(2) in auto)
  show ?case unfolding build.simps Pipe_defs split_beta Let_def
    by (rule build_pipe [OF env, where k = "Suc (case eval e of Some (Inr v) \<Rightarrow> Suc (cost (f v)) | _ \<Rightarrow> 0)"])
      (use IH FFlatMap.prems(2) in auto)
next
  case (FVia e x)
  have IH: "built ex R H w e (build env e w)" by (rule FVia.IH [OF FVia.prems(1)]) (use FVia.prems(2) in auto)
  show ?case unfolding build.simps Pipe_defs split_beta Let_def by (rule built_via) (use IH in simp)
qed

subsection \<open>Running tasks\<close>

definition ran :: "(nat \<Rightarrow> fexpr) \<Rightarrow> bool \<Rightarrow> nat multiset \<Rightarrow> fworld \<Rightarrow> fworld \<Rightarrow> nat \<Rightarrow> bool" where
  "ran ex R H w w' k \<longleftrightarrow> crashed w' \<and> R \<or>
     (\<exists>ex'. agree w ex ex' \<and> fut_ok ex' R H w' \<and> frame w w' \<and> work ex' w' < k)"

lemma ran_SetResult:
  assumes "fut_ok ex R (H + {#p#}) w" and "eval (ex p) = Some r"
  shows "ran ex R H w (SetResult p r w) (work ex w + 1)"
proof -
  note S = ok_SetResult [OF assms, unfolded fut_keeps_def]
  have "work ex (SetResult p r w) = work ex w" using S work_flow [of "SetResult p r w" w _ ex] by simp
  then show ?thesis unfolding ran_def using S by (intro disjI2 exI [of _ ex]) (simp add: agree_def)
qed

lemma env_ok_id: "env_ok (\<lambda>_ w. w)"
  by (auto simp: env_ok_def agree_def frame_refl)

lemma ran_flat_map:
  assumes ok: "fut_ok ex R (H + {#p#}) w" and ex: "ex p = FFlatMap e f" "eval e = Some (Inr v)"
  shows "ran ex R H w (let (j, w) = build (\<lambda>_ w. w) (f v) w in SetCallback j (CbFlatInner p) w) (work ex w + Suc (Suc (cost (f v))))"
proof -
  obtain j w1 where b: "build (\<lambda>_ w. w) (f v) w = (j, w1)" by fastforce
  have p: "p < next_ss w" by (rule held_promise(1) [OF ok])
  have "eval (ex p) = None" if "eval (f v) = None" using ex that by (simp add: inner_def)
  then have "built ex R (H + {#p#}) w (f v) (build (\<lambda>_ w. w) (f v) w)"
    by (intro build_ok [OF env_ok_id ok] fut_okD(7) [OF ok p])
  then have B: "built ex R (H + {#p#}) w (f v) (j, w1)" by (simp only: b)
  from B [unfolded built_def prod.case] show ?thesis
  proof (elim disjE exE conjE)
    assume "crashed w1" "R"
    then show ?thesis by (simp add: ran_def b)
  next
    fix ex1
    assume a: "agree w ex ex1" "fut_ok ex1 R (H + {#p#}) w1" "frame w w1" "next_ss w \<le> j" "j < next_ss w1" "ex1 j = strip (f v)"
      "fs_callback (states w1 j) = Empty" "work ex1 w1 \<le> work ex w + cost (f v)"
    have "ex1 p = FFlatMap e f" using a(1) p ex(1) by (simp add: agree_def)
    with a(6) ex(2) have c: "cb_ok ex1 j (CbFlatInner p)" by auto
    have "fut_ok ex1 R (H + {#cb_target (CbFlatInner p)#}) w1" using a(2) by simp
    note S = ok_SetCallback [OF this a(5,7) c]
    have "work ex1 (SetCallback j (CbFlatInner p) w1) = work ex1 w1 + 1"
      using S work_flow [of "SetCallback j (CbFlatInner p) w1" w1 _ ex1] by simp
    then show ?thesis unfolding ran_def b Let_def prod.case
      using S a(1,8) frame_trans_but [OF a(3) _ a(4)] by (intro disjI2 exI [of _ ex1]) auto
  qed
qed

lemma run_cb_ok:
  assumes ok: "fut_ok ex R (H + {#cb_target c#}) w" and c: "cb_ok ex i c" and r: "eval (ex i) = Some r"
  shows "ran ex R H w (run_cb c r w) (work ex w + weight ex (ICb i c))"
proof (cases c)
  case (CbMap f p)
  then obtain e where e: "ex p = FMap e f" "eval e = Some r" using c r by (metis cb_ok.simps(1) eval_strip)
  have ok': "fut_ok ex R (H + {#p#}) w" using ok CbMap by simp
  show ?thesis using ran_SetResult [OF ok', of "map_sum id f r"] e CbMap
    by (cases r) (simp_all add: cb_defs Promise_SetValue_def Promise_SetError_def Ok_def Err_def)
next
  case (CbAndThen f p)
  then obtain e where e: "ex p = FAndThen e f" "eval e = Some r" using c r by (metis cb_ok.simps(2) eval_strip)
  have ok': "fut_ok ex R (H + {#p#}) w" using ok CbAndThen by simp
  show ?thesis using ran_SetResult [OF ok', of "case r of Inr v \<Rightarrow> f v | Inl x \<Rightarrow> Inl x"] e CbAndThen
    by (cases r) (simp_all add: cb_defs)
next
  case (CbOrElse f p)
  then obtain e where e: "ex p = FOrElse e f" "eval e = Some r" using c r by (metis cb_ok.simps(3) eval_strip)
  have ok': "fut_ok ex R (H + {#p#}) w" using ok CbOrElse by simp
  show ?thesis using ran_SetResult [OF ok', of "case r of Inl x \<Rightarrow> f x | Inr v \<Rightarrow> Inr v"] e CbOrElse
    by (cases r) (simp_all add: cb_defs)
next
  case (CbFlatMap f p)
  then obtain e where e: "ex p = FFlatMap e f" "eval e = Some r" using c r by (metis cb_ok.simps(4) eval_strip)
  have ok': "fut_ok ex R (H + {#p#}) w" using ok CbFlatMap by simp
  show ?thesis
  proof (cases r)
    case (Inl x)
    then show ?thesis using ran_SetResult [OF ok', of "Inl x"] e CbFlatMap r
      by (simp add: cb_defs Promise_SetError_def Err_def)
  next
    case (Inr v)
    then show ?thesis using ran_flat_map [OF ok' e(1), of v] e(2) CbFlatMap r by (simp add: cb_defs)
  qed
next
  case (CbFlatInner p)
  then obtain e f v where e: "ex p = FFlatMap e f" "eval e = Some (Inr v)" "eval (f v) = Some r"
    using c r by (metis cb_ok.simps(5) eval_strip)
  have ok': "fut_ok ex R (H + {#p#}) w" using ok CbFlatInner by simp
  show ?thesis
  proof (cases r)
    case (Inl x)
    have "eval (ex p) = None" using e Inl by (simp add: inner_def)
    then have "R" using fut_okD(7) [OF ok' held_promise(1) [OF ok']] by blast
    then show ?thesis using CbFlatInner Inl by (simp add: ran_def Inner_cb_def throw_def)
  next
    case (Inr u)
    then show ?thesis using ran_SetResult [OF ok', of "Inr u"] e CbFlatInner
      by (simp add: Inner_cb_def inner_def Ok_def)
  qed
qed (use c in simp_all)

lemma take_ok:
  assumes ok: "fut_ok ex R H w" and k: "k < length (ftasks w)"
  shows "fut_ok ex R (H + {#item_target (task_item (ftasks w ! k))#}) (take_task k w)"
proof (rule fut_okI)
  note D = fut_okD [OF ok] and f = flow_take [OF k]
  show "task_ok ex t" if "t \<in> set (ftasks (take_task k w))" for t
    using that D(4) by (auto simp: take_task_def dest: in_set_takeD in_set_dropD)
  show "item_ok ex (next_ss (take_task k w)) x" if "x \<in># flow (take_task k w)" for x
    using that D(5) f by (simp add: take_task_def)
  show "image_mset item_target (flow (take_task k w)) + (H + {#item_target (task_item (ftasks w ! k))#}) =
      mset_set {..<next_ss (take_task k w)}"
    using D(6) f by (simp add: take_task_def)
qed (use fut_okD [OF ok] in \<open>auto simp: take_task_def\<close>)

lemma ran_take:
  "ran ex R H (take_task k w) w' n \<Longrightarrow> ran ex R H w w' n"
  by (auto simp: ran_def agree_def frame_def take_task_def)

lemma step_ok:
  assumes ok: "fut_ok ex R H w" and st: "fut_step k w = Some w'"
  shows "ran ex R H w w' (work ex w)"
proof -
  have k: "k < length (ftasks w)" and w': "w' = run_task (ftasks w ! k) (take_task k w)"
    using st by (auto simp: fut_step_def split: if_splits)
  let ?t = "ftasks w ! k"
  have wk: "work ex w = work ex (take_task k w) + weight ex (task_item ?t)"
    using flow_take [OF k] by (simp add: work_def)
  have tok: "task_ok ex ?t" "item_ok ex (next_ss w) (task_item ?t)"
    using fut_okD(4,5) [OF ok] k flow_take [OF k] by auto
  note T = take_ok [OF ok k]
  show ?thesis unfolding w'
  proof (rule ran_take, cases ?t)
    case (RunFun exe p r)
    then show "ran ex R H (take_task k w) (run_task ?t (take_task k w)) (work ex w)"
      using ran_SetResult [of ex R H p "take_task k w" r] T tok wk by simp
  next
    case (RunCb exe i c r)
    with tok(1) obtain c' r' where cr: "c = Has c'" "r = Has r'" "eval (ex i) = Some r'"
      by (cases c; cases r) auto
    then show "ran ex R H (take_task k w) (run_task ?t (take_task k w)) (work ex w)"
      using run_cb_ok [of ex R H c' "take_task k w" i r'] T tok wk RunCb by simp
  qed
qed

lemma fut_step_crashed: "crashed w \<Longrightarrow> run fut_step ks w = w"
  by (induction ks) (simp_all add: stutter_def fut_step_def)

definition ran_le :: "(nat \<Rightarrow> fexpr) \<Rightarrow> bool \<Rightarrow> nat multiset \<Rightarrow> fworld \<Rightarrow> fworld \<Rightarrow> bool" where
  "ran_le ex R H w w' \<longleftrightarrow> crashed w' \<and> R \<or>
     (\<exists>ex'. agree w ex ex' \<and> fut_ok ex' R H w' \<and> frame w w' \<and> work ex' w' \<le> work ex w)"

lemma run_ok: "fut_ok ex R H w \<Longrightarrow> ran_le ex R H w (run fut_step ks w)"
proof (induction ks arbitrary: ex w)
  case Nil
  then show ?case by (auto simp: ran_le_def agree_def frame_refl)
next
  case (Cons k ks)
  show ?case
  proof (cases "fut_step k w")
    case None
    then show ?thesis using Cons by simp
  next
    case (Some w1)
    from step_ok [OF Cons.prems Some] show ?thesis unfolding ran_def
    proof (elim disjE exE conjE)
      assume "crashed w1" "R"
      then show ?thesis using Some by (simp add: ran_le_def fut_step_crashed)
    next
      fix ex1
      assume a: "agree w ex ex1" "fut_ok ex1 R H w1" "frame w w1" "work ex1 w1 < work ex w"
      have le: "next_ss w \<le> next_ss w1" using a(3) by (simp add: frame_def)
      from Cons.IH [OF a(2)] show ?thesis unfolding ran_le_def
      proof (elim disjE exE conjE)
        fix ex2
        assume b: "agree w1 ex1 ex2" "fut_ok ex2 R H (run fut_step ks w1)" "frame w1 (run fut_step ks w1)"
          "work ex2 (run fut_step ks w1) \<le> work ex1 w1"
        have "agree w ex ex2" using a(1) b(1) le by (simp add: agree_def)
        then show "crashed (run fut_step (k # ks) w) \<and> R \<or> (\<exists>ex'. agree w ex ex' \<and> fut_ok ex' R H (run fut_step (k # ks) w) \<and>
            frame w (run fut_step (k # ks) w) \<and> work ex' (run fut_step (k # ks) w) \<le> work ex w)"
          using a(4) b frame_trans [OF a(3) b(3)] Some by (intro disjI2 exI [of _ ex2]) simp
      qed (use Some in simp)
    qed
  qed
qed

lemma env_ok_run: "env_ok (\<lambda>k. run fut_step (sched k))"
  unfolding env_ok_def using run_ok [unfolded ran_le_def] by (auto simp: fut_step_crashed)

subsection \<open>Pipelines compute what they mean\<close>

lemma drain_ok:
  assumes "fut_ok ex R H w" and "work ex w \<le> n"
  shows "crashed (run fut_step (replicate n 0) w) \<and> R \<or>
    (\<exists>ex'. agree w ex ex' \<and> fut_ok ex' R H (run fut_step (replicate n 0) w) \<and> frame w (run fut_step (replicate n 0) w) \<and>
       ftasks (run fut_step (replicate n 0) w) = [])"
  using assms
proof (induction n arbitrary: ex w)
  case 0
  have "flow w = {#} \<or> (\<forall>x\<in>#flow w. weight ex x = 0)" using 0(2) by (auto simp: work_def)
  then have w0: "weight ex x = 0" if "x \<in># flow w" for x using that by auto
  have "ftasks w = []"
  proof (cases "ftasks w")
    case (Cons t ts)
    then have t: "task_item t \<in># flow w" "task_ok ex t" using fut_okD(4) [OF 0(1)] by (auto simp: flow_def)
    then have "weight ex (task_item t) \<noteq> 0"
    proof (cases t)
      case (RunCb exe i c r)
      with t(2) obtain c' r' where "c = Has c'" "r = Has r'" by (cases c; cases r) auto
      then show ?thesis using RunCb by (cases c') simp_all
    qed simp
    with w0 [OF t(1)] show ?thesis by contradiction
  qed
  then show ?case using 0 by (auto simp: agree_def frame_refl)
next
  case (Suc n)
  show ?case
  proof (cases "ftasks w")
    case Nil
    then have st: "fut_step 0 w = None" by (simp add: fut_step_def)
    have "run fut_step (replicate m 0) w = w" for m using st by (induction m) simp_all
    note rr = this [of "Suc n"]
    show ?thesis unfolding rr using Suc.prems Nil by (intro disjI2 exI [of _ ex]) (simp add: agree_def frame_refl)
  next
    case (Cons t ts)
    then obtain w1 where w1: "fut_step 0 w = Some w1" using fut_okD(1) [OF Suc.prems(1)] by (simp add: fut_step_def)
    then have r: "run fut_step (replicate (Suc n) 0) w = run fut_step (replicate n 0) w1" by simp
    from step_ok [OF Suc.prems(1) w1] show ?thesis unfolding r ran_def
    proof (elim disjE exE conjE)
      assume "crashed w1" "R"
      then show "crashed (run fut_step (replicate n 0) w1) \<and> R \<or> (\<exists>ex'. agree w ex ex' \<and>
          fut_ok ex' R H (run fut_step (replicate n 0) w1) \<and> frame w (run fut_step (replicate n 0) w1) \<and>
          ftasks (run fut_step (replicate n 0) w1) = [])" by (simp add: fut_step_crashed)
    next
      fix ex1
      assume a: "agree w ex ex1" "fut_ok ex1 R H w1" "frame w w1" "work ex1 w1 < work ex w"
      have le: "next_ss w \<le> next_ss w1" using a(3) by (simp add: frame_def)
      have "work ex1 w1 \<le> n" using a(4) Suc.prems(2) by simp
      from Suc.IH [OF a(2) this] show "crashed (run fut_step (replicate n 0) w1) \<and> R \<or> (\<exists>ex'. agree w ex ex' \<and>
          fut_ok ex' R H (run fut_step (replicate n 0) w1) \<and> frame w (run fut_step (replicate n 0) w1) \<and>
          ftasks (run fut_step (replicate n 0) w1) = [])"
      proof (elim disjE exE conjE)
        fix ex2
        assume b: "agree w1 ex1 ex2" "fut_ok ex2 R H (run fut_step (replicate n 0) w1)"
          "frame w1 (run fut_step (replicate n 0) w1)" "ftasks (run fut_step (replicate n 0) w1) = []"
        have "agree w ex ex2" using a(1) b(1) le by (simp add: agree_def)
        then show ?thesis using b frame_trans [OF a(3) b(3)] by blast
      qed simp
    qed
  qed
qed

lemma quiescent_source:
  assumes ok: "fut_ok ex R {#} w" and q: "ftasks w = []" and i: "i < next_ss w" "fs_result (states w i) = Empty"
  obtains j c where "j < next_ss w" "cb_target c = i" "cb_ok ex j c" "fs_result (states w j) = Empty"
proof -
  have "i \<in># image_mset item_target (flow w)" using fut_okD(6) [OF ok] i(1) by simp
  then obtain x where x: "x \<in># flow w" "item_target x = i" by auto
  then obtain j where j: "j < next_ss w" "x \<in># contrib j (states w j)" using q by (auto simp: flow_def set_mset_sum)
  have "x \<noteq> IDone j" using x(2) j(2) i(2) by (auto simp: contrib_def split: if_splits slot.splits)
  with j(2) obtain c where c: "x = ICb j c" "fs_callback (states w j) = Has c"
    by (auto simp: contrib_def split: slot.splits if_splits)
  have "fs_result (states w j) = Empty" using fut_okD(2) [OF ok j(1)] c(2) by (cases "fs_state (states w j)") auto
  then show ?thesis using that j(1) c(1) x fut_okD(5) [OF ok x(1)] by auto
qed

lemma quiescent_result:
  assumes ok: "fut_ok ex R {#} w" and q: "ftasks w = []"
  shows "i < next_ss w \<Longrightarrow> ex i = strip e \<Longrightarrow> fs_result (states w i) \<noteq> Empty"
proof (induction e arbitrary: i)
  case (FMap e f)
  show ?case
  proof
    assume "fs_result (states w i) = Empty"
    from quiescent_source [OF ok q FMap.prems(1) this] obtain j c where
      "j < next_ss w" "cb_target c = i" "cb_ok ex j c" "fs_result (states w j) = Empty" .
    then show False using FMap.IH [of j] FMap.prems(2) by (cases c) auto
  qed
next
  case (FAndThen e f)
  show ?case
  proof
    assume "fs_result (states w i) = Empty"
    from quiescent_source [OF ok q FAndThen.prems(1) this] obtain j c where
      "j < next_ss w" "cb_target c = i" "cb_ok ex j c" "fs_result (states w j) = Empty" .
    then show False using FAndThen.IH [of j] FAndThen.prems(2) by (cases c) auto
  qed
next
  case (FOrElse e f)
  show ?case
  proof
    assume "fs_result (states w i) = Empty"
    from quiescent_source [OF ok q FOrElse.prems(1) this] obtain j c where
      "j < next_ss w" "cb_target c = i" "cb_ok ex j c" "fs_result (states w j) = Empty" .
    then show False using FOrElse.IH [of j] FOrElse.prems(2) by (cases c) auto
  qed
next
  case (FFlatMap e f)
  show ?case
  proof
    assume "fs_result (states w i) = Empty"
    from quiescent_source [OF ok q FFlatMap.prems(1) this] obtain j c where
      "j < next_ss w" "cb_target c = i" "cb_ok ex j c" "fs_result (states w j) = Empty" .
    then show False using FFlatMap.IH(1) [of j] FFlatMap.IH(2) [OF rangeI, of j] FFlatMap.prems(2) by (cases c) (auto dest: sym)
  qed
next
  case (FVia e x)
  then show ?case by simp
next
  case (FValue v)
  show ?case
  proof
    assume "fs_result (states w i) = Empty"
    from quiescent_source [OF ok q FValue.prems(1) this] obtain j c where "cb_target c = i" "cb_ok ex j c" .
    then show False using FValue.prems(2) by (cases c) auto
  qed
next
  case (FFailure v)
  show ?case
  proof
    assume "fs_result (states w i) = Empty"
    from quiescent_source [OF ok q FFailure.prems(1) this] obtain j c where "cb_target c = i" "cb_ok ex j c" .
    then show False using FFailure.prems(2) by (cases c) auto
  qed
next
  case (FSubmit exe r)
  show ?case
  proof
    assume "fs_result (states w i) = Empty"
    from quiescent_source [OF ok q FSubmit.prems(1) this] obtain j c where "cb_target c = i" "cb_ok ex j c" .
    then show False using FSubmit.prems(2) by (cases c) auto
  qed
qed

lemma fut_ok_init: "fut_ok ex R {#} fworld_init"
  by (rule fut_okI) (simp_all add: fworld_init_def flow_def)

text \<open>C1: A pipeline of Submit, Value, Failure, Map, AndThen, OrElse, FlatMap and Via computes its
  meaning whatever the executors do: with any tasks run between any two calls that build it and
  in any order afterwards, once at most \<open>cost e\<close> further tasks were run nothing is pending, the
  future holds \<open>eval e\<close> and has the executor the last Via or the input gave it; if the meaning is
  an exception (a FlatMap whose inner future fails), the program has thrown.\<close>

theorem pipeline_computes_meaning:
  assumes "cost e \<le> n"
  shows "case build (\<lambda>k. run fut_step (sched k)) e fworld_init of (i, w) \<Rightarrow>
    let w' = run fut_step (replicate n 0) (run fut_step ks w) in
      if eval e = None then crashed w'
      else \<not> crashed w' \<and> ftasks w' = [] \<and> GetResult i w' = eval e \<and> GetExecutor i w' = exec_of e"
proof -
  let ?env = "\<lambda>k. run fut_step (sched k)" and ?R = "eval e = None" and ?ex = "\<lambda>_. FValue UnitV"
  obtain i w where b: "build ?env e fworld_init = (i, w)" by fastforce
  let ?w' = "run fut_step (replicate n 0) (run fut_step ks w)"
  have w0: "work ?ex fworld_init = 0" by (simp add: work_def flow_def fworld_init_def)
  have "built ?ex ?R {#} fworld_init e (i, w)"
    unfolding b [symmetric] by (rule build_ok [OF env_ok_run fut_ok_init])
  then have "crashed ?w' \<and> ?R \<or> (\<not> crashed ?w' \<and> ftasks ?w' = [] \<and> GetResult i ?w' = eval e \<and> eval e \<noteq> None \<and> GetExecutor i ?w' = exec_of e)"
    unfolding built_def prod.case
  proof (elim disjE exE conjE)
    assume "crashed w" "eval e = None"
    then show ?thesis by (simp add: fut_step_crashed)
  next
    fix ex1
    assume a: "fut_ok ex1 ?R {#} w" "i < next_ss w" "ex1 i = strip e" "fs_callback (states w i) = Empty"
      "fs_exec (states w i) = exec_of e" "work ex1 w \<le> work ?ex fworld_init + cost e"
    from run_ok [OF a(1), of ks] show ?thesis unfolding ran_le_def
    proof (elim disjE exE conjE)
      assume "crashed (run fut_step ks w)" "eval e = None"
      then show ?thesis by (simp add: fut_step_crashed)
    next
      fix ex2
      assume c: "agree w ex1 ex2" "fut_ok ex2 ?R {#} (run fut_step ks w)" "frame w (run fut_step ks w)"
        "work ex2 (run fut_step ks w) \<le> work ex1 w"
      have "work ex2 (run fut_step ks w) \<le> n" using c(4) a(6) w0 assms by linarith
      from drain_ok [OF c(2) this] show ?thesis
      proof (elim disjE exE conjE)
        fix ex3
        assume d: "agree (run fut_step ks w) ex2 ex3" "fut_ok ex3 ?R {#} ?w'" "frame (run fut_step ks w) ?w'" "ftasks ?w' = []"
        have fr: "frame w ?w'" by (rule frame_trans [OF c(3) d(3)])
        have i: "i < next_ss ?w'" "fs_callback (states ?w' i) = Empty" "fs_exec (states ?w' i) = exec_of e"
          using fr a(2,4,5) by (auto simp: frame_def)
        have e3: "ex3 i = strip e" using a(2,3) c(1,3) d(1) by (simp add: agree_def frame_def)
        have "fs_result (states ?w' i) \<noteq> Empty" by (rule quiescent_result [OF d(2,4) i(1) e3])
        then obtain r where r: "fs_result (states ?w' i) = Has r"
          using fut_okD(2) [OF d(2) i(1)] i(2) by (cases "fs_state (states ?w' i)"; cases "fs_result (states ?w' i)") auto
        have "eval e = Some r" using fut_okD(3) [OF d(2) i(1) r] e3 by simp
        then show ?thesis using d(2,4) i(3) r fut_okD(1) [OF d(2)] by (simp add: GetResult_def GetExecutor_def)
      qed simp
    qed
  qed
  then show ?thesis unfolding b prod.case Let_def by auto
qed

theorem pipeline_computes_meaning_witness:
  "let e = FVia (FMap (FFlatMap (FSubmit (Exe 1) (Inr (Num 1))) (\<lambda>v. FSubmit (Exe 2) (Inr (Tup v v)))) (\<lambda>v. Tup v (Num 2))) (Exe 3)
   in case build (\<lambda>k. run fut_step [0]) e fworld_init of (i, w) \<Rightarrow>
     GetResult i (run fut_step (replicate 6 0) (run fut_step [1, 0] w)) = Some (Inr (Tup (Tup (Num 1) (Num 1)) (Num 2)))"
proof -
  let ?e = "FVia (FMap (FFlatMap (FSubmit (Exe 1) (Inr (Num 1))) (\<lambda>v. FSubmit (Exe 2) (Inr (Tup v v)))) (\<lambda>v. Tup v (Num 2))) (Exe 3)"
  have c: "cost ?e \<le> 6" by simp
  obtain i w where b: "build (\<lambda>k. run fut_step [0]) ?e fworld_init = (i, w)" by fastforce
  show ?thesis unfolding Let_def b prod.case
    using pipeline_computes_meaning [OF c, where sched = "\<lambda>_. [0]" and ks = "[1, 0]", unfolded b prod.case Let_def]
    by (simp add: inner_def del: run.simps)
qed

subsection \<open>Flatten, Both and First\<close>

lemmas fut_ops = Contract_def Value_def Failure_def Promise_SetValue_def Promise_SetError_def Ok_def Err_def
  SetResult_def SetCallback_def SubmitCallback_def Executor_Submit_def upd_ss_def sstate_init_def fworld_init_def
  moved_def SetExecutor_def GetResult_def fut_step_def take_task_def

text \<open>Flatten unwraps a ready future of a ready future; when the inner future failed, it throws
  instead of passing the error on, although its result type could carry it.\<close>

theorem flatten_unwraps:
  "(let (j, w) = Value v fworld_init; (i, w) = Value (FutV j) w; (p, w) = Flatten i w;
        w = run fut_step [0, 0] w in GetResult p w = Some (Inr v) \<and> \<not> crashed w) \<and>
   (let (j, w) = Failure e fworld_init; (i, w) = Value (FutV j) w; (p, w) = Flatten i w;
        w = run fut_step [0, 0] w in GetResult p w = None \<and> crashed w)"
  by (simp add: fut_ops cb_defs Flatten_def stutter_def Inner_cb_def throw_def)

lemmas both_ops = Both_def First_def new_counter_def counter_init_def Both_cb_def First_cb_def Both_store_def
  value_fetch_sub_def ReleaseRef_def

text \<open>Both of two futures that succeed yields the pair, in whichever order their callbacks run,
  and the counter block is freed by the second one; \<open>b\<close> picks the order.\<close>

theorem both_pairs:
  "let (fx, w) = Value x fworld_init; (fy, w) = Value y w; (p, w) = Both fx fy w;
       w1 = run fut_step [if b then 1 else 0] w; w2 = run fut_step [0] w1
   in GetResult p w1 = None \<and> \<not> ct_freed (counters w1 0) \<and>
      GetResult p w2 = Some (Inr (Tup x y)) \<and> ct_freed (counters w2 0) \<and> \<not> crashed w2 \<and> ftasks w2 = []"
  by (cases b) (simp_all add: fut_ops both_ops stutter_def)

text \<open>First yields the result of whichever future succeeds when the other fails, and the last
  error when both fail, in either order.\<close>

theorem first_success_or_last_error:
  "(let (f1, w) = Value x fworld_init; (f2, w) = Failure e w; (p, w) = First f1 f2 w;
       w = run fut_step [if b then 1 else 0, 0] w
    in GetResult p w = Some (Inr x) \<and> ct_freed (counters w 0) \<and> \<not> crashed w) \<and>
   (let (f1, w) = Failure e1 fworld_init; (f2, w) = Failure e2 w; (p, w) = First f1 f2 w;
       w = run fut_step [if b then 1 else 0, 0] w
    in GetResult p w = Some (Inl (if b then e1 else e2)) \<and> ct_freed (counters w 0) \<and> \<not> crashed w)"
  by (cases b) (simp_all add: fut_ops both_ops stutter_def)

text \<open>When both futures of First succeed the promise is set twice. Before anyone looks, the
  second value replaces the first; if the result is subscribed to in between, the subscriber
  runs with the first value and is then submitted again, moved from, which ends the program.\<close>

theorem first_sets_promise_twice:
  "let (f1, w) = Value x fworld_init; (f2, w) = Value y w; (p, w) = First f1 f2 w;
       w1 = run fut_step [0] w; w2 = run fut_step [0] w1; w3 = run fut_step [0, 0, 0] (SetCallback p (CbUser 7) w1)
   in GetResult p w1 = Some (Inr x) \<and> GetResult p w2 = Some (Inr y) \<and>
      user_calls w3 = [(7, Inr x)] \<and> crashed w3"
  by (simp add: fut_ops both_ops stutter_def throw_def)


subsection \<open>The static types of pipelines\<close>

datatype ty = TUnit | TNum | TTup ty ty

fun val_type :: "ty \<Rightarrow> val \<Rightarrow> bool" where
  "val_type TUnit v = (v = UnitV)"
| "val_type TNum v = (case v of Num _ \<Rightarrow> True | _ \<Rightarrow> False)"
| "val_type (TTup A B) v = (case v of Tup a b \<Rightarrow> val_type A a \<and> val_type B b | _ \<Rightarrow> False)"

definition res_type :: "ty \<Rightarrow> res \<Rightarrow> bool" where
  "res_type T r = (case r of Inl _ \<Rightarrow> True | Inr v \<Rightarrow> val_type T v)"

text \<open>\<open>Future<T>\<close> by the signatures of the combinators.\<close>

inductive future_type :: "ty \<Rightarrow> fexpr \<Rightarrow> bool" where
  type_Value: "val_type T v \<Longrightarrow> future_type T (FValue v)"
| type_Failure: "future_type T (FFailure e)"
| type_Submit: "res_type T r \<Longrightarrow> future_type T (FSubmit x r)"
| type_Map: "future_type A e \<Longrightarrow> (\<And>v. val_type A v \<Longrightarrow> val_type T (f v)) \<Longrightarrow> future_type T (FMap e f)"
| type_AndThen: "future_type A e \<Longrightarrow> (\<And>v. val_type A v \<Longrightarrow> res_type T (g v)) \<Longrightarrow> future_type T (FAndThen e g)"
| type_OrElse: "future_type T e \<Longrightarrow> (\<And>c. res_type T (h c)) \<Longrightarrow> future_type T (FOrElse e h)"
| type_FlatMap: "future_type A e \<Longrightarrow> (\<And>v. val_type A v \<Longrightarrow> future_type T (k v)) \<Longrightarrow> future_type T (FFlatMap e k)"
| type_Via: "future_type T e \<Longrightarrow> future_type T (FVia e x)"

lemma res_type_simps [simp]: "res_type T (Inl c)" "res_type T (Inr v) = val_type T v"
  by (simp_all add: res_type_def)

lemma eval_type: "future_type T e \<Longrightarrow> eval e = Some r \<Longrightarrow> res_type T r"
proof (induction arbitrary: r rule: future_type.induct)
  case (type_FlatMap A e T k)
  show ?case
  proof (cases r)
    case (Inr x)
    then obtain v where "eval e = Some (Inr v)" and "eval (k v) = Some r"
      using type_FlatMap.prems by (auto simp: inner_def split: option.splits sum.splits)
    then show ?thesis using type_FlatMap.IH by auto
  qed simp
qed (auto split: option.splits sum.splits)



end
