(* ===== verification/MSQueue.thy ===== *)
theory MSQueue
  imports Prelude
begin

section \<open>The Michael-Scott queues\<close>

text \<open>
  \<open>tasks/executors/exe/support/msqueue.hpp\<close> (MSQueue, which reclaims nodes) and
  \<open>lockfree/queue/lock_free_queue.hpp\<close> (LockFreeQueue, which never does): a chain of nodes from
  a sentinel, \<open>head_\<close>, \<open>tail_\<close> and \<open>size_\<close>. A step is one atomic operation; the successor of a node
  never changes once set, so loading it again for the compare-and-swap is no step of its own. A weak
  compare-and-swap may fail spuriously (\<open>MsSpurious\<close>). In \<open>Put\<close> the variable \<open>curr_tail\<close> of the loop
  shadows an outer one that is never assigned: the final compare-and-swap of \<open>tail_\<close> compares with
  garbage, which the scheduler picks.
  Ghost fields: \<open>ms_chain\<close> the nodes in the order they were linked, \<open>ms_pushed\<close> their items, \<open>ms_claimed\<close>
  how many nodes \<open>head_\<close> passed, \<open>ms_returned\<close> the items returned with their position.
\<close>

type_synonym node = nat

datatype ms_pc =
    MsIdle
  | PtLoadTail node            \<comment> \<open>in Put with \<open>new_node\<close>\<close>
  | PtCheckNext node node      \<comment> \<open>and \<open>curr_tail\<close>\<close>
  | PtHelp node node
  | PtLink node node
  | PtTail node
  | PtCount
  | TkLoadHead
  | TkCheck node               \<comment> \<open>in Take with \<open>curr_head\<close>\<close>
  | TkCas node
  | TkRead node nat            \<comment> \<open>and (ghost) the position it claimed\<close>
  | TkGarbage node
  | TkCount

record 'a msq =
  ms_next :: "node \<Rightarrow> node option"
  ms_value :: "node \<Rightarrow> 'a option"
  ms_fresh :: node
  ms_head :: node
  ms_tail :: node
  ms_size :: size_t
  ms_deleted :: "node list"
  ms_freed :: "node list"
  ms_pc :: "tid \<Rightarrow> ms_pc"
  ms_uaf :: bool               \<comment> \<open>a freed node was accessed\<close>
  ms_chain :: "node list"
  ms_pushed :: "'a list"
  ms_claimed :: nat
  ms_returned :: "(nat \<times> 'a option) list"

definition MSQueue_construct :: "'a msq" where
  "MSQueue_construct = \<lparr>ms_next = (\<lambda>_. None), ms_value = (\<lambda>_. None), ms_fresh = 1, ms_head = 0, ms_tail = 0, ms_size = 0,
     ms_deleted = [], ms_freed = [], ms_pc = (\<lambda>_. MsIdle), ms_uaf = False,
     ms_chain = [0], ms_pushed = [], ms_claimed = 0, ms_returned = []\<rparr>"

definition ms_go :: "tid \<Rightarrow> ms_pc \<Rightarrow> 'a msq \<Rightarrow> 'a msq" where
  "ms_go t p s = s\<lparr>ms_pc := (ms_pc s)(t := p)\<rparr>"

text \<open>Dereferencing a node.\<close>

definition touch :: "node \<Rightarrow> 'a msq \<Rightarrow> 'a msq" where
  "touch x s = s\<lparr>ms_uaf := ms_uaf s \<or> x \<in> set (ms_freed s)\<rparr>"

definition Put_new :: "tid \<Rightarrow> 'a \<Rightarrow> 'a msq \<Rightarrow> 'a msq" where
  "Put_new t item s = ms_go t (PtLoadTail (ms_fresh s))
     (s\<lparr>ms_fresh := Suc (ms_fresh s), ms_value := (ms_value s)(ms_fresh s := Some item),
        ms_next := (ms_next s)(ms_fresh s := None)\<rparr>)"

definition Put_load_tail :: "tid \<Rightarrow> node \<Rightarrow> 'a msq \<Rightarrow> 'a msq" where
  "Put_load_tail t new_node s = ms_go t (PtCheckNext new_node (ms_tail s)) s"

definition Put_check_next :: "tid \<Rightarrow> node \<Rightarrow> node \<Rightarrow> 'a msq \<Rightarrow> 'a msq" where
  "Put_check_next t new_node curr_tail s =
     ms_go t (if ms_next s curr_tail \<noteq> None then PtHelp new_node curr_tail else PtLink new_node curr_tail) (touch curr_tail s)"

definition Put_help :: "tid \<Rightarrow> node \<Rightarrow> node \<Rightarrow> bool \<Rightarrow> 'a msq \<Rightarrow> 'a msq" where
  "Put_help t new_node curr_tail spurious s = (let s = touch curr_tail s in
     case ms_next s curr_tail of
       Some nx \<Rightarrow> if ms_tail s = curr_tail \<and> \<not> spurious then ms_go t (PtLoadTail new_node) (s\<lparr>ms_tail := nx\<rparr>)
                  else ms_go t (PtLink new_node (ms_tail s)) s
     | None \<Rightarrow> s)"

definition Put_link :: "tid \<Rightarrow> node \<Rightarrow> node \<Rightarrow> bool \<Rightarrow> 'a msq \<Rightarrow> 'a msq" where
  "Put_link t new_node curr_tail spurious s = (let s = touch curr_tail s in
     if ms_next s curr_tail = None \<and> \<not> spurious
     then ms_go t (PtTail new_node) (s\<lparr>ms_next := (ms_next s)(curr_tail := Some new_node),
            ms_chain := ms_chain s @ [new_node],
            ms_pushed := ms_pushed s @ (case ms_value s new_node of None \<Rightarrow> [] | Some x \<Rightarrow> [x])\<rparr>)
     else ms_go t (PtLoadTail new_node) s)"

definition Put_tail :: "tid \<Rightarrow> node \<Rightarrow> node \<Rightarrow> 'a msq \<Rightarrow> 'a msq" where
  "Put_tail t new_node garbage s =
     ms_go t PtCount (if ms_tail s = garbage then s\<lparr>ms_tail := new_node\<rparr> else s)"

definition Put_count :: "tid \<Rightarrow> 'a msq \<Rightarrow> 'a msq" where
  "Put_count t s = ms_go t MsIdle (s\<lparr>ms_size := ms_size s + 1\<rparr>)"

definition Take_load_head :: "tid \<Rightarrow> 'a msq \<Rightarrow> 'a msq" where
  "Take_load_head t s = ms_go t (TkCheck (ms_head s)) s"

text \<open>An empty queue: \<open>Take\<close> returns nothing.\<close>

definition Take_check :: "tid \<Rightarrow> node \<Rightarrow> 'a msq \<Rightarrow> 'a msq" where
  "Take_check t curr_head s =
     ms_go t (if ms_next s curr_head = None then MsIdle else TkCas curr_head) (touch curr_head s)"

definition Take_cas :: "tid \<Rightarrow> node \<Rightarrow> bool \<Rightarrow> 'a msq \<Rightarrow> 'a msq" where
  "Take_cas t curr_head spurious s = (let s = touch curr_head s in
     case ms_next s curr_head of
       Some nx \<Rightarrow> if ms_head s = curr_head \<and> \<not> spurious
                  then ms_go t (TkRead curr_head (ms_claimed s)) (s\<lparr>ms_head := nx, ms_claimed := Suc (ms_claimed s)\<rparr>)
                  else ms_go t TkLoadHead s
     | None \<Rightarrow> s)"

text \<open>Moving the item out of the node leaves nothing there.\<close>

definition Take_read :: "bool \<Rightarrow> tid \<Rightarrow> node \<Rightarrow> nat \<Rightarrow> 'a msq \<Rightarrow> 'a msq" where
  "Take_read gc t curr_head k s = (let s = touch curr_head s in
     case ms_next s curr_head of
       Some nx \<Rightarrow> ms_go t (if gc then TkGarbage curr_head else TkCount)
         ((touch nx s)\<lparr>ms_returned := ms_returned s @ [(k, ms_value s nx)], ms_value := (ms_value s)(nx := None)\<rparr>)
     | None \<Rightarrow> s)"

definition CollectGarbage :: "'a msq \<Rightarrow> 'a msq" where
  "CollectGarbage s = (let size = length (ms_deleted s) in
     if size < 10 then s
     else s\<lparr>ms_freed := ms_freed s @ List.take (size - size div 2) (ms_deleted s),
            ms_deleted := drop (size - size div 2) (ms_deleted s)\<rparr>)"

definition Take_garbage :: "tid \<Rightarrow> node \<Rightarrow> 'a msq \<Rightarrow> 'a msq" where
  "Take_garbage t curr_head s = ms_go t TkCount (CollectGarbage (s\<lparr>ms_deleted := ms_deleted s @ [curr_head]\<rparr>))"

definition Take_count :: "tid \<Rightarrow> 'a msq \<Rightarrow> 'a msq" where
  "Take_count t s = ms_go t MsIdle (s\<lparr>ms_size := ms_size s - 1\<rparr>)"

definition MSQueue_IsEmpty :: "'a msq \<Rightarrow> bool" where
  "MSQueue_IsEmpty s \<longleftrightarrow> ms_size s = 0"

definition MSQueue_Count :: "'a msq \<Rightarrow> size_t" where
  "MSQueue_Count s = ms_size s"

datatype 'a ms_act = MsPut 'a | MsTake | MsStep | MsSpurious | MsGarbage node

text \<open>\<open>gc\<close>: the queue reclaims nodes, as MSQueue does.\<close>

fun ms_step :: "bool \<Rightarrow> tid \<times> 'a ms_act \<Rightarrow> 'a msq \<Rightarrow> 'a msq option" where
  "ms_step gc (t, MsPut item) s = (if ms_pc s t = MsIdle then Some (Put_new t item s) else None)"
| "ms_step gc (t, MsTake) s = (if ms_pc s t = MsIdle then Some (ms_go t TkLoadHead s) else None)"
| "ms_step gc (t, MsStep) s = (case ms_pc s t of
     PtLoadTail x \<Rightarrow> Some (Put_load_tail t x s)
   | PtCheckNext x ct \<Rightarrow> Some (Put_check_next t x ct s)
   | PtHelp x ct \<Rightarrow> Some (Put_help t x ct False s)
   | PtLink x ct \<Rightarrow> Some (Put_link t x ct False s)
   | PtCount \<Rightarrow> Some (Put_count t s)
   | TkLoadHead \<Rightarrow> Some (Take_load_head t s)
   | TkCheck ch \<Rightarrow> Some (Take_check t ch s)
   | TkCas ch \<Rightarrow> Some (Take_cas t ch False s)
   | TkRead ch k \<Rightarrow> Some (Take_read gc t ch k s)
   | TkGarbage ch \<Rightarrow> Some (Take_garbage t ch s)
   | TkCount \<Rightarrow> Some (Take_count t s)
   | _ \<Rightarrow> None)"
| "ms_step gc (t, MsSpurious) s = (case ms_pc s t of
     PtHelp x ct \<Rightarrow> Some (Put_help t x ct True s)
   | PtLink x ct \<Rightarrow> Some (Put_link t x ct True s)
   | TkCas ch \<Rightarrow> Some (Take_cas t ch True s)
   | _ \<Rightarrow> None)"
| "ms_step gc (t, MsGarbage g) s = (case ms_pc s t of PtTail x \<Rightarrow> Some (Put_tail t x g s) | _ \<Rightarrow> None)"

lemmas ms_ops = Put_new_def Put_load_tail_def Put_check_next_def Put_help_def Put_link_def Put_tail_def Put_count_def
  Take_load_head_def Take_check_def Take_cas_def Take_read_def Take_garbage_def Take_count_def CollectGarbage_def
  ms_go_def touch_def

subsection \<open>The invariant of the queue that never frees\<close>

definition ms_owned :: "'a msq \<Rightarrow> node \<Rightarrow> bool" where
  "ms_owned s x \<longleftrightarrow> x < ms_fresh s \<and> x \<notin> set (ms_chain s) \<and> ms_next s x = None \<and> ms_value s x \<noteq> None"

fun new_node_of :: "ms_pc \<Rightarrow> node option" where
  "new_node_of (PtLoadTail x) = Some x"
| "new_node_of (PtCheckNext x ct) = Some x"
| "new_node_of (PtHelp x ct) = Some x"
| "new_node_of (PtLink x ct) = Some x"
| "new_node_of _ = None"

fun ticket_of :: "ms_pc \<Rightarrow> nat option" where
  "ticket_of (TkRead ch k) = Some k"
| "ticket_of _ = None"

fun ms_pc_ok :: "'a msq \<Rightarrow> ms_pc \<Rightarrow> bool" where
  "ms_pc_ok s (PtLoadTail x) = ms_owned s x"
| "ms_pc_ok s (PtCheckNext x ct) = (ms_owned s x \<and> ct \<in> set (ms_chain s))"
| "ms_pc_ok s (PtHelp x ct) = (ms_owned s x \<and> ct \<in> set (ms_chain s) \<and> ms_next s ct \<noteq> None)"
| "ms_pc_ok s (PtLink x ct) = (ms_owned s x \<and> ct \<in> set (ms_chain s))"
| "ms_pc_ok s (PtTail x) = (x \<in> set (ms_chain s))"
| "ms_pc_ok s (TkCheck ch) = (ch \<in> set (ms_chain s))"
| "ms_pc_ok s (TkCas ch) = (ch \<in> set (ms_chain s) \<and> ms_next s ch \<noteq> None)"
| "ms_pc_ok s (TkRead ch k) = (k < ms_claimed s \<and> ch = ms_chain s ! k \<and> k \<notin> fst ` set (ms_returned s))"
| "ms_pc_ok s (TkGarbage ch) = False"
| "ms_pc_ok s _ = True"

definition chain_ok :: "'a msq \<Rightarrow> bool" where
  "chain_ok s \<longleftrightarrow> length (ms_chain s) = Suc (length (ms_pushed s)) \<and> distinct (ms_chain s) \<and>
     (\<forall>x\<in>set (ms_chain s). x < ms_fresh s) \<and>
     (\<forall>i<length (ms_pushed s). ms_next s (ms_chain s ! i) = Some (ms_chain s ! Suc i)) \<and>
     ms_next s (ms_chain s ! length (ms_pushed s)) = None"

definition items_ok :: "'a msq \<Rightarrow> bool" where
  "items_ok s \<longleftrightarrow>
     (\<forall>i<length (ms_pushed s). i \<notin> fst ` set (ms_returned s) \<longrightarrow> ms_value s (ms_chain s ! Suc i) = Some (ms_pushed s ! i)) \<and>
     (\<forall>k v. (k, v) \<in> set (ms_returned s) \<longrightarrow> k < ms_claimed s \<and> v = Some (ms_pushed s ! k)) \<and>
     distinct (map fst (ms_returned s))"

definition uniq :: "('p \<Rightarrow> 'x option) \<Rightarrow> (tid \<Rightarrow> 'p) \<Rightarrow> bool" where
  "uniq g pc \<longleftrightarrow> (\<forall>t u x. g (pc t) = Some x \<longrightarrow> g (pc u) = Some x \<longrightarrow> t = u)"

definition ms_inv :: "'a msq \<Rightarrow> bool" where
  "ms_inv s \<longleftrightarrow> chain_ok s \<and> items_ok s \<and> ms_claimed s \<le> length (ms_pushed s) \<and>
     ms_head s = ms_chain s ! ms_claimed s \<and> ms_tail s \<in> set (ms_chain s) \<and>
     (\<forall>t. ms_pc_ok s (ms_pc s t)) \<and> uniq new_node_of (ms_pc s) \<and> uniq ticket_of (ms_pc s) \<and>
     ms_freed s = [] \<and> \<not> ms_uaf s"

lemma ms_invD:
  assumes "ms_inv s"
  shows "chain_ok s" "items_ok s" "ms_claimed s \<le> length (ms_pushed s)" "ms_head s = ms_chain s ! ms_claimed s"
    "ms_tail s \<in> set (ms_chain s)" "\<And>t. ms_pc_ok s (ms_pc s t)" "uniq new_node_of (ms_pc s)" "uniq ticket_of (ms_pc s)"
    "ms_freed s = []" "\<not> ms_uaf s"
  using assms unfolding ms_inv_def by blast+

lemma ms_invI:
  assumes "chain_ok s" "items_ok s" "ms_claimed s \<le> length (ms_pushed s)" "ms_head s = ms_chain s ! ms_claimed s"
    "ms_tail s \<in> set (ms_chain s)" "\<And>t. ms_pc_ok s (ms_pc s t)" "uniq new_node_of (ms_pc s)" "uniq ticket_of (ms_pc s)"
    "ms_freed s = []" "\<not> ms_uaf s"
  shows "ms_inv s"
  using assms unfolding ms_inv_def by blast

lemma chain_okD:
  assumes "chain_ok s"
  shows "length (ms_chain s) = Suc (length (ms_pushed s))" "distinct (ms_chain s)"
    "\<And>x. x \<in> set (ms_chain s) \<Longrightarrow> x < ms_fresh s"
    "\<And>i. i < length (ms_pushed s) \<Longrightarrow> ms_next s (ms_chain s ! i) = Some (ms_chain s ! Suc i)"
    "ms_next s (ms_chain s ! length (ms_pushed s)) = None"
  using assms unfolding chain_ok_def by blast+

lemma uniq_upd_None: "uniq g pc \<Longrightarrow> g p = None \<Longrightarrow> uniq g (pc(t := p))"
  by (auto simp: uniq_def)

lemma uniq_upd_same: "uniq g pc \<Longrightarrow> g p = g (pc t) \<Longrightarrow> uniq g (pc(t := p))"
  unfolding uniq_def by (metis fun_upd_apply)

lemma uniq_upd_new: "uniq g pc \<Longrightarrow> g p = Some x \<Longrightarrow> (\<And>u. g (pc u) \<noteq> Some x) \<Longrightarrow> uniq g (pc(t := p))"
  unfolding uniq_def by (metis fun_upd_apply option.inject)

text \<open>In the chain, a node without a successor is the last one.\<close>

lemma chain_index:
  assumes "chain_ok s" and "x \<in> set (ms_chain s)"
  obtains i where "i \<le> length (ms_pushed s)" "x = ms_chain s ! i"
    "ms_next s x = (if i = length (ms_pushed s) then None else Some (ms_chain s ! Suc i))"
proof -
  note D = chain_okD [OF assms(1)]
  obtain i where i: "i < length (ms_chain s)" "x = ms_chain s ! i" using assms(2) by (metis in_set_conv_nth)
  then show ?thesis using that [of i] D(1,4,5) by (cases "i = length (ms_pushed s)") auto
qed

lemma chain_next_mem: "chain_ok s \<Longrightarrow> x \<in> set (ms_chain s) \<Longrightarrow> ms_next s x = Some y \<Longrightarrow> y \<in> set (ms_chain s)"
proof -
  assume c: "chain_ok s" and x: "x \<in> set (ms_chain s)" "ms_next s x = Some y"
  obtain i where "i \<le> length (ms_pushed s)" "ms_next s x = (if i = length (ms_pushed s) then None else Some (ms_chain s ! Suc i))"
    by (rule chain_index [OF c x(1)])
  with x(2) have "i < length (ms_pushed s)" "y = ms_chain s ! Suc i" by (auto split: if_splits)
  then show "y \<in> set (ms_chain s)" using chain_okD(1) [OF c] by simp
qed

text \<open>What does not depend on the changed fields.\<close>

lemma chain_ok_frame [simp]:
  "chain_ok (s\<lparr>ms_pc := a\<rparr>) = chain_ok s" "chain_ok (s\<lparr>ms_tail := b\<rparr>) = chain_ok s" "chain_ok (s\<lparr>ms_head := b\<rparr>) = chain_ok s"
  "chain_ok (s\<lparr>ms_size := c\<rparr>) = chain_ok s" "chain_ok (s\<lparr>ms_claimed := d\<rparr>) = chain_ok s"
  "chain_ok (s\<lparr>ms_returned := e\<rparr>) = chain_ok s" "chain_ok (s\<lparr>ms_value := f\<rparr>) = chain_ok s"
  by (simp_all add: chain_ok_def)

lemma items_ok_frame [simp]:
  "items_ok (s\<lparr>ms_pc := a\<rparr>) = items_ok s" "items_ok (s\<lparr>ms_tail := b\<rparr>) = items_ok s" "items_ok (s\<lparr>ms_head := b\<rparr>) = items_ok s"
  "items_ok (s\<lparr>ms_size := c\<rparr>) = items_ok s"
  by (simp_all add: items_ok_def)

lemma ms_owned_frame [simp]:
  "ms_owned (s\<lparr>ms_pc := a\<rparr>) = ms_owned s" "ms_owned (s\<lparr>ms_tail := b\<rparr>) = ms_owned s" "ms_owned (s\<lparr>ms_head := b\<rparr>) = ms_owned s"
  "ms_owned (s\<lparr>ms_size := c\<rparr>) = ms_owned s" "ms_owned (s\<lparr>ms_claimed := d\<rparr>) = ms_owned s"
  "ms_owned (s\<lparr>ms_returned := e\<rparr>) = ms_owned s"
  by (rule ext, simp add: ms_owned_def)+

lemma ms_pc_ok_frame [simp]:
  "ms_pc_ok (s\<lparr>ms_pc := a\<rparr>) p = ms_pc_ok s p" "ms_pc_ok (s\<lparr>ms_tail := b\<rparr>) p = ms_pc_ok s p"
  "ms_pc_ok (s\<lparr>ms_head := b\<rparr>) p = ms_pc_ok s p" "ms_pc_ok (s\<lparr>ms_size := c\<rparr>) p = ms_pc_ok s p"
  by (cases p; simp)+

text \<open>Changes of the program counter alone.\<close>

lemma ms_inv_go:
  assumes I: "ms_inv s" and p: "ms_pc_ok s p" "new_node_of p = None \<or> new_node_of p = new_node_of (ms_pc s t)"
    "ticket_of p = None"
  shows "ms_inv (ms_go t p s)"
proof -
  note D = ms_invD [OF I]
  show ?thesis unfolding ms_go_def
  proof (rule ms_invI)
    show "ms_pc_ok (s\<lparr>ms_pc := (ms_pc s)(t := p)\<rparr>) (ms_pc (s\<lparr>ms_pc := (ms_pc s)(t := p)\<rparr>) u)" for u
      using D(6) p(1) by simp
    show "uniq new_node_of (ms_pc (s\<lparr>ms_pc := (ms_pc s)(t := p)\<rparr>))"
      using p(2) uniq_upd_None [OF D(7)] uniq_upd_same [OF D(7)] by (auto simp del: fun_upd_apply)
    show "uniq ticket_of (ms_pc (s\<lparr>ms_pc := (ms_pc s)(t := p)\<rparr>))" using uniq_upd_None [OF D(8) p(3)] by simp
  qed (use D(1-5,9,10) in simp_all)
qed

lemma touch_id: "ms_inv s \<Longrightarrow> touch x s = s"
  by (drule ms_invD(9)) (simp add: touch_def)

lemma ms_inv_tail:
  assumes "ms_inv s" and "x \<in> set (ms_chain s)"
  shows "ms_inv (s\<lparr>ms_tail := x\<rparr>)"
proof -
  note D = ms_invD [OF assms(1)]
  show ?thesis by (rule ms_invI) (use D(1-4,6-10) assms(2) in simp_all)
qed

lemma ms_inv_size: "ms_inv s \<Longrightarrow> ms_inv (s\<lparr>ms_size := n\<rparr>)"
proof -
  assume "ms_inv s"
  note D = ms_invD [OF this]
  show ?thesis by (rule ms_invI) (use D in simp_all)
qed

subsection \<open>Every step keeps it\<close>

lemma ms_inv_new:
  assumes I: "ms_inv s" and pc: "ms_pc s t = MsIdle"
  shows "ms_inv (Put_new t item s)"
proof -
  note D = ms_invD [OF I] and C = chain_okD [OF ms_invD(1) [OF I]]
  let ?x = "ms_fresh s"
  have fr: "?x \<notin> set (ms_chain s)" using C(3) by blast
  have nth: "ms_chain s ! i \<noteq> ?x" if "i \<le> length (ms_pushed s)" for i
    using fr that C(1) by (metis le_imp_less_Suc nth_mem)
  have own: "new_node_of (ms_pc s u) \<noteq> Some ?x" for u
    using D(6) [of u] by (cases "ms_pc s u") (auto simp: ms_owned_def)
  have ok: "ms_pc_ok (Put_new t item s) p" if "ms_pc_ok s p" for p
    using that C(3) by (cases p) (auto simp: Put_new_def ms_go_def ms_owned_def)
  show ?thesis
  proof (rule ms_invI)
    show "chain_ok (Put_new t item s)"
      using C nth by (auto simp: chain_ok_def Put_new_def ms_go_def less_Suc_eq)
    show "items_ok (Put_new t item s)"
      using D(2) nth by (simp add: items_ok_def Put_new_def ms_go_def)
    show "ms_pc_ok (Put_new t item s) (ms_pc (Put_new t item s) u)" for u
      using ok [OF D(6) [of u]] fr by (cases "u = t") (simp_all add: Put_new_def ms_go_def ms_owned_def)
    show "uniq new_node_of (ms_pc (Put_new t item s))"
      using uniq_upd_new [OF D(7) _ own, of "PtLoadTail ?x"] by (simp add: Put_new_def ms_go_def)
    show "uniq ticket_of (ms_pc (Put_new t item s))"
      using uniq_upd_None [OF D(8), of "PtLoadTail ?x"] by (simp add: Put_new_def ms_go_def)
  qed (use D(3-5,9,10) in \<open>simp_all add: Put_new_def ms_go_def\<close>)
qed

lemma ms_inv_link:
  assumes I: "ms_inv s" and pc: "ms_pc s t = PtLink x ct" and nx: "ms_next s ct = None"
  shows "ms_inv (Put_link t x ct False s)"
proof -
  note D = ms_invD [OF I] and C = chain_okD [OF ms_invD(1) [OF I]]
  let ?n = "length (ms_pushed s)"
  have ct: "ct = ms_chain s ! ?n"
    using D(6) [of t] pc nx by (auto elim!: chain_index [OF D(1)] split: if_splits)
  have x: "x < ms_fresh s" "x \<notin> set (ms_chain s)" "ms_next s x = None" and "\<exists>v. ms_value s x = Some v"
    using D(6) [of t] pc by (auto simp: ms_owned_def)
  then obtain v where v: "ms_value s x = Some v" by blast
  have xct: "ct \<in> set (ms_chain s)" "ct \<noteq> x" using D(6) [of t] pc x(2) by auto
  let ?s = "s\<lparr>ms_next := (ms_next s)(ct := Some x), ms_chain := ms_chain s @ [x], ms_pushed := ms_pushed s @ [v], ms_pc := (ms_pc s)(t := PtTail x)\<rparr>"
  have eq: "Put_link t x ct False s = ?s"
    by (simp add: Put_link_def touch_id [OF I] nx v ms_go_def)
  have nth: "ms_chain s ! i \<noteq> ct" if "i < ?n" for i
    using that C(1,2) ct by (simp add: nth_eq_iff_index_eq)
  have own: "ms_owned ?s y" if "ms_owned s y" "y \<noteq> x" for y
    using that xct by (auto simp: ms_owned_def)
  have cl: "(ms_chain s @ [x]) ! k = ms_chain s ! k" if "k < ms_claimed s" for k
    using that D(3) C(1) by (simp add: nth_append)
  have ok: "ms_pc_ok ?s p" if "ms_pc_ok s p" "new_node_of p \<noteq> Some x" for p
    using that own cl by (cases p) auto
  have other: "new_node_of (ms_pc s u) \<noteq> Some x" if "u \<noteq> t" for u
    using D(7) pc that unfolding uniq_def by (metis new_node_of.simps(4))
  show ?thesis unfolding eq
  proof (rule ms_invI)
    have "ms_next ?s (ms_chain ?s ! i) = Some (ms_chain ?s ! Suc i)" if "i < Suc ?n" for i
      using that C(1,4) nth ct by (cases "i = ?n") (auto simp: nth_append)
    moreover have "ms_next ?s x = None" using x(3) xct(2) by simp
    ultimately show "chain_ok ?s" using C(1-3) x(1,2) by (auto simp: chain_ok_def nth_append)
    have val: "ms_value s ((ms_chain s @ [x]) ! Suc i) = Some ((ms_pushed s @ [v]) ! i)"
      if "i < Suc ?n" "i \<notin> fst ` set (ms_returned s)" for i
      using that D(2) v C(1) by (cases "i = ?n") (auto simp: items_ok_def nth_append)
    have ret: "k < ms_claimed s \<and> w = Some ((ms_pushed s @ [v]) ! k)" if "(k, w) \<in> set (ms_returned s)" for k w
    proof -
      have "k < ms_claimed s" "w = Some (ms_pushed s ! k)" using that D(2) unfolding items_ok_def by blast+
      then show ?thesis using D(3) by (simp add: nth_append)
    qed
    show "items_ok ?s" using val ret D(2) by (simp add: items_ok_def)
    show "ms_head ?s = ms_chain ?s ! ms_claimed ?s" using D(3,4) C(1) by (simp add: nth_append)
    show "ms_pc_ok ?s (ms_pc ?s u)" for u
      using ok [OF D(6) other] by (cases "u = t") simp_all
    show "uniq new_node_of (ms_pc ?s)" using uniq_upd_None [OF D(7), of "PtTail x"] by simp
    show "uniq ticket_of (ms_pc ?s)" using uniq_upd_None [OF D(8), of "PtTail x"] by simp
  qed (use D(3,5,9,10) in simp_all)
qed

lemma ms_inv_cas:
  assumes I: "ms_inv s" and pc: "ms_pc s t = TkCas ch"
  shows "ms_inv (Take_cas t ch b s)"
proof -
  note D = ms_invD [OF I] and C = chain_okD [OF ms_invD(1) [OF I]]
  have ch: "ch \<in> set (ms_chain s)" "ms_next s ch \<noteq> None" using D(6) [of t] pc by simp_all
  then obtain i where i: "i < length (ms_pushed s)" "ch = ms_chain s ! i" "ms_next s ch = Some (ms_chain s ! Suc i)"
    using chain_index [OF D(1) ch(1)] by (metis le_neq_implies_less)
  show ?thesis
  proof (cases "ms_head s = ch \<and> \<not> b")
    case False
    then have "Take_cas t ch b s = ms_go t TkLoadHead s" by (auto simp: Take_cas_def touch_id [OF I] i(3))
    then show ?thesis using ms_inv_go [OF I, of TkLoadHead t] by simp
  next
    case True
    then have ic: "i = ms_claimed s" using D(3,4) i C(1,2) by (simp add: nth_eq_iff_index_eq)
    let ?s = "s\<lparr>ms_head := ms_chain s ! Suc i, ms_claimed := Suc (ms_claimed s), ms_pc := (ms_pc s)(t := TkRead ch i)\<rparr>"
    have eq: "Take_cas t ch b s = ?s" using True by (simp add: Take_cas_def touch_id [OF I] i(3) ms_go_def ic)
    have new: "ticket_of (ms_pc s u) \<noteq> Some i" for u
      using D(6) [of u] ic by (cases "ms_pc s u") auto
    have ret: "k < ms_claimed s" if "k \<in> fst ` set (ms_returned s)" for k
      using that D(2) by (auto simp: items_ok_def)
    have ok: "ms_pc_ok ?s p" if "ms_pc_ok s p" for p
      using that by (cases p) (auto simp: ms_owned_def)
    show ?thesis unfolding eq
    proof (rule ms_invI)
      show "items_ok ?s" using D(2) by (auto simp: items_ok_def less_Suc_eq)
      show "ms_pc_ok ?s (ms_pc ?s u)" for u
        using ok [OF D(6) [of u]] ret [of i] i(2) ic by (cases "u = t") auto
      show "uniq new_node_of (ms_pc ?s)" using uniq_upd_None [OF D(7), of "TkRead ch i"] by simp
      show "uniq ticket_of (ms_pc ?s)" using uniq_upd_new [OF D(8) _ new, of "TkRead ch i"] by simp
    qed (use D(1,3,4,5,9,10) i(1) ic in simp_all)
  qed
qed

lemma ms_inv_read:
  assumes I: "ms_inv s" and pc: "ms_pc s t = TkRead ch k"
  shows "ms_inv (Take_read False t ch k s)"
proof -
  note D = ms_invD [OF I] and C = chain_okD [OF ms_invD(1) [OF I]]
  have k: "k < ms_claimed s" "ch = ms_chain s ! k" "k \<notin> fst ` set (ms_returned s)" using D(6) [of t] pc by simp_all
  have kl: "k < length (ms_pushed s)" using k(1) D(3) by simp
  let ?nx = "ms_chain s ! Suc k"
  have nx: "ms_next s ch = Some ?nx" using C(4) [OF kl] k(2) by simp
  have val: "ms_value s ?nx = Some (ms_pushed s ! k)" using D(2) kl k(3) by (simp add: items_ok_def)
  let ?s = "s\<lparr>ms_value := (ms_value s)(?nx := None), ms_returned := ms_returned s @ [(k, Some (ms_pushed s ! k))], ms_pc := (ms_pc s)(t := TkCount)\<rparr>"
  have eq: "Take_read False t ch k s = ?s"
    by (simp add: Take_read_def touch_id [OF I] nx val ms_go_def)
  have nth: "ms_chain s ! Suc i \<noteq> ?nx" if "i < length (ms_pushed s)" "i \<noteq> k" for i
    using that C(1,2) kl by (simp add: nth_eq_iff_index_eq)
  have mem: "?nx \<in> set (ms_chain s)" using C(1) kl by simp
  have ok: "ms_pc_ok ?s p" if "ms_pc_ok s p" "ticket_of p \<noteq> Some k" for p
    using that mem by (cases p) (auto simp: ms_owned_def)
  have other: "ticket_of (ms_pc s u) \<noteq> Some k" if "u \<noteq> t" for u
    using D(8) pc that unfolding uniq_def by (metis ticket_of.simps(1))
  show ?thesis unfolding eq
  proof (rule ms_invI)
    show "items_ok ?s" using D(2) nth k by (auto simp: items_ok_def image_iff)
    show "ms_pc_ok ?s (ms_pc ?s u)" for u using ok [OF D(6) other] by (cases "u = t") simp_all
    show "uniq new_node_of (ms_pc ?s)" using uniq_upd_None [OF D(7), of TkCount] by simp
    show "uniq ticket_of (ms_pc ?s)" using uniq_upd_None [OF D(8), of TkCount] by simp
  qed (use D(1,3,4,5,9,10) in simp_all)
qed

lemma ms_inv_help:
  assumes I: "ms_inv s" and pc: "ms_pc s t = PtHelp x ct"
  shows "ms_inv (Put_help t x ct b s)"
proof -
  note D = ms_invD [OF I]
  have ct: "ct \<in> set (ms_chain s)" "ms_owned s x" using D(6) [of t] pc by simp_all
  obtain nx where nx: "ms_next s ct = Some nx" using D(6) [of t] pc by auto
  note T = ms_inv_tail [OF I chain_next_mem [OF D(1) ct(1) nx]]
  have "ms_inv (ms_go t (PtLoadTail x) (s\<lparr>ms_tail := nx\<rparr>))"
    by (rule ms_inv_go [OF T]) (use ct pc in simp_all)
  moreover have "ms_inv (ms_go t (PtLink x (ms_tail s)) s)"
    by (rule ms_inv_go [OF I]) (use ct pc D(5) in simp_all)
  ultimately show ?thesis by (simp add: Put_help_def touch_id [OF I] nx)
qed

lemma ms_inv_step:
  assumes I: "ms_inv s" and st: "ms_step False (t, a) s = Some s'"
  shows "ms_inv s'"
proof -
  note D = ms_invD [OF I]
  show ?thesis
  proof (cases a)
    case (MsPut item)
    with st ms_inv_new [OF I] show ?thesis by (auto split: if_splits)
  next
    case MsTake
    with st ms_inv_go [OF I, of TkLoadHead t] show ?thesis by (auto split: if_splits)
  next
    case (MsGarbage g)
    with st obtain x where x: "ms_pc s t = PtTail x" "s' = Put_tail t x g s" by (auto split: ms_pc.splits)
    have "x \<in> set (ms_chain s)" using D(6) [of t] x(1) by simp
    then show ?thesis unfolding x(2) Put_tail_def
      using ms_inv_go [OF I, of PtCount t] ms_inv_go [OF ms_inv_tail [OF I], of x PtCount t] by simp
  next
    case MsSpurious
    then consider x ct where "ms_pc s t = PtHelp x ct" "s' = Put_help t x ct True s"
      | x ct where "ms_pc s t = PtLink x ct" "s' = Put_link t x ct True s"
      | ch where "ms_pc s t = TkCas ch" "s' = Take_cas t ch True s"
      using st by (auto split: ms_pc.splits)
    then show ?thesis
    proof cases
      case 2
      then show ?thesis using ms_inv_go [OF I, of "PtLoadTail x" t] D(6) [of t] by (simp add: Put_link_def touch_id [OF I])
    qed (simp_all add: ms_inv_help [OF I] ms_inv_cas [OF I])
  next
    case MsStep
    note st' = st [unfolded MsStep ms_step.simps]
    show ?thesis
    proof (cases "ms_pc s t")
      case (PtLoadTail x)
      with st' ms_inv_go [OF I, of "PtCheckNext x (ms_tail s)" t] D(5) D(6) [of t] show ?thesis
        by (auto simp: Put_load_tail_def)
    next
      case (PtCheckNext x ct)
      with st' ms_inv_go [OF I, of "PtHelp x ct" t] ms_inv_go [OF I, of "PtLink x ct" t] D(6) [of t] show ?thesis
        by (auto simp: Put_check_next_def touch_id [OF I] split: if_splits)
    next
      case (PtHelp x ct)
      with st' ms_inv_help [OF I PtHelp, of False] show ?thesis by simp
    next
      case (PtLink x ct)
      show ?thesis
      proof (cases "ms_next s ct = None")
        case True
        with st' PtLink ms_inv_link [OF I PtLink] show ?thesis by simp
      next
        case False
        with st' PtLink ms_inv_go [OF I, of "PtLoadTail x" t] D(6) [of t] show ?thesis
          by (simp add: Put_link_def touch_id [OF I])
      qed
    next
      case PtCount
      with st' ms_inv_go [OF ms_inv_size [OF I], where p = MsIdle and t = t] show ?thesis by (auto simp: Put_count_def)
    next
      case TkLoadHead
      have "ms_head s \<in> set (ms_chain s)" using D(3,4) chain_okD(1) [OF D(1)] by simp
      with st' TkLoadHead ms_inv_go [OF I, of "TkCheck (ms_head s)" t] show ?thesis by (auto simp: Take_load_head_def)
    next
      case (TkCheck ch)
      with st' ms_inv_go [OF I, of "TkCas ch" t] ms_inv_go [OF I, of MsIdle t] D(6) [of t] show ?thesis
        by (auto simp: Take_check_def touch_id [OF I] split: if_splits)
    next
      case (TkCas ch)
      with st' ms_inv_cas [OF I TkCas, of False] show ?thesis by simp
    next
      case (TkRead ch k)
      with st' ms_inv_read [OF I TkRead] show ?thesis by simp
    next
      case (TkGarbage ch)
      with D(6) [of t] show ?thesis by simp
    next
      case TkCount
      with st' ms_inv_go [OF ms_inv_size [OF I], where p = MsIdle and t = t] show ?thesis by (auto simp: Take_count_def)
    qed (use st' in simp_all)
  qed
qed

subsection \<open>The size counter\<close>

text \<open>
  \<open>size_\<close> counts the pushes that have incremented it less the takes that have decremented it; the
  others are at the program points below.
\<close>

fun at_put_count :: "ms_pc \<Rightarrow> bool" where
  "at_put_count (PtTail x) = True"
| "at_put_count PtCount = True"
| "at_put_count _ = False"

fun at_take_read :: "ms_pc \<Rightarrow> bool" where
  "at_take_read (TkRead ch k) = True"
| "at_take_read _ = False"

fun at_take_count :: "ms_pc \<Rightarrow> bool" where
  "at_take_count (TkGarbage ch) = True"
| "at_take_count TkCount = True"
| "at_take_count _ = False"

definition ms_counts :: "nat \<Rightarrow> 'a msq \<Rightarrow> bool" where
  "ms_counts n s \<longleftrightarrow>
     ms_size s + of_nat (cnt n at_put_count (ms_pc s) + length (ms_returned s)) =
       of_nat (length (ms_pushed s) + cnt n at_take_count (ms_pc s)) \<and>
     ms_claimed s = length (ms_returned s) + cnt n at_take_read (ms_pc s)"

text \<open>The queue used by the threads \<open>0..<n\<close>.\<close>

definition ms_sys :: "nat \<Rightarrow> tid \<times> 'a ms_act \<Rightarrow> 'a msq \<Rightarrow> 'a msq option" where
  "ms_sys n a s = (if fst a < n then ms_step False a s else None)"

lemma word_balance:
  fixes S :: size_t
  assumes "S + (A + R) = L + C" and "S' + (bp + R' + ds + L) = S + (bs + R + dp + L')"
    and "A' + bs = A + bp" and "C' + ds = C + dp"
  shows "S' + (A' + R') = L' + C'"
proof -
  have "S' + (A' + R') + (bp + ds + L + bs) = (S' + (bp + R' + ds + L)) + (A' + bs)" by (simp add: ac_simps)
  also have "\<dots> = (S + (A + R)) + (bs + dp + L' + bp)" unfolding assms(2,3) by (simp add: ac_simps)
  also have "\<dots> = (C + dp) + (L + bs + L' + bp)" unfolding assms(1) by (simp add: ac_simps)
  also have "\<dots> = (L' + C') + (bp + ds + L + bs)" unfolding assms(4) [symmetric] by (simp add: ac_simps)
  finally show ?thesis by (simp only: add_right_cancel)
qed

lemma ms_counts_change:
  assumes c: "ms_counts n s" and t: "t < n"
    and pc: "ms_pc s' = (ms_pc s)(t := p)"
    and sz: "ms_size s' + of_nat (of_bool (at_put_count p) + length (ms_returned s') + of_bool (at_take_count (ms_pc s t)) + length (ms_pushed s)) =
      ms_size s + of_nat (of_bool (at_put_count (ms_pc s t)) + length (ms_returned s) + of_bool (at_take_count p) + length (ms_pushed s'))"
    and cl: "ms_claimed s' + length (ms_returned s) + of_bool (at_take_read (ms_pc s t)) =
      ms_claimed s + length (ms_returned s') + of_bool (at_take_read p)"
  shows "ms_counts n s'"
proof -
  note U = cnt_upd [OF t, of _ "ms_pc s" p]
  have w: "(of_nat (cnt n P ((ms_pc s)(t := p))) :: size_t) + of_nat (of_bool (P (ms_pc s t))) =
      of_nat (cnt n P (ms_pc s)) + of_nat (of_bool (P p))" for P
    using U [of P] by (metis of_nat_add)
  have "ms_size s' + of_nat (cnt n at_put_count (ms_pc s') + length (ms_returned s')) =
       of_nat (length (ms_pushed s') + cnt n at_take_count (ms_pc s'))"
    using c [unfolded ms_counts_def, THEN conjunct1] sz unfolding of_nat_add pc by (rule word_balance [OF _ _ w w])
  moreover have "ms_claimed s' = length (ms_returned s') + cnt n at_take_read (ms_pc s')"
    using c cl U [of at_take_read] unfolding ms_counts_def pc by linarith
  ultimately show ?thesis by (simp add: ms_counts_def)
qed

lemma ms_counts_step:
  assumes I: "ms_inv s" and c: "ms_counts n s" and t: "t < n" and st: "ms_step False (t, a) s = Some s'"
  shows "ms_counts n s'"
proof -
  note D = ms_invD [OF I]
  have nx: "ms_next s (ms_chain s ! k) \<noteq> None" if "k < ms_claimed s" for k
    using chain_okD(4) [OF D(1)] that D(3) by simp
  have "\<exists>p. ms_pc s' = (ms_pc s)(t := p) \<and>
    ms_size s' + of_nat (of_bool (at_put_count p) + length (ms_returned s') + of_bool (at_take_count (ms_pc s t)) + length (ms_pushed s)) =
      ms_size s + of_nat (of_bool (at_put_count (ms_pc s t)) + length (ms_returned s) + of_bool (at_take_count p) + length (ms_pushed s')) \<and>
    ms_claimed s' + length (ms_returned s) + of_bool (at_take_read (ms_pc s t)) =
      ms_claimed s + length (ms_returned s') + of_bool (at_take_read p)"
  proof (cases "(False, (t, a), s)" rule: ms_step.cases)
    case (1 gc u item r)
    with st show ?thesis by (auto simp: ms_ops split: if_splits)
  next
    case (2 gc u r)
    with st show ?thesis by (auto simp: ms_ops split: if_splits)
  next
    case (3 gc u r)
    with st D(6) [of t] nx show ?thesis
      by (auto simp: ms_ops ms_owned_def Let_def split: ms_pc.splits option.splits if_splits) (metis option.distinct(1))+
  next
    case (4 gc u r)
    with st D(6) [of t] nx show ?thesis
      by (auto simp: ms_ops ms_owned_def Let_def split: ms_pc.splits option.splits if_splits)
  next
    case (5 gc u g r)
    with st show ?thesis by (auto simp: ms_ops split: ms_pc.splits)
  qed
  then show ?thesis using ms_counts_change [OF c t] by blast
qed

interpretation ms: inv_system MSQueue_construct "ms_sys n" "\<lambda>s. ms_inv s \<and> ms_counts n s" for n
proof (unfold_locales, goal_cases)
  case 1
  have "ms_inv (MSQueue_construct :: 'a msq)"
    by (rule ms_invI) (simp_all add: MSQueue_construct_def chain_ok_def items_ok_def uniq_def)
  moreover have "ms_counts n (MSQueue_construct :: 'a msq)"
    by (simp add: ms_counts_def MSQueue_construct_def cnt_const)
  ultimately show ?case by simp
next
  case (2 s a s')
  then have "fst a < n" "ms_step False (fst a, snd a) s = Some s'" by (auto simp: ms_sys_def split: if_splits)
  then show ?case using 2 ms_inv_step ms_counts_step by blast
qed


text \<open>MSQueue frees nodes that a slow Put still uses: with one Put stalled after it loaded
  \<open>tail_\<close>, eleven Puts and ten Takes of another thread free the sentinel the first Put then
  reads.\<close>

theorem msqueue_use_after_free:
  "let put = [(0, MsPut (7::nat)), (0, MsStep), (0, MsStep), (0, MsStep), (0, MsStep), (0, MsStep), (0, MsStep), (0, MsGarbage 99), (0, MsStep)];
       take1 = [(0, MsTake), (0, MsStep), (0, MsStep), (0, MsStep), (0, MsStep), (0, MsStep), (0, MsStep)];
       s = run (ms_step True) ([(1, MsPut 5), (1, MsStep)] @ concat (replicate 11 put) @ concat (replicate 10 take1)) MSQueue_construct
   in ms_pc s 1 = PtCheckNext 1 0 \<and> ms_freed s = [0, 2, 3, 4, 5] \<and> \<not> ms_uaf s \<and>
      map_option ms_uaf (ms_step True (1, MsStep) s) = Some True"
  by code_simp

end
