(* ===== verification/Strand.thy ===== *)
theory Strand
  imports Prelude
begin

section \<open>Strand and ManualExecutor\<close>

text \<open>
  \<open>tasks/executors/exe/executors/strand.cpp\<close>: tasks go through a lock-free queue (MSQueue, here the
  list of what is linked and its size counter, which lags behind) and a counter \<open>scheduled_\<close>; the
  submitter that finds 0 submits \<open>Run\<close> to the underlying executor. \<open>Run\<close> takes a batch, runs it,
  subtracts its size and resubmits itself if more was scheduled. The counters are 64-bit words:
  a Run may take tasks whose submitters have not yet incremented \<open>scheduled_\<close>, which then wraps
  below 0. \<open>impl_refs\<close> is the reference count of \<open>Impl\<close>: the strand object and every submitted Run
  hold one.
\<close>

datatype st_pc =
    StIdle
  | StCount               \<comment> \<open>in Submit: linked, about to increment the queue's size\<close>
  | StSched               \<comment> \<open>about to increment \<open>scheduled_\<close>\<close>
  | StSelf                \<comment> \<open>about to call SubmitSelf\<close>

text \<open>Where the submitted Run is. At most one is before its fetch_sub; those after it only release their reference.\<close>

datatype 'a run_pc =
    RunNone
  | RunQueued                          \<comment> \<open>submitted to the underlying executor\<close>
  | RunTake "'a list"                  \<comment> \<open>with \<open>processing_tasks\<close>, about to take one more\<close>
  | RunTaken "'a list"                 \<comment> \<open>about to decrement the queue's size\<close>
  | RunCheck "'a list"                 \<comment> \<open>about to evaluate IsEmpty\<close>
  | RunTasks "'a list" nat             \<comment> \<open>running the rest of the batch, with the count so far\<close>
  | RunSub nat                         \<comment> \<open>about to subtract \<open>completed\<close>\<close>
  | RunResubmit                        \<comment> \<open>more was scheduled: about to call SubmitSelf\<close>

record 'a strand =
  st_queue :: "'a list"                \<comment> \<open>linked and not taken\<close>
  q_size :: size_t
  scheduled :: size_t
  st_pc :: "tid \<Rightarrow> st_pc"
  st_run :: "'a run_pc"
  releasing :: nat                     \<comment> \<open>Runs that have only to release their reference\<close>
  impl_refs :: size_t
  impl_freed :: bool
  st_owner :: bool                     \<comment> \<open>the strand object exists\<close>
  st_fault :: bool                     \<comment> \<open>\<open>value()\<close> of an empty optional, or use of a freed Impl\<close>
  st_submitted :: "'a list"            \<comment> \<open>ghost: in the order of linking\<close>
  st_executed :: "'a list"             \<comment> \<open>ghost\<close>

definition Strand_construct :: "'a strand" where
  "Strand_construct = \<lparr>st_queue = [], q_size = 0, scheduled = 0, st_pc = (\<lambda>_. StIdle), st_run = RunNone, releasing = 0,
     impl_refs = 1, impl_freed = False, st_owner = True, st_fault = False, st_submitted = [], st_executed = []\<rparr>"

text \<open>Every access to the Impl.\<close>

definition use_impl :: "'a strand \<Rightarrow> 'a strand" where
  "use_impl s = s\<lparr>st_fault := st_fault s \<or> impl_freed s\<rparr>"

definition Impl_ReleaseRef :: "'a strand \<Rightarrow> 'a strand" where
  "Impl_ReleaseRef s = (use_impl s)\<lparr>impl_refs := impl_refs s - 1, impl_freed := impl_freed s \<or> impl_refs s = 1\<rparr>"

definition SubmitSelf :: "'a strand \<Rightarrow> 'a strand" where
  "SubmitSelf s = (use_impl s)\<lparr>impl_refs := impl_refs s + 1, st_run := RunQueued,
     st_fault := st_fault (use_impl s) \<or> st_run s \<noteq> RunNone\<rparr>"

definition Strand_Submit_put :: "tid \<Rightarrow> 'a \<Rightarrow> 'a strand \<Rightarrow> 'a strand" where
  "Strand_Submit_put t task s = (use_impl s)\<lparr>st_queue := st_queue s @ [task], st_submitted := st_submitted s @ [task],
     st_pc := (st_pc s)(t := StCount)\<rparr>"

definition Strand_Submit_size :: "tid \<Rightarrow> 'a strand \<Rightarrow> 'a strand" where
  "Strand_Submit_size t s = (use_impl s)\<lparr>q_size := q_size s + 1, st_pc := (st_pc s)(t := StSched)\<rparr>"

definition Strand_Submit_sched :: "tid \<Rightarrow> 'a strand \<Rightarrow> 'a strand" where
  "Strand_Submit_sched t s = (use_impl s)\<lparr>scheduled := scheduled s + 1,
     st_pc := (st_pc s)(t := (if scheduled s = 0 then StSelf else StIdle))\<rparr>"

definition Strand_Submit_self :: "tid \<Rightarrow> 'a strand \<Rightarrow> 'a strand" where
  "Strand_Submit_self t s = SubmitSelf (s\<lparr>st_pc := (st_pc s)(t := StIdle)\<rparr>)"

definition Run_take :: "'a list \<Rightarrow> 'a strand \<Rightarrow> 'a strand" where
  "Run_take processing_tasks s = (case st_queue s of
     [] \<Rightarrow> (use_impl s)\<lparr>st_fault := True\<rparr>
   | x # xs \<Rightarrow> (use_impl s)\<lparr>st_queue := xs, st_run := RunTaken (processing_tasks @ [x])\<rparr>)"

definition Run_size :: "'a list \<Rightarrow> 'a strand \<Rightarrow> 'a strand" where
  "Run_size processing_tasks s = (use_impl s)\<lparr>q_size := q_size s - 1, st_run := RunCheck processing_tasks\<rparr>"

definition Run_check :: "'a list \<Rightarrow> 'a strand \<Rightarrow> 'a strand" where
  "Run_check processing_tasks s = (use_impl s)\<lparr>st_run :=
     (if q_size s \<noteq> 0 then RunTake processing_tasks else RunTasks processing_tasks 0)\<rparr>"

definition RunTasks_step :: "'a list \<Rightarrow> nat \<Rightarrow> 'a strand \<Rightarrow> 'a strand" where
  "RunTasks_step processing_tasks c s = (case processing_tasks of
     [] \<Rightarrow> s\<lparr>st_run := RunSub c\<rparr>
   | x # xs \<Rightarrow> s\<lparr>st_executed := st_executed s @ [x], st_run := RunTasks xs (Suc c)\<rparr>)"

definition Run_sub :: "nat \<Rightarrow> 'a strand \<Rightarrow> 'a strand" where
  "Run_sub completed s = (let prev_queue_size = scheduled s;
     s1 = (use_impl s)\<lparr>scheduled := prev_queue_size - of_nat completed\<rparr>
     in if of_nat completed < prev_queue_size then s1\<lparr>st_run := RunResubmit\<rparr>
        else s1\<lparr>st_run := RunNone, releasing := Suc (releasing s)\<rparr>)"

definition Run_resubmit :: "'a strand \<Rightarrow> 'a strand" where
  "Run_resubmit s = SubmitSelf (s\<lparr>st_run := RunNone, releasing := Suc (releasing s)\<rparr>)"

definition Run_release :: "'a strand \<Rightarrow> 'a strand" where
  "Run_release s = Impl_ReleaseRef (s\<lparr>releasing := releasing s - 1\<rparr>)"

text \<open>The owner destroys the strand when nobody is in Submit.\<close>

definition Strand_destroy :: "'a strand \<Rightarrow> 'a strand" where
  "Strand_destroy s = (Impl_ReleaseRef s)\<lparr>st_owner := False\<rparr>"

datatype 'a st_act = StSubmit tid 'a | StThread tid | StRun | StRelease | StDestroy

fun strand_step :: "nat \<Rightarrow> 'a st_act \<Rightarrow> 'a strand \<Rightarrow> 'a strand option" where
  "strand_step n (StSubmit t task) s =
     (if t < n \<and> st_owner s \<and> st_pc s t = StIdle then Some (Strand_Submit_put t task s) else None)"
| "strand_step n (StThread t) s = (if t < n then (case st_pc s t of
     StIdle \<Rightarrow> None
   | StCount \<Rightarrow> Some (Strand_Submit_size t s)
   | StSched \<Rightarrow> Some (Strand_Submit_sched t s)
   | StSelf \<Rightarrow> Some (Strand_Submit_self t s)) else None)"
| "strand_step n StRun s = (case st_run s of
     RunNone \<Rightarrow> None
   | RunQueued \<Rightarrow> Some (s\<lparr>st_run := RunTake []\<rparr>)
   | RunTake xs \<Rightarrow> Some (Run_take xs s)
   | RunTaken xs \<Rightarrow> Some (Run_size xs s)
   | RunCheck xs \<Rightarrow> Some (Run_check xs s)
   | RunTasks xs c \<Rightarrow> Some (RunTasks_step xs c s)
   | RunSub c \<Rightarrow> Some (Run_sub c s)
   | RunResubmit \<Rightarrow> Some (Run_resubmit s))"
| "strand_step n StRelease s = (if releasing s = 0 then None else Some (Run_release s))"
| "strand_step n StDestroy s =
     (if st_owner s \<and> list_all (\<lambda>t. st_pc s t = StIdle) [0..<n] then Some (Strand_destroy s) else None)"

lemmas strand_ops = use_impl_def Impl_ReleaseRef_def SubmitSelf_def Strand_Submit_put_def Strand_Submit_size_def
  Strand_Submit_sched_def Strand_Submit_self_def Run_take_def Run_size_def Run_check_def RunTasks_step_def Run_sub_def
  Run_resubmit_def Run_release_def Strand_destroy_def

subsection \<open>The invariant\<close>

text \<open>
  \<open>sched_int\<close> and \<open>size_int\<close> are the counters as integers: what is linked or in the current batch,
  less the submitters that have not yet counted theirs.
\<close>

fun batch :: "'a run_pc \<Rightarrow> nat" where
  "batch (RunTake xs) = length xs"
| "batch (RunTaken xs) = length xs"
| "batch (RunCheck xs) = length xs"
| "batch (RunTasks xs c) = length xs + c"
| "batch (RunSub c) = c"
| "batch _ = 0"

fun batch_tasks :: "'a run_pc \<Rightarrow> 'a list" where
  "batch_tasks (RunTake xs) = xs"
| "batch_tasks (RunTaken xs) = xs"
| "batch_tasks (RunCheck xs) = xs"
| "batch_tasks (RunTasks xs c) = xs"
| "batch_tasks _ = []"

fun uncounted :: "'a run_pc \<Rightarrow> int" where
  "uncounted (RunTaken xs) = 1"
| "uncounted _ = 0"

abbreviation unscheduled :: "st_pc \<Rightarrow> bool" where "unscheduled p \<equiv> p = StCount \<or> p = StSched"

definition sched_int :: "nat \<Rightarrow> 'a strand \<Rightarrow> int" where
  "sched_int n s = int (length (st_queue s)) + int (batch (st_run s)) - int (cnt n unscheduled (st_pc s))"

definition size_int :: "nat \<Rightarrow> 'a strand \<Rightarrow> int" where
  "size_int n s = int (length (st_queue s)) + uncounted (st_run s) - int (cnt n (\<lambda>p. p = StCount) (st_pc s))"

definition active :: "'a strand \<Rightarrow> nat" where
  "active s = of_bool (st_run s \<noteq> RunNone)"

definition refs_nat :: "'a strand \<Rightarrow> nat" where
  "refs_nat s = of_bool (st_owner s) + active s + releasing s"

definition counters_ok :: "nat \<Rightarrow> 'a strand \<Rightarrow> bool" where
  "counters_ok n s \<longleftrightarrow> scheduled s = of_int (sched_int n s) \<and> q_size s = of_int (size_int n s) \<and> 0 \<le> size_int n s \<and>
     ((\<exists>xs. st_run s = RunTake xs \<or> st_run s = RunTaken xs) \<longrightarrow> 1 \<le> size_int n s) \<and>
     cnt n (\<lambda>p. p = StSelf) (st_pc s) + active s = of_bool (1 \<le> sched_int n s)"

definition refs_ok :: "nat \<Rightarrow> 'a strand \<Rightarrow> bool" where
  "refs_ok n s \<longleftrightarrow> impl_refs s = of_nat (refs_nat s) \<and> (impl_freed s \<longleftrightarrow> refs_nat s = 0) \<and>
     (\<not> st_owner s \<longrightarrow> cnt n (\<lambda>p. p \<noteq> StIdle) (st_pc s) = 0)"

definition strand_inv :: "nat \<Rightarrow> nat \<Rightarrow> 'a strand \<Rightarrow> bool" where
  "strand_inv n k s \<longleftrightarrow> counters_ok n s \<and> refs_ok n s \<and> \<not> st_fault s \<and>
     st_submitted s = st_executed s @ batch_tasks (st_run s) @ st_queue s \<and>
     length (st_submitted s) \<le> k \<and> batch (st_run s) + length (st_queue s) \<le> length (st_submitted s) \<and> releasing s \<le> k"

lemma strand_invD:
  assumes "strand_inv n k s"
  shows "counters_ok n s" "refs_ok n s" "\<not> st_fault s" "st_submitted s = st_executed s @ batch_tasks (st_run s) @ st_queue s"
    "length (st_submitted s) \<le> k" "batch (st_run s) + length (st_queue s) \<le> length (st_submitted s)" "releasing s \<le> k"
  using assms unfolding strand_inv_def by blast+

lemma counters_okD:
  assumes "counters_ok n s"
  shows "scheduled s = of_int (sched_int n s)" "q_size s = of_int (size_int n s)" "0 \<le> size_int n s"
    "\<And>xs. st_run s = RunTake xs \<Longrightarrow> 1 \<le> size_int n s" "\<And>xs. st_run s = RunTaken xs \<Longrightarrow> 1 \<le> size_int n s"
    "cnt n (\<lambda>p. p = StSelf) (st_pc s) + active s = of_bool (1 \<le> sched_int n s)"
  using assms unfolding counters_ok_def by blast+

lemma refs_okD:
  assumes "refs_ok n s"
  shows "impl_refs s = of_nat (refs_nat s)" "impl_freed s \<longleftrightarrow> refs_nat s = 0"
    "\<not> st_owner s \<Longrightarrow> cnt n (\<lambda>p. p \<noteq> StIdle) (st_pc s) = 0"
  using assms unfolding refs_ok_def by blast+

lemma word_of_int_eq_0:
  assumes "\<bar>z\<bar> < 2 ^ 64"
  shows "(of_int z :: size_t) = 0 \<longleftrightarrow> z = 0"
proof
  assume "(of_int z :: size_t) = 0"
  then have "uint (of_int z :: size_t) = 0" by simp
  then have "z mod 2 ^ 64 = 0" by (simp only: uint_word_of_int of_int_eq_id take_bit_eq_mod, simp add: take_bit_eq_mod)
  then have "2 ^ 64 dvd z" by (simp only: mod_0_imp_dvd)
  with assms show "z = 0" using zdvd_not_zless [of "\<bar>z\<bar>" "2 ^ 64"] by (metis dvd_abs_iff linorder_neqE_linordered_idom not_less zero_less_abs_iff)
qed simp

text \<open>A thread in Submit: the owner exists and the Impl is not freed.\<close>

lemma not_freed_owner: "refs_ok n s \<Longrightarrow> st_owner s \<Longrightarrow> \<not> impl_freed s"
  by (simp add: refs_ok_def refs_nat_def)

lemma not_freed_run: "refs_ok n s \<Longrightarrow> st_run s \<noteq> RunNone \<Longrightarrow> \<not> impl_freed s"
  by (simp add: refs_ok_def refs_nat_def active_def)

lemma busy_owner: "refs_ok n s \<Longrightarrow> t < n \<Longrightarrow> st_pc s t \<noteq> StIdle \<Longrightarrow> st_owner s"
  using refs_okD(3) [of n s] cnt_0_iff [of n "\<lambda>p. p \<noteq> StIdle" "st_pc s"] by auto

subsection \<open>Every step keeps it\<close>

lemma strand_invI:
  assumes "scheduled s = of_int (sched_int n s)" "q_size s = of_int (size_int n s)" "0 \<le> size_int n s"
    "\<And>xs. st_run s = RunTake xs \<or> st_run s = RunTaken xs \<Longrightarrow> 1 \<le> size_int n s"
    "cnt n (\<lambda>p. p = StSelf) (st_pc s) + active s = of_bool (1 \<le> sched_int n s)"
    "impl_refs s = of_nat (refs_nat s)" "impl_freed s \<longleftrightarrow> refs_nat s = 0"
    "\<not> st_owner s \<Longrightarrow> cnt n (\<lambda>p. p \<noteq> StIdle) (st_pc s) = 0" "\<not> st_fault s"
    "st_submitted s = st_executed s @ batch_tasks (st_run s) @ st_queue s"
    "length (st_submitted s) \<le> k" "batch (st_run s) + length (st_queue s) \<le> length (st_submitted s)" "releasing s \<le> k"
  shows "strand_inv n k s"
  using assms unfolding strand_inv_def counters_ok_def refs_ok_def by blast

lemma cnt_pc:
  assumes "t < n"
  shows "int (cnt n P (f(t := x))) = int (cnt n P f) + of_bool (P x) - of_bool (P (f t))"
  using cnt_upd [OF assms, of P f x] by (simp add: of_bool_def split: if_splits)

lemma cnt_pc_nat:
  assumes "t < n" and "P (f t) = P x"
  shows "cnt n P (f(t := x)) = cnt n P f"
  using cnt_upd [OF assms(1), of P f x] assms(2) by simp

lemma strand_ints:
  assumes "strand_inv n k s" and "Suc (k + n) < 2 ^ 64"
  shows "scheduled s = 0 \<longleftrightarrow> sched_int n s = 0" "q_size s = 0 \<longleftrightarrow> size_int n s = 0" "sched_int n s < 2 ^ 64"
proof -
  note D = strand_invD [OF assms(1)]
  have P: "cnt n unscheduled (st_pc s) \<le> n" "cnt n (\<lambda>p. p = StCount) (st_pc s) \<le> n" by (rule cnt_le)+
  have "int (Suc (k + n)) < int (2 ^ 64)" using assms(2) by (simp only: of_nat_less_iff)
  then have kn: "int k + int n + 1 < 2 ^ 64" by simp
  have len: "length (st_queue s) + batch (st_run s) \<le> k" using D(5,6) by simp
  then have sc: "\<bar>sched_int n s\<bar> < 2 ^ 64" using P(1) kn unfolding sched_int_def by linarith
  have u: "uncounted (st_run s) \<le> 1" "0 \<le> uncounted (st_run s)" by (cases "st_run s"; simp)+
  have "\<bar>size_int n s\<bar> \<le> int k + int n + 1" using u P(2) len unfolding size_int_def by linarith
  then have sz: "\<bar>size_int n s\<bar> < 2 ^ 64" using kn by linarith
  show "scheduled s = 0 \<longleftrightarrow> sched_int n s = 0" unfolding counters_okD(1) [OF D(1)] by (rule word_of_int_eq_0 [OF sc])
  show "q_size s = 0 \<longleftrightarrow> size_int n s = 0" unfolding counters_okD(2) [OF D(1)] by (rule word_of_int_eq_0 [OF sz])
  show "sched_int n s < 2 ^ 64" using sc by linarith
qed

lemma inv_put:
  assumes I: "strand_inv n k s" and t: "t < n" "st_pc s t = StIdle" and o: "st_owner s"
  shows "strand_inv n (Suc k) (Strand_Submit_put t x s)"
proof -
  note D = strand_invD [OF I] and C = counters_okD [OF strand_invD(1) [OF I]] and R = refs_okD [OF strand_invD(2) [OF I]]
  let ?s = "Strand_Submit_put t x s"
  have f: "st_pc ?s = (st_pc s)(t := StCount)" "st_queue ?s = st_queue s @ [x]" "st_run ?s = st_run s" "scheduled ?s = scheduled s"
    "q_size ?s = q_size s" "st_owner ?s = st_owner s" "releasing ?s = releasing s" "impl_refs ?s = impl_refs s"
    "impl_freed ?s = impl_freed s" "st_fault ?s = (st_fault s \<or> impl_freed s)" "st_submitted ?s = st_submitted s @ [x]"
    "st_executed ?s = st_executed s"
    by (simp_all add: Strand_Submit_put_def use_impl_def)
  have i: "sched_int n ?s = sched_int n s" "size_int n ?s = size_int n s"
    unfolding sched_int_def size_int_def f cnt_pc [OF t(1)] by (simp_all add: t(2))
  have r: "refs_nat ?s = refs_nat s" "active ?s = active s" by (simp_all add: refs_nat_def active_def f)
  have self: "cnt n (\<lambda>p. p = StSelf) (st_pc ?s) = cnt n (\<lambda>p. p = StSelf) (st_pc s)"
    unfolding f by (rule cnt_pc_nat [OF t(1)]) (simp add: t(2))
  show ?thesis
    by (rule strand_invI; (unfold i r self)?; insert D C R o not_freed_owner [OF D(2) o]; auto simp: f)
qed

lemma inv_size:
  assumes I: "strand_inv n k s" and t: "t < n" "st_pc s t = StCount"
  shows "strand_inv n k (Strand_Submit_size t s)"
proof -
  note D = strand_invD [OF I] and C = counters_okD [OF strand_invD(1) [OF I]] and R = refs_okD [OF strand_invD(2) [OF I]]
  let ?s = "Strand_Submit_size t s"
  have o: "st_owner s" using busy_owner [OF D(2) t(1)] t(2) by simp
  have f: "st_pc ?s = (st_pc s)(t := StSched)" "st_queue ?s = st_queue s" "st_run ?s = st_run s" "scheduled ?s = scheduled s"
    "q_size ?s = q_size s + 1" "st_owner ?s = st_owner s" "releasing ?s = releasing s" "impl_refs ?s = impl_refs s"
    "impl_freed ?s = impl_freed s" "st_fault ?s = (st_fault s \<or> impl_freed s)" "st_submitted ?s = st_submitted s"
    "st_executed ?s = st_executed s"
    by (simp_all add: Strand_Submit_size_def use_impl_def)
  have i: "sched_int n ?s = sched_int n s" "size_int n ?s = size_int n s + 1"
    unfolding sched_int_def size_int_def f cnt_pc [OF t(1)] by (simp_all add: t(2))
  have r: "refs_nat ?s = refs_nat s" "active ?s = active s" by (simp_all add: refs_nat_def active_def f)
  have self: "cnt n (\<lambda>p. p = StSelf) (st_pc ?s) = cnt n (\<lambda>p. p = StSelf) (st_pc s)"
    unfolding f by (rule cnt_pc_nat [OF t(1)]) (simp add: t(2))
  show ?thesis
    by (rule strand_invI; (unfold i r self)?; insert D C R o not_freed_owner [OF D(2) o]; auto simp: f)
qed

lemma inv_sched:
  assumes I: "strand_inv n k s" and t: "t < n" "st_pc s t = StSched" and kn: "Suc (k + n) < 2 ^ 64"
  shows "strand_inv n k (Strand_Submit_sched t s)"
proof -
  note D = strand_invD [OF I] and C = counters_okD [OF strand_invD(1) [OF I]] and R = refs_okD [OF strand_invD(2) [OF I]]
  note Z = strand_ints [OF I kn]
  let ?s = "Strand_Submit_sched t s" and ?p = "if sched_int n s = 0 then StSelf else StIdle"
  have o: "st_owner s" using busy_owner [OF D(2) t(1)] t(2) by simp
  have f: "st_pc ?s = (st_pc s)(t := ?p)" "st_queue ?s = st_queue s" "st_run ?s = st_run s" "scheduled ?s = scheduled s + 1"
    "q_size ?s = q_size s" "st_owner ?s = st_owner s" "releasing ?s = releasing s" "impl_refs ?s = impl_refs s"
    "impl_freed ?s = impl_freed s" "st_fault ?s = (st_fault s \<or> impl_freed s)" "st_submitted ?s = st_submitted s"
    "st_executed ?s = st_executed s"
    by (simp_all add: Strand_Submit_sched_def use_impl_def Z(1))
  have i: "sched_int n ?s = sched_int n s + 1" "size_int n ?s = size_int n s"
    unfolding sched_int_def size_int_def f cnt_pc [OF t(1)] by (simp_all add: t(2))
  have r: "refs_nat ?s = refs_nat s" "active ?s = active s" by (simp_all add: refs_nat_def active_def f)
  have "int (cnt n (\<lambda>p. p = StSelf) (st_pc ?s)) = int (cnt n (\<lambda>p. p = StSelf) (st_pc s)) + of_bool (sched_int n s = 0)"
    unfolding f cnt_pc [OF t(1)] by (simp add: t(2))
  then have self: "cnt n (\<lambda>p. p = StSelf) (st_pc ?s) = cnt n (\<lambda>p. p = StSelf) (st_pc s) + of_bool (sched_int n s = 0)"
    by (simp add: of_bool_def split: if_splits)
  show ?thesis
    by (rule strand_invI; (unfold i r self)?; insert D C R o not_freed_owner [OF D(2) o]; auto simp: f)
qed

lemma inv_self:
  assumes I: "strand_inv n k s" and t: "t < n" "st_pc s t = StSelf"
  shows "strand_inv n k (Strand_Submit_self t s)"
proof -
  note D = strand_invD [OF I] and C = counters_okD [OF strand_invD(1) [OF I]] and R = refs_okD [OF strand_invD(2) [OF I]]
  let ?s = "Strand_Submit_self t s"
  have o: "st_owner s" using busy_owner [OF D(2) t(1)] t(2) by simp
  have "0 < cnt n (\<lambda>p. p = StSelf) (st_pc s)" using t by (auto simp: cnt_pos_iff)
  with C(6) have a: "active s = 0" "1 \<le> sched_int n s" "cnt n (\<lambda>p. p = StSelf) (st_pc s) = 1"
    by (auto simp: of_bool_def active_def split: if_splits)
  have rn: "st_run s = RunNone" using a(1) by (simp add: active_def)
  have f: "st_pc ?s = (st_pc s)(t := StIdle)" "st_queue ?s = st_queue s" "st_run ?s = RunQueued" "scheduled ?s = scheduled s"
    "q_size ?s = q_size s" "st_owner ?s = st_owner s" "releasing ?s = releasing s" "impl_refs ?s = impl_refs s + 1"
    "impl_freed ?s = impl_freed s" "st_fault ?s = (st_fault s \<or> impl_freed s)" "st_submitted ?s = st_submitted s"
    "st_executed ?s = st_executed s"
    by (simp_all add: Strand_Submit_self_def SubmitSelf_def use_impl_def rn)
  have i: "sched_int n ?s = sched_int n s" "size_int n ?s = size_int n s"
    unfolding sched_int_def size_int_def f cnt_pc [OF t(1)] by (simp_all add: t(2) rn)
  have r: "refs_nat ?s = Suc (refs_nat s)" "active ?s = 1" by (simp_all add: refs_nat_def active_def f rn)
  have "int (cnt n (\<lambda>p. p = StSelf) (st_pc ?s)) = 0" unfolding f cnt_pc [OF t(1)] by (simp add: t(2) a(3))
  then have self: "cnt n (\<lambda>p. p = StSelf) (st_pc ?s) = 0" by simp
  show ?thesis
    by (rule strand_invI; (unfold i r self)?; insert D C R o a(2) rn not_freed_owner [OF D(2) o]; auto simp: f)
qed

text \<open>Steps of Run: the threads stay where they are.\<close>

lemma strand_inv_run:
  assumes I: "strand_inv n k s" and r: "st_run s \<noteq> RunNone" "st_run s' \<noteq> RunNone"
    and same: "st_pc s' = st_pc s" "scheduled s' = scheduled s" "st_owner s' = st_owner s" "releasing s' = releasing s"
      "impl_refs s' = impl_refs s" "impl_freed s' = impl_freed s" "st_submitted s' = st_submitted s" "st_fault s' = st_fault s"
    and b: "batch (st_run s') + length (st_queue s') = batch (st_run s) + length (st_queue s)"
    and q: "q_size s' = of_int (size_int n s')" "0 \<le> size_int n s'"
      "\<And>xs. st_run s' = RunTake xs \<or> st_run s' = RunTaken xs \<Longrightarrow> 1 \<le> size_int n s'"
    and x: "st_executed s' @ batch_tasks (st_run s') @ st_queue s' = st_executed s @ batch_tasks (st_run s) @ st_queue s"
  shows "strand_inv n k s'"
proof -
  note D = strand_invD [OF I] and C = counters_okD [OF strand_invD(1) [OF I]] and R = refs_okD [OF strand_invD(2) [OF I]]
  have z: "sched_int n s' = sched_int n s" using b unfolding sched_int_def same by linarith
  have rf: "refs_nat s' = refs_nat s" "active s' = active s" using r by (simp_all add: refs_nat_def active_def same)
  show ?thesis
  proof (rule strand_invI)
    show "st_submitted s' = st_executed s' @ batch_tasks (st_run s') @ st_queue s'" using D(4) x same by simp
  qed (use q D C R b in \<open>simp_all add: z rf same\<close>)
qed

lemma inv_run_step:
  assumes I: "strand_inv n k s" and kn: "Suc (k + n) < 2 ^ 64"
    and st: "strand_step n StRun s = Some s'" and r: "\<And>c. st_run s \<noteq> RunSub c" "st_run s \<noteq> RunResubmit"
  shows "strand_inv n k s'"
proof -
  note D = strand_invD [OF I] and C = counters_okD [OF strand_invD(1) [OF I]]
  note Z = strand_ints [OF I kn]
  have rn: "st_run s \<noteq> RunNone" using st by auto
  have nf: "\<not> impl_freed s" by (rule not_freed_run [OF D(2) rn])
  have le: "cnt n (\<lambda>p. p = StCount) (st_pc s) \<le> cnt n unscheduled (st_pc s)"
    unfolding cnt_def by (rule card_mono) auto
  show ?thesis
  proof (cases "st_run s")
    case RunQueued
    have "active s = 1" by (simp add: active_def RunQueued)
    then have "1 \<le> sched_int n s" using C(6) by (simp add: of_bool_def split: if_splits)
    then have "1 \<le> size_int n s" using le unfolding sched_int_def size_int_def by (simp add: RunQueued)
    moreover have s': "s' = s\<lparr>st_run := RunTake []\<rparr>" using st RunQueued by simp
    moreover have "size_int n s' = size_int n s" by (simp add: s' size_int_def RunQueued)
    ultimately show ?thesis
      by (intro strand_inv_run [OF I rn]) (use C RunQueued in simp_all)
  next
    case (RunTake xs)
    have "1 \<le> size_int n s" by (rule C(4) [OF RunTake])
    then obtain y ys where q: "st_queue s = y # ys" unfolding size_int_def by (cases "st_queue s") (simp_all add: RunTake)
    have s': "s' = s\<lparr>st_queue := ys, st_run := RunTaken (xs @ [y])\<rparr>"
      using st RunTake nf by (auto simp: Run_take_def use_impl_def q)
    have "size_int n s' = size_int n s" by (simp add: s' size_int_def RunTake q)
    then show ?thesis
      by (intro strand_inv_run [OF I rn]) (use C RunTake in \<open>simp_all add: s' q\<close>)
  next
    case (RunTaken xs)
    have one: "1 \<le> size_int n s" by (rule C(5) [OF RunTaken])
    have s': "s' = s\<lparr>q_size := q_size s - 1, st_run := RunCheck xs\<rparr>"
      using st RunTaken nf by (auto simp: Run_size_def use_impl_def)
    have "size_int n s' = size_int n s - 1" by (simp add: s' size_int_def RunTaken)
    then show ?thesis
      by (intro strand_inv_run [OF I rn]) (use C RunTaken one in \<open>simp_all add: s'\<close>)
  next
    case (RunCheck xs)
    have s': "s' = s\<lparr>st_run := (if size_int n s \<noteq> 0 then RunTake xs else RunTasks xs 0)\<rparr>"
      using st RunCheck nf Z(2) by (auto simp: Run_check_def use_impl_def)
    have "size_int n s' = size_int n s" by (simp add: s' size_int_def RunCheck)
    then show ?thesis
      by (intro strand_inv_run [OF I rn]) (use C RunCheck in \<open>simp_all add: s' split: if_splits\<close>)
  next
    case (RunTasks xs c)
    have s': "s' = RunTasks_step xs c s" using st RunTasks by simp
    have "size_int n s' = size_int n s"
      by (cases xs) (simp_all add: s' size_int_def RunTasks RunTasks_step_def)
    then show ?thesis
      by (cases xs; intro strand_inv_run [OF I rn]) (use C RunTasks in \<open>simp_all add: s' RunTasks_step_def\<close>)
  qed (use rn r in auto)
qed

lemma inv_sub:
  assumes I: "strand_inv n k s" and kn: "Suc (k + n) < 2 ^ 64" and c: "st_run s = RunSub c"
  shows "strand_inv n (Suc k) (Run_sub c s)"
proof -
  note D = strand_invD [OF I] and C = counters_okD [OF strand_invD(1) [OF I]] and R = refs_okD [OF strand_invD(2) [OF I]]
  note Z = strand_ints [OF I kn]
  let ?s = "Run_sub c s"
  have "active s = 1" by (simp add: active_def c)
  with C(6) have z: "1 \<le> sched_int n s" "cnt n (\<lambda>p. p = StSelf) (st_pc s) = 0" by (simp_all add: of_bool_def split: if_splits)
  have nf: "\<not> impl_freed s" by (rule not_freed_run [OF D(2)]) (simp add: c)
  have "c \<le> k" using D(5,6) c by simp
  then have ck: "c < 2 ^ 64" using kn by linarith
  have zn: "scheduled s = of_nat (nat (sched_int n s))" "nat (sched_int n s) < 2 ^ 64" using C(1) z(1) Z(3) by simp_all
  have cmp: "of_nat c < scheduled s \<longleftrightarrow> int c < sched_int n s"
    unfolding zn(1) word_less_nat_alt unat_of_nat_64 [OF ck] unat_of_nat_64 [OF zn(2)] using z(1) by linarith
  let ?more = "int c < sched_int n s"
  have f: "st_pc ?s = st_pc s" "st_queue ?s = st_queue s" "st_run ?s = (if ?more then RunResubmit else RunNone)"
    "scheduled ?s = scheduled s - of_nat c" "q_size ?s = q_size s" "st_owner ?s = st_owner s"
    "releasing ?s = releasing s + of_bool (\<not> ?more)" "impl_refs ?s = impl_refs s"
    "impl_freed ?s = impl_freed s" "st_fault ?s = st_fault s" "st_submitted ?s = st_submitted s" "st_executed ?s = st_executed s"
    using nf by (simp_all add: Run_sub_def use_impl_def Let_def cmp)
  have i: "sched_int n ?s = sched_int n s - int c" "size_int n ?s = size_int n s"
    unfolding sched_int_def size_int_def f by (simp_all add: c)
  have r: "refs_nat ?s = refs_nat s" "active ?s = of_bool ?more" by (simp_all add: refs_nat_def active_def f c)
  show ?thesis
    by (rule strand_invI; (unfold i r)?; insert D C R z nf; auto simp: f c split: if_splits)
qed

lemma inv_resubmit:
  assumes I: "strand_inv n k s" and c: "st_run s = RunResubmit"
  shows "strand_inv n (Suc k) (Run_resubmit s)"
proof -
  note D = strand_invD [OF I] and C = counters_okD [OF strand_invD(1) [OF I]] and R = refs_okD [OF strand_invD(2) [OF I]]
  let ?s = "Run_resubmit s"
  have nf: "\<not> impl_freed s" by (rule not_freed_run [OF D(2)]) (simp add: c)
  have f: "st_pc ?s = st_pc s" "st_queue ?s = st_queue s" "st_run ?s = RunQueued" "scheduled ?s = scheduled s" "q_size ?s = q_size s"
    "st_owner ?s = st_owner s" "releasing ?s = Suc (releasing s)" "impl_refs ?s = impl_refs s + 1" "impl_freed ?s = impl_freed s"
    "st_fault ?s = st_fault s" "st_submitted ?s = st_submitted s" "st_executed ?s = st_executed s"
    using nf by (simp_all add: Run_resubmit_def SubmitSelf_def use_impl_def)
  have i: "sched_int n ?s = sched_int n s" "size_int n ?s = size_int n s"
    unfolding sched_int_def size_int_def f by (simp_all add: c)
  have r: "refs_nat ?s = Suc (refs_nat s)" "active ?s = active s" by (simp_all add: refs_nat_def active_def f c)
  show ?thesis
    by (rule strand_invI; (unfold i r)?; insert D C R nf; auto simp: f c)
qed

lemma refs_last:
  assumes "strand_inv n k s" and "Suc (k + n) < 2 ^ 63"
  shows "impl_refs s = 1 \<longleftrightarrow> refs_nat s = 1"
proof -
  note D = strand_invD [OF assms(1)]
  have "refs_nat s \<le> Suc (Suc k)" using D(7) unfolding refs_nat_def active_def by (simp add: of_bool_def)
  then have "refs_nat s < 2 ^ 64" using assms(2) by simp
  then show ?thesis unfolding refs_okD(1) [OF D(2)] using of_nat_size_t_inj [of "refs_nat s" 1] by simp
qed

lemma inv_release:
  assumes I: "strand_inv n k s" and kn: "Suc (k + n) < 2 ^ 63" and c: "releasing s \<noteq> 0"
  shows "strand_inv n k (Run_release s)"
proof -
  note D = strand_invD [OF I] and C = counters_okD [OF strand_invD(1) [OF I]] and R = refs_okD [OF strand_invD(2) [OF I]]
  let ?s = "Run_release s"
  have nz: "refs_nat s \<noteq> 0" "\<not> impl_freed s" using c R(2) by (simp_all add: refs_nat_def)
  have f: "st_pc ?s = st_pc s" "st_queue ?s = st_queue s" "st_run ?s = st_run s" "scheduled ?s = scheduled s" "q_size ?s = q_size s"
    "st_owner ?s = st_owner s" "releasing ?s = releasing s - 1" "impl_refs ?s = impl_refs s - 1" "impl_freed ?s = (refs_nat s = 1)"
    "st_fault ?s = st_fault s" "st_submitted ?s = st_submitted s" "st_executed ?s = st_executed s"
    using nz refs_last [OF I kn] by (simp_all add: Run_release_def Impl_ReleaseRef_def use_impl_def)
  have i: "sched_int n ?s = sched_int n s" "size_int n ?s = size_int n s" unfolding sched_int_def size_int_def f by simp_all
  have r: "refs_nat ?s = refs_nat s - 1" "active ?s = active s" using c by (simp_all add: refs_nat_def active_def f)
  have rw: "impl_refs s - 1 = of_nat (refs_nat s - 1)" unfolding R(1) by (rule of_nat_pred) (use nz in simp)
  show ?thesis
    by (rule strand_invI; (unfold i r)?; insert D C R nz rw; auto simp: f)
qed

lemma inv_destroy:
  assumes I: "strand_inv n k s" and kn: "Suc (k + n) < 2 ^ 63" and c: "st_owner s" "cnt n (\<lambda>p. p \<noteq> StIdle) (st_pc s) = 0"
  shows "strand_inv n k (Strand_destroy s)"
proof -
  note D = strand_invD [OF I] and C = counters_okD [OF strand_invD(1) [OF I]] and R = refs_okD [OF strand_invD(2) [OF I]]
  let ?s = "Strand_destroy s"
  have nz: "refs_nat s \<noteq> 0" "\<not> impl_freed s" using c R(2) by (simp_all add: refs_nat_def)
  have f: "st_pc ?s = st_pc s" "st_queue ?s = st_queue s" "st_run ?s = st_run s" "scheduled ?s = scheduled s" "q_size ?s = q_size s"
    "st_owner ?s = False" "releasing ?s = releasing s" "impl_refs ?s = impl_refs s - 1" "impl_freed ?s = (refs_nat s = 1)"
    "st_fault ?s = st_fault s" "st_submitted ?s = st_submitted s" "st_executed ?s = st_executed s"
    using nz refs_last [OF I kn] by (simp_all add: Strand_destroy_def Impl_ReleaseRef_def use_impl_def)
  have i: "sched_int n ?s = sched_int n s" "size_int n ?s = size_int n s" unfolding sched_int_def size_int_def f by simp_all
  have r: "refs_nat ?s = refs_nat s - 1" "active ?s = active s" using c by (simp_all add: refs_nat_def active_def f)
  have rw: "impl_refs s - 1 = of_nat (refs_nat s - 1)" unfolding R(1) by (rule of_nat_pred) (use nz in simp)
  show ?thesis
    by (rule strand_invI; (unfold i r)?; insert D C R nz rw c; auto simp: f)
qed

lemma strand_inv_mono: "strand_inv n k s \<Longrightarrow> strand_inv n (Suc k) s"
  unfolding strand_inv_def by (blast intro: le_SucI)

lemma strand_inv_step:
  assumes I: "strand_inv n k s" and kn: "Suc (k + n) < 2 ^ 63" and st: "strand_step n a s = Some s'"
  shows "strand_inv n (Suc k) s'"
proof -
  have kn': "Suc (k + n) < 2 ^ 64" using kn by simp
  show ?thesis
  proof (cases a)
    case (StSubmit t x)
    with st inv_put [OF I] show ?thesis by (auto split: if_splits)
  next
    case (StThread t)
    with st have t: "t < n" by (auto split: if_splits)
    have "strand_inv n k s'"
      using StThread st t inv_size [OF I t] inv_sched [OF I t _ kn'] inv_self [OF I t] by (cases "st_pc s t") auto
    then show ?thesis by (rule strand_inv_mono)
  next
    case StRun
    consider c where "st_run s = RunSub c" | "st_run s = RunResubmit" | "\<forall>c. st_run s \<noteq> RunSub c" "st_run s \<noteq> RunResubmit"
      by blast
    then show ?thesis
    proof cases
      case 1
      with StRun st inv_sub [OF I kn'] show ?thesis by simp
    next
      case 2
      with StRun st inv_resubmit [OF I] show ?thesis by simp
    next
      case 3
      with StRun st inv_run_step [OF I kn', of s'] show ?thesis by (intro strand_inv_mono) blast
    qed
  next
    case StRelease
    with st inv_release [OF I kn] show ?thesis by (auto intro: strand_inv_mono split: if_splits)
  next
    case StDestroy
    with st have "st_owner s" "cnt n (\<lambda>p. p \<noteq> StIdle) (st_pc s) = 0" "s' = Strand_destroy s"
      by (auto simp: cnt_0_iff list_all_iff split: if_splits)
    with inv_destroy [OF I kn] show ?thesis by (auto intro: strand_inv_mono)
  qed
qed

interpretation strand: counted_inv_system "Strand_construct :: 'a strand" "strand_step n" "strand_inv n" "2 ^ 63 - 1 - n" for n
proof (unfold_locales, goal_cases)
  case 1
  show ?case
    by (rule strand_invI) (simp_all add: Strand_construct_def sched_int_def size_int_def refs_nat_def active_def cnt_const)
next
  case (2 k s a s')
  then have "Suc (k + n) < 2 ^ 63" by linarith
  with 2 strand_inv_step show ?case by blast
next
  case 3
  then show ?case by (rule strand_inv_mono)
qed



end
