(* ===== verification/Executors.thy ===== *)
theory Executors
  imports Prelude
begin

section \<open>ManualExecutor\<close>

text \<open>
  \<open>tasks/executors/exe/executors/manual.cpp\<close>: a task queue run by the calling thread. What a task
  does is the program's: \<open>exec t\<close> are the tasks it submits to this executor while it runs. The
  functions also return the tasks they trace, in order. \<open>Drain\<close> may not return.
\<close>

definition ManualExecutor_Submit :: "'t \<Rightarrow> 't list \<Rightarrow> 't list" where
  "ManualExecutor_Submit task tasks = tasks @ [task]"

fun RunAtMost :: "('t \<Rightarrow> 't list) \<Rightarrow> nat \<Rightarrow> 't list \<Rightarrow> nat \<times> 't list \<times> 't list" where
  "RunAtMost exec 0 tasks = (0, tasks, [])"
| "RunAtMost exec (Suc limit) [] = (0, [], [])"
| "RunAtMost exec (Suc limit) (task # tasks) =
     (let (i, rest, trace) = RunAtMost exec limit (fold ManualExecutor_Submit (exec task) tasks)
      in (Suc i, rest, task # trace))"

definition RunNext :: "('t \<Rightarrow> 't list) \<Rightarrow> 't list \<Rightarrow> bool \<times> 't list" where
  "RunNext exec tasks = (case RunAtMost exec 1 tasks of (i, rest, trace) \<Rightarrow> (i = 1, rest))"

partial_function (option) Drain :: "('t \<Rightarrow> 't list) \<Rightarrow> 't list \<Rightarrow> (nat \<times> 't list) option" where
  "Drain exec tasks = (case tasks of
     [] \<Rightarrow> Some (0, [])
   | task # rest \<Rightarrow> Option.bind (Drain exec (fold ManualExecutor_Submit (exec task) rest))
       (\<lambda>(i, trace). Some (Suc i, task # trace)))"

lemma fold_Submit [simp]: "fold ManualExecutor_Submit ts q = q @ ts"
  by (induction ts arbitrary: q) (simp_all add: ManualExecutor_Submit_def)

lemma Drain_Nil [simp]: "Drain exec [] = Some (0, [])"
  by (subst Drain.simps) simp

lemma Drain_Cons: "Drain exec (task # rest) =
    Option.bind (Drain exec (rest @ exec task)) (\<lambda>(i, trace). Some (Suc i, task # trace))"
  by (subst Drain.simps) simp

text \<open>C37: RunAtMost runs tasks first in first out, those submitted by the tasks it runs included:
  what it trace followed by what is left is the queue followed by what the tasks submitted; it
  counts the tasks it trace, at most the limit, and stops below the limit only when nothing is left.\<close>

theorem run_at_most_fifo:
  "case RunAtMost exec limit tasks of (i, rest, trace) \<Rightarrow>
     trace @ rest = tasks @ concat (map exec trace) \<and> length trace = i \<and> i \<le> limit \<and> (i = limit \<or> rest = [])"
proof (induction exec limit tasks rule: RunAtMost.induct)
  case (3 exec limit task tasks)
  obtain i rest trace where r: "RunAtMost exec limit (tasks @ exec task) = (i, rest, trace)" by (metis prod_cases3)
  with "3.IH" have "trace @ rest = (tasks @ exec task) @ concat (map exec trace)" "length trace = i" "i \<le> limit" "i = limit \<or> rest = []"
    by simp_all
  then show ?case by (simp add: r)
qed simp_all

lemma Drain_returns:
  assumes rank: "\<And>t u. u \<in> set (exec t) \<Longrightarrow> rank u < (rank t :: nat)"
  shows "\<exists>i trace. Drain exec tasks = Some (i, trace) \<and> length trace = i \<and> trace = tasks @ concat (map exec trace)"
proof (induction "mset (map rank tasks)" arbitrary: tasks rule: wf_induct_rule [OF wf_mult [OF wf_less_than]])
  case (1 tasks)
  show ?case
  proof (cases tasks)
    case (Cons task rest)
    have lt: "\<forall>j\<in>#mset (map rank (exec task)). j < rank task" using rank by auto
    have "(mset (map rank (rest @ exec task)), mset (map rank tasks)) \<in> mult less_than"
      using one_step_implies_mult [of "{#rank task#}" "mset (map rank (exec task))" "less_than" "mset (map rank rest)"] lt
      by (simp add: Cons)
    from 1 [OF this] obtain i trace where
      "Drain exec (rest @ exec task) = Some (i, trace)" "length trace = i" "trace = (rest @ exec task) @ concat (map exec trace)" by blast
    then show ?thesis by (intro exI [of _ "Suc i"] exI [of _ "task # trace"]) (simp add: Cons Drain_Cons)
  qed simp
qed

text \<open>C38: If tasks only submit tasks of smaller rank (no task resubmits for ever), Drain returns; it
  has run every task, those submitted meanwhile included, in first in first out order, and
  returns their number.\<close>

theorem drain_runs_everything:
  assumes "\<And>t u. u \<in> set (exec t) \<Longrightarrow> rank u < (rank t :: nat)"
  shows "\<exists>i trace. Drain exec tasks = Some (i, trace) \<and> length trace = i \<and> trace = tasks @ concat (map exec trace)"
  by (rule Drain_returns [OF assms])

theorem drain_runs_everything_witness:
  "\<exists>i trace. Drain (\<lambda>t. [0..<t]) [2, 1::nat] = Some (i, trace) \<and> length trace = i \<and> trace = [2, 1] @ concat (map (\<lambda>t. [0..<t]) trace)"
  by (rule drain_runs_everything [where rank = id]) simp

end
