(* ===== verification/Refer.thy ===== *)
theory Refer
  imports Prelude
begin

section \<open>Intrusive reference counting: Ref and RefCounted\<close>

text \<open>
  \<open>tasks/executors/exe/support/refer\<close>: objects with a counter, and \<open>Ref\<close> variables that own one
  reference each. The state maps every variable to nothing (not constructed), to a null Ref or to an
  object. Copy assignment is copy and swap: the parameter \<open>that\<close> is the variable \<open>tmp\<close>. \<open>raw\<close> counts
  the references that \<open>Release\<close> handed out as bare pointers and that \<open>Adopt\<close> takes back. The
  counter operations are atomic, so an interleaving of threads on different variables is a list
  of these operations.
\<close>

type_synonym ref_var = nat
type_synonym obj = nat

record ref_heap =
  ref_count :: "obj \<Rightarrow> size_t"
  destroyed :: "obj \<Rightarrow> bool"
  next_obj :: obj
  ref_var :: "ref_var \<Rightarrow> obj option option"
  raw :: "obj \<Rightarrow> nat"
  ref_fault :: bool                     \<comment> \<open>a destroyed object was used\<close>

definition ref_init :: ref_heap where
  "ref_init = \<lparr>ref_count = (\<lambda>_. 0), destroyed = (\<lambda>_. True), next_obj = 0, ref_var = (\<lambda>_. None), raw = (\<lambda>_. 0), ref_fault = False\<rparr>"

definition set_var :: "ref_var \<Rightarrow> obj option option \<Rightarrow> ref_heap \<Rightarrow> ref_heap" where
  "set_var h x s = s\<lparr>ref_var := (ref_var s)(h := x)\<rparr>"

definition Get :: "ref_var \<Rightarrow> ref_heap \<Rightarrow> obj option" where
  "Get h s = (case ref_var s h of None \<Rightarrow> None | Some p \<Rightarrow> p)"

subsection \<open>RefCounted\<close>

definition RefCounted_construct :: "ref_heap \<Rightarrow> obj \<times> ref_heap" where
  "RefCounted_construct s = (next_obj s, s\<lparr>next_obj := Suc (next_obj s), ref_count := (ref_count s)(next_obj s := 1),
     destroyed := (destroyed s)(next_obj s := False), raw := (raw s)(next_obj s := 0)\<rparr>)"

definition AddRef :: "obj \<Rightarrow> ref_heap \<Rightarrow> ref_heap" where
  "AddRef p s = s\<lparr>ref_count := (ref_count s)(p := ref_count s p + 1), ref_fault := ref_fault s \<or> destroyed s p\<rparr>"

definition ReleaseRef :: "obj \<Rightarrow> ref_heap \<Rightarrow> ref_heap" where
  "ReleaseRef p s = s\<lparr>ref_count := (ref_count s)(p := ref_count s p - 1), ref_fault := ref_fault s \<or> destroyed s p,
     destroyed := (destroyed s)(p := destroyed s p \<or> ref_count s p = 1)\<rparr>"

definition GetRefCount :: "obj \<Rightarrow> ref_heap \<Rightarrow> size_t" where
  "GetRefCount p s = ref_count s p"

subsection \<open>Ref\<close>

definition if_valid :: "obj option \<Rightarrow> (obj \<Rightarrow> ref_heap \<Rightarrow> ref_heap) \<Rightarrow> ref_heap \<Rightarrow> ref_heap" where
  "if_valid p f s = (case p of None \<Rightarrow> s | Some q \<Rightarrow> f q s)"

definition Ref_null :: "ref_var \<Rightarrow> ref_heap \<Rightarrow> ref_heap" where
  "Ref_null h = set_var h (Some None)"

definition Ref_from :: "ref_var \<Rightarrow> obj option \<Rightarrow> ref_heap \<Rightarrow> ref_heap" where
  "Ref_from h p s = if_valid p AddRef (set_var h (Some p) s)"

definition Ref_adopt :: "ref_var \<Rightarrow> obj \<Rightarrow> ref_heap \<Rightarrow> ref_heap" where
  "Ref_adopt h p = set_var h (Some (Some p))"

definition Ref_dtor :: "ref_var \<Rightarrow> ref_heap \<Rightarrow> ref_heap" where
  "Ref_dtor h s = set_var h None (if_valid (Get h s) ReleaseRef s)"

definition Ref_copy :: "ref_var \<Rightarrow> ref_var \<Rightarrow> ref_heap \<Rightarrow> ref_heap" where
  "Ref_copy h that s = Ref_from h (Get that s) s"

definition Release :: "ref_var \<Rightarrow> ref_heap \<Rightarrow> obj option \<times> ref_heap" where
  "Release h s = (Get h s, set_var h (Some None) s)"

definition Ref_move :: "ref_var \<Rightarrow> ref_var \<Rightarrow> ref_heap \<Rightarrow> ref_heap" where
  "Ref_move h that s = (let (p, s) = Release that s in set_var h (Some p) s)"

definition SwapWith :: "ref_var \<Rightarrow> ref_var \<Rightarrow> ref_heap \<Rightarrow> ref_heap" where
  "SwapWith h that s = (let this_obj = Get h s in set_var that (Some this_obj) (set_var h (Some (Get that s)) s))"

definition Ref_assign_copy :: "ref_var \<Rightarrow> ref_var \<Rightarrow> ref_var \<Rightarrow> ref_heap \<Rightarrow> ref_heap" where
  "Ref_assign_copy tmp h that s = Ref_dtor tmp (SwapWith h tmp (Ref_copy tmp that s))"

definition Ref_assign_move :: "ref_var \<Rightarrow> ref_var \<Rightarrow> ref_var \<Rightarrow> ref_heap \<Rightarrow> ref_heap" where
  "Ref_assign_move tmp h that s = Ref_dtor tmp (SwapWith h tmp (Ref_move tmp that s))"

definition Ref_Reset :: "ref_var \<Rightarrow> ref_heap \<Rightarrow> ref_heap" where
  "Ref_Reset h s = (case Get h s of None \<Rightarrow> s | Some p \<Rightarrow> set_var h (Some None) (ReleaseRef p s))"

definition New :: "ref_var \<Rightarrow> ref_heap \<Rightarrow> ref_heap" where
  "New h s = (let (p, s) = RefCounted_construct s in Ref_adopt h p s)"

text \<open>The program: a list of operations on the variables \<open>0..<n\<close>; \<open>n\<close> is the parameter of assignments.
  Constructors need a variable that is not constructed, the others one that is. \<open>RefFromThis\<close> and
  conversions make a Ref from the bare pointer of an object somebody holds.\<close>

datatype ref_op = RNew ref_var | RNull ref_var | RFromThis ref_var ref_var | RCopy ref_var ref_var | RMove ref_var ref_var
  | RAssignCopy ref_var ref_var | RAssignMove ref_var ref_var | RReset ref_var | RDtor ref_var
  | RRelease ref_var | RAdopt ref_var obj

definition fresh_var :: "nat \<Rightarrow> ref_var \<Rightarrow> ref_heap \<Rightarrow> bool" where
  "fresh_var n h s \<longleftrightarrow> h < n \<and> ref_var s h = None"

definition live_var :: "nat \<Rightarrow> ref_var \<Rightarrow> ref_heap \<Rightarrow> bool" where
  "live_var n h s \<longleftrightarrow> h < n \<and> ref_var s h \<noteq> None"

definition guard :: "bool \<Rightarrow> ref_heap \<Rightarrow> ref_heap option" where
  "guard b s = (if b then Some s else None)"

fun ref_step :: "nat \<Rightarrow> ref_op \<Rightarrow> ref_heap \<Rightarrow> ref_heap option" where
  "ref_step n (RNew h) s = guard (fresh_var n h s) (New h s)"
| "ref_step n (RNull h) s = guard (fresh_var n h s) (Ref_null h s)"
| "ref_step n (RFromThis h g) s = guard (fresh_var n h s \<and> live_var n g s) (Ref_from h (Get g s) s)"
| "ref_step n (RCopy h g) s = guard (fresh_var n h s \<and> live_var n g s) (Ref_copy h g s)"
| "ref_step n (RMove h g) s = guard (fresh_var n h s \<and> live_var n g s) (Ref_move h g s)"
| "ref_step n (RAssignCopy h g) s = guard (live_var n h s \<and> live_var n g s) (Ref_assign_copy n h g s)"
| "ref_step n (RAssignMove h g) s = guard (live_var n h s \<and> live_var n g s) (Ref_assign_move n h g s)"
| "ref_step n (RReset h) s = guard (live_var n h s) (Ref_Reset h s)"
| "ref_step n (RDtor h) s = guard (live_var n h s) (Ref_dtor h s)"
| "ref_step n (RRelease h) s = guard (live_var n h s) (case Release h s of
     (None, s) \<Rightarrow> s | (Some p, s) \<Rightarrow> s\<lparr>raw := (raw s)(p := raw s p + 1)\<rparr>)"
| "ref_step n (RAdopt h p) s = guard (fresh_var n h s \<and> p < next_obj s \<and> 0 < raw s p) (Ref_adopt h p (s\<lparr>raw := (raw s)(p := raw s p - 1)\<rparr>))"

subsection \<open>The count is exact\<close>

text \<open>\<open>e\<close>: the references the running operation holds itself.\<close>

definition owners :: "nat \<Rightarrow> ref_heap \<Rightarrow> obj \<Rightarrow> nat" where
  "owners n s p = cnt (Suc n) (\<lambda>v. v = Some (Some p)) (ref_var s) + raw s p"

definition ref_ok :: "nat \<Rightarrow> (obj \<Rightarrow> nat) \<Rightarrow> ref_heap \<Rightarrow> bool" where
  "ref_ok n e s \<longleftrightarrow> (\<forall>p<next_obj s. ref_count s p = of_nat (owners n s p + e p)) \<and>
     (\<forall>p<next_obj s. destroyed s p \<longleftrightarrow> owners n s p + e p = 0) \<and>
     (\<forall>p\<ge>next_obj s. e p = 0) \<and> (\<forall>h p. ref_var s h = Some (Some p) \<longrightarrow> p < next_obj s) \<and> \<not> ref_fault s"

lemma ref_okD:
  assumes "ref_ok n e s"
  shows "\<And>p. p < next_obj s \<Longrightarrow> ref_count s p = of_nat (owners n s p + e p)"
    "\<And>p. p < next_obj s \<Longrightarrow> destroyed s p \<longleftrightarrow> owners n s p + e p = 0" "\<And>p. next_obj s \<le> p \<Longrightarrow> e p = 0"
    "\<And>h p. ref_var s h = Some (Some p) \<Longrightarrow> p < next_obj s" "\<not> ref_fault s"
  using assms by (simp_all add: ref_ok_def)

lemma ref_okI:
  assumes "\<And>p. p < next_obj s \<Longrightarrow> ref_count s p = of_nat (owners n s p + e p)"
    "\<And>p. p < next_obj s \<Longrightarrow> destroyed s p \<longleftrightarrow> owners n s p + e p = 0" "\<And>p. next_obj s \<le> p \<Longrightarrow> e p = 0"
    "\<And>h p. ref_var s h = Some (Some p) \<Longrightarrow> p < next_obj s" "\<not> ref_fault s"
  shows "ref_ok n e s"
  using assms unfolding ref_ok_def by blast

lemma owners_set_var:
  assumes "h \<le> n"
  shows "owners n (set_var h x s) p + of_bool (ref_var s h = Some (Some p)) = owners n s p + of_bool (x = Some (Some p))"
  using cnt_upd [of h "Suc n" "\<lambda>v. v = Some (Some p)" "ref_var s" x] assms by (simp add: owners_def set_var_def)

text \<open>Writing a variable exchanges the references of its old and new value with the operation's.\<close>

lemma ok_set_var:
  assumes "ref_ok n e s" and "h \<le> n" and "\<And>p. x = Some (Some p) \<Longrightarrow> p < next_obj s"
    and "\<And>p. e' p + of_bool (x = Some (Some p)) = e p + of_bool (ref_var s h = Some (Some p))"
  shows "ref_ok n e' (set_var h x s)"
proof -
  note D = ref_okD [OF assms(1)]
  have o: "owners n (set_var h x s) p + e' p = owners n s p + e p" for p
    using owners_set_var [OF assms(2), of x s p] assms(4) [of p] by linarith
  show ?thesis
  proof (rule ref_okI; (unfold o)?)
    show "e' p = 0" if "next_obj (set_var h x s) \<le> p" for p
    proof -
      have p: "next_obj s \<le> p" using that by (simp add: set_var_def)
      then have "ref_var s h \<noteq> Some (Some p)" using D(4) [of h p] by auto
      then show ?thesis using assms(4) [of p] D(3) [OF p] by simp
    qed
    show "p < next_obj (set_var h x s)" if "ref_var (set_var h x s) g = Some (Some p)" for g p
      using that D(4) [of g p] assms(3) [of p] by (cases "g = h") (simp_all add: set_var_def)
  qed (use D(1,2,5) in \<open>simp_all add: set_var_def\<close>)
qed

lemma ok_AddRef:
  assumes "ref_ok n e s" and "p < next_obj s" and "owners n s p + e p \<noteq> 0"
  shows "ref_ok n (e(p := Suc (e p))) (AddRef p s)"
proof -
  note D = ref_okD [OF assms(1)]
  have o: "owners n (AddRef p s) q = owners n s q" for q by (simp add: owners_def AddRef_def)
  have nd: "\<not> destroyed s p" using D(2) [OF assms(2)] assms(3) by simp
  show ?thesis
  proof (rule ref_okI; (unfold o)?)
    show "ref_count (AddRef p s) q = of_nat (owners n s q + (e(p := Suc (e p))) q)" if "q < next_obj (AddRef p s)" for q
      using D(1) [of q] that by (cases "q = p") (simp_all add: AddRef_def)
    show "destroyed (AddRef p s) q \<longleftrightarrow> owners n s q + (e(p := Suc (e p))) q = 0" if "q < next_obj (AddRef p s)" for q
      using D(2) [of q] that nd by (cases "q = p") (simp_all add: AddRef_def)
  qed (use D(3-5) nd assms(2) in \<open>auto simp: AddRef_def\<close>)
qed

lemma ok_ReleaseRef:
  assumes "ref_ok n e s" and "p < next_obj s" and "0 < e p" and "owners n s p + e p < 2 ^ 64"
  shows "ref_ok n (e(p := e p - 1)) (ReleaseRef p s)"
proof -
  note D = ref_okD [OF assms(1)]
  have o: "owners n (ReleaseRef p s) q = owners n s q" for q by (simp add: owners_def ReleaseRef_def)
  have nd: "\<not> destroyed s p" using D(2) [OF assms(2)] assms(3) by simp
  obtain m where m: "owners n s p + e p = Suc m" using assms(3) by (cases "owners n s p + e p") auto
  have one: "ref_count s p = 1 \<longleftrightarrow> m = 0"
    unfolding D(1) [OF assms(2)] m using of_nat_size_t_inj [of "Suc m" 1] assms(4) m by simp
  have dec: "ref_count s p - 1 = of_nat m" unfolding D(1) [OF assms(2)] m by simp
  have e: "owners n s p + (e p - 1) = m" using m assms(3) by linarith
  show ?thesis
  proof (rule ref_okI; (unfold o)?)
    show "ref_count (ReleaseRef p s) q = of_nat (owners n s q + (e(p := e p - 1)) q)" if "q < next_obj (ReleaseRef p s)" for q
      using D(1) [of q] that dec e by (cases "q = p") (simp_all add: ReleaseRef_def)
    show "destroyed (ReleaseRef p s) q \<longleftrightarrow> owners n s q + (e(p := e p - 1)) q = 0" if "q < next_obj (ReleaseRef p s)" for q
      using D(2) [of q] that nd one e by (cases "q = p") (simp_all add: ReleaseRef_def)
  qed (use D(3-5) nd assms(2) in \<open>auto simp: ReleaseRef_def\<close>)
qed

text \<open>The operations keep the count, whatever the caller holds.\<close>

lemma set_var_comm:
  "set_var h x (ReleaseRef p s) = ReleaseRef p (set_var h x s)" "set_var h x (AddRef p s) = AddRef p (set_var h x s)"
  by (simp_all add: set_var_def ReleaseRef_def AddRef_def)

lemma set_var_fields [simp]:
  "next_obj (set_var h x s) = next_obj s" "raw (set_var h x s) = raw s" "ref_var (set_var h x s) = (ref_var s)(h := x)"
  by (simp_all add: set_var_def)

lemma Ref_fields [simp]:
  "next_obj (AddRef p s) = next_obj s" "raw (AddRef p s) = raw s" "ref_var (AddRef p s) = ref_var s"
  "next_obj (ReleaseRef p s) = next_obj s" "raw (ReleaseRef p s) = raw s" "ref_var (ReleaseRef p s) = ref_var s"
  by (simp_all add: AddRef_def ReleaseRef_def)

lemma owners_pos: "ref_var s h = Some (Some p) \<Longrightarrow> h \<le> n \<Longrightarrow> 0 < owners n s p"
  unfolding owners_def by (simp add: cnt_pos_iff) (metis le_imp_less_Suc)

lemma owners_bound: "(\<And>p. raw s p \<le> k) \<Longrightarrow> owners n s p \<le> Suc n + k"
  using cnt_le [of "Suc n" "\<lambda>v. v = Some (Some p)" "ref_var s"] unfolding owners_def by (meson add_mono)

lemma ok_dtor:
  assumes ok: "ref_ok n e s" and h: "h \<le> n" and b: "\<And>p. raw s p \<le> k" "\<And>p. e p \<le> 1" "n + k + 3 < 2 ^ 64"
  shows "ref_ok n e (Ref_dtor h s)"
proof (cases "Get h s")
  case None
  then show ?thesis unfolding Ref_dtor_def if_valid_def
    by (auto intro!: ok_set_var [OF ok h] simp: Get_def split: option.splits)
next
  case (Some p)
  then have v: "ref_var s h = Some (Some p)" by (simp add: Get_def split: option.splits)
  let ?e = "e(p := Suc (e p))"
  have ok1: "ref_ok n ?e (set_var h None s)" by (rule ok_set_var [OF ok h]) (auto simp: v)
  have "owners n (set_var h None s) p \<le> Suc n + k" by (rule owners_bound) (simp add: b)
  then have "owners n (set_var h None s) p + ?e p < 2 ^ 64" using b(2) [of p] b(3) by simp
  then have "ref_ok n (?e(p := ?e p - 1)) (ReleaseRef p (set_var h None s))"
    by (intro ok_ReleaseRef [OF ok1]) (use ref_okD(4) [OF ok v] in simp_all)
  moreover have "?e(p := ?e p - 1) = e" by auto
  ultimately have "ref_ok n e (ReleaseRef p (set_var h None s))" by simp
  then show ?thesis by (simp add: Ref_dtor_def if_valid_def Some set_var_comm)
qed

lemma ok_from:
  assumes ok: "ref_ok n e s" and h: "h \<le> n" "ref_var s h = None"
    and p: "\<And>q. p = Some q \<Longrightarrow> q < next_obj s \<and> 0 < owners n s q"
  shows "ref_ok n e (Ref_from h p s)"
proof (cases p)
  case None
  then show ?thesis by (auto simp: Ref_from_def if_valid_def h(2) intro!: ok_set_var [OF ok h(1)])
next
  case (Some q)
  have "ref_ok n (e(q := Suc (e q))) (AddRef q s)" by (rule ok_AddRef [OF ok]) (use p [OF Some] in auto)
  then have "ref_ok n e (set_var h (Some (Some q)) (AddRef q s))"
    by (rule ok_set_var [OF _ h(1)]) (use p [OF Some] h(2) in auto)
  then show ?thesis by (simp add: Ref_from_def if_valid_def Some set_var_comm)
qed

lemma ok_move:
  assumes ok: "ref_ok n e s" and h: "h \<le> n" "ref_var s h = None" and g: "g \<le> n" "ref_var s g \<noteq> None"
  shows "ref_ok n e (Ref_move h g s)"
proof -
  have ne: "h \<noteq> g" using h g by auto
  let ?e = "\<lambda>p. e p + of_bool (ref_var s g = Some (Some p))"
  have "ref_ok n ?e (set_var g (Some None) s)" by (rule ok_set_var [OF ok g(1)]) auto
  then have "ref_ok n e (set_var h (Some (Get g s)) (set_var g (Some None) s))"
    by (rule ok_set_var [OF _ h(1)]) (use ref_okD(4) [OF ok, of g] ne h(2) g(2) in \<open>auto simp: Get_def split: option.splits\<close>)
  then show ?thesis by (simp add: Ref_move_def Release_def)
qed

lemma ok_swap:
  assumes ok: "ref_ok n e s" and h: "h \<le> n" "ref_var s h \<noteq> None" and g: "g \<le> n" "ref_var s g \<noteq> None" and ne: "h \<noteq> g"
  shows "ref_ok n e (SwapWith h g s)"
proof -
  obtain a b where v: "ref_var s h = Some a" "ref_var s g = Some b" using h(2) g(2) by auto
  let ?s1 = "set_var g (Some None) s" and ?s2 = "set_var h (Some b) (set_var g (Some None) s)"
  have bd: "\<And>p. a = Some p \<Longrightarrow> p < next_obj s" "\<And>p. b = Some p \<Longrightarrow> p < next_obj s" using ref_okD(4) [OF ok] v by auto
  have "ref_ok n (\<lambda>p. e p + of_bool (b = Some p)) ?s1" by (rule ok_set_var [OF ok g(1)]) (auto simp: v)
  then have "ref_ok n (\<lambda>p. e p + of_bool (a = Some p)) ?s2" by (rule ok_set_var [OF _ h(1)]) (use bd v ne in auto)
  then have "ref_ok n e (set_var g (Some a) ?s2)" by (rule ok_set_var [OF _ g(1)]) (use bd v ne in auto)
  moreover have "set_var g (Some a) ?s2 = SwapWith h g s"
    by (simp add: SwapWith_def Get_def v set_var_def fun_upd_twist [OF ne] ne fun_upd_twist)
  ultimately show ?thesis by simp
qed

lemma ok_Release:
  assumes ok: "ref_ok n e s" and h: "h \<le> n" "ref_var s h = Some (Some p)"
  shows "ref_ok n e (set_var h (Some None) s\<lparr>raw := (raw s)(p := raw s p + 1)\<rparr>)"
proof -
  have ok1: "ref_ok n (e(p := Suc (e p))) (set_var h (Some None) s)" by (rule ok_set_var [OF ok h(1)]) (auto simp: h)
  note D = ref_okD [OF ok1]
  let ?s = "set_var h (Some None) s\<lparr>raw := (raw s)(p := raw s p + 1)\<rparr>"
  have o: "owners n ?s q + e q = owners n (set_var h (Some None) s) q + (e(p := Suc (e p))) q" for q
    by (simp add: owners_def)
  show ?thesis
    by (rule ref_okI; (unfold o)?) (use D ref_okD(3) [OF ok] in \<open>simp_all add: set_var_def\<close>)
qed

lemma ok_Adopt:
  assumes ok: "ref_ok n e s" and h: "h \<le> n" "ref_var s h = None" and p: "p < next_obj s" "0 < raw s p"
  shows "ref_ok n e (Ref_adopt h p (s\<lparr>raw := (raw s)(p := raw s p - 1)\<rparr>))"
proof -
  note D = ref_okD [OF ok]
  let ?s = "s\<lparr>raw := (raw s)(p := raw s p - 1)\<rparr>"
  have o: "owners n ?s q + (e(p := Suc (e p))) q = owners n s q + e q" for q
    using p(2) by (simp add: owners_def)
  have "ref_ok n (e(p := Suc (e p))) ?s"
    by (rule ref_okI; (unfold o)?) (use D p(1) in auto)
  then show ?thesis unfolding Ref_adopt_def by (rule ok_set_var [OF _ h(1)]) (use p(1) h(2) in auto)
qed

lemma ok_New:
  assumes ok: "ref_ok n e s" and h: "h \<le> n" "ref_var s h = None"
  shows "ref_ok n e (New h s)"
proof -
  note D = ref_okD [OF ok]
  let ?p = "next_obj s" and ?s = "snd (RefCounted_construct s)"
  have none: "ref_var s g \<noteq> Some (Some ?p)" for g using D(4) [of g ?p] by auto
  have o: "owners n ?s q = (if q = ?p then 0 else owners n s q)" for q
    using none by (simp add: owners_def RefCounted_construct_def cnt_0_iff)
  have ok1: "ref_ok n (e(?p := 1)) ?s"
    by (rule ref_okI; (unfold o)?)
      (use D none in \<open>auto simp: RefCounted_construct_def less_Suc_eq dest: less_imp_neq\<close>)
  show ?thesis unfolding New_def Ref_adopt_def split_beta Let_def
    by (rule ok_set_var [OF ok1 h(1)]) (use h(2) D(3) [of ?p] in \<open>auto simp: RefCounted_construct_def\<close>)
qed

subsection \<open>Programs\<close>

definition ref_inv :: "nat \<Rightarrow> nat \<Rightarrow> ref_heap \<Rightarrow> bool" where
  "ref_inv n k s \<longleftrightarrow> ref_ok n (\<lambda>_. 0) s \<and> (\<forall>p. raw s p \<le> k) \<and> ref_var s n = None"

lemma live_varD: "live_var n h s \<Longrightarrow> h \<le> n \<and> h < n \<and> ref_var s h \<noteq> None"
  by (simp add: live_var_def)

lemma fresh_varD: "fresh_var n h s \<Longrightarrow> h \<le> n \<and> h < n \<and> ref_var s h = None"
  by (simp add: fresh_var_def)

lemma Get_owned:
  assumes "ref_ok n e s" and "g \<le> n" and "Get g s = Some q"
  shows "q < next_obj s \<and> 0 < owners n s q"
proof -
  have "ref_var s g = Some (Some q)" using assms(3) by (simp add: Get_def split: option.splits)
  with owners_pos [OF this assms(2)] ref_okD(4) [OF assms(1)] show ?thesis by blast
qed

lemma Ref_from_fields [simp]:
  "next_obj (Ref_from h p s) = next_obj s" "raw (Ref_from h p s) = raw s" "ref_var (Ref_from h p s) = (ref_var s)(h := Some p)"
  by (simp_all add: Ref_from_def if_valid_def split: option.splits)

lemma SwapWith_fields [simp]:
  "next_obj (SwapWith h g s) = next_obj s" "raw (SwapWith h g s) = raw s"
  "ref_var (SwapWith h g s) = (ref_var s)(h := Some (Get g s), g := Some (Get h s))"
  by (simp_all add: SwapWith_def Let_def)

lemma Ref_dtor_fields [simp]:
  "raw (Ref_dtor h s) = raw s" "ref_var (Ref_dtor h s) = (ref_var s)(h := None)"
  by (simp_all add: Ref_dtor_def if_valid_def split: option.splits)

lemma ok_assign:
  assumes ok: "ref_ok n (\<lambda>_. 0) s" and h: "h < n" "ref_var s h \<noteq> None" and g: "g < n" "ref_var s g \<noteq> None" and t: "ref_var s n = None"
    and b: "\<And>p. raw s p \<le> k" "n + k + 3 < 2 ^ 64"
  shows "ref_ok n (\<lambda>_. 0) (Ref_assign_copy n h g s)" "ref_ok n (\<lambda>_. 0) (Ref_assign_move n h g s)"
proof -
  have ne: "h \<noteq> n" using h by simp
  have c: "ref_ok n (\<lambda>_. 0) (Ref_copy n g s)" unfolding Ref_copy_def
    by (rule ok_from [OF ok _ t]) (use Get_owned [OF ok, of g] g in auto)
  have "ref_ok n (\<lambda>_. 0) (SwapWith h n (Ref_copy n g s))"
    by (rule ok_swap [OF c]) (use h ne in \<open>auto simp: Ref_copy_def\<close>)
  then show "ref_ok n (\<lambda>_. 0) (Ref_assign_copy n h g s)" unfolding Ref_assign_copy_def
    by (rule ok_dtor [OF _ order_refl, of _ _ _ k]) (use b in \<open>simp_all add: Ref_copy_def\<close>)
  have m: "ref_ok n (\<lambda>_. 0) (Ref_move n g s)" by (rule ok_move [OF ok order_refl t]) (use g in auto)
  have "ref_ok n (\<lambda>_. 0) (SwapWith h n (Ref_move n g s))"
    by (rule ok_swap [OF m]) (use h ne in \<open>auto simp: Ref_move_def Release_def\<close>)
  then show "ref_ok n (\<lambda>_. 0) (Ref_assign_move n h g s)" unfolding Ref_assign_move_def
    by (rule ok_dtor [OF _ order_refl, of _ _ _ k]) (use b in \<open>simp_all add: Ref_move_def Release_def\<close>)
qed

lemma ok_Reset:
  assumes ok: "ref_ok n e s" and h: "h \<le> n" and b: "\<And>p. raw s p \<le> k" "\<And>p. e p \<le> 1" "n + k + 3 < 2 ^ 64"
  shows "ref_ok n e (Ref_Reset h s)"
proof (cases "Get h s")
  case None
  then show ?thesis using ok by (simp add: Ref_Reset_def)
next
  case (Some p)
  have "ref_ok n e (Ref_dtor h s)" by (rule ok_dtor [OF ok h b])
  then have "ref_ok n e (set_var h (Some None) (Ref_dtor h s))" by (rule ok_set_var [OF _ h]) auto
  moreover have "set_var h (Some None) (Ref_dtor h s) = Ref_Reset h s"
    by (simp add: Ref_Reset_def Ref_dtor_def if_valid_def Some set_var_def)
  ultimately show ?thesis by simp
qed

lemma ref_inv_step:
  assumes I: "ref_inv n k s" and kn: "n + k + 3 < 2 ^ 64" and st: "ref_step n a s = Some s'"
  shows "ref_inv n (Suc k) s'"
proof -
  have ok: "ref_ok n (\<lambda>_. 0) s" and rb: "\<And>p. raw s p \<le> k" and t: "ref_var s n = None" using I by (auto simp: ref_inv_def)
  have rb': "\<And>p. raw s p \<le> Suc k" using rb le_SucI by blast
  note defs = guard_def ref_inv_def
  show ?thesis
  proof (cases a)
    case (RNew h)
    with st ok_New [OF ok, of h] rb' t fresh_varD [of n h s] show ?thesis
      by (auto simp: defs New_def RefCounted_construct_def Ref_adopt_def split: if_splits)
  next
    case (RNull h)
    with st fresh_varD [of n h s] have h: "h \<le> n" "h < n" "ref_var s h = None" "s' = Ref_null h s" by (auto simp: defs split: if_splits)
    have "ref_ok n (\<lambda>_. 0) (set_var h (Some None) s)" by (rule ok_set_var [OF ok h(1)]) (simp_all add: h)
    with h rb' t show ?thesis by (simp add: ref_inv_def Ref_null_def)
  next
    case (RFromThis h g)
    with st fresh_varD [of n h s] live_varD [of n g s] have h: "h \<le> n" "h < n" "ref_var s h = None" "g \<le> n" "s' = Ref_from h (Get g s) s"
      by (auto simp: defs split: if_splits)
    have "ref_ok n (\<lambda>_. 0) s'" unfolding h(5) by (rule ok_from [OF ok h(1,3)]) (rule Get_owned [OF ok h(4)])
    with h rb' t show ?thesis by (simp add: ref_inv_def)
  next
    case (RCopy h g)
    with st fresh_varD [of n h s] live_varD [of n g s] have h: "h \<le> n" "h < n" "ref_var s h = None" "g \<le> n" "s' = Ref_from h (Get g s) s"
      by (auto simp: defs Ref_copy_def split: if_splits)
    have "ref_ok n (\<lambda>_. 0) s'" unfolding h(5) by (rule ok_from [OF ok h(1,3)]) (rule Get_owned [OF ok h(4)])
    with h rb' t show ?thesis by (simp add: ref_inv_def)
  next
    case (RMove h g)
    with st fresh_varD [of n h s] live_varD [of n g s] ok_move [OF ok, of h g] rb' t show ?thesis
      by (auto simp: defs Ref_move_def Release_def split: if_splits)
  next
    case (RAssignCopy h g)
    with st live_varD [of n h s] live_varD [of n g s] have h: "h < n" "ref_var s h \<noteq> None" "g < n" "ref_var s g \<noteq> None"
      "s' = Ref_assign_copy n h g s" by (auto simp: defs split: if_splits)
    from ok_assign(1) [OF ok h(1-4) t rb kn] h rb' show ?thesis
      by (simp add: ref_inv_def Ref_assign_copy_def Ref_copy_def)
  next
    case (RAssignMove h g)
    with st live_varD [of n h s] live_varD [of n g s] have h: "h < n" "ref_var s h \<noteq> None" "g < n" "ref_var s g \<noteq> None"
      "s' = Ref_assign_move n h g s" by (auto simp: defs split: if_splits)
    from ok_assign(2) [OF ok h(1-4) t rb kn] h rb' show ?thesis
      by (simp add: ref_inv_def Ref_assign_move_def Ref_move_def Release_def)
  next
    case (RReset h)
    with st live_varD [of n h s] ok_Reset [OF ok _ rb _ kn, of h] rb' t show ?thesis
      by (auto simp: defs Ref_Reset_def split: if_splits option.splits)
  next
    case (RDtor h)
    with st live_varD [of n h s] ok_dtor [OF ok _ rb _ kn, of h] rb' t show ?thesis by (auto simp: defs split: if_splits)
  next
    case (RRelease h)
    with st live_varD [of n h s] have h: "h \<le> n" "h < n" "ref_var s h \<noteq> None" by (auto simp: defs split: if_splits)
    then obtain y where y: "ref_var s h = Some y" by auto
    show ?thesis
    proof (cases y)
      case None
      with y have 1: "ref_var s h = Some None" by simp
      have "set_var h (Some None) s = s" using 1 by (simp add: set_var_def fun_upd_idem)
      then show ?thesis using st RRelease 1 ok rb' t by (auto simp: defs Release_def Get_def split: if_splits)
    next
      case (Some p)
      with y have 2: "ref_var s h = Some (Some p)" by simp
      with st RRelease ok_Release [OF ok h(1) 2] rb rb' h(2) t show ?thesis
        by (auto simp: defs Release_def Get_def split: if_splits)
    qed
  next
    case (RAdopt h p)
    have "raw s p - Suc 0 \<le> Suc k" using rb' [of p] by linarith
    with RAdopt st fresh_varD [of n h s] ok_Adopt [OF ok, of h p] rb' t show ?thesis
      by (auto simp: defs Ref_adopt_def split: if_splits)
  qed
qed

interpretation refer: counted_inv_system ref_init "ref_step n" "ref_inv n" "2 ^ 64 - 4 - n" for n
proof (unfold_locales, goal_cases)
  case 1
  have "ref_ok n (\<lambda>_. 0) ref_init" by (rule ref_okI) (simp_all add: ref_init_def)
  then show ?case by (simp add: ref_inv_def ref_init_def)
next
  case (2 k s a s')
  then have "n + k + 3 < 2 ^ 64" by linarith
  with 2 ref_inv_step show ?case by blast
next
  case (3 k s)
  then show ?case by (auto simp: ref_inv_def intro: le_SucI)
qed

text \<open>C28: After any sequence of Ref operations, every object's counter is the number of Ref variables
  and released pointers that own it, the object is destroyed exactly when that number is 0, no
  operation used a destroyed object, and every Ref refers to an object that exists and is alive.\<close>

theorem ref_count_exact:
  assumes "length as \<le> 2 ^ 64 - 4 - n"
  defines "s \<equiv> run (ref_step n) as ref_init"
  shows "\<not> ref_fault s \<and>
    (\<forall>p<next_obj s. GetRefCount p s = of_nat (owners n s p) \<and> (destroyed s p \<longleftrightarrow> owners n s p = 0)) \<and>
    (\<forall>h p. h < n \<longrightarrow> ref_var s h = Some (Some p) \<longrightarrow> p < next_obj s \<and> \<not> destroyed s p)"
proof -
  have "ref_inv n (length as) s" unfolding s_def by (rule refer.counted_run [OF assms(1)])
  then have ok: "ref_ok n (\<lambda>_. 0) s" by (simp add: ref_inv_def)
  note D = ref_okD [OF ok]
  show ?thesis
  proof (intro conjI allI impI)
    fix h p assume "h < n" "ref_var s h = Some (Some p)"
    then show "p < next_obj s" "\<not> destroyed s p" using D(2) [of p] D(4) owners_pos [of s h p n] by auto
  qed (use D in \<open>simp_all add: GetRefCount_def\<close>)
qed

theorem ref_count_exact_witness:
  "let s = run (ref_step 3) [RNew 0, RCopy 1 0, RNew 2, RAssignCopy 2 0, RDtor 0, RAssignMove 1 1, RReset 2] ref_init
   in GetRefCount 0 s = of_nat (owners 3 s 0) \<and> GetRefCount 0 s = 1 \<and> destroyed s 1 \<and> \<not> ref_fault s"
proof -
  let ?as = "[RNew 0, RCopy 1 0, RNew 2, RAssignCopy 2 0, RDtor 0, RAssignMove 1 1, RReset 2]"
  have b: "length ?as \<le> 2 ^ 64 - 4 - 3" by simp
  have p: "next_obj (run (ref_step 3) ?as ref_init) = 2" "GetRefCount 0 (run (ref_step 3) ?as ref_init) = 1"
    "destroyed (run (ref_step 3) ?as ref_init) 1"
    by code_simp+
  with ref_count_exact [OF b] show ?thesis unfolding Let_def by (simp del: run.simps)
qed

end
