(* ===== verification/StampedPtr.thy ===== *)
theory StampedPtr
  imports Prelude
begin

unbundle bit_operations_syntax

section \<open>Stamped pointers\<close>

text \<open>
  \<open>lockfree/shared_ptr/atomic_stamped_ptr.hpp\<close> (and its copy in \<open>lockfree/stack\<close>, which adds the
  memory orders of CompareExchangeWeak): a 48-bit pointer and a 16-bit stamp packed into one 64-bit
  word, so that both are exchanged by one atomic operation. A pointer is its \<open>uintptr_t\<close>.
\<close>

subsection \<open>StampedPtr and Packer\<close>

record stamped_ptr =
  raw_ptr :: "64 word"
  stamp :: u64

definition StampedPtr_bool :: "stamped_ptr \<Rightarrow> bool" where
  "StampedPtr_bool p = (raw_ptr p \<noteq> 0)"

definition IncrementStamp :: "stamped_ptr \<Rightarrow> stamped_ptr" where
  "IncrementStamp p = \<lparr>raw_ptr = raw_ptr p, stamp = stamp p + 1\<rparr>"

text \<open>The assertion \<open>stamp > 0\<close> as \<open>None\<close>.\<close>

definition DecrementStamp :: "stamped_ptr \<Rightarrow> stamped_ptr option" where
  "DecrementStamp p = (if stamp p = 0 then None else Some \<lparr>raw_ptr = raw_ptr p, stamp = stamp p - 1\<rparr>)"

definition kFreeBits :: nat where "kFreeBits = 16"

definition kFreeBitsShift :: nat where "kFreeBitsShift = 64 - kFreeBits"

definition kFreeBitsMask :: "64 word" where
  "kFreeBitsMask = push_bit kFreeBitsShift (push_bit kFreeBits 1 - 1)"

definition kMaxStamp :: "64 word" where "kMaxStamp = push_bit kFreeBits 1 - 1"

definition GetBit :: "64 word \<Rightarrow> nat \<Rightarrow> 64 word" where
  "GetBit m index = drop_bit index m AND 1"

definition SetFreeBits :: "64 word \<Rightarrow> 64 word" where
  "SetFreeBits m = m OR kFreeBitsMask"

definition ClearFreeBits :: "64 word \<Rightarrow> 64 word" where
  "ClearFreeBits m = m AND NOT kFreeBitsMask"

definition ToCanonicalForm :: "64 word \<Rightarrow> 64 word" where
  "ToCanonicalForm ptr = (if GetBit ptr 47 \<noteq> 0 then SetFreeBits ptr else ClearFreeBits ptr)"

definition GetStamp :: "64 word \<Rightarrow> u64" where
  "GetStamp packed_ptr = drop_bit kFreeBitsShift packed_ptr"

definition GetRawPointer :: "64 word \<Rightarrow> 64 word" where
  "GetRawPointer packed_ptr = ToCanonicalForm packed_ptr"

definition Pack :: "stamped_ptr \<Rightarrow> 64 word" where
  "Pack p = ClearFreeBits (raw_ptr p) OR push_bit kFreeBitsShift (stamp p)"

definition Unpack :: "64 word \<Rightarrow> stamped_ptr" where
  "Unpack packed_ptr = \<lparr>raw_ptr = GetRawPointer packed_ptr, stamp = GetStamp packed_ptr\<rparr>"

subsection \<open>AtomicStampedPtr\<close>

text \<open>The atomic word; the outcome of the weak compare-exchange may be a spurious failure.\<close>

type_synonym asp_cell = "64 word"

definition ASP_construct :: "stamped_ptr \<Rightarrow> asp_cell" where
  "ASP_construct p = Pack p"

definition ASP_Store :: "stamped_ptr \<Rightarrow> asp_cell \<Rightarrow> asp_cell" where
  "ASP_Store p c = Pack p"

definition ASP_Load :: "asp_cell \<Rightarrow> stamped_ptr" where
  "ASP_Load c = Unpack c"

definition ASP_Exchange :: "stamped_ptr \<Rightarrow> asp_cell \<Rightarrow> stamped_ptr \<times> asp_cell" where
  "ASP_Exchange target c = (let old = c in (Unpack old, Pack target))"

text \<open>Returns \<open>succeeded\<close>, the new value of \<open>expected\<close> and the cell.\<close>

definition ASP_CompareExchangeWeak ::
  "bool \<Rightarrow> stamped_ptr \<Rightarrow> stamped_ptr \<Rightarrow> asp_cell \<Rightarrow> bool \<times> stamped_ptr \<times> asp_cell" where
  "ASP_CompareExchangeWeak spurious expected desired c =
     (let expected_packed = Pack expected;
          succeeded = (c = expected_packed \<and> \<not> spurious)
      in if succeeded then (True, expected, Pack desired) else (False, Unpack c, c))"

lemmas stamped_defs = StampedPtr_bool_def IncrementStamp_def DecrementStamp_def kFreeBits_def kFreeBitsShift_def
  kFreeBitsMask_def kMaxStamp_def GetBit_def SetFreeBits_def ClearFreeBits_def ToCanonicalForm_def GetStamp_def
  GetRawPointer_def Pack_def Unpack_def

subsection \<open>Bits\<close>

lemma bit_free_mask: "bit kFreeBitsMask n \<longleftrightarrow> 48 \<le> n \<and> n < 64"
proof -
  have m: "kFreeBitsMask = push_bit 48 (mask 16)"
    by (simp add: stamped_defs mask_eq_exp_minus_1 push_bit_eq_mult)
  show ?thesis by (auto simp: m bit_push_bit_iff bit_mask_iff)
qed

lemma bit_word_64: "bit (w :: 64 word) n \<Longrightarrow> n < 64"
  using bit_imp_le_length by fastforce

lemma bit_ClearFreeBits: "bit (ClearFreeBits w) n \<longleftrightarrow> bit w n \<and> n < 48"
  using bit_word_64 [of w n] by (auto simp: ClearFreeBits_def bit_and_iff bit_not_iff bit_free_mask)

lemma bit_SetFreeBits: "bit (SetFreeBits w) n \<longleftrightarrow> (if n < 48 then bit w n else n < 64)"
  using bit_word_64 [of w n] by (auto simp: SetFreeBits_def bit_or_iff bit_free_mask)

lemma GetBit_nonzero: "GetBit w n \<noteq> 0 \<longleftrightarrow> bit w n"
  by (simp add: GetBit_def bit_iff_and_drop_bit_eq_1 and_one_eq one_and_eq and_exp_eq_0_iff_not_bit)

lemma bit_ToCanonicalForm: "bit (ToCanonicalForm w) n \<longleftrightarrow> n < 64 \<and> (if n < 48 then bit w n else bit w 47)"
  using bit_word_64 [of w n] by (auto simp: ToCanonicalForm_def GetBit_nonzero bit_SetFreeBits bit_ClearFreeBits)

lemma bit_GetStamp: "bit (GetStamp w) n \<longleftrightarrow> bit w (48 + n)"
  by (simp add: stamped_defs bit_drop_bit_eq)

lemma bit_Pack: "bit (Pack p) n \<longleftrightarrow> n < 64 \<and> (if n < 48 then bit (raw_ptr p) n else bit (stamp p) (n - 48))"
  using bit_word_64 [of "raw_ptr p" n]
  by (auto simp: Pack_def bit_or_iff bit_ClearFreeBits kFreeBitsShift_def kFreeBits_def bit_push_bit_iff)

lemma ToCanonicalForm_idem: "ToCanonicalForm (ToCanonicalForm w) = ToCanonicalForm w"
  by (rule bit_word_eqI) (auto simp: bit_ToCanonicalForm)

lemma raw_Unpack_Pack: "raw_ptr (Unpack (Pack p)) = ToCanonicalForm (raw_ptr p)"
  by (rule bit_word_eqI) (auto simp: Unpack_def GetRawPointer_def bit_ToCanonicalForm bit_Pack)

lemma stamp_Unpack_Pack: "stamp (Unpack (Pack p)) = take_bit kFreeBits (stamp p)"
proof -
  have b: "48 + n < 64 \<longleftrightarrow> n < 16" for n :: nat by arith
  show ?thesis
    by (rule bit_word_eqI) (simp add: Unpack_def bit_GetStamp bit_Pack bit_take_bit_iff kFreeBits_def b)
qed

lemma Pack_Unpack: "Pack (Unpack w) = w"
  by (rule bit_word_eqI)
    (use bit_word_64 in \<open>auto simp: bit_Pack Unpack_def GetRawPointer_def bit_ToCanonicalForm bit_GetStamp\<close>)

lemma bit_GetBit_canonical: "w = ToCanonicalForm w \<Longrightarrow> n < 64 \<Longrightarrow> 48 \<le> n \<Longrightarrow> bit w n \<longleftrightarrow> bit w 47"
  using bit_ToCanonicalForm [of w n] by simp

subsection \<open>Properties\<close>

text \<open>The stamped pointers a packed word can hold: a canonical address and a 16-bit stamp.\<close>

definition packable :: "stamped_ptr \<Rightarrow> bool" where
  "packable p = (ToCanonicalForm (raw_ptr p) = raw_ptr p \<and> stamp p \<le> kMaxStamp)"

lemma kMaxStamp_mask: "kMaxStamp = mask 16"
  by (simp add: stamped_defs mask_eq_exp_minus_1 push_bit_eq_mult)

lemma take_bit_stamp_iff: "take_bit kFreeBits s = s \<longleftrightarrow> s \<le> kMaxStamp" for s :: u64
proof -
  have "take_bit 16 s = s \<longleftrightarrow> unat (take_bit 16 s) = unat s" by (metis unsigned_word_eqI)
  also have "\<dots> \<longleftrightarrow> take_bit 16 (unat s) = unat s" by (simp add: unsigned_take_bit_eq)
  also have "\<dots> \<longleftrightarrow> unat s < 2 ^ 16" by (rule take_bit_nat_eq_self_iff)
  also have "\<dots> \<longleftrightarrow> s \<le> mask 16" by (simp add: mask_eq_exp_minus_1 word_le_nat_alt) linarith
  finally show ?thesis by (simp add: kFreeBits_def kMaxStamp_mask)
qed

lemma Unpack_Pack: "packable p \<longleftrightarrow> Unpack (Pack p) = p"
  by (cases p) (auto simp: packable_def take_bit_stamp_iff raw_Unpack_Pack stamp_Unpack_Pack
      dest: arg_cong [where f = raw_ptr] arg_cong [where f = stamp] intro!: stamped_ptr.equality
      simp flip: take_bit_stamp_iff)

lemma packable_Unpack: "packable (Unpack w)"
  by (simp add: Unpack_Pack Pack_Unpack)

lemma Pack_inject: "packable p \<Longrightarrow> packable q \<Longrightarrow> Pack p = Pack q \<longleftrightarrow> p = q"
  by (metis Unpack_Pack)

lemma Pack_eq_iff:
  "Pack p = Pack q \<longleftrightarrow> ToCanonicalForm (raw_ptr p) = ToCanonicalForm (raw_ptr q)
     \<and> take_bit kFreeBits (stamp p) = take_bit kFreeBits (stamp q)"
proof
  assume e: "Pack p = Pack q"
  then show "ToCanonicalForm (raw_ptr p) = ToCanonicalForm (raw_ptr q)
      \<and> take_bit kFreeBits (stamp p) = take_bit kFreeBits (stamp q)"
    using raw_Unpack_Pack [of p] raw_Unpack_Pack [of q] stamp_Unpack_Pack [of p] stamp_Unpack_Pack [of q] by simp
next
  assume "ToCanonicalForm (raw_ptr p) = ToCanonicalForm (raw_ptr q)
      \<and> take_bit kFreeBits (stamp p) = take_bit kFreeBits (stamp q)"
  then have "Unpack (Pack p) = Unpack (Pack q)"
    by (intro stamped_ptr.equality) (simp_all add: raw_Unpack_Pack stamp_Unpack_Pack)
  then show "Pack p = Pack q" by (metis Pack_Unpack)
qed

text \<open>C21: 
  Packing and unpacking are inverse on every packed word, and on exactly the stamped pointers
  with a canonical address and a stamp of at most \<open>kMaxStamp\<close>.
\<close>

theorem stamped_ptr_roundtrip:
  "Pack (Unpack w) = w \<and> (Unpack (Pack p) = p \<longleftrightarrow> ToCanonicalForm (raw_ptr p) = raw_ptr p \<and> stamp p \<le> kMaxStamp)"
  using Unpack_Pack [of p] Pack_Unpack [of w] by (simp add: packable_def)

text \<open>A client of the cell, and the cell as it is meant: one variable that holds a stamped pointer.\<close>

datatype asp_op =
    AspStore stamped_ptr
  | AspLoad
  | AspExchange stamped_ptr
  | AspCas bool stamped_ptr stamped_ptr   \<comment> \<open>spurious failure, expected, desired\<close>

datatype asp_out = OutNone | OutPtr stamped_ptr | OutCas bool stamped_ptr

fun asp_exec :: "asp_op \<Rightarrow> asp_cell \<Rightarrow> asp_out \<times> asp_cell" where
  "asp_exec (AspStore p) c = (OutNone, ASP_Store p c)"
| "asp_exec AspLoad c = (OutPtr (ASP_Load c), c)"
| "asp_exec (AspExchange p) c = (let (old, c') = ASP_Exchange p c in (OutPtr old, c'))"
| "asp_exec (AspCas f e d) c = (let (ok, e', c') = ASP_CompareExchangeWeak f e d c in (OutCas ok e', c'))"

fun spec_exec :: "asp_op \<Rightarrow> stamped_ptr \<Rightarrow> asp_out \<times> stamped_ptr" where
  "spec_exec (AspStore p) v = (OutNone, p)"
| "spec_exec AspLoad v = (OutPtr v, v)"
| "spec_exec (AspExchange p) v = (OutPtr v, p)"
| "spec_exec (AspCas f e d) v = (if v = e \<and> \<not> f then (OutCas True e, d) else (OutCas False v, v))"

fun op_packable :: "asp_op \<Rightarrow> bool" where
  "op_packable (AspStore p) = packable p"
| "op_packable AspLoad = True"
| "op_packable (AspExchange p) = packable p"
| "op_packable (AspCas f e d) = (packable e \<and> packable d)"

fun exec_all :: "('o \<Rightarrow> 'c \<Rightarrow> 'r \<times> 'c) \<Rightarrow> 'o list \<Rightarrow> 'c \<Rightarrow> 'r list \<times> 'c" where
  "exec_all f [] c = ([], c)"
| "exec_all f (x # xs) c = (let (r, c1) = f x c; (rs, c2) = exec_all f xs c1 in (r # rs, c2))"

lemma asp_exec_refines:
  assumes "op_packable x"
  shows "spec_exec x (Unpack c) = (fst (asp_exec x c), Unpack (snd (asp_exec x c)))"
proof (cases x)
  case (AspStore p)
  with assms show ?thesis using Unpack_Pack [of p] by (simp add: ASP_Store_def)
next
  case AspLoad
  then show ?thesis by (simp add: ASP_Load_def)
next
  case (AspExchange p)
  with assms show ?thesis using Unpack_Pack [of p] by (simp add: ASP_Exchange_def)
next
  case (AspCas f e d)
  with assms have p: "Unpack (Pack e) = e" "Unpack (Pack d) = d" by (simp_all flip: Unpack_Pack)
  then have "Unpack c = e \<longleftrightarrow> c = Pack e" by (metis Pack_Unpack)
  with AspCas p show ?thesis by (auto simp: ASP_CompareExchangeWeak_def)
qed

lemma exec_all_refines:
  assumes "\<And>x c. P x \<Longrightarrow> g x (A c) = (fst (f x c), A (snd (f x c)))"
  shows "list_all P xs \<Longrightarrow> exec_all g xs (A c) = (fst (exec_all f xs c), A (snd (exec_all f xs c)))"
  by (induction xs arbitrary: c) (auto simp: assms split: prod.splits)

text \<open>C3: 
  While every stamped pointer passed in has a canonical address and a stamp of at most
  \<open>kMaxStamp\<close>, the packed cell answers every sequence of operations, spurious failures included,
  as a variable holding a stamped pointer would.
\<close>

theorem stamped_cell_refines:
  assumes "packable p" and "list_all op_packable ops"
  shows "exec_all spec_exec ops p =
    (let (outs, c) = exec_all asp_exec ops (ASP_construct p) in (outs, Unpack c))"
  using exec_all_refines [of op_packable spec_exec Unpack asp_exec ops "Pack p", OF asp_exec_refines assms(2)]
    assms(1) Unpack_Pack [of p]
  by (simp add: ASP_construct_def case_prod_beta Let_def)

lemma IncrementStamp_pow: "(IncrementStamp ^^ n) p = p\<lparr>stamp := stamp p + of_nat n\<rparr>"
  by (induction n) (simp_all add: IncrementStamp_def ac_simps)

text \<open>C22: 
  The bound of the scheme: two increments of the same stamped pointer are packed into the same
  word exactly when their numbers agree modulo 65536, so a compare-exchange cannot tell the
  pointer apart from itself 65536 updates later.
\<close>

theorem stamp_wraps_at_65536:
  "Pack ((IncrementStamp ^^ m) p) = Pack ((IncrementStamp ^^ n) p) \<longleftrightarrow> m mod 65536 = n mod 65536"
proof -
  have s: "take_bit 16 (x + of_nat m) = take_bit 16 (x + of_nat n) \<longleftrightarrow> take_bit 16 m = take_bit 16 n" for x :: u64
  proof -
    have t: "take_bit 16 (x + of_nat k) = of_nat (take_bit 16 (unat x + k))" for k
      by (simp flip: take_bit_of_nat)
    have "take_bit 16 (x + of_nat m) = take_bit 16 (x + of_nat n) \<longleftrightarrow> take_bit 16 (unat x + m) = take_bit 16 (unat x + n)"
      unfolding t by (subst of_nat_less_word_inj) (simp_all add: take_bit_eq_mod)
    also have "\<dots> \<longleftrightarrow> take_bit 16 m = take_bit 16 n"
      unfolding take_bit_eq_mod by (simp add: nat_mod_eq_iff)
    finally show ?thesis .
  qed
  then show ?thesis by (simp add: Pack_eq_iff IncrementStamp_pow kFreeBits_def take_bit_eq_mod)
qed

lemma stamped_cell_refines_witness:
  "let p = \<lparr>raw_ptr = 0xffff800000001000, stamp = 65535\<rparr>; q = \<lparr>raw_ptr = 0x2000, stamp = 0\<rparr>;
       ops = [AspCas True p q, AspCas False p q, AspLoad, AspExchange p] in
   packable p \<and> list_all op_packable ops \<and>
   fst (exec_all asp_exec ops (ASP_construct p)) = [OutCas False p, OutCas True p, OutPtr q, OutPtr q]"
proof -
  define p where p: "p = \<lparr>raw_ptr = 0xffff800000001000, stamp = 65535\<rparr>"
  define q where q: "q = \<lparr>raw_ptr = 0x2000, stamp = 0\<rparr>"
  define ops where ops: "ops = [AspCas True p q, AspCas False p q, AspLoad, AspExchange p]"
  have pq: "packable p" "packable q" unfolding p q by code_simp+
  then have l: "list_all op_packable ops" by (simp add: ops)
  have "exec_all spec_exec ops p = ([OutCas False p, OutCas True p, OutPtr q, OutPtr q], p)"
    by (simp add: ops)
  then have "fst (exec_all asp_exec ops (ASP_construct p)) = [OutCas False p, OutCas True p, OutPtr q, OutPtr q]"
    using stamped_cell_refines [OF pq(1) l] by (simp add: case_prod_beta Let_def del: exec_all.simps)
  then show ?thesis using pq l by (simp only: Let_def flip: p q) (simp only: flip: ops)
qed

end
