(* ===== verification/MemAtomic.thy ===== *)
theory MemAtomic
  imports Prelude
begin

section \<open>stdlike::Atomic on x86-64\<close>

text \<open>
  \<open>mm/atomic\<close>: the class Atomic dispatches on the memory order to routines written in assembly
  (\<open>atomic_ops.S\<close>), all of them plain \<open>movq\<close>. This is the one component where sequential
  consistency may not be assumed, so its machine is x86-TSO: every thread has a FIFO store buffer,
  a load takes the newest entry of its own buffer before memory, and a buffered store reaches memory at
  any later moment. An exchange is two instructions.
\<close>

datatype MemoryOrder = Relaxed | Release | Acquire | SeqCst

type_synonym loc = nat
type_synonym buffer = "(loc \<times> i64) list"

datatype atomic_op = OpLoad loc MemoryOrder | OpStore loc i64 MemoryOrder | OpExchange loc i64 MemoryOrder

record tso =
  tso_mem :: "loc \<Rightarrow> i64"
  tso_buf :: "tid \<Rightarrow> buffer"                        \<comment> \<open>oldest store first\<close>
  tso_prog :: "tid \<Rightarrow> atomic_op list"
  tso_xchg :: "tid \<Rightarrow> (loc \<times> i64) option"          \<comment> \<open>the second \<open>movq\<close> of an exchange\<close>
  tso_out :: "tid \<Rightarrow> i64 list"                       \<comment> \<open>what loads and exchanges returned\<close>

fun apply_buf :: "buffer \<Rightarrow> (loc \<Rightarrow> i64) \<Rightarrow> loc \<Rightarrow> i64" where
  "apply_buf [] m = m"
| "apply_buf ((l, v) # b) m = apply_buf b (m(l := v))"

subsection \<open>The instructions and the routines\<close>

definition movq_load :: "tid \<Rightarrow> loc \<Rightarrow> tso \<Rightarrow> i64" where
  "movq_load t cell s = (case map_of (rev (tso_buf s t)) cell of Some v \<Rightarrow> v | None \<Rightarrow> tso_mem s cell)"

definition movq_store :: "tid \<Rightarrow> loc \<Rightarrow> i64 \<Rightarrow> tso \<Rightarrow> tso" where
  "movq_store t cell v s = s\<lparr>tso_buf := (tso_buf s)(t := tso_buf s t @ [(cell, v)])\<rparr>"

definition AtomicLoadRelaxed :: "tid \<Rightarrow> loc \<Rightarrow> tso \<Rightarrow> i64" where
  "AtomicLoadRelaxed t cell s = movq_load t cell s"

definition AtomicLoadAcquire :: "tid \<Rightarrow> loc \<Rightarrow> tso \<Rightarrow> i64" where
  "AtomicLoadAcquire t cell s = movq_load t cell s"

definition AtomicLoadSeqCst :: "tid \<Rightarrow> loc \<Rightarrow> tso \<Rightarrow> i64" where
  "AtomicLoadSeqCst t cell s = movq_load t cell s"

definition AtomicStoreRelaxed :: "tid \<Rightarrow> loc \<Rightarrow> i64 \<Rightarrow> tso \<Rightarrow> tso" where
  "AtomicStoreRelaxed t cell v s = movq_store t cell v s"

definition AtomicStoreRelease :: "tid \<Rightarrow> loc \<Rightarrow> i64 \<Rightarrow> tso \<Rightarrow> tso" where
  "AtomicStoreRelease t cell v s = movq_store t cell v s"

definition AtomicStoreSeqCst :: "tid \<Rightarrow> loc \<Rightarrow> i64 \<Rightarrow> tso \<Rightarrow> tso" where
  "AtomicStoreSeqCst t cell v s = movq_store t cell v s"

text \<open>The two halves of AtomicExchangeSeqCst: what it returns, and the store that follows.\<close>

definition AtomicExchangeSeqCst_load :: "tid \<Rightarrow> loc \<Rightarrow> i64 \<Rightarrow> tso \<Rightarrow> i64 \<times> tso" where
  "AtomicExchangeSeqCst_load t cell v s = (movq_load t cell s, s\<lparr>tso_xchg := (tso_xchg s)(t := Some (cell, v))\<rparr>)"

definition AtomicExchangeSeqCst_store :: "tid \<Rightarrow> loc \<Rightarrow> i64 \<Rightarrow> tso \<Rightarrow> tso" where
  "AtomicExchangeSeqCst_store t cell v s = (movq_store t cell v s)\<lparr>tso_xchg := (tso_xchg s)(t := None)\<rparr>"

fun Atomic_Load :: "tid \<Rightarrow> loc \<Rightarrow> MemoryOrder \<Rightarrow> tso \<Rightarrow> i64" where
  "Atomic_Load t cell Relaxed s = AtomicLoadRelaxed t cell s"
| "Atomic_Load t cell Acquire s = AtomicLoadAcquire t cell s"
| "Atomic_Load t cell SeqCst s = AtomicLoadSeqCst t cell s"
| "Atomic_Load t cell Release s = 0"

fun Atomic_Store :: "tid \<Rightarrow> loc \<Rightarrow> i64 \<Rightarrow> MemoryOrder \<Rightarrow> tso \<Rightarrow> tso" where
  "Atomic_Store t cell v Relaxed s = AtomicStoreRelaxed t cell v s"
| "Atomic_Store t cell v Release s = AtomicStoreRelease t cell v s"
| "Atomic_Store t cell v SeqCst s = AtomicStoreSeqCst t cell v s"
| "Atomic_Store t cell v Acquire s = s"

definition Atomic_Exchange :: "tid \<Rightarrow> loc \<Rightarrow> i64 \<Rightarrow> MemoryOrder \<Rightarrow> tso \<Rightarrow> i64 \<times> tso" where
  "Atomic_Exchange t cell new_value mo s = AtomicExchangeSeqCst_load t cell new_value s"

definition tso_start :: "(tid \<Rightarrow> atomic_op list) \<Rightarrow> tso" where
  "tso_start prog = \<lparr>tso_mem = (\<lambda>_. 0), tso_buf = (\<lambda>_. []), tso_prog = prog, tso_xchg = (\<lambda>_. None), tso_out = (\<lambda>_. [])\<rparr>"

definition tso_emit :: "tid \<Rightarrow> i64 \<Rightarrow> tso \<Rightarrow> tso" where
  "tso_emit t v s = s\<lparr>tso_out := (tso_out s)(t := tso_out s t @ [v])\<rparr>"

datatype tso_act = TsoRun tid | TsoFlush tid

fun tso_step :: "tso_act \<Rightarrow> tso \<Rightarrow> tso option" where
  "tso_step (TsoFlush t) s = (case tso_buf s t of [] \<Rightarrow> None
     | (l, v) # b \<Rightarrow> Some (s\<lparr>tso_mem := (tso_mem s)(l := v), tso_buf := (tso_buf s)(t := b)\<rparr>))"
| "tso_step (TsoRun t) s = (case tso_xchg s t of
     Some (l, v) \<Rightarrow> Some (AtomicExchangeSeqCst_store t l v s)
   | None \<Rightarrow> (case tso_prog s t of
       [] \<Rightarrow> None
     | OpLoad l mo # p \<Rightarrow> Some (tso_emit t (Atomic_Load t l mo s) (s\<lparr>tso_prog := (tso_prog s)(t := p)\<rparr>))
     | OpStore l v mo # p \<Rightarrow> Some (Atomic_Store t l v mo (s\<lparr>tso_prog := (tso_prog s)(t := p)\<rparr>))
     | OpExchange l v mo # p \<Rightarrow> (let (old, s1) = Atomic_Exchange t l v mo (s\<lparr>tso_prog := (tso_prog s)(t := p)\<rparr>)
                                 in Some (tso_emit t old s1))))"

lemmas atomic_ops = movq_store_def AtomicLoadRelaxed_def AtomicLoadAcquire_def AtomicLoadSeqCst_def
  AtomicStoreRelaxed_def AtomicStoreRelease_def AtomicStoreSeqCst_def AtomicExchangeSeqCst_load_def
  AtomicExchangeSeqCst_store_def Atomic_Exchange_def tso_emit_def

subsection \<open>A thread sees its own stores\<close>

lemma apply_buf_append: "apply_buf (b @ [(l, v)]) m = (apply_buf b m)(l := v)"
  by (induction b arbitrary: m) auto

lemma movq_load_apply: "movq_load t cell s = apply_buf (tso_buf s t) (tso_mem s) cell"
proof -
  have "apply_buf b m cell = (case map_of (rev b) cell of Some v \<Rightarrow> v | None \<Rightarrow> m cell)" for b m
    by (induction b rule: rev_induct) (auto simp: apply_buf_append)
  then show ?thesis by (simp add: movq_load_def)
qed

text \<open>The program as it reads: every operation takes effect at once.\<close>

fun sc_out :: "atomic_op list \<Rightarrow> (loc \<Rightarrow> i64) \<Rightarrow> i64 list" where
  "sc_out [] m = []"
| "sc_out (OpLoad l mo # p) m = (if mo = Release then 0 else m l) # sc_out p m"
| "sc_out (OpStore l v mo # p) m = sc_out p (if mo = Acquire then m else m(l := v))"
| "sc_out (OpExchange l v mo # p) m = m l # sc_out p (m(l := v))"

definition own_view :: "tid \<Rightarrow> tso \<Rightarrow> loc \<Rightarrow> i64" where
  "own_view t s = (let m = apply_buf (tso_buf s t) (tso_mem s)
     in case tso_xchg s t of None \<Rightarrow> m | Some (l, v) \<Rightarrow> m(l := v))"

definition alone :: "atomic_op list \<Rightarrow> tid \<Rightarrow> tso \<Rightarrow> bool" where
  "alone prog t s = ((\<forall>u. u \<noteq> t \<longrightarrow> tso_prog s u = [] \<and> tso_buf s u = [] \<and> tso_xchg s u = None) \<and>
     tso_out s t @ sc_out (tso_prog s t) (own_view t s) = sc_out prog (\<lambda>_. 0))"

lemma Atomic_Load_eq: "Atomic_Load t l mo s = (if mo = Release then 0 else apply_buf (tso_buf s t) (tso_mem s) l)"
  by (cases mo) (simp_all add: atomic_ops movq_load_apply)

lemma Atomic_Store_eq: "Atomic_Store t l v mo s = (if mo = Acquire then s else movq_store t l v s)"
  by (cases mo) (simp_all add: atomic_ops)

lemma alone_step:
  assumes "alone prog t s" and "tso_step a s = Some s'"
  shows "alone prog t s'"
proof -
  from assms(1) have others: "u \<noteq> t \<Longrightarrow> tso_prog s u = [] \<and> tso_buf s u = [] \<and> tso_xchg s u = None" for u
    by (simp add: alone_def)
  obtain u where u: "a = TsoRun u \<or> a = TsoFlush u" by (cases a) auto
  have "u = t"
  proof (rule ccontr)
    assume "u \<noteq> t"
    from others [OF this] assms(2) u show False by auto
  qed
  with u have a: "a = TsoRun t \<or> a = TsoFlush t" by simp
  then show ?thesis
  proof
    assume "a = TsoFlush t"
    with assms show ?thesis
      by (auto simp: alone_def own_view_def split: list.splits)
  next
    assume "a = TsoRun t"
    with assms show ?thesis
      by (auto simp: alone_def own_view_def atomic_ops Atomic_Load_eq Atomic_Store_eq apply_buf_append movq_load_apply
          split: list.splits option.splits atomic_op.splits if_splits)
  qed
qed

text \<open>C23: 
  A thread that runs alone gets from its loads and exchanges what its program says, whatever the
  moments at which its buffered stores reach memory.
\<close>

theorem single_thread_sequential:
  "let s = run tso_step as (tso_start (\<lambda>u. if u = t then prog else []))
   in (\<exists>rest. sc_out prog (\<lambda>_. 0) = tso_out s t @ rest)
    \<and> (tso_prog s t \<noteq> [] \<or> tso_xchg s t \<noteq> None \<or> tso_out s t = sc_out prog (\<lambda>_. 0))"
proof -
  have "alone prog t (tso_start (\<lambda>u. if u = t then prog else []))"
    by (simp add: alone_def tso_start_def own_view_def)
  then have "alone prog t (run tso_step as (tso_start (\<lambda>u. if u = t then prog else [])))"
    by (rule run_keeps [rotated]) (rule alone_step)
  then show ?thesis unfolding Let_def alone_def by (metis append.right_neutral sc_out.simps(1))
qed

subsection \<open>Release and acquire\<close>

text \<open>The writer publishes \<open>v\<close> in \<open>data\<close> and then sets \<open>flag\<close>; the reader looks at \<open>flag\<close>, then at \<open>data\<close>.\<close>

definition mp_start :: "loc \<Rightarrow> loc \<Rightarrow> i64 \<Rightarrow> tso" where
  "mp_start data flag v = tso_start ((\<lambda>_. [])(
     0 := [OpStore data v Relaxed, OpStore flag 1 Release],
     1 := [OpLoad flag Acquire, OpLoad data Relaxed]))"

definition mp_writer :: "loc \<Rightarrow> loc \<Rightarrow> i64 \<Rightarrow> tso \<Rightarrow> bool" where
  "mp_writer data flag v s =
    ((tso_prog s 0 = [OpStore data v Relaxed, OpStore flag 1 Release] \<and> tso_buf s 0 = [] \<and> tso_mem s flag = 0) \<or>
     (tso_prog s 0 = [OpStore flag 1 Release] \<and> tso_buf s 0 = [(data, v)] \<and> tso_mem s flag = 0) \<or>
     (tso_prog s 0 = [OpStore flag 1 Release] \<and> tso_buf s 0 = [] \<and> tso_mem s flag = 0 \<and> tso_mem s data = v) \<or>
     (tso_prog s 0 = [] \<and> tso_buf s 0 = [(data, v), (flag, 1)] \<and> tso_mem s flag = 0) \<or>
     (tso_prog s 0 = [] \<and> tso_buf s 0 = [(flag, 1)] \<and> tso_mem s flag = 0 \<and> tso_mem s data = v) \<or>
     (tso_prog s 0 = [] \<and> tso_buf s 0 = [] \<and> tso_mem s data = v))"

definition mp_reader :: "loc \<Rightarrow> loc \<Rightarrow> i64 \<Rightarrow> tso \<Rightarrow> bool" where
  "mp_reader data flag v s =
    ((tso_prog s 1 = [OpLoad flag Acquire, OpLoad data Relaxed] \<and> tso_out s 1 = []) \<or>
     (tso_prog s 1 = [OpLoad data Relaxed] \<and> (\<exists>x. tso_out s 1 = [x] \<and> (x = 0 \<or> tso_mem s data = v \<and> tso_buf s 0 = [] \<and> tso_prog s 0 = []))) \<or>
     (tso_prog s 1 = [] \<and> (\<exists>x y. tso_out s 1 = [x, y] \<and> (x = 0 \<or> y = v))))"

definition mp_inv :: "loc \<Rightarrow> loc \<Rightarrow> i64 \<Rightarrow> tso \<Rightarrow> bool" where
  "mp_inv data flag v s = (mp_writer data flag v s \<and> mp_reader data flag v s \<and> tso_buf s 1 = [] \<and>
     (\<forall>t. tso_xchg s t = None) \<and> (\<forall>t. t \<noteq> 0 \<and> t \<noteq> 1 \<longrightarrow> tso_prog s t = [] \<and> tso_buf s t = []))"

lemma mp_writer_cong:
  "tso_prog s' 0 = tso_prog s 0 \<Longrightarrow> tso_buf s' 0 = tso_buf s 0 \<Longrightarrow> tso_mem s' = tso_mem s \<Longrightarrow>
   mp_writer data flag v s' = mp_writer data flag v s"
  by (simp add: mp_writer_def)

lemma mp_writer_flag:
  "mp_writer data flag v s \<Longrightarrow> tso_mem s flag \<noteq> 0 \<Longrightarrow> tso_mem s data = v \<and> tso_buf s 0 = [] \<and> tso_prog s 0 = []"
  by (auto simp: mp_writer_def)

lemma mp_reader_keep:
  assumes "mp_reader data flag v s" and "tso_prog s' 1 = tso_prog s 1" and "tso_out s' 1 = tso_out s 1"
    and "tso_prog s 0 \<noteq> [] \<or> tso_buf s 0 \<noteq> []"
  shows "mp_reader data flag v s'"
  using assms by (auto simp: mp_reader_def)

lemma tso_step_writer:
  assumes "tso_step a s = Some s'" and "a = TsoRun t \<or> a = TsoFlush t" and "tso_xchg s t = None"
    and "\<forall>op \<in> set (tso_prog s t). \<exists>l v mo. op = OpStore l v mo"
  shows "tso_prog s t \<noteq> [] \<or> tso_buf s t \<noteq> []" and "tso_out s' = tso_out s" and "tso_xchg s' = tso_xchg s"
    and "u \<noteq> t \<Longrightarrow> tso_prog s' u = tso_prog s u" and "u \<noteq> t \<Longrightarrow> tso_buf s' u = tso_buf s u"
  using assms by (auto simp: atomic_ops Atomic_Store_eq split: list.splits atomic_op.splits if_splits)

lemma mp_writer_run:
  assumes "mp_writer data flag v s" and "tso_xchg s 0 = None" and "tso_step (TsoRun 0) s = Some s'"
  shows "mp_writer data flag v s'"
proof -
  have "s' = s\<lparr>tso_prog := (tso_prog s)(0 := tl (tso_prog s 0)),
      tso_buf := (tso_buf s)(0 := tso_buf s 0 @ [if length (tso_prog s 0) = 2 then (data, v) else (flag, 1)])\<rparr>"
    and "tso_prog s 0 \<noteq> []"
    using assms unfolding mp_writer_def by (elim disjE; simp add: atomic_ops)+
  with assms(1) show ?thesis unfolding mp_writer_def by (elim disjE; simp)
qed

lemma mp_writer_flush:
  assumes "data \<noteq> flag" and "mp_writer data flag v s" and "tso_step (TsoFlush 0) s = Some s'"
  shows "mp_writer data flag v s'"
proof -
  have "s' = s\<lparr>tso_mem := (tso_mem s)(fst (hd (tso_buf s 0)) := snd (hd (tso_buf s 0))),
      tso_buf := (tso_buf s)(0 := tl (tso_buf s 0))\<rparr>" and "tso_buf s 0 \<noteq> []"
    using assms(3) by (auto split: list.splits)
  with assms(1,2) show ?thesis unfolding mp_writer_def by (elim disjE; simp)
qed

lemma mp_reader_step:
  assumes "mp_writer data flag v s" and "mp_reader data flag v s" and "tso_xchg s 1 = None" and "tso_buf s 1 = []"
    and "tso_step (TsoRun 1) s = Some s'"
  shows "mp_reader data flag v s'" and "tso_mem s' = tso_mem s" and "tso_buf s' = tso_buf s" and "tso_xchg s' = tso_xchg s"
    and "\<And>t. t \<noteq> 1 \<Longrightarrow> tso_prog s' t = tso_prog s t"
proof -
  note f = mp_writer_flag [OF assms(1)]
  from assms(2) [unfolded mp_reader_def] assms(3-5) f
  have "mp_reader data flag v s' \<and> tso_mem s' = tso_mem s \<and> tso_buf s' = tso_buf s \<and> tso_xchg s' = tso_xchg s \<and>
      (\<forall>t. t \<noteq> 1 \<longrightarrow> tso_prog s' t = tso_prog s t)"
    by (elim disjE conjE exE) (auto simp: mp_reader_def atomic_ops movq_load_apply)
  then show "mp_reader data flag v s'" "tso_mem s' = tso_mem s" "tso_buf s' = tso_buf s" "tso_xchg s' = tso_xchg s"
    "\<And>t. t \<noteq> 1 \<Longrightarrow> tso_prog s' t = tso_prog s t" by blast+
qed

lemma mp_inv_step:
  assumes "data \<noteq> flag" and "mp_inv data flag v s" and "tso_step a s = Some s'"
  shows "mp_inv data flag v s'"
proof -
  obtain u where u: "a = TsoRun u \<or> a = TsoFlush u" by (cases a) auto
  have o: "t \<noteq> 0 \<Longrightarrow> t \<noteq> 1 \<Longrightarrow> tso_prog s t = [] \<and> tso_buf s t = []" "tso_xchg s t = None" "tso_buf s 1 = []" for t
    using assms(2) by (auto simp: mp_inv_def)
  have w: "mp_writer data flag v s" and r: "mp_reader data flag v s"
    using assms(2) by (auto simp: mp_inv_def)
  consider (writer) "a = TsoRun 0 \<or> a = TsoFlush 0" | (reader) "a = TsoRun 1"
    using u assms(3) o by (cases "u = 0"; cases "u = 1") auto
  then show ?thesis
  proof cases
    case writer
    have np: "\<forall>op \<in> set (tso_prog s 0). \<exists>l v mo. op = OpStore l v mo"
      using w by (auto simp: mp_writer_def)
    have w': "mp_writer data flag v s'"
      using writer assms(3) mp_writer_run [OF w o(2)] mp_writer_flush [OF assms(1) w] by auto
    note m = tso_step_writer [OF assms(3) writer o(2) np]
    have "mp_reader data flag v s'" by (rule mp_reader_keep [OF r _ _ m(1)]) (simp_all add: m)
    with m o w' show ?thesis by (simp add: mp_inv_def)
  next
    case reader
    note m = mp_reader_step [OF w r o(2,3) assms(3) [unfolded reader]]
    have "mp_writer data flag v s'" using w m by (simp add: mp_writer_cong [of s' s])
    with m o show ?thesis by (simp add: mp_inv_def)
  qed
qed

text \<open>
  Release and acquire publish: on every schedule of instructions and buffer flushes, a reader
  whose acquiring load sees the flag that a releasing store has set reads from \<open>data\<close> what was
  stored before the flag.
\<close>

theorem release_acquire_publishes:
  assumes "data \<noteq> flag" and "tso_out (run tso_step as (mp_start data flag v)) 1 = [1, x]"
  shows "x = v"
proof -
  have "mp_inv data flag v (mp_start data flag v)"
    by (auto simp: mp_inv_def mp_writer_def mp_reader_def mp_start_def tso_start_def)
  then have "mp_inv data flag v (run tso_step as (mp_start data flag v))"
    by (rule run_keeps [rotated]) (rule mp_inv_step [OF assms(1)])
  with assms(2) show ?thesis by (auto simp: mp_inv_def mp_reader_def)
qed

lemma release_acquire_publishes_witness:
  "let as = [TsoRun 0, TsoRun 0, TsoFlush 0, TsoFlush 0, TsoRun 1, TsoRun 1] in
   (0::loc) \<noteq> 1 \<and> tso_out (run tso_step as (mp_start 0 1 42)) 1 = [1, 42] \<and> (42 :: i64) = 42"
proof -
  have o: "tso_out (run tso_step [TsoRun 0, TsoRun 0, TsoFlush 0, TsoFlush 0, TsoRun 1, TsoRun 1] (mp_start 0 1 42)) 1 = [1, 42]"
    by code_simp
  show ?thesis using o release_acquire_publishes [OF _ o] by (simp del: run.simps)
qed

subsection \<open>What the routines do not give\<close>

text \<open>
  Sequentially consistent stores are not: AtomicStoreSeqCst is a plain \<open>movq\<close>, so two threads
  that each store and then load the other's variable, all with SeqCst, can both read 0 on a
  schedule on which every store reaches memory. In every sequentially consistent order one of them reads 1.
\<close>

theorem seq_cst_store_buffering:
  "\<exists>as. let s = run tso_step as (tso_start ((\<lambda>_. [])(
      0 := [OpStore 0 1 SeqCst, OpLoad 1 SeqCst], 1 := [OpStore 1 1 SeqCst, OpLoad 0 SeqCst])))
    in tso_out s 0 = [0] \<and> tso_out s 1 = [0] \<and> tso_buf s 0 = [] \<and> tso_buf s 1 = [] \<and> tso_mem s 0 = 1 \<and> tso_mem s 1 = 1"
  by (rule exI [of _ "[TsoRun 0, TsoRun 1, TsoRun 0, TsoRun 1, TsoFlush 0, TsoFlush 1]"]) code_simp

text \<open>
  An exchange is not atomic: AtomicExchangeSeqCst is a load followed by a store, so two threads that exchange
  1 into a cell holding 0 can both get 0, which lets both into a critical section guarded by
  an exchange spinlock.
\<close>

theorem exchange_not_atomic:
  "\<exists>as. let s = run tso_step as (tso_start ((\<lambda>_. [])(0 := [OpExchange 0 1 SeqCst], 1 := [OpExchange 0 1 SeqCst])))
    in tso_out s 0 = [0] \<and> tso_out s 1 = [0] \<and> tso_buf s 0 = [] \<and> tso_buf s 1 = [] \<and> tso_xchg s 0 = None \<and> tso_xchg s 1 = None"
  by (rule exI [of _ "[TsoRun 0, TsoRun 1, TsoRun 0, TsoRun 1, TsoFlush 0, TsoFlush 1]"]) code_simp

lemma single_thread_sequential_witness:
  "let prog = [OpStore 0 5 Relaxed, OpLoad 0 SeqCst, OpExchange 0 7 SeqCst, OpLoad 0 Acquire];
       s = run tso_step [TsoRun 3, TsoRun 3, TsoRun 3, TsoFlush 3, TsoRun 3, TsoRun 3] (tso_start (\<lambda>u. if u = 3 then prog else []))
   in tso_prog s 3 = [] \<and> tso_xchg s 3 = None \<and> tso_out s 3 = [5, 5, 7] \<and> tso_out s 3 = sc_out prog (\<lambda>_. 0)"
proof -
  let ?prog = "[OpStore 0 5 Relaxed, OpLoad 0 SeqCst, OpExchange 0 7 SeqCst, OpLoad 0 Acquire]"
  let ?as = "[TsoRun 3, TsoRun 3, TsoRun 3, TsoFlush 3, TsoRun 3, TsoRun 3]"
  define s where "s = run tso_step ?as (tso_start (\<lambda>u. if u = 3 then ?prog else []))"
  have p: "tso_prog s 3 = []" "tso_xchg s 3 = None" "tso_out s 3 = [5, 5, 7]" unfolding s_def by code_simp+
  have "tso_out s 3 = sc_out ?prog (\<lambda>_. 0)"
    using single_thread_sequential [of ?as 3 ?prog] p unfolding Let_def s_def [symmetric] by blast
  with p show ?thesis unfolding Let_def s_def [symmetric] by blast
qed

end
