(* ===== verification/StdFuture.thy ===== *)
theory StdFuture
  imports Prelude
begin

section \<open>Promise and Future over a mutex and a condition variable\<close>

text \<open>
  \<open>futures/std/stdlike\<close>: the one-shot channel between the thread that fulfils the promise and the thread
  that calls Get. SharedState keeps a variant (nothing, a value, an exception), a mutex and
  a condition variable. \<open>emplace\<close> runs before the mutex is taken, so it is two steps here: a read of
  the variant between them is a data race, recorded in \<open>sf_race\<close>, which sees the old index.
\<close>

datatype ('a, 'e) variant = Monostate | VValue 'a | VException 'e

datatype ('a, 'e) set_op = OpSetValue 'a | OpSetException 'e

text \<open>The consumer, in \<open>SharedState::Get\<close>.\<close>

datatype ('a, 'e) get_pc =
    GIdle
  | GLock                    \<comment> \<open>constructing \<open>unique_lock\<close>, or waking up in \<open>wait\<close>\<close>
  | GCheck                   \<comment> \<open>holds the mutex, about to evaluate the predicate\<close>
  | GSleep                   \<comment> \<open>the predicate was false: about to release the mutex and block\<close>
  | GWaiting
  | GReady                   \<comment> \<open>holds the mutex, \<open>wait\<close> has returned\<close>
  | GDone "'e + 'a"          \<comment> \<open>rethrew an exception, or returned a value\<close>

text \<open>The producer, in SetValue or SetException.\<close>

datatype ('a, 'e) set_pc =
    SIdle
  | SEmplace "('a, 'e) set_op"     \<comment> \<open>about to enter \<open>emplace\<close>\<close>
  | SEmplacing "('a, 'e) set_op"
  | SLock | SUnlock | SNotify | SDone

record ('a, 'e) std_state =
  sf_v :: "('a, 'e) variant"
  sf_owner :: "bool option"        \<comment> \<open>the mutex: held by the producer (True) or the consumer (False)\<close>
  sf_get :: "('a, 'e) get_pc"
  sf_set :: "('a, 'e) set_pc"
  sf_promise :: bool               \<comment> \<open>the Promise's \<open>shared_ptr\<close> is alive\<close>
  sf_future :: bool                \<comment> \<open>the Future's \<open>shared_ptr\<close> is alive\<close>
  sf_race :: bool
  sf_fault :: bool                 \<comment> \<open>used after both owners are gone\<close>
  sf_op :: "('a, 'e) set_op option"  \<comment> \<open>ghost: what the promise was fulfilled with\<close>

definition Promise_construct :: "('a, 'e) std_state" where
  "Promise_construct = \<lparr>sf_v = Monostate, sf_owner = None, sf_get = GIdle, sf_set = SIdle,
     sf_promise = True, sf_future = False, sf_race = False, sf_fault = False, sf_op = None\<rparr>"

definition Promise_MakeFuture :: "('a, 'e) std_state \<Rightarrow> ('a, 'e) std_state" where
  "Promise_MakeFuture s = s\<lparr>sf_future := True\<rparr>"

definition sf_use :: "('a, 'e) std_state \<Rightarrow> ('a, 'e) std_state" where
  "sf_use s = s\<lparr>sf_fault := sf_fault s \<or> \<not> (sf_promise s \<or> sf_future s)\<rparr>"

definition Future_Get :: "('a, 'e) std_state \<Rightarrow> ('a, 'e) std_state" where
  "Future_Get s = (sf_use s)\<lparr>sf_get := GLock\<rparr>"

definition Promise_SetValue :: "'a \<Rightarrow> ('a, 'e) std_state \<Rightarrow> ('a, 'e) std_state" where
  "Promise_SetValue v s = (sf_use s)\<lparr>sf_set := SEmplace (OpSetValue v), sf_op := Some (OpSetValue v)\<rparr>"

definition Promise_SetException :: "'e \<Rightarrow> ('a, 'e) std_state \<Rightarrow> ('a, 'e) std_state" where
  "Promise_SetException e s = (sf_use s)\<lparr>sf_set := SEmplace (OpSetException e), sf_op := Some (OpSetException e)\<rparr>"

fun op_variant :: "('a, 'e) set_op \<Rightarrow> ('a, 'e) variant" where
  "op_variant (OpSetValue v) = VValue v"
| "op_variant (OpSetException e) = VException e"

subsection \<open>Get\<close>

definition Get_lock :: "('a, 'e) std_state \<Rightarrow> ('a, 'e) std_state option" where
  "Get_lock s = (if sf_owner s = None then Some ((sf_use s)\<lparr>sf_owner := Some False, sf_get := GCheck\<rparr>) else None)"

definition mid_emplace :: "('a, 'e) std_state \<Rightarrow> bool" where
  "mid_emplace s = (case sf_set s of SEmplacing _ \<Rightarrow> True | _ \<Rightarrow> False)"

definition Get_predicate :: "('a, 'e) std_state \<Rightarrow> ('a, 'e) std_state" where
  "Get_predicate s = (sf_use s)\<lparr>sf_race := sf_race s \<or> mid_emplace s,
     sf_get := (if sf_v s \<noteq> Monostate then GReady else GSleep)\<rparr>"

definition Get_wait :: "('a, 'e) std_state \<Rightarrow> ('a, 'e) std_state" where
  "Get_wait s = (sf_use s)\<lparr>sf_owner := None, sf_get := GWaiting\<rparr>"

text \<open>Index 2 rethrows; otherwise \<open>std::get<1>\<close>. The lock is released on both ways out.\<close>

definition Get_result :: "('a, 'e) std_state \<Rightarrow> ('a, 'e) std_state" where
  "Get_result s = (case sf_v s of
     VException eptr \<Rightarrow> (sf_use s)\<lparr>sf_owner := None, sf_get := GDone (Inl eptr)\<rparr>
   | VValue v \<Rightarrow> (sf_use s)\<lparr>sf_owner := None, sf_get := GDone (Inr v)\<rparr>
   | Monostate \<Rightarrow> (sf_use s)\<lparr>sf_fault := True\<rparr>)"

subsection \<open>SetValue and SetException\<close>

definition Set_emplace :: "('a, 'e) set_op \<Rightarrow> ('a, 'e) std_state \<Rightarrow> ('a, 'e) std_state" where
  "Set_emplace op s = (sf_use s)\<lparr>sf_v := op_variant op, sf_set := SLock\<rparr>"

definition Set_lock :: "('a, 'e) std_state \<Rightarrow> ('a, 'e) std_state option" where
  "Set_lock s = (if sf_owner s = None then Some ((sf_use s)\<lparr>sf_owner := Some True, sf_set := SUnlock\<rparr>) else None)"

definition Set_unlock :: "('a, 'e) std_state \<Rightarrow> ('a, 'e) std_state" where
  "Set_unlock s = (sf_use s)\<lparr>sf_owner := None, sf_set := SNotify\<rparr>"

definition Set_notify :: "('a, 'e) std_state \<Rightarrow> ('a, 'e) std_state" where
  "Set_notify s = (sf_use s)\<lparr>sf_get := (if sf_get s = GWaiting then GLock else sf_get s), sf_set := SDone\<rparr>"

datatype ('a, 'e) sf_act =
    SfMakeFuture | SfGet | SfSetValue 'a | SfSetException 'e
  | SfGetter                \<comment> \<open>the consumer's next step\<close>
  | SfSetter                \<comment> \<open>the producer's next step\<close>
  | SfSpurious              \<comment> \<open>\<open>wait\<close> wakes up on its own\<close>
  | SfDropPromise | SfDropFuture

fun sf_step :: "('a, 'e) sf_act \<Rightarrow> ('a, 'e) std_state \<Rightarrow> ('a, 'e) std_state option" where
  "sf_step SfMakeFuture s = (if sf_promise s \<and> sf_get s = GIdle then Some (Promise_MakeFuture s) else None)"
| "sf_step SfGet s = (if sf_future s \<and> sf_get s = GIdle then Some (Future_Get s) else None)"
| "sf_step (SfSetValue v) s = (if sf_promise s \<and> sf_set s = SIdle then Some (Promise_SetValue v s) else None)"
| "sf_step (SfSetException e) s = (if sf_promise s \<and> sf_set s = SIdle then Some (Promise_SetException e s) else None)"
| "sf_step SfGetter s = (case sf_get s of
     GLock \<Rightarrow> Get_lock s
   | GCheck \<Rightarrow> Some (Get_predicate s)
   | GSleep \<Rightarrow> Some (Get_wait s)
   | GReady \<Rightarrow> Some (Get_result s)
   | _ \<Rightarrow> None)"
| "sf_step SfSetter s = (case sf_set s of
     SEmplace op \<Rightarrow> Some (s\<lparr>sf_set := SEmplacing op\<rparr>)
   | SEmplacing op \<Rightarrow> Some (Set_emplace op s)
   | SLock \<Rightarrow> Set_lock s
   | SUnlock \<Rightarrow> Some (Set_unlock s)
   | SNotify \<Rightarrow> Some (Set_notify s)
   | _ \<Rightarrow> None)"
| "sf_step SfSpurious s = (if sf_get s = GWaiting then Some (s\<lparr>sf_get := GLock\<rparr>) else None)"
| "sf_step SfDropPromise s = (if sf_promise s \<and> (sf_set s = SIdle \<or> sf_set s = SDone) then Some (s\<lparr>sf_promise := False\<rparr>) else None)"
| "sf_step SfDropFuture s = (if sf_future s \<and> (case sf_get s of GIdle \<Rightarrow> True | GDone _ \<Rightarrow> True | _ \<Rightarrow> False)
     then Some (s\<lparr>sf_future := False\<rparr>) else None)"

lemmas sf_ops = Promise_MakeFuture_def sf_use_def Future_Get_def Promise_SetValue_def Promise_SetException_def
  Get_lock_def Get_predicate_def Get_wait_def Get_result_def Set_emplace_def Set_lock_def Set_unlock_def Set_notify_def

subsection \<open>The invariant\<close>

fun op_result :: "('a, 'e) set_op \<Rightarrow> 'e + 'a" where
  "op_result (OpSetValue v) = Inr v"
| "op_result (OpSetException e) = Inl e"

fun set_v :: "('a, 'e) set_pc \<Rightarrow> ('a, 'e) set_op option \<Rightarrow> ('a, 'e) variant \<Rightarrow> bool" where
  "set_v SIdle f v = (f = None \<and> v = Monostate)"
| "set_v (SEmplace op) f v = (f = Some op \<and> v = Monostate)"
| "set_v (SEmplacing op) f v = (f = Some op \<and> v = Monostate)"
| "set_v _ f v = (\<exists>op. f = Some op \<and> v = op_variant op)"

definition before_lock :: "('a, 'e) set_pc \<Rightarrow> bool" where
  "before_lock p = (p \<noteq> SUnlock \<and> p \<noteq> SNotify \<and> p \<noteq> SDone)"

fun get_ok :: "('a, 'e) get_pc \<Rightarrow> ('a, 'e) std_state \<Rightarrow> bool" where
  "get_ok GSleep s = before_lock (sf_set s)"
| "get_ok GWaiting s = (sf_set s \<noteq> SDone)"
| "get_ok GReady s = (sf_v s \<noteq> Monostate)"
| "get_ok (GDone r) s = (\<exists>op. sf_op s = Some op \<and> r = op_result op)"
| "get_ok _ s = True"

lemma get_ok_cong:
  "get_ok p s \<Longrightarrow> (sf_v s \<noteq> Monostate \<Longrightarrow> sf_v s' \<noteq> Monostate) \<Longrightarrow> (sf_op s \<noteq> None \<Longrightarrow> sf_op s' = sf_op s) \<Longrightarrow>
   (sf_set s' = SDone \<Longrightarrow> sf_set s = SDone \<or> p \<noteq> GWaiting) \<Longrightarrow>
   (before_lock (sf_set s) \<Longrightarrow> before_lock (sf_set s') \<or> p \<noteq> GSleep) \<Longrightarrow> get_ok p s'"
  by (cases p) auto

fun get_holds :: "('a, 'e) get_pc \<Rightarrow> bool" where
  "get_holds GCheck = True" | "get_holds GSleep = True" | "get_holds GReady = True" | "get_holds _ = False"

fun get_active :: "('a, 'e) get_pc \<Rightarrow> bool" where
  "get_active GIdle = False" | "get_active (GDone r) = False" | "get_active _ = True"

fun set_active :: "('a, 'e) set_pc \<Rightarrow> bool" where
  "set_active SIdle = False" | "set_active SDone = False" | "set_active _ = True"

definition sf_inv :: "('a, 'e) std_state \<Rightarrow> bool" where
  "sf_inv s = (\<not> sf_fault s \<and> set_v (sf_set s) (sf_op s) (sf_v s) \<and> get_ok (sf_get s) s \<and>
     (sf_owner s = Some True) = (sf_set s = SUnlock) \<and> (sf_owner s = Some False) = get_holds (sf_get s) \<and>
     (set_active (sf_set s) \<longrightarrow> sf_promise s) \<and> (get_active (sf_get s) \<longrightarrow> sf_future s))"

lemma op_variant_simps [simp]: "op_variant op \<noteq> Monostate" "Monostate \<noteq> op_variant op" "op_variant op = VValue v \<longleftrightarrow> op = OpSetValue v"
  "op_variant op = VException e \<longleftrightarrow> op = OpSetException e"
  by (cases op; simp)+

lemma set_v_done: "set_v p f v \<Longrightarrow> v \<noteq> Monostate \<Longrightarrow> \<exists>op. f = Some op \<and> v = op_variant op"
  by (cases p) auto

lemma set_v_before: "set_v p f Monostate \<Longrightarrow> before_lock p"
  by (cases p) (auto simp: before_lock_def)

lemma sf_start: "sf_inv Promise_construct"
  by (simp add: sf_inv_def Promise_construct_def)

lemma sf_getter_step:
  assumes "sf_inv s" and "sf_step SfGetter s = Some s'"
  shows "sf_inv s'"
proof (cases "sf_get s")
  case GCheck
  have "sf_v s = Monostate \<Longrightarrow> before_lock (sf_set s)"
    using assms(1) set_v_before [of "sf_set s" "sf_op s"] by (auto simp: sf_inv_def)
  with GCheck assms show ?thesis by (cases "sf_v s = Monostate") (auto simp: sf_ops, simp_all add: sf_inv_def, auto)
next
  case GReady
  obtain op where "sf_op s = Some op" "sf_v s = op_variant op"
    using assms(1) GReady set_v_done [of "sf_set s" "sf_op s" "sf_v s"] by (auto simp: sf_inv_def)
  with GReady assms show ?thesis by (cases op) (auto simp: sf_inv_def sf_ops)
qed (use assms in \<open>auto simp: sf_inv_def sf_ops before_lock_def split: if_splits\<close>)

lemma sf_notify:
  assumes "sf_inv s" and "sf_set s = SNotify"
  shows "sf_inv (Set_notify s)"
proof -
  have "get_ok (sf_get (Set_notify s)) (Set_notify s)"
    using assms by (cases "sf_get s") (auto simp: sf_inv_def Set_notify_def sf_use_def before_lock_def)
  with assms show ?thesis
    by (cases "sf_get s = GWaiting") (auto simp: sf_inv_def Set_notify_def sf_use_def)
qed

lemma sf_setter_frame:
  assumes "sf_step SfSetter s = Some s'" and "sf_set s \<noteq> SNotify"
  shows "sf_get s' = sf_get s \<and> sf_op s' = sf_op s \<and> sf_set s' \<noteq> SDone \<and> (sf_v s \<noteq> Monostate \<longrightarrow> sf_v s' \<noteq> Monostate) \<and>
    (sf_set s' = SUnlock \<longrightarrow> sf_owner s = None) \<and>
    (before_lock (sf_set s) \<longrightarrow> sf_set s' \<noteq> SUnlock \<longrightarrow> before_lock (sf_set s'))"
  using assms by (cases "sf_set s") (auto simp: sf_ops before_lock_def split: if_splits)

lemma sf_setter_step:
  assumes "sf_inv s" and "sf_step SfSetter s = Some s'"
  shows "sf_inv s'"
proof (cases "sf_set s = SNotify")
  case True
  with assms sf_notify show ?thesis by auto
next
  case False
  note g = sf_setter_frame [OF assms(2) False]
  have o: "sf_set s' = SUnlock \<Longrightarrow> sf_get s \<noteq> GSleep"
    using assms(1) g by (auto simp: sf_inv_def)
  have "get_ok (sf_get s') s'"
    using assms(1) g o get_ok_cong [of "sf_get s" s s'] by (auto simp: sf_inv_def)
  with assms False show ?thesis
    by (cases "sf_set s"; clarsimp simp: sf_ops split: if_splits; simp add: sf_inv_def)
qed

lemma sf_call_step:
  assumes "sf_inv s" and "sf_step a s = Some s'" and "a \<noteq> SfGetter" and "a \<noteq> SfSetter"
  shows "sf_inv s'"
proof -
  have "get_ok (sf_get s') s'"
    using assms get_ok_cong [of "sf_get s" s s'] by (cases a; clarsimp simp: sf_ops split: if_splits; simp add: sf_inv_def before_lock_def)
  with assms show ?thesis 
    by (cases a; clarsimp simp: sf_ops split: if_splits get_pc.splits; simp add: sf_inv_def; elim conjE disjE; simp)
qed

lemma sf_inv_step: "sf_inv s \<Longrightarrow> sf_step a s = Some s' \<Longrightarrow> sf_inv s'"
  using sf_getter_step sf_setter_step sf_call_step by (cases "a = SfGetter"; cases "a = SfSetter") blast+

interpretation sf: inv_system Promise_construct sf_step sf_inv
  by unfold_locales (rule sf_start, erule (1) sf_inv_step)

subsection \<open>Properties\<close>

text \<open>Neither thread can move: Get and SetValue or SetException are done, or were not called, or block for ever.\<close>

definition sf_stuck :: "('a, 'e) std_state \<Rightarrow> bool" where
  "sf_stuck s = (sf_step SfGetter s = None \<and> sf_step SfSetter s = None)"


text \<open>
  \<open>emplace\<close> runs before the mutex is taken: a schedule on which the consumer evaluates its predicate inside it,
  an unsynchronised read of the variant.
\<close>

theorem std_future_data_race:
  "\<exists>as. sf_race (run sf_step as (Promise_construct :: (nat, nat) std_state))"
  by (rule exI [of _ "[SfMakeFuture, SfGet, SfGetter, SfSetValue 7, SfSetter, SfGetter]"]) code_simp


end
