(* ===== verification/CondVar.thy ===== *)
theory CondVar
  imports Prelude
begin

section \<open>CondVar\<close>

text \<open>
  \<open>cond/condvar/condvar.hpp\<close>: a waiter takes a ticket from \<open>t_\<close>, unlocks the mutex and waits on the
  futex slot \<open>atomics_[ticket % 100]\<close> while it is 0; a notifier takes the next head from \<open>h_\<close>, sets
  that slot to 1 and wakes the thread blocked on it; a waiter that has relocked the mutex clears its slot.
  The mutex is the one of \<open>cond/condvar/mutex.hpp\<close> (theory FutexMutex), here its owner.
\<close>

definition kAtomicsSize :: nat where "kAtomicsSize = 100"

datatype cv_pc =
    CvIdle
  | CvUnlock u32                 \<comment> \<open>in Wait with ticket \<open>tail\<close>: about to call \<open>m.unlock\<close>\<close>
  | CvFutex u32                  \<comment> \<open>about to compare the slot with 0\<close>
  | CvBlocked u32
  | CvLock u32                   \<comment> \<open>about to call \<open>m.lock\<close>\<close>
  | CvReset u32
  | CvLoadH bool bool            \<comment> \<open>in NotifyOne, or NotifyAll (True), before its loop (False) or in it (True)\<close>
  | CvLoadT bool bool u32        \<comment> \<open>with the value of \<open>h_\<close>\<close>
  | CvFetch bool
  | CvStore bool u32             \<comment> \<open>with \<open>head\<close>\<close>
  | CvWake bool u32

record cv_state =
  atomics :: "nat \<Rightarrow> u32"
  cv_h :: u32
  cv_t :: u32
  cv_owner :: "tid option"       \<comment> \<open>who holds the mutex\<close>
  cv_pc :: "tid \<Rightarrow> cv_pc"
  cv_heads :: nat                \<comment> \<open>ghost: heads taken\<close>
  cv_tickets :: nat              \<comment> \<open>ghost: tickets taken\<close>

definition cv_slot :: "u32 \<Rightarrow> nat" where
  "cv_slot i = unat i mod kAtomicsSize"

definition CondVar_construct :: cv_state where
  "CondVar_construct = \<lparr>atomics = (\<lambda>_. 0), cv_h = 0, cv_t = 0, cv_owner = None, cv_pc = (\<lambda>_. CvIdle),
     cv_heads = 0, cv_tickets = 0\<rparr>"

definition cv_go :: "tid \<Rightarrow> cv_pc \<Rightarrow> cv_state \<Rightarrow> cv_state" where
  "cv_go t p s = s\<lparr>cv_pc := (cv_pc s)(t := p)\<rparr>"

subsection \<open>Wait\<close>

definition Wait_ticket :: "tid \<Rightarrow> cv_state \<Rightarrow> cv_state" where
  "Wait_ticket t s = (let tail = cv_t s
     in cv_go t (CvUnlock tail) (s\<lparr>cv_t := tail + 1, cv_tickets := Suc (cv_tickets s)\<rparr>))"

definition Wait_unlock :: "tid \<Rightarrow> u32 \<Rightarrow> cv_state \<Rightarrow> cv_state" where
  "Wait_unlock t tail s = cv_go t (CvFutex tail) (s\<lparr>cv_owner := None\<rparr>)"

text \<open>\<open>futex::Wait(cell, 0)\<close> returns when the cell is not 0, and blocks otherwise.\<close>

definition Wait_futex :: "tid \<Rightarrow> u32 \<Rightarrow> cv_state \<Rightarrow> cv_state" where
  "Wait_futex t tail s = cv_go t (if atomics s (cv_slot tail) = 0 then CvBlocked tail else CvLock tail) s"

definition Wait_lock :: "tid \<Rightarrow> u32 \<Rightarrow> cv_state \<Rightarrow> cv_state option" where
  "Wait_lock t tail s = (if cv_owner s = None then Some (cv_go t (CvReset tail) (s\<lparr>cv_owner := Some t\<rparr>)) else None)"

definition Wait_reset :: "tid \<Rightarrow> u32 \<Rightarrow> cv_state \<Rightarrow> cv_state" where
  "Wait_reset t tail s = cv_go t CvIdle (s\<lparr>atomics := (atomics s)(cv_slot tail := 0)\<rparr>)"

subsection \<open>NotifyOne and NotifyAll\<close>

text \<open>
  Both return at once when \<open>h_ >= t_\<close>; NotifyAll then repeats the test as the condition of its loop,
  NotifyOne does its body once.
\<close>

definition Notify_loadh :: "tid \<Rightarrow> bool \<Rightarrow> bool \<Rightarrow> cv_state \<Rightarrow> cv_state" where
  "Notify_loadh t is_all in_loop s = cv_go t (CvLoadT is_all in_loop (cv_h s)) s"

definition Notify_loadt :: "tid \<Rightarrow> bool \<Rightarrow> bool \<Rightarrow> u32 \<Rightarrow> cv_state \<Rightarrow> cv_state" where
  "Notify_loadt t is_all in_loop h s =
     cv_go t (if h \<ge> cv_t s then CvIdle else if is_all \<and> \<not> in_loop then CvLoadH True True else CvFetch is_all) s"

definition Notify_fetch :: "tid \<Rightarrow> bool \<Rightarrow> cv_state \<Rightarrow> cv_state" where
  "Notify_fetch t is_all s = (let head = cv_h s
     in cv_go t (CvStore is_all head) (s\<lparr>cv_h := head + 1, cv_heads := Suc (cv_heads s)\<rparr>))"

definition Notify_store :: "tid \<Rightarrow> bool \<Rightarrow> u32 \<Rightarrow> cv_state \<Rightarrow> cv_state" where
  "Notify_store t is_all head s = cv_go t (CvWake is_all head) (s\<lparr>atomics := (atomics s)(cv_slot head := 1)\<rparr>)"

text \<open>A woken thread compares its cell again. WakeOne wakes one of those blocked on the cell, \<open>w\<close> if it is one.\<close>

definition wake_thread :: "nat \<Rightarrow> cv_pc \<Rightarrow> cv_pc" where
  "wake_thread slot p = (case p of CvBlocked tail \<Rightarrow> (if cv_slot tail = slot then CvFutex tail else p) | _ \<Rightarrow> p)"

definition blocked_on :: "nat \<Rightarrow> cv_pc \<Rightarrow> bool" where
  "blocked_on slot p = (case p of CvBlocked tail \<Rightarrow> cv_slot tail = slot | _ \<Rightarrow> False)"

definition Notify_WakeOne :: "nat \<Rightarrow> tid \<Rightarrow> tid \<Rightarrow> u32 \<Rightarrow> cv_state \<Rightarrow> cv_state option" where
  "Notify_WakeOne n t w head s =
     (if blocked_on (cv_slot head) (cv_pc s w)
      then Some (cv_go t CvIdle (cv_go w (wake_thread (cv_slot head) (cv_pc s w)) s))
      else if list_all (\<lambda>u. \<not> blocked_on (cv_slot head) (cv_pc s u)) [0..<n] then Some (cv_go t CvIdle s) else None)"

definition Notify_WakeAll :: "tid \<Rightarrow> u32 \<Rightarrow> cv_state \<Rightarrow> cv_state" where
  "Notify_WakeAll t head s = cv_go t (CvLoadH True True) (s\<lparr>cv_pc := (\<lambda>u. wake_thread (cv_slot head) (cv_pc s u))\<rparr>)"

subsection \<open>The client\<close>

datatype cv_act =
    CvMutexLock tid | CvMutexUnlock tid
  | CvWait tid | CvNotifyOne tid | CvNotifyAll tid
  | CvThread tid tid              \<comment> \<open>the thread's next step; whom a WakeOne wakes\<close>

fun cv_thread :: "nat \<Rightarrow> tid \<Rightarrow> tid \<Rightarrow> cv_pc \<Rightarrow> cv_state \<Rightarrow> cv_state option" where
  "cv_thread n t w CvIdle s = None"
| "cv_thread n t w (CvUnlock tail) s = Some (Wait_unlock t tail s)"
| "cv_thread n t w (CvFutex tail) s = Some (Wait_futex t tail s)"
| "cv_thread n t w (CvBlocked tail) s = None"
| "cv_thread n t w (CvLock tail) s = Wait_lock t tail s"
| "cv_thread n t w (CvReset tail) s = Some (Wait_reset t tail s)"
| "cv_thread n t w (CvLoadH a l) s = Some (Notify_loadh t a l s)"
| "cv_thread n t w (CvLoadT a l h) s = Some (Notify_loadt t a l h s)"
| "cv_thread n t w (CvFetch a) s = Some (Notify_fetch t a s)"
| "cv_thread n t w (CvStore a head) s = Some (Notify_store t a head s)"
| "cv_thread n t w (CvWake a head) s = (if a then Some (Notify_WakeAll t head s) else Notify_WakeOne n t w head s)"

fun cv_step :: "nat \<Rightarrow> cv_act \<Rightarrow> cv_state \<Rightarrow> cv_state option" where
  "cv_step n (CvMutexLock t) s =
     (if t < n \<and> cv_pc s t = CvIdle \<and> cv_owner s = None then Some (s\<lparr>cv_owner := Some t\<rparr>) else None)"
| "cv_step n (CvMutexUnlock t) s =
     (if t < n \<and> cv_pc s t = CvIdle \<and> cv_owner s = Some t then Some (s\<lparr>cv_owner := None\<rparr>) else None)"
| "cv_step n (CvWait t) s =
     (if t < n \<and> cv_pc s t = CvIdle \<and> cv_owner s = Some t then Some (Wait_ticket t s) else None)"
| "cv_step n (CvNotifyOne t) s = (if t < n \<and> cv_pc s t = CvIdle then Some (cv_go t (CvLoadH False False) s) else None)"
| "cv_step n (CvNotifyAll t) s = (if t < n \<and> cv_pc s t = CvIdle then Some (cv_go t (CvLoadH True False) s) else None)"
| "cv_step n (CvThread t w) s = (if t < n \<and> w < n then cv_thread n t w (cv_pc s t) s else None)"

lemmas cv_ops = cv_go_def Wait_ticket_def Wait_unlock_def Wait_futex_def Wait_lock_def Wait_reset_def
  Notify_loadh_def Notify_loadt_def Notify_fetch_def Notify_store_def Notify_WakeOne_def Notify_WakeAll_def

subsection \<open>The invariant\<close>

text \<open>
  While at most 100 tickets have been taken, slots are not shared; while fewer than 2^32 heads
  have been taken, \<open>h_\<close> has not wrapped.
\<close>

fun cv_ticket :: "cv_pc \<Rightarrow> u32 option" where
  "cv_ticket (CvUnlock i) = Some i" | "cv_ticket (CvFutex i) = Some i" | "cv_ticket (CvBlocked i) = Some i"
| "cv_ticket (CvLock i) = Some i" | "cv_ticket (CvReset i) = Some i" | "cv_ticket _ = None"

fun cv_storing :: "nat \<Rightarrow> cv_pc \<Rightarrow> bool" where
  "cv_storing i (CvStore a head) = (cv_slot head = i)" | "cv_storing i _ = False"

fun cv_waking :: "nat \<Rightarrow> cv_pc \<Rightarrow> bool" where
  "cv_waking i (CvWake a head) = (cv_slot head = i)" | "cv_waking i _ = False"

definition cv_pending :: "nat \<Rightarrow> cv_state \<Rightarrow> bool" where
  "cv_pending i s = (cv_tickets s \<le> i \<or> (\<exists>t. cv_ticket (cv_pc s t) = Some (of_nat i)))"

definition cv_good :: "nat \<Rightarrow> cv_state \<Rightarrow> bool" where
  "cv_good n s = (cv_t s = of_nat (cv_tickets s) \<and> cv_h s = of_nat (cv_heads s) \<and>
     (\<forall>t i. cv_ticket (cv_pc s t) = Some i \<longrightarrow> unat i < cv_tickets s \<and> t < n) \<and>
     (\<forall>t u i. cv_ticket (cv_pc s t) = Some i \<and> cv_ticket (cv_pc s u) = Some i \<longrightarrow> t = u) \<and>
     (\<forall>i<kAtomicsSize. i < cv_heads s \<and> cv_pending i s \<longrightarrow> atomics s i = 1 \<or> (\<exists>u. cv_storing i (cv_pc s u))) \<and>
     (\<forall>t i. cv_pc s t = CvBlocked i \<longrightarrow> atomics s (cv_slot i) = 0 \<or> (\<exists>u. cv_waking (cv_slot i) (cv_pc s u))))"

definition cv_bounded :: "cv_state \<Rightarrow> bool" where
  "cv_bounded s = (cv_tickets s \<le> kAtomicsSize \<and> cv_heads s < 2 ^ 32)"

definition cv_inv :: "nat \<Rightarrow> cv_state \<Rightarrow> bool" where
  "cv_inv n s = (cv_bounded s \<longrightarrow> cv_good n s)"

lemma cv_goodI:
  assumes "cv_t s = of_nat (cv_tickets s)" and "cv_h s = of_nat (cv_heads s)"
    and "\<And>t i. cv_ticket (cv_pc s t) = Some i \<Longrightarrow> unat i < cv_tickets s \<and> t < n"
    and "\<And>t u i. cv_ticket (cv_pc s t) = Some i \<Longrightarrow> cv_ticket (cv_pc s u) = Some i \<Longrightarrow> t = u"
    and "\<And>i. i < kAtomicsSize \<Longrightarrow> i < cv_heads s \<Longrightarrow> cv_pending i s \<Longrightarrow> atomics s i = 1 \<or> (\<exists>u. cv_storing i (cv_pc s u))"
    and "\<And>t i. cv_pc s t = CvBlocked i \<Longrightarrow> atomics s (cv_slot i) = 0 \<or> (\<exists>u. cv_waking (cv_slot i) (cv_pc s u))"
  shows "cv_good n s"
  using assms unfolding cv_good_def by blast

lemma cv_goodD:
  assumes "cv_good n s"
  shows "cv_t s = of_nat (cv_tickets s)" and "cv_h s = of_nat (cv_heads s)"
    and "\<And>t i. cv_ticket (cv_pc s t) = Some i \<Longrightarrow> unat i < cv_tickets s \<and> t < n"
    and "\<And>t u i. cv_ticket (cv_pc s t) = Some i \<Longrightarrow> cv_ticket (cv_pc s u) = Some i \<Longrightarrow> t = u"
    and "\<And>i. i < kAtomicsSize \<Longrightarrow> i < cv_heads s \<Longrightarrow> cv_pending i s \<Longrightarrow> atomics s i = 1 \<or> (\<exists>u. cv_storing i (cv_pc s u))"
    and "\<And>t i. cv_pc s t = CvBlocked i \<Longrightarrow> atomics s (cv_slot i) = 0 \<or> (\<exists>u. cv_waking (cv_slot i) (cv_pc s u))"
  using assms unfolding cv_good_def by blast+

lemma cv_good_owner: "cv_good n (s\<lparr>cv_owner := x\<rparr>) = cv_good n s"
  by (cases s) (simp only: cv_good_def cv_pending_def cv_state.update_convs cv_state.select_convs)

text \<open>A step of one thread \<open>t\<close> that keeps its ticket, or drops or takes none, and touches no slot or counter.\<close>

lemma cv_good_move:
  assumes "cv_good n s" and "t < n" and "cv_ticket p = cv_ticket (cv_pc s t)"
    and "\<And>i. cv_storing i (cv_pc s t) \<Longrightarrow> False" and "\<And>i. cv_waking i (cv_pc s t) \<Longrightarrow> False"
    and "\<And>i. p = CvBlocked i \<Longrightarrow> atomics s (cv_slot i) = 0"
  shows "cv_good n (cv_go t p s)" and "cv_good n (cv_go t p (s\<lparr>cv_owner := x\<rparr>))"
proof -
  have tk: "cv_ticket (((cv_pc s)(t := p)) u) = cv_ticket (cv_pc s u)" for u using assms(3) by simp
  have ex: "\<exists>u. P (((cv_pc s)(t := p)) u)" if "\<exists>u. P (cv_pc s u)" and "\<not> P (cv_pc s t)" for P
    using that by (metis fun_upd_apply)
  note D = cv_goodD [OF assms(1)]
  show g: "cv_good n (cv_go t p s)"
  proof (rule cv_goodI, goal_cases)
    case 1 show ?case using D(1) by (simp add: cv_go_def)
  next
    case 2 show ?case using D(2) by (simp add: cv_go_def)
  next
    case (3 u i) then show ?case using D(3) tk by (simp add: cv_go_def del: fun_upd_apply)
  next
    case (4 u v i) then show ?case using D(4) tk by (simp add: cv_go_def del: fun_upd_apply)
  next
    case (5 i)
    then have "cv_pending i s" using tk by (simp add: cv_pending_def cv_go_def del: fun_upd_apply)
    with 5 D(5) [of i] ex [of "cv_storing i"] assms(4) show ?case by (simp add: cv_go_def del: fun_upd_apply) blast
  next
    case (6 u i)
    then show ?case
    proof (cases "u = t")
      case True
      with 6 assms(6) show ?thesis by (simp add: cv_go_def)
    next
      case False
      with 6 have "cv_pc s u = CvBlocked i" by (simp add: cv_go_def)
      with D(6) [of u i] ex [of "cv_waking (cv_slot i)"] assms(5)
      show ?thesis by (simp add: cv_go_def del: fun_upd_apply) blast
    qed
  qed
  show "cv_good n (cv_go t p (s\<lparr>cv_owner := x\<rparr>))"
    using g cv_good_owner [of n x "cv_go t p s"] by (cases s) (simp add: cv_go_def)
qed

lemma cv_slot_small: "unat i < cv_tickets s \<Longrightarrow> cv_bounded s \<Longrightarrow> cv_slot i = unat i"
  by (simp add: cv_slot_def cv_bounded_def)

lemma cv_slot_inj:
  assumes "cv_good n s" and "cv_bounded s" and t: "cv_ticket (cv_pc s t) = Some i" and u: "cv_ticket (cv_pc s u) = Some j"
    and "cv_slot i = cv_slot j"
  shows "t = u \<and> i = j"
proof -
  have "unat i < cv_tickets s" "unat j < cv_tickets s" using cv_goodD(3) [OF assms(1)] t u by blast+
  with assms(2,5) have "unat i = unat j" by (simp add: cv_slot_small)
  then have ij: "i = j" by (rule unsigned_word_eqI)
  with cv_goodD(4) [OF assms(1) t] u show ?thesis by simp
qed

lemma cv_slot_of_nat: "i < kAtomicsSize \<Longrightarrow> cv_slot (of_nat i) = i"
  by (simp add: cv_slot_def unat_of_nat_32 kAtomicsSize_def)

lemma ex_upd_pc: "\<exists>u. P (f u) \<Longrightarrow> \<not> P (f t) \<Longrightarrow> \<exists>u. P ((f(t := p)) u)"
  by (metis fun_upd_apply)

lemma cv_good_ticket:
  assumes "cv_good n s" and "t < n" and "cv_pc s t = CvIdle" and b: "cv_bounded (Wait_ticket t s)"
  shows "cv_good n (Wait_ticket t s)"
proof -
  note D = cv_goodD [OF assms(1)]
  let ?k = "cv_tickets s"
  have k: "?k < 100" using b by (simp add: cv_bounded_def kAtomicsSize_def cv_ops Let_def)
  have un: "unat (of_nat ?k :: u32) = ?k" using k by (simp add: unat_of_nat_32)
  have f: "cv_pc (Wait_ticket t s) = (cv_pc s)(t := CvUnlock (of_nat ?k))" "cv_tickets (Wait_ticket t s) = Suc ?k"
    "atomics (Wait_ticket t s) = atomics s" "cv_heads (Wait_ticket t s) = cv_heads s" "cv_h (Wait_ticket t s) = cv_h s"
    "cv_t (Wait_ticket t s) = cv_t s + 1"
    by (simp_all add: cv_ops D(1) Let_def)
  show ?thesis
  proof (rule cv_goodI, goal_cases)
    case 1 show ?case using D(1) by (simp add: f)
  next
    case 2 show ?case using D(2) by (simp add: f)
  next
    case (3 u i) then show ?case using D(3) [of u i] assms(2) un by (auto simp: f split: if_splits)
  next
    case (4 u v i)
    have "cv_ticket (cv_pc s w) \<noteq> Some (of_nat ?k)" for w using D(3) [of w] un by fastforce
    with 4 D(4) [of u i v] show ?case by (auto simp: f split: if_splits)
  next
    case (5 i)
    have "\<exists>w. cv_ticket (cv_pc s w) = Some (of_nat i)" if "i < ?k"
    proof -
      from 5(3) that obtain w where w: "cv_ticket (((cv_pc s)(t := CvUnlock (of_nat ?k))) w) = Some (of_nat i)"
        unfolding cv_pending_def f by auto
      have "(of_nat i :: u32) \<noteq> of_nat ?k" using that k by (simp add: of_nat_u32_inj)
      with w show ?thesis by (auto split: if_splits)
    qed
    then have "cv_pending i s" unfolding cv_pending_def using linorder_not_le by blast
    with D(5) [of i] 5 show ?case using ex_upd_pc [of "cv_storing i" "cv_pc s" t] assms(3)
      unfolding f by (metis cv_storing.simps(2))
  next
    case (6 u i)
    then have "cv_pc s u = CvBlocked i" by (auto simp: f split: if_splits)
    with D(6) [of u i] show ?case using ex_upd_pc [of "cv_waking (cv_slot i)" "cv_pc s" t] assms(3)
      unfolding f by (metis cv_waking.simps(2))
  qed
qed

lemma cv_good_reset:
  assumes "cv_good n s" and "t < n" and p: "cv_pc s t = CvReset tail" and b: "cv_bounded s"
  shows "cv_good n (Wait_reset t tail s)"
proof -
  note D = cv_goodD [OF assms(1)]
  have sl: "cv_slot tail = unat tail" using D(3) [of t tail] cv_slot_small [OF _ b] p by simp
  have f: "cv_pc (Wait_reset t tail s) = (cv_pc s)(t := CvIdle)" "cv_tickets (Wait_reset t tail s) = cv_tickets s"
    "atomics (Wait_reset t tail s) = (atomics s)(unat tail := 0)" "cv_heads (Wait_reset t tail s) = cv_heads s"
    "cv_h (Wait_reset t tail s) = cv_h s" "cv_t (Wait_reset t tail s) = cv_t s"
    by (simp_all add: cv_ops sl)
  have tk: "cv_ticket (((cv_pc s)(t := CvIdle)) u) = Some i \<Longrightarrow> cv_ticket (cv_pc s u) = Some i \<and> u \<noteq> t" for u i
    by (auto split: if_splits)
  show ?thesis
  proof (rule cv_goodI, goal_cases)
    case 1 show ?case using D(1) by (simp add: f)
  next
    case 2 show ?case using D(2) by (simp add: f)
  next
    case (3 u i) then show ?case using D(3) tk unfolding f by blast
  next
    case (4 u v i) then show ?case using D(4) tk unfolding f by blast
  next
    case (5 i)
    have i: "i \<noteq> unat tail"
    proof
      assume i: "i = unat tail"
      then have "i < cv_tickets s" using D(3) [of t tail] p by simp
      with 5(3) obtain u where u: "cv_ticket (((cv_pc s)(t := CvIdle)) u) = Some (of_nat i)"
        unfolding cv_pending_def f by auto
      then show False using tk [OF u] D(4) [of u tail t] p i by simp
    qed
    from 5(3) have "cv_pending i s" using tk unfolding cv_pending_def f by blast
    with i D(5) [of i] 5 show ?case using ex_upd_pc [of "cv_storing i" "cv_pc s" t] p
      unfolding f by (metis cv_storing.simps(7) fun_upd_apply)
  next
    case (6 u i)
    then have u: "cv_pc s u = CvBlocked i" by (auto simp: f split: if_splits)
    with D(6) [of u i] show ?case using ex_upd_pc [of "cv_waking (cv_slot i)" "cv_pc s" t] p
      unfolding f by (metis cv_waking.simps(7) fun_upd_apply)
  qed
qed

lemma cv_good_fetch:
  assumes "cv_good n s" and "t < n" and p: "cv_pc s t = CvFetch a" and b: "cv_bounded s"
  shows "cv_good n (Notify_fetch t a s)"
proof -
  note D = cv_goodD [OF assms(1)]
  let ?h = "of_nat (cv_heads s) :: u32" and ?s = "Notify_fetch t a s"
  have f: "cv_pc ?s = (cv_pc s)(t := CvStore a ?h)" "cv_tickets ?s = cv_tickets s"
    "atomics ?s = atomics s" "cv_heads ?s = Suc (cv_heads s)" "cv_h ?s = cv_h s + 1" "cv_t ?s = cv_t s"
    by (simp_all add: cv_ops D(2) Let_def)
  have tk: "cv_ticket (((cv_pc s)(t := CvStore a ?h)) u) = Some i \<Longrightarrow> cv_ticket (cv_pc s u) = Some i" for u i
    by (auto split: if_splits)
  show ?thesis
  proof (rule cv_goodI, goal_cases)
    case 1 show ?case using D(1) by (simp add: f)
  next
    case 2 show ?case using D(2) by (simp add: f)
  next
    case (3 u i) then show ?case using D(3) tk unfolding f by blast
  next
    case (4 u v i) then show ?case using D(4) tk unfolding f by blast
  next
    case (5 i)
    show ?case
    proof (cases "i = cv_heads s")
      case True
      with 5(1) have "cv_storing i (((cv_pc s)(t := CvStore a ?h)) t)" by (simp add: cv_slot_of_nat)
      then show ?thesis unfolding f by blast
    next
      case False
      from 5(3) have "cv_pending i s" using tk unfolding cv_pending_def f by blast
      with False D(5) [of i] 5 show ?thesis using ex_upd_pc [of "cv_storing i" "cv_pc s" t] p
        unfolding f by (metis cv_storing.simps(10) less_SucE)
    qed
  next
    case (6 u i)
    then have u: "cv_pc s u = CvBlocked i" by (auto simp: f split: if_splits)
    with D(6) [of u i] show ?case using ex_upd_pc [of "cv_waking (cv_slot i)" "cv_pc s" t] p
      unfolding f by (metis cv_waking.simps(10))
  qed
qed

lemma cv_good_store:
  assumes "cv_good n s" and "t < n" and p: "cv_pc s t = CvStore a head"
  shows "cv_good n (Notify_store t a head s)"
proof -
  note D = cv_goodD [OF assms(1)]
  let ?s = "Notify_store t a head s"
  have f: "cv_pc ?s = (cv_pc s)(t := CvWake a head)" "cv_tickets ?s = cv_tickets s"
    "atomics ?s = (atomics s)(cv_slot head := 1)" "cv_heads ?s = cv_heads s" "cv_h ?s = cv_h s" "cv_t ?s = cv_t s"
    by (simp_all add: cv_ops)
  have tk: "cv_ticket (((cv_pc s)(t := CvWake a head)) u) = Some i \<Longrightarrow> cv_ticket (cv_pc s u) = Some i" for u i
    by (auto split: if_splits)
  show ?thesis
  proof (rule cv_goodI, goal_cases)
    case 1 show ?case using D(1) by (simp add: f)
  next
    case 2 show ?case using D(2) by (simp add: f)
  next
    case (3 u i) then show ?case using D(3) tk unfolding f by blast
  next
    case (4 u v i) then show ?case using D(4) tk unfolding f by blast
  next
    case (5 i)
    show ?case
    proof (cases "i = cv_slot head")
      case False
      from 5(3) have "cv_pending i s" using tk unfolding cv_pending_def f by blast
      with False D(5) [of i] 5 show ?thesis using ex_upd_pc [of "cv_storing i" "cv_pc s" t] p
        unfolding f by (metis cv_storing.simps(1) fun_upd_other)
    qed (simp add: f)
  next
    case (6 u i)
    then have u: "cv_pc s u = CvBlocked i" by (auto simp: f split: if_splits)
    show ?case
    proof (cases "cv_slot i = cv_slot head")
      case True
      then have "cv_waking (cv_slot i) (((cv_pc s)(t := CvWake a head)) t)" by simp
      then show ?thesis unfolding f by blast
    next
      case False
      with u D(6) [of u i] show ?thesis using ex_upd_pc [of "cv_waking (cv_slot i)" "cv_pc s" t] p
        unfolding f by (metis cv_waking.simps(11) fun_upd_other)
    qed
  qed
qed

text \<open>Waking: afterwards nobody is blocked on the slot.\<close>

lemma cv_good_wake:
  assumes "cv_good n s" and "t < n" and p: "cv_pc s t = CvWake a head" and "cv_ticket q = None" "\<And>i. \<not> cv_storing i q"
    and w: "\<And>u. u \<noteq> t \<Longrightarrow> pc' u = cv_pc s u \<or> pc' u = wake_thread (cv_slot head) (cv_pc s u)"
    and nb: "\<And>u. u \<noteq> t \<Longrightarrow> \<not> blocked_on (cv_slot head) (pc' u)" and q: "pc' t = q"
  shows "cv_good n (s\<lparr>cv_pc := pc'\<rparr>)"
proof -
  note D = cv_goodD [OF assms(1)]
  have wt: "cv_ticket (wake_thread k r) = cv_ticket r" "cv_storing i (wake_thread k r) = cv_storing i r"
    "cv_waking i (wake_thread k r) = cv_waking i r" for k r i
    by (auto simp: wake_thread_def split: cv_pc.splits)
  have tk: "u \<noteq> t \<Longrightarrow> cv_ticket (pc' u) = cv_ticket (cv_pc s u)" "u \<noteq> t \<Longrightarrow> cv_storing i (pc' u) = cv_storing i (cv_pc s u)"
    "u \<noteq> t \<Longrightarrow> cv_waking i (pc' u) = cv_waking i (cv_pc s u)" for u i
    using w [of u] wt by auto
  have tk': "cv_ticket (pc' u) = cv_ticket (cv_pc s u)" for u
    using tk(1) [of u] q p assms(4) by (cases "u = t") auto
  have st: "cv_storing i (pc' u) = cv_storing i (cv_pc s u)" for u i
    using tk(2) [of u] q p assms(5) by (cases "u = t") auto
  show ?thesis
  proof (rule cv_goodI, goal_cases)
    case 1 show ?case using D(1) by simp
  next
    case 2 show ?case using D(2) by simp
  next
    case (3 u i) then show ?case using D(3) tk' by simp
  next
    case (4 u v i) then show ?case using D(4) tk' by simp
  next
    case (5 i) then show ?case using D(5) [of i] tk' st by (simp add: cv_pending_def)
  next
    case (6 u i)
    then have u: "u \<noteq> t" using q assms(4) by auto
    with 6 nb [of u] have ne: "cv_slot i \<noteq> cv_slot head" by (auto simp: blocked_on_def)
    from 6 w [OF u] have "cv_pc s u = CvBlocked i"
      by (auto simp: wake_thread_def split: cv_pc.splits if_splits)
    with D(6) have "atomics s (cv_slot i) = 0 \<or> (\<exists>v. cv_waking (cv_slot i) (cv_pc s v) \<and> v \<noteq> t)"
      using p ne by fastforce
    with tk(3) show ?case by simp blast
  qed
qed

lemma cv_good_wake_one:
  assumes "cv_good n s" and "t < n" and p: "cv_pc s t = CvWake a head" and b: "cv_bounded s"
    and st: "Notify_WakeOne n t w head s = Some s'"
  shows "cv_good n s'"
proof (cases "blocked_on (cv_slot head) (cv_pc s w)")
  case True
  then obtain tail where w: "cv_pc s w = CvBlocked tail" "cv_slot tail = cv_slot head"
    by (auto simp: blocked_on_def split: cv_pc.splits)
  have only: "u \<noteq> w \<Longrightarrow> \<not> blocked_on (cv_slot head) (cv_pc s u)" for u
    using cv_slot_inj [OF assms(1) b, of u _ w tail] w by (auto simp: blocked_on_def split: cv_pc.splits)
  have s': "s' = s\<lparr>cv_pc := ((cv_pc s)(w := wake_thread (cv_slot head) (cv_pc s w)))(t := CvIdle)\<rparr>"
    using st True by (simp add: Notify_WakeOne_def cv_go_def)
  show ?thesis unfolding s'
    by (rule cv_good_wake [OF assms(1,2) p, of CvIdle]) (use only w in \<open>auto simp: wake_thread_def blocked_on_def\<close>)
next
  case False
  with st have a: "list_all (\<lambda>u. \<not> blocked_on (cv_slot head) (cv_pc s u)) [0..<n]"
    and s': "s' = s\<lparr>cv_pc := (cv_pc s)(t := CvIdle)\<rparr>"
    by (auto simp: Notify_WakeOne_def cv_go_def split: if_splits)
  have "\<not> blocked_on (cv_slot head) (cv_pc s u)" for u
  proof
    assume bl: "blocked_on (cv_slot head) (cv_pc s u)"
    then have "u < n" using cv_goodD(3) [OF assms(1), of u] by (cases "cv_pc s u") (auto simp: blocked_on_def)
    with a bl show False by (simp add: list_all_iff)
  qed
  then show ?thesis unfolding s' by (intro cv_good_wake [OF assms(1,2) p, of CvIdle]) auto
qed

lemma cv_good_wake_all:
  assumes "cv_good n s" and "t < n" and p: "cv_pc s t = CvWake a head"
  shows "cv_good n (Notify_WakeAll t head s)"
proof -
  have nb: "\<not> blocked_on k (wake_thread k r)" for k r
    by (auto simp: blocked_on_def wake_thread_def split: cv_pc.splits)
  have e: "Notify_WakeAll t head s = s\<lparr>cv_pc := (\<lambda>u. wake_thread (cv_slot head) (cv_pc s u))(t := CvLoadH True True)\<rparr>"
    by (simp add: Notify_WakeAll_def cv_go_def)
  show ?thesis unfolding e
    by (rule cv_good_wake [OF assms(1,2) p, of "CvLoadH True True"]) (auto simp: nb)
qed

lemma cv_good_thread:
  assumes g: "cv_good n s" and t: "t < n" and b: "cv_bounded s" and st: "cv_thread n t w (cv_pc s t) s = Some s'"
  shows "cv_good n s'"
proof (cases "cv_pc s t")
  case (CvLock tail)
  with st have "s' = cv_go t (CvReset tail) (s\<lparr>cv_owner := Some t\<rparr>)" by (auto simp: Wait_lock_def split: if_splits)
  with CvLock show ?thesis by (auto intro!: cv_good_move [OF g t])
next
  case (CvReset tail)
  with st cv_good_reset [OF g t _ b] show ?thesis by auto
next
  case (CvFetch a)
  with st cv_good_fetch [OF g t _ b] show ?thesis by auto
next
  case (CvStore a head)
  with st cv_good_store [OF g t] show ?thesis by auto
next
  case (CvWake a head)
  with st cv_good_wake_all [OF g t] cv_good_wake_one [OF g t _ b] show ?thesis by (auto split: if_splits)
qed (use st in \<open>auto simp: Wait_unlock_def Wait_futex_def Notify_loadh_def Notify_loadt_def intro!: cv_good_move [OF g t] split: if_splits\<close>)

lemma cv_step_ghosts:
  assumes "cv_step n a s = Some s'"
  shows "cv_tickets s \<le> cv_tickets s' \<and> cv_heads s \<le> cv_heads s'"
proof -
  have th: "cv_tickets s \<le> cv_tickets s' \<and> cv_heads s \<le> cv_heads s'" if "cv_thread n t w (cv_pc s t) s = Some s'" for t w
    using that by (cases "cv_pc s t") (auto simp: cv_ops Let_def split: if_splits)
  show ?thesis using assms th by (cases a) (auto simp: cv_ops Let_def split: if_splits)
qed

lemma cv_inv_step: "cv_inv n s \<Longrightarrow> cv_step n a s = Some s' \<Longrightarrow> cv_inv n s'"
proof -
  assume i: "cv_inv n s" and st: "cv_step n a s = Some s'"
  have "cv_good n s'" if b': "cv_bounded s'"
  proof -
    have b: "cv_bounded s" using cv_step_ghosts [OF st] b' by (auto simp: cv_bounded_def)
    with i have g: "cv_good n s" by (simp add: cv_inv_def)
    show ?thesis
    proof (cases a)
      case (CvMutexLock t) then show ?thesis using st g cv_good_owner by (auto split: if_splits)
    next
      case (CvMutexUnlock t) then show ?thesis using st g cv_good_owner by (auto split: if_splits)
    next
      case (CvWait t) then show ?thesis using st b' cv_good_ticket [OF g] by (auto split: if_splits)
    next
      case (CvNotifyOne t) then show ?thesis using st by (auto intro!: cv_good_move [OF g] split: if_splits)
    next
      case (CvNotifyAll t) then show ?thesis using st by (auto intro!: cv_good_move [OF g] split: if_splits)
    next
      case (CvThread t w) then show ?thesis using st b cv_good_thread [OF g] by (auto split: if_splits)
    qed
  qed
  then show ?thesis by (simp add: cv_inv_def)
qed

interpretation condvar: inv_system CondVar_construct "cv_step n" "cv_inv n" for n
proof unfold_locales
  show "cv_inv n CondVar_construct" by (simp add: cv_inv_def CondVar_construct_def cv_good_def)
qed (rule cv_inv_step)

subsection \<open>Properties\<close>

definition cv_notifying :: "cv_pc \<Rightarrow> bool" where
  "cv_notifying p = (case p of CvStore a head \<Rightarrow> True | CvWake a head \<Rightarrow> True | _ \<Rightarrow> False)"

lemma cv_not_notifying: "\<not> cv_notifying p \<Longrightarrow> \<not> cv_storing i p \<and> \<not> cv_waking i p"
  by (cases p) (auto simp: cv_notifying_def)

lemma cv_idle_not_notifying: "\<not> cv_notifying CvIdle" "\<not> cv_notifying (CvFutex i)"
  by (simp_all add: cv_notifying_def)

text \<open>C27: 
  No wakeup is lost while at most 100 tickets and fewer than 2^32 heads have been taken: on every schedule,
  when no notifier is between taking a head and waking, a waiter whose ticket is among the heads taken is
  not blocked, and its slot is set, so that its futex wait returns.
\<close>

theorem condvar_no_lost_wakeup:
  assumes "s = run (cv_step n) as CondVar_construct"
    and "cv_tickets s \<le> 100" and "cv_heads s < 2 ^ 32"
    and "\<forall>u. \<not> cv_notifying (cv_pc s u)"
    and "cv_ticket (cv_pc s t) = Some tail" and "unat tail < cv_heads s"
  shows "atomics s (cv_slot tail) = 1 \<and> (\<forall>i. cv_pc s t \<noteq> CvBlocked i)"
proof -
  have b: "cv_bounded s" using assms(2,3) by (simp add: cv_bounded_def kAtomicsSize_def)
  have "cv_inv n s" unfolding assms(1) by (rule condvar.inv_run)
  with b have g: "cv_good n s" by (simp add: cv_inv_def)
  note D = cv_goodD [OF g]
  have tl: "unat tail < cv_tickets s" using D(3) assms(5) by blast
  have ns: "\<not> cv_storing i (cv_pc s u)" "\<not> cv_waking i (cv_pc s u)" for i u
    using assms(4) cv_not_notifying by blast+
  have "cv_pending (unat tail) s" using assms(5) by (auto simp: cv_pending_def)
  with D(5) [of "unat tail"] tl assms(2,6) ns have a: "atomics s (cv_slot tail) = 1"
    by (simp add: cv_slot_small [OF tl b] kAtomicsSize_def)
  have "cv_pc s t \<noteq> CvBlocked i" for i
  proof
    assume c: "cv_pc s t = CvBlocked i"
    with assms(5) have "i = tail" by simp
    with D(6) [OF c] ns a show False by simp
  qed
  with a show ?thesis by blast
qed

definition cv_demo :: "cv_act list" where
  "cv_demo = [CvMutexLock 0, CvWait 0, CvThread 0 0, CvThread 0 0, CvNotifyOne 1,
     CvThread 1 0, CvThread 1 0, CvThread 1 0, CvThread 1 0, CvThread 1 0]"

lemma condvar_no_lost_wakeup_witness:
  "let s = run (cv_step 2) cv_demo CondVar_construct in
   cv_tickets s = 1 \<and> cv_heads s = 1 \<and> cv_pc s 0 = CvFutex 0 \<and> atomics s 0 = 1"
proof -
  define s where "s = run (cv_step 2) cv_demo CondVar_construct"
  have p: "cv_tickets s = 1" "cv_heads s = 1" "cv_pc s 0 = CvFutex 0" "cv_pc s 1 = CvIdle"
    unfolding s_def by code_simp+
  have "cv_pc s u = CvIdle" if "u \<noteq> 0" "u \<noteq> 1" for u
    using that by (simp add: s_def cv_demo_def cv_ops CondVar_construct_def kAtomicsSize_def Let_def blocked_on_def wake_thread_def)
  with p have nn: "\<forall>u. \<not> cv_notifying (cv_pc s u)"
    by (metis (mono_tags, lifting) cv_idle_not_notifying)
  from condvar_no_lost_wakeup [OF s_def _ _ nn, of 0 0] p show ?thesis
    by (simp add: cv_slot_def Let_def flip: s_def)
qed

text \<open>Beyond 100 tickets a slot is shared by a waiter that has been woken and a later one.\<close>

definition cv_between :: "nat \<Rightarrow> cv_state" where
  "cv_between k = \<lparr>atomics = (\<lambda>_. 0)(0 := 1), cv_h = of_nat k, cv_t = of_nat k, cv_owner = None,
     cv_pc = (\<lambda>_. CvIdle)(0 := CvLock 0), cv_heads = k, cv_tickets = k\<rparr>"

definition cv_notify_acts :: "cv_act list" where
  "cv_notify_acts = [CvNotifyOne 2, CvThread 2 0, CvThread 2 0, CvThread 2 0, CvThread 2 0, CvThread 2 0]"

definition cv_round :: "cv_act list" where
  "cv_round = [CvMutexLock 1, CvWait 1, CvThread 1 0] @ cv_notify_acts @
     [CvThread 1 0, CvThread 1 0, CvThread 1 0, CvMutexUnlock 1]"

lemma cv_slots: "cv_slot 0 = 0" "cv_slot 100 = 0"
  by (simp_all add: cv_slot_def kAtomicsSize_def)

lemma upt_3: "[0..<3] = [0, 1, 2 :: nat]"
  by code_simp

lemmas cv_eval = cv_notify_acts_def cv_round_def cv_between_def stutter_def cv_ops Let_def cv_slots upt_3 blocked_on_def

lemma cv_first_round:
  "run (cv_step 3) ([CvMutexLock 0, CvWait 0, CvThread 0 0] @ cv_notify_acts @ [CvThread 0 0]) CondVar_construct = cv_between 1"
  by (simp add: cv_eval CondVar_construct_def fun_eq_iff)

lemma cv_next_round:
  assumes "1 \<le> k" and "k < 100"
  shows "run (cv_step 3) cv_round (cv_between k) = cv_between (Suc k)"
proof -
  have s: "cv_slot (of_nat k) = k" using assms by (simp add: cv_slot_of_nat kAtomicsSize_def)
  have l: "\<not> (of_nat k + 1 :: u32) \<le> of_nat k"
    using assms unat_of_nat_32 [of "Suc k"] unat_of_nat_32 [of k] by (simp add: word_le_nat_alt add.commute)
  show ?thesis using assms
    by (simp add: cv_eval s l fun_eq_iff)
qed

lemma cv_rounds: "j \<le> 99 \<Longrightarrow> run (cv_step 3) (concat (replicate j cv_round)) (cv_between 1) = cv_between (Suc j)"
proof (induction j)
  case (Suc j)
  have "concat (replicate (Suc j) cv_round) = concat (replicate j cv_round) @ cv_round"
    by (simp add: replicate_append_same [symmetric])
  with Suc cv_next_round [of "Suc j"] show ?case by (simp add: run_append del: replicate_Suc)
qed simp

text \<open>
  A schedule of three threads that loses a wakeup: the first waiter is notified but does not get
  the mutex while 100 others take tickets; the notification of ticket 100 sets the first slot again, the
  first waiter then clears it, and the waiter with ticket 100 blocks although 101 heads have been taken.
\<close>

theorem condvar_slot_reuse:
  "\<exists>as. let s = run (cv_step 3) as CondVar_construct
    in cv_pc s 1 = CvBlocked 100 \<and> cv_heads s = 101 \<and> cv_owner s = None \<and> cv_pc s 0 = CvIdle \<and> cv_pc s 2 = CvIdle"
proof -
  let ?last = "[CvMutexLock 1, CvWait 1, CvThread 1 0] @ cv_notify_acts @ [CvThread 0 0, CvThread 0 0, CvMutexUnlock 0, CvThread 1 0]"
  define s where "s = run (cv_step 3) ?last (cv_between 100)"
  have l: "\<not> (101 :: u32) \<le> 100" by simp
  have s: "cv_pc s 1 = CvBlocked 100 \<and> cv_heads s = 101 \<and> cv_owner s = None \<and> cv_pc s 0 = CvIdle \<and> cv_pc s 2 = CvIdle"
    by (simp add: s_def cv_eval l)
  let ?first = "[CvMutexLock 0, CvWait 0, CvThread 0 0] @ cv_notify_acts @ [CvThread 0 0]"
  have "run (cv_step 3) (?first @ concat (replicate 99 cv_round) @ ?last) CondVar_construct = s"
    using cv_rounds [of 99]
    by (simp only: run_append [of _ ?first] run_append [of _ "concat (replicate 99 cv_round)"] cv_first_round s_def) simp
  with s show ?thesis unfolding Let_def by blast
qed

end
