(* ===== verification/Mutexed.thy ===== *)
theory Mutexed
  imports Prelude
begin

section \<open>Mutexed and LockGuard\<close>

text \<open>
  \<open>mutex/mutexed/mutexed.hpp\<close>: an object reachable only through an Accessor, which holds a
  \<open>lock_guard\<close> (\<open>mutex/lock_guard/lock_guard.hpp\<close> has the same class) from its construction to its
  destruction. The mutex is the one of the standard library: its owner. A client acquires, reads and writes the
  object through the accessor any number of times, and drops the accessor.
\<close>

datatype 'a mxd_pc =
    MxdNone
  | MxdLocking                    \<comment> \<open>in Acquire, constructing the \<open>lock_guard\<close>\<close>
  | MxdAccess                     \<comment> \<open>has an Accessor\<close>
  | MxdRead 'a                    \<comment> \<open>has read the object through it and will write back\<close>

record 'a mutexed =
  mxd_object :: 'a
  mxd_owner :: "tid option"
  mxd_pc :: "tid \<Rightarrow> 'a mxd_pc"
  mxd_log :: "('a \<Rightarrow> 'a) list"     \<comment> \<open>ghost: the updates written, latest first\<close>

definition Mutexed_construct :: "'a \<Rightarrow> 'a mutexed" where
  "Mutexed_construct x = \<lparr>mxd_object = x, mxd_owner = None, mxd_pc = (\<lambda>_. MxdNone), mxd_log = []\<rparr>"

definition Mutexed_Acquire :: "tid \<Rightarrow> 'a mutexed \<Rightarrow> 'a mutexed" where
  "Mutexed_Acquire t s = s\<lparr>mxd_pc := (mxd_pc s)(t := MxdLocking)\<rparr>"

definition LockGuard_construct :: "tid \<Rightarrow> 'a mutexed \<Rightarrow> 'a mutexed option" where
  "LockGuard_construct t s = (if mxd_owner s = None
     then Some (s\<lparr>mxd_owner := Some t, mxd_pc := (mxd_pc s)(t := MxdAccess)\<rparr>) else None)"

definition LockGuard_destruct :: "tid \<Rightarrow> 'a mutexed \<Rightarrow> 'a mutexed" where
  "LockGuard_destruct t s = s\<lparr>mxd_owner := None, mxd_pc := (mxd_pc s)(t := MxdNone)\<rparr>"

text \<open>\<open>operator*\<close> yields a reference: reading through it and writing through it are separate accesses.\<close>

definition Accessor_read :: "tid \<Rightarrow> 'a mutexed \<Rightarrow> 'a mutexed" where
  "Accessor_read t s = s\<lparr>mxd_pc := (mxd_pc s)(t := MxdRead (mxd_object s))\<rparr>"

definition Accessor_write :: "tid \<Rightarrow> ('a \<Rightarrow> 'a) \<Rightarrow> 'a \<Rightarrow> 'a mutexed \<Rightarrow> 'a mutexed" where
  "Accessor_write t f x s = s\<lparr>mxd_object := f x, mxd_pc := (mxd_pc s)(t := MxdAccess), mxd_log := f # mxd_log s\<rparr>"

datatype 'a mxd_act = MxdAcquire tid | MxdLock tid | MxdLoad tid | MxdStore tid "'a \<Rightarrow> 'a" | MxdDrop tid

fun mxd_step :: "'a mxd_act \<Rightarrow> 'a mutexed \<Rightarrow> 'a mutexed option" where
  "mxd_step (MxdAcquire t) s = (case mxd_pc s t of MxdNone \<Rightarrow> Some (Mutexed_Acquire t s) | _ \<Rightarrow> None)"
| "mxd_step (MxdLock t) s = (case mxd_pc s t of MxdLocking \<Rightarrow> LockGuard_construct t s | _ \<Rightarrow> None)"
| "mxd_step (MxdLoad t) s = (case mxd_pc s t of MxdAccess \<Rightarrow> Some (Accessor_read t s) | _ \<Rightarrow> None)"
| "mxd_step (MxdStore t f) s = (case mxd_pc s t of MxdRead x \<Rightarrow> Some (Accessor_write t f x s) | _ \<Rightarrow> None)"
| "mxd_step (MxdDrop t) s = (case mxd_pc s t of MxdAccess \<Rightarrow> Some (LockGuard_destruct t s) | _ \<Rightarrow> None)"

definition mxd_holds :: "'a mutexed \<Rightarrow> tid \<Rightarrow> bool" where
  "mxd_holds s t = (case mxd_pc s t of MxdAccess \<Rightarrow> True | MxdRead x \<Rightarrow> True | _ \<Rightarrow> False)"

definition mxd_inv :: "'a \<Rightarrow> 'a mutexed \<Rightarrow> bool" where
  "mxd_inv x0 s = ((\<forall>t. mxd_holds s t = (mxd_owner s = Some t)) \<and> (\<forall>t x. mxd_pc s t = MxdRead x \<longrightarrow> x = mxd_object s) \<and>
     mxd_object s = foldr (\<lambda>f. f) (mxd_log s) x0)"

lemma mxd_inv_step:
  assumes i: "mxd_inv x0 s" and st: "mxd_step a s = Some s'"
  shows "mxd_inv x0 s'"
proof -
  have h: "mxd_owner s = Some t" if "mxd_pc s t = MxdAccess \<or> mxd_pc s t = MxdRead x" for t x
    using i that by (auto simp: mxd_inv_def mxd_holds_def)
  have u: "t = v" if "mxd_pc s t = MxdAccess \<or> mxd_pc s t = MxdRead x" "mxd_pc s v = MxdAccess \<or> mxd_pc s v = MxdRead y" for t v x y
    using h [OF that(1)] h [OF that(2)] by simp
  note ops = mxd_inv_def mxd_holds_def Mutexed_Acquire_def LockGuard_construct_def
    LockGuard_destruct_def Accessor_read_def Accessor_write_def
  show ?thesis
  proof (cases a)
    case (MxdStore t f)
    then obtain x where x: "mxd_pc s t = MxdRead x" and s': "s' = Accessor_write t f x s"
      using st by (auto split: mxd_pc.splits)
    have "mxd_pc s v \<noteq> MxdRead y" if "v \<noteq> t" for v y using u [of v y t x] x that by auto
    with i x s' show ?thesis by (auto simp: ops split: mxd_pc.splits)
  next
    case (MxdDrop t)
    then have x: "mxd_pc s t = MxdAccess" and s': "s' = LockGuard_destruct t s"
      using st by (auto split: mxd_pc.splits)
    have "mxd_pc s v \<noteq> MxdRead y" "mxd_pc s v \<noteq> MxdAccess" if "v \<noteq> t" for v y using u [of v y t] x that by auto
    with i x s' show ?thesis by (auto simp: ops split: mxd_pc.splits)
  qed (use i st h in \<open>auto simp: ops split: mxd_pc.splits if_splits\<close>)
qed

interpretation mutexed: mutual_exclusion "Mutexed_construct x0" mxd_step "mxd_inv x0" mxd_holds for x0 :: 'a
proof unfold_locales
  show "mxd_inv x0 (Mutexed_construct x0)" by (simp add: mxd_inv_def Mutexed_construct_def mxd_holds_def)
  show "mxd_inv x0 s \<Longrightarrow> mxd_holds s t \<Longrightarrow> mxd_holds s u \<Longrightarrow> t = u" for s t u by (simp add: mxd_inv_def)
qed (rule mxd_inv_step)

text \<open>
  Updates of the object through accessors are serialised: on every schedule at most one thread has an accessor,
  and the object is what the updates written so far give when applied one after the other.
\<close>

theorem mutexed_serialises:
  "let s = run mxd_step as (Mutexed_construct x0) in
   (\<exists>h. \<forall>t. mxd_holds s t \<longrightarrow> t = h) \<and> mxd_object s = foldr (\<lambda>f. f) (mxd_log s) x0"
  using mutexed.run_holders [of as x0] mutexed.inv_run [of x0 as] unfolding Let_def mxd_inv_def by blast

lemma mutexed_serialises_witness:
  "let s = run mxd_step [MxdAcquire 0, MxdAcquire 1, MxdLock 0, MxdLoad 0, MxdStore 0 Suc, MxdLock 1, MxdDrop 0, MxdLock 1,
       MxdLoad 1, MxdStore 1 (\<lambda>n. n * 2)] (Mutexed_construct (3::nat))
   in mxd_holds s 1 \<and> \<not> mxd_holds s 0 \<and> mxd_object s = 8"
proof -
  let ?as = "[MxdAcquire 0, MxdAcquire 1, MxdLock 0, MxdLoad 0, MxdStore 0 Suc, MxdLock 1, MxdDrop 0, MxdLock 1,
       MxdLoad 1, MxdStore 1 (\<lambda>n. n * 2)] :: nat mxd_act list"
  define s where "s = run mxd_step ?as (Mutexed_construct (3::nat))"
  have l: "mxd_log s = [\<lambda>n. n * 2, Suc]" "mxd_holds s 1"
    by (simp_all add: s_def stutter_def Mutexed_construct_def Mutexed_Acquire_def LockGuard_construct_def LockGuard_destruct_def
        Accessor_read_def Accessor_write_def mxd_holds_def)
  have "\<not> mxd_holds s 0 \<and> mxd_object s = 8"
    using mutexed_serialises [of ?as "3::nat"] l unfolding Let_def s_def [symmetric] by (auto dest: spec)
  with l show ?thesis unfolding Let_def s_def [symmetric] by blast
qed

end
