(* ===== verification/FiberEvent.thy ===== *)
theory FiberEvent
  imports Prelude
begin

section \<open>Event for fibers\<close>

text \<open>
  \<open>fibers/mutex/exe/fibers/sync/event.hpp\<close>. A fiber that calls Wait is suspended, and the worker that ran it
  then executes AwaitSuspend: it parks the fiber in the wait queue, or schedules it when the event has been fired. A scheduled
  fiber is run by any worker of the pool. The spinlock is its owner (theory SpinLocks); the queue is a list (theory MSQueue),
  whose size counter is exact here because every Put is inside the lock and Fire takes after it. The event may be
  destroyed once a Wait has returned and no fiber is in Wait (the storage tests do so); every access to it afterwards is a fault.
\<close>

datatype ev_pc =
    EvRun                       \<comment> \<open>in user code\<close>
  | EvLock                      \<comment> \<open>suspended; its worker is in AwaitSuspend, about to lock\<close>
  | EvCheck
  | EvPut
  | EvUnlockParked
  | EvParked                    \<comment> \<open>in the queue\<close>
  | EvUnlockGo
  | EvSched                     \<comment> \<open>about to be scheduled by its own worker\<close>
  | EvReady                     \<comment> \<open>in the pool's queue\<close>

datatype fire_pc =
    FireNone
  | FireLock | FireStore | FireEmpty
  | FireUnlock bool             \<comment> \<open>with \<open>is_empty\<close>\<close>
  | FireLoop bool
  | FireTaken nat               \<comment> \<open>took a fiber, about to evaluate IsEmpty\<close>
  | FireSched nat bool
  | FireDone

record ev_state =
  wait_q :: "nat list"
  lock_owner :: "nat option option"   \<comment> \<open>the spinlock: held by Fire (\<open>Some None\<close>) or by a fiber's worker\<close>
  is_fired :: bool
  ev_pc :: "nat \<Rightarrow> ev_pc"
  ev_fire :: fire_pc
  ev_alive :: bool
  ev_fault :: bool
  ev_returned :: bool               \<comment> \<open>ghost: a Wait has returned\<close>

definition Event_construct :: ev_state where
  "Event_construct = \<lparr>wait_q = [], lock_owner = None, is_fired = False, ev_pc = (\<lambda>_. EvRun), ev_fire = FireNone,
     ev_alive = True, ev_fault = False, ev_returned = False\<rparr>"

definition ev_use :: "ev_state \<Rightarrow> ev_state" where
  "ev_use s = s\<lparr>ev_fault := ev_fault s \<or> \<not> ev_alive s\<rparr>"

definition ev_go :: "nat \<Rightarrow> ev_pc \<Rightarrow> ev_state \<Rightarrow> ev_state" where
  "ev_go f p s = s\<lparr>ev_pc := (ev_pc s)(f := p)\<rparr>"

subsection \<open>Wait and AwaitSuspend\<close>

definition Event_Wait :: "nat \<Rightarrow> ev_state \<Rightarrow> ev_state" where
  "Event_Wait f s = ev_go f EvLock (ev_use s)"

definition AwaitSuspend_lock :: "nat \<Rightarrow> ev_state \<Rightarrow> ev_state option" where
  "AwaitSuspend_lock f s = (if lock_owner s = None then Some (ev_go f EvCheck ((ev_use s)\<lparr>lock_owner := Some (Some f)\<rparr>)) else None)"

definition AwaitSuspend_check :: "nat \<Rightarrow> ev_state \<Rightarrow> ev_state" where
  "AwaitSuspend_check f s = ev_go f (if \<not> is_fired s then EvPut else EvUnlockGo) (ev_use s)"

definition AwaitSuspend_put :: "nat \<Rightarrow> ev_state \<Rightarrow> ev_state" where
  "AwaitSuspend_put f s = ev_go f EvUnlockParked ((ev_use s)\<lparr>wait_q := wait_q s @ [f]\<rparr>)"

definition AwaitSuspend_unlock :: "nat \<Rightarrow> ev_pc \<Rightarrow> ev_state \<Rightarrow> ev_state" where
  "AwaitSuspend_unlock f next s = ev_go f next ((ev_use s)\<lparr>lock_owner := None\<rparr>)"

definition Fiber_Schedule :: "nat \<Rightarrow> ev_state \<Rightarrow> ev_state" where
  "Fiber_Schedule f s = (if ev_pc s f = EvParked \<or> ev_pc s f = EvSched then ev_go f EvReady s else s\<lparr>ev_fault := True\<rparr>)"

subsection \<open>Fire\<close>

definition Fire_lock :: "ev_state \<Rightarrow> ev_state option" where
  "Fire_lock s = (if lock_owner s = None then Some ((ev_use s)\<lparr>lock_owner := Some None, ev_fire := FireStore\<rparr>) else None)"

definition Fire_store :: "ev_state \<Rightarrow> ev_state" where
  "Fire_store s = (ev_use s)\<lparr>is_fired := True, ev_fire := FireEmpty\<rparr>"

definition Fire_empty :: "ev_state \<Rightarrow> ev_state" where
  "Fire_empty s = (ev_use s)\<lparr>ev_fire := FireUnlock (wait_q s = [])\<rparr>"

definition Fire_unlock :: "bool \<Rightarrow> ev_state \<Rightarrow> ev_state" where
  "Fire_unlock is_empty s = (ev_use s)\<lparr>lock_owner := None, ev_fire := FireLoop is_empty\<rparr>"

text \<open>The head of the loop; \<open>value()\<close> of an empty optional is a fault.\<close>

definition Fire_loop :: "bool \<Rightarrow> ev_state \<Rightarrow> ev_state" where
  "Fire_loop is_empty s = (if is_empty then s\<lparr>ev_fire := FireDone\<rparr> else (case wait_q s of
     [] \<Rightarrow> (ev_use s)\<lparr>ev_fault := True, ev_fire := FireDone\<rparr>
   | f # q \<Rightarrow> (ev_use s)\<lparr>wait_q := q, ev_fire := FireTaken f\<rparr>))"

definition Fire_isempty :: "nat \<Rightarrow> ev_state \<Rightarrow> ev_state" where
  "Fire_isempty f s = (ev_use s)\<lparr>ev_fire := FireSched f (wait_q s = [])\<rparr>"

definition Fire_schedule :: "nat \<Rightarrow> bool \<Rightarrow> ev_state \<Rightarrow> ev_state" where
  "Fire_schedule f is_empty s = (Fiber_Schedule f s)\<lparr>ev_fire := FireLoop is_empty\<rparr>"

datatype ev_act = EvCallWait nat | EvCallFire | EvFiber nat | EvFireStep | EvDestroy

text \<open>The fiber's next step: of its worker in AwaitSuspend, or a worker of the pool resumes it and Wait returns.\<close>

fun ev_fiber :: "nat \<Rightarrow> ev_pc \<Rightarrow> ev_state \<Rightarrow> ev_state option" where
  "ev_fiber f EvRun s = None"
| "ev_fiber f EvLock s = AwaitSuspend_lock f s"
| "ev_fiber f EvCheck s = Some (AwaitSuspend_check f s)"
| "ev_fiber f EvPut s = Some (AwaitSuspend_put f s)"
| "ev_fiber f EvUnlockParked s = Some (AwaitSuspend_unlock f EvParked s)"
| "ev_fiber f EvParked s = None"
| "ev_fiber f EvUnlockGo s = Some (AwaitSuspend_unlock f EvSched s)"
| "ev_fiber f EvSched s = Some (Fiber_Schedule f s)"
| "ev_fiber f EvReady s = Some (ev_go f EvRun (s\<lparr>ev_returned := True\<rparr>))"

fun ev_firestep :: "fire_pc \<Rightarrow> ev_state \<Rightarrow> ev_state option" where
  "ev_firestep FireNone s = None"
| "ev_firestep FireLock s = Fire_lock s"
| "ev_firestep FireStore s = Some (Fire_store s)"
| "ev_firestep FireEmpty s = Some (Fire_empty s)"
| "ev_firestep (FireUnlock b) s = Some (Fire_unlock b s)"
| "ev_firestep (FireLoop b) s = Some (Fire_loop b s)"
| "ev_firestep (FireTaken f) s = Some (Fire_isempty f s)"
| "ev_firestep (FireSched f b) s = Some (Fire_schedule f b s)"
| "ev_firestep FireDone s = None"

fun ev_step :: "nat \<Rightarrow> ev_act \<Rightarrow> ev_state \<Rightarrow> ev_state option" where
  "ev_step n (EvCallWait f) s = (if f < n \<and> ev_alive s \<and> ev_pc s f = EvRun then Some (Event_Wait f s) else None)"
| "ev_step n EvCallFire s = (if ev_alive s \<and> ev_fire s = FireNone then Some (s\<lparr>ev_fire := FireLock\<rparr>) else None)"
| "ev_step n (EvFiber f) s = (if f < n then ev_fiber f (ev_pc s f) s else None)"
| "ev_step n EvFireStep s = ev_firestep (ev_fire s) s"
| "ev_step n EvDestroy s = (if ev_alive s \<and> ev_returned s \<and> list_all (\<lambda>f. ev_pc s f = EvRun) [0..<n]
     then Some (s\<lparr>ev_alive := False\<rparr>) else None)"

lemmas ev_ops = ev_use_def ev_go_def Event_Wait_def AwaitSuspend_lock_def AwaitSuspend_check_def AwaitSuspend_put_def
  AwaitSuspend_unlock_def Fiber_Schedule_def Fire_lock_def Fire_store_def Fire_empty_def Fire_unlock_def
  Fire_loop_def Fire_isempty_def Fire_schedule_def

subsection \<open>The invariant\<close>

fun ev_holding :: "ev_pc \<Rightarrow> bool" where
  "ev_holding EvCheck = True" | "ev_holding EvPut = True" | "ev_holding EvUnlockParked = True"
| "ev_holding EvUnlockGo = True" | "ev_holding _ = False"

definition fire_holding :: "fire_pc \<Rightarrow> bool" where
  "fire_holding p = (case p of FireStore \<Rightarrow> True | FireEmpty \<Rightarrow> True | FireUnlock b \<Rightarrow> True | _ \<Rightarrow> False)"

text \<open>What is in the queue, and the fiber that Fire has taken and not yet scheduled.\<close>

definition fire_fired :: "fire_pc \<Rightarrow> bool" where
  "fire_fired p = (case p of FireNone \<Rightarrow> False | FireLock \<Rightarrow> False | FireStore \<Rightarrow> False | _ \<Rightarrow> True)"

definition fire_unlocked :: "fire_pc \<Rightarrow> bool" where
  "fire_unlocked p = (case p of FireLoop b \<Rightarrow> True | FireTaken f \<Rightarrow> True | FireSched f b \<Rightarrow> True | FireDone \<Rightarrow> True | _ \<Rightarrow> False)"

fun fire_taken :: "fire_pc \<Rightarrow> nat list" where
  "fire_taken (FireTaken f) = [f]" | "fire_taken (FireSched f b) = [f]" | "fire_taken _ = []"

fun fire_empty :: "fire_pc \<Rightarrow> nat list \<Rightarrow> bool" where
  "fire_empty (FireUnlock b) q = (b = (q = []))" | "fire_empty (FireLoop b) q = (b = (q = []))"
| "fire_empty (FireSched f b) q = (b = (q = []))" | "fire_empty FireDone q = (q = [])" | "fire_empty _ q = True"

definition ev_queued :: "ev_pc \<Rightarrow> bool" where
  "ev_queued p = (p = EvParked \<or> p = EvUnlockParked)"

definition ev_inv :: "nat \<Rightarrow> ev_state \<Rightarrow> bool" where
  "ev_inv n s = (\<not> ev_fault s \<and>
     (\<forall>f. lock_owner s = Some (Some f) \<longleftrightarrow> ev_holding (ev_pc s f)) \<and>
     (lock_owner s = Some None \<longleftrightarrow> fire_holding (ev_fire s)) \<and>
     (is_fired s \<longleftrightarrow> fire_fired (ev_fire s)) \<and>
     fire_empty (ev_fire s) (wait_q s) \<and>
     (\<forall>f. f \<in> set (fire_taken (ev_fire s) @ wait_q s) \<longleftrightarrow> ev_queued (ev_pc s f)) \<and>
     distinct (fire_taken (ev_fire s) @ wait_q s) \<and>
     (\<forall>f. ev_pc s f = EvPut \<or> ev_pc s f = EvUnlockParked \<longrightarrow> \<not> is_fired s) \<and>
     (\<forall>f. ev_pc s f = EvUnlockGo \<longrightarrow> is_fired s) \<and>
     (\<forall>f. ev_pc s f = EvReady \<or> ev_pc s f = EvSched \<longrightarrow> fire_unlocked (ev_fire s)) \<and>
     (ev_returned s \<longrightarrow> fire_unlocked (ev_fire s)) \<and>
     (\<not> ev_alive s \<longrightarrow> ev_returned s \<and> (\<forall>f. ev_pc s f = EvRun)) \<and>
     (\<forall>f. ev_pc s f \<noteq> EvRun \<longrightarrow> f < n))"

lemma ev_invI:
  assumes "\<not> ev_fault s"
    and "\<And>f. lock_owner s = Some (Some f) \<longleftrightarrow> ev_holding (ev_pc s f)"
    and "lock_owner s = Some None \<longleftrightarrow> fire_holding (ev_fire s)"
    and "is_fired s \<longleftrightarrow> fire_fired (ev_fire s)"
    and "fire_empty (ev_fire s) (wait_q s)"
    and "\<And>f. f \<in> set (fire_taken (ev_fire s) @ wait_q s) \<longleftrightarrow> ev_queued (ev_pc s f)"
    and "distinct (fire_taken (ev_fire s) @ wait_q s)"
    and "\<And>f. ev_pc s f = EvPut \<or> ev_pc s f = EvUnlockParked \<Longrightarrow> \<not> is_fired s"
    and "\<And>f. ev_pc s f = EvUnlockGo \<Longrightarrow> is_fired s"
    and "\<And>f. ev_pc s f = EvReady \<or> ev_pc s f = EvSched \<Longrightarrow> fire_unlocked (ev_fire s)"
    and "ev_returned s \<Longrightarrow> fire_unlocked (ev_fire s)"
    and "\<And>f. \<not> ev_alive s \<Longrightarrow> ev_returned s \<and> ev_pc s f = EvRun"
    and "\<And>f. ev_pc s f \<noteq> EvRun \<Longrightarrow> f < n"
  shows "ev_inv n s"
  using assms unfolding ev_inv_def by blast

lemma ev_invD:
  assumes "ev_inv n s"
  shows "\<not> ev_fault s"
    and "\<And>f. lock_owner s = Some (Some f) \<longleftrightarrow> ev_holding (ev_pc s f)"
    and "lock_owner s = Some None \<longleftrightarrow> fire_holding (ev_fire s)"
    and "is_fired s \<longleftrightarrow> fire_fired (ev_fire s)"
    and "fire_empty (ev_fire s) (wait_q s)"
    and "\<And>f. f \<in> set (fire_taken (ev_fire s) @ wait_q s) \<longleftrightarrow> ev_queued (ev_pc s f)"
    and "distinct (fire_taken (ev_fire s) @ wait_q s)"
    and "\<And>f. ev_pc s f = EvPut \<or> ev_pc s f = EvUnlockParked \<Longrightarrow> \<not> is_fired s"
    and "\<And>f. ev_pc s f = EvUnlockGo \<Longrightarrow> is_fired s"
    and "\<And>f. ev_pc s f = EvReady \<or> ev_pc s f = EvSched \<Longrightarrow> fire_unlocked (ev_fire s)"
    and "ev_returned s \<Longrightarrow> fire_unlocked (ev_fire s)"
    and "\<And>f. \<not> ev_alive s \<Longrightarrow> ev_returned s \<and> ev_pc s f = EvRun"
    and "\<And>f. ev_pc s f \<noteq> EvRun \<Longrightarrow> f < n"
  using assms unfolding ev_inv_def by blast+

text \<open>Fire is past its unlock exactly when it has fired and does not hold the lock.\<close>

lemma fire_unlocked_iff: "fire_unlocked p \<longleftrightarrow> fire_fired p \<and> \<not> fire_holding p"
  by (cases p) (auto simp: fire_unlocked_def fire_fired_def fire_holding_def)

lemma ev_alive_use:
  assumes "ev_inv n s" and "ev_pc s f \<noteq> EvRun"
  shows "ev_alive s"
  using ev_invD(12) [OF assms(1), of f] assms(2) by blast

lemma ev_alive_fire:
  assumes "ev_inv n s" and "\<not> fire_unlocked (ev_fire s) \<or> fire_taken (ev_fire s) @ wait_q s \<noteq> []"
  shows "ev_alive s"
proof (rule ccontr)
  assume d: "\<not> ev_alive s"
  note D = ev_invD [OF assms(1)]
  from D(12) [OF d] have r: "ev_returned s" "\<And>f. ev_pc s f = EvRun" by blast+
  then have "f \<notin> set (fire_taken (ev_fire s) @ wait_q s)" for f using D(6) by (simp add: ev_queued_def)
  then have "fire_taken (ev_fire s) @ wait_q s = []" by (metis list.set_intros(1) neq_Nil_conv)
  with assms(2) r D(11) show False by blast
qed

lemma ev_fiber_step:
  assumes i: "ev_inv n s" and "f < n" and st: "ev_fiber f (ev_pc s f) s = Some s'"
  shows "ev_inv n s'"
proof -
  note D = ev_invD [OF i]
  note al = ev_alive_use [OF i, of f]
  have lk: "ev_holding (ev_pc s f) \<Longrightarrow> \<not> fire_holding (ev_fire s)" using D(2) [of f] D(3) by auto
  have un: "lock_owner s = Some (Some f) \<Longrightarrow> g \<noteq> f \<Longrightarrow> \<not> ev_holding (ev_pc s g)" for g using D(2) [of g] by auto
  have none: "lock_owner s = None \<Longrightarrow> \<not> ev_holding (ev_pc s g) \<and> \<not> fire_holding (ev_fire s)" for g
    using D(2) [of g] D(3) by auto
  show ?thesis
  proof (cases "ev_pc s f")
    case EvLock
    with st have l: "lock_owner s = None" and s': "s' = ev_go f EvCheck ((ev_use s)\<lparr>lock_owner := Some (Some f)\<rparr>)"
      by (auto simp: AwaitSuspend_lock_def split: if_splits)
    show ?thesis unfolding s'
      by (rule ev_invI) (use D al EvLock none [OF l] \<open>f < n\<close> in \<open>auto simp: ev_ops ev_queued_def split: if_splits\<close>)
  next
    case EvCheck
    with st have s': "s' = ev_go f (if \<not> is_fired s then EvPut else EvUnlockGo) (ev_use s)" by (simp add: AwaitSuspend_check_def)
    show ?thesis unfolding s'
      by (rule ev_invI) (use D al EvCheck \<open>f < n\<close> in \<open>auto simp: ev_ops ev_queued_def split: if_splits\<close>)
  next
    case EvPut
    then have nf: "\<not> is_fired s" using D(8) by blast
    then have e: "fire_taken (ev_fire s) = []" "\<And>q. fire_empty (ev_fire s) q"
      using D(4) by (cases "ev_fire s"; simp add: fire_fired_def)+
    from EvPut st have s': "s' = ev_go f EvUnlockParked ((ev_use s)\<lparr>wait_q := wait_q s @ [f]\<rparr>)"
      by (simp add: AwaitSuspend_put_def)
    have fq: "f \<notin> set (wait_q s)" using D(6) [of f] EvPut by (simp add: ev_queued_def)
    show ?thesis unfolding s'
      by (rule ev_invI) (use D al EvPut \<open>f < n\<close> nf e fq in \<open>auto simp: ev_ops ev_queued_def split: if_splits\<close>)
  next
    case EvUnlockParked
    then have l: "lock_owner s = Some (Some f)" using D(2) [of f] by simp
    from EvUnlockParked st have s': "s' = ev_go f EvParked ((ev_use s)\<lparr>lock_owner := None\<rparr>)"
      by (simp add: AwaitSuspend_unlock_def)
    show ?thesis unfolding s'
      by (rule ev_invI) (use D al EvUnlockParked \<open>f < n\<close> l un [OF l] lk in \<open>auto simp: ev_ops ev_queued_def split: if_splits\<close>)
  next
    case EvUnlockGo
    then have l: "lock_owner s = Some (Some f)" using D(2) [of f] by simp
    from EvUnlockGo st have s': "s' = ev_go f EvSched ((ev_use s)\<lparr>lock_owner := None\<rparr>)"
      by (simp add: AwaitSuspend_unlock_def)
    have fu: "fire_unlocked (ev_fire s)" using D(4) D(9) [of f] lk EvUnlockGo by (simp add: fire_unlocked_iff)
    show ?thesis unfolding s'
      by (rule ev_invI) (use D al EvUnlockGo \<open>f < n\<close> l un [OF l] lk fu in \<open>auto simp: ev_ops ev_queued_def split: if_splits\<close>)
  next
    case EvSched
    with st have s': "s' = ev_go f EvReady s" by (simp add: Fiber_Schedule_def)
    show ?thesis unfolding s'
      by (rule ev_invI) (use D al EvSched \<open>f < n\<close> D(10) [of f] in \<open>auto simp: ev_ops ev_queued_def split: if_splits\<close>)
  next
    case EvReady
    with st have s': "s' = ev_go f EvRun (s\<lparr>ev_returned := True\<rparr>)" by simp
    have fu: "fire_unlocked (ev_fire s)" using D(10) EvReady by blast
    show ?thesis unfolding s'
      by (rule ev_invI) (use D al EvReady \<open>f < n\<close> fu in \<open>auto simp: ev_ops ev_queued_def split: if_splits\<close>)
  qed (use st in auto)
qed

lemma ev_fire_step:
  assumes i: "ev_inv n s" and st: "ev_firestep (ev_fire s) s = Some s'"
  shows "ev_inv n s'"
proof -
  note D = ev_invD [OF i]
  note al = ev_alive_fire [OF i]
  have hold: "fire_holding (ev_fire s) \<Longrightarrow> \<not> ev_holding (ev_pc s g)" for g using D(2) [of g] D(3) by auto
  show ?thesis
  proof (cases "ev_fire s")
    case FireLock
    with st have l: "lock_owner s = None" and s': "s' = (ev_use s)\<lparr>lock_owner := Some None, ev_fire := FireStore\<rparr>"
      by (auto simp: Fire_lock_def split: if_splits)
    show ?thesis unfolding s'
      by (rule ev_invI) (use D al FireLock l in \<open>auto simp: ev_ops fire_holding_def fire_fired_def fire_unlocked_def\<close>)
  next
    case FireStore
    with st have s': "s' = (ev_use s)\<lparr>is_fired := True, ev_fire := FireEmpty\<rparr>" by (simp add: Fire_store_def)
    have h: "\<not> ev_holding (ev_pc s g)" for g using hold FireStore by (simp add: fire_holding_def)
    then have np: "ev_pc s g \<noteq> EvPut" "ev_pc s g \<noteq> EvUnlockParked" for g by (metis ev_holding.simps(2), metis ev_holding.simps(3))
    show ?thesis unfolding s'
      by (rule ev_invI) (use D al FireStore h np in \<open>auto simp: ev_ops fire_holding_def fire_fired_def fire_unlocked_def\<close>)
  next
    case FireEmpty
    with st have s': "s' = (ev_use s)\<lparr>ev_fire := FireUnlock (wait_q s = [])\<rparr>" by (simp add: Fire_empty_def)
    show ?thesis unfolding s'
      by (rule ev_invI) (use D al FireEmpty in \<open>auto simp: ev_ops fire_holding_def fire_fired_def fire_unlocked_def\<close>)
  next
    case (FireUnlock b)
    with st have s': "s' = (ev_use s)\<lparr>lock_owner := None, ev_fire := FireLoop b\<rparr>" by (simp add: Fire_unlock_def)
    have h: "\<not> ev_holding (ev_pc s g)" for g using hold FireUnlock by (simp add: fire_holding_def)
    show ?thesis unfolding s'
      by (rule ev_invI) (use D al FireUnlock h in \<open>auto simp: ev_ops fire_holding_def fire_fired_def fire_unlocked_def\<close>)
  next
    case (FireLoop b)
    show ?thesis
    proof (cases b)
      case True
      with st FireLoop have s': "s' = s\<lparr>ev_fire := FireDone\<rparr>" by (simp add: Fire_loop_def)
      show ?thesis unfolding s'
        by (rule ev_invI) (use D al FireLoop True in \<open>auto simp: ev_ops fire_holding_def fire_fired_def fire_unlocked_def\<close>)
    next
      case False
      with D(5) FireLoop obtain g q where q: "wait_q s = g # q" by (cases "wait_q s") auto
      with st FireLoop False have s': "s' = (ev_use s)\<lparr>wait_q := q, ev_fire := FireTaken g\<rparr>" by (simp add: Fire_loop_def)
      show ?thesis unfolding s'
        by (rule ev_invI) (use D al FireLoop q in \<open>auto simp: ev_ops fire_holding_def fire_fired_def fire_unlocked_def\<close>)
    qed
  next
    case (FireTaken g)
    with st have s': "s' = (ev_use s)\<lparr>ev_fire := FireSched g (wait_q s = [])\<rparr>" by (simp add: Fire_isempty_def)
    show ?thesis unfolding s'
      by (rule ev_invI) (use D al FireTaken in \<open>auto simp: ev_ops fire_holding_def fire_fired_def fire_unlocked_def\<close>)
  next
    case (FireSched g b)
    have "ev_queued (ev_pc s g)" using D(6) [of g] FireSched by simp
    then have p: "ev_pc s g = EvParked"
      using D(8) [of g] D(4) FireSched by (auto simp: ev_queued_def fire_fired_def)
    with st FireSched have s': "s' = ev_go g EvReady s\<lparr>ev_fire := FireLoop b\<rparr>"
      by (simp add: Fire_schedule_def Fiber_Schedule_def)
    have gn: "g \<notin> set (wait_q s)" using D(7) FireSched by simp
    have q: "h \<in> set (wait_q s) \<longleftrightarrow> h \<noteq> g \<and> ev_queued (ev_pc s h)" for h using D(6) [of h] FireSched gn by auto
    show ?thesis unfolding s'
      by (rule ev_invI) (use D al FireSched p gn q in
          \<open>auto simp: ev_ops ev_queued_def fire_holding_def fire_fired_def fire_unlocked_def split: if_splits\<close>)
  qed (use st in auto)
qed

lemma ev_inv_step:
  assumes i: "ev_inv n s" and st: "ev_step n a s = Some s'"
  shows "ev_inv n s'"
proof (cases a)
  case (EvCallWait f)
  then have "f < n" "ev_alive s" "ev_pc s f = EvRun" and s': "s' = ev_go f EvLock (ev_use s)"
    using st by (auto simp: Event_Wait_def split: if_splits)
  then show ?thesis unfolding s'
    by (intro ev_invI) (use ev_invD [OF i] in \<open>auto simp: ev_ops ev_queued_def split: if_splits\<close>)
next
  case EvCallFire
  then have "ev_alive s" "ev_fire s = FireNone" and s': "s' = s\<lparr>ev_fire := FireLock\<rparr>"
    using st by (auto split: if_splits)
  then show ?thesis unfolding s'
    by (intro ev_invI) (use ev_invD [OF i] in \<open>auto simp: fire_holding_def fire_fired_def fire_unlocked_def\<close>)
next
  case (EvFiber f)
  then show ?thesis using st ev_fiber_step [OF i, of f] by (auto split: if_splits)
next
  case EvFireStep
  then show ?thesis using st ev_fire_step [OF i] by simp
next
  case EvDestroy
  then have a: "ev_returned s" "list_all (\<lambda>f. ev_pc s f = EvRun) [0..<n]" and s': "s' = s\<lparr>ev_alive := False\<rparr>"
    using st by (auto split: if_splits)
  have "ev_pc s f = EvRun" for f using a(2) ev_invD(13) [OF i, of f] by (cases "f < n") (auto simp: list_all_iff)
  with a(1) show ?thesis unfolding s' by (intro ev_invI) (use ev_invD [OF i] in auto)
qed

interpretation event: inv_system Event_construct "ev_step n" "ev_inv n" for n
proof unfold_locales
  show "ev_inv n Event_construct"
    by (simp add: ev_inv_def Event_construct_def ev_queued_def fire_holding_def fire_fired_def)
qed (rule ev_inv_step)

subsection \<open>Properties\<close>

definition ev_quiet :: "nat \<Rightarrow> ev_state \<Rightarrow> bool" where
  "ev_quiet n s = (list_all (\<lambda>f. ev_step n (EvFiber f) s = None) [0..<n] \<and> ev_step n EvFireStep s = None)"

lemma ev_quiet_run:
  assumes i: "ev_inv n s" and q: "ev_quiet n s" and fired: "is_fired s"
  shows "ev_pc s f = EvRun"
proof (rule ccontr)
  assume r: "ev_pc s f \<noteq> EvRun"
  note D = ev_invD [OF i]
  have fd: "ev_fire s = FireDone"
    using q fired D(4) by (cases "ev_fire s") (auto simp: ev_quiet_def fire_fired_def)
  have st: "ev_fiber g (ev_pc s g) s = None" if "g < n" for g using q that by (auto simp: ev_quiet_def list_all_iff)
  have "\<not> ev_holding (ev_pc s g)" for g
    using st [of g] D(13) [of g] by (cases "ev_pc s g") auto
  then have "lock_owner s \<noteq> Some x" for x using D(2) D(3) fd by (cases x) (auto simp: fire_holding_def)
  then have l: "lock_owner s = None" by (cases "lock_owner s") auto
  have "ev_pc s f \<noteq> EvParked" using D(5) D(6) [of f] fd by (auto simp: ev_queued_def)
  with r st [of f] D(13) [of f] l show False
    by (cases "ev_pc s f") (auto simp: AwaitSuspend_lock_def)
qed

text \<open>C8: 
  On every schedule of the fibers' workers, the firing thread and the destruction of the event: no fiber is scheduled
  while it is not suspended and no parked fiber twice, Fire never takes from an empty queue, and nothing touches the event
  after it has been destroyed, which is allowed as soon as a Wait has returned and no fiber is in Wait. A Wait returns only
  after the event has fired; once it has, and nothing can move, every fiber is back in user code.
\<close>

theorem fiber_event_correct:
  "let s = run (ev_step n) as Event_construct in
   \<not> ev_fault s \<and> (\<not> ev_returned s \<or> is_fired s) \<and> (\<not> is_fired s \<or> \<not> ev_quiet n s \<or> (\<forall>f. ev_pc s f = EvRun))"
proof -
  define s where "s = run (ev_step n) as Event_construct"
  have i: "ev_inv n s" unfolding s_def by (rule event.inv_run)
  have "ev_returned s \<Longrightarrow> is_fired s" using ev_invD(4,11) [OF i] by (simp add: fire_unlocked_iff)
  with ev_invD(1) [OF i] ev_quiet_run [OF i] show ?thesis unfolding Let_def s_def [symmetric] by blast
qed

lemma fiber_event_correct_witness:
  "let s = run (ev_step 2) [EvCallWait 0, EvFiber 0, EvFiber 0, EvFiber 0, EvFiber 0, EvCallFire, EvFireStep, EvFireStep, EvFireStep,
       EvFireStep, EvFireStep, EvFireStep, EvFireStep, EvFireStep, EvFiber 0, EvDestroy] Event_construct
   in ev_returned s \<and> is_fired s \<and> ev_quiet 2 s \<and> \<not> ev_alive s \<and> \<not> ev_fault s \<and> ev_pc s 0 = EvRun"
proof -
  let ?as = "[EvCallWait 0, EvFiber 0, EvFiber 0, EvFiber 0, EvFiber 0, EvCallFire, EvFireStep, EvFireStep, EvFireStep,
       EvFireStep, EvFireStep, EvFireStep, EvFireStep, EvFireStep, EvFiber 0, EvDestroy]"
  define s where "s = run (ev_step 2) ?as Event_construct"
  have p: "ev_returned s" "ev_quiet 2 s" "\<not> ev_alive s" unfolding s_def by code_simp+
  have "is_fired s \<and> \<not> ev_fault s \<and> ev_pc s 0 = EvRun"
    using fiber_event_correct [of 2 ?as] p unfolding Let_def s_def [symmetric] by blast
  with p show ?thesis unfolding Let_def s_def [symmetric] by blast
qed

end
