(* ===== verification/FiberMutex.thy ===== *)
theory FiberMutex
  imports Prelude
begin

section \<open>Mutex for fibers\<close>

text \<open>
  \<open>fibers/mutex/exe/fibers/sync/mutex.hpp\<close>. Lock and Unlock suspend the calling fiber; the worker that ran it
  executes LockAwaiter or UnlockAwaiter, which resumes the fiber by calling \<open>Run\<close> from inside, parks it, or
  hands the mutex to the fiber at the head of the queue by scheduling it. \<open>mtx_\<close> is a spinlock (its owner), the queue a
  list. \<open>run_depth\<close> counts the nested \<open>Run\<close> calls on the worker's stack.
\<close>

datatype fm_status = StNone | LockedNoWaiter | LockedWithWaiters

datatype fm_pc =
    FmIdle                     \<comment> \<open>user code, without the mutex\<close>
  | FmTry                      \<comment> \<open>suspended in Lock: the first compare-exchange\<close>
  | FmSpin | FmLoad | FmCas | FmPut | FmUnlockParked | FmUnlockRetry
  | FmParked
  | FmReady                    \<comment> \<open>scheduled, and the mutex is its own\<close>
  | FmHold                     \<comment> \<open>user code, with the mutex\<close>
  | FuCas                      \<comment> \<open>suspended in Unlock\<close>
  | FuSpin | FuTake
  | FuStore nat | FuUnlock nat | FuSched nat     \<comment> \<open>with \<open>unparked_fiber\<close>\<close>

record fm_state =
  fm_st :: fm_status
  park_q :: "nat list"
  fm_mtx :: "nat option"
  fm_pc :: "nat \<Rightarrow> fm_pc"
  run_depth :: "nat \<Rightarrow> nat"
  fm_fault :: bool

definition FiberMutex_construct :: fm_state where
  "FiberMutex_construct = \<lparr>fm_st = StNone, park_q = [], fm_mtx = None, fm_pc = (\<lambda>_. FmIdle), run_depth = (\<lambda>_. 1), fm_fault = False\<rparr>"

definition fm_go :: "nat \<Rightarrow> fm_pc \<Rightarrow> fm_state \<Rightarrow> fm_state" where
  "fm_go f p s = s\<lparr>fm_pc := (fm_pc s)(f := p)\<rparr>"

text \<open>\<open>fiber->Run()\<close> from an awaiter: one more frame on the stack of the same worker.\<close>

definition Fiber_Run_nested :: "nat \<Rightarrow> fm_pc \<Rightarrow> fm_state \<Rightarrow> fm_state" where
  "Fiber_Run_nested f p s = fm_go f p (s\<lparr>run_depth := (run_depth s)(f := Suc (run_depth s f))\<rparr>)"

subsection \<open>Lock\<close>

definition Lock_cas :: "nat \<Rightarrow> fm_state \<Rightarrow> fm_state" where
  "Lock_cas f s = (if fm_st s = StNone then Fiber_Run_nested f FmHold (s\<lparr>fm_st := LockedNoWaiter\<rparr>) else fm_go f FmSpin s)"

definition mtx_Lock :: "nat \<Rightarrow> fm_pc \<Rightarrow> fm_state \<Rightarrow> fm_state option" where
  "mtx_Lock f next s = (if fm_mtx s = None then Some (fm_go f next (s\<lparr>fm_mtx := Some f\<rparr>)) else None)"

definition mtx_Unlock :: "nat \<Rightarrow> fm_pc \<Rightarrow> fm_state \<Rightarrow> fm_state" where
  "mtx_Unlock f next s = fm_go f next (s\<lparr>fm_mtx := None\<rparr>)"

definition Lock_load :: "nat \<Rightarrow> fm_state \<Rightarrow> fm_state" where
  "Lock_load f s = fm_go f (if fm_st s = LockedWithWaiters then FmPut else FmCas) s"

definition Lock_cas_waiters :: "nat \<Rightarrow> fm_state \<Rightarrow> fm_state" where
  "Lock_cas_waiters f s = (if fm_st s = LockedNoWaiter then fm_go f FmPut (s\<lparr>fm_st := LockedWithWaiters\<rparr>)
     else fm_go f FmUnlockRetry s)"

definition Lock_put :: "nat \<Rightarrow> fm_state \<Rightarrow> fm_state" where
  "Lock_put f s = fm_go f FmUnlockParked (s\<lparr>park_q := park_q s @ [f]\<rparr>)"

subsection \<open>Unlock\<close>

definition Unlock_cas :: "nat \<Rightarrow> fm_state \<Rightarrow> fm_state" where
  "Unlock_cas f s = (if fm_st s = LockedNoWaiter then Fiber_Run_nested f FmIdle (s\<lparr>fm_st := StNone\<rparr>) else fm_go f FuSpin s)"

definition Unlock_take :: "nat \<Rightarrow> fm_state \<Rightarrow> fm_state" where
  "Unlock_take f s = (case park_q s of [] \<Rightarrow> s\<lparr>fm_fault := True\<rparr> | g # q \<Rightarrow> fm_go f (FuStore g) (s\<lparr>park_q := q\<rparr>))"

definition Unlock_store :: "nat \<Rightarrow> nat \<Rightarrow> fm_state \<Rightarrow> fm_state" where
  "Unlock_store f g s = fm_go f (FuUnlock g) (s\<lparr>fm_st := (if park_q s = [] then LockedNoWaiter else LockedWithWaiters)\<rparr>)"

text \<open>\<open>unparked_fiber->Schedule(); release_lock_fiber->Run();\<close> Scheduling a fiber that is not parked is a fault.\<close>

definition Unlock_schedule :: "nat \<Rightarrow> nat \<Rightarrow> fm_state \<Rightarrow> fm_state" where
  "Unlock_schedule f g s = (if fm_pc s g = FmParked then Fiber_Run_nested f FmIdle (fm_go g FmReady s) else s\<lparr>fm_fault := True\<rparr>)"

datatype fm_act = FmCallLock nat | FmCallUnlock nat | FmFiber nat

fun fm_fiber :: "nat \<Rightarrow> fm_pc \<Rightarrow> fm_state \<Rightarrow> fm_state option" where
  "fm_fiber f FmTry s = Some (Lock_cas f s)"
| "fm_fiber f FmSpin s = mtx_Lock f FmLoad s"
| "fm_fiber f FmLoad s = Some (Lock_load f s)"
| "fm_fiber f FmCas s = Some (Lock_cas_waiters f s)"
| "fm_fiber f FmPut s = Some (Lock_put f s)"
| "fm_fiber f FmUnlockParked s = Some (mtx_Unlock f FmParked s)"
| "fm_fiber f FmUnlockRetry s = Some (mtx_Unlock f FmTry s)"
| "fm_fiber f FmReady s = Some (fm_go f FmHold (s\<lparr>run_depth := (run_depth s)(f := 1)\<rparr>))"
| "fm_fiber f FuCas s = Some (Unlock_cas f s)"
| "fm_fiber f FuSpin s = mtx_Lock f FuTake s"
| "fm_fiber f FuTake s = Some (Unlock_take f s)"
| "fm_fiber f (FuStore g) s = Some (Unlock_store f g s)"
| "fm_fiber f (FuUnlock g) s = Some (mtx_Unlock f (FuSched g) s)"
| "fm_fiber f (FuSched g) s = Some (Unlock_schedule f g s)"
| "fm_fiber f _ s = None"

fun fm_step :: "nat \<Rightarrow> fm_act \<Rightarrow> fm_state \<Rightarrow> fm_state option" where
  "fm_step n (FmCallLock f) s = (if f < n \<and> fm_pc s f = FmIdle then Some (fm_go f FmTry s) else None)"
| "fm_step n (FmCallUnlock f) s = (if f < n \<and> fm_pc s f = FmHold then Some (fm_go f FuCas s) else None)"
| "fm_step n (FmFiber f) s = (if f < n then fm_fiber f (fm_pc s f) s else None)"

lemmas fm_ops = fm_go_def Fiber_Run_nested_def Lock_cas_def mtx_Lock_def mtx_Unlock_def Lock_load_def Lock_cas_waiters_def
  Lock_put_def Unlock_cas_def Unlock_take_def Unlock_store_def Unlock_schedule_def

subsection \<open>The invariant\<close>

fun fm_owns :: "fm_pc \<Rightarrow> bool" where
  "fm_owns FmReady = True" | "fm_owns FmHold = True" | "fm_owns FuCas = True" | "fm_owns FuSpin = True"
| "fm_owns FuTake = True" | "fm_owns (FuStore g) = True" | "fm_owns (FuUnlock g) = True" | "fm_owns (FuSched g) = True"
| "fm_owns _ = False"

fun fm_locked :: "fm_pc \<Rightarrow> bool" where
  "fm_locked FmLoad = True" | "fm_locked FmCas = True" | "fm_locked FmPut = True" | "fm_locked FmUnlockParked = True"
| "fm_locked FmUnlockRetry = True" | "fm_locked FuTake = True" | "fm_locked (FuStore g) = True"
| "fm_locked (FuUnlock g) = True" | "fm_locked _ = False"

fun fm_taken :: "fm_pc \<Rightarrow> nat option" where
  "fm_taken (FuStore g) = Some g" | "fm_taken (FuUnlock g) = Some g" | "fm_taken (FuSched g) = Some g" | "fm_taken _ = None"

definition fm_queued :: "fm_pc \<Rightarrow> bool" where
  "fm_queued p = (p = FmParked \<or> p = FmUnlockParked)"

fun fm_storing :: "fm_pc \<Rightarrow> bool" where
  "fm_storing (FuStore g) = True" | "fm_storing _ = False"

text \<open>What a program point says of the status word.\<close>

fun fm_says :: "fm_pc \<Rightarrow> fm_status \<Rightarrow> bool" where
  "fm_says FmCas st = (st \<noteq> LockedWithWaiters)" | "fm_says FmPut st = (st = LockedWithWaiters)"
| "fm_says FuSpin st = (st = LockedWithWaiters)" | "fm_says FuTake st = (st = LockedWithWaiters)"
| "fm_says (FuStore g) st = (st = LockedWithWaiters)" | "fm_says _ st = True"

definition fm_inv :: "nat \<Rightarrow> fm_state \<Rightarrow> bool" where
  "fm_inv n s = (\<not> fm_fault s \<and>
     (\<forall>f. fm_mtx s = Some f \<longleftrightarrow> fm_locked (fm_pc s f)) \<and>
     (\<forall>f g. fm_owns (fm_pc s f) \<and> fm_owns (fm_pc s g) \<longrightarrow> f = g) \<and>
     (fm_st s = StNone \<longleftrightarrow> (\<forall>f. \<not> fm_owns (fm_pc s f))) \<and>
     (\<forall>g. fm_queued (fm_pc s g) \<longleftrightarrow> g \<in> set (park_q s) \<or> (\<exists>f. fm_taken (fm_pc s f) = Some g)) \<and>
     (\<forall>f g. fm_taken (fm_pc s f) = Some g \<longrightarrow> g \<notin> set (park_q s) \<and> fm_pc s g = FmParked) \<and>
     distinct (park_q s) \<and>
     (park_q s \<noteq> [] \<longrightarrow> fm_st s = LockedWithWaiters \<or> (\<exists>f. fm_storing (fm_pc s f))) \<and>
     (fm_st s = LockedWithWaiters \<longrightarrow> park_q s \<noteq> [] \<or> (\<exists>f. fm_pc s f = FmPut \<or> fm_storing (fm_pc s f))) \<and>
     (\<forall>f. fm_says (fm_pc s f) (fm_st s)) \<and>
     (\<forall>f. fm_pc s f \<noteq> FmIdle \<longrightarrow> f < n))"

lemma fm_invI:
  assumes "\<not> fm_fault s"
    and "\<And>f. fm_mtx s = Some f \<longleftrightarrow> fm_locked (fm_pc s f)"
    and "\<And>f g. fm_owns (fm_pc s f) \<Longrightarrow> fm_owns (fm_pc s g) \<Longrightarrow> f = g"
    and "fm_st s = StNone \<longleftrightarrow> (\<forall>f. \<not> fm_owns (fm_pc s f))"
    and "\<And>g. fm_queued (fm_pc s g) \<longleftrightarrow> g \<in> set (park_q s) \<or> (\<exists>f. fm_taken (fm_pc s f) = Some g)"
    and "\<And>f g. fm_taken (fm_pc s f) = Some g \<Longrightarrow> g \<notin> set (park_q s) \<and> fm_pc s g = FmParked"
    and "distinct (park_q s)"
    and "park_q s \<noteq> [] \<Longrightarrow> fm_st s = LockedWithWaiters \<or> (\<exists>f. fm_storing (fm_pc s f))"
    and "fm_st s = LockedWithWaiters \<Longrightarrow> park_q s \<noteq> [] \<or> (\<exists>f. fm_pc s f = FmPut \<or> fm_storing (fm_pc s f))"
    and "\<And>f. fm_says (fm_pc s f) (fm_st s)"
    and "\<And>f. fm_pc s f \<noteq> FmIdle \<Longrightarrow> f < n"
  shows "fm_inv n s"
  using assms unfolding fm_inv_def by blast

lemma fm_invD:
  assumes "fm_inv n s"
  shows "\<not> fm_fault s"
    and "\<And>f. fm_mtx s = Some f \<longleftrightarrow> fm_locked (fm_pc s f)"
    and "\<And>f g. fm_owns (fm_pc s f) \<Longrightarrow> fm_owns (fm_pc s g) \<Longrightarrow> f = g"
    and "fm_st s = StNone \<longleftrightarrow> (\<forall>f. \<not> fm_owns (fm_pc s f))"
    and "\<And>g. fm_queued (fm_pc s g) \<longleftrightarrow> g \<in> set (park_q s) \<or> (\<exists>f. fm_taken (fm_pc s f) = Some g)"
    and "\<And>f g. fm_taken (fm_pc s f) = Some g \<Longrightarrow> g \<notin> set (park_q s) \<and> fm_pc s g = FmParked"
    and "distinct (park_q s)"
    and "park_q s \<noteq> [] \<Longrightarrow> fm_st s = LockedWithWaiters \<or> (\<exists>f. fm_storing (fm_pc s f))"
    and "fm_st s = LockedWithWaiters \<Longrightarrow> park_q s \<noteq> [] \<or> (\<exists>f. fm_pc s f = FmPut \<or> fm_storing (fm_pc s f))"
    and "\<And>f. fm_says (fm_pc s f) (fm_st s)"
    and "\<And>f. fm_pc s f \<noteq> FmIdle \<Longrightarrow> f < n"
  using assms unfolding fm_inv_def by blast+

text \<open>A fiber moves between program points that agree on what the invariant looks at; \<open>mtx_\<close> may change hands.\<close>

lemma fm_move:
  assumes i: "fm_inv n s" and "f < n" and "fm_owns p = fm_owns (fm_pc s f)" and "fm_taken p = fm_taken (fm_pc s f)"
    and "fm_storing p = fm_storing (fm_pc s f)" and "fm_queued p = fm_queued (fm_pc s f)"
    and "fm_pc s f = FmParked \<Longrightarrow> p = FmParked" and "fm_pc s f = FmPut \<Longrightarrow> p = FmPut" and "fm_says p (fm_st s)"
    and m: "\<And>g. m = Some g \<longleftrightarrow> fm_locked (((fm_pc s)(f := p)) g)"
  shows "fm_inv n (fm_go f p (s\<lparr>fm_mtx := m, run_depth := d\<rparr>))"
proof -
  note D = fm_invD [OF i]
  let ?pc = "(fm_pc s)(f := p)"
  have own: "fm_owns (?pc g) = fm_owns (fm_pc s g)" for g using assms(3) by simp
  have tk: "fm_taken (?pc g) = fm_taken (fm_pc s g)" for g using assms(4) by simp
  have sto: "fm_storing (?pc g) = fm_storing (fm_pc s g)" for g using assms(5) by simp
  have qd: "fm_queued (?pc g) = fm_queued (fm_pc s g)" for g using assms(6) by simp
  have put: "\<exists>g. ?pc g = FmPut" if "fm_pc s g = FmPut" for g
    using that assms(8) by (cases "g = f") auto
  show ?thesis
  proof (rule fm_invI, goal_cases)
    case 1 show ?case using D(1) by (simp add: fm_go_def)
  next
    case (2 g) show ?case using m by (simp add: fm_go_def del: fun_upd_apply)
  next
    case (3 g h) then show ?case using D(3) [of g h] own by (simp add: fm_go_def del: fun_upd_apply)
  next
    case 4 show ?case using D(4) own by (simp add: fm_go_def del: fun_upd_apply)
  next
    case (5 g) show ?case using D(5) [of g] tk qd by (simp add: fm_go_def del: fun_upd_apply)
  next
    case (6 g h)
    then have "fm_taken (fm_pc s g) = Some h" using tk by (simp add: fm_go_def del: fun_upd_apply)
    from D(6) [OF this] assms(7) show ?case by (auto simp: fm_go_def)
  next
    case 7 show ?case using D(7) by (simp add: fm_go_def)
  next
    case 8 then show ?case using D(8) sto by (simp add: fm_go_def del: fun_upd_apply)
  next
    case 9 then show ?case using D(9) sto put by (simp add: fm_go_def del: fun_upd_apply) blast
  next
    case (10 g) show ?case using D(10) [of g] assms(9) by (simp add: fm_go_def)
  next
    case (11 g) then show ?case using D(11) [of g] assms(2) by (simp add: fm_go_def split: if_splits)
  qed
qed

lemma fm_move0:
  assumes "fm_inv n s" and "f < n" and "fm_owns p = fm_owns (fm_pc s f)" and "fm_taken p = fm_taken (fm_pc s f)"
    and "fm_storing p = fm_storing (fm_pc s f)" and "fm_queued p = fm_queued (fm_pc s f)"
    and "fm_pc s f = FmParked \<Longrightarrow> p = FmParked" and "fm_pc s f = FmPut \<Longrightarrow> p = FmPut" and "fm_says p (fm_st s)"
    and "fm_locked p = fm_locked (fm_pc s f)"
  shows "fm_inv n (fm_go f p (s\<lparr>run_depth := d\<rparr>))" and "fm_inv n (fm_go f p s)"
proof -
  have "fm_mtx s = Some g \<longleftrightarrow> fm_locked (((fm_pc s)(f := p)) g)" for g
    using fm_invD(2) [OF assms(1), of g] assms(10) by simp
  note m = fm_move [OF assms(1-9) this]
  show "fm_inv n (fm_go f p (s\<lparr>run_depth := d\<rparr>))" using m [of d] by simp
  show "fm_inv n (fm_go f p s)" using m [of "run_depth s"] by simp
qed

text \<open>Taking and releasing the spinlock.\<close>

lemma fm_spin:
  assumes i: "fm_inv n s" and "f < n" and "fm_pc s f = FmSpin \<and> p = FmLoad \<or> fm_pc s f = FuSpin \<and> p = FuTake"
    and st: "mtx_Lock f p s = Some s'"
  shows "fm_inv n s'"
proof -
  from st have l: "fm_mtx s = None" and s': "s' = fm_go f p (s\<lparr>fm_mtx := Some f\<rparr>)"
    by (auto simp: mtx_Lock_def split: if_splits)
  have no: "\<not> fm_locked (fm_pc s g)" for g using l fm_invD(2) [OF i, of g] by auto
  have "Some f = Some g \<longleftrightarrow> fm_locked (((fm_pc s)(f := p)) g)" for g using no assms(3) by auto
  from fm_move [OF i assms(2) _ _ _ _ _ _ _ this, of "run_depth s"] assms(3) fm_invD(10) [OF i, of f]
  show ?thesis unfolding s' by (auto simp: fm_queued_def)
qed

lemma fm_unspin:
  assumes i: "fm_inv n s" and "f < n" and l: "fm_locked (fm_pc s f)" and "\<not> fm_locked p"
    and "fm_owns p = fm_owns (fm_pc s f)" and "fm_taken p = fm_taken (fm_pc s f)"
    and "fm_storing p = fm_storing (fm_pc s f)" and "fm_queued p = fm_queued (fm_pc s f)"
    and "fm_pc s f \<noteq> FmParked" and "fm_pc s f \<noteq> FmPut" and "fm_says p (fm_st s)"
  shows "fm_inv n (mtx_Unlock f p s)"
proof -
  have "fm_mtx s = Some f" using fm_invD(2) [OF i, of f] l by simp
  then have "None = Some g \<longleftrightarrow> fm_locked (((fm_pc s)(f := p)) g)" for g
    using fm_invD(2) [OF i, of g] assms(4) by (cases "g = f") auto
  from fm_move [OF i assms(2) assms(5-8) _ _ assms(11) this, of "run_depth s"] assms(9,10)
  show ?thesis by (simp add: mtx_Unlock_def)
qed

text \<open>The steps that change the status word or the queue.\<close>

lemma fm_others:
  assumes i: "fm_inv n s" and "g \<noteq> f"
  shows "fm_owns (fm_pc s f) \<Longrightarrow> \<not> fm_owns (fm_pc s g)" and "fm_locked (fm_pc s f) \<Longrightarrow> \<not> fm_locked (fm_pc s g)"
  using fm_invD(3) [OF i, of f g] fm_invD(2) [OF i, of f] fm_invD(2) [OF i, of g] assms(2) by auto

lemma fm_pc_owner: "fm_taken p \<noteq> None \<Longrightarrow> fm_owns p" "fm_storing p \<Longrightarrow> fm_owns p" "fm_storing p \<Longrightarrow> fm_locked p"
  by (cases p; simp)+

lemma fm_free: "\<not> fm_owns p \<Longrightarrow> fm_taken p = None \<and> \<not> fm_storing p"
  by (cases p) auto

lemma fm_says_free: "\<not> fm_owns p \<Longrightarrow> \<not> fm_locked p \<Longrightarrow> fm_says p st"
  by (cases p) auto

lemma fm_lock_cas:
  assumes i: "fm_inv n s" and "f < n" and p: "fm_pc s f = FmTry"
  shows "fm_inv n (Lock_cas f s)"
proof (cases "fm_st s = StNone")
  case True
  note D = fm_invD [OF i]
  have no: "\<not> fm_owns (fm_pc s g)" for g using D(4) True by simp
  have tk: "fm_taken (fm_pc s g) = None" "\<not> fm_storing (fm_pc s g)" for g using no [of g] fm_pc_owner by metis+
  have q: "park_q s = []" using D(8) True tk by auto
  have says: "fm_says (fm_pc s g) LockedNoWaiter" for g
    using D(10) [of g] True no [of g] by (cases "fm_pc s g") auto
  have s': "Lock_cas f s = fm_go f FmHold (s\<lparr>fm_st := LockedNoWaiter, run_depth := (run_depth s)(f := Suc (run_depth s f))\<rparr>)"
    using True by (simp add: Lock_cas_def Fiber_Run_nested_def)
  show ?thesis unfolding s'
    by (rule fm_invI) (use D(1,2,5) p q no tk says D(11) in \<open>auto simp: fm_go_def fm_queued_def split: if_splits\<close>)
next
  case False
  then show ?thesis using fm_move0(2) [OF i assms(2), of FmSpin] p by (auto simp: Lock_cas_def fm_queued_def)
qed

lemma fm_lock_waiters:
  assumes i: "fm_inv n s" and "f < n" and p: "fm_pc s f = FmCas"
  shows "fm_inv n (Lock_cas_waiters f s)"
proof (cases "fm_st s = LockedNoWaiter")
  case True
  note D = fm_invD [OF i]
  have ul: "g \<noteq> f \<Longrightarrow> \<not> fm_locked (fm_pc s g)" for g using fm_others(2) [OF i, of g f] p by simp
  have tk: "\<not> fm_storing (fm_pc s g)" for g using ul [of g] fm_pc_owner(3) [of "fm_pc s g"] p by (cases "g = f") auto
  have q: "park_q s = []" using D(8) True tk by auto
  have says: "g \<noteq> f \<Longrightarrow> fm_says (fm_pc s g) LockedWithWaiters" for g
    using ul [of g] by (cases "fm_pc s g") auto
  have s': "Lock_cas_waiters f s = fm_go f FmPut (s\<lparr>fm_st := LockedWithWaiters\<rparr>)"
    using True by (simp add: Lock_cas_waiters_def)
  have own: "fm_owns (((fm_pc s)(f := FmPut)) g) = fm_owns (fm_pc s g)" "fm_queued (((fm_pc s)(f := FmPut)) g) = fm_queued (fm_pc s g)"
     "fm_taken (((fm_pc s)(f := FmPut)) g) = fm_taken (fm_pc s g)" for g using p by (auto simp: fm_queued_def)
  show ?thesis unfolding s'
  proof (rule fm_invI, goal_cases)
    case (6 g h)
    then have "fm_taken (fm_pc s g) = Some h" using own by (simp add: fm_go_def del: fun_upd_apply)
    from D(6) [OF this] p show ?case by (auto simp: fm_go_def)
  next
    case 4 show ?case using D(4) True own by (simp add: fm_go_def del: fun_upd_apply)
  next
    case 9 show ?case by (auto simp: fm_go_def)
  qed (use D(1,2,3,5,7,11) p q says own in \<open>auto simp: fm_go_def simp del: fun_upd_apply\<close>, auto split: if_splits)
next
  case False
  then show ?thesis using fm_move0(2) [OF i assms(2), of FmUnlockRetry] p by (auto simp: Lock_cas_waiters_def fm_queued_def)
qed

lemma fm_lock_put:
  assumes i: "fm_inv n s" and "f < n" and p: "fm_pc s f = FmPut"
  shows "fm_inv n (Lock_put f s)"
proof -
  note D = fm_invD [OF i]
  have ul: "g \<noteq> f \<Longrightarrow> \<not> fm_locked (fm_pc s g)" for g using fm_others(2) [OF i, of g f] p by simp
  have lww: "fm_st s = LockedWithWaiters" using D(10) [of f] p by simp
  have fq: "f \<notin> set (park_q s)" "fm_taken (fm_pc s g) \<noteq> Some f" for g
    using D(5) [of f] p by (auto simp: fm_queued_def)
  let ?pc = "(fm_pc s)(f := FmUnlockParked)"
  have own: "fm_owns (?pc g) = fm_owns (fm_pc s g)" "fm_taken (?pc g) = fm_taken (fm_pc s g)"
    "fm_locked (?pc g) = fm_locked (fm_pc s g)" "fm_queued (?pc g) = (g = f \<or> fm_queued (fm_pc s g))" for g
    using p by (auto simp: fm_queued_def)
  show ?thesis
  proof (rule fm_invI, goal_cases)
    case (6 g h)
    then have "fm_taken (fm_pc s g) = Some h" using own by (simp add: fm_ops del: fun_upd_apply)
    from D(6) [OF this] p fq this show ?case by (auto simp: fm_ops)
  next
    case (5 g) show ?case using D(5) [of g] own by (simp add: fm_ops del: fun_upd_apply)
  next
    case (10 g) show ?case using D(10) [of g] p by (auto simp: fm_ops)
  next
    case (11 g) then show ?case using D(11) [of g] \<open>f < n\<close> by (auto simp: fm_ops split: if_splits)
  qed (use D(1-4,7) p fq lww own in \<open>auto simp: fm_ops simp del: fun_upd_apply split: if_splits\<close>)
qed

lemma fm_unlock_cas:
  assumes i: "fm_inv n s" and "f < n" and p: "fm_pc s f = FuCas"
  shows "fm_inv n (Unlock_cas f s)"
proof (cases "fm_st s = LockedNoWaiter")
  case True
  note D = fm_invD [OF i]
  have no: "g \<noteq> f \<Longrightarrow> \<not> fm_owns (fm_pc s g)" for g using fm_others(1) [OF i, of g f] p by simp
  have tk: "fm_taken (fm_pc s g) = None" "\<not> fm_storing (fm_pc s g)" for g
    using no [of g] fm_free [of "fm_pc s g"] p by (cases "g = f"; auto)+
  have q: "park_q s = []" using D(8) True tk by auto
  have says: "g \<noteq> f \<Longrightarrow> fm_says (fm_pc s g) StNone" for g
    using D(10) [of g] True no [of g] by (cases "fm_pc s g") auto
  let ?pc = "(fm_pc s)(f := FmIdle)"
  have own: "\<not> fm_owns (?pc g)" "fm_taken (?pc g) = None" "fm_locked (?pc g) = fm_locked (fm_pc s g)"
    "fm_queued (?pc g) = fm_queued (fm_pc s g)" "fm_says (?pc g) StNone" for g
    using p no [of g] tk [of g] says [of g] by (auto simp: fm_queued_def)
  have s': "Unlock_cas f s = fm_go f FmIdle (s\<lparr>fm_st := StNone, run_depth := (run_depth s)(f := Suc (run_depth s f))\<rparr>)"
    using True by (simp add: Unlock_cas_def Fiber_Run_nested_def)
  show ?thesis unfolding s'
  proof (rule fm_invI, goal_cases)
    case (11 g) then show ?case using D(11) [of g] by (auto simp: fm_go_def split: if_splits)
  qed (use D(1,2,5) q tk own in \<open>auto simp: fm_go_def simp del: fun_upd_apply\<close>)
next
  case False
  moreover have "fm_st s \<noteq> StNone" using fm_invD(4) [OF i] p by (metis fm_owns.simps(3))
  ultimately have "fm_st s = LockedWithWaiters" by (cases "fm_st s") auto
  then show ?thesis using fm_move0(2) [OF i assms(2), of FuSpin] p by (auto simp: Unlock_cas_def fm_queued_def)
qed

lemma fm_unlock_take:
  assumes i: "fm_inv n s" and "f < n" and p: "fm_pc s f = FuTake"
  shows "fm_inv n (Unlock_take f s)"
proof -
  note D = fm_invD [OF i]
  have ul: "g \<noteq> f \<Longrightarrow> \<not> fm_locked (fm_pc s g)" for g using fm_others(2) [OF i, of g f] p by simp
  have no: "g \<noteq> f \<Longrightarrow> \<not> fm_owns (fm_pc s g)" for g using fm_others(1) [OF i, of g f] p by simp
  have tk: "fm_taken (fm_pc s g) = None" for g
    using no [of g] fm_free [of "fm_pc s g"] p by (cases "g = f") auto
  have lww: "fm_st s = LockedWithWaiters" using D(10) [of f] p by simp
  have "\<not> (fm_pc s g = FmPut \<or> fm_storing (fm_pc s g))" for g
    using ul [of g] fm_pc_owner(3) [of "fm_pc s g"] p by (cases "g = f") auto
  with D(9) [OF lww] obtain h q where q: "park_q s = h # q" by (cases "park_q s") auto
  have "fm_queued (fm_pc s h)" using D(5) [of h] q by simp
  then have hp: "fm_pc s h = FmParked" using ul [of h] p by (cases "h = f") (auto simp: fm_queued_def)
  have hq: "h \<notin> set q" "distinct q" using D(7) q by auto
  have qd: "fm_queued (fm_pc s g) = (g = h \<or> g \<in> set q)" for g using D(5) [of g] q tk by simp
  have fq: "f \<notin> set q" using qd [of f] p by (auto simp: fm_queued_def)
  have s': "Unlock_take f s = fm_go f (FuStore h) (s\<lparr>park_q := q\<rparr>)" using q by (simp add: Unlock_take_def)
  show ?thesis unfolding s'
    by (rule fm_invI) (use D(1-4,10,11) p tk lww hp hq qd fq \<open>f < n\<close> in \<open>auto simp: fm_go_def fm_queued_def split: if_splits\<close>)
qed

lemma fm_unlock_store:
  assumes i: "fm_inv n s" and "f < n" and p: "fm_pc s f = FuStore h"
  shows "fm_inv n (Unlock_store f h s)"
proof -
  note D = fm_invD [OF i]
  have ul: "g \<noteq> f \<Longrightarrow> \<not> fm_locked (fm_pc s g)" for g using fm_others(2) [OF i, of g f] p by simp
  have no: "g \<noteq> f \<Longrightarrow> \<not> fm_owns (fm_pc s g)" for g using fm_others(1) [OF i, of g f] p by simp
  have says: "g \<noteq> f \<Longrightarrow> fm_says (fm_pc s g) st" for g st using fm_says_free no ul by blast
  let ?pc = "(fm_pc s)(f := FuUnlock h)"
  have own: "fm_owns (?pc g) = fm_owns (fm_pc s g)" "fm_taken (?pc g) = fm_taken (fm_pc s g)"
    "fm_locked (?pc g) = fm_locked (fm_pc s g)" "fm_queued (?pc g) = fm_queued (fm_pc s g)" for g
    using p by (auto simp: fm_queued_def)
  have ow: "fm_owns (fm_pc s f)" using p by simp
  show ?thesis
  proof (rule fm_invI, goal_cases)
    case (6 g k)
    then have "fm_taken (fm_pc s g) = Some k" using own by (simp add: fm_ops del: fun_upd_apply)
    from D(6) [OF this] p show ?case by (auto simp: fm_ops)
  next
    case 4 show ?case using ow own by (auto simp: fm_ops simp del: fun_upd_apply)
  next
    case (10 g) show ?case using says [of g] by (auto simp: fm_ops)
  qed (use D(1-3,5,7,11) p own in \<open>auto simp: fm_ops simp del: fun_upd_apply split: if_splits\<close>, auto split: if_splits)
qed

lemma fm_unlock_schedule:
  assumes i: "fm_inv n s" and "f < n" and p: "fm_pc s f = FuSched h"
  shows "fm_inv n (Unlock_schedule f h s)"
proof -
  note D = fm_invD [OF i]
  have h: "h \<notin> set (park_q s)" "fm_pc s h = FmParked" using D(6) [of f h] p by auto
  then have hf: "h \<noteq> f" using p by auto
  have no: "g \<noteq> f \<Longrightarrow> \<not> fm_owns (fm_pc s g)" for g using fm_others(1) [OF i, of g f] p by simp
  have tk: "g \<noteq> f \<Longrightarrow> fm_taken (fm_pc s g) = None" "\<not> fm_storing (fm_pc s g)" for g
    using no [of g] fm_free [of "fm_pc s g"] p by (cases "g = f"; auto)+
  have "fm_st s \<noteq> StNone" using D(4) p by (metis fm_owns.simps(8))
  then have st: "fm_st s \<noteq> StNone" .
  have qd: "g \<noteq> f \<Longrightarrow> fm_queued (fm_pc s g) = (g = h \<or> g \<in> set (park_q s))" "\<not> fm_queued (fm_pc s f)" "f \<notin> set (park_q s)" for g
    using D(5) [of g] D(5) [of f] tk p by (auto simp: fm_queued_def) (metis fm_taken.simps(3) option.inject tk(1) option.distinct(1))+
  let ?pc = "(fm_pc s)(h := FmReady, f := FmIdle)"
  have s': "Unlock_schedule f h s = s\<lparr>fm_pc := ?pc, run_depth := (run_depth s)(f := Suc (run_depth s f))\<rparr>"
    using h hf by (simp add: Unlock_schedule_def Fiber_Run_nested_def fm_go_def)
  have hn: "h < n" using D(11) [of h] h by simp
  have put: "?pc g = FmPut \<longleftrightarrow> fm_pc s g = FmPut" for g using p h hf by auto
  show ?thesis unfolding s'
  proof (rule fm_invI, goal_cases)
    case 4 show ?case using st hf by auto
  next
    case 9 then show ?case using D(9) tk put by (simp del: fun_upd_apply) blast
  next
    case (5 g) show ?case using qd tk h hf by (auto simp: fm_queued_def)
  qed (use D(1,2,7,8,10,11) p h hf no tk hn \<open>f < n\<close> in \<open>auto split: if_splits\<close>)
qed

lemma fm_fiber_step:
  assumes i: "fm_inv n s" and f: "f < n" and st: "fm_fiber f (fm_pc s f) s = Some s'"
  shows "fm_inv n s'"
proof (cases "fm_pc s f")
  case FmTry
  then show ?thesis using st fm_lock_cas [OF i f] by auto
next
  case FmSpin
  then show ?thesis using st fm_spin [OF i f, of FmLoad] by simp
next
  case FmLoad
  then show ?thesis using st fm_move0(2) [OF i f] by (auto simp: Lock_load_def fm_queued_def)
next
  case FmCas
  then show ?thesis using st fm_lock_waiters [OF i f] by auto
next
  case FmPut
  then show ?thesis using st fm_lock_put [OF i f] by auto
next
  case FmUnlockParked
  then show ?thesis using st fm_unspin [OF i f, of FmParked] by (auto simp: fm_queued_def)
next
  case FmUnlockRetry
  then show ?thesis using st fm_unspin [OF i f, of FmTry] by (auto simp: fm_queued_def)
next
  case FmReady
  then show ?thesis using st fm_move0(1) [OF i f, of FmHold] by (auto simp: fm_queued_def)
next
  case FuCas
  then show ?thesis using st fm_unlock_cas [OF i f] by auto
next
  case FuSpin
  then show ?thesis using st fm_spin [OF i f, of FuTake] by simp
next
  case FuTake
  then show ?thesis using st fm_unlock_take [OF i f] by auto
next
  case (FuStore g)
  then show ?thesis using st fm_unlock_store [OF i f, of g] by auto
next
  case (FuUnlock g)
  then show ?thesis using st fm_unspin [OF i f, of "FuSched g"] by (auto simp: fm_queued_def)
next
  case (FuSched g)
  then show ?thesis using st fm_unlock_schedule [OF i f, of g] by auto
qed (use st in auto)

lemma fm_inv_step:
  assumes i: "fm_inv n s" and st: "fm_step n a s = Some s'"
  shows "fm_inv n s'"
proof (cases a)
  case (FmCallLock f)
  then show ?thesis using st fm_move0(2) [OF i, of f FmTry] by (auto simp: fm_queued_def split: if_splits)
next
  case (FmCallUnlock f)
  then show ?thesis using st fm_move0(2) [OF i, of f FuCas] by (auto simp: fm_queued_def split: if_splits)
next
  case (FmFiber f)
  then show ?thesis using st fm_fiber_step [OF i, of f] by (auto split: if_splits)
qed

definition fm_holds :: "fm_state \<Rightarrow> nat \<Rightarrow> bool" where
  "fm_holds s f = (fm_pc s f = FmHold)"

interpretation fibermutex: mutual_exclusion FiberMutex_construct "fm_step n" "fm_inv n" fm_holds for n
proof unfold_locales
  show "fm_inv n FiberMutex_construct" by (simp add: fm_inv_def FiberMutex_construct_def fm_queued_def)
  show "fm_inv n s \<Longrightarrow> fm_holds s f \<Longrightarrow> fm_holds s g \<Longrightarrow> f = g" for s f g
    using fm_invD(3) [of n s f g] by (simp add: fm_holds_def)
qed (rule fm_inv_step)

subsection \<open>Properties\<close>

definition fm_quiet :: "nat \<Rightarrow> fm_state \<Rightarrow> bool" where
  "fm_quiet n s = list_all (\<lambda>f. fm_step n (FmFiber f) s = None \<and> fm_pc s f \<noteq> FmHold) [0..<n]"

lemma fm_quiet_idle:
  assumes i: "fm_inv n s" and q: "fm_quiet n s"
  shows "fm_pc s f = FmIdle"
proof -
  note D = fm_invD [OF i]
  have st: "fm_fiber g (fm_pc s g) s = None \<and> fm_pc s g \<noteq> FmHold" if "fm_pc s g \<noteq> FmIdle" for g
    using q D(11) [OF that] by (auto simp: fm_quiet_def list_all_iff)
  have pcs: "fm_pc s g \<in> {FmIdle, FmParked, FmSpin, FuSpin}" for g using st [of g] by (cases "fm_pc s g") auto
  have "\<not> fm_locked (fm_pc s g)" for g using pcs [of g] by auto
  then have m: "fm_mtx s = None" using D(2) by (cases "fm_mtx s") auto
  have pcs2: "fm_pc s g \<in> {FmIdle, FmParked}" for g using st [of g] pcs [of g] m by (auto simp: mtx_Lock_def)
  have no: "\<not> fm_owns (fm_pc s g)" "fm_taken (fm_pc s g) = None" "\<not> fm_storing (fm_pc s g)" for g using pcs2 [of g] by auto
  then have "fm_st s = StNone" using D(4) by simp
  then have "park_q s = []" using D(8) no by auto
  with D(5) [of f] no pcs2 [of f] show ?thesis by (auto simp: fm_queued_def)
qed

text \<open>C9: 
  On every schedule of the fibers' workers at most one fiber is between Lock and Unlock, Unlock never takes
  from an empty queue nor schedules a fiber that is not parked, and no fiber is left waiting: when nobody holds the mutex and no worker can move,
  every fiber is back in user code.
\<close>

theorem fiber_mutex_correct:
  "let s = run (fm_step n) as FiberMutex_construct in
   (\<exists>h. \<forall>f. fm_holds s f \<longrightarrow> f = h) \<and> \<not> fm_fault s \<and> (\<not> fm_quiet n s \<or> (\<forall>f. fm_pc s f = FmIdle))"
  using fibermutex.run_holders [of n as] fm_invD(1) [OF fibermutex.inv_run [of n as]]
    fm_quiet_idle [OF fibermutex.inv_run [of n as]]
  unfolding Let_def by blast

text \<open>
  Without contention every Lock and every Unlock leaves one more \<open>Run\<close> on the worker's stack: the awaiters call
  \<open>Run\<close> instead of returning to it, so after \<open>k\<close> rounds the stack is \<open>2 k\<close> frames deeper.
\<close>

theorem fiber_mutex_stack_grows:
  "run_depth (run (fm_step (Suc n)) (concat (replicate k [FmCallLock 0, FmFiber 0, FmCallUnlock 0, FmFiber 0])) FiberMutex_construct) 0
     = 1 + 2 * k"
proof -
  have upd: "(\<lambda>_. FmIdle)(0 := FmIdle) = (\<lambda>_::nat. FmIdle)" by (rule ext) simp
  let ?round = "[FmCallLock 0, FmFiber 0, FmCallUnlock 0, FmFiber 0]"
  have "run (fm_step (Suc n)) (concat (replicate k ?round)) (FiberMutex_construct\<lparr>run_depth := d\<rparr>) =
      FiberMutex_construct\<lparr>run_depth := d(0 := d 0 + 2 * k)\<rparr>" for d
    by (induction k arbitrary: d)
      (simp_all add: FiberMutex_construct_def stutter_def fm_ops upd)
  from this [of "\<lambda>_. 1"] show ?thesis by (simp add: FiberMutex_construct_def)
qed

lemma fiber_mutex_correct_witness:
  "let s = run (fm_step 2) [FmCallLock 0, FmFiber 0, FmCallLock 1, FmFiber 1, FmFiber 1, FmFiber 1, FmFiber 1, FmFiber 1, FmFiber 1,
       FmCallUnlock 0, FmFiber 0, FmFiber 0, FmFiber 0, FmFiber 0, FmFiber 0, FmFiber 0, FmFiber 1] FiberMutex_construct
   in fm_holds s 1 \<and> \<not> fm_holds s 0 \<and> \<not> fm_fault s"
proof -
  let ?as = "[FmCallLock 0, FmFiber 0, FmCallLock 1, FmFiber 1, FmFiber 1, FmFiber 1, FmFiber 1, FmFiber 1, FmFiber 1,
       FmCallUnlock 0, FmFiber 0, FmFiber 0, FmFiber 0, FmFiber 0, FmFiber 0, FmFiber 0, FmFiber 1]"
  define s where "s = run (fm_step 2) ?as FiberMutex_construct"
  have p: "fm_holds s 1" unfolding s_def by code_simp
  have "\<not> fm_holds s 0 \<and> \<not> fm_fault s"
    using fiber_mutex_correct [of 2 ?as] p unfolding Let_def s_def [symmetric] by (metis zero_neq_one)
  with p show ?thesis unfolding Let_def s_def [symmetric] by blast
qed

end
