(* ===== verification/FiberMutexV2.thy ===== *)
theory FiberMutexV2
  imports FiberMutex
begin

section \<open>The first fiber mutex\<close>

text \<open>
  \<open>fibers/mutex/exe/fibers/sync/mutex-v2.hpp\<close>, kept in the repository as a solution that does not work. Lock runs in
  the fiber itself: it puts the fiber into the queue, releases the spinlock and only then suspends, with an awaiter
  that does nothing. The coroutine of a fiber may be resumed only while it is suspended; resuming it earlier is a fault.
\<close>

datatype m2_pc =
    M2Idle
  | M2Lock                      \<comment> \<open>in Lock, about to take the spinlock\<close>
  | M2First | M2Second fm_status | M2Again
  | M2Put | M2UnlockPark
  | M2Suspend                   \<comment> \<open>in the queue and still running, about to suspend\<close>
  | M2Suspended
  | M2UnlockHold
  | M2Hold
  | M2ULock | M2UCas | M2UFree | M2UTake
  | M2UUnlock "nat option"
  | M2UEmpty
  | M2ULock2 nat | M2UStore nat | M2UUnlock2 nat | M2USched nat

record m2_state =
  m2_st :: fm_status
  m2_q :: "nat list"
  m2_lock :: "nat option"
  m2_pc :: "nat \<Rightarrow> m2_pc"
  m2_ready :: "nat list"          \<comment> \<open>fibers in the pool's queue\<close>
  m2_fault :: bool

definition MutexV2_construct :: m2_state where
  "MutexV2_construct = \<lparr>m2_st = StNone, m2_q = [], m2_lock = None, m2_pc = (\<lambda>_. M2Idle), m2_ready = [], m2_fault = False\<rparr>"

definition m2_go :: "nat \<Rightarrow> m2_pc \<Rightarrow> m2_state \<Rightarrow> m2_state" where
  "m2_go f p s = s\<lparr>m2_pc := (m2_pc s)(f := p)\<rparr>"

text \<open>Returns the value that was in \<open>st_\<close>.\<close>

definition m2_Cmpxchg :: "fm_status \<Rightarrow> fm_status \<Rightarrow> m2_state \<Rightarrow> fm_status \<times> m2_state" where
  "m2_Cmpxchg old_st new_st s = (m2_st s, if m2_st s = old_st then s\<lparr>m2_st := new_st\<rparr> else s)"

definition m2_spin :: "nat \<Rightarrow> m2_pc \<Rightarrow> m2_state \<Rightarrow> m2_state option" where
  "m2_spin f next s = (if m2_lock s = None then Some (m2_go f next (s\<lparr>m2_lock := Some f\<rparr>)) else None)"

definition m2_unspin :: "nat \<Rightarrow> m2_pc \<Rightarrow> m2_state \<Rightarrow> m2_state" where
  "m2_unspin f next s = m2_go f next (s\<lparr>m2_lock := None\<rparr>)"

fun MutexV2_Lock :: "nat \<Rightarrow> m2_pc \<Rightarrow> m2_state \<Rightarrow> m2_state option" where
  "MutexV2_Lock f M2Lock s = m2_spin f M2First s"
| "MutexV2_Lock f M2First s = (let (c, s1) = m2_Cmpxchg StNone LockedNoWaiter s
     in Some (m2_go f (if c \<noteq> StNone then M2Second c else M2UnlockHold) s1))"
| "MutexV2_Lock f (M2Second c) s = (if c = LockedWithWaiters then Some (m2_go f M2Put s)
     else let (d, s1) = m2_Cmpxchg LockedNoWaiter LockedWithWaiters s
          in Some (m2_go f (if d \<noteq> StNone then M2Put else M2Again) s1))"
| "MutexV2_Lock f M2Again s = (let (c, s1) = m2_Cmpxchg StNone LockedWithWaiters s
     in Some (m2_go f (if c \<noteq> StNone then M2Second c else M2UnlockHold) s1))"
| "MutexV2_Lock f M2Put s = Some (m2_go f M2UnlockPark (s\<lparr>m2_q := m2_q s @ [f]\<rparr>))"
| "MutexV2_Lock f M2UnlockPark s = Some (m2_unspin f M2Suspend s)"
| "MutexV2_Lock f M2Suspend s = Some (m2_go f M2Suspended s)"
| "MutexV2_Lock f M2UnlockHold s = Some (m2_unspin f M2Hold s)"
| "MutexV2_Lock f _ s = None"

fun MutexV2_Unlock :: "nat \<Rightarrow> m2_pc \<Rightarrow> m2_state \<Rightarrow> m2_state option" where
  "MutexV2_Unlock f M2ULock s = m2_spin f M2UCas s"
| "MutexV2_Unlock f M2UCas s = (if m2_st s = LockedNoWaiter then Some (m2_go f M2UFree (s\<lparr>m2_st := StNone\<rparr>))
     else Some (m2_go f M2UTake s))"
| "MutexV2_Unlock f M2UFree s = Some (m2_unspin f M2Idle s)"
| "MutexV2_Unlock f M2UTake s = Some (case m2_q s of [] \<Rightarrow> m2_go f (M2UUnlock None) s
     | g # q \<Rightarrow> m2_go f (M2UUnlock (Some g)) (s\<lparr>m2_q := q\<rparr>))"
| "MutexV2_Unlock f (M2UUnlock fiber_opt) s =
     Some (m2_unspin f (case fiber_opt of None \<Rightarrow> M2UEmpty | Some g \<Rightarrow> M2ULock2 g) s)"
| "MutexV2_Unlock f M2UEmpty s = Some (m2_go f M2Idle (s\<lparr>m2_st := StNone\<rparr>))"
| "MutexV2_Unlock f (M2ULock2 g) s = m2_spin f (M2UStore g) s"
| "MutexV2_Unlock f (M2UStore g) s =
     Some (m2_go f (M2UUnlock2 g) (s\<lparr>m2_st := (if m2_q s = [] then LockedNoWaiter else LockedWithWaiters)\<rparr>))"
| "MutexV2_Unlock f (M2UUnlock2 g) s = Some (m2_unspin f (M2USched g) s)"
| "MutexV2_Unlock f (M2USched g) s = Some (m2_go f M2Idle (s\<lparr>m2_ready := m2_ready s @ [g]\<rparr>))"
| "MutexV2_Unlock f _ s = None"

datatype m2_act = M2CallLock nat | M2CallUnlock nat | M2Step nat | M2Run

fun m2_step :: "nat \<Rightarrow> m2_act \<Rightarrow> m2_state \<Rightarrow> m2_state option" where
  "m2_step n (M2CallLock f) s = (if f < n \<and> m2_pc s f = M2Idle then Some (m2_go f M2Lock s) else None)"
| "m2_step n (M2CallUnlock f) s = (if f < n \<and> m2_pc s f = M2Hold then Some (m2_go f M2ULock s) else None)"
| "m2_step n (M2Step f) s = (if f < n then (case MutexV2_Lock f (m2_pc s f) s of None \<Rightarrow> MutexV2_Unlock f (m2_pc s f) s | Some s1 \<Rightarrow> Some s1)
     else None)"
| "m2_step n M2Run s = (case m2_ready s of [] \<Rightarrow> None
     | g # q \<Rightarrow> Some ((if m2_pc s g = M2Suspended then m2_go g M2Hold s else s\<lparr>m2_fault := True\<rparr>)\<lparr>m2_ready := q\<rparr>))"

text \<open>
  Why it does not work: the second fiber is in the queue and has released the spinlock, the first one unlocks, takes
  it and schedules it, and a worker resumes its coroutine while it is still running and has not suspended.
\<close>

theorem mutex_v2_resumes_running:
  "\<exists>as. m2_fault (run (m2_step 2) as MutexV2_construct)"
  by (rule exI [of _ "[M2CallLock 0, M2Step 0, M2Step 0, M2Step 0,
      M2CallLock 1, M2Step 1, M2Step 1, M2Step 1, M2Step 1, M2Step 1,
      M2CallUnlock 0, M2Step 0, M2Step 0, M2Step 0, M2Step 0, M2Step 0, M2Step 0, M2Step 0, M2Step 0, M2Run]"]) code_simp

end
