(* ===== verification/FiberWaitGroup.thy ===== *)
theory FiberWaitGroup
  imports Prelude
begin

section \<open>WaitGroup for fibers\<close>

text \<open>
  \<open>fibers/mutex/exe/fibers/sync/wait_group.hpp\<close>. Wait suspends the fiber; its worker then either puts it into the wait queue
  or, when all Done calls have been made, schedules it again, the last suspended one only after Done has set
  \<open>is_last_wait_completed_\<close>. The Done call that reaches 0 empties the queue. The group may be destroyed once a Wait has
  returned and no fiber is in Wait; an access afterwards is recorded in \<open>fw_uaf\<close>. \<open>k\<close> is the count given to Add.
\<close>

datatype fw_pc =
    FwIdle
  | FwLock                    \<comment> \<open>suspended, counted; its worker is in TryEnqueue, about to lock\<close>
  | FwCheck | FwPut | FwUnlockParked | FwParked
  | FwUnlockGo                \<comment> \<open>TryEnqueue is about to return false\<close>
  | FwCount                   \<comment> \<open>in Reschedule\<close>
  | FwSpin | FwSched
  | FwReady                   \<comment> \<open>scheduled\<close>
  | FwDec                     \<comment> \<open>resumed, about to decrement \<open>suspended_waits_counter_\<close>\<close>

datatype done_pc =
    DoneNone
  | DoneLock | DoneEmpty | DoneUnlock bool
  | DoneFlag                  \<comment> \<open>the queue was empty: about to store the flag and return\<close>
  | DoneLoop bool             \<comment> \<open>with \<open>is_empty\<close>\<close>
  | DoneIsEmpty nat
  | DoneFlagLast nat          \<comment> \<open>took the last fiber: about to store the flag\<close>
  | DoneSched nat bool
  | DoneEnd

record fw_state =
  fw_q :: "nat list"
  done_calls_countdown :: u32
  suspended_waits_counter :: u32
  is_last_wait_completed :: bool
  fw_mtx :: "nat option option"    \<comment> \<open>held by Done (\<open>Some None\<close>) or by a fiber's worker\<close>
  fw_pc :: "nat \<Rightarrow> fw_pc"
  fw_done :: done_pc
  fw_left :: nat                   \<comment> \<open>ghost: Done calls not made yet\<close>
  fw_alive :: bool
  fw_returned :: bool              \<comment> \<open>ghost: a Wait has returned\<close>
  fw_fault :: bool
  fw_uaf :: bool

definition WaitGroup_Add :: "size_t \<Rightarrow> fw_state \<Rightarrow> fw_state" where
  "WaitGroup_Add c s = s\<lparr>done_calls_countdown := done_calls_countdown s + ucast c\<rparr>"

definition FiberWaitGroup_construct :: fw_state where
  "FiberWaitGroup_construct = \<lparr>fw_q = [], done_calls_countdown = 0, suspended_waits_counter = 0, is_last_wait_completed = False,
     fw_mtx = None, fw_pc = (\<lambda>_. FwIdle), fw_done = DoneNone, fw_left = 0, fw_alive = True, fw_returned = False,
     fw_fault = False, fw_uaf = False\<rparr>"

text \<open>A group with Add(k) called before any Wait or Done.\<close>

definition fw_start :: "nat \<Rightarrow> fw_state" where
  "fw_start k = (WaitGroup_Add (of_nat k) FiberWaitGroup_construct)\<lparr>fw_left := k\<rparr>"

definition fw_use :: "fw_state \<Rightarrow> fw_state" where
  "fw_use s = s\<lparr>fw_uaf := fw_uaf s \<or> \<not> fw_alive s\<rparr>"

definition fw_go :: "nat \<Rightarrow> fw_pc \<Rightarrow> fw_state \<Rightarrow> fw_state" where
  "fw_go f p s = s\<lparr>fw_pc := (fw_pc s)(f := p)\<rparr>"

subsection \<open>Wait\<close>

definition WaitGroup_Wait :: "nat \<Rightarrow> fw_state \<Rightarrow> fw_state" where
  "WaitGroup_Wait f s = fw_go f FwLock ((fw_use s)\<lparr>suspended_waits_counter := suspended_waits_counter s + 1\<rparr>)"

definition WaitGroup_Wait_end :: "nat \<Rightarrow> fw_state \<Rightarrow> fw_state" where
  "WaitGroup_Wait_end f s = fw_go f FwIdle ((fw_use s)\<lparr>suspended_waits_counter := suspended_waits_counter s - 1, fw_returned := True\<rparr>)"

definition TryEnqueue_lock :: "nat \<Rightarrow> fw_state \<Rightarrow> fw_state option" where
  "TryEnqueue_lock f s = (if fw_mtx s = None then Some (fw_go f FwCheck ((fw_use s)\<lparr>fw_mtx := Some (Some f)\<rparr>)) else None)"

definition TryEnqueue_check :: "nat \<Rightarrow> fw_state \<Rightarrow> fw_state" where
  "TryEnqueue_check f s = fw_go f (if done_calls_countdown s \<noteq> 0 then FwPut else FwUnlockGo) (fw_use s)"

definition TryEnqueue_put :: "nat \<Rightarrow> fw_state \<Rightarrow> fw_state" where
  "TryEnqueue_put f s = fw_go f FwUnlockParked ((fw_use s)\<lparr>fw_q := fw_q s @ [f]\<rparr>)"

definition TryEnqueue_unlock :: "nat \<Rightarrow> fw_pc \<Rightarrow> fw_state \<Rightarrow> fw_state" where
  "TryEnqueue_unlock f next s = fw_go f next ((fw_use s)\<lparr>fw_mtx := None\<rparr>)"

definition Reschedule_count :: "nat \<Rightarrow> fw_state \<Rightarrow> fw_state" where
  "Reschedule_count f s = fw_go f (if suspended_waits_counter s = 1 then FwSpin else FwSched) (fw_use s)"

definition Reschedule_spin :: "nat \<Rightarrow> fw_state \<Rightarrow> fw_state option" where
  "Reschedule_spin f s = (if is_last_wait_completed s then Some (fw_go f FwSched (fw_use s)) else None)"

definition fw_Schedule :: "nat \<Rightarrow> fw_state \<Rightarrow> fw_state" where
  "fw_Schedule f s = (if fw_pc s f = FwParked \<or> fw_pc s f = FwSched then fw_go f FwReady s else s\<lparr>fw_fault := True\<rparr>)"

subsection \<open>Done\<close>

definition WaitGroup_Done :: "fw_state \<Rightarrow> fw_state" where
  "WaitGroup_Done s = (let old = done_calls_countdown s
     in (fw_use s)\<lparr>done_calls_countdown := old - 1, fw_left := fw_left s - 1, fw_done := (if old = 1 then DoneLock else fw_done s)\<rparr>)"

definition Done_lock :: "fw_state \<Rightarrow> fw_state option" where
  "Done_lock s = (if fw_mtx s = None then Some ((fw_use s)\<lparr>fw_mtx := Some None, fw_done := DoneEmpty\<rparr>) else None)"

definition Done_empty :: "fw_state \<Rightarrow> fw_state" where
  "Done_empty s = (fw_use s)\<lparr>fw_done := DoneUnlock (fw_q s = [])\<rparr>"

definition Done_unlock :: "bool \<Rightarrow> fw_state \<Rightarrow> fw_state" where
  "Done_unlock is_empty s = (fw_use s)\<lparr>fw_mtx := None, fw_done := (if is_empty then DoneFlag else DoneLoop is_empty)\<rparr>"

definition Done_flag :: "fw_state \<Rightarrow> fw_state" where
  "Done_flag s = (fw_use s)\<lparr>is_last_wait_completed := True, fw_done := DoneEnd\<rparr>"

definition Done_loop :: "bool \<Rightarrow> fw_state \<Rightarrow> fw_state" where
  "Done_loop is_empty s = (if is_empty then s\<lparr>fw_done := DoneEnd\<rparr> else (case fw_q s of
     [] \<Rightarrow> (fw_use s)\<lparr>fw_fault := True, fw_done := DoneEnd\<rparr>
   | f # q \<Rightarrow> (fw_use s)\<lparr>fw_q := q, fw_done := DoneIsEmpty f\<rparr>))"

definition Done_isempty :: "nat \<Rightarrow> fw_state \<Rightarrow> fw_state" where
  "Done_isempty f s = (fw_use s)\<lparr>fw_done := (if fw_q s = [] then DoneFlagLast f else DoneSched f False)\<rparr>"

definition Done_flag_last :: "nat \<Rightarrow> fw_state \<Rightarrow> fw_state" where
  "Done_flag_last f s = (fw_use s)\<lparr>is_last_wait_completed := True, fw_done := DoneSched f True\<rparr>"

definition Done_schedule :: "nat \<Rightarrow> bool \<Rightarrow> fw_state \<Rightarrow> fw_state" where
  "Done_schedule f is_empty s = (fw_Schedule f s)\<lparr>fw_done := DoneLoop is_empty\<rparr>"

datatype fw_act = FwCallWait nat | FwCallDone | FwFiber nat | FwDoneStep | FwDestroy

fun fw_fiber :: "nat \<Rightarrow> fw_pc \<Rightarrow> fw_state \<Rightarrow> fw_state option" where
  "fw_fiber f FwLock s = TryEnqueue_lock f s"
| "fw_fiber f FwCheck s = Some (TryEnqueue_check f s)"
| "fw_fiber f FwPut s = Some (TryEnqueue_put f s)"
| "fw_fiber f FwUnlockParked s = Some (TryEnqueue_unlock f FwParked s)"
| "fw_fiber f FwUnlockGo s = Some (TryEnqueue_unlock f FwCount s)"
| "fw_fiber f FwCount s = Some (Reschedule_count f s)"
| "fw_fiber f FwSpin s = Reschedule_spin f s"
| "fw_fiber f FwSched s = Some (fw_Schedule f s)"
| "fw_fiber f FwReady s = Some (fw_go f FwDec s)"
| "fw_fiber f FwDec s = Some (WaitGroup_Wait_end f s)"
| "fw_fiber f _ s = None"

fun fw_donestep :: "done_pc \<Rightarrow> fw_state \<Rightarrow> fw_state option" where
  "fw_donestep DoneLock s = Done_lock s"
| "fw_donestep DoneEmpty s = Some (Done_empty s)"
| "fw_donestep (DoneUnlock b) s = Some (Done_unlock b s)"
| "fw_donestep DoneFlag s = Some (Done_flag s)"
| "fw_donestep (DoneLoop b) s = Some (Done_loop b s)"
| "fw_donestep (DoneIsEmpty f) s = Some (Done_isempty f s)"
| "fw_donestep (DoneFlagLast f) s = Some (Done_flag_last f s)"
| "fw_donestep (DoneSched f b) s = Some (Done_schedule f b s)"
| "fw_donestep _ s = None"

fun fw_step :: "nat \<Rightarrow> fw_act \<Rightarrow> fw_state \<Rightarrow> fw_state option" where
  "fw_step n (FwCallWait f) s = (if f < n \<and> fw_alive s \<and> fw_pc s f = FwIdle then Some (WaitGroup_Wait f s) else None)"
| "fw_step n FwCallDone s = (if fw_left s > 0 then Some (WaitGroup_Done s) else None)"
| "fw_step n (FwFiber f) s = (if f < n then fw_fiber f (fw_pc s f) s else None)"
| "fw_step n FwDoneStep s = fw_donestep (fw_done s) s"
| "fw_step n FwDestroy s = (if fw_alive s \<and> fw_returned s \<and> list_all (\<lambda>f. fw_pc s f = FwIdle) [0..<n]
     then Some (s\<lparr>fw_alive := False\<rparr>) else None)"

lemmas fw_ops = fw_use_def fw_go_def WaitGroup_Wait_def WaitGroup_Wait_end_def TryEnqueue_lock_def TryEnqueue_check_def
  TryEnqueue_put_def TryEnqueue_unlock_def Reschedule_count_def Reschedule_spin_def fw_Schedule_def WaitGroup_Done_def
  Done_lock_def Done_empty_def Done_unlock_def Done_flag_def Done_loop_def Done_isempty_def Done_flag_last_def Done_schedule_def

subsection \<open>The invariant\<close>

fun fw_holding :: "fw_pc \<Rightarrow> bool" where
  "fw_holding FwCheck = True" | "fw_holding FwPut = True" | "fw_holding FwUnlockParked = True"
| "fw_holding FwUnlockGo = True" | "fw_holding _ = False"

fun fw_late :: "fw_pc \<Rightarrow> bool" where
  "fw_late FwUnlockGo = True" | "fw_late FwCount = True" | "fw_late FwSpin = True" | "fw_late FwSched = True"
| "fw_late FwReady = True" | "fw_late FwDec = True" | "fw_late _ = False"

definition done_holding :: "done_pc \<Rightarrow> bool" where
  "done_holding p = (case p of DoneEmpty \<Rightarrow> True | DoneUnlock b \<Rightarrow> True | _ \<Rightarrow> False)"

fun done_taken :: "done_pc \<Rightarrow> nat list" where
  "done_taken (DoneIsEmpty f) = [f]" | "done_taken (DoneFlagLast f) = [f]" | "done_taken (DoneSched f b) = [f]"
| "done_taken _ = []"

fun done_empty :: "done_pc \<Rightarrow> nat list \<Rightarrow> bool" where
  "done_empty (DoneUnlock b) q = (b = (q = []))" | "done_empty DoneFlag q = (q = [])" | "done_empty (DoneLoop b) q = (b = (q = []))"
| "done_empty (DoneFlagLast f) q = (q = [])" | "done_empty (DoneSched f b) q = (b = (q = []))" | "done_empty DoneEnd q = (q = [])"
| "done_empty _ q = True"

definition done_flagged :: "done_pc \<Rightarrow> bool" where
  "done_flagged p = (case p of DoneSched f b \<Rightarrow> b | DoneLoop b \<Rightarrow> b | DoneEnd \<Rightarrow> True | _ \<Rightarrow> False)"

definition fw_queued :: "fw_pc \<Rightarrow> bool" where
  "fw_queued p = (p = FwParked \<or> p = FwUnlockParked)"

definition fw_inv :: "nat \<Rightarrow> nat \<Rightarrow> fw_state \<Rightarrow> bool" where
  "fw_inv k n s = (\<not> fw_fault s \<and>
     (\<forall>f. fw_mtx s = Some (Some f) \<longleftrightarrow> fw_holding (fw_pc s f)) \<and>
     (fw_mtx s = Some None \<longleftrightarrow> done_holding (fw_done s)) \<and>
     (done_calls_countdown s = of_nat (fw_left s) \<and> fw_left s \<le> k) \<and>
     (fw_left s = 0 \<longleftrightarrow> fw_done s \<noteq> DoneNone) \<and>
     done_empty (fw_done s) (fw_q s) \<and>
     (\<forall>f. f \<in> set (done_taken (fw_done s) @ fw_q s) \<longleftrightarrow> fw_queued (fw_pc s f)) \<and>
     distinct (done_taken (fw_done s) @ fw_q s) \<and>
     (\<forall>f. fw_pc s f = FwPut \<or> fw_pc s f = FwUnlockParked \<longrightarrow> fw_done s = DoneNone \<or> fw_done s = DoneLock) \<and>
     (\<forall>f. fw_late (fw_pc s f) \<longrightarrow> fw_left s = 0) \<and>
     (fw_returned s \<longrightarrow> fw_left s = 0) \<and>
     (is_last_wait_completed s \<longleftrightarrow> done_flagged (fw_done s)) \<and>
     (\<forall>f. fw_pc s f \<noteq> FwIdle \<longrightarrow> f < n))"

lemma fw_invI:
  assumes "\<not> fw_fault s"
    and "\<And>f. fw_mtx s = Some (Some f) \<longleftrightarrow> fw_holding (fw_pc s f)"
    and "fw_mtx s = Some None \<longleftrightarrow> done_holding (fw_done s)"
    and "done_calls_countdown s = of_nat (fw_left s)" and "fw_left s \<le> k"
    and "fw_left s = 0 \<longleftrightarrow> fw_done s \<noteq> DoneNone"
    and "done_empty (fw_done s) (fw_q s)"
    and "\<And>f. f \<in> set (done_taken (fw_done s) @ fw_q s) \<longleftrightarrow> fw_queued (fw_pc s f)"
    and "distinct (done_taken (fw_done s) @ fw_q s)"
    and "\<And>f. fw_pc s f = FwPut \<or> fw_pc s f = FwUnlockParked \<Longrightarrow> fw_done s = DoneNone \<or> fw_done s = DoneLock"
    and "\<And>f. fw_late (fw_pc s f) \<Longrightarrow> fw_left s = 0"
    and "fw_returned s \<Longrightarrow> fw_left s = 0"
    and "is_last_wait_completed s \<longleftrightarrow> done_flagged (fw_done s)"
    and "\<And>f. fw_pc s f \<noteq> FwIdle \<Longrightarrow> f < n"
  shows "fw_inv k n s"
  using assms unfolding fw_inv_def by blast

lemma fw_invD:
  assumes "fw_inv k n s"
  shows "\<not> fw_fault s"
    and "\<And>f. fw_mtx s = Some (Some f) \<longleftrightarrow> fw_holding (fw_pc s f)"
    and "fw_mtx s = Some None \<longleftrightarrow> done_holding (fw_done s)"
    and "done_calls_countdown s = of_nat (fw_left s)" and "fw_left s \<le> k"
    and "fw_left s = 0 \<longleftrightarrow> fw_done s \<noteq> DoneNone"
    and "done_empty (fw_done s) (fw_q s)"
    and "\<And>f. f \<in> set (done_taken (fw_done s) @ fw_q s) \<longleftrightarrow> fw_queued (fw_pc s f)"
    and "distinct (done_taken (fw_done s) @ fw_q s)"
    and "\<And>f. fw_pc s f = FwPut \<or> fw_pc s f = FwUnlockParked \<Longrightarrow> fw_done s = DoneNone \<or> fw_done s = DoneLock"
    and "\<And>f. fw_late (fw_pc s f) \<Longrightarrow> fw_left s = 0"
    and "fw_returned s \<Longrightarrow> fw_left s = 0"
    and "is_last_wait_completed s \<longleftrightarrow> done_flagged (fw_done s)"
    and "\<And>f. fw_pc s f \<noteq> FwIdle \<Longrightarrow> f < n"
  using assms unfolding fw_inv_def by blast+

lemma fw_of_nat_0: "m < 2 ^ 32 \<Longrightarrow> (of_nat m :: u32) = 0 \<longleftrightarrow> m = 0" "m < 2 ^ 32 \<Longrightarrow> (of_nat m :: u32) = 1 \<longleftrightarrow> m = 1"
  using of_nat_u32_inj [of m 0] of_nat_u32_inj [of m 1] by simp_all

text \<open>The moves of a fiber that is past TryEnqueue.\<close>

lemma fw_move_late:
  assumes i: "fw_inv k n s" and "f < n" and "fw_late (fw_pc s f)" and "\<not> fw_holding (fw_pc s f)"
    and "p = FwIdle \<or> fw_late p" and "\<not> fw_holding p"
  shows "fw_inv k n (fw_go f p (s\<lparr>fw_uaf := u, suspended_waits_counter := c, fw_returned := r\<rparr>))"
proof -
  note D = fw_invD [OF i]
  have q: "\<not> fw_queued p" "\<not> fw_queued (fw_pc s f)" "p \<noteq> FwPut" "p \<noteq> FwUnlockParked"
    using assms(3,5,6) by (auto simp: fw_queued_def)
  have l: "fw_left s = 0" using D(11) assms(3) by blast
  show ?thesis
    by (rule fw_invI) (use D assms(2,4,6) q l in \<open>auto simp: fw_go_def split: if_splits\<close>)
qed

lemma fw_fiber_step:
  assumes i: "fw_inv k n s" and k: "k < 2 ^ 32" and "f < n" and st: "fw_fiber f (fw_pc s f) s = Some s'"
  shows "fw_inv k n s'"
proof -
  note D = fw_invD [OF i]
  have lk: "fw_holding (fw_pc s f) \<Longrightarrow> \<not> done_holding (fw_done s)" using D(2) [of f] D(3) by auto
  have un: "fw_mtx s = Some (Some f) \<Longrightarrow> g \<noteq> f \<Longrightarrow> \<not> fw_holding (fw_pc s g)" for g using D(2) [of g] by auto
  have none: "fw_mtx s = None \<Longrightarrow> \<not> fw_holding (fw_pc s g) \<and> \<not> done_holding (fw_done s)" for g
    using D(2) [of g] D(3) by auto
  have z: "done_calls_countdown s = 0 \<longleftrightarrow> fw_left s = 0" using D(4,5) k fw_of_nat_0(1) [of "fw_left s"] by simp
  show ?thesis
  proof (cases "fw_pc s f")
    case FwLock
    with st have l: "fw_mtx s = None" and s': "s' = fw_go f FwCheck ((fw_use s)\<lparr>fw_mtx := Some (Some f)\<rparr>)"
      by (auto simp: TryEnqueue_lock_def split: if_splits)
    show ?thesis unfolding s'
      by (rule fw_invI) (use D FwLock none [OF l] \<open>f < n\<close> in \<open>auto simp: fw_ops fw_queued_def split: if_splits\<close>)
  next
    case FwCheck
    with st have s': "s' = fw_go f (if fw_left s \<noteq> 0 then FwPut else FwUnlockGo) (fw_use s)" by (simp add: TryEnqueue_check_def z)
    show ?thesis unfolding s'
      by (rule fw_invI) (use D FwCheck \<open>f < n\<close> in \<open>auto simp: fw_ops fw_queued_def split: if_splits\<close>)
  next
    case FwPut
    then have e: "done_taken (fw_done s) = []" "\<And>q. done_empty (fw_done s) q" using D(10) [of f] by auto
    from FwPut st have s': "s' = fw_go f FwUnlockParked ((fw_use s)\<lparr>fw_q := fw_q s @ [f]\<rparr>)"
      by (simp add: TryEnqueue_put_def)
    have fq: "f \<notin> set (fw_q s)" using D(8) [of f] FwPut by (simp add: fw_queued_def)
    show ?thesis unfolding s'
      by (rule fw_invI) (use D FwPut \<open>f < n\<close> e fq D(10) [of f] in \<open>auto simp: fw_ops fw_queued_def split: if_splits\<close>)
  next
    case FwUnlockParked
    then have l: "fw_mtx s = Some (Some f)" using D(2) [of f] by simp
    from FwUnlockParked st have s': "s' = fw_go f FwParked ((fw_use s)\<lparr>fw_mtx := None\<rparr>)"
      by (simp add: TryEnqueue_unlock_def)
    show ?thesis unfolding s'
      by (rule fw_invI) (use D FwUnlockParked \<open>f < n\<close> l un [OF l] lk in \<open>auto simp: fw_ops fw_queued_def split: if_splits\<close>)
  next
    case FwUnlockGo
    then have l: "fw_mtx s = Some (Some f)" using D(2) [of f] by simp
    from FwUnlockGo st have s': "s' = fw_go f FwCount ((fw_use s)\<lparr>fw_mtx := None\<rparr>)"
      by (simp add: TryEnqueue_unlock_def)
    show ?thesis unfolding s'
      by (rule fw_invI) (use D FwUnlockGo \<open>f < n\<close> l un [OF l] lk D(11) [of f] in \<open>auto simp: fw_ops fw_queued_def split: if_splits\<close>)
  next
    case FwCount
    then show ?thesis using st fw_move_late [OF i \<open>f < n\<close>, of _ "fw_returned s" "suspended_waits_counter s"]
      by (auto simp: Reschedule_count_def fw_use_def)
  next
    case FwSpin
    then show ?thesis using st fw_move_late [OF i \<open>f < n\<close>, of FwSched "fw_returned s" "suspended_waits_counter s"]
      by (auto simp: Reschedule_spin_def fw_use_def split: if_splits)
  next
    case FwSched
    then show ?thesis using st fw_move_late [OF i \<open>f < n\<close>, of FwReady "fw_returned s" "suspended_waits_counter s" "fw_uaf s"]
      by (auto simp: fw_Schedule_def)
  next
    case FwReady
    then show ?thesis using st fw_move_late [OF i \<open>f < n\<close>, of FwDec "fw_returned s" "suspended_waits_counter s" "fw_uaf s"]
      by auto
  next
    case FwDec
    then show ?thesis using st fw_move_late [OF i \<open>f < n\<close>, of FwIdle]
      by (auto simp: WaitGroup_Wait_end_def fw_use_def)
  qed (use st in auto)
qed

lemma fw_done_step:
  assumes i: "fw_inv k n s" and st: "fw_donestep (fw_done s) s = Some s'"
  shows "fw_inv k n s'"
proof -
  note D = fw_invD [OF i]
  note defs = fw_ops done_holding_def done_flagged_def
  have hold: "done_holding (fw_done s) \<Longrightarrow> \<not> fw_holding (fw_pc s g)" for g using D(2) [of g] D(3) by auto
  show ?thesis
  proof (cases "fw_done s")
    case DoneLock
    with st have l: "fw_mtx s = None" and s': "s' = (fw_use s)\<lparr>fw_mtx := Some None, fw_done := DoneEmpty\<rparr>"
      by (auto simp: Done_lock_def split: if_splits)
    have h: "\<not> fw_holding (fw_pc s g)" for g using D(2) [of g] l by auto
    then have np: "fw_pc s g \<noteq> FwPut" "fw_pc s g \<noteq> FwUnlockParked" for g by (metis fw_holding.simps(2), metis fw_holding.simps(3))
    show ?thesis unfolding s'
      by (rule fw_invI) (use D DoneLock l h np in \<open>auto simp: defs\<close>)
  next
    case DoneEmpty
    with st have s': "s' = (fw_use s)\<lparr>fw_done := DoneUnlock (fw_q s = [])\<rparr>" by (simp add: Done_empty_def)
    show ?thesis unfolding s' by (rule fw_invI) (use D DoneEmpty in \<open>auto simp: defs\<close>)
  next
    case (DoneUnlock b)
    with st have s': "s' = (fw_use s)\<lparr>fw_mtx := None, fw_done := (if b then DoneFlag else DoneLoop b)\<rparr>" by (simp add: Done_unlock_def)
    have h: "\<not> fw_holding (fw_pc s g)" for g using hold DoneUnlock by (simp add: done_holding_def)
    then have np: "fw_pc s g \<noteq> FwPut" "fw_pc s g \<noteq> FwUnlockParked" for g by (metis fw_holding.simps(2), metis fw_holding.simps(3))
    show ?thesis unfolding s'
      by (rule fw_invI) (use D DoneUnlock h np in \<open>auto simp: defs split: if_splits\<close>)
  next
    case DoneFlag
    with st have s': "s' = (fw_use s)\<lparr>is_last_wait_completed := True, fw_done := DoneEnd\<rparr>" by (simp add: Done_flag_def)
    show ?thesis unfolding s' by (rule fw_invI) (use D DoneFlag in \<open>auto simp: defs\<close>)
  next
    case (DoneLoop b)
    show ?thesis
    proof (cases b)
      case True
      with st DoneLoop have s': "s' = s\<lparr>fw_done := DoneEnd\<rparr>" by (simp add: Done_loop_def)
      show ?thesis unfolding s' by (rule fw_invI) (use D DoneLoop True in \<open>auto simp: defs\<close>)
    next
      case False
      with D(7) DoneLoop obtain g q where q: "fw_q s = g # q" by (cases "fw_q s") auto
      with st DoneLoop False have s': "s' = (fw_use s)\<lparr>fw_q := q, fw_done := DoneIsEmpty g\<rparr>" by (simp add: Done_loop_def)
      show ?thesis unfolding s' by (rule fw_invI) (use D DoneLoop q False in \<open>auto simp: defs\<close>)
    qed
  next
    case (DoneIsEmpty g)
    with st have s': "s' = (fw_use s)\<lparr>fw_done := (if fw_q s = [] then DoneFlagLast g else DoneSched g False)\<rparr>"
      by (simp add: Done_isempty_def)
    show ?thesis unfolding s' by (rule fw_invI) (use D DoneIsEmpty in \<open>auto simp: defs split: if_splits\<close>)
  next
    case (DoneFlagLast g)
    with st have s': "s' = (fw_use s)\<lparr>is_last_wait_completed := True, fw_done := DoneSched g True\<rparr>" by (simp add: Done_flag_last_def)
    show ?thesis unfolding s' by (rule fw_invI) (use D DoneFlagLast in \<open>auto simp: defs\<close>)
  next
    case (DoneSched g b)
    have "fw_queued (fw_pc s g)" using D(8) [of g] DoneSched by simp
    then have p: "fw_pc s g = FwParked" using D(10) [of g] DoneSched by (auto simp: fw_queued_def)
    with st DoneSched have s': "s' = fw_go g FwReady s\<lparr>fw_done := DoneLoop b\<rparr>" by (simp add: Done_schedule_def fw_Schedule_def)
    have gn: "g \<notin> set (fw_q s)" using D(9) DoneSched by simp
    have q: "h \<in> set (fw_q s) \<longleftrightarrow> h \<noteq> g \<and> fw_queued (fw_pc s h)" for h using D(8) [of h] DoneSched gn by auto
    show ?thesis unfolding s'
      by (rule fw_invI) (use D DoneSched p gn q in \<open>auto simp: defs fw_queued_def split: if_splits\<close>)
  qed (use st in auto)
qed

lemma fw_inv_step:
  assumes i: "fw_inv k n s" and k: "k < 2 ^ 32" and st: "fw_step n a s = Some s'"
  shows "fw_inv k n s'"
proof (cases a)
  case (FwCallWait f)
  then have "f < n" "fw_pc s f = FwIdle"
    and s': "s' = fw_go f FwLock ((fw_use s)\<lparr>suspended_waits_counter := suspended_waits_counter s + 1\<rparr>)"
    using st by (auto simp: WaitGroup_Wait_def split: if_splits)
  then show ?thesis unfolding s'
    by (intro fw_invI) (use fw_invD [OF i] in \<open>auto simp: fw_ops fw_queued_def split: if_splits\<close>)
next
  case FwCallDone
  note D = fw_invD [OF i]
  from FwCallDone st have l: "fw_left s > 0" and s': "s' = WaitGroup_Done s" by (auto split: if_splits)
  have dn: "fw_done s = DoneNone" using D(6) l by auto
  have o: "done_calls_countdown s = 1 \<longleftrightarrow> fw_left s = 1" using D(4,5) k fw_of_nat_0(2) [of "fw_left s"] by simp
  have c: "done_calls_countdown s - 1 = of_nat (fw_left s - 1)" using D(4) l by (simp add: of_nat_diff)
  have nl: "\<not> fw_late (fw_pc s f)" "\<not> fw_returned s" for f using D(11,12) l by auto
  show ?thesis unfolding s' WaitGroup_Done_def Let_def
    by (rule fw_invI) (use D dn o l nl c in \<open>auto simp: fw_use_def done_holding_def done_flagged_def\<close>)
next
  case (FwFiber f)
  then show ?thesis using st fw_fiber_step [OF i k, of f] by (auto split: if_splits)
next
  case FwDoneStep
  then show ?thesis using st fw_done_step [OF i] by simp
next
  case FwDestroy
  then have s': "s' = s\<lparr>fw_alive := False\<rparr>" using st by (auto split: if_splits)
  show ?thesis unfolding s' by (rule fw_invI) (use fw_invD [OF i] in auto)
qed

lemma fw_start_inv: "0 < k \<Longrightarrow> k < 2 ^ 32 \<Longrightarrow> fw_inv k n (fw_start k)"
  by (simp add: fw_inv_def fw_start_def WaitGroup_Add_def FiberWaitGroup_construct_def fw_queued_def done_holding_def
      done_flagged_def unsigned_of_nat take_bit_nat_eq_self)

definition fw_bound_inv :: "nat \<Rightarrow> nat \<Rightarrow> fw_state \<Rightarrow> bool" where
  "fw_bound_inv k n s = (0 < k \<and> k < 2 ^ 32 \<longrightarrow> fw_inv k n s)"

interpretation fiberwg: inv_system "fw_start k" "fw_step n" "fw_bound_inv k n" for k n
  by unfold_locales (auto simp: fw_bound_inv_def intro: fw_start_inv fw_inv_step)

subsection \<open>Properties\<close>

definition fw_quiet :: "nat \<Rightarrow> fw_state \<Rightarrow> bool" where
  "fw_quiet n s = (list_all (\<lambda>f. fw_step n (FwFiber f) s = None) [0..<n] \<and> fw_step n FwDoneStep s = None)"

lemma fw_quiet_idle:
  assumes i: "fw_inv k n s" and q: "fw_quiet n s" and z: "fw_left s = 0"
  shows "fw_pc s f = FwIdle"
proof (rule ccontr)
  assume r: "fw_pc s f \<noteq> FwIdle"
  note D = fw_invD [OF i]
  have st: "fw_fiber g (fw_pc s g) s = None" if "fw_pc s g \<noteq> FwIdle" for g
    using q D(14) [OF that] by (auto simp: fw_quiet_def list_all_iff)
  have "\<not> fw_holding (fw_pc s g)" for g
    using st [of g] by (cases "fw_pc s g") auto
  then have nm: "fw_mtx s \<noteq> Some (Some g)" for g using D(2) by auto
  have ds: "fw_donestep (fw_done s) s = None" using q by (simp add: fw_quiet_def)
  have "\<not> done_holding (fw_done s)" using ds by (cases "fw_done s") (auto simp: done_holding_def)
  then have m: "fw_mtx s = None" using nm D(3) by (metis not_None_eq)
  have fd: "fw_done s = DoneEnd"
    using ds z D(6) m by (cases "fw_done s") (auto simp: Done_lock_def)
  have fl: "is_last_wait_completed s" using D(13) fd by (simp add: done_flagged_def)
  have "fw_pc s f \<noteq> FwParked" using D(7) D(8) [of f] fd by (auto simp: fw_queued_def)
  with r st [OF r] m fl show False
    by (cases "fw_pc s f") (auto simp: TryEnqueue_lock_def Reschedule_spin_def)
qed

lemma fw_run_inv: "0 < k \<Longrightarrow> k < 2 ^ 32 \<Longrightarrow> fw_inv k n (run (fw_step n) as (fw_start k))"
  using fiberwg.inv_run [of k n as] by (simp add: fw_bound_inv_def)

text \<open>C10: 
  With a count of 1 to 2^32 - 1: on every schedule Done never takes from an empty queue, no fiber is scheduled twice
  or while it is not suspended, a Wait returns only after the last Done call, and once all Done calls
  have been made and nothing can move, every fiber is back in user code.
\<close>

theorem fiber_wait_group_correct:
  assumes "0 < k" and "k < 2 ^ 32"
  shows "let s = run (fw_step n) as (fw_start k) in
    \<not> fw_fault s \<and> (fw_returned s \<longrightarrow> fw_left s = 0) \<and> (fw_left s = 0 \<and> fw_quiet n s \<longrightarrow> (\<forall>f. fw_pc s f = FwIdle))"
  using fw_run_inv [OF assms, of n as] fw_invD(1,12) fw_quiet_idle unfolding Let_def by blast

lemma fiber_wait_group_correct_witness:
  "let s = run (fw_step 2) [FwCallWait 0, FwFiber 0, FwFiber 0, FwCallDone, FwFiber 0, FwFiber 0, FwCallWait 1, FwDoneStep, FwDoneStep,
      FwDoneStep, FwFiber 1, FwFiber 1, FwFiber 1, FwFiber 1, FwFiber 1, FwDoneStep, FwDoneStep, FwDoneStep, FwDoneStep, FwDoneStep,
      FwFiber 0, FwFiber 0, FwFiber 1, FwFiber 1] (fw_start 1)
   in fw_left s = 0 \<and> fw_quiet 2 s \<and> fw_returned s \<and> \<not> fw_fault s \<and> fw_pc s 0 = FwIdle \<and> fw_pc s 1 = FwIdle"
proof -
  let ?as = "[FwCallWait 0, FwFiber 0, FwFiber 0, FwCallDone, FwFiber 0, FwFiber 0, FwCallWait 1, FwDoneStep, FwDoneStep,
      FwDoneStep, FwFiber 1, FwFiber 1, FwFiber 1, FwFiber 1, FwFiber 1, FwDoneStep, FwDoneStep, FwDoneStep, FwDoneStep, FwDoneStep,
      FwFiber 0, FwFiber 0, FwFiber 1, FwFiber 1]"
  define s where "s = run (fw_step 2) ?as (fw_start 1)"
  have p: "fw_left s = 0" "fw_quiet 2 s" "fw_returned s" unfolding s_def by code_simp+
  have "\<not> fw_fault s \<and> fw_pc s 0 = FwIdle \<and> fw_pc s 1 = FwIdle"
    using fiber_wait_group_correct [of 1 2 ?as] p unfolding Let_def s_def [symmetric] by simp
  with p show ?thesis unfolding Let_def s_def [symmetric] by blast
qed

text \<open>
  Two late waiters: both are counted when they look at \<open>suspended_waits_counter_\<close>, so neither waits for Done to finish,
  both Waits return, the group is destroyed, and Done locks its mutex.
\<close>

theorem fiber_wait_group_use_after_free:
  "\<exists>as. fw_uaf (run (fw_step 2) as (fw_start 1))"
  by (rule exI [of _ "[FwCallDone, FwCallWait 0, FwCallWait 1, FwFiber 0, FwFiber 0, FwFiber 0, FwFiber 0, FwFiber 1, FwFiber 1, FwFiber 1,
      FwFiber 1, FwFiber 0, FwFiber 0, FwFiber 0, FwFiber 1, FwFiber 1, FwFiber 1, FwDestroy, FwDoneStep]"]) code_simp

text \<open>A single waiter: the group outlives every access to it.\<close>

definition fw_one :: "fw_state \<Rightarrow> bool" where
  "fw_one s = (\<not> fw_uaf s \<and> (\<not> fw_alive s \<longrightarrow> fw_returned s \<and> fw_pc s 0 = FwIdle) \<and>
     suspended_waits_counter s = of_bool (fw_pc s 0 \<noteq> FwIdle) \<and>
     (fw_pc s 0 = FwSched \<or> fw_pc s 0 = FwReady \<or> fw_pc s 0 = FwDec \<or> fw_returned s \<longrightarrow> is_last_wait_completed s))"

lemma fw_one_frame:
  assumes "fw_one s" and "fw_uaf s' = fw_uaf s" and "fw_alive s' = fw_alive s" and "fw_pc s' = fw_pc s"
    and "fw_returned s' = fw_returned s" and "suspended_waits_counter s' = suspended_waits_counter s"
    and "is_last_wait_completed s \<Longrightarrow> is_last_wait_completed s'"
  shows "fw_one s'"
  using assms unfolding fw_one_def by simp

lemma fw_one_step:
  assumes i: "fw_inv k 1 s" and o: "fw_one s" and st: "fw_step 1 a s = Some s'"
  shows "fw_one s'"
proof -
  note D = fw_invD [OF i]
  have al: "fw_alive s" if "fw_pc s 0 \<noteq> FwIdle \<or> \<not> done_flagged (fw_done s)"
    using that o D(13) unfolding fw_one_def by blast
  have l0: "fw_returned s \<Longrightarrow> fw_left s = 0" by (rule D(12))
  show ?thesis
  proof (cases a)
    case (FwCallWait f)
    then show ?thesis using st o by (auto simp: fw_one_def fw_ops split: if_splits)
  next
    case FwCallDone
    then have l: "fw_left s > 0" and s': "s' = WaitGroup_Done s" using st by (auto split: if_splits)
    have "\<not> done_flagged (fw_done s)" using D(6) l by (auto simp: done_flagged_def)
    with s' o al show ?thesis by (auto simp: fw_one_def fw_ops Let_def)
  next
    case (FwFiber f)
    then have f: "f = 0" and st': "fw_fiber 0 (fw_pc s 0) s = Some s'" using st by (auto split: if_splits)
    have idle: "fw_pc s 0 \<noteq> FwIdle" using st' by auto
    then have al: "fw_alive s" using al by blast
    have c: "suspended_waits_counter s = 1" "\<not> fw_uaf s"
      and fl: "fw_pc s 0 \<in> {FwSched, FwReady, FwDec} \<Longrightarrow> is_last_wait_completed s" "fw_returned s \<Longrightarrow> is_last_wait_completed s"
      using o idle by (auto simp: fw_one_def)
    show ?thesis
    proof (cases "fw_pc s 0")
      case FwDec
      with st' al c fl show ?thesis by (auto simp: fw_one_def fw_ops)
    next
      case FwSched
      with st' al c fl show ?thesis by (auto simp: fw_one_def fw_ops)
    next
      case FwReady
      with st' al c fl show ?thesis by (auto simp: fw_one_def fw_ops)
    next
      case FwSpin
      with st' al c fl show ?thesis by (auto simp: fw_one_def fw_ops split: if_splits)
    qed (use st' al c fl idle in \<open>auto simp: fw_one_def fw_ops split: if_splits\<close>)
  next
    case FwDoneStep
    have q: "g = 0" if "g \<in> set (done_taken (fw_done s) @ fw_q s)" for g
      using that D(8) [of g] D(14) [of g] by (auto simp: fw_queued_def)
    show ?thesis
    proof (cases "fw_done s")
      case (DoneSched g b)
      then have g: "g = 0" "fw_queued (fw_pc s 0)" using q D(8) [of g] by auto
      then have p: "fw_pc s 0 = FwParked" using D(10) [of 0] DoneSched by (auto simp: fw_queued_def)
      have "fw_q s = []" using q DoneSched D(9) g by (cases "fw_q s") auto
      then have "is_last_wait_completed s" using D(7) D(13) DoneSched by (simp add: done_flagged_def)
      with FwDoneStep st DoneSched g p o show ?thesis by (auto simp: fw_one_def Done_schedule_def fw_Schedule_def fw_go_def)
    next
      case (DoneLoop b)
      show ?thesis
      proof (cases b)
        case True
        with DoneLoop FwDoneStep st have "s' = s\<lparr>fw_done := DoneEnd\<rparr>" by (simp add: Done_loop_def)
        with o show ?thesis by (simp add: fw_one_def)
      next
        case False
        then have u: "fw_use s = s" using al DoneLoop by (cases s) (simp add: done_flagged_def fw_use_def)
        have "s' = Done_loop False s" using DoneLoop FwDoneStep st False by simp
        also have "\<dots> = (case fw_q s of [] \<Rightarrow> s\<lparr>fw_fault := True, fw_done := DoneEnd\<rparr>
            | f # q \<Rightarrow> s\<lparr>fw_q := q, fw_done := DoneIsEmpty f\<rparr>)" by (simp add: Done_loop_def u split: list.split)
        finally show ?thesis using o by (cases "fw_q s") (simp_all add: fw_one_def)
      qed
    next
      case (DoneUnlock b)
      then have "fw_alive s" using al by (simp add: done_flagged_def)
      with FwDoneStep st DoneUnlock show ?thesis by (intro fw_one_frame [OF o]) (auto simp: Done_unlock_def fw_use_def split: if_splits)
    next
      case DoneLock
      then have "fw_alive s" using al by (simp add: done_flagged_def)
      with FwDoneStep st DoneLock show ?thesis by (intro fw_one_frame [OF o]) (auto simp: Done_lock_def fw_use_def split: if_splits)
    next
      case DoneEmpty
      then have "fw_alive s" using al by (simp add: done_flagged_def)
      with FwDoneStep st DoneEmpty show ?thesis by (intro fw_one_frame [OF o]) (auto simp: Done_empty_def fw_use_def split: if_splits)
    next
      case DoneFlag
      then have "fw_alive s" using al by (simp add: done_flagged_def)
      with FwDoneStep st DoneFlag show ?thesis by (intro fw_one_frame [OF o]) (auto simp: Done_flag_def fw_use_def split: if_splits)
    next
      case (DoneIsEmpty g)
      then have "fw_alive s" using al by (simp add: done_flagged_def)
      with FwDoneStep st DoneIsEmpty show ?thesis by (intro fw_one_frame [OF o]) (auto simp: Done_isempty_def fw_use_def split: if_splits)
    next
      case (DoneFlagLast g)
      then have "fw_alive s" using al by (simp add: done_flagged_def)
      with FwDoneStep st DoneFlagLast show ?thesis by (intro fw_one_frame [OF o]) (auto simp: Done_flag_last_def fw_use_def split: if_splits)
    qed (use FwDoneStep st in auto)
  next
    case FwDestroy
    then show ?thesis using st o by (auto simp: fw_one_def split: if_splits)
  qed
qed

definition fw_one_inv :: "nat \<Rightarrow> fw_state \<Rightarrow> bool" where
  "fw_one_inv k s = (0 < k \<and> k < 2 ^ 32 \<longrightarrow> fw_inv k 1 s \<and> fw_one s)"

lemma fw_one_start: "fw_one (fw_start k)"
  by (simp add: fw_one_def fw_start_def WaitGroup_Add_def FiberWaitGroup_construct_def)

interpretation fiberwg_one: inv_system "fw_start k" "fw_step 1" "fw_one_inv k" for k
proof unfold_locales
  show "fw_one_inv k (fw_start k)" using fw_start_inv [of k 1] fw_one_start [of k] by (simp add: fw_one_inv_def)
  show "fw_one_inv k s \<Longrightarrow> fw_step 1 a s = Some s' \<Longrightarrow> fw_one_inv k s'" for s a s'
    unfolding fw_one_inv_def using fw_inv_step fw_one_step by blast
qed

text \<open>With a single waiter the group may be destroyed as soon as its Wait returns: nothing accesses it afterwards.\<close>

theorem fiber_wait_group_single_waiter:
  assumes "0 < k" and "k < 2 ^ 32"
  shows "\<not> fw_uaf (run (fw_step 1) as (fw_start k))"
  using fiberwg_one.inv_run [of k as] assms by (simp add: fw_one_inv_def fw_one_def)

text \<open>A count of 0: the waiter spins on a flag that only a Done call sets, so on no schedule does its Wait return.\<close>

definition fw_zero :: "fw_state \<Rightarrow> bool" where
  "fw_zero s = (fw_left s = 0 \<and> done_calls_countdown s = 0 \<and> fw_done s = DoneNone \<and> \<not> is_last_wait_completed s \<and> \<not> fw_returned s \<and>
     suspended_waits_counter s = of_bool (fw_pc s 0 \<noteq> FwIdle) \<and>
     fw_pc s 0 \<in> {FwIdle, FwLock, FwCheck, FwUnlockGo, FwCount, FwSpin})"

interpretation fiberwg_zero: inv_system "fw_start 0" "fw_step 1" fw_zero
proof unfold_locales
  show "fw_zero (fw_start 0)" by (simp add: fw_zero_def fw_start_def WaitGroup_Add_def FiberWaitGroup_construct_def)
  show "fw_zero s \<Longrightarrow> fw_step 1 a s = Some s' \<Longrightarrow> fw_zero s'" for s a s'
    by (cases a; cases "fw_pc s 0") (auto simp: fw_zero_def fw_ops split: if_splits)
qed

theorem fiber_wait_group_zero_hangs:
  "\<not> fw_returned (run (fw_step 1) as (fw_start 0))"
  using fiberwg_zero.inv_run [of as] by (simp add: fw_zero_def)

lemma fiber_wait_group_single_waiter_witness:
  "(0::nat) < 1 \<and> \<not> fw_uaf (run (fw_step 1) [FwCallWait 0, FwFiber 0, FwFiber 0, FwCallDone, FwFiber 0, FwFiber 0, FwDoneStep, FwDoneStep,
      FwDoneStep, FwDoneStep, FwDoneStep, FwDoneStep, FwDoneStep, FwFiber 0, FwFiber 0, FwDestroy, FwDoneStep] (fw_start 1))"
  by (rule conjI, simp, rule fiber_wait_group_single_waiter, simp_all)

end
