(* ===== verification/Coroutine.thy ===== *)
theory Coroutine
  imports Prelude
begin

section \<open>Stackful coroutines\<close>

text \<open>
  \<open>fibers/coro/coroutine.cpp\<close> and \<open>exe/coro/{core,simple}.cpp\<close> (the same file under \<open>fibers/mutex\<close>, \<open>fibers/yield\<close>
  and \<open>fibers/sleep_for\<close>). A coroutine has an execution context of its own and one of its caller; Resume and Suspend switch between
  them. User code is a list of instructions; a context is who executes (a coroutine, or the main code of a thread),
  the epilogue of a Resume call to finish first, if any, and the code that follows. Switching to a context uses it up.
  The versions differ in which coroutine a Suspend addresses: \<open>coroutine.cpp\<close> keeps
  a static stack of context nodes, shared by all threads; SimpleCoroutine keeps a thread-local pointer to the current
  coroutine, restored when Resume returns or throws.
\<close>

datatype instr = IEmit nat | ISuspend | IResume nat | IThrow nat

datatype coro_kind = CoStack | CoLocal

text \<open>Owner, epilogue (the coroutine resumed and the \<open>prev\<close> of SimpleCoroutine), code.\<close>

type_synonym context_ = "nat option \<times> (nat \<times> nat option) option \<times> instr list"

record co_state =
  co_ctx :: "nat \<Rightarrow> context_ option"           \<comment> \<open>\<open>context_\<close>, where it is saved\<close>
  co_caller :: "nat \<Rightarrow> context_ option"        \<comment> \<open>\<open>caller_context_\<close>\<close>
  completed :: "nat \<Rightarrow> bool"
  co_eptr :: "nat \<Rightarrow> nat option"
  context_stack :: "nat list"                 \<comment> \<open>the nodes, by the coroutine they point into; top first\<close>
  co_current :: "tid \<Rightarrow> nat option"            \<comment> \<open>the thread-local \<open>current\<close>\<close>
  co_run :: "tid \<Rightarrow> context_"                  \<comment> \<open>what each thread executes\<close>
  co_out :: "(tid \<times> (nat + nat)) list"        \<comment> \<open>what was emitted (Inl) and what escaped a thread's main code (Inr)\<close>
  co_fault :: bool
  co_active :: "tid \<Rightarrow> nat list"               \<comment> \<open>ghost: the resumed coroutines of a thread, innermost first\<close>

text \<open>The constructors: every context is set up to enter Run with the routine; thread \<open>t\<close> starts in \<open>main t\<close>.\<close>

definition co_start :: "(nat \<Rightarrow> instr list) \<Rightarrow> (tid \<Rightarrow> instr list) \<Rightarrow> co_state" where
  "co_start routine main = \<lparr>co_ctx = (\<lambda>c. Some (Some c, None, routine c)), co_caller = (\<lambda>_. None), completed = (\<lambda>_. False),
     co_eptr = (\<lambda>_. None), context_stack = [], co_current = (\<lambda>_. None), co_run = (\<lambda>t. (None, None, main t)), co_out = [],
     co_fault = False, co_active = (\<lambda>_. [])\<rparr>"

subsection \<open>The operations\<close>

definition co_jump :: "tid \<Rightarrow> context_ option \<Rightarrow> co_state \<Rightarrow> co_state" where
  "co_jump t target s = (case target of None \<Rightarrow> s\<lparr>co_fault := True\<rparr> | Some k \<Rightarrow> s\<lparr>co_run := (co_run s)(t := k)\<rparr>)"

text \<open>Resume up to the switch; the context must be saved, that is, \<open>c\<close> neither running nor completed.\<close>

definition Coroutine_Resume :: "coro_kind \<Rightarrow> tid \<Rightarrow> nat option \<Rightarrow> nat \<Rightarrow> instr list \<Rightarrow> co_state \<Rightarrow> co_state option" where
  "Coroutine_Resume kind t owner c r s = (case co_ctx s c of
     None \<Rightarrow> None
   | Some k \<Rightarrow> (let s1 = (case kind of CoStack \<Rightarrow> s\<lparr>context_stack := c # context_stack s\<rparr>
                                   | CoLocal \<Rightarrow> s\<lparr>co_current := (co_current s)(t := Some c)\<rparr>)
       in Some (s1\<lparr>co_caller := (co_caller s)(c := Some (owner, Some (c, co_current s t), r)), co_ctx := (co_ctx s)(c := None),
            co_run := (co_run s)(t := k), co_active := (co_active s)(t := c # co_active s t)\<rparr>)))"

text \<open>An exception leaves the code: Run catches it in a coroutine, and nothing does in a thread's main code.\<close>

definition co_raise :: "tid \<Rightarrow> nat option \<Rightarrow> nat \<Rightarrow> co_state \<Rightarrow> co_state" where
  "co_raise t owner e s = (case owner of
     Some c \<Rightarrow> s\<lparr>co_eptr := (co_eptr s)(c := Some e), co_run := (co_run s)(t := (owner, None, []))\<rparr>
   | None \<Rightarrow> s\<lparr>co_run := (co_run s)(t := (None, None, [])), co_out := co_out s @ [(t, Inr e)]\<rparr>)"

text \<open>Resume after the switch back: \<open>current\<close> is rolled back, and the exception of the routine is rethrown.\<close>

definition Resume_return :: "coro_kind \<Rightarrow> tid \<Rightarrow> nat option \<Rightarrow> nat \<Rightarrow> nat option \<Rightarrow> instr list \<Rightarrow> co_state \<Rightarrow> co_state" where
  "Resume_return kind t owner c prev r s =
     (let s1 = (case kind of CoStack \<Rightarrow> s | CoLocal \<Rightarrow> s\<lparr>co_current := (co_current s)(t := prev)\<rparr>)
      in case co_eptr s c of
        Some e \<Rightarrow> co_raise t owner e s1
      | None \<Rightarrow> s1\<lparr>co_run := (co_run s)(t := (owner, None, r))\<rparr>)"

text \<open>Suspend: the top node, or the current coroutine; without one it may not be called.\<close>

definition Coroutine_Suspend :: "coro_kind \<Rightarrow> tid \<Rightarrow> nat option \<Rightarrow> instr list \<Rightarrow> co_state \<Rightarrow> co_state option" where
  "Coroutine_Suspend kind t owner r s =
     (case (case kind of CoStack \<Rightarrow> (case context_stack s of [] \<Rightarrow> None | c # q \<Rightarrow> Some c) | CoLocal \<Rightarrow> co_current s t) of
        None \<Rightarrow> None
      | Some c \<Rightarrow> (let s1 = (case kind of CoStack \<Rightarrow> s\<lparr>context_stack := tl (context_stack s)\<rparr> | CoLocal \<Rightarrow> s)
          in Some (co_jump t (co_caller s c) (s1\<lparr>co_ctx := (co_ctx s)(c := Some (owner, None, r)),
               co_caller := (co_caller s)(c := None), co_active := (co_active s)(t := tl (co_active s t))\<rparr>))))"

text \<open>The end of Run: pop the node and leave for the caller's context.\<close>

definition Coroutine_exit :: "coro_kind \<Rightarrow> tid \<Rightarrow> nat \<Rightarrow> co_state \<Rightarrow> co_state" where
  "Coroutine_exit kind t c s =
     (let s1 = (case kind of CoStack \<Rightarrow> s\<lparr>context_stack := tl (context_stack s), co_fault := co_fault s \<or> context_stack s = []\<rparr>
                           | CoLocal \<Rightarrow> s)
      in co_jump t (co_caller s c) (s1\<lparr>completed := (completed s)(c := True), co_caller := (co_caller s)(c := None),
           co_active := (co_active s)(t := tl (co_active s t))\<rparr>))"

fun co_exec :: "coro_kind \<Rightarrow> tid \<Rightarrow> context_ \<Rightarrow> co_state \<Rightarrow> co_state option" where
  "co_exec kind t (owner, Some (c, prev), r) s = Some (Resume_return kind t owner c prev r s)"
| "co_exec kind t (None, None, []) s = None"
| "co_exec kind t (Some c, None, []) s = Some (Coroutine_exit kind t c s)"
| "co_exec kind t (owner, None, IEmit x # r) s =
     Some (s\<lparr>co_out := co_out s @ [(t, Inl x)], co_run := (co_run s)(t := (owner, None, r))\<rparr>)"
| "co_exec kind t (owner, None, ISuspend # r) s = Coroutine_Suspend kind t owner r s"
| "co_exec kind t (owner, None, IResume c # r) s = Coroutine_Resume kind t owner c r s"
| "co_exec kind t (owner, None, IThrow e # r) s = Some (co_raise t owner e s)"

definition co_step :: "coro_kind \<Rightarrow> nat \<Rightarrow> tid \<Rightarrow> co_state \<Rightarrow> co_state option" where
  "co_step kind n t s = (if t < n then co_exec kind t (co_run s t) s else None)"

subsection \<open>What coroutines mean: a call stack per thread\<close>

text \<open>A frame: owner, the coroutine whose Resume it called, code.\<close>

type_synonym frame = "nat option \<times> nat option \<times> instr list"

record call_stacks =
  cs_frames :: "tid \<Rightarrow> frame list"
  cs_rest :: "nat \<Rightarrow> instr list option"      \<comment> \<open>the code a suspended coroutine goes on with\<close>
  cs_done :: "nat \<Rightarrow> bool"
  cs_exn :: "nat \<Rightarrow> nat option"
  cs_out :: "(tid \<times> (nat + nat)) list"

definition cs_start :: "(nat \<Rightarrow> instr list) \<Rightarrow> (tid \<Rightarrow> instr list) \<Rightarrow> call_stacks" where
  "cs_start routine main = \<lparr>cs_frames = (\<lambda>t. [(None, None, main t)]), cs_rest = (\<lambda>c. Some (routine c)), cs_done = (\<lambda>_. False),
     cs_exn = (\<lambda>_. None), cs_out = []\<rparr>"

definition cs_set :: "tid \<Rightarrow> frame list \<Rightarrow> call_stacks \<Rightarrow> call_stacks" where
  "cs_set t fs s = s\<lparr>cs_frames := (cs_frames s)(t := fs)\<rparr>"

definition cs_raise :: "tid \<Rightarrow> nat option \<Rightarrow> nat \<Rightarrow> frame list \<Rightarrow> call_stacks \<Rightarrow> call_stacks" where
  "cs_raise t owner e fs s = cs_set t ((owner, None, []) # fs) (case owner of
     Some c \<Rightarrow> s\<lparr>cs_exn := (cs_exn s)(c := Some e)\<rparr> | None \<Rightarrow> s\<lparr>cs_out := cs_out s @ [(t, Inr e)]\<rparr>)"

fun cs_exec :: "tid \<Rightarrow> frame list \<Rightarrow> call_stacks \<Rightarrow> call_stacks option" where
  "cs_exec t [] s = None"
| "cs_exec t ((owner, Some c, r) # fs) s = Some (case cs_exn s c of
     Some e \<Rightarrow> cs_raise t owner e fs s | None \<Rightarrow> cs_set t ((owner, None, r) # fs) s)"
| "cs_exec t ((None, None, []) # fs) s = None"
| "cs_exec t ((Some c, None, []) # fs) s = Some (cs_set t fs (s\<lparr>cs_done := (cs_done s)(c := True)\<rparr>))"
| "cs_exec t ((owner, None, IEmit x # r) # fs) s = Some (cs_set t ((owner, None, r) # fs) (s\<lparr>cs_out := cs_out s @ [(t, Inl x)]\<rparr>))"
| "cs_exec t ((owner, None, ISuspend # r) # fs) s = (case owner of None \<Rightarrow> None
     | Some c \<Rightarrow> Some (cs_set t fs (s\<lparr>cs_rest := (cs_rest s)(c := Some r)\<rparr>)))"
| "cs_exec t ((owner, None, IResume c # r) # fs) s = (case cs_rest s c of None \<Rightarrow> None
     | Some r' \<Rightarrow> Some (cs_set t ((Some c, None, r') # (owner, Some c, r) # fs) (s\<lparr>cs_rest := (cs_rest s)(c := None)\<rparr>)))"
| "cs_exec t ((owner, None, IThrow e # r) # fs) s = Some (cs_raise t owner e fs s)"

definition cs_step :: "nat \<Rightarrow> tid \<Rightarrow> call_stacks \<Rightarrow> call_stacks option" where
  "cs_step n t s = (if t < n then cs_exec t (cs_frames s t) s else None)"

subsection \<open>The contexts form the call stacks\<close>

definition hdo :: "nat list \<Rightarrow> nat option" where
  "hdo l = (case l of [] \<Rightarrow> None | c # q \<Rightarrow> Some c)"

lemma hdo_simps [simp]: "hdo [] = None" "hdo (c # l) = Some c"
  by (simp_all add: hdo_def)

text \<open>The caller's context of an active coroutine is that of the next one, in its call of Resume.\<close>

fun chain :: "coro_kind \<Rightarrow> (nat \<Rightarrow> context_ option) \<Rightarrow> nat list \<Rightarrow> bool" where
  "chain kind f [] = True"
| "chain kind f (c # l) = ((\<exists>prev r. f c = Some (hdo l, Some (c, prev), r) \<and> (kind = CoLocal \<longrightarrow> prev = hdo l)) \<and> chain kind f l)"

definition thread_ok :: "coro_kind \<Rightarrow> tid \<Rightarrow> co_state \<Rightarrow> bool" where
  "thread_ok kind t s = (let l = co_active s t; (owner, ep, r) = co_run s t in
     owner = hdo l \<and> chain kind (co_caller s) l \<and> distinct l \<and>
     (case ep of None \<Rightarrow> True | Some (c, prev) \<Rightarrow> kind = CoLocal \<longrightarrow> prev = hdo l) \<and>
     (kind = CoLocal \<longrightarrow> co_current s t = (case ep of None \<Rightarrow> hdo l | Some (c, prev) \<Rightarrow> Some c)))"

definition co_inv :: "coro_kind \<Rightarrow> nat \<Rightarrow> co_state \<Rightarrow> bool" where
  "co_inv kind n s = (\<not> co_fault s \<and> (\<forall>t. thread_ok kind t s) \<and>
     (\<forall>t u c. c \<in> set (co_active s t) \<and> c \<in> set (co_active s u) \<longrightarrow> t = u) \<and>
     (\<forall>c k. co_ctx s c = Some k \<longrightarrow> (\<exists>r. k = (Some c, None, r)) \<and> (\<forall>t. c \<notin> set (co_active s t))) \<and>
     (kind = CoStack \<longrightarrow> n = 1 \<and> context_stack s = co_active s 0))"

lemma co_invI:
  assumes "\<not> co_fault s" and "\<And>t. thread_ok kind t s"
    and "\<And>t u c. c \<in> set (co_active s t) \<Longrightarrow> c \<in> set (co_active s u) \<Longrightarrow> t = u"
    and "\<And>c k. co_ctx s c = Some k \<Longrightarrow> (\<exists>r. k = (Some c, None, r)) \<and> (\<forall>t. c \<notin> set (co_active s t))"
    and "kind = CoStack \<Longrightarrow> n = 1 \<and> context_stack s = co_active s 0"
  shows "co_inv kind n s"
  using assms unfolding co_inv_def by blast

lemma co_invD:
  assumes "co_inv kind n s"
  shows "\<not> co_fault s" and "\<And>t. thread_ok kind t s"
    and "\<And>t u c. c \<in> set (co_active s t) \<Longrightarrow> c \<in> set (co_active s u) \<Longrightarrow> t = u"
    and "\<And>c k. co_ctx s c = Some k \<Longrightarrow> (\<exists>r. k = (Some c, None, r)) \<and> (\<forall>t. c \<notin> set (co_active s t))"
    and "kind = CoStack \<Longrightarrow> n = 1 \<and> context_stack s = co_active s 0"
  using assms unfolding co_inv_def by blast+

lemma chain_cong: "(\<And>c. c \<in> set l \<Longrightarrow> f c = g c) \<Longrightarrow> chain kind f l = chain kind g l"
  by (induction l) auto

definition frame_of :: "context_ \<Rightarrow> frame" where
  "frame_of k = (case k of (owner, ep, r) \<Rightarrow> (owner, map_option fst ep, r))"

definition co_abs :: "co_state \<Rightarrow> call_stacks" where
  "co_abs s = \<lparr>cs_frames = (\<lambda>t. frame_of (co_run s t) # map (\<lambda>c. frame_of (the (co_caller s c))) (co_active s t)),
     cs_rest = (\<lambda>c. map_option (\<lambda>k. snd (snd k)) (co_ctx s c)), cs_done = completed s, cs_exn = co_eptr s, cs_out = co_out s\<rparr>"

lemma frame_of_simp [simp]: "frame_of (owner, ep, r) = (owner, map_option fst ep, r)"
  by (simp add: frame_of_def)

text \<open>The other threads do not notice a step that leaves their coroutines, contexts and code alone.\<close>

lemma thread_ok_cong:
  assumes "thread_ok kind u s" and "co_active s' u = co_active s u" and "co_run s' u = co_run s u"
    and "co_current s' u = co_current s u" and "\<And>c. c \<in> set (co_active s u) \<Longrightarrow> co_caller s' c = co_caller s c"
  shows "thread_ok kind u s'"
  using assms chain_cong [of "co_active s u" "co_caller s'" "co_caller s" kind]
  by (auto simp: thread_ok_def Let_def split: prod.splits)

text \<open>Where the step leads, for a thread whose owner is what the active coroutines say.\<close>

lemma suspend_target:
  assumes "co_inv kind n s" and "t < n" and "co_run s t = (owner, None, code)"
  shows "(case kind of CoStack \<Rightarrow> (case context_stack s of [] \<Rightarrow> None | c # q \<Rightarrow> Some c) | CoLocal \<Rightarrow> co_current s t) = owner"
    and "owner = hdo (co_active s t)"
proof -
  note D = co_invD [OF assms(1)]
  have ok: "owner = hdo (co_active s t)" "kind = CoLocal \<Longrightarrow> co_current s t = owner"
    using D(2) [of t] assms(3) by (auto simp: thread_ok_def Let_def)
  show "owner = hdo (co_active s t)" by (rule ok(1))
  show "(case kind of CoStack \<Rightarrow> (case context_stack s of [] \<Rightarrow> None | c # q \<Rightarrow> Some c) | CoLocal \<Rightarrow> co_current s t) = owner"
    using ok D(5) assms(2) by (cases kind) (auto simp: hdo_def)
qed




lemma co_ctx_free: "co_inv kind n s \<Longrightarrow> co_ctx s c = Some k \<Longrightarrow> c \<notin> set (co_active s u)"
  unfolding co_inv_def by blast

text \<open>A step of thread \<open>t\<close> touches its own coroutines and contexts, and those it takes over or gives up.\<close>

lemma co_step_frame:
  assumes inv: "co_inv kind n s" and "\<not> co_fault s'" and "thread_ok kind t s'"
    and other: "\<And>u. u \<noteq> t \<Longrightarrow> co_run s' u = co_run s u \<and> co_active s' u = co_active s u \<and> co_current s' u = co_current s u"
    and caller: "\<And>u c. u \<noteq> t \<Longrightarrow> c \<in> set (co_active s u) \<Longrightarrow> co_caller s' c = co_caller s c"
    and act: "\<And>c. c \<in> set (co_active s' t) \<Longrightarrow> c \<in> set (co_active s t) \<or> co_ctx s c \<noteq> None"
    and ctx: "\<And>c k. co_ctx s' c = Some k \<Longrightarrow> c \<notin> set (co_active s' t) \<and>
      (co_ctx s c = Some k \<or> (\<exists>r. k = (Some c, None, r)) \<and> c \<in> set (co_active s t))"
    and stack: "kind = CoStack \<Longrightarrow> context_stack s' = co_active s' 0"
  shows "co_inv kind n s' \<and> (\<forall>u. u \<noteq> t \<longrightarrow> cs_frames (co_abs s') u = cs_frames (co_abs s) u)"
proof (rule conjI)
  note D = co_invD [OF inv]
  have own: "c \<notin> set (co_active s u)" if "u \<noteq> t" "c \<in> set (co_active s' t)" for u c
    using act [OF that(2)] D(3) [of c t u] D(4) [of c] that(1) by auto
  show "co_inv kind n s'"
  proof (rule co_invI)
    show "thread_ok kind u s'" for u
    proof (cases "u = t")
      case False
      then show ?thesis using thread_ok_cong [OF D(2) [of u], of s'] other [OF False] caller [OF False] by blast
    qed (simp add: assms(3))
    show "v = u" if "c \<in> set (co_active s' v)" and "c \<in> set (co_active s' u)" for v u c
      using that own [of u c] own [of v c] other [of u] other [of v] D(3) [of c v u] by (cases "v = t"; cases "u = t") auto
    show "(\<exists>r. k = (Some c, None, r)) \<and> (\<forall>u. c \<notin> set (co_active s' u))" if "co_ctx s' c = Some k" for c k
    proof
      show "\<exists>r. k = (Some c, None, r)" using ctx [OF that] D(4) [of c k] by blast
      show "\<forall>u. c \<notin> set (co_active s' u)"
      proof
        show "c \<notin> set (co_active s' u)" for u
          using ctx [OF that] D(4) [of c k] D(3) [of c t u] other [of u] by (cases "u = t") auto
      qed
    qed
  qed (use assms(2) stack D(5) in simp_all)
  show "\<forall>u. u \<noteq> t \<longrightarrow> cs_frames (co_abs s') u = cs_frames (co_abs s) u"
    using other caller by (auto simp: co_abs_def)
qed

text \<open>What the simulation has to give for one step.\<close>

definition co_sim :: "coro_kind \<Rightarrow> nat \<Rightarrow> co_state option \<Rightarrow> call_stacks option \<Rightarrow> bool" where
  "co_sim kind n p q = (case p of None \<Rightarrow> q = None | Some s' \<Rightarrow> co_inv kind n s' \<and> q = Some (co_abs s'))"

lemma co_absI:
  assumes "\<And>u. u \<noteq> t \<Longrightarrow> cs_frames (co_abs s') u = cs_frames q u" and "cs_frames (co_abs s') t = cs_frames q t"
    and "cs_rest q = (\<lambda>c. map_option (\<lambda>k. snd (snd k)) (co_ctx s' c))" and "cs_done q = completed s'"
    and "cs_exn q = co_eptr s'" and "cs_out q = co_out s'"
  shows "q = co_abs s'"
proof -
  have "cs_frames q = cs_frames (co_abs s')" using assms(1, 2) by (metis ext)
  then show ?thesis using assms(3-) by (cases q) (simp add: co_abs_def)
qed

lemma co_resume_sim:
  assumes inv: "co_inv kind n s" and "t < n" and run: "co_run s t = (owner, None, IResume c # r)"
  shows "co_sim kind n (Coroutine_Resume kind t owner c r s) (cs_exec t (cs_frames (co_abs s) t) (co_abs s))"
proof (cases "co_ctx s c")
  case None
  then show ?thesis using run by (simp add: co_sim_def Coroutine_Resume_def co_abs_def)
next
  case (Some k)
  note D = co_invD [OF inv]
  note T = D(2) [of t, unfolded thread_ok_def Let_def run, simplified]
  obtain r' where k: "k = (Some c, None, r')" and free: "\<And>u. c \<notin> set (co_active s u)" using D(4) [OF Some] by blast
  have cur: "kind = CoLocal \<Longrightarrow> co_current s t = owner" using T by blast
  define s' where "s' = the (Coroutine_Resume kind t owner c r s)"
  have s'_eq: "Coroutine_Resume kind t owner c r s = Some s'"
    using Some by (simp add: s'_def Coroutine_Resume_def Let_def)
  have ch: "chain kind ((co_caller s)(c := x)) (co_active s t) = chain kind (co_caller s) (co_active s t)" for x
    by (rule chain_cong) (use free in auto)
  have s': "co_run s' = (co_run s)(t := k)" "co_active s' = (co_active s)(t := c # co_active s t)"
    "co_caller s' = (co_caller s)(c := Some (owner, Some (c, co_current s t), r))" "co_ctx s' = (co_ctx s)(c := None)"
    "co_fault s' = co_fault s" "completed s' = completed s" "co_eptr s' = co_eptr s" "co_out s' = co_out s"
    "context_stack s' = (if kind = CoStack then c # context_stack s else context_stack s)"
    "co_current s' = (if kind = CoStack then co_current s else (co_current s)(t := Some c))"
    using Some by (simp_all add: s'_def Coroutine_Resume_def Let_def split: coro_kind.splits)
  have ok: "thread_ok kind t s'"
    using T free [of t] cur k ch by (cases kind) (auto simp: thread_ok_def s' D(5))
  have *: "co_inv kind n s' \<and> (\<forall>u. u \<noteq> t \<longrightarrow> cs_frames (co_abs s') u = cs_frames (co_abs s) u)"
  proof (rule co_step_frame [OF inv _ ok])
    show "context_stack s' = co_active s' 0" if "kind = CoStack" using D(5) that assms(2) by (simp add: s')
  next
    show "d \<notin> set (co_active s' t) \<and> (co_ctx s d = Some k' \<or> (\<exists>r. k' = (Some d, None, r)) \<and> d \<in> set (co_active s t))"
      if "co_ctx s' d = Some k'" for d k' using that co_ctx_free [OF inv, of d k' t] by (auto simp: s' split: if_splits)
  next
    show "d \<in> set (co_active s t) \<or> co_ctx s d \<noteq> None" if "d \<in> set (co_active s' t)" for d
      using that Some by (auto simp: s' k)
  qed (use D(1) free in \<open>auto simp: s'\<close>)
  have "cs_exec t (cs_frames (co_abs s) t) (co_abs s) = Some (co_abs s')"
  proof -
    have "cs_exec t (cs_frames (co_abs s) t) (co_abs s) = Some (cs_set t ((Some c, None, r') #
        (owner, Some c, r) # map (\<lambda>c. frame_of (the (co_caller s c))) (co_active s t))
        ((co_abs s)\<lparr>cs_rest := (cs_rest (co_abs s))(c := None)\<rparr>))" (is "_ = Some ?q")
      using run Some k by (simp add: co_abs_def)
    also have "?q = co_abs s'"
    proof (rule co_absI [of t])
      show "cs_frames (co_abs s') u = cs_frames ?q u" if "u \<noteq> t" for u
        using * that by (simp add: cs_set_def)
      show "cs_frames (co_abs s') t = cs_frames ?q t"
        using free by (auto simp: cs_set_def s' co_abs_def k)
    qed (auto simp: cs_set_def co_abs_def s')
    finally show ?thesis .
  qed
  then show ?thesis using * by (simp add: s'_eq co_sim_def)
qed


text \<open>Suspend and the end of Run: the top coroutine is left for the context below.\<close>

lemma co_leave_sim:
  assumes inv: "co_inv kind n s" and "t < n" and run: "co_run s t = (Some c, None, code)"
    and s': "co_active s' = (co_active s)(t := tl (co_active s t))"
      "co_run s' = (co_run s)(t := the (co_caller s c))" "co_caller s' = (co_caller s)(c := None)"
      "co_ctx s' = co_ctx s \<or> (\<exists>r. co_ctx s' = (co_ctx s)(c := Some (Some c, None, r)))"
      "co_fault s' = co_fault s" "co_current s' = co_current s"
      "context_stack s' = (if kind = CoStack then tl (context_stack s) else context_stack s)"
  shows "co_inv kind n s' \<and> (\<forall>u. u \<noteq> t \<longrightarrow> cs_frames (co_abs s') u = cs_frames (co_abs s) u)"
    and "cs_frames (co_abs s') t = tl (cs_frames (co_abs s) t)"
proof -
  note D = co_invD [OF inv]
  note T = D(2) [of t, unfolded thread_ok_def Let_def run, simplified]
  obtain q where q: "co_active s t = c # q" using T by (cases "co_active s t") auto
  obtain prev r where k: "co_caller s c = Some (hdo q, Some (c, prev), r)" and prev: "kind = CoLocal \<longrightarrow> prev = hdo q"
    using T q by auto
  have c: "c \<notin> set q" using T q by simp
  have ch: "chain kind ((co_caller s)(c := None)) q" 
  proof -
    have "chain kind (co_caller s) q" using T q by auto
    moreover have "chain kind ((co_caller s)(c := None)) q = chain kind (co_caller s) q" by (rule chain_cong) (use c in auto)
    ultimately show ?thesis by simp
  qed
  have other: "c \<notin> set (co_active s u)" if "u \<noteq> t" for u using D(3) [of c t u] q that by auto
  have ok: "thread_ok kind t s'"
    using T q k prev ch by (cases kind) (auto simp: thread_ok_def s')
  have ctx: "d \<notin> set q \<and> (co_ctx s d = Some k' \<or> (\<exists>r. k' = (Some d, None, r)) \<and> d \<in> set (c # q))"
    if "co_ctx s' d = Some k'" for d k'
    using s'(4) that c q co_ctx_free [OF inv, of d k' t] by (auto split: if_splits)
  show "co_inv kind n s' \<and> (\<forall>u. u \<noteq> t \<longrightarrow> cs_frames (co_abs s') u = cs_frames (co_abs s) u)"
  proof (rule co_step_frame [OF inv _ ok])
    show "context_stack s' = co_active s' 0" if "kind = CoStack" using D(5) that assms(2) q by (simp add: s')
    show "d \<notin> set (co_active s' t) \<and> (co_ctx s d = Some k' \<or> (\<exists>r. k' = (Some d, None, r)) \<and> d \<in> set (co_active s t))"
      if "co_ctx s' d = Some k'" for d k' using ctx [OF that] q by (auto simp: s')
    show "co_caller s' d = co_caller s d" if "u \<noteq> t" "d \<in> set (co_active s u)" for u d
      using other [OF that(1)] that(2) by (auto simp: s')
  qed (use D(1) q in \<open>auto simp: s'\<close>)
  show "cs_frames (co_abs s') t = tl (cs_frames (co_abs s) t)"
    using c by (simp add: co_abs_def s' q k)
qed

lemma co_suspend_sim:
  assumes inv: "co_inv kind n s" and "t < n" and run: "co_run s t = (owner, None, ISuspend # r)"
  shows "co_sim kind n (Coroutine_Suspend kind t owner r s) (cs_exec t (cs_frames (co_abs s) t) (co_abs s))"
proof (cases owner)
  case None
  then show ?thesis using run suspend_target [OF assms] by (simp add: co_sim_def Coroutine_Suspend_def co_abs_def)
next
  case (Some c)
  note D = co_invD [OF inv]
  note T = D(2) [of t, unfolded thread_ok_def Let_def run, simplified]
  obtain k where k: "co_caller s c = Some k" using T Some by (cases "co_active s t") auto
  define s' where "s' = the (Coroutine_Suspend kind t owner r s)"
  have eq: "Coroutine_Suspend kind t owner r s = Some s'"
    using suspend_target(1) [OF assms] Some by (simp add: s'_def Coroutine_Suspend_def Let_def)
  have s': "co_active s' = (co_active s)(t := tl (co_active s t))"
      "co_run s' = (co_run s)(t := the (co_caller s c))" "co_caller s' = (co_caller s)(c := None)"
      "co_ctx s' = (co_ctx s)(c := Some (Some c, None, r))"
      "co_fault s' = co_fault s" "co_current s' = co_current s"
      "context_stack s' = (if kind = CoStack then tl (context_stack s) else context_stack s)"
      "completed s' = completed s" "co_eptr s' = co_eptr s" "co_out s' = co_out s"
    using suspend_target(1) [OF assms] Some k
    by (simp_all add: s'_def Coroutine_Suspend_def Let_def co_jump_def split: coro_kind.splits)
  have ctx: "co_ctx s' = co_ctx s \<or> (\<exists>r. co_ctx s' = (co_ctx s)(c := Some (Some c, None, r)))" using s'(4) by blast
  note L = co_leave_sim [OF inv assms(2) run [unfolded Some] s'(1-3) ctx s'(5-7)]
  have "cs_exec t (cs_frames (co_abs s) t) (co_abs s) =
      Some (cs_set t (tl (cs_frames (co_abs s) t)) ((co_abs s)\<lparr>cs_rest := (cs_rest (co_abs s))(c := Some r)\<rparr>))" (is "_ = Some ?q")
    using run Some by (simp add: co_abs_def)
  also have "?q = co_abs s'"
  proof (rule co_absI [of t])
    show "cs_frames (co_abs s') u = cs_frames ?q u" if "u \<noteq> t" for u using L(1) that by (simp add: cs_set_def)
    show "cs_frames (co_abs s') t = cs_frames ?q t" using L(2) by (simp add: cs_set_def)
  qed (auto simp: cs_set_def co_abs_def s')
  finally show ?thesis using L(1) by (simp add: eq co_sim_def)
qed


lemma co_exit_sim:
  assumes inv: "co_inv kind n s" and "t < n" and run: "co_run s t = (Some c, None, [])"
  shows "co_sim kind n (Some (Coroutine_exit kind t c s)) (cs_exec t (cs_frames (co_abs s) t) (co_abs s))"
proof -
  note D = co_invD [OF inv]
  note T = D(2) [of t, unfolded thread_ok_def Let_def run, simplified]
  obtain q where q: "co_active s t = c # q" using T by (cases "co_active s t") auto
  obtain k where k: "co_caller s c = Some k" using T unfolding q by auto
  have ne: "kind = CoStack \<Longrightarrow> context_stack s \<noteq> []" using D(5) assms(2) q by auto
  define s' where "s' = Coroutine_exit kind t c s"
  have s': "co_active s' = (co_active s)(t := tl (co_active s t))"
      "co_run s' = (co_run s)(t := the (co_caller s c))" "co_caller s' = (co_caller s)(c := None)"
      "co_ctx s' = co_ctx s"
      "co_fault s' = co_fault s" "co_current s' = co_current s"
      "context_stack s' = (if kind = CoStack then tl (context_stack s) else context_stack s)"
      "completed s' = (completed s)(c := True)" "co_eptr s' = co_eptr s" "co_out s' = co_out s"
    using k ne
    by (simp_all add: s'_def Coroutine_exit_def Let_def co_jump_def split: coro_kind.splits)
  have ctx: "co_ctx s' = co_ctx s \<or> (\<exists>r. co_ctx s' = (co_ctx s)(c := Some (Some c, None, r)))" using s'(4) by blast
  note L = co_leave_sim [OF inv assms(2) run s'(1-3) ctx s'(5-7)]
  have "cs_exec t (cs_frames (co_abs s) t) (co_abs s) =
      Some (cs_set t (tl (cs_frames (co_abs s) t)) ((co_abs s)\<lparr>cs_done := (cs_done (co_abs s))(c := True)\<rparr>))" (is "_ = Some ?q")
    using run by (simp add: co_abs_def)
  also have "?q = co_abs s'"
  proof (rule co_absI [of t])
    show "cs_frames (co_abs s') u = cs_frames ?q u" if "u \<noteq> t" for u using L(1) that by (simp add: cs_set_def)
    show "cs_frames (co_abs s') t = cs_frames ?q t" using L(2) by (simp add: cs_set_def)
  qed (auto simp: cs_set_def co_abs_def s')
  finally show ?thesis using L(1) by (simp add: co_sim_def s'_def)
qed

text \<open>The steps inside one context.\<close>

lemma co_local_inv:
  assumes inv: "co_inv kind n s" and run: "co_run s t = (owner, ep, code)"
    and s': "co_active s' = co_active s" "co_caller s' = co_caller s" "co_ctx s' = co_ctx s" "co_fault s' = co_fault s"
      "context_stack s' = context_stack s" "co_run s' = (co_run s)(t := (owner, None, r))"
      "co_current s' = (if kind = CoLocal then (co_current s)(t := owner) else co_current s)"
  shows "co_inv kind n s'"
    and "\<And>u. u \<noteq> t \<Longrightarrow> cs_frames (co_abs s') u = cs_frames (co_abs s) u"
    and "cs_frames (co_abs s') t = (owner, None, r) # tl (cs_frames (co_abs s) t)"
proof -
  note D = co_invD [OF inv]
  note T = D(2) [of t, unfolded thread_ok_def Let_def run, simplified]
  have ok: "thread_ok kind t s'" using T by (auto simp: thread_ok_def s')
  have *: "co_inv kind n s' \<and> (\<forall>u. u \<noteq> t \<longrightarrow> cs_frames (co_abs s') u = cs_frames (co_abs s) u)"
    
  proof (rule co_step_frame [OF inv _ ok])
    show "d \<notin> set (co_active s' t) \<and> (co_ctx s d = Some k' \<or> (\<exists>r. k' = (Some d, None, r)) \<and> d \<in> set (co_active s t))"
      if "co_ctx s' d = Some k'" for d k' using that co_ctx_free [OF inv, of d k' t] by (simp add: s')
  qed (use D(1, 5) in \<open>auto simp: s'\<close>)
  show "co_inv kind n s'" using * by blast
  show "\<And>u. u \<noteq> t \<Longrightarrow> cs_frames (co_abs s') u = cs_frames (co_abs s) u" using * by blast
  show "cs_frames (co_abs s') t = (owner, None, r) # tl (cs_frames (co_abs s) t)" by (simp add: co_abs_def s')
qed

lemma co_current_owner:
  assumes "co_inv CoLocal n s" and "co_run s t = (owner, None, code)"
  shows "(co_current s)(t := owner) = co_current s"
  using co_invD(2) [OF assms(1), of t] assms(2) by (auto simp: thread_ok_def Let_def)

lemma co_emit_sim:
  assumes inv: "co_inv kind n s" and "t < n" and run: "co_run s t = (owner, None, IEmit x # r)"
  shows "co_sim kind n (co_exec kind t (co_run s t) s) (cs_exec t (cs_frames (co_abs s) t) (co_abs s))"
proof -
  define s' where "s' = s\<lparr>co_out := co_out s @ [(t, Inl x)], co_run := (co_run s)(t := (owner, None, r))\<rparr>"
  have "co_current s' = (if kind = CoLocal then (co_current s)(t := owner) else co_current s)"
    using co_current_owner [OF _ run] inv by (cases kind) (auto simp: s'_def)
  note L = co_local_inv [OF inv run _ _ _ _ _ _ this, of r, unfolded s'_def, simplified, folded s'_def]
  have "cs_exec t (cs_frames (co_abs s) t) (co_abs s) =
      Some (cs_set t ((owner, None, r) # tl (cs_frames (co_abs s) t)) ((co_abs s)\<lparr>cs_out := cs_out (co_abs s) @ [(t, Inl x)]\<rparr>))" (is "_ = Some ?q")
    using run by (simp add: co_abs_def)
  also have "?q = co_abs s'"
  proof (rule co_absI [of t])
    show "cs_frames (co_abs s') u = cs_frames ?q u" if "u \<noteq> t" for u using L(2) that by (simp add: cs_set_def)
    show "cs_frames (co_abs s') t = cs_frames ?q t" using L(3) by (simp add: cs_set_def)
  qed (auto simp: cs_set_def co_abs_def s'_def)
  finally show ?thesis using L(1) run by (simp add: co_sim_def s'_def)
qed


lemma co_raise_sim:
  assumes inv: "co_inv kind n s0" and run: "co_run s0 t = (owner, ep, code)"
    and s: "co_active s = co_active s0" "co_caller s = co_caller s0" "co_ctx s = co_ctx s0" "co_fault s = co_fault s0"
      "context_stack s = context_stack s0" "co_run s = co_run s0" "completed s = completed s0" "co_eptr s = co_eptr s0" "co_out s = co_out s0"
      "co_current s = (if kind = CoLocal then (co_current s0)(t := owner) else co_current s0)"
  shows "co_inv kind n (co_raise t owner e s)"
    and "cs_raise t owner e (tl (cs_frames (co_abs s0) t)) (co_abs s0) = co_abs (co_raise t owner e s)"
proof -
  define s' where "s' = co_raise t owner e s"
  have s': "co_active s' = co_active s0" "co_caller s' = co_caller s0" "co_ctx s' = co_ctx s0" "co_fault s' = co_fault s0"
      "context_stack s' = context_stack s0" "co_run s' = (co_run s0)(t := (owner, None, []))" "completed s' = completed s0"
      "co_current s' = (if kind = CoLocal then (co_current s0)(t := owner) else co_current s0)"
    by (cases owner; simp add: s'_def co_raise_def s)+
  note L = co_local_inv [OF inv run s'(1-6) s'(8)]
  show "co_inv kind n (co_raise t owner e s)" using L(1) by (simp add: s'_def)
  show "cs_raise t owner e (tl (cs_frames (co_abs s0) t)) (co_abs s0) = co_abs (co_raise t owner e s)"
    unfolding s'_def [symmetric]
  proof (rule co_absI [of t])
    show "cs_frames (co_abs s') u = cs_frames (cs_raise t owner e (tl (cs_frames (co_abs s0) t)) (co_abs s0)) u" if "u \<noteq> t" for u
      using L(2) [OF that] that by (simp add: cs_set_def cs_raise_def split: option.split)
    show "cs_frames (co_abs s') t = cs_frames (cs_raise t owner e (tl (cs_frames (co_abs s0) t)) (co_abs s0)) t"
      using L(3) by (simp add: cs_set_def cs_raise_def)
  qed (cases owner; simp add: cs_set_def cs_raise_def co_abs_def s' s'_def co_raise_def s)+
qed

lemma co_return_sim:
  assumes inv: "co_inv kind n s" and run: "co_run s t = (owner, Some (c, prev), r)"
  shows "co_sim kind n (co_exec kind t (co_run s t) s) (cs_exec t (cs_frames (co_abs s) t) (co_abs s))"
proof -
  note T = co_invD(2) [OF inv, of t, unfolded thread_ok_def Let_def run, simplified]
  define s1 where "s1 = (case kind of CoStack \<Rightarrow> s | CoLocal \<Rightarrow> s\<lparr>co_current := (co_current s)(t := prev)\<rparr>)"
  have s1: "co_active s1 = co_active s" "co_caller s1 = co_caller s" "co_ctx s1 = co_ctx s" "co_fault s1 = co_fault s"
      "context_stack s1 = context_stack s" "co_run s1 = co_run s" "completed s1 = completed s" "co_eptr s1 = co_eptr s" "co_out s1 = co_out s"
      "co_current s1 = (if kind = CoLocal then (co_current s)(t := owner) else co_current s)"
    using T by (cases kind; simp add: s1_def)+
  show ?thesis
  proof (cases "co_eptr s c")
    case (Some e)
    note L = co_raise_sim [OF inv run s1, of e]
    have "cs_exec t (cs_frames (co_abs s) t) (co_abs s) = Some (cs_raise t owner e (tl (cs_frames (co_abs s) t)) (co_abs s))"
      using run Some by (simp add: co_abs_def)
    then show ?thesis using L run Some by (simp add: co_sim_def Resume_return_def s1_def [symmetric])
  next
    case None
    define s' where "s' = s1\<lparr>co_run := (co_run s)(t := (owner, None, r))\<rparr>"
    have s': "co_active s' = co_active s" "co_caller s' = co_caller s" "co_ctx s' = co_ctx s" "co_fault s' = co_fault s"
      "context_stack s' = context_stack s" "co_run s' = (co_run s)(t := (owner, None, r))"
      "co_current s' = (if kind = CoLocal then (co_current s)(t := owner) else co_current s)"
      "completed s' = completed s" "co_eptr s' = co_eptr s" "co_out s' = co_out s"
      by (simp_all add: s'_def s1)
    note L = co_local_inv [OF inv run s'(1-7)]
    have "cs_exec t (cs_frames (co_abs s) t) (co_abs s) =
        Some (cs_set t ((owner, None, r) # tl (cs_frames (co_abs s) t)) (co_abs s))" (is "_ = Some ?q")
      using run None by (simp add: co_abs_def)
    also have "?q = co_abs s'"
    proof (rule co_absI [of t])
      show "cs_frames (co_abs s') u = cs_frames ?q u" if "u \<noteq> t" for u using L(2) that by (simp add: cs_set_def)
      show "cs_frames (co_abs s') t = cs_frames ?q t" using L(3) by (simp add: cs_set_def)
    qed (auto simp: cs_set_def co_abs_def s')
    finally show ?thesis using L(1) run None by (simp add: co_sim_def Resume_return_def s1_def [symmetric] s'_def s1)
  qed
qed

lemma co_throw_sim:
  assumes inv: "co_inv kind n s" and run: "co_run s t = (owner, None, IThrow e # r)"
  shows "co_sim kind n (co_exec kind t (co_run s t) s) (cs_exec t (cs_frames (co_abs s) t) (co_abs s))"
proof -
  have "co_current s = (if kind = CoLocal then (co_current s)(t := owner) else co_current s)"
    using co_current_owner [OF _ run] inv by (cases kind) auto
  note L = co_raise_sim [OF inv run refl refl refl refl refl refl refl refl refl this, of e]
  have "cs_exec t (cs_frames (co_abs s) t) (co_abs s) = Some (cs_raise t owner e (tl (cs_frames (co_abs s) t)) (co_abs s))"
    using run by (simp add: co_abs_def)
  then show ?thesis using L run by (simp add: co_sim_def)
qed

lemma co_step_sim:
  assumes inv: "co_inv kind n s"
  shows "co_sim kind n (co_step kind n t s) (cs_step n t (co_abs s))"
proof (cases "t < n")
  case False
  then show ?thesis by (simp add: co_step_def cs_step_def co_sim_def)
next
  case True
  obtain owner ep code where run: "co_run s t = (owner, ep, code)" by (metis prod_cases3)
  have "co_sim kind n (co_exec kind t (co_run s t) s) (cs_exec t (cs_frames (co_abs s) t) (co_abs s))"
  proof (cases ep)
    case (Some a)
    then show ?thesis using co_return_sim [OF inv] run by (cases a) simp
  next
    case None
    note run = run [unfolded None]
    show ?thesis
    proof (cases code)
      case Nil
      then show ?thesis using co_exit_sim [OF inv True] run by (cases owner) (simp_all add: co_sim_def co_abs_def)
    next
      case (Cons i r)
      note run = run [unfolded Cons]
      show ?thesis
      proof (cases i)
        case (IEmit x)
        show ?thesis by (rule co_emit_sim [OF inv True run [unfolded IEmit]])
      next
        case ISuspend
        then show ?thesis using co_suspend_sim [OF inv True, of owner r] run by simp
      next
        case (IResume c)
        then show ?thesis using co_resume_sim [OF inv True, of owner c r] run by simp
      next
        case (IThrow e)
        show ?thesis by (rule co_throw_sim [OF inv run [unfolded IThrow]])
      qed
    qed
  qed
  then show ?thesis using True by (simp add: co_step_def cs_step_def)
qed


lemma co_out_abs: "cs_out (co_abs s) = co_out s"
  by (simp add: co_abs_def)

lemma co_inv_start: "kind = CoLocal \<or> n = 1 \<Longrightarrow> co_inv kind n (co_start routine main)"
  by (rule co_invI) (auto simp: co_start_def thread_ok_def)

lemma co_run_sim:
  "co_inv kind n s \<Longrightarrow> co_inv kind n (run (co_step kind n) as s) \<and>
   co_abs (run (co_step kind n) as s) = run (cs_step n) as (co_abs s)"
proof (induction as arbitrary: s)
  case (Cons t as)
  have sim: "co_sim kind n (co_step kind n t s) (cs_step n t (co_abs s))" by (rule co_step_sim [OF Cons.prems])
  show ?case
  proof (cases "co_step kind n t s")
    case None
    then show ?thesis using sim Cons.IH [OF Cons.prems] by (simp add: co_sim_def)
  next
    case (Some s')
    then show ?thesis using sim Cons.IH [of s'] by (simp add: co_sim_def)
  qed
qed simp

text \<open>C17: For any routines, any programs of the threads and any schedule, the contexts behave as call stacks: Resume
  calls the coroutine, Suspend returns to whoever resumed it, an exception of the routine comes out of the Resume
  that is waiting, and no switch finds a context that was not saved. This holds for SimpleCoroutine with any number of threads, and for
  \<open>coroutine.cpp\<close> with one.\<close>

theorem Coroutine_call_stacks:
  assumes "kind = CoLocal \<or> n = 1"
  shows "co_abs (run (co_step kind n) as (co_start routine main)) = run (cs_step n) as (cs_start routine main) \<and>
    \<not> co_fault (run (co_step kind n) as (co_start routine main))"
proof -
  note L = co_run_sim [OF co_inv_start [OF assms, of routine main], of as]
  moreover have "co_abs (co_start routine main) = cs_start routine main"
    by (simp add: co_abs_def co_start_def cs_start_def)
  ultimately show ?thesis using co_invD(1) by metis
qed

text \<open>A witness: a coroutine resumed twice, the second time inside another one, whose exception comes out of the inner Resume.\<close>

lemma Coroutine_call_stacks_witness:
  "cs_out (run (cs_step 1) (replicate 20 0) (cs_start (\<lambda>c. if c = 0 then [IEmit 1, ISuspend, IThrow 9] else [IResume 0, IEmit 3])
      (\<lambda>_. [IResume 0, IEmit 2, IResume 1]))) = [(0, Inl 1), (0, Inl 2), (0, Inr 9)] \<and>
   co_out (run (co_step CoStack 1) (replicate 20 0) (co_start (\<lambda>c. if c = 0 then [IEmit 1, ISuspend, IThrow 9] else [IResume 0, IEmit 3])
      (\<lambda>_. [IResume 0, IEmit 2, IResume 1]))) = [(0, Inl 1), (0, Inl 2), (0, Inr 9)]"
proof -
  define a where "a = (\<lambda>c. if c = (0::nat) then [IEmit 1, ISuspend, IThrow 9] else [IResume 0, IEmit 3])"
  define m where "m = (\<lambda>_ :: tid. [IResume 0, IEmit 2, IResume 1])"
  have 1: "cs_out (run (cs_step 1) (replicate 20 0) (cs_start a m)) = [(0, Inl 1), (0, Inl 2), (0, Inr 9)]"
    unfolding a_def m_def by code_simp
  have "co_abs (run (co_step CoStack 1) (replicate 20 0) (co_start a m)) = run (cs_step 1) (replicate 20 0) (cs_start a m)"
    using Coroutine_call_stacks [of CoStack 1 "replicate 20 0" a m] by simp
  then have "co_out (run (co_step CoStack 1) (replicate 20 0) (co_start a m)) = cs_out (run (cs_step 1) (replicate 20 0) (cs_start a m))"
    by (metis co_out_abs)
  then show ?thesis using 1 unfolding a_def m_def by simp
qed

text \<open>With two threads, the static stack of \<open>coroutine.cpp\<close> hands a Suspend the other thread's coroutine: the first thread
  goes on with the second one's main code, here the \<open>IEmit 7\<close>.\<close>

theorem Coroutine_shared_stack:
  "(0, Inl 7) \<in> set (co_out (run (co_step CoStack 2) [0, 1, 0, 0, 0] (co_start (\<lambda>_. [ISuspend]) 
     (\<lambda>t. if t = 0 then [IResume 0, IEmit 6] else [IResume 1, IEmit 7]))))"
  by code_simp

end
