(* ===== verification/LfStack.thy ===== *)
theory LfStack
  imports Prelude "HOL-Library.Code_Target_Nat"
begin

section \<open>The lock-free stack with split reference counts\<close>

text \<open>
  \<open>lockfree/stack/lock_free_stack.hpp\<close>: Treiber's stack. The stamp next to a pointer to a node counts the TryPop calls
  that took a reference through it, the node's inner counter those that gave theirs back. Each atomic operation is a
  step; nodes are addresses, and a deleted one may be allocated again. The packed words are pairs here, with a stamp of 16 bits
  (\<open>StampedPtr\<close> shows the packing).
\<close>

type_synonym node_ref = "nat option \<times> nat"

text \<open>Where a call is, between two of its atomic operations or accesses to a node.\<close>

datatype 'a lf_pc = LfIdle
  | PuLoad nat | PuCas nat
  | PoLoad | PoAcquire nat nat | PoRead nat nat | PoCas nat nat node_ref | PoValue nat nat | PoAdd nat nat "'a option"
  | PoSub nat | PoDelete nat "'a option option"

datatype 'a lf_op = OpPush 'a | OpPop "'a option"

text \<open>Ghost: what a node is in the life of its address.\<close>

datatype lf_phase = NFree | NPrivate | NChain | NPopped nat | NCounted | NDeleting

record 'a lf_stack =
  lf_head :: node_ref                       \<comment> \<open>\<open>head_\<close>\<close>
  lf_next :: "nat \<Rightarrow> node_ref"
  lf_value :: "nat \<Rightarrow> 'a option"            \<comment> \<open>None: moved from\<close>
  inner_counter :: "nat \<Rightarrow> u32"
  lf_live :: "nat \<Rightarrow> bool"
  lf_pc :: "tid \<Rightarrow> 'a lf_pc"
  lf_ret :: "(tid \<times> 'a option) list"        \<comment> \<open>what TryPop returned\<close>
  lf_bad :: bool                            \<comment> \<open>a deleted node was accessed or deleted\<close>
  lf_overflow :: bool                       \<comment> \<open>ghost: a stamp has wrapped around\<close>
  lf_phase :: "nat \<Rightarrow> lf_phase"              \<comment> \<open>ghost\<close>
  lf_outer :: "nat \<Rightarrow> nat"                   \<comment> \<open>ghost: the stamp next to the pointer to the node\<close>
  lf_chain :: "nat list"                    \<comment> \<open>ghost: the nodes from the head on\<close>
  lf_log :: "(tid \<times> 'a lf_op) list"          \<comment> \<open>ghost: the operations in the order they took effect\<close>

definition lf_start :: "'a lf_stack" where
  "lf_start = \<lparr>lf_head = (None, 0), lf_next = (\<lambda>_. (None, 0)), lf_value = (\<lambda>_. None), inner_counter = (\<lambda>_. 0),
     lf_live = (\<lambda>_. False), lf_pc = (\<lambda>_. LfIdle), lf_ret = [], lf_bad = False, lf_overflow = False,
     lf_phase = (\<lambda>_. NFree), lf_outer = (\<lambda>_. 0), lf_chain = [], lf_log = []\<rparr>"

definition lf_goto :: "tid \<Rightarrow> 'a lf_pc \<Rightarrow> 'a lf_stack \<Rightarrow> 'a lf_stack" where
  "lf_goto t p s = s\<lparr>lf_pc := (lf_pc s)(t := p)\<rparr>"

definition lf_touch :: "nat \<Rightarrow> 'a lf_stack \<Rightarrow> 'a lf_stack" where
  "lf_touch m s = s\<lparr>lf_bad := lf_bad s \<or> \<not> lf_live s m\<rparr>"

subsection \<open>Push\<close>

text \<open>\<open>new Node\<close> returns any address \<open>m\<close> that is not in use.\<close>

definition Push_new :: "tid \<Rightarrow> 'a \<Rightarrow> nat \<Rightarrow> 'a lf_stack \<Rightarrow> 'a lf_stack option" where
  "Push_new t x m s = (if lf_pc s t = LfIdle \<and> \<not> lf_live s m
     then Some (lf_goto t (PuLoad m) (s\<lparr>lf_live := (lf_live s)(m := True), lf_value := (lf_value s)(m := Some x),
       lf_next := (lf_next s)(m := (None, 0)), inner_counter := (inner_counter s)(m := 0), lf_phase := (lf_phase s)(m := NPrivate)\<rparr>))
     else None)"

definition Push_load :: "tid \<Rightarrow> nat \<Rightarrow> 'a lf_stack \<Rightarrow> 'a lf_stack" where
  "Push_load t m s = lf_goto t (PuCas m) ((lf_touch m s)\<lparr>lf_next := (lf_next s)(m := lf_head s)\<rparr>)"

definition Push_cas :: "tid \<Rightarrow> nat \<Rightarrow> bool \<Rightarrow> 'a lf_stack \<Rightarrow> 'a lf_stack" where
  "Push_cas t m spurious s = (let s = lf_touch m s in
     if lf_head s = lf_next s m \<and> \<not> spurious
     then lf_goto t LfIdle (s\<lparr>lf_head := (Some m, 0), lf_phase := (lf_phase s)(m := NChain), lf_outer := (lf_outer s)(m := 0),
            lf_chain := m # lf_chain s, lf_log := lf_log s @ (case lf_value s m of None \<Rightarrow> [] | Some x \<Rightarrow> [(t, OpPush x)])\<rparr>)
     else s\<lparr>lf_next := (lf_next s)(m := lf_head s)\<rparr>)"

subsection \<open>TryPop\<close>

definition Pop_load :: "tid \<Rightarrow> 'a lf_stack \<Rightarrow> 'a lf_stack" where
  "Pop_load t s = (case lf_head s of
     (None, k) \<Rightarrow> lf_goto t LfIdle (s\<lparr>lf_ret := lf_ret s @ [(t, None)], lf_log := lf_log s @ [(t, OpPop None)]\<rparr>)
   | (Some m, k) \<Rightarrow> lf_goto t (PoAcquire m k) s)"

definition Pop_acquire :: "tid \<Rightarrow> nat \<Rightarrow> nat \<Rightarrow> bool \<Rightarrow> 'a lf_stack \<Rightarrow> 'a lf_stack" where
  "Pop_acquire t m k spurious s = (if lf_head s = (Some m, k) \<and> \<not> spurious
     then lf_goto t (PoRead m (k + 1)) (s\<lparr>lf_head := (Some m, (k + 1) mod 2 ^ 16), lf_outer := (lf_outer s)(m := k + 1),
            lf_overflow := (lf_overflow s \<or> k + 1 \<ge> 2 ^ 16)\<rparr>)
     else lf_goto t PoLoad s)"

definition Pop_read :: "tid \<Rightarrow> nat \<Rightarrow> nat \<Rightarrow> 'a lf_stack \<Rightarrow> 'a lf_stack" where
  "Pop_read t m k s = lf_goto t (PoCas m k (lf_next s m)) (lf_touch m s)"

definition Pop_cas :: "tid \<Rightarrow> nat \<Rightarrow> nat \<Rightarrow> node_ref \<Rightarrow> bool \<Rightarrow> 'a lf_stack \<Rightarrow> 'a lf_stack" where
  "Pop_cas t m k nx spurious s = (if lf_head s = (Some m, k mod 2 ^ 16) \<and> \<not> spurious
     then lf_goto t (PoValue m k) (s\<lparr>lf_head := nx, lf_phase := (lf_phase s)(m := NPopped k), lf_chain := tl (lf_chain s),
            lf_log := lf_log s @ [(t, OpPop (lf_value s m))]\<rparr>)
     else lf_goto t (PoSub m) s)"

definition Pop_value :: "tid \<Rightarrow> nat \<Rightarrow> nat \<Rightarrow> 'a lf_stack \<Rightarrow> 'a lf_stack" where
  "Pop_value t m k s = lf_goto t (PoAdd m k (lf_value s m)) ((lf_touch m s)\<lparr>lf_value := (lf_value s)(m := None)\<rparr>)"

definition Pop_add :: "tid \<Rightarrow> nat \<Rightarrow> nat \<Rightarrow> 'a option \<Rightarrow> 'a lf_stack \<Rightarrow> 'a lf_stack" where
  "Pop_add t m k x s = (let res = 1 - of_nat k; old = inner_counter s m;
       s1 = (lf_touch m s)\<lparr>inner_counter := (inner_counter s)(m := old + (of_nat k - 1))\<rparr>
     in if old = res then lf_goto t (PoDelete m (Some x)) (s1\<lparr>lf_phase := (lf_phase s)(m := NDeleting)\<rparr>)
        else lf_goto t LfIdle (s1\<lparr>lf_phase := (lf_phase s)(m := NCounted), lf_ret := lf_ret s @ [(t, x)]\<rparr>))"

definition Pop_sub :: "tid \<Rightarrow> nat \<Rightarrow> 'a lf_stack \<Rightarrow> 'a lf_stack" where
  "Pop_sub t m s = (let old = inner_counter s m;
       s1 = (lf_touch m s)\<lparr>inner_counter := (inner_counter s)(m := old - 1)\<rparr>
     in if old = 1 then lf_goto t (PoDelete m None) (s1\<lparr>lf_phase := (lf_phase s)(m := NDeleting)\<rparr>)
        else lf_goto t PoLoad s1)"

text \<open>After \<open>delete\<close>: the winner returns its value, the others go on with the loop.\<close>

definition Pop_delete :: "tid \<Rightarrow> nat \<Rightarrow> 'a option option \<Rightarrow> 'a lf_stack \<Rightarrow> 'a lf_stack" where
  "Pop_delete t m r s = (let s1 = (lf_touch m s)\<lparr>lf_live := (lf_live s)(m := False), lf_phase := (lf_phase s)(m := NFree)\<rparr>
     in case r of Some x \<Rightarrow> lf_goto t LfIdle (s1\<lparr>lf_ret := lf_ret s @ [(t, x)]\<rparr>) | None \<Rightarrow> lf_goto t PoLoad s1)"

text \<open>Thread \<open>t\<close> pushes \<open>x\<close> in a node at an address, starts a TryPop, or goes on (with a spurious failure).\<close>

datatype 'a lf_act = LfPush tid 'a nat | LfPop tid | LfGo tid bool

fun lf_go :: "tid \<Rightarrow> bool \<Rightarrow> 'a lf_stack \<Rightarrow> 'a lf_stack option" where
  "lf_go t spurious s = (case lf_pc s t of
     LfIdle \<Rightarrow> None
   | PuLoad m \<Rightarrow> Some (Push_load t m s)
   | PuCas m \<Rightarrow> Some (Push_cas t m spurious s)
   | PoLoad \<Rightarrow> Some (Pop_load t s)
   | PoAcquire m k \<Rightarrow> Some (Pop_acquire t m k spurious s)
   | PoRead m k \<Rightarrow> Some (Pop_read t m k s)
   | PoCas m k nx \<Rightarrow> Some (Pop_cas t m k nx spurious s)
   | PoValue m k \<Rightarrow> Some (Pop_value t m k s)
   | PoAdd m k x \<Rightarrow> Some (Pop_add t m k x s)
   | PoSub m \<Rightarrow> Some (Pop_sub t m s)
   | PoDelete m r \<Rightarrow> Some (Pop_delete t m r s))"

fun lf_step :: "nat \<Rightarrow> 'a lf_act \<Rightarrow> 'a lf_stack \<Rightarrow> 'a lf_stack option" where
  "lf_step n (LfPush t x m) s = (if t < n then Push_new t x m s else None)"
| "lf_step n (LfPop t) s = (if t < n \<and> lf_pc s t = LfIdle then Some (lf_goto t PoLoad s) else None)"
| "lf_step n (LfGo t spurious) s = (if t < n then lf_go t spurious s else None)"

text \<open>The destructor walks the list; the fuel bounds the number of nodes.\<close>

fun Stack_destroy :: "nat \<Rightarrow> node_ref \<Rightarrow> 'a lf_stack \<Rightarrow> 'a lf_stack option" where
  "Stack_destroy fuel (None, k) s = Some s"
| "Stack_destroy 0 (Some m, k) s = None"
| "Stack_destroy (Suc fuel) (Some m, k) s =
     Stack_destroy fuel (lf_next s m) ((lf_touch m s)\<lparr>lf_live := (lf_live s)(m := False)\<rparr>)"

subsection \<open>What the stack promises\<close>

fun lf_spec :: "'a list \<Rightarrow> (tid \<times> 'a lf_op) list \<Rightarrow> 'a list option" where
  "lf_spec xs [] = Some xs"
| "lf_spec xs ((t, OpPush x) # ops) = lf_spec (x # xs) ops"
| "lf_spec [] ((t, OpPop r) # ops) = (if r = None then lf_spec [] ops else None)"
| "lf_spec (x # xs) ((t, OpPop r) # ops) = (if r = Some x then lf_spec xs ops else None)"

text \<open>The results of a thread's pops, in the order of the log.\<close>

fun pops :: "tid \<Rightarrow> (tid \<times> 'a lf_op) list \<Rightarrow> 'a option list" where
  "pops t [] = []"
| "pops t ((u, OpPop r) # l) = (if u = t then r # pops t l else pops t l)"
| "pops t ((u, OpPush x) # l) = pops t l"

definition rets :: "tid \<Rightarrow> (tid \<times> 'a option) list \<Rightarrow> 'a option list" where
  "rets t l = map snd (filter (\<lambda>p. fst p = t) l)"

lemma lf_spec_append: "lf_spec xs (a @ b) = (case lf_spec xs a of None \<Rightarrow> None | Some ys \<Rightarrow> lf_spec ys b)"
  by (induction xs a rule: lf_spec.induct) auto

lemma pops_append [simp]: "pops t (a @ b) = pops t a @ pops t b"
  by (induction t a rule: pops.induct) auto

lemma rets_simps [simp]: "rets t [] = []" "rets t (a @ b) = rets t a @ rets t b"
  "rets t ((u, r) # l) = (if u = t then r # rets t l else rets t l)"
  by (simp_all add: rets_def)

subsection \<open>The reference counts\<close>

text \<open>The threads that use a node: in Push, as the one that took it off, with a reference, to delete it.\<close>

definition pushes :: "nat \<Rightarrow> 'a lf_pc \<Rightarrow> bool" where
  "pushes m p = (case p of PuLoad i \<Rightarrow> i = m | PuCas i \<Rightarrow> i = m | _ \<Rightarrow> False)"

definition wins :: "nat \<Rightarrow> 'a lf_pc \<Rightarrow> bool" where
  "wins m p = (case p of PoValue i k \<Rightarrow> i = m | PoAdd i k x \<Rightarrow> i = m | _ \<Rightarrow> False)"

definition has_ref :: "nat \<Rightarrow> 'a lf_pc \<Rightarrow> bool" where
  "has_ref m p = (case p of PoRead i k \<Rightarrow> i = m | PoCas i k nx \<Rightarrow> i = m | PoValue i k \<Rightarrow> i = m | PoAdd i k x \<Rightarrow> i = m
     | PoSub i \<Rightarrow> i = m | _ \<Rightarrow> False)"

definition deletes :: "nat \<Rightarrow> 'a lf_pc \<Rightarrow> bool" where
  "deletes m p = (case p of PoDelete i r \<Rightarrow> i = m | _ \<Rightarrow> False)"

lemmas lf_uses = pushes_def wins_def has_ref_def deletes_def

definition node_ok :: "lf_phase \<Rightarrow> bool \<Rightarrow> u32 \<Rightarrow> nat \<Rightarrow> nat \<Rightarrow> nat \<Rightarrow> nat \<Rightarrow> nat \<Rightarrow> bool" where
  "node_ok ph live inner outer p w h d = (case ph of
     NFree \<Rightarrow> \<not> live \<and> p = 0 \<and> w = 0 \<and> h = 0 \<and> d = 0
   | NPrivate \<Rightarrow> live \<and> p = 1 \<and> w = 0 \<and> h = 0 \<and> d = 0 \<and> inner = 0
   | NChain \<Rightarrow> live \<and> p = 0 \<and> w = 0 \<and> d = 0 \<and> h \<le> outer \<and> outer < 2 ^ 16 \<and> inner = of_nat h - of_nat outer
   | NPopped k \<Rightarrow> live \<and> p = 0 \<and> w = 1 \<and> d = 0 \<and> 0 < h \<and> h \<le> k \<and> k < 2 ^ 16 \<and> inner = of_nat h - of_nat k
   | NCounted \<Rightarrow> live \<and> p = 0 \<and> w = 0 \<and> d = 0 \<and> 0 < h \<and> h < 2 ^ 16 \<and> inner = of_nat h
   | NDeleting \<Rightarrow> live \<and> p = 0 \<and> w = 0 \<and> h = 0 \<and> d = 1)"

definition node_inv :: "nat \<Rightarrow> 'a lf_stack \<Rightarrow> nat \<Rightarrow> bool" where
  "node_inv n s m = node_ok (lf_phase s m) (lf_live s m) (inner_counter s m) (lf_outer s m)
     (cnt n (pushes m) (lf_pc s)) (cnt n (wins m) (lf_pc s)) (cnt n (has_ref m) (lf_pc s)) (cnt n (deletes m) (lf_pc s))"

fun linked :: "'a lf_stack \<Rightarrow> node_ref \<Rightarrow> nat list \<Rightarrow> bool" where
  "linked s p [] = (p = (None, 0))"
| "linked s p (m # l) = (p = (Some m, lf_outer s m) \<and> linked s (lf_next s m) l)"

text \<open>What a thread knows of its node.\<close>

definition pc_ok :: "'a lf_stack \<Rightarrow> 'a lf_pc \<Rightarrow> bool" where
  "pc_ok s p = (case p of
     PoRead m k \<Rightarrow> k < 2 ^ 16
   | PoCas m k nx \<Rightarrow> k < 2 ^ 16 \<and> nx = lf_next s m
   | PoValue m k \<Rightarrow> lf_phase s m = NPopped k \<and> lf_value s m \<noteq> None
   | PoAdd m k x \<Rightarrow> lf_phase s m = NPopped k
   | _ \<Rightarrow> True)"

text \<open>The result a thread will return, once its pop took effect.\<close>

definition pending :: "'a lf_stack \<Rightarrow> 'a lf_pc \<Rightarrow> 'a option list" where
  "pending s p = (case p of PoValue m k \<Rightarrow> [lf_value s m] | PoAdd m k x \<Rightarrow> [x] | PoDelete m (Some x) \<Rightarrow> [x] | _ \<Rightarrow> [])"

definition lf_inv :: "nat \<Rightarrow> 'a lf_stack \<Rightarrow> bool" where
  "lf_inv n s = (\<not> lf_bad s \<and> (\<forall>m. node_inv n s m) \<and> linked s (lf_head s) (lf_chain s) \<and> distinct (lf_chain s) \<and>
     (\<forall>m. m \<in> set (lf_chain s) \<longleftrightarrow> lf_phase s m = NChain) \<and>
     (\<forall>m. lf_phase s m = NChain \<or> lf_phase s m = NPrivate \<longrightarrow> lf_value s m \<noteq> None) \<and>
     (\<forall>t. pc_ok s (lf_pc s t)) \<and> (\<forall>t. n \<le> t \<longrightarrow> lf_pc s t = LfIdle) \<and>
     lf_spec [] (lf_log s) = Some (map (\<lambda>m. the (lf_value s m)) (lf_chain s)) \<and>
     (\<forall>t. pops t (lf_log s) = rets t (lf_ret s) @ pending s (lf_pc s t)))"


lemma lf_invI:
  assumes "\<not> lf_bad s" and "\<And>m. node_inv n s m" and "linked s (lf_head s) (lf_chain s)" and "distinct (lf_chain s)"
    and "\<And>m. m \<in> set (lf_chain s) \<longleftrightarrow> lf_phase s m = NChain"
    and "\<And>m. lf_phase s m = NChain \<or> lf_phase s m = NPrivate \<Longrightarrow> lf_value s m \<noteq> None"
    and "\<And>t. pc_ok s (lf_pc s t)" and "\<And>t. n \<le> t \<Longrightarrow> lf_pc s t = LfIdle"
    and "lf_spec [] (lf_log s) = Some (map (\<lambda>m. the (lf_value s m)) (lf_chain s))"
    and "\<And>t. pops t (lf_log s) = rets t (lf_ret s) @ pending s (lf_pc s t)"
  shows "lf_inv n s"
  using assms unfolding lf_inv_def by blast

lemma lf_invD:
  assumes "lf_inv n s"
  shows "\<not> lf_bad s" and "\<And>m. node_inv n s m" and "linked s (lf_head s) (lf_chain s)" and "distinct (lf_chain s)"
    and "\<And>m. m \<in> set (lf_chain s) \<longleftrightarrow> lf_phase s m = NChain"
    and "\<And>m. lf_phase s m = NChain \<or> lf_phase s m = NPrivate \<Longrightarrow> lf_value s m \<noteq> None"
    and "\<And>t. pc_ok s (lf_pc s t)" and "\<And>t. n \<le> t \<Longrightarrow> lf_pc s t = LfIdle"
    and "lf_spec [] (lf_log s) = Some (map (\<lambda>m. the (lf_value s m)) (lf_chain s))"
    and "\<And>t. pops t (lf_log s) = rets t (lf_ret s) @ pending s (lf_pc s t)"
  using assms unfolding lf_inv_def by blast+

lemma linked_cong:
  "(\<And>m. m \<in> set l \<Longrightarrow> lf_outer s' m = lf_outer s m \<and> lf_next s' m = lf_next s m) \<Longrightarrow> linked s' p l = linked s p l"
  by (induction l arbitrary: p) auto

lemma linked_other:
  assumes "linked s p l" and "m \<notin> set l" and "\<And>i. i \<noteq> m \<Longrightarrow> lf_outer s' i = lf_outer s i \<and> lf_next s' i = lf_next s i"
  shows "linked s' p l"
  using assms linked_cong [of l s' s p] by metis

lemma cnt_upd_same: "P x = P (f t) \<Longrightarrow> cnt n P (f(t := x)) = cnt n P f"
  by (rule cnt_cong) auto

text \<open>A step of thread \<open>t\<close> that concerns node \<open>m\<close> alone.\<close>

lemma lf_inv_upd:
  assumes inv: "lf_inv n s" and "t < n" and pc: "lf_pc s' = (lf_pc s)(t := p)" and bad: "\<not> lf_bad s'"
    and node: "node_inv n s' m"
    and uses: "\<And>i. i \<noteq> m \<Longrightarrow> pushes i p = pushes i (lf_pc s t) \<and> wins i p = wins i (lf_pc s t) \<and>
      has_ref i p = has_ref i (lf_pc s t) \<and> deletes i p = deletes i (lf_pc s t)"
    and flds: "\<And>i. i \<noteq> m \<Longrightarrow> lf_phase s' i = lf_phase s i \<and> lf_live s' i = lf_live s i \<and> inner_counter s' i = inner_counter s i \<and>
      lf_outer s' i = lf_outer s i \<and> lf_value s' i = lf_value s i \<and> lf_next s' i = lf_next s i"
    and list: "linked s' (lf_head s') (lf_chain s')" "distinct (lf_chain s')" "\<And>i. i \<in> set (lf_chain s') \<longleftrightarrow> lf_phase s' i = NChain"
    and val: "lf_phase s' m = NChain \<or> lf_phase s' m = NPrivate \<Longrightarrow> lf_value s' m \<noteq> None"
    and win: "\<And>u. u \<noteq> t \<Longrightarrow> wins m (lf_pc s u) \<Longrightarrow> lf_phase s' m = lf_phase s m \<and> lf_value s' m = lf_value s m"
    and ref: "\<And>u. u \<noteq> t \<Longrightarrow> has_ref m (lf_pc s u) \<Longrightarrow> lf_next s' m = lf_next s m"
    and own: "pc_ok s' p"
    and spec: "lf_spec [] (lf_log s') = Some (map (\<lambda>m. the (lf_value s' m)) (lf_chain s'))"
    and res: "pops t (lf_log s') = rets t (lf_ret s') @ pending s' p"
    and res': "\<And>u. u \<noteq> t \<Longrightarrow> pops u (lf_log s') = pops u (lf_log s) \<and> rets u (lf_ret s') = rets u (lf_ret s)"
  shows "lf_inv n s'"
proof (rule lf_invI)
  note D = lf_invD [OF inv]
  show "node_inv n s' i" for i
  proof (cases "i = m")
    case False
    then show ?thesis using D(2) [of i] uses [OF False] flds [OF False] unfolding node_inv_def pc by (simp add: cnt_upd_same)
  qed (simp add: node)
  show "lf_value s' i \<noteq> None" if "lf_phase s' i = NChain \<or> lf_phase s' i = NPrivate" for i
    using that D(6) [of i] flds [of i] val by (cases "i = m") auto
  have keep: "lf_phase s' i = lf_phase s i \<and> lf_value s' i = lf_value s i" if "u \<noteq> t" "wins i (lf_pc s u)" for u i
    using win [OF that(1)] that(2) flds [of i] by (cases "i = m") auto
  have keep': "lf_next s' i = lf_next s i" if "u \<noteq> t" "has_ref i (lf_pc s u)" for u i
    using ref [OF that(1)] that(2) flds [of i] by (cases "i = m") auto
  have other: "pc_ok s' (lf_pc s u) \<and> pending s' (lf_pc s u) = pending s (lf_pc s u)" if "u \<noteq> t" for u
    using D(7) [of u] keep [OF that] keep' [OF that] 
    by (cases "lf_pc s u") (simp_all add: pc_ok_def pending_def lf_uses split: option.split)
  show "pc_ok s' (lf_pc s' u)" for u using other [of u] own by (simp add: pc)
  show "pops u (lf_log s') = rets u (lf_ret s') @ pending s' (lf_pc s' u)" for u
    using other [of u] res res' [of u] D(10) [of u] by (simp add: pc)
  show "lf_pc s' u = LfIdle" if "n \<le> u" for u using D(8) [OF that] that assms(2) by (simp add: pc)
qed (use bad list spec in simp_all)

lemma in_pc_used: "t < n \<Longrightarrow> P (f t) \<Longrightarrow> 0 < cnt n P f"
  by (auto simp: cnt_pos_iff)

lemma node_phase:
  assumes "lf_inv n s" and "t < n"
  shows "pushes m (lf_pc s t) \<Longrightarrow> lf_phase s m = NPrivate"
    and "wins m (lf_pc s t) \<Longrightarrow> \<exists>k. lf_phase s m = NPopped k"
    and "has_ref m (lf_pc s t) \<Longrightarrow> lf_phase s m \<in> {NChain, NCounted} \<or> (\<exists>k. lf_phase s m = NPopped k)"
    and "deletes m (lf_pc s t) \<Longrightarrow> lf_phase s m = NDeleting"
    and "lf_live s m = (lf_phase s m \<noteq> NFree)"
  using lf_invD(2) [OF assms(1), of m] in_pc_used [OF assms(2), of "pushes m" "lf_pc s"] in_pc_used [OF assms(2), of "wins m" "lf_pc s"]
    in_pc_used [OF assms(2), of "has_ref m" "lf_pc s"] in_pc_used [OF assms(2), of "deletes m" "lf_pc s"]
  unfolding node_inv_def node_ok_def by (cases "lf_phase s m"; auto)+

lemma not_used:
  assumes "lf_inv n s"
  shows "lf_phase s m \<in> {NFree, NPrivate, NDeleting} \<Longrightarrow> \<not> has_ref m (lf_pc s u)"
    and "(\<forall>k. lf_phase s m \<noteq> NPopped k) \<Longrightarrow> \<not> wins m (lf_pc s u)"
proof -
  have idle: "\<not> u < n \<Longrightarrow> lf_pc s u = LfIdle" using lf_invD(8) [OF assms, of u] by simp
  show "lf_phase s m \<in> {NFree, NPrivate, NDeleting} \<Longrightarrow> \<not> has_ref m (lf_pc s u)"
    using node_phase(3) [OF assms, of u m] idle by (cases "u < n") (auto simp: lf_uses)
  show "(\<forall>k. lf_phase s m \<noteq> NPopped k) \<Longrightarrow> \<not> wins m (lf_pc s u)"
    using node_phase(2) [OF assms, of u m] idle by (cases "u < n") (auto simp: lf_uses)
qed

lemma one_winner:
  assumes "lf_inv n s" and "t < n" and "wins m (lf_pc s t)" and "u \<noteq> t"
  shows "\<not> wins m (lf_pc s u)"
proof (cases "u < n")
  case True
  obtain k where "lf_phase s m = NPopped k" using node_phase(2) [OF assms(1-3)] by blast
  then have "cnt n (wins m) (lf_pc s) = 1" using lf_invD(2) [OF assms(1), of m] by (simp add: node_inv_def node_ok_def)
  then show ?thesis using cnt_only [of n "wins m" "lf_pc s" t u] assms True by blast
next
  case False
  then show ?thesis using lf_invD(8) [OF assms(1), of u] by (simp add: lf_uses)
qed


text \<open>The counts of node \<open>m\<close> after \<open>t\<close> moved on.\<close>

lemma node_inv_moved:
  assumes "t < n" and "lf_pc s' = (lf_pc s)(t := p)"
  shows "node_inv n s' m = node_ok (lf_phase s' m) (lf_live s' m) (inner_counter s' m) (lf_outer s' m)
    (cnt n (pushes m) (lf_pc s) + of_bool (pushes m p) - of_bool (pushes m (lf_pc s t)))
    (cnt n (wins m) (lf_pc s) + of_bool (wins m p) - of_bool (wins m (lf_pc s t)))
    (cnt n (has_ref m) (lf_pc s) + of_bool (has_ref m p) - of_bool (has_ref m (lf_pc s t)))
    (cnt n (deletes m) (lf_pc s) + of_bool (deletes m p) - of_bool (deletes m (lf_pc s t)))"
proof -
  have "cnt n P ((lf_pc s)(t := p)) = cnt n P (lf_pc s) + of_bool (P p) - of_bool (P (lf_pc s t))" for P
    using cnt_upd [OF assms(1), of P "lf_pc s" p] by linarith
  then show ?thesis by (simp only: node_inv_def assms(2))
qed

lemmas lf_ops = lf_goto_def lf_touch_def

lemma lf_Push_new:
  assumes inv: "lf_inv n s" and "t < n" and "Push_new t x m s = Some s'"
  shows "lf_inv n s'"
proof -
  note D = lf_invD [OF inv]
  have pc: "lf_pc s t = LfIdle" and free: "lf_phase s m = NFree"
    using assms(3) node_phase(5) [OF inv assms(2), of m] by (auto simp: Push_new_def split: if_splits)
  have s': "s' = lf_goto t (PuLoad m) (s\<lparr>lf_live := (lf_live s)(m := True), lf_value := (lf_value s)(m := Some x),
       lf_next := (lf_next s)(m := (None, 0)), inner_counter := (inner_counter s)(m := 0), lf_phase := (lf_phase s)(m := NPrivate)\<rparr>)"
    using assms(3) by (simp add: Push_new_def split: if_splits)
  have m: "m \<notin> set (lf_chain s)" using D(5) free by simp
  have node: "node_inv n s' m"
    using D(2) [of m] pc free node_inv_moved [OF assms(2), of s' s "PuLoad m" m]
    by (simp add: node_inv_def [of n s] node_ok_def s' lf_ops lf_uses)
  show ?thesis
  proof (rule lf_inv_upd [OF inv assms(2) _ _ node])
    show "linked s' (lf_head s') (lf_chain s')"
      using linked_other [OF D(3) m, of s'] by (simp add: s' lf_ops)
    show "lf_spec [] (lf_log s') = Some (map (\<lambda>m. the (lf_value s' m)) (lf_chain s'))"
      using D(9) m by (auto simp: s' lf_ops)
    show "pops t (lf_log s') = rets t (lf_ret s') @ pending s' (PuLoad m)"
      using D(10) [of t] pc by (simp add: s' lf_ops pending_def)
  qed (use D(1, 4, 5) free pc not_used [OF inv, of m] in \<open>auto simp: s' lf_ops lf_uses pc_ok_def\<close>)
qed


lemma lf_Push_load:
  assumes inv: "lf_inv n s" and "t < n" and pc: "lf_pc s t = PuLoad m"
  shows "lf_inv n (Push_load t m s)"
proof -
  note D = lf_invD [OF inv]
  define s' where "s' = Push_load t m s"
  note s' = s'_def [unfolded Push_load_def]
  have ph: "lf_phase s m = NPrivate" using node_phase(1) [OF inv assms(2), of m] pc by (simp add: lf_uses)
  then have live: "lf_live s m" using node_phase(5) [OF inv assms(2)] by simp
  have m: "m \<notin> set (lf_chain s)" using D(5) ph by simp
  have node: "node_inv n s' m"
    using D(2) [of m] pc ph node_inv_moved [OF assms(2), of s' s "PuCas m" m]
    by (simp add: node_inv_def [of n s] node_ok_def s' lf_ops lf_uses)
  have "lf_inv n s'"
  proof (rule lf_inv_upd [OF inv assms(2) _ _ node])
    show "linked s' (lf_head s') (lf_chain s')"
      using linked_other [OF D(3) m, of s'] by (simp add: s' lf_ops)
    show "lf_spec [] (lf_log s') = Some (map (\<lambda>m. the (lf_value s' m)) (lf_chain s'))"
      using D(9) m by (simp add: s' lf_ops)
    show "pops t (lf_log s') = rets t (lf_ret s') @ pending s' (PuCas m)"
      using D(10) [of t] pc by (simp add: s' lf_ops pending_def)
  qed (use D(1, 4, 5) D(6) [of m] ph pc live not_used [OF inv, of m] in \<open>auto simp: s' lf_ops lf_uses pc_ok_def\<close>)
  then show ?thesis by (simp add: s'_def)
qed

lemma lf_Push_cas:
  assumes inv: "lf_inv n s" and "t < n" and pc: "lf_pc s t = PuCas m"
  shows "lf_inv n (Push_cas t m spurious s)"
proof (cases "lf_head s = lf_next s m \<and> \<not> spurious")
  case True
  note D = lf_invD [OF inv]
  have ph: "lf_phase s m = NPrivate" using node_phase(1) [OF inv assms(2), of m] pc by (simp add: lf_uses)
  then have live: "lf_live s m" using node_phase(5) [OF inv assms(2)] by simp
  obtain x where x: "lf_value s m = Some x" using D(6) [of m] ph by blast
  define s' where "s' = Push_cas t m spurious s"
  have s': "s' = lf_goto t LfIdle ((lf_touch m s)\<lparr>lf_head := (Some m, 0), lf_phase := (lf_phase s)(m := NChain), lf_outer := (lf_outer s)(m := 0),
            lf_chain := m # lf_chain s, lf_log := lf_log s @ [(t, OpPush x)]\<rparr>)"
    using True x by (simp add: s'_def Push_cas_def Let_def lf_touch_def)
  have m: "m \<notin> set (lf_chain s)" using D(5) ph by simp
  have node: "node_inv n s' m"
    using D(2) [of m] pc ph node_inv_moved [OF assms(2), of s' s LfIdle m]
    by (simp add: node_inv_def [of n s] node_ok_def s' lf_ops lf_uses)
  have "lf_inv n s'"
  proof (rule lf_inv_upd [OF inv assms(2) _ _ node])
    show "linked s' (lf_head s') (lf_chain s')"
      using linked_other [OF D(3) m, of s'] True by (simp add: s' lf_ops)
    show "lf_spec [] (lf_log s') = Some (map (\<lambda>m. the (lf_value s' m)) (lf_chain s'))"
      using D(9) x by (simp add: s' lf_ops lf_spec_append)
    show "pops t (lf_log s') = rets t (lf_ret s') @ pending s' LfIdle"
      using D(10) [of t] pc by (simp add: s' lf_ops pending_def)
  qed (use D(1, 4, 5) D(6) [of m] ph pc live m not_used [OF inv, of m] in \<open>auto simp: s' lf_ops lf_uses pc_ok_def\<close>)
  then show ?thesis by (simp add: s'_def)
next
  case False
  note D = lf_invD [OF inv]
  have ph: "lf_phase s m = NPrivate" using node_phase(1) [OF inv assms(2), of m] pc by (simp add: lf_uses)
  then have live: "lf_live s m" using node_phase(5) [OF inv assms(2)] by simp
  have m: "m \<notin> set (lf_chain s)" using D(5) ph by simp
  define s' where "s' = Push_cas t m spurious s"
  have s': "s' = (lf_touch m s)\<lparr>lf_next := (lf_next s)(m := lf_head s)\<rparr>" and pc': "lf_pc s' = (lf_pc s)(t := PuCas m)"
    using False pc by (auto simp: s'_def Push_cas_def Let_def lf_touch_def)
  have node: "node_inv n s' m" using D(2) [of m] by (simp add: node_inv_def s' lf_ops)
  have "lf_inv n s'"
  proof (rule lf_inv_upd [OF inv assms(2) pc' _ node])
    show "linked s' (lf_head s') (lf_chain s')"
      using linked_other [OF D(3) m, of s'] by (simp add: s' lf_ops)
    show "lf_spec [] (lf_log s') = Some (map (\<lambda>m. the (lf_value s' m)) (lf_chain s'))"
      using D(9) by (simp add: s' lf_ops)
    show "pops t (lf_log s') = rets t (lf_ret s') @ pending s' (PuCas m)"
      using D(10) [of t] pc by (simp add: s' lf_ops pending_def)
  qed (use D(1, 4, 5) D(6) [of m] ph pc live not_used [OF inv, of m] in \<open>auto simp: s' lf_ops lf_uses pc_ok_def\<close>)
  then show ?thesis by (simp add: s'_def)
qed


text \<open>A step that changes no node.\<close>

lemma lf_quiet:
  assumes inv: "lf_inv n s" and "t < n"
    and s': "s' = s\<lparr>lf_pc := (lf_pc s)(t := p), lf_ret := lf_ret s @ r, lf_log := lf_log s @ l\<rparr>"
    and uses: "\<And>i. pushes i p = pushes i (lf_pc s t) \<and> wins i p = wins i (lf_pc s t) \<and>
      has_ref i p = has_ref i (lf_pc s t) \<and> deletes i p = deletes i (lf_pc s t)"
    and "pc_ok s p" and "pending s p = []" and "pending s (lf_pc s t) = []"
    and "r = [] \<and> l = [] \<or> r = [(t, None)] \<and> l = [(t, OpPop None)] \<and> lf_chain s = []"
  shows "lf_inv n s'"
proof (rule lf_inv_upd [OF inv assms(2)])
  note D = lf_invD [OF inv]
  show "node_inv n s' 0" using D(2) [of 0] uses [of 0] by (simp add: node_inv_def s' cnt_upd_same)
  show "linked s' (lf_head s') (lf_chain s')" using D(3) linked_cong [of "lf_chain s" s' s] by (simp add: s')
  show "lf_spec [] (lf_log s') = Some (map (\<lambda>m. the (lf_value s' m)) (lf_chain s'))"
    using D(9) assms(8) by (auto simp: s' lf_spec_append)
  show "pc_ok s' p" using assms(5) by (simp add: pc_ok_def s' split: lf_pc.splits)
  show "pops t (lf_log s') = rets t (lf_ret s') @ pending s' p"
    using D(10) [of t] assms(6-8) by (auto simp: s' pending_def split: lf_pc.splits)
  show "\<And>u. u \<noteq> t \<Longrightarrow> pops u (lf_log s') = pops u (lf_log s) \<and> rets u (lf_ret s') = rets u (lf_ret s)"
    using assms(8) by (auto simp: s')
qed (use lf_invD [OF inv] uses in \<open>simp_all add: s'\<close>)

lemma lf_Pop_load:
  assumes inv: "lf_inv n s" and "t < n" and pc: "lf_pc s t = PoLoad"
  shows "lf_inv n (Pop_load t s)"
proof (cases "fst (lf_head s)")
  case None
  then have "lf_chain s = []" using lf_invD(3) [OF inv] by (cases "lf_chain s") auto
  then show ?thesis using pc None
    by (intro lf_quiet [where p = LfIdle and r = "[(t, None)]" and l = "[(t, OpPop None)]", OF inv assms(2)])
      (cases "lf_head s"; simp add: Pop_load_def lf_goto_def lf_uses pc_ok_def pending_def)+
next
  case (Some m)
  then show ?thesis using pc
    by (intro lf_quiet [where p = "PoAcquire m (snd (lf_head s))" and r = "[]" and l = "[]", OF inv assms(2)])
      (cases "lf_head s"; simp add: Pop_load_def lf_goto_def lf_uses pc_ok_def pending_def)+
qed

lemma lf_Pop_read:
  assumes inv: "lf_inv n s" and "t < n" and pc: "lf_pc s t = PoRead m k"
  shows "lf_inv n (Pop_read t m k s)"
proof -
  have "lf_live s m" using node_phase(3, 5) [OF inv assms(2), of m] pc by (auto simp: lf_uses)
  then show ?thesis using pc lf_invD(7) [OF inv, of t] lf_invD(1) [OF inv]
    by (intro lf_quiet [where p = "PoCas m k (lf_next s m)" and r = "[]" and l = "[]", OF inv assms(2)])
      (simp_all add: Pop_read_def lf_ops lf_uses pc_ok_def pending_def)
qed

lemma lf_Pop_acquire:
  assumes inv: "lf_inv n s" and "t < n" and pc: "lf_pc s t = PoAcquire m k" and "\<not> lf_overflow (Pop_acquire t m k spurious s)"
  shows "lf_inv n (Pop_acquire t m k spurious s)"
proof (cases "lf_head s = (Some m, k) \<and> \<not> spurious")
  case False
  then show ?thesis using pc
    by (intro lf_quiet [where p = PoLoad and r = "[]" and l = "[]", OF inv assms(2)]) (auto simp: Pop_acquire_def lf_goto_def lf_uses pc_ok_def pending_def)
next
  case True
  note D = lf_invD [OF inv]
  have k: "k + 1 < 2 ^ 16" using assms(4) True by (simp add: Pop_acquire_def lf_goto_def)
  define s' where "s' = Pop_acquire t m k spurious s"
  have s': "s' = lf_goto t (PoRead m (k + 1)) (s\<lparr>lf_head := (Some m, k + 1), lf_outer := (lf_outer s)(m := k + 1)\<rparr>)"
    using True k by (simp add: s'_def Pop_acquire_def lf_goto_def)
  obtain l where l: "lf_chain s = m # l" and nx: "linked s (lf_next s m) l" and outer: "lf_outer s m = k"
    using D(3) True by (cases "lf_chain s") auto
  then have ph: "lf_phase s m = NChain" and m: "m \<notin> set l" using D(4, 5) by auto
  have node: "node_inv n s' m"
    using D(2) [of m] pc ph outer k node_inv_moved [OF assms(2), of s' s "PoRead m (k + 1)" m]
    by (simp add: node_inv_def [of n s] node_ok_def s' lf_ops lf_uses)
  have "lf_inv n s'"
  proof (rule lf_inv_upd [OF inv assms(2) _ _ node])
    show "linked s' (lf_head s') (lf_chain s')" using linked_other [OF nx m, of s'] l by (simp add: s' lf_ops)
    show "lf_spec [] (lf_log s') = Some (map (\<lambda>m. the (lf_value s' m)) (lf_chain s'))" using D(9) by (simp add: s' lf_ops)
    show "pops t (lf_log s') = rets t (lf_ret s') @ pending s' (PoRead m (k + 1))"
      using D(10) [of t] pc by (simp add: s' lf_ops pending_def)
    show "\<And>i. i \<in> set (lf_chain s') \<longleftrightarrow> lf_phase s' i = NChain" using D(5) by (simp add: s' lf_ops)
  qed (use D(1, 4) D(6) [of m] k pc in \<open>auto simp: s' lf_ops lf_uses pc_ok_def\<close>)
  then show ?thesis by (simp add: s'_def)
qed

lemma lf_Pop_cas:
  assumes inv: "lf_inv n s" and "t < n" and pc: "lf_pc s t = PoCas m k nx"
  shows "lf_inv n (Pop_cas t m k nx spurious s)"
proof (cases "lf_head s = (Some m, k mod 2 ^ 16) \<and> \<not> spurious")
  case False
  then show ?thesis using pc
    by (intro lf_quiet [where p = "PoSub m" and r = "[]" and l = "[]", OF inv assms(2)]) (auto simp: Pop_cas_def lf_goto_def lf_uses pc_ok_def pending_def)
next
  case True
  note D = lf_invD [OF inv]
  have k: "k < 2 ^ 16" and nx': "nx = lf_next s m" using D(7) [of t] pc by (simp_all add: pc_ok_def)
  define s' where "s' = Pop_cas t m k nx spurious s"
  have s': "s' = lf_goto t (PoValue m k) (s\<lparr>lf_head := lf_next s m, lf_phase := (lf_phase s)(m := NPopped k), lf_chain := tl (lf_chain s),
            lf_log := lf_log s @ [(t, OpPop (lf_value s m))]\<rparr>)"
    using True by (simp add: s'_def Pop_cas_def lf_goto_def nx')
  obtain l where l: "lf_chain s = m # l" and nx: "linked s (lf_next s m) l" and outer: "lf_outer s m = k"
    using D(3) True k by (cases "lf_chain s") auto
  then have ph: "lf_phase s m = NChain" and m: "m \<notin> set l" using D(4, 5) by auto
  have h: "0 < cnt n (has_ref m) (lf_pc s)" using in_pc_used [OF assms(2), of "has_ref m" "lf_pc s"] pc by (simp add: lf_uses)
  obtain x where x: "lf_value s m = Some x" using D(6) [of m] ph by blast
  have node: "node_inv n s' m"
    using D(2) [of m] pc ph outer k h node_inv_moved [OF assms(2), of s' s "PoValue m k" m]
    by (simp add: node_inv_def [of n s] node_ok_def s' lf_ops lf_uses)
  have "lf_inv n s'"
  proof (rule lf_inv_upd [OF inv assms(2) _ _ node])
    show "linked s' (lf_head s') (lf_chain s')" using linked_other [OF nx m, of s'] l by (simp add: s' lf_ops)
    show "lf_spec [] (lf_log s') = Some (map (\<lambda>m. the (lf_value s' m)) (lf_chain s'))"
      using D(9) x l by (simp add: s' lf_ops lf_spec_append)
    show "pops t (lf_log s') = rets t (lf_ret s') @ pending s' (PoValue m k)"
      using D(10) [of t] pc by (simp add: s' lf_ops pending_def)
    show "i \<in> set (lf_chain s') \<longleftrightarrow> lf_phase s' i = NChain" for i using D(5) [of i] l m by (auto simp: s' lf_ops)
    show "distinct (lf_chain s')" using D(4) l by (simp add: s' lf_ops)
  qed (use D(1) x pc ph not_used [OF inv, of m] in \<open>auto simp: s' lf_ops lf_uses pc_ok_def\<close>)
  then show ?thesis by (simp add: s'_def)
qed


lemma lf_Pop_value:
  assumes inv: "lf_inv n s" and "t < n" and pc: "lf_pc s t = PoValue m k"
  shows "lf_inv n (Pop_value t m k s)"
proof -
  note D = lf_invD [OF inv]
  define s' where "s' = Pop_value t m k s"
  note s' = s'_def [unfolded Pop_value_def]
  have ph: "lf_phase s m = NPopped k" using D(7) [of t] pc by (simp add: pc_ok_def)
  then have live: "lf_live s m" using node_phase(5) [OF inv assms(2)] by simp
  have m: "m \<notin> set (lf_chain s)" using D(5) ph by simp
  have win: "wins m (lf_pc s t)" using pc by (simp add: lf_uses)
  have node: "node_inv n s' m"
    using D(2) [of m] pc ph node_inv_moved [OF assms(2), of s' s "PoAdd m k (lf_value s m)" m]
    by (simp add: node_inv_def [of n s] node_ok_def s' lf_ops lf_uses)
  have "lf_inv n s'"
  proof (rule lf_inv_upd [OF inv assms(2) _ _ node])
    show "linked s' (lf_head s') (lf_chain s')"
      using linked_other [OF D(3) m, of s'] by (simp add: s' lf_ops)
    show "lf_spec [] (lf_log s') = Some (map (\<lambda>m. the (lf_value s' m)) (lf_chain s'))"
      using D(9) m by (auto simp: s' lf_ops)
    show "pops t (lf_log s') = rets t (lf_ret s') @ pending s' (PoAdd m k (lf_value s m))"
      using D(10) [of t] pc by (simp add: s' lf_ops pending_def)
  qed (use D(1, 4, 5) ph pc live one_winner [OF inv assms(2) win] in \<open>auto simp: s' lf_ops lf_uses pc_ok_def\<close>)
  then show ?thesis by (simp add: s'_def)
qed

text \<open>The two places where a count reaches its end.\<close>

lemma count_words:
  fixes h k :: nat
  assumes "h < 2 ^ 16"
  shows "(of_nat h - of_nat k :: u32) = 1 - of_nat k \<longleftrightarrow> h = 1" and "(of_nat h :: u32) = 1 \<longleftrightarrow> h = 1"
proof -
  show *: "(of_nat h :: u32) = 1 \<longleftrightarrow> h = 1" using of_nat_u32_inj [of h 1] assms by simp
  have "(of_nat h - of_nat k :: u32) = 1 - of_nat k \<longleftrightarrow> (of_nat h :: u32) = 1" by auto
  then show "(of_nat h - of_nat k :: u32) = 1 - of_nat k \<longleftrightarrow> h = 1" using * by simp
qed

lemma lf_Pop_add:
  assumes inv: "lf_inv n s" and "t < n" and pc: "lf_pc s t = PoAdd m k x"
  shows "lf_inv n (Pop_add t m k x s)"
proof -
  note D = lf_invD [OF inv]
  have ph: "lf_phase s m = NPopped k" using D(7) [of t] pc by (simp add: pc_ok_def)
  then have live: "lf_live s m" using node_phase(5) [OF inv assms(2)] by simp
  have m: "m \<notin> set (lf_chain s)" using D(5) ph by simp
  have win: "wins m (lf_pc s t)" using pc by (simp add: lf_uses)
  define h where "h = cnt n (has_ref m) (lf_pc s)"
  have h: "0 < h" "h \<le> k" "k < 2 ^ 16" and inner: "inner_counter s m = of_nat h - of_nat k"
    using D(2) [of m] ph by (simp_all add: node_inv_def node_ok_def h_def)
  have last: "inner_counter s m = 1 - of_nat k \<longleftrightarrow> h = 1" using count_words(1) [of h k] h inner by simp
  define p where "p = (if h = 1 then PoDelete m (Some x) else LfIdle)"
  define s' where "s' = Pop_add t m k x s"
  have s': "s' = lf_goto t p ((lf_touch m s)\<lparr>inner_counter := (inner_counter s)(m := of_nat h - 1),
       lf_phase := (lf_phase s)(m := if h = 1 then NDeleting else NCounted), lf_ret := lf_ret s @ (if h = 1 then [] else [(t, x)])\<rparr>)"
    using last by (simp add: s'_def Pop_add_def Let_def inner p_def lf_ops algebra_simps)
  have node: "node_inv n s' m"
    using D(2) [of m] pc ph h h_def node_inv_moved [OF assms(2), of s' s p m]
    by (auto simp add: node_inv_def [of n s] node_ok_def s' lf_ops lf_uses p_def of_nat_diff)
  have "lf_inv n s'"
  proof (rule lf_inv_upd [OF inv assms(2) _ _ node])
    show "linked s' (lf_head s') (lf_chain s')"
      using linked_other [OF D(3) m, of s'] by (simp add: s' lf_ops)
    show "lf_spec [] (lf_log s') = Some (map (\<lambda>m. the (lf_value s' m)) (lf_chain s'))"
      using D(9) m by (simp add: s' lf_ops)
    show "pops t (lf_log s') = rets t (lf_ret s') @ pending s' p"
      using D(10) [of t] pc by (simp add: s' lf_ops pending_def p_def)
  qed (use D(1, 4, 5) ph pc live one_winner [OF inv assms(2) win] in \<open>auto simp: s' lf_ops lf_uses pc_ok_def p_def split: if_splits\<close>)
  then show ?thesis by (simp add: s'_def)
qed

lemma lf_Pop_sub:
  assumes inv: "lf_inv n s" and "t < n" and pc: "lf_pc s t = PoSub m"
  shows "lf_inv n (Pop_sub t m s)"
proof -
  note D = lf_invD [OF inv]
  note N = D(2) [of m, unfolded node_inv_def node_ok_def]
  define h where "h = cnt n (has_ref m) (lf_pc s)"
  have h: "0 < h" using in_pc_used [OF assms(2), of "has_ref m" "lf_pc s"] pc by (simp add: lf_uses h_def)
  have ph: "lf_phase s m \<in> {NChain, NCounted} \<or> (\<exists>k. lf_phase s m = NPopped k)"
    using node_phase(3) [OF inv assms(2), of m] pc by (simp add: lf_uses)
  then have live: "lf_live s m" using node_phase(5) [OF inv assms(2), of m] by auto
  have last: "inner_counter s m = 1 \<longleftrightarrow> lf_phase s m = NCounted \<and> h = 1"
  proof -
    have "inner_counter s m \<noteq> 1" if "inner_counter s m = of_nat h - of_nat k" "h \<le> k" "k < 2 ^ 16" for k
    proof
      assume "inner_counter s m = 1"
      then have "(of_nat h :: u32) = of_nat (k + 1)" using that(1) by (simp add: algebra_simps)
      then show False using of_nat_u32_inj [of h "k + 1"] that by simp
    qed
    then show ?thesis using N ph count_words(2) [of h] unfolding h_def [symmetric]
      by (cases "lf_phase s m") simp_all
  qed
  define p where "p = (if inner_counter s m = 1 then PoDelete m None else (PoLoad :: 'a lf_pc))"
  define s' where "s' = Pop_sub t m s"
  have s': "s' = lf_goto t p ((lf_touch m s)\<lparr>inner_counter := (inner_counter s)(m := inner_counter s m - 1),
       lf_phase := (lf_phase s)(m := if inner_counter s m = 1 then NDeleting else lf_phase s m)\<rparr>)"
    by (simp add: s'_def Pop_sub_def Let_def p_def lf_ops)
  have node: "node_inv n s' m"
  proof (cases "inner_counter s m = 1")
    case True
    then show ?thesis using N last pc h_def node_inv_moved [OF assms(2), of s' s p m]
      by (simp add: node_ok_def s' lf_ops lf_uses p_def)
  next
    case False
    have "1 < h" if "lf_phase s m = NPopped k" for k
    proof -
      have "0 < cnt n (wins m) (lf_pc s)" using N that by simp
      then obtain u where u: "u < n" "wins m (lf_pc s u)" by (auto simp: cnt_pos_iff)
      then have "u \<noteq> t" "has_ref m (lf_pc s u)" using pc by (auto simp: lf_uses split: lf_pc.splits)
      then show ?thesis using cnt_ge_2 [of t n u "has_ref m" "lf_pc s"] assms(2) pc u(1) by (simp add: h_def lf_uses)
    qed
    moreover have "lf_phase s m = NCounted \<Longrightarrow> 1 < h" using False last h by auto
    ultimately show ?thesis using N ph pc h h_def False node_inv_moved [OF assms(2), of s' s p m]
      by (auto simp: node_ok_def s' lf_ops lf_uses p_def of_nat_diff)
  qed
  have "lf_inv n s'"
  proof (rule lf_inv_upd [OF inv assms(2) _ _ node])
    show "linked s' (lf_head s') (lf_chain s')" using D(3) linked_cong [of "lf_chain s" s' s] by (simp add: s' lf_ops)
    show "lf_spec [] (lf_log s') = Some (map (\<lambda>m. the (lf_value s' m)) (lf_chain s'))"
      using D(9) by (simp add: s' lf_ops)
    show "pops t (lf_log s') = rets t (lf_ret s') @ pending s' p"
      using D(10) [of t] pc by (simp add: s' lf_ops pending_def p_def)
    show "i \<in> set (lf_chain s') \<longleftrightarrow> lf_phase s' i = NChain" for i using D(5) [of i] last by (auto simp: s' lf_ops)
    show "lf_phase s' m = lf_phase s m \<and> lf_value s' m = lf_value s m" if "wins m (lf_pc s u)" for u
      using that last not_used(2) [OF inv, of m u] by (auto simp: s' lf_ops)
  qed (use D(1, 4) D(6) [of m] last pc live in \<open>auto simp: s' lf_ops lf_uses pc_ok_def p_def split: if_splits\<close>)
  then show ?thesis by (simp add: s'_def)
qed

lemma lf_Pop_delete:
  assumes inv: "lf_inv n s" and "t < n" and pc: "lf_pc s t = PoDelete m r"
  shows "lf_inv n (Pop_delete t m r s)"
proof -
  note D = lf_invD [OF inv]
  have ph: "lf_phase s m = NDeleting" using node_phase(4) [OF inv assms(2), of m] pc by (simp add: lf_uses)
  then have live: "lf_live s m" using node_phase(5) [OF inv assms(2)] by simp
  have m: "m \<notin> set (lf_chain s)" using D(5) ph by simp
  define p where "p = (case r of Some x \<Rightarrow> LfIdle | None \<Rightarrow> (PoLoad :: 'a lf_pc))"
  define s' where "s' = Pop_delete t m r s"
  have s': "s' = lf_goto t p ((lf_touch m s)\<lparr>lf_live := (lf_live s)(m := False), lf_phase := (lf_phase s)(m := NFree),
      lf_ret := lf_ret s @ (case r of Some x \<Rightarrow> [(t, x)] | None \<Rightarrow> [])\<rparr>)"
    by (cases r) (simp_all add: s'_def Pop_delete_def Let_def p_def lf_ops)
  have node: "node_inv n s' m"
    using D(2) [of m] pc ph node_inv_moved [OF assms(2), of s' s p m]
    by (cases r) (simp_all add: node_inv_def [of n s] node_ok_def s' lf_ops lf_uses p_def)
  have "lf_inv n s'"
  proof (rule lf_inv_upd [OF inv assms(2) _ _ node])
    show "linked s' (lf_head s') (lf_chain s')" using linked_other [OF D(3) m, of s'] by (simp add: s' lf_ops)
    show "lf_spec [] (lf_log s') = Some (map (\<lambda>m. the (lf_value s' m)) (lf_chain s'))"
      using D(9) m by (simp add: s' lf_ops)
    show "pops t (lf_log s') = rets t (lf_ret s') @ pending s' p"
      using D(10) [of t] pc by (cases r) (simp_all add: s' lf_ops pending_def p_def)
    show "pushes i p = pushes i (lf_pc s t) \<and> wins i p = wins i (lf_pc s t) \<and>
      has_ref i p = has_ref i (lf_pc s t) \<and> deletes i p = deletes i (lf_pc s t)" if "i \<noteq> m" for i
      using that pc by (cases r) (simp_all add: lf_uses p_def)
    show "lf_phase s' m = lf_phase s m \<and> lf_value s' m = lf_value s m" if "wins m (lf_pc s u)" for u
      using that ph not_used(2) [OF inv, of m u] by auto
    show "pc_ok s' p" by (cases r) (simp_all add: pc_ok_def p_def)
    show "pops u (lf_log s') = pops u (lf_log s) \<and> rets u (lf_ret s') = rets u (lf_ret s)" if "u \<noteq> t" for u
      using that by (cases r) (simp_all add: s' lf_ops)
  qed (use D(1, 4, 5) ph live in \<open>auto simp: s' lf_ops\<close>)
  then show ?thesis by (simp add: s'_def)
qed


lemma lf_inv_step:
  assumes inv: "lf_inv n s" and step: "lf_step n a s = Some s'" and over: "\<not> lf_overflow s'"
  shows "lf_inv n s'"
proof (cases a)
  case (LfPush t x m)
  then show ?thesis using lf_Push_new [OF inv, of t x m s'] step by (simp split: if_splits)
next
  case (LfPop t)
  then have t: "t < n" "lf_pc s t = LfIdle" and s': "s' = lf_goto t PoLoad s" using step by (auto split: if_splits)
  show ?thesis using t(2)
    by (intro lf_quiet [where p = PoLoad and r = "[]" and l = "[]", OF inv t(1)])
      (simp_all add: s' lf_goto_def lf_uses pc_ok_def pending_def)
next
  case (LfGo t spurious)
  then have t: "t < n" and go: "lf_go t spurious s = Some s'" using step by (auto split: if_splits)
  show ?thesis
  proof (cases "lf_pc s t")
    case (PoAcquire m k)
    then show ?thesis using lf_Pop_acquire [OF inv t PoAcquire, of spurious] go over by simp
  qed (use go lf_Push_load [OF inv t] lf_Push_cas [OF inv t] lf_Pop_load [OF inv t] lf_Pop_read [OF inv t]
      lf_Pop_cas [OF inv t] lf_Pop_value [OF inv t] lf_Pop_add [OF inv t] lf_Pop_sub [OF inv t] lf_Pop_delete [OF inv t]
      in auto)
qed

lemma lf_overflow_step: "lf_step n a s = Some s' \<Longrightarrow> lf_overflow s \<Longrightarrow> lf_overflow s'"
  by (cases a)
    (auto simp: Push_new_def Push_load_def Push_cas_def Pop_load_def Pop_read_def Pop_acquire_def Pop_cas_def Pop_value_def
      Pop_add_def Pop_sub_def Pop_delete_def lf_ops Let_def split: if_splits lf_pc.splits prod.splits option.splits)

lemma lf_inv_start: "lf_inv n lf_start"
  by (rule lf_invI) (simp_all add: lf_start_def node_inv_def node_ok_def cnt_const lf_uses pc_ok_def pending_def)

interpretation lf: inv_system lf_start "lf_step n" "\<lambda>s. lf_overflow s \<or> lf_inv n s" for n
proof (rule inv_system.intro)
  show "lf_overflow lf_start \<or> lf_inv n (lf_start :: 'a lf_stack)" by (simp add: lf_inv_start)
  show "lf_overflow s \<or> lf_inv n s \<Longrightarrow> lf_step n a s = Some s' \<Longrightarrow> lf_overflow s' \<or> lf_inv n s'" for a and s s' :: "'a lf_stack"
    using lf_inv_step lf_overflow_step by blast
qed

text \<open>Once nobody is in a call the nodes in use are those of the list, and the destructor deletes each of them once.\<close>

lemma lf_idle_live:
  assumes "lf_inv n s" and "\<And>t. lf_pc s t = LfIdle"
  shows "lf_live s m \<longleftrightarrow> m \<in> set (lf_chain s)"
proof -
  have "cnt n (pushes m) (lf_pc s) = 0 \<and> cnt n (wins m) (lf_pc s) = 0 \<and> cnt n (has_ref m) (lf_pc s) = 0 \<and> cnt n (deletes m) (lf_pc s) = 0"
    using assms(2) by (simp add: cnt_0_iff lf_uses)
  then show ?thesis using lf_invD(2) [OF assms(1), of m] lf_invD(5) [OF assms(1), of m]
    by (cases "lf_phase s m") (simp_all add: node_inv_def node_ok_def)
qed

lemma Stack_destroy_chain:
  assumes "linked s p l" and "distinct l" and "\<And>m. m \<in> set l \<Longrightarrow> lf_live s m" and "length l \<le> fuel"
  shows "\<exists>s'. Stack_destroy fuel p s = Some s' \<and> lf_bad s' = lf_bad s \<and> (\<forall>m. lf_live s' m = (lf_live s m \<and> m \<notin> set l))"
  using assms
proof (induction l arbitrary: p s fuel)
  case (Cons m l)
  obtain f where f: "fuel = Suc f" "length l \<le> f" using Cons.prems(4) by (cases fuel) auto
  let ?s = "(lf_touch m s)\<lparr>lf_live := (lf_live s)(m := False)\<rparr>"
  have "linked ?s (lf_next s m) l"
    using linked_cong [of l ?s s "lf_next s m"] Cons.prems(1) by (simp add: lf_touch_def)
  moreover have "lf_live ?s i" if "i \<in> set l" for i using Cons.prems(2, 3) that by auto
  ultimately obtain s' where "Stack_destroy f (lf_next s m) ?s = Some s'" and "lf_bad s' = lf_bad ?s"
    and "\<forall>i. lf_live s' i = (lf_live ?s i \<and> i \<notin> set l)" using Cons.IH [of ?s "lf_next s m" f] Cons.prems f(2) by auto
  then show ?case using Cons.prems by (auto simp: f(1) lf_touch_def)
qed simp

text \<open>C13: For any threads, values, addresses of new nodes and schedule, spurious failures included, as long as no stamp has wrapped around:
  no deleted node is accessed or deleted again; the pushes and pops, each at the moment of its compare-and-swap (or of the load that
  found the stack empty), are the history of a stack, and what a thread's calls of TryPop returned is what that history says. Once no call
  is running, exactly the nodes of the list are in use, and the destructor deletes them all.\<close>

theorem lock_free_stack_correct:
  assumes "\<not> lf_overflow (run (lf_step n) sched lf_start)"
  shows "let s = run (lf_step n) sched lf_start in \<not> lf_bad s \<and>
    (\<forall>t. lf_pc s t = LfIdle \<longrightarrow> rets t (lf_ret s) = pops t (lf_log s)) \<and>
    (\<exists>xs. lf_spec [] (lf_log s) = Some xs \<and> ((\<forall>t. lf_pc s t = LfIdle) \<longrightarrow>
       (\<exists>s'. Stack_destroy (length xs) (lf_head s) s = Some s' \<and> \<not> lf_bad s' \<and> (\<forall>m. \<not> lf_live s' m))))"
proof -
  define s where "s = run (lf_step n) sched lf_start"
  have inv: "lf_inv n s" using lf.inv_run [of n sched] assms by (simp add: s_def)
  note D = lf_invD [OF inv]
  have ret: "rets t (lf_ret s) = pops t (lf_log s)" if "lf_pc s t = LfIdle" for t
    using D(10) [of t] that by (simp add: pending_def)
  have free: "\<exists>s'. Stack_destroy (length (lf_chain s)) (lf_head s) s = Some s' \<and> \<not> lf_bad s' \<and> (\<forall>m. \<not> lf_live s' m)"
    if idle: "\<forall>t. lf_pc s t = LfIdle"
  proof -
    have live: "lf_live s m \<longleftrightarrow> m \<in> set (lf_chain s)" for m by (rule lf_idle_live [OF inv]) (use idle in blast)
    then show ?thesis using Stack_destroy_chain [OF D(3) D(4) _ order_refl] D(1) by auto
  qed
  show ?thesis unfolding s_def [symmetric] Let_def using D(1) D(9) ret free by (metis length_map)
qed

text \<open>A witness: two threads hold references to the node of 7 while a third pushes 8 over it; 8 is popped, then 7.\<close>

lemma lock_free_stack_correct_witness:
  "\<exists>s. s = run (lf_step 3) ([LfPush 0 (7::nat) 5, LfGo 0 False, LfGo 0 False, LfPop 0, LfGo 0 False, LfGo 0 False,
       LfPop 1, LfGo 1 False, LfGo 1 False, LfPush 2 8 6, LfGo 2 False, LfGo 2 False] @ replicate 14 (LfGo 0 False) @ replicate 14 (LfGo 1 False)) lf_start \<and>
     \<not> lf_bad s \<and> rets 0 (lf_ret s) = pops 0 (lf_log s) \<and> rets 0 (lf_ret s) = [Some 8] \<and> rets 1 (lf_ret s) = [Some 7] \<and> \<not> lf_live s 5"
proof -
  define sched where "sched = [LfPush 0 (7::nat) 5, LfGo 0 False, LfGo 0 False, LfPop 0, LfGo 0 False, LfGo 0 False,
       LfPop 1, LfGo 1 False, LfGo 1 False, LfPush 2 8 6, LfGo 2 False, LfGo 2 False] @ replicate 14 (LfGo 0 False) @ replicate 14 (LfGo 1 False)"
  have "\<not> lf_overflow (run (lf_step 3) sched lf_start)" and "lf_pc (run (lf_step 3) sched lf_start) 0 = LfIdle"
    and "rets 0 (lf_ret (run (lf_step 3) sched lf_start)) = [Some 8]" and "rets 1 (lf_ret (run (lf_step 3) sched lf_start)) = [Some 7]"
    and "\<not> lf_live (run (lf_step 3) sched lf_start) 5"
    unfolding sched_def by code_simp+
  note p = this
  have "\<not> lf_bad (run (lf_step 3) sched lf_start)" and "rets 0 (lf_ret (run (lf_step 3) sched lf_start)) = pops 0 (lf_log (run (lf_step 3) sched lf_start))"
    using lock_free_stack_correct [OF p(1), unfolded Let_def] p(2) by blast+
  then show ?thesis unfolding sched_def [symmetric] using p(3-5) by simp
qed

end
