(* ===== verification/SharedPtr.thy ===== *)
theory SharedPtr
  imports Prelude "HOL-Library.Code_Target_Nat"
begin

section \<open>SharedPtr and AtomicSharedPtr\<close>

text \<open>
  \<open>lockfree/shared_ptr/shared_ptr.hpp\<close>: a reference count split in strong and transient references, and an atomic cell that
  holds a control block with a stamp, the number of transient references taken through it. Every thread has two SharedPtr
  variables of its own. A call is unfolded into the atomic steps it still has to make: a change of a counter
  (IncrementCounter, whose compare-exchange loop is one step), an access to the cell, an assignment of a variable. The counts
  are integers here: 2^31 references at a time would be needed to wrap an \<open>int32_t\<close>. The stamp has 16 bits.
\<close>

type_synonym cb = nat

text \<open>The two variables of a thread are named by truth values.\<close>

type_synonym sp_vars = "bool \<Rightarrow> cb option"

datatype sp_pc = SpIdle
  | Inc cb int int sp_pc                           \<comment> \<open>IncrementCounter(strong, transient), then the rest\<close>
  | Assign bool "cb option" sp_pc                  \<comment> \<open>\<open>ctrl_ptr_ = ...\<close>\<close>
  | CopyTo bool bool
  | MoveTo bool "cb option" sp_pc                  \<comment> \<open>move assignment from a temporary\<close>
  | LdLoad bool sp_pc | LdCas bool cb nat sp_pc    \<comment> \<open>AcquireTransientRef of Load\<close>
  | Loaded bool cb nat sp_pc | Resave bool cb nat sp_pc
  | Xchg "cb option"
  | CaLoad bool "cb option" | CaCas bool "cb option" cb nat   \<comment> \<open>AcquireTransientRef of CompareExchangeWeak\<close>
  | CasCell bool "cb option" "cb option" nat

record sp_state =
  sp_cell :: "cb option \<times> nat"          \<comment> \<open>\<open>atomic_stamped_ptr_\<close>\<close>
  sp_count :: "cb \<Rightarrow> int \<times> int"          \<comment> \<open>SplitCount: strong and transient\<close>
  sp_live :: "cb \<Rightarrow> bool"
  sp_var :: "tid \<Rightarrow> sp_vars"
  sp_pc :: "tid \<Rightarrow> sp_pc"
  sp_bad :: bool                        \<comment> \<open>a deleted control block was used\<close>
  sp_over :: bool                       \<comment> \<open>ghost: a stamp exceeded the limit of Load\<close>

definition sp_start :: sp_state where
  "sp_start = \<lparr>sp_cell = (None, 0), sp_count = (\<lambda>_. (0, 0)), sp_live = (\<lambda>_. False), sp_var = (\<lambda>_ _. None), sp_pc = (\<lambda>_. SpIdle),
     sp_bad = False, sp_over = False\<rparr>"

definition sp_goto :: "tid \<Rightarrow> sp_pc \<Rightarrow> sp_state \<Rightarrow> sp_state" where
  "sp_goto t p s = s\<lparr>sp_pc := (sp_pc s)(t := p)\<rparr>"

definition sp_let :: "tid \<Rightarrow> bool \<Rightarrow> cb option \<Rightarrow> sp_state \<Rightarrow> sp_state" where
  "sp_let t v x s = s\<lparr>sp_var := (sp_var s)(t := (sp_var s t)(v := x))\<rparr>"

subsection \<open>SharedPtr\<close>

text \<open>On a null pointer IncrementCounter does nothing.\<close>

definition inc :: "cb option \<Rightarrow> int \<Rightarrow> int \<Rightarrow> sp_pc \<Rightarrow> sp_pc" where
  "inc x ds dt k = (case x of None \<Rightarrow> k | Some c \<Rightarrow> Inc c ds dt k)"

definition IncrementStrong :: "cb option \<Rightarrow> sp_pc \<Rightarrow> sp_pc" where "IncrementStrong x k = inc x 1 0 k"

definition DecrementStrong :: "cb option \<Rightarrow> sp_pc \<Rightarrow> sp_pc" where "DecrementStrong x k = inc x (- 1) 0 k"

definition IncrementTransient :: "cb option \<Rightarrow> int \<Rightarrow> sp_pc \<Rightarrow> sp_pc" where "IncrementTransient x d k = inc x 0 d k"

definition DecrementTransient :: "cb option \<Rightarrow> sp_pc \<Rightarrow> sp_pc" where "DecrementTransient x k = inc x 0 (- 1) k"

text \<open>The counter changes, and at zero and zero the control block is deleted.\<close>

definition IncrementCounter :: "cb \<Rightarrow> int \<Rightarrow> int \<Rightarrow> sp_state \<Rightarrow> sp_state" where
  "IncrementCounter c ds dt s = (let counter_new = (fst (sp_count s c) + ds, snd (sp_count s c) + dt) in
     s\<lparr>sp_bad := (sp_bad s \<or> \<not> sp_live s c), sp_count := (sp_count s)(c := counter_new),
       sp_live := (sp_live s)(c := sp_live s c \<and> counter_new \<noteq> (0, 0))\<rparr>)"

text \<open>The null assignment of Reset is taken before the decrement, which no other thread can tell: the variable is the thread's own.\<close>

definition Reset :: "tid \<Rightarrow> bool \<Rightarrow> sp_pc \<Rightarrow> sp_state \<Rightarrow> sp_state" where
  "Reset t v k s = sp_goto t (DecrementStrong (sp_var s t v) k) (sp_let t v None s)"

definition copy_assign :: "tid \<Rightarrow> bool \<Rightarrow> bool \<Rightarrow> sp_state \<Rightarrow> sp_state" where
  "copy_assign t v w s = (if v \<noteq> w then Reset t v (CopyTo v w) s else s)"

definition copy_assign_end :: "tid \<Rightarrow> bool \<Rightarrow> bool \<Rightarrow> sp_state \<Rightarrow> sp_state" where
  "copy_assign_end t v w s = sp_goto t (IncrementStrong (sp_var s t w) SpIdle) (sp_let t v (sp_var s t w) s)"

definition move_assign :: "tid \<Rightarrow> bool \<Rightarrow> cb option \<Rightarrow> sp_pc \<Rightarrow> sp_state \<Rightarrow> sp_state" where
  "move_assign t v x k s = Reset t v (Assign v x k) s"

text \<open>The new control block is the thread's own until the constructor has counted it.\<close>

definition MakeShared :: "tid \<Rightarrow> bool \<Rightarrow> cb \<Rightarrow> sp_state \<Rightarrow> sp_state option" where
  "MakeShared t v c s = (if sp_live s c then None
     else Some (move_assign t v (Some c) SpIdle
       (IncrementCounter c 1 0 (s\<lparr>sp_live := (sp_live s)(c := True), sp_count := (sp_count s)(c := (0, 0))\<rparr>))))"

definition deref :: "tid \<Rightarrow> bool \<Rightarrow> sp_state \<Rightarrow> sp_state option" where
  "deref t v s = (case sp_var s t v of None \<Rightarrow> None | Some c \<Rightarrow> Some (s\<lparr>sp_bad := (sp_bad s \<or> \<not> sp_live s c)\<rparr>))"

subsection \<open>AtomicSharedPtr\<close>

definition kLimit :: nat where "kLimit = 64000"

text \<open>One iteration of AcquireTransientRef: a null pointer ends the loop; a failed exchange has read the current value.\<close>

definition Acquire_next :: "(cb \<Rightarrow> nat \<Rightarrow> sp_pc) \<Rightarrow> (cb option \<times> nat \<Rightarrow> sp_pc) \<Rightarrow> cb option \<times> nat \<Rightarrow> sp_pc" where
  "Acquire_next again succ cur = (case cur of (None, stamp) \<Rightarrow> succ (None, stamp) | (Some c, stamp) \<Rightarrow> again c stamp)"

definition AcquireTransientRef :: "tid \<Rightarrow> cb \<Rightarrow> nat \<Rightarrow> bool \<Rightarrow> (cb \<Rightarrow> nat \<Rightarrow> sp_pc) \<Rightarrow> (cb option \<times> nat \<Rightarrow> sp_pc) \<Rightarrow> sp_state \<Rightarrow> sp_state" where
  "AcquireTransientRef t c stamp spurious again succ s = (if sp_cell s = (Some c, stamp) \<and> \<not> spurious
     then sp_goto t (succ (Some c, stamp + 1))
       (s\<lparr>sp_cell := (Some c, (stamp + 1) mod 2 ^ 16), sp_over := (sp_over s \<or> stamp + 1 > kLimit)\<rparr>)
     else sp_goto t (Acquire_next again succ (sp_cell s)) s)"

text \<open>Load after the transient reference was taken.\<close>

definition Load_ref :: "bool \<Rightarrow> sp_pc \<Rightarrow> cb option \<times> nat \<Rightarrow> sp_pc" where
  "Load_ref v k st = (case st of (None, _) \<Rightarrow> MoveTo v None k
     | (Some c, stamp) \<Rightarrow> IncrementStrong (Some c) (DecrementTransient (Some c) (Loaded v c stamp k)))"

definition Load_overflow :: "bool \<Rightarrow> cb \<Rightarrow> nat \<Rightarrow> sp_pc \<Rightarrow> sp_pc" where
  "Load_overflow v c stamp k = (if stamp > kLimit
     then IncrementTransient (Some c) (int kLimit) (Resave v c (stamp - kLimit) k) else MoveTo v (Some c) k)"

definition Store :: "tid \<Rightarrow> bool \<Rightarrow> bool \<Rightarrow> sp_state \<Rightarrow> sp_state" where
  "Store t w moved s = (let target = sp_var s t w in
     if moved then sp_goto t (IncrementStrong target (Xchg target)) (sp_let t w None s)
     else sp_goto t (IncrementStrong target (IncrementStrong target (Xchg target))) s)"

definition Store_exchange :: "tid \<Rightarrow> cb option \<Rightarrow> sp_state \<Rightarrow> sp_state" where
  "Store_exchange t target s = (case sp_cell s of (old, stamp) \<Rightarrow>
     sp_goto t (IncrementStrong old (inc old (- 1) (int stamp) (DecrementStrong old (DecrementStrong target SpIdle))))
       (s\<lparr>sp_cell := (target, 0)\<rparr>))"

text \<open>CompareExchangeWeak with \<open>expected\<close> in one variable and \<open>desired\<close> copied or moved from the other.\<close>

definition Cas_start :: "tid \<Rightarrow> bool \<Rightarrow> bool \<Rightarrow> sp_state \<Rightarrow> sp_state" where
  "Cas_start t v moved s = (let desired = sp_var s t (\<not> v) in
     if moved then sp_goto t (CaLoad v desired) (sp_let t (\<not> v) None s)
     else sp_goto t (IncrementStrong desired (CaLoad v desired)) s)"

definition Cas_acquired :: "sp_vars \<Rightarrow> bool \<Rightarrow> cb option \<Rightarrow> cb option \<times> nat \<Rightarrow> sp_pc" where
  "Cas_acquired e v desired old = (if fst old \<noteq> e v
     then IncrementStrong (fst old) (MoveTo v (fst old) (DecrementTransient (fst old) (DecrementStrong desired SpIdle)))
     else CasCell v desired (fst old) (snd old))"

definition Cas_exchange :: "tid \<Rightarrow> bool \<Rightarrow> cb option \<Rightarrow> cb option \<Rightarrow> nat \<Rightarrow> bool \<Rightarrow> sp_state \<Rightarrow> sp_state" where
  "Cas_exchange t v desired old stamp spurious s = (if sp_cell s = (old, stamp mod 2 ^ 16) \<and> \<not> spurious
     then sp_goto t (IncrementStrong desired (inc old (- 1) (int stamp - 1) (DecrementStrong desired SpIdle))) (s\<lparr>sp_cell := (desired, 0)\<rparr>)
     else sp_goto t (IncrementStrong old (DecrementTransient old (LdLoad v (DecrementStrong old (DecrementStrong desired SpIdle))))) s)"

subsection \<open>Steps\<close>

fun sp_go :: "tid \<Rightarrow> bool \<Rightarrow> sp_state \<Rightarrow> sp_state option" where
  "sp_go t spurious s = (case sp_pc s t of
     SpIdle \<Rightarrow> None
   | Inc c ds dt k \<Rightarrow> Some (sp_goto t k (IncrementCounter c ds dt s))
   | Assign v x k \<Rightarrow> Some (sp_goto t k (sp_let t v x s))
   | CopyTo v w \<Rightarrow> Some (copy_assign_end t v w s)
   | MoveTo v x k \<Rightarrow> Some (move_assign t v x k s)
   | LdLoad v k \<Rightarrow> Some (sp_goto t (Acquire_next (\<lambda>c st. LdCas v c st k) (Load_ref v k) (sp_cell s)) s)
   | LdCas v c st k \<Rightarrow> Some (AcquireTransientRef t c st spurious (\<lambda>c st. LdCas v c st k) (Load_ref v k) s)
   | Loaded v c st k \<Rightarrow> Some (sp_goto t (Load_overflow v c st k) s)
   | Resave v c st k \<Rightarrow> Some (sp_goto t (MoveTo v (Some c) k) (s\<lparr>sp_cell := (Some c, st)\<rparr>))
   | Xchg x \<Rightarrow> Some (Store_exchange t x s)
   | CaLoad v d \<Rightarrow> Some (sp_goto t (Acquire_next (CaCas v d) (Cas_acquired (sp_var s t) v d) (sp_cell s)) s)
   | CaCas v d c st \<Rightarrow> Some (AcquireTransientRef t c st spurious (CaCas v d) (Cas_acquired (sp_var s t) v d) s)
   | CasCell v d old st \<Rightarrow> Some (Cas_exchange t v d old st spurious s))"

datatype sp_op = SpMake bool cb | SpReset bool | SpCopy bool bool | SpMove bool | SpGet bool
  | SpLoad bool | SpStore bool bool | SpCas bool bool

fun sp_call :: "tid \<Rightarrow> sp_op \<Rightarrow> sp_state \<Rightarrow> sp_state option" where
  "sp_call t (SpMake v c) s = MakeShared t v c s"
| "sp_call t (SpReset v) s = Some (Reset t v SpIdle s)"
| "sp_call t (SpCopy v w) s = Some (copy_assign t v w s)"
| "sp_call t (SpMove v) s = Some (move_assign t v (sp_var s t (\<not> v)) SpIdle (sp_let t (\<not> v) None s))"
| "sp_call t (SpGet v) s = deref t v s"
| "sp_call t (SpLoad v) s = Some (sp_goto t (LdLoad v SpIdle) s)"
| "sp_call t (SpStore w moved) s = Some (Store t w moved s)"
| "sp_call t (SpCas v moved) s = Some (Cas_start t v moved s)"

datatype sp_act = SpCall tid sp_op | SpGo tid bool

fun sp_step :: "nat \<Rightarrow> sp_act \<Rightarrow> sp_state \<Rightarrow> sp_state option" where
  "sp_step n (SpCall t op) s = (if t < n \<and> sp_pc s t = SpIdle then sp_call t op s else None)"
| "sp_step n (SpGo t spurious) s = (if t < n then sp_go t spurious s else None)"

subsection \<open>Who holds references\<close>

definition at :: "cb option \<Rightarrow> cb \<Rightarrow> int" where
  "at x c = of_bool (x = Some c)"

text \<open>The strong and the transient references that a thread holds at a point, besides those of its variables. A negative number of
  transient ones are stamps taken over from the cell.\<close>

fun shares :: "sp_pc \<Rightarrow> cb \<Rightarrow> int" where
  "shares SpIdle c = 0"
| "shares (Inc c' ds dt k) c = shares k c - (if c = c' then ds else 0)"
| "shares (Assign v x k) c = at x c + shares k c"
| "shares (CopyTo v w) c = 0"
| "shares (MoveTo v x k) c = at x c + shares k c"
| "shares (LdLoad v k) c = shares k c"
| "shares (LdCas v c' st k) c = shares k c"
| "shares (Loaded v c' st k) c = at (Some c') c + shares k c"
| "shares (Resave v c' st k) c = at (Some c') c + shares k c"
| "shares (Xchg x) c = 2 * at x c"
| "shares (CaLoad v d) c = at d c"
| "shares (CaCas v d c' st) c = at d c"
| "shares (CasCell v d old st) c = at d c"

fun trans_refs :: "sp_pc \<Rightarrow> cb \<Rightarrow> int" where
  "trans_refs (Inc c' ds dt k) c = trans_refs k c - (if c = c' then dt else 0)"
| "trans_refs (Assign v x k) c = trans_refs k c"
| "trans_refs (MoveTo v x k) c = trans_refs k c"
| "trans_refs (LdLoad v k) c = trans_refs k c"
| "trans_refs (LdCas v c' st k) c = trans_refs k c"
| "trans_refs (Loaded v c' st k) c = trans_refs k c"
| "trans_refs (Resave v c' st k) c = trans_refs k c"
| "trans_refs (CasCell v d old st) c = at old c"
| "trans_refs _ c = 0"

definition own :: "sp_vars \<Rightarrow> cb \<Rightarrow> int" where
  "own e c = at (e False) c + at (e True) c"

definition held :: "sp_vars \<Rightarrow> sp_pc \<Rightarrow> cb \<Rightarrow> int" where
  "held e p c = own e c + shares p c"

text \<open>What the rest of a call relies on: a reference, strong or transient, wherever it changes a counter.\<close>

definition sound :: "sp_vars \<Rightarrow> sp_pc \<Rightarrow> bool" where
  "sound e p = (\<forall>c. 0 \<le> held e p c \<and> (trans_refs p c < 0 \<longrightarrow> 1 \<le> held e p c))"

fun good :: "sp_vars \<Rightarrow> sp_pc \<Rightarrow> bool" where
  "good e (Inc c ds dt k) = (sound e (Inc c ds dt k) \<and> (1 \<le> held e (Inc c ds dt k) c \<or> 1 \<le> trans_refs (Inc c ds dt k) c) \<and> good e k)"
| "good e (Assign v x k) = (sound e (Assign v x k) \<and> e v = None \<and> good (e(v := x)) k)"
| "good e (CopyTo v w) = (sound e (CopyTo v w) \<and> e v = None \<and> v \<noteq> w)"
| "good e (MoveTo v x k) = (sound e (MoveTo v x k) \<and> good (e(v := x)) k)"
| "good e (LdLoad v k) = (sound e (LdLoad v k) \<and> (\<forall>x. good (e(v := x)) k))"
| "good e (LdCas v c st k) = (sound e (LdCas v c st k) \<and> (\<forall>x. good (e(v := x)) k))"
| "good e (Loaded v c st k) = (sound e (Loaded v c st k) \<and> st \<le> kLimit \<and> good (e(v := Some c)) k)"
| "good e (Resave v c st k) = False"
| "good e (CaLoad v d) = (sound e (CaLoad v d) \<and> e (\<not> v) = d)"
| "good e (CaCas v d c st) = (sound e (CaCas v d c st) \<and> e (\<not> v) = d)"
| "good e (CasCell v d old st) = (sound e (CasCell v d old st) \<and> e (\<not> v) = d \<and> e v = old \<and> st < 2 ^ 16)"
| "good e p = sound e p"

definition sp_inv :: "nat \<Rightarrow> sp_state \<Rightarrow> bool" where
  "sp_inv n s = (\<not> sp_bad s \<and> (\<forall>c. fst (sp_count s c) = (\<Sum>t<n. held (sp_var s t) (sp_pc s t) c) + at (fst (sp_cell s)) c) \<and>
     (\<forall>c. snd (sp_count s c) + at (fst (sp_cell s)) c * int (snd (sp_cell s)) = (\<Sum>t<n. trans_refs (sp_pc s t) c)) \<and>
     (\<forall>c. sp_live s c \<longleftrightarrow> sp_count s c \<noteq> (0, 0)) \<and> (\<forall>t. good (sp_var s t) (sp_pc s t)) \<and>
     snd (sp_cell s) < 2 ^ 16)"


lemma sp_invI:
  assumes "\<not> sp_bad s" and "\<And>c. fst (sp_count s c) = (\<Sum>t<n. held (sp_var s t) (sp_pc s t) c) + at (fst (sp_cell s)) c"
    and "\<And>c. snd (sp_count s c) + at (fst (sp_cell s)) c * int (snd (sp_cell s)) = (\<Sum>t<n. trans_refs (sp_pc s t) c)"
    and "\<And>c. sp_live s c \<longleftrightarrow> sp_count s c \<noteq> (0, 0)" and "\<And>t. good (sp_var s t) (sp_pc s t)" and "snd (sp_cell s) < 2 ^ 16"
  shows "sp_inv n s"
  using assms unfolding sp_inv_def by blast

lemma sp_invD:
  assumes "sp_inv n s"
  shows "\<not> sp_bad s" and "\<And>c. fst (sp_count s c) = (\<Sum>t<n. held (sp_var s t) (sp_pc s t) c) + at (fst (sp_cell s)) c"
    and "\<And>c. snd (sp_count s c) + at (fst (sp_cell s)) c * int (snd (sp_cell s)) = (\<Sum>t<n. trans_refs (sp_pc s t) c)"
    and "\<And>c. sp_live s c \<longleftrightarrow> sp_count s c \<noteq> (0, 0)" and "\<And>t. good (sp_var s t) (sp_pc s t)" and "snd (sp_cell s) < 2 ^ 16"
  using assms unfolding sp_inv_def by blast+

lemma at_simps [simp]: "at None c = 0" "at (Some d) c = of_bool (d = c)"
  by (simp_all add: at_def)

lemma at_nonneg [simp]: "0 \<le> at x c"
  by (simp add: at_def)

lemma own_nonneg: "0 \<le> own e c"
  by (simp add: own_def)

lemma own_upd: "own (e(v := x)) c = own e c - at (e v) c + at x c"
  by (cases v) (simp_all add: own_def)

lemma own_ge: "at (e v) c \<le> own e c"
  using at_nonneg [of "e False" c] at_nonneg [of "e True" c] by (cases v) (simp_all add: own_def)

lemma own_ge1: "e v = Some c \<Longrightarrow> 1 \<le> own e c"
  using own_ge [of e v c] by (simp add: at_def)

lemma good_sound: "good e p \<Longrightarrow> sound e p"
  by (cases p) simp_all

lemma sum_one:
  fixes f :: "nat \<Rightarrow> int"
  assumes "t < n"
  shows "(\<Sum>i<n. f i) = f t + (\<Sum>i\<in>{..<n} - {t}. f i)"
  by (rule sum.remove) (use assms in auto)

text \<open>A step of thread \<open>t\<close> that moves references between its variables, its call, a counter and the cell.\<close>

lemma sp_inv_upd:
  assumes inv: "sp_inv n s" and t: "t < n" and "\<not> sp_bad s'"
    and var: "\<And>u. u \<noteq> t \<Longrightarrow> sp_var s' u = sp_var s u" and pc: "\<And>u. u \<noteq> t \<Longrightarrow> sp_pc s' u = sp_pc s u"
    and strong: "\<And>c. fst (sp_count s' c) - fst (sp_count s c) = held (sp_var s' t) (sp_pc s' t) c - held (sp_var s t) (sp_pc s t) c
      + at (fst (sp_cell s')) c - at (fst (sp_cell s)) c"
    and trans: "\<And>c. snd (sp_count s' c) - snd (sp_count s c) + at (fst (sp_cell s')) c * int (snd (sp_cell s'))
      - at (fst (sp_cell s)) c * int (snd (sp_cell s)) = trans_refs (sp_pc s' t) c - trans_refs (sp_pc s t) c"
    and live: "\<And>c. sp_live s' c \<longleftrightarrow> sp_count s' c \<noteq> (0, 0)" and good: "good (sp_var s' t) (sp_pc s' t)"
    and "snd (sp_cell s') < 2 ^ 16"
  shows "sp_inv n s'"
proof (rule sp_invI)
  note D = sp_invD [OF inv]
  have rest: "(\<Sum>i\<in>{..<n} - {t}. held (sp_var s' i) (sp_pc s' i) c) = (\<Sum>i\<in>{..<n} - {t}. held (sp_var s i) (sp_pc s i) c)"
    "(\<Sum>i\<in>{..<n} - {t}. trans_refs (sp_pc s' i) c) = (\<Sum>i\<in>{..<n} - {t}. trans_refs (sp_pc s i) c)" for c
    using var pc by (auto intro: sum.cong)
  show "fst (sp_count s' c) = (\<Sum>t<n. held (sp_var s' t) (sp_pc s' t) c) + at (fst (sp_cell s')) c" for c
    using D(2) [of c] strong [of c] sum_one [OF t, of "\<lambda>i. held (sp_var s i) (sp_pc s i) c"]
      sum_one [OF t, of "\<lambda>i. held (sp_var s' i) (sp_pc s' i) c"] rest(1) [of c] by linarith
  show "snd (sp_count s' c) + at (fst (sp_cell s')) c * int (snd (sp_cell s')) = (\<Sum>t<n. trans_refs (sp_pc s' t) c)" for c
    using D(3) [of c] trans [of c] sum_one [OF t, of "\<lambda>i. trans_refs (sp_pc s i) c"]
      sum_one [OF t, of "\<lambda>i. trans_refs (sp_pc s' i) c"] rest(2) [of c] by linarith
  show "good (sp_var s' u) (sp_pc s' u)" for u
    using D(5) [of u] good var [of u] pc [of u] by (cases "u = t") simp_all
qed (use assms(3) live assms(10) in blast)+

text \<open>Whoever holds a reference, strong or transient, finds the control block in place.\<close>

lemma held_live:
  assumes inv: "sp_inv n s" and t: "t < n"
    and ref: "1 \<le> held (sp_var s t) (sp_pc s t) c \<or> 1 \<le> trans_refs (sp_pc s t) c"
  shows "sp_live s c"
proof -
  note D = sp_invD [OF inv]
  have snd: "0 \<le> held (sp_var s i) (sp_pc s i) c" "trans_refs (sp_pc s i) c < 0 \<Longrightarrow> 1 \<le> held (sp_var s i) (sp_pc s i) c" for i
    using good_sound [OF D(5) [of i]] by (simp_all add: sound_def)
  have "sp_count s c \<noteq> (0, 0)"
  proof
    assume 0: "sp_count s c = (0, 0)"
    have "0 \<le> (\<Sum>i<n. held (sp_var s i) (sp_pc s i) c)" by (rule sum_nonneg) (rule snd(1))
    moreover have "(\<Sum>i<n. held (sp_var s i) (sp_pc s i) c) + at (fst (sp_cell s)) c = 0" using D(2) [of c] 0 by simp
    ultimately have sum0: "(\<Sum>i<n. held (sp_var s i) (sp_pc s i) c) = 0" and cell: "at (fst (sp_cell s)) c = 0"
      using at_nonneg [of "fst (sp_cell s)" c] by linarith+
    have h: "held (sp_var s i) (sp_pc s i) c = 0" if "i < n" for i
      using sum0 that snd(1) sum_nonneg_eq_0_iff [of "{..<n}" "\<lambda>i. held (sp_var s i) (sp_pc s i) c"] by simp
    have "0 \<le> trans_refs (sp_pc s i) c" if "i < n" for i using snd(2) [of i] h [OF that] by linarith
    moreover have "(\<Sum>i<n. trans_refs (sp_pc s i) c) = 0" using D(3) [of c] 0 cell by simp
    ultimately have "trans_refs (sp_pc s t) c = 0"
      using t sum_nonneg_eq_0_iff [of "{..<n}" "\<lambda>i. trans_refs (sp_pc s i) c"] by simp
    then show False using ref h [OF t] by simp
  qed
  then show ?thesis using D(4) by simp
qed


subsection \<open>Calls are well balanced\<close>

lemma inc_refs [simp]:
  "shares (inc x ds dt k) c = shares k c - ds * at x c"
  "trans_refs (inc x ds dt k) c = trans_refs k c - dt * at x c"
  by (cases x; simp add: inc_def)+

lemma good_incI:
  assumes "\<And>c. 0 \<le> held e k c - ds * at x c" and "\<And>c. trans_refs k c - dt * at x c < 0 \<Longrightarrow> 1 \<le> held e k c - ds * at x c"
    and "\<And>c. x = Some c \<Longrightarrow> 1 \<le> held e k c - ds \<or> 1 \<le> trans_refs k c - dt" and "good e k"
  shows "good e (inc x ds dt k)"
proof (cases x)
  case (Some a)
  have h: "held e (Inc a ds dt k) c = held e k c - ds * at x c" and t: "trans_refs (Inc a ds dt k) c = trans_refs k c - dt * at x c" for c
    using Some by (simp_all add: held_def)
  have "sound e (Inc a ds dt k)" unfolding sound_def h t using assms(1, 2) by blast
  moreover have "1 \<le> held e (Inc a ds dt k) a \<or> 1 \<le> trans_refs (Inc a ds dt k) a" unfolding h t using assms(3) Some by simp
  ultimately show ?thesis using assms(4) Some by (simp add: inc_def)
qed (simp add: inc_def assms(4))

lemma soundD: "sound e p \<Longrightarrow> 0 \<le> held e p c" "sound e p \<Longrightarrow> trans_refs p c < 0 \<Longrightarrow> 1 \<le> held e p c"
  by (simp_all add: sound_def)

lemma good_drop:
  assumes "good e k"
  shows "good e (DecrementStrong x k)"
  unfolding DecrementStrong_def
proof (rule good_incI [OF _ _ _ assms])
  note S = soundD [OF good_sound [OF assms]]
  show "0 \<le> held e k c - - 1 * at x c" for c using S(1) [of c] at_nonneg [of x c] by linarith
  show "1 \<le> held e k c - - 1 * at x c" if "trans_refs k c - 0 * at x c < 0" for c
    using S(2) [of c] at_nonneg [of x c] that by linarith
  show "1 \<le> held e k c - - 1 \<or> 1 \<le> trans_refs k c - 0" for c using S(1) [of c] by linarith
qed

lemma sound_idle [simp]: "sound e SpIdle"
  by (simp add: sound_def held_def own_nonneg)

lemma good_idle: "good e SpIdle"
  by simp

lemma held_assign: "held e (Assign v x k) c = held (e(v := x)) k c + at (e v) c"
  by (simp add: held_def own_upd)

lemma good_assign: "good (e(v := x)) k \<Longrightarrow> e v = None \<Longrightarrow> good e (Assign v x k)"
  using soundD [OF good_sound, of "e(v := x)" k] held_assign [of e v x k] by (simp add: sound_def)

lemma good_move: "good (e(v := x)) k \<Longrightarrow> good e (MoveTo v x k)"
proof -
  assume g: "good (e(v := x)) k"
  have h: "held e (MoveTo v x k) c = held (e(v := x)) k c + at (e v) c" for c by (simp add: held_def own_upd)
  have "sound e (MoveTo v x k)" unfolding sound_def h
    using soundD [OF good_sound [OF g]] at_nonneg [of "e v"] by (simp add: add.commute add_increasing)
  then show ?thesis using g by simp
qed

lemma good_load:
  assumes "\<And>x. good (e(v := x)) k"
  shows "good e (LdLoad v k)" and "good e (LdCas v c st k)"
  using good_sound [OF assms [of "e v"]] assms by (simp_all add: sound_def held_def)

lemma good_Load_ref:
  assumes "\<And>x. good (e(v := x)) k" and "snd r \<le> kLimit"
  shows "good e (Load_ref v k r)"
proof (cases "fst r")
  case None
  then show ?thesis using good_move [OF assms(1)] by (cases r) (simp add: Load_ref_def)
next
  case (Some c)
  note S = soundD [OF good_sound [OF assms(1) [of "e v"]]]
  have h: "held e (Loaded v c (snd r) k) d = held e k d + at (Some c) d" for d by (simp add: held_def)
  have "sound e (Loaded v c (snd r) k)"
    unfolding sound_def h using S at_nonneg [of "Some c"] by (simp add: add.commute add_increasing)
  then have g: "good e (Loaded v c (snd r) k)" using assms by simp
  have g2: "good e (DecrementTransient (Some c) (Loaded v c (snd r) k))"
    unfolding DecrementTransient_def
    by (rule good_incI [OF _ _ _ g]) (use S h in \<open>auto simp: sound_def algebra_simps of_bool_def split: if_splits\<close>)
  have "good e (IncrementStrong (Some c) (DecrementTransient (Some c) (Loaded v c (snd r) k)))"
    unfolding IncrementStrong_def
  proof (rule good_incI [OF _ _ _ g2])
    have h2: "held e (DecrementTransient (Some c) (Loaded v c (snd r) k)) d = held e k d + at (Some c) d" for d
      by (simp add: held_def DecrementTransient_def)
    show "0 \<le> held e (DecrementTransient (Some c) (Loaded v c (snd r) k)) d - 1 * at (Some c) d" for d using S(1) [of d] h2 by simp
    show "1 \<le> held e (DecrementTransient (Some c) (Loaded v c (snd r) k)) d - 1 * at (Some c) d"
      if "trans_refs (DecrementTransient (Some c) (Loaded v c (snd r) k)) d - 0 * at (Some c) d < 0" for d
      using that S(2) [of d] h2 by (simp add: DecrementTransient_def of_bool_def split: if_splits)
    show "1 \<le> held e (DecrementTransient (Some c) (Loaded v c (snd r) k)) d - 1 \<or>
      1 \<le> trans_refs (DecrementTransient (Some c) (Loaded v c (snd r) k)) d - 0" if "Some c = Some d" for d
      using that S(2) [of d] h2 by (cases "trans_refs k d < 0") (simp_all add: DecrementTransient_def)
  qed
  then show ?thesis using Some by (cases r) (simp add: Load_ref_def)
qed


lemma at_cases: "at x c = (if x = Some c then 1 else 0)"
  by (simp add: at_def)

lemmas sp_incs = IncrementStrong_def DecrementStrong_def IncrementTransient_def DecrementTransient_def

lemma good_drops: "good e (inc x (- 1) 0 (inc y (- 1) 0 SpIdle))" "good e (inc x (- 1) 0 SpIdle)"
  using good_drop [OF good_drop [OF good_idle]] good_drop [OF good_idle] by (simp_all add: DecrementStrong_def)

lemma good_Store_exchange:
  "good e (IncrementStrong old (inc old (- 1) (int st) (DecrementStrong old (DecrementStrong target SpIdle))))"
  unfolding sp_incs
  by (intro good_incI good_drops)
    (use own_nonneg [of e] in \<open>auto simp: held_def at_cases add_nonneg_nonneg algebra_simps split: if_splits\<close>)

lemma good_Xchg: "good e (IncrementStrong x (Xchg x))" "good e (IncrementStrong (e w) (IncrementStrong (e w) (Xchg (e w))))"
proof -
  have 0: "good e (Xchg x)" for x using own_nonneg [of e] by (simp add: sound_def held_def add_nonneg_nonneg)
  have 1: "good e (inc x 1 0 (Xchg x))" for x
    by (rule good_incI [OF _ _ _ 0]) (use own_nonneg [of e] in \<open>auto simp: held_def at_cases add_nonneg_nonneg split: if_splits\<close>)
  then show "good e (IncrementStrong x (Xchg x))" by (simp add: sp_incs)
  show "good e (IncrementStrong (e w) (IncrementStrong (e w) (Xchg (e w))))" unfolding sp_incs
    by (rule good_incI [OF _ _ _ 1])
      (use own_nonneg [of e] own_ge1 [of e w] in \<open>auto simp: held_def at_cases add_nonneg_nonneg split: if_splits\<close>)
qed

lemma good_CaLoad:
  assumes "e (\<not> v) = d"
  shows "good e (CaLoad v d)" and "good e (CaCas v d c st)" and "good e (IncrementStrong d (CaLoad v d))"
proof -
  show *: "good e (CaLoad v d)" and "good e (CaCas v d c st)" using assms own_nonneg [of e] by (simp_all add: sound_def held_def)
  show "good e (IncrementStrong d (CaLoad v d))" unfolding sp_incs
    by (rule good_incI [OF _ _ _ *]) (use own_nonneg [of e] own_ge1 [of e "\<not> v"] assms in \<open>auto simp: held_def at_cases split: if_splits\<close>)
qed

lemma good_Cas_acquired:
  assumes "e (\<not> v) = d" and "snd old < 2 ^ 16"
  shows "good e (Cas_acquired e v d old)"
proof (cases "fst old = e v")
  case True
  then show ?thesis using assms own_nonneg [of e]
    by (auto simp: Cas_acquired_def sound_def held_def add_nonneg_nonneg at_cases)
next
  case False
  have 1: "good (e(v := fst old)) (inc (fst old) 0 (- 1) (inc d (- 1) 0 SpIdle))"
    by (rule good_incI [OF _ _ _ good_drops(2)])
      (use own_nonneg [of "e(v := fst old)"] own_ge1 [of "e(v := fst old)" v] in \<open>auto simp: held_def add_nonneg_nonneg at_cases algebra_simps split: if_splits\<close>)
  show ?thesis using False unfolding Cas_acquired_def sp_incs
    by (simp, intro good_incI [OF _ _ _ good_move [OF 1]])
      (use own_nonneg [of e] in \<open>auto simp: held_def add_nonneg_nonneg at_cases algebra_simps split: if_splits\<close>)
qed

lemma good_Cas_success:
  assumes "e (\<not> v) = d" and "e v = old"
  shows "good e (IncrementStrong d (inc old (- 1) (int st - 1) (DecrementStrong d SpIdle)))"
  unfolding sp_incs
  by (intro good_incI [OF _ _ _ good_incI [OF _ _ _ good_drops(2)]])
    (use own_nonneg [of e] own_ge1 [of e v] own_ge1 [of e "\<not> v"] assms in
      \<open>auto simp: held_def at_cases add_nonneg_nonneg algebra_simps split: if_splits\<close>)

lemma good_Cas_failure:
  "good e (IncrementStrong old (DecrementTransient old (LdLoad v (DecrementStrong old (DecrementStrong d SpIdle)))))"
proof -
  have 1: "good e (LdLoad v (inc old (- 1) 0 (inc d (- 1) 0 SpIdle)))" by (rule good_load(1)) (rule good_drops(1))
  show ?thesis unfolding sp_incs
    by (intro good_incI [OF _ _ _ good_incI [OF _ _ _ 1]])
      (use own_nonneg [of e] in \<open>auto simp: held_def at_cases add_nonneg_nonneg algebra_simps split: if_splits\<close>)
qed


subsection \<open>Every step keeps the counts\<close>

text \<open>A step inside the thread.\<close>

lemma sp_local:
  assumes inv: "sp_inv n s" and t: "t < n"
    and s': "s' = s\<lparr>sp_var := (sp_var s)(t := e), sp_pc := (sp_pc s)(t := p)\<rparr>"
    and "good e p" and "\<And>c. held e p c = held (sp_var s t) (sp_pc s t) c" and "\<And>c. trans_refs p c = trans_refs (sp_pc s t) c"
  shows "sp_inv n s'"
  by (rule sp_inv_upd [OF inv t]) (use sp_invD [OF inv] assms(4-6) in \<open>simp_all add: s'\<close>)

lemma sp_goto_eq: "sp_goto t p s = s\<lparr>sp_var := (sp_var s)(t := sp_var s t), sp_pc := (sp_pc s)(t := p)\<rparr>"
  "sp_goto t p (sp_let t v x s) = s\<lparr>sp_var := (sp_var s)(t := (sp_var s t)(v := x)), sp_pc := (sp_pc s)(t := p)\<rparr>"
  by (simp_all add: sp_goto_def sp_let_def)

lemma sp_Reset:
  assumes inv: "sp_inv n s" and t: "t < n" and "good ((sp_var s t)(v := None)) k"
    and "\<And>c. held (sp_var s t) k c = held (sp_var s t) (sp_pc s t) c" and "\<And>c. trans_refs k c = trans_refs (sp_pc s t) c"
  shows "sp_inv n (Reset t v k s)"
  unfolding Reset_def sp_goto_eq(2)
  by (rule sp_local [OF inv t refl good_drop [OF assms(3)]]) (use assms(4, 5) in \<open>simp_all add: held_def own_upd sp_incs\<close>)

lemma sp_move_assign:
  assumes inv: "sp_inv n s" and t: "t < n" and "good ((sp_var s t)(v := x)) k"
    and "\<And>c. held (sp_var s t) (Assign v x k) c = held (sp_var s t) (sp_pc s t) c" and "\<And>c. trans_refs k c = trans_refs (sp_pc s t) c"
  shows "sp_inv n (move_assign t v x k s)"
  unfolding move_assign_def
  by (rule sp_Reset [OF inv t good_assign]) (use assms in simp_all)

lemma sp_count_step:
  assumes inv: "sp_inv n s" and t: "t < n" and pc: "sp_pc s t = Inc c ds dt k"
  shows "sp_inv n (sp_goto t k (IncrementCounter c ds dt s))"
proof -
  note D = sp_invD [OF inv]
  have g: "good (sp_var s t) (Inc c ds dt k)" using D(5) [of t] pc by simp
  then have live: "sp_live s c" using held_live [OF inv t, of c] pc by auto
  show ?thesis
    by (rule sp_inv_upd [OF inv t])
      (use D g live pc in \<open>auto simp: sp_goto_def IncrementCounter_def Let_def held_def split: if_splits\<close>)
qed

lemma sp_acquire:
  assumes inv: "sp_inv n s" and t: "t < n"
    and succ: "\<And>r. snd r \<le> kLimit \<Longrightarrow> fst r \<noteq> None \<Longrightarrow> good (sp_var s t) (succ r)"
      "\<And>r c. held (sp_var s t) (succ r) c = held (sp_var s t) (sp_pc s t) c"
      "\<And>r c. trans_refs (succ r) c = trans_refs (sp_pc s t) c + at (fst r) c"
    and nxt: "good (sp_var s t) (Acquire_next again succ (sp_cell s))"
      "\<And>c. held (sp_var s t) (Acquire_next again succ (sp_cell s)) c = held (sp_var s t) (sp_pc s t) c"
      "\<And>c. trans_refs (Acquire_next again succ (sp_cell s)) c = trans_refs (sp_pc s t) c"
    and over: "\<not> sp_over (AcquireTransientRef t a st spurious again succ s)"
  shows "sp_inv n (AcquireTransientRef t a st spurious again succ s)"
proof (cases "sp_cell s = (Some a, st) \<and> \<not> spurious")
  case False
  then show ?thesis unfolding AcquireTransientRef_def if_not_P [OF False] sp_goto_eq
    by (intro sp_local [OF inv t refl]) (use nxt in simp_all)
next
  case True
  then have st: "st + 1 \<le> kLimit" using over by (simp add: AcquireTransientRef_def sp_goto_def)
  then have "st + 1 < 2 ^ 16" by (simp add: kLimit_def)
  then have eq: "AcquireTransientRef t a st spurious again succ s =
      sp_goto t (succ (Some a, st + 1)) (s\<lparr>sp_cell := (Some a, st + 1), sp_over := sp_over s\<rparr>)"
    using True st by (simp add: AcquireTransientRef_def)
  note D = sp_invD [OF inv]
  show ?thesis unfolding eq
    by (rule sp_inv_upd [OF inv t])
      (use D succ [of "(Some a, st + 1)"] True st \<open>st + 1 < 2 ^ 16\<close> in \<open>simp_all add: sp_goto_def algebra_simps\<close>)
qed


lemma cell_cases: obtains st where "r = (None, st)" | c st where "r = (Some c, st)"
  by (metis option.exhaust prod.exhaust)

lemma held_Load_ref [simp]: "held e (Load_ref v k r) c = own e c + shares k c"
  by (cases r rule: cell_cases) (simp_all add: Load_ref_def held_def sp_incs)

lemma trans_Load_ref [simp]: "trans_refs (Load_ref v k r) c = trans_refs k c + at (fst r) c"
  by (cases r rule: cell_cases) (simp_all add: Load_ref_def sp_incs)

lemma Cas_acquired_refs [simp]:
  "held e (Cas_acquired e v d r) c = own e c + at d c"
  "trans_refs (Cas_acquired e v d r) c = at (fst r) c"
  by (simp_all add: Cas_acquired_def held_def sp_incs)

lemma Acquire_next_simps [simp]:
  "Acquire_next again succ (None, st) = succ (None, st)" "Acquire_next again succ (Some c, st) = again c st"
  by (simp_all add: Acquire_next_def)

lemma Load_next:
  assumes "\<And>x. good (e(v := x)) k"
  shows "good e (Acquire_next (\<lambda>c st. LdCas v c st k) (Load_ref v k) r)"
    and "held e (Acquire_next (\<lambda>c st. LdCas v c st k) (Load_ref v k) r) c = own e c + shares k c"
    and "trans_refs (Acquire_next (\<lambda>c st. LdCas v c st k) (Load_ref v k) r) c = trans_refs k c"
proof -
  have "good e (Load_ref v k (None, st))" for st using good_move [OF assms] by (simp add: Load_ref_def)
  then show "good e (Acquire_next (\<lambda>c st. LdCas v c st k) (Load_ref v k) r)"
    using good_load(2) [OF assms] by (cases r rule: cell_cases) (simp_all del: good.simps)
  show "held e (Acquire_next (\<lambda>c st. LdCas v c st k) (Load_ref v k) r) c = own e c + shares k c"
    by (cases r rule: cell_cases) (simp_all add: held_def [of e "LdCas a b c d" for a b c d])
  show "trans_refs (Acquire_next (\<lambda>c st. LdCas v c st k) (Load_ref v k) r) c = trans_refs k c"
    by (cases r rule: cell_cases) simp_all
qed

lemma Cas_next:
  assumes "e (\<not> v) = d" and "snd r < 2 ^ 16"
  shows "good e (Acquire_next (CaCas v d) (Cas_acquired e v d) r)"
    and "held e (Acquire_next (CaCas v d) (Cas_acquired e v d) r) c = own e c + at d c"
    and "trans_refs (Acquire_next (CaCas v d) (Cas_acquired e v d) r) c = 0"
proof -
  show "good e (Acquire_next (CaCas v d) (Cas_acquired e v d) r)"
    using good_CaLoad(2) [where e = e and v = v and d = d] good_Cas_acquired [of e v d r] assms
    by (cases r rule: cell_cases) (simp_all del: good.simps)
  show "held e (Acquire_next (CaCas v d) (Cas_acquired e v d) r) c = own e c + at d c"
    by (cases r rule: cell_cases) (simp_all add: held_def [of e "CaCas a b c d" for a b c d])
  show "trans_refs (Acquire_next (CaCas v d) (Cas_acquired e v d) r) c = 0"
    by (cases r rule: cell_cases) simp_all
qed

lemma sp_go_inv:
  assumes inv: "sp_inv n s" and t: "t < n" and go: "sp_go t spurious s = Some s'" and over: "\<not> sp_over s'"
  shows "sp_inv n s'"
proof -
  note D = sp_invD [OF inv]
  note g = D(5) [of t]
  show ?thesis
  proof (cases "sp_pc s t")
    case SpIdle
    then show ?thesis using go by simp
  next
    case (Inc c ds dt k)
    then show ?thesis using sp_count_step [OF inv t Inc] go by simp
  next
    case (Assign v x k)
    have s': "s' = sp_goto t k (sp_let t v x s)" using go Assign by simp
    show ?thesis unfolding s' sp_goto_eq(2)
      by (rule sp_local [OF inv t refl]) (use g Assign in \<open>auto simp: held_def own_upd\<close>)
  next
    case (CopyTo v w)
    have s': "s' = copy_assign_end t v w s" using go CopyTo by simp
    have o: "own ((sp_var s t)(v := x)) c = own (sp_var s t) c + at x c" for x c
    proof -
      have "sp_var s t v = None" using g [unfolded CopyTo] by (simp only: good.simps)
      then show ?thesis by (simp add: own_upd)
    qed
    have "good ((sp_var s t)(v := sp_var s t w)) (inc (sp_var s t w) 1 0 SpIdle)"
      by (rule good_incI [OF _ _ _ good_idle])
        (use own_nonneg [of "sp_var s t"] own_ge1 [of "sp_var s t" w] in \<open>simp_all add: held_def o\<close>)
    then show ?thesis unfolding s' copy_assign_end_def sp_goto_eq(2) sp_incs
      by (intro sp_local [OF inv t refl]) (use CopyTo o in \<open>simp_all add: held_def\<close>)
  next
    case (MoveTo v x k)
    have s': "s' = move_assign t v x k s" using go MoveTo by simp
    show ?thesis unfolding s'
      by (rule sp_move_assign [OF inv t]) (use g MoveTo in \<open>auto simp: held_def\<close>)
  next
    case (LdLoad v k)
    have s': "s' = sp_goto t (Acquire_next (\<lambda>c st. LdCas v c st k) (Load_ref v k) (sp_cell s)) s" using go LdLoad by simp
    have k: "\<And>x. good ((sp_var s t)(v := x)) k" using g LdLoad by simp
    show ?thesis unfolding s' sp_goto_eq(1)
      by (rule sp_local [OF inv t refl Load_next(1) [OF k]]) (use Load_next(2, 3) [OF k] LdLoad in \<open>simp_all add: held_def\<close>)
  next
    case (LdCas v a st k)
    have s': "s' = AcquireTransientRef t a st spurious (\<lambda>c st. LdCas v c st k) (Load_ref v k) s" using go LdCas by simp
    have k: "\<And>x. good ((sp_var s t)(v := x)) k" using g LdCas by simp
    show ?thesis unfolding s'
      by (rule sp_acquire [OF inv t]) (use good_Load_ref [OF k] Load_next [OF k] LdCas over s' in \<open>simp_all add: held_def [of _ "LdCas _ _ _ _"]\<close>)
  next
    case (Loaded v a st k)
    have s': "s' = sp_goto t (MoveTo v (Some a) k) s" using go Loaded g by (simp add: Load_overflow_def)
    show ?thesis unfolding s' sp_goto_eq(1)
      by (rule sp_local [OF inv t refl good_move]) (use g Loaded in \<open>auto simp: held_def\<close>)
  next
    case (Resave v c st k)
    then show ?thesis using g by simp
  next
    case (Xchg x)
    have s': "s' = Store_exchange t x s" using go Xchg by simp
    show ?thesis unfolding s'
      by (rule sp_inv_upd [OF inv t])
        (use D Xchg good_Store_exchange in \<open>auto simp: Store_exchange_def sp_goto_def held_def sp_incs algebra_simps split: prod.splits\<close>)
  next
    case (CaLoad v d)
    have s': "s' = sp_goto t (Acquire_next (CaCas v d) (Cas_acquired (sp_var s t) v d) (sp_cell s)) s" using go CaLoad by simp
    have d: "sp_var s t (\<not> v) = d" using g CaLoad by simp
    show ?thesis unfolding s' sp_goto_eq(1)
      by (rule sp_local [OF inv t refl Cas_next(1) [where e = "sp_var s t" and v = v and d = d, OF d D(6)]])
        (use Cas_next(2, 3) [where e = "sp_var s t" and v = v and d = d, OF d D(6)] CaLoad in \<open>simp_all add: held_def [of _ "CaLoad _ _"]\<close>)
  next
    case (CaCas v d a st)
    have s': "s' = AcquireTransientRef t a st spurious (CaCas v d) (Cas_acquired (sp_var s t) v d) s" using go CaCas by simp
    have d: "sp_var s t (\<not> v) = d" using g CaCas by simp
    have "snd r < 2 ^ 16" if "snd r \<le> kLimit" for r :: "cb option \<times> nat" using that by (simp add: kLimit_def)
    then show ?thesis unfolding s'
      by (intro sp_acquire [OF inv t])
        (use good_Cas_acquired [where e = "sp_var s t" and v = v and d = d, OF d] Cas_next [where e = "sp_var s t" and v = v and d = d, OF d D(6)] CaCas over s' in \<open>simp_all add: held_def [of _ "CaCas _ _ _ _"]\<close>)
  next
    case (CasCell v d old st)
    have s': "s' = Cas_exchange t v d old st spurious s" using go CasCell by simp
    have e: "sp_var s t (\<not> v) = d" "sp_var s t v = old" "st < 2 ^ 16" using g CasCell by simp_all
    show ?thesis
    proof (cases "sp_cell s = (old, st mod 2 ^ 16) \<and> \<not> spurious")
      case True
      then show ?thesis unfolding s'
        by (intro sp_inv_upd [OF inv t])
          (use D CasCell good_Cas_success [where e = "sp_var s t" and v = v and d = d and old = old and st = st, OF e(1, 2)] e(3) in
            \<open>simp_all add: Cas_exchange_def sp_goto_def held_def sp_incs algebra_simps\<close>)
    next
      case False
      show ?thesis unfolding s' Cas_exchange_def if_not_P [OF False] sp_goto_eq(1)
        by (rule sp_local [OF inv t refl good_Cas_failure]) (use CasCell in \<open>simp_all add: held_def sp_incs\<close>)
    qed
  qed
qed


text \<open>A compare-exchange whose \<open>desired\<close> stays in a variable of the caller.\<close>

definition keeps_desired :: "sp_act \<Rightarrow> bool" where
  "keeps_desired a = (case a of SpCall t (SpCas v moved) \<Rightarrow> \<not> moved | _ \<Rightarrow> True)"

lemma sp_make_inv:
  assumes inv: "sp_inv n s" and t: "t < n" and idle: "sp_pc s t = SpIdle" and call: "MakeShared t v c s = Some s'"
  shows "sp_inv n s'"
proof -
  note D = sp_invD [OF inv]
  have dead: "sp_count s c = (0, 0)" "\<not> sp_live s c" using call D(4) [of c] by (auto simp: MakeShared_def split: if_splits)
  let ?p = "DecrementStrong (sp_var s t v) (Assign v (Some c) SpIdle)"
  have s': "s' = s\<lparr>sp_count := (sp_count s)(c := (1, 0)), sp_live := (sp_live s)(c := True),
      sp_var := (sp_var s)(t := (sp_var s t)(v := None)), sp_pc := (sp_pc s)(t := ?p)\<rparr>"
    using call dead(2)
    by (simp add: MakeShared_def move_assign_def Reset_def sp_goto_def sp_let_def IncrementCounter_def Let_def)
  have g: "good ((sp_var s t)(v := None)) ?p" by (rule good_drop, rule good_assign) simp_all
  show ?thesis
  proof (rule sp_inv_upd [OF inv t])
    show "good (sp_var s' t) (sp_pc s' t)" using g by (simp add: s')
    show "\<And>d. sp_live s' d \<longleftrightarrow> sp_count s' d \<noteq> (0, 0)" using D(4) dead by (simp add: s')
  qed (use D(1, 6) dead idle in \<open>simp_all add: s' held_def own_upd sp_incs\<close>)
qed

lemma sp_call_inv:
  assumes inv: "sp_inv n s" and t: "t < n" and idle: "sp_pc s t = SpIdle" and call: "sp_call t op s = Some s'"
    and keep: "keeps_desired (SpCall t op)"
  shows "sp_inv n s'"
proof (cases op)
  case (SpMake v c)
  then show ?thesis using sp_make_inv [OF inv t idle] call by simp
next
  case (SpReset v)
  then show ?thesis using sp_Reset [OF inv t, of v SpIdle] idle call by simp
next
  case (SpCopy v w)
  have g: "good ((sp_var s t)(v := None)) (CopyTo v w)" if "v \<noteq> w"
    using that own_nonneg [of "(sp_var s t)(v := None)"] by (simp add: sound_def held_def)
  have "s' = s" if "v = w" using that SpCopy call by (simp add: copy_assign_def)
  moreover have "sp_inv n s'" if "v \<noteq> w"
  proof -
    have "s' = Reset t v (CopyTo v w) s" using that SpCopy call by (simp add: copy_assign_def)
    then show ?thesis using sp_Reset [OF inv t g [OF that]] idle by (simp add: held_def)
  qed
  ultimately show ?thesis using inv by blast
next
  case (SpMove v)
  let ?x = "sp_var s t (\<not> v)"
  have "s' = s\<lparr>sp_var := (sp_var s)(t := \<lambda>_. None), sp_pc := (sp_pc s)(t := DecrementStrong (sp_var s t v) (Assign v ?x SpIdle))\<rparr>"
    using SpMove call by (auto simp: move_assign_def Reset_def sp_goto_def sp_let_def fun_eq_iff)
  then show ?thesis
    by (rule sp_local [OF inv t _ good_drop [OF good_assign]])
      (use idle in \<open>cases v; simp add: held_def own_def sp_incs\<close>)+
next
  case (SpGet v)
  then obtain c where c: "sp_var s t v = Some c" and s': "s' = s\<lparr>sp_bad := (sp_bad s \<or> \<not> sp_live s c)\<rparr>"
    using call by (auto simp: deref_def split: option.splits)
  have "1 \<le> held (sp_var s t) (sp_pc s t) c" using own_ge1 [of "sp_var s t", OF c] idle by (simp add: held_def)
  then have "s' = s" using held_live [OF inv t, of c] sp_invD(1) [OF inv] by (simp add: s')
  then show ?thesis using inv by simp
next
  case (SpLoad v)
  then have s': "s' = sp_goto t (LdLoad v SpIdle) s" using call by simp
  show ?thesis unfolding s' sp_goto_eq(1)
    by (rule sp_local [OF inv t refl good_load(1)]) (use idle in \<open>simp_all add: held_def\<close>)
next
  case (SpStore w moved)
  show ?thesis
  proof (cases moved)
    case True
    then have s': "s' = sp_goto t (IncrementStrong (sp_var s t w) (Xchg (sp_var s t w))) (sp_let t w None s)"
      using SpStore call by (simp add: Store_def Let_def)
    show ?thesis unfolding s' sp_goto_eq(2)
      by (rule sp_local [OF inv t refl good_Xchg(1)]) (use idle in \<open>simp_all add: held_def own_upd sp_incs\<close>)
  next
    case False
    then have s': "s' = sp_goto t (IncrementStrong (sp_var s t w) (IncrementStrong (sp_var s t w) (Xchg (sp_var s t w)))) s"
      using SpStore call by (simp add: Store_def Let_def)
    show ?thesis unfolding s' sp_goto_eq(1)
      by (rule sp_local [OF inv t refl good_Xchg(2)]) (use idle in \<open>simp_all add: held_def sp_incs\<close>)
  qed
next
  case (SpCas v moved)
  then have s': "s' = sp_goto t (IncrementStrong (sp_var s t (\<not> v)) (CaLoad v (sp_var s t (\<not> v)))) s"
    using call keep by (simp add: Cas_start_def Let_def keeps_desired_def)
  show ?thesis unfolding s' sp_goto_eq(1)
    by (rule sp_local [OF inv t refl good_CaLoad(3) [where e = "sp_var s t" and v = v, OF refl]]) (use idle in \<open>simp_all add: held_def sp_incs\<close>)
qed

lemma sp_over_go: "sp_go t spurious s = Some s' \<Longrightarrow> sp_over s \<Longrightarrow> sp_over s'"
  by (auto simp: sp_goto_def sp_let_def IncrementCounter_def Reset_def copy_assign_end_def move_assign_def AcquireTransientRef_def
      Store_exchange_def Cas_exchange_def Let_def split: sp_pc.splits prod.splits if_splits)

lemma sp_over_call: "sp_call t op s = Some s' \<Longrightarrow> sp_over s' = sp_over s"
  by (cases op) (auto simp: sp_goto_def sp_let_def IncrementCounter_def Reset_def copy_assign_def move_assign_def MakeShared_def
      deref_def Store_def Cas_start_def Let_def split: if_splits option.splits)

lemma sp_step_inv:
  assumes "sp_inv n s" and "sp_step n a s = Some s'" and "keeps_desired a" and "\<not> sp_over s'"
  shows "sp_inv n s'"
  using assms sp_call_inv [OF assms(1)] sp_go_inv [OF assms(1)] by (cases a) (auto split: if_splits)

lemma sp_over_step: "sp_step n a s = Some s' \<Longrightarrow> sp_over s \<Longrightarrow> sp_over s'"
  using sp_over_go sp_over_call by (cases a) (auto split: if_splits)

lemma sp_inv_start: "sp_inv n sp_start"
  by (rule sp_invI) (simp_all add: sp_start_def held_def own_def)

lemma sp_over_run: "sp_over s \<Longrightarrow> sp_over (run (sp_step n) as s)"
  by (rule run_keeps) (use sp_over_step in blast)+

lemma sp_run_inv:
  "sp_inv n s \<Longrightarrow> list_all keeps_desired as \<Longrightarrow> \<not> sp_over (run (sp_step n) as s) \<Longrightarrow> sp_inv n (run (sp_step n) as s)"
proof (induction as arbitrary: s)
  case (Cons a as)
  show ?case
  proof (cases "sp_step n a s")
    case None
    then show ?thesis using Cons by simp
  next
    case (Some s')
    then have "\<not> sp_over s'" using Cons.prems(3) sp_over_run by auto
    then show ?thesis using Cons Some sp_step_inv [OF Cons.prems(1) Some] by simp
  qed
qed simp


text \<open>C11: For any threads and any schedule of MakeShared, Reset, copies, moves, dereferences, Load, Store and CompareExchangeWeak, spurious
  failures included, in which no stamp exceeds the limit of Load and \<open>desired\<close> stays in a variable of the caller: no deleted control block is
  used or deleted again, whatever the cell or a variable of an idle thread holds is there, and once no call is running a control block exists exactly
  when a variable or the cell holds it, with the number of those holders as its strong count.\<close>

theorem atomic_shared_ptr_correct:
  assumes "list_all keeps_desired sched" and "\<not> sp_over (run (sp_step n) sched sp_start)"
  shows "let s = run (sp_step n) sched sp_start in \<not> sp_bad s \<and>
    (\<forall>t v c. t < n \<and> sp_pc s t = SpIdle \<and> sp_var s t v = Some c \<longrightarrow> sp_live s c) \<and> (\<forall>c. fst (sp_cell s) = Some c \<longrightarrow> sp_live s c) \<and>
    ((\<forall>t. sp_pc s t = SpIdle) \<longrightarrow> (\<forall>c. fst (sp_count s c) = (\<Sum>t<n. own (sp_var s t) c) + at (fst (sp_cell s)) c \<and>
       (sp_live s c \<longleftrightarrow> fst (sp_cell s) = Some c \<or> (\<exists>t<n. \<exists>v. sp_var s t v = Some c))))"
proof -
  define s where "s = run (sp_step n) sched sp_start"
  have inv: "sp_inv n s" unfolding s_def by (rule sp_run_inv [OF sp_inv_start assms])
  note D = sp_invD [OF inv]
  have h0: "0 \<le> held (sp_var s t) (sp_pc s t) c" for t c using soundD(1) [OF good_sound [OF D(5)]] .
  have cell: "sp_live s c" if "fst (sp_cell s) = Some c" for c
  proof -
    have "0 \<le> (\<Sum>t<n. held (sp_var s t) (sp_pc s t) c)" by (rule sum_nonneg) (rule h0)
    then have "fst (sp_count s c) \<noteq> 0" using D(2) [of c] that by simp
    then show ?thesis using D(4) [of c] by auto
  qed
  have idle: "fst (sp_count s c) = (\<Sum>t<n. own (sp_var s t) c) + at (fst (sp_cell s)) c" if "\<forall>t. sp_pc s t = SpIdle" for c
    using D(2) [of c] that by (simp add: held_def)
  have var: "sp_live s c" if "t < n" "sp_pc s t = SpIdle" "sp_var s t v = Some c" for t v c
    using held_live [OF inv that(1), of c] own_ge1 [of "sp_var s t", OF that(3)] that(2) by (simp add: held_def)
  have exact: "fst (sp_cell s) = Some c \<or> (\<exists>t<n. \<exists>v. sp_var s t v = Some c)" if "\<forall>t. sp_pc s t = SpIdle" "sp_live s c" for c
  proof (rule ccontr)
    assume no: "\<not> ?thesis"
    then have "own (sp_var s t) c = 0" if "t < n" for t using that by (auto simp: own_def at_def)
    then have "fst (sp_count s c) = 0" using idle [OF that(1), of c] no by (simp add: at_def)
    moreover have "snd (sp_count s c) = 0" using D(3) [of c] that(1) no by (simp add: at_def)
    ultimately show False using D(4) [of c] that(2) by (simp add: prod_eq_iff)
  qed
  show ?thesis unfolding s_def [symmetric] Let_def using D(1) var cell idle exact by blast
qed


text \<open>A witness: thread 1 loads the pointer while thread 0 replaces it, and lets go of it last; then thread 0 exchanges the second block for a third.\<close>

lemma atomic_shared_ptr_correct_witness:
  "let s = run (sp_step 2) ([SpCall 0 (SpMake False 7)] @ replicate 3 (SpGo 0 False) @ [SpCall 0 (SpStore False True)] @ replicate 5 (SpGo 0 False) @
      [SpCall 1 (SpLoad False)] @ replicate 3 (SpGo 1 False) @ [SpCall 0 (SpMake False 8)] @ replicate 3 (SpGo 0 False) @
      [SpCall 0 (SpStore False False)] @ replicate 9 (SpGo 0 False) @ replicate 5 (SpGo 1 False) @ [SpCall 1 (SpGet False), SpCall 1 (SpReset False)] @
      replicate 2 (SpGo 1 False) @ [SpCall 0 (SpMake True 9)] @ replicate 3 (SpGo 0 False) @ [SpCall 0 (SpCas False False)] @ replicate 9 (SpGo 0 False)) sp_start
   in \<not> sp_bad s \<and> sp_cell s = (Some 9, 0) \<and> sp_live s 8 \<and> sp_count s 9 = (2, 0) \<and> \<not> sp_live s 7"
proof -
  define a where "a = [SpCall 0 (SpMake False 7)] @ replicate 3 (SpGo 0 False) @ [SpCall 0 (SpStore False True)] @ replicate 5 (SpGo 0 False) @
      [SpCall 1 (SpLoad False)] @ replicate 3 (SpGo 1 False) @ [SpCall 0 (SpMake False 8)] @ replicate 3 (SpGo 0 False) @
      [SpCall 0 (SpStore False False)] @ replicate 9 (SpGo 0 False) @ replicate 5 (SpGo 1 False) @ [SpCall 1 (SpGet False), SpCall 1 (SpReset False)] @
      replicate 2 (SpGo 1 False) @ [SpCall 0 (SpMake True 9)] @ replicate 3 (SpGo 0 False) @ [SpCall 0 (SpCas False False)] @ replicate 9 (SpGo 0 False)"
  have p: "list_all keeps_desired a" "\<not> sp_over (run (sp_step 2) a sp_start)" "sp_cell (run (sp_step 2) a sp_start) = (Some 9, 0)"
    "sp_pc (run (sp_step 2) a sp_start) 0 = SpIdle" "sp_var (run (sp_step 2) a sp_start) 0 False = Some 8"
    "sp_count (run (sp_step 2) a sp_start) 9 = (2, 0)" "\<not> sp_live (run (sp_step 2) a sp_start) 7"
    unfolding a_def by code_simp+
  note c = atomic_shared_ptr_correct [OF p(1, 2), unfolded Let_def]
  have "\<not> sp_bad (run (sp_step 2) a sp_start)" and "sp_live (run (sp_step 2) a sp_start) 8"
    using c [THEN conjunct1] c [THEN conjunct2, THEN conjunct1, rule_format, of 0 False 8] p(4, 5) by simp_all
  then show ?thesis unfolding a_def [symmetric] Let_def using p by simp
qed

text \<open>With a temporary as \<open>desired\<close> the exchange publishes the block before it counts the cell's reference: another thread can take it
  out and delete it in between, and the late increment uses a deleted block.\<close>

theorem shared_ptr_cas_use_after_free:
  "sp_bad (run (sp_step 2) ([SpCall 0 (SpMake True 5)] @ replicate 2 (SpGo 0 False) @ [SpCall 0 (SpCas False True)] @ replicate 2 (SpGo 0 False) @
      [SpCall 1 (SpStore False True)] @ replicate 5 (SpGo 1 False) @ replicate 2 (SpGo 0 False)) sp_start)"
  by code_simp

end
