(* ===== verification/Fibers.thy ===== *)
theory Fibers
  imports Prelude
begin

section \<open>Fibers\<close>

text \<open>
  \<open>exe/fibers/core/fiber.cpp\<close> with \<open>sched/{go,yield,suspend,sleep_for}.cpp\<close> in its three versions: \<open>fibers/yield\<close> reschedules a fiber
  that came back from its coroutine, \<open>fibers/mutex\<close> asks the awaiter that the fiber left behind, \<open>fibers/sleep_for\<close> looks at the
  fiber's status. A fiber's routine is a list of instructions; its coroutine (\<open>Coroutine\<close>) holds the code to go on with while it is
  suspended. Workers take tasks from the queue of the scheduler. A step is what a worker does up to its next access to something shared;
  a timer may expire at any time.
\<close>

datatype finstr = FEmit nat | FYield | FSleep | FGo "finstr list"

datatype fb_kind = KYield | KAwait | KSleep

datatype fb_status = Runnable | Running | Sleeping

text \<open>What is submitted to the scheduler: a call of Run, or the deferred start of a timer.\<close>

datatype fb_task = TRun nat | TWait nat

datatype fb_awaiter = YieldAwaiter

datatype fb_worker = WIdle | WRun nat | WCode nat "finstr list" | WBack nat

record fb_state =
  coro_rest :: "nat \<Rightarrow> finstr list option"     \<comment> \<open>the saved context of \<open>coro_\<close>\<close>
  coro_done :: "nat \<Rightarrow> bool"                   \<comment> \<open>IsCompleted\<close>
  fb_aw :: "nat \<Rightarrow> fb_awaiter option"
  fb_stat :: "nat \<Rightarrow> fb_status"
  fb_live :: "nat \<Rightarrow> bool"
  fiber_id :: nat                             \<comment> \<open>the number of fibers created\<close>
  fb_tasks :: "fb_task list"
  fb_timers :: "nat list"
  current_fiber :: "tid \<Rightarrow> nat option"        \<comment> \<open>thread-local\<close>
  fb_workers :: "tid \<Rightarrow> fb_worker"
  fb_out :: "(nat \<times> nat) list"
  fb_bad :: bool                              \<comment> \<open>a missing context, awaiter or fiber was used\<close>
  fb_prog :: "nat \<Rightarrow> finstr list"              \<comment> \<open>ghost: the routine\<close>

definition fb_empty :: fb_state where
  "fb_empty = \<lparr>coro_rest = (\<lambda>_. None), coro_done = (\<lambda>_. False), fb_aw = (\<lambda>_. None), fb_stat = (\<lambda>_. Runnable), fb_live = (\<lambda>_. False),
     fiber_id = 0, fb_tasks = [], fb_timers = [], current_fiber = (\<lambda>_. None), fb_workers = (\<lambda>_. WIdle), fb_out = [], fb_bad = False,
     fb_prog = (\<lambda>_. [])\<rparr>"

definition fb_goto :: "tid \<Rightarrow> fb_worker \<Rightarrow> fb_state \<Rightarrow> fb_state" where
  "fb_goto t w s = s\<lparr>fb_workers := (fb_workers s)(t := w)\<rparr>"

subsection \<open>Operations\<close>

definition Fiber_Schedule :: "nat \<Rightarrow> fb_state \<Rightarrow> fb_state" where
  "Fiber_Schedule f s = s\<lparr>fb_tasks := fb_tasks s @ [TRun f]\<rparr>"

text \<open>The constructor.\<close>

definition Fiber_new :: "finstr list \<Rightarrow> fb_state \<Rightarrow> nat \<times> fb_state" where
  "Fiber_new routine s = (let f = Suc (fiber_id s) in
     (f, s\<lparr>fiber_id := f, coro_rest := (coro_rest s)(f := Some routine), fb_live := (fb_live s)(f := True), fb_prog := (fb_prog s)(f := routine)\<rparr>))"

definition fibers_Go :: "finstr list \<Rightarrow> fb_state \<Rightarrow> fb_state" where
  "fibers_Go routine s = (case Fiber_new routine s of (f, s1) \<Rightarrow> Fiber_Schedule f s1)"

text \<open>Run up to the switch into the coroutine.\<close>

definition Coro_Resume :: "tid \<Rightarrow> nat \<Rightarrow> fb_state \<Rightarrow> fb_state" where
  "Coro_Resume t f s = (case coro_rest s f of
     None \<Rightarrow> fb_goto t WIdle (s\<lparr>fb_bad := True\<rparr>)
   | Some code \<Rightarrow> fb_goto t (WCode f code) (s\<lparr>coro_rest := (coro_rest s)(f := None)\<rparr>))"

definition Run_plain :: "tid \<Rightarrow> nat \<Rightarrow> fb_state \<Rightarrow> fb_state" where
  "Run_plain t f s = Coro_Resume t f (s\<lparr>current_fiber := (current_fiber s)(t := Some f)\<rparr>)"

definition Run_status :: "tid \<Rightarrow> nat \<Rightarrow> fb_state \<Rightarrow> fb_state" where
  "Run_status t f s = Coro_Resume t f (s\<lparr>current_fiber := (current_fiber s)(t := Some f), fb_stat := (fb_stat s)(f := Running)\<rparr>)"

text \<open>Run after the coroutine has switched back: \<open>delete this\<close>, or the version's way on.\<close>

definition Run_delete :: "nat \<Rightarrow> fb_state \<Rightarrow> fb_state" where
  "Run_delete f s = s\<lparr>fb_bad := (fb_bad s \<or> \<not> fb_live s f), fb_live := (fb_live s)(f := False)\<rparr>"

definition Run_yield_end :: "nat \<Rightarrow> fb_state \<Rightarrow> fb_state" where
  "Run_yield_end f s = (if coro_done s f then Run_delete f s else Fiber_Schedule f s)"

definition AwaitSuspend_yield :: "nat \<Rightarrow> fb_state \<Rightarrow> fb_state" where
  "AwaitSuspend_yield f s = Fiber_Schedule f s"

definition Run_await_end :: "nat \<Rightarrow> fb_state \<Rightarrow> fb_state" where
  "Run_await_end f s = (if coro_done s f then Run_delete f s
     else (let s1 = s\<lparr>fb_aw := (fb_aw s)(f := None)\<rparr> in case fb_aw s f of
         None \<Rightarrow> s1\<lparr>fb_bad := True\<rparr>
       | Some YieldAwaiter \<Rightarrow> AwaitSuspend_yield f s1))"

definition Run_sleep_end :: "nat \<Rightarrow> fb_state \<Rightarrow> fb_state" where
  "Run_sleep_end f s = (if coro_done s f then Run_delete f s
     else if fb_stat s f = Sleeping then s
     else Fiber_Schedule f s)"

text \<open>Suspend of the fiber \<open>g\<close> that Self() names, called by the code of a coroutine on worker \<open>t\<close>: the coroutine's context is saved.\<close>

definition Fiber_Suspend :: "nat \<Rightarrow> finstr list \<Rightarrow> fb_state \<Rightarrow> fb_state" where
  "Fiber_Suspend g r s = s\<lparr>coro_rest := (coro_rest s)(g := Some r)\<rparr>"

definition Fiber_Suspend_await :: "nat \<Rightarrow> fb_awaiter \<Rightarrow> finstr list \<Rightarrow> fb_state \<Rightarrow> fb_state" where
  "Fiber_Suspend_await g aw r s = (s\<lparr>fb_aw := (fb_aw s)(g := Some aw)\<rparr>)\<lparr>coro_rest := (coro_rest s)(g := Some r)\<rparr>"

definition fibers_Yield :: "fb_kind \<Rightarrow> tid \<Rightarrow> nat \<Rightarrow> finstr list \<Rightarrow> fb_state \<Rightarrow> fb_state" where
  "fibers_Yield kind t f r s = (case current_fiber s t of None \<Rightarrow> fb_goto t WIdle (s\<lparr>fb_bad := True\<rparr>)
     | Some g \<Rightarrow> fb_goto t (WBack f) (if kind = KAwait then Fiber_Suspend_await g YieldAwaiter r s else Fiber_Suspend g r s))"

definition MarkSleep :: "nat \<Rightarrow> fb_state \<Rightarrow> fb_state" where
  "MarkSleep f s = s\<lparr>fb_stat := (fb_stat s)(f := Sleeping)\<rparr>"

text \<open>SleepFor: mark, defer the timer, then Yield.\<close>

definition SleepFor :: "tid \<Rightarrow> nat \<Rightarrow> finstr list \<Rightarrow> fb_state \<Rightarrow> fb_state" where
  "SleepFor t f r s = (case current_fiber s t of None \<Rightarrow> fb_goto t WIdle (s\<lparr>fb_bad := True\<rparr>)
     | Some g \<Rightarrow> fb_goto t (WCode f (FYield # r)) ((MarkSleep g s)\<lparr>fb_tasks := fb_tasks s @ [TWait g]\<rparr>))"

definition WakeAndRun :: "tid \<Rightarrow> nat \<Rightarrow> fb_state \<Rightarrow> fb_state" where
  "WakeAndRun t f s = fb_goto t (WRun f) (s\<lparr>fb_stat := (fb_stat s)(f := Runnable)\<rparr>)"

text \<open>The code of fiber \<open>f\<close>; at its end the coroutine is complete and switches back.\<close>

fun fb_code :: "fb_kind \<Rightarrow> tid \<Rightarrow> nat \<Rightarrow> finstr list \<Rightarrow> fb_state \<Rightarrow> fb_state option" where
  "fb_code kind t f [] s = Some (fb_goto t (WBack f) (s\<lparr>coro_done := (coro_done s)(f := True)\<rparr>))"
| "fb_code kind t f (FEmit x # r) s = Some (fb_goto t (WCode f r) (s\<lparr>fb_out := fb_out s @ [(f, x)]\<rparr>))"
| "fb_code kind t f (FGo p # r) s = Some (fb_goto t (WCode f r) (fibers_Go p s))"
| "fb_code kind t f (FYield # r) s = Some (fibers_Yield kind t f r s)"
| "fb_code kind t f (FSleep # r) s = (if kind = KSleep then Some (SleepFor t f r s) else None)"

definition fb_take :: "tid \<Rightarrow> fb_state \<Rightarrow> fb_state option" where
  "fb_take t s = (case fb_tasks s of
     [] \<Rightarrow> None
   | TRun f # q \<Rightarrow> Some (fb_goto t (WRun f) (s\<lparr>fb_tasks := q\<rparr>))
   | TWait f # q \<Rightarrow> Some (s\<lparr>fb_tasks := q, fb_timers := fb_timers s @ [f]\<rparr>))"

datatype fb_act = FbStep tid | FbFire tid nat

fun fb_step :: "fb_kind \<Rightarrow> nat \<Rightarrow> fb_act \<Rightarrow> fb_state \<Rightarrow> fb_state option" where
  "fb_step kind n (FbStep t) s = (if t < n then (case fb_workers s t of
       WIdle \<Rightarrow> fb_take t s
     | WRun f \<Rightarrow> Some (if kind = KSleep then Run_status t f s else Run_plain t f s)
     | WCode f code \<Rightarrow> fb_code kind t f code s
     | WBack f \<Rightarrow> Some (fb_goto t WIdle (case kind of KYield \<Rightarrow> Run_yield_end f s | KAwait \<Rightarrow> Run_await_end f s | KSleep \<Rightarrow> Run_sleep_end f s)))
     else None)"
| "fb_step kind n (FbFire t f) s = (if t < n \<and> fb_workers s t = WIdle \<and> f \<in> set (fb_timers s)
     then Some (WakeAndRun t f (s\<lparr>fb_timers := remove1 f (fb_timers s)\<rparr>)) else None)"

definition fb_start :: "finstr list list \<Rightarrow> fb_state" where
  "fb_start ps = fold fibers_Go ps fb_empty"

subsection \<open>What a fiber is to do\<close>

fun emits :: "finstr list \<Rightarrow> nat list" where
  "emits [] = []"
| "emits (FEmit x # r) = x # emits r"
| "emits (_ # r) = emits r"

definition outs :: "nat \<Rightarrow> fb_state \<Rightarrow> nat list" where
  "outs f s = map snd (filter (\<lambda>p. fst p = f) (fb_out s))"

fun calm :: "finstr \<Rightarrow> bool" where
  "calm FSleep = False"
| "calm (FGo p) = (\<forall>i\<in>set p. calm i)"
| "calm _ = True"


subsection \<open>Where a fiber is\<close>

definition works_on :: "nat \<Rightarrow> fb_worker \<Rightarrow> bool" where
  "works_on f w = (case w of WIdle \<Rightarrow> False | WRun g \<Rightarrow> g = f | WCode g c \<Rightarrow> g = f | WBack g \<Rightarrow> g = f)"

definition wakes :: "nat \<Rightarrow> fb_state \<Rightarrow> nat" where
  "wakes f s = count_list (fb_tasks s) (TWait f) + count_list (fb_timers s) f"

text \<open>A fiber's code: without SleepFor, unless it is the version with one worker.\<close>

definition code_ok :: "fb_kind \<Rightarrow> nat \<Rightarrow> finstr list \<Rightarrow> bool" where
  "code_ok kind n c = (kind = KSleep \<and> n = 1 \<or> (\<forall>i\<in>set c. calm i))"

text \<open>A fiber is in the queue, on one worker, or asleep; asleep means that one timer is on its way.\<close>

definition fiber_good :: "fb_kind \<Rightarrow> nat \<Rightarrow> nat \<Rightarrow> nat \<Rightarrow> bool \<Rightarrow> finstr list option \<Rightarrow> bool \<Rightarrow> fb_status \<Rightarrow> finstr list \<Rightarrow> nat list \<Rightarrow>
    nat \<Rightarrow> nat \<Rightarrow> nat \<Rightarrow> bool" where
  "fiber_good kind n f created live rest done stat prog out w q k =
     ((if live
       then w + q + (if w = 0 then k else 0) = 1 \<and> k \<le> 1 \<and> (k = 1 \<longleftrightarrow> stat = Sleeping) \<and> 0 < f \<and> f \<le> created \<and> (w = 0 \<longrightarrow> rest \<noteq> None \<and> \<not> done)
       else w + q + k = 0 \<and> (if 0 < f \<and> f \<le> created then done else \<not> done \<and> stat \<noteq> Sleeping)) \<and>
      (0 < k \<longrightarrow> kind = KSleep \<and> n = 1) \<and>
      (case rest of None \<Rightarrow> True | Some c \<Rightarrow> code_ok kind n c \<and> out @ emits c = emits prog) \<and>
      (done \<longrightarrow> out = emits prog) \<and> (created < f \<longrightarrow> out = []))"

definition fiber_ok :: "fb_kind \<Rightarrow> nat \<Rightarrow> fb_state \<Rightarrow> nat \<Rightarrow> bool" where
  "fiber_ok kind n s f = fiber_good kind n f (fiber_id s) (fb_live s f) (coro_rest s f) (coro_done s f) (fb_stat s f) (fb_prog s f)
     (outs f s) (cnt n (works_on f) (fb_workers s)) (count_list (fb_tasks s) (TRun f)) (wakes f s)"

definition worker_ok :: "fb_kind \<Rightarrow> nat \<Rightarrow> fb_state \<Rightarrow> tid \<Rightarrow> bool" where
  "worker_ok kind n s t = (case fb_workers s t of
     WIdle \<Rightarrow> True
   | WRun f \<Rightarrow> fb_live s f \<and> coro_rest s f \<noteq> None \<and> \<not> coro_done s f \<and> wakes f s = 0
   | WCode f c \<Rightarrow> fb_live s f \<and> coro_rest s f = None \<and> \<not> coro_done s f \<and> current_fiber s t = Some f \<and> code_ok kind n c \<and>
       outs f s @ emits c = emits (fb_prog s f) \<and> (wakes f s = 0 \<or> (\<exists>r. c = FYield # r))
   | WBack f \<Rightarrow> fb_live s f \<and> (coro_done s f \<and> wakes f s = 0 \<or>
       \<not> coro_done s f \<and> coro_rest s f \<noteq> None \<and> (kind = KAwait \<longrightarrow> fb_aw s f = Some YieldAwaiter)))"

definition fb_inv :: "fb_kind \<Rightarrow> nat \<Rightarrow> fb_state \<Rightarrow> bool" where
  "fb_inv kind n s = (\<not> fb_bad s \<and> (\<forall>f. fiber_ok kind n s f) \<and> (\<forall>t<n. worker_ok kind n s t))"


lemma fb_invI:
  assumes "\<not> fb_bad s" and "\<And>f. fiber_ok kind n s f" and "\<And>t. t < n \<Longrightarrow> worker_ok kind n s t"
  shows "fb_inv kind n s"
  using assms by (simp add: fb_inv_def)

lemma fb_invD:
  assumes "fb_inv kind n s"
  shows "\<not> fb_bad s" and "\<And>f. fiber_ok kind n s f" and "\<And>t. t < n \<Longrightarrow> worker_ok kind n s t"
  using assms by (simp_all add: fb_inv_def)

lemma works_on_simps [simp]: "works_on f WIdle = False" "works_on f (WRun g) = (g = f)" "works_on f (WCode g c) = (g = f)"
  "works_on f (WBack g) = (g = f)"
  by (simp_all add: works_on_def)

text \<open>A live fiber has at most one worker, and none other than it.\<close>

lemma one_worker:
  assumes "fb_inv kind n s" and "t < n" and "works_on f (fb_workers s t)"
  shows "cnt n (works_on f) (fb_workers s) = 1" and "fb_live s f" and "count_list (fb_tasks s) (TRun f) = 0"
    and "\<And>u. u < n \<Longrightarrow> u \<noteq> t \<Longrightarrow> \<not> works_on f (fb_workers s u)"
proof -
  have w: "0 < cnt n (works_on f) (fb_workers s)" using assms(2, 3) by (auto simp: cnt_pos_iff)
  have ok: "fiber_ok kind n s f" by (rule fb_invD(2) [OF assms(1)])
  then show live: "fb_live s f" using w by (auto simp: fiber_ok_def fiber_good_def split: if_splits)
  then show 1: "cnt n (works_on f) (fb_workers s) = 1" and "count_list (fb_tasks s) (TRun f) = 0" using ok w by (auto simp: fiber_ok_def fiber_good_def split: if_splits)
  show "\<not> works_on f (fb_workers s u)" if "u < n" "u \<noteq> t" for u using cnt_only [OF 1 assms(2, 3) that(1, 2)] .
qed

text \<open>A step of worker \<open>t\<close> about fiber \<open>f\<close>.\<close>

lemma fb_upd:
  assumes inv: "fb_inv kind n s" and t: "t < n" and wk: "fb_workers s' = (fb_workers s)(t := p)" and "\<not> fb_bad s'"
    and fib: "fiber_ok kind n s' f" and own: "worker_ok kind n s' t"
    and only: "\<And>u. u < n \<Longrightarrow> u \<noteq> t \<Longrightarrow> \<not> works_on f (fb_workers s u)"
    and uses: "\<And>g. g \<noteq> f \<Longrightarrow> works_on g p = works_on g (fb_workers s t)"
    and same: "\<And>g. g \<noteq> f \<Longrightarrow> coro_rest s' g = coro_rest s g \<and> coro_done s' g = coro_done s g \<and> fb_aw s' g = fb_aw s g \<and>
      fb_stat s' g = fb_stat s g \<and> fb_live s' g = fb_live s g \<and> fb_prog s' g = fb_prog s g \<and> outs g s' = outs g s \<and>
      count_list (fb_tasks s') (TRun g) = count_list (fb_tasks s) (TRun g) \<and> wakes g s' = wakes g s"
    and "fiber_id s' = fiber_id s" and cur: "\<And>u. u \<noteq> t \<Longrightarrow> current_fiber s' u = current_fiber s u"
  shows "fb_inv kind n s'"
proof (rule fb_invI)
  note D = fb_invD [OF inv]
  show "fiber_ok kind n s' g" for g
  proof (cases "g = f")
    case False
    have "cnt n (works_on g) (fb_workers s') = cnt n (works_on g) (fb_workers s)"
      unfolding wk by (rule cnt_cong) (use uses [OF False] in auto)
    then show ?thesis using D(2) [of g] same [OF False] assms(10) by (simp add: fiber_ok_def)
  qed (simp add: fib)
  show "worker_ok kind n s' u" if "u < n" for u
  proof (cases "u = t")
    case False
    show ?thesis
    proof (cases "fb_workers s u")
      case WIdle
      then show ?thesis using False wk by (simp add: worker_ok_def)
    next
      case (WRun g)
      then have "g \<noteq> f" using only [OF that False] by simp
      then show ?thesis using D(3) [OF that] same [of g] False wk WRun cur by (simp add: worker_ok_def)
    next
      case (WCode g c)
      then have "g \<noteq> f" using only [OF that False] by simp
      then show ?thesis using D(3) [OF that] same [of g] False wk WCode cur by (simp add: worker_ok_def)
    next
      case (WBack g)
      then have "g \<noteq> f" using only [OF that False] by simp
      then show ?thesis using D(3) [OF that] same [of g] False wk WBack cur by (simp add: worker_ok_def)
    qed
  qed (simp add: own)
qed (use assms(4) in blast)

lemma cnt_move:
  assumes "t < n"
  shows "cnt n P (f(t := x)) = cnt n P f + of_bool (P x) - of_bool (P (f t))"
  using cnt_upd [OF assms, of P f x] by linarith

lemma count_list_snoc [simp]: "count_list (q @ [x]) y = count_list q y + of_bool (x = y)"
  by (induction q) auto

lemma outs_simps: "outs f (s\<lparr>fb_out := fb_out s @ [(g, x)]\<rparr>) = (if g = f then outs f s @ [x] else outs f s)"
  by (simp add: outs_def)

lemma fb_new:
  assumes inv: "fb_inv kind n s" and p: "code_ok kind n p"
  shows "fb_inv kind n (fibers_Go p s)"
proof -
  note D = fb_invD [OF inv]
  define f where "f = Suc (fiber_id s)"
  have s': "fibers_Go p s = s\<lparr>fiber_id := f, coro_rest := (coro_rest s)(f := Some p), fb_live := (fb_live s)(f := True),
      fb_prog := (fb_prog s)(f := p), fb_tasks := fb_tasks s @ [TRun f]\<rparr>"
    by (simp add: fibers_Go_def Fiber_new_def Fiber_Schedule_def Let_def f_def)
  have ok: "fiber_ok kind n s f" by (rule D(2))
  then have new: "\<not> fb_live s f" "cnt n (works_on f) (fb_workers s) = 0" "count_list (fb_tasks s) (TRun f) = 0" "wakes f s = 0"
    "\<not> coro_done s f" "fb_stat s f \<noteq> Sleeping" "outs f s = []"
    by (auto simp: fiber_ok_def fiber_good_def f_def split: if_splits)
  have wk: "wakes g (fibers_Go p s) = wakes g s" "outs g (fibers_Go p s) = outs g s" for g by (simp_all add: wakes_def outs_def s')
  show ?thesis
  proof (rule fb_invI)
    show "\<not> fb_bad (fibers_Go p s)" using D(1) by (simp add: s')
    show "fiber_ok kind n (fibers_Go p s) g" for g
    proof (cases "g = f")
      case True
      then show ?thesis using new p wk(1) [of f] wk(2) [of f] by (simp add: fiber_ok_def fiber_good_def) (simp add: s' f_def)
    next
      case False
      then have "fiber_good kind n g f (fb_live s g) (coro_rest s g) (coro_done s g) (fb_stat s g) (fb_prog s g) (outs g s)
          (cnt n (works_on g) (fb_workers s)) (count_list (fb_tasks s) (TRun g)) (wakes g s)"
        using D(2) [of g] unfolding fiber_ok_def fiber_good_def f_def by (auto split: if_splits option.splits)
      then show ?thesis using False wk(1) [of g] wk(2) [of g] unfolding fiber_ok_def by (simp add: s')
    qed
    show "worker_ok kind n (fibers_Go p s) t" if "t < n" for t
    proof -
      have "\<not> works_on f (fb_workers s t)" using new(2) that by (auto simp: cnt_0_iff)
      then show ?thesis using D(3) [OF that] wk
        by (cases "fb_workers s t") (auto simp: worker_ok_def s')
    qed
  qed
qed


lemma fiber_okD: "fb_inv kind n s \<Longrightarrow> fiber_good kind n f (fiber_id s) (fb_live s f) (coro_rest s f) (coro_done s f) (fb_stat s f) (fb_prog s f)
     (outs f s) (cnt n (works_on f) (fb_workers s)) (count_list (fb_tasks s) (TRun f)) (wakes f s)"
  using fb_invD(2) [of kind n s f] by (simp add: fiber_ok_def)

text \<open>The state of fiber \<open>f\<close> after worker \<open>t\<close> went to \<open>p\<close>.\<close>

lemma fiber_ok_moved:
  assumes "t < n" and "fb_workers s' = (fb_workers s)(t := p)"
  shows "fiber_ok kind n s' f = fiber_good kind n f (fiber_id s') (fb_live s' f) (coro_rest s' f) (coro_done s' f) (fb_stat s' f) (fb_prog s' f)
     (outs f s') (cnt n (works_on f) (fb_workers s) + of_bool (works_on f p) - of_bool (works_on f (fb_workers s t)))
     (count_list (fb_tasks s') (TRun f)) (wakes f s')"
  by (simp only: fiber_ok_def assms(2) cnt_move [OF assms(1)])

lemma fb_take_run:
  assumes inv: "fb_inv kind n s" and t: "t < n" and idle: "fb_workers s t = WIdle" and q: "fb_tasks s = TRun f # q"
  shows "fb_inv kind n (fb_goto t (WRun f) (s\<lparr>fb_tasks := q\<rparr>))" (is "fb_inv kind n ?s")
proof -
  note F = fiber_okD [OF inv, of f, unfolded fiber_good_def]
  have pre: "fb_live s f" "cnt n (works_on f) (fb_workers s) = 0" "count_list q (TRun f) = 0" "wakes f s = 0" "coro_rest s f \<noteq> None" "\<not> coro_done s f"
    using F q by (auto split: if_splits)
  have wk: "wakes g ?s = wakes g s" "outs g ?s = outs g s" for g using q by (simp_all add: wakes_def outs_def fb_goto_def)
  show ?thesis
  proof (rule fb_upd [OF inv t, where p = "WRun f" and f = f])
    show "fiber_ok kind n ?s f"
      by (subst fiber_ok_moved [OF t, where s = s and p = "WRun f"])
        (use F pre wk idle q in \<open>auto simp: fiber_good_def fb_goto_def split: if_splits\<close>)
    show "worker_ok kind n ?s t" using pre wk by (simp add: worker_ok_def) (simp add: fb_goto_def)
    show "\<And>u. u < n \<Longrightarrow> u \<noteq> t \<Longrightarrow> \<not> works_on f (fb_workers s u)" using pre(2) by (simp add: cnt_0_iff)
    show "\<And>g. g \<noteq> f \<Longrightarrow> coro_rest ?s g = coro_rest s g \<and> coro_done ?s g = coro_done s g \<and> fb_aw ?s g = fb_aw s g \<and>
      fb_stat ?s g = fb_stat s g \<and> fb_live ?s g = fb_live s g \<and> fb_prog ?s g = fb_prog s g \<and> outs g ?s = outs g s \<and>
      count_list (fb_tasks ?s) (TRun g) = count_list (fb_tasks s) (TRun g) \<and> wakes g ?s = wakes g s"
      using wk q by (simp add: fb_goto_def)
  qed (use fb_invD(1) [OF inv] idle in \<open>simp_all add: fb_goto_def\<close>)
qed


text \<open>A step of worker \<open>t\<close> about the fiber it works on.\<close>

lemma fb_work:
  assumes inv: "fb_inv kind n s" and t: "t < n" and on: "works_on f (fb_workers s t)" and wk: "fb_workers s' = (fb_workers s)(t := p)" and "\<not> fb_bad s'"
    and p: "works_on f p \<or> p = WIdle"
    and fib: "fiber_good kind n f (fiber_id s) (fb_live s' f) (coro_rest s' f) (coro_done s' f) (fb_stat s' f) (fb_prog s f)
      (outs f s') (of_bool (p \<noteq> WIdle)) (count_list (fb_tasks s') (TRun f)) (wakes f s')"
    and own: "worker_ok kind n s' t"
    and same: "\<And>g. g \<noteq> f \<Longrightarrow> coro_rest s' g = coro_rest s g \<and> coro_done s' g = coro_done s g \<and> fb_aw s' g = fb_aw s g \<and>
      fb_stat s' g = fb_stat s g \<and> fb_live s' g = fb_live s g \<and> outs g s' = outs g s \<and>
      count_list (fb_tasks s') (TRun g) = count_list (fb_tasks s) (TRun g) \<and> wakes g s' = wakes g s"
    and ids: "fiber_id s' = fiber_id s" "fb_prog s' = fb_prog s" and cur: "\<And>u. u \<noteq> t \<Longrightarrow> current_fiber s' u = current_fiber s u"
  shows "fb_inv kind n s'"
proof (rule fb_upd [OF inv t wk assms(5) _ own one_worker(4) [OF inv t on]])
  have "cnt n (works_on f) (fb_workers s) = 1" by (rule one_worker(1) [OF inv t on])
  moreover have "works_on f p \<longleftrightarrow> p \<noteq> WIdle" using p by auto
  ultimately show "fiber_ok kind n s' f" using fib on by (subst fiber_ok_moved [OF t wk]) (simp add: ids)
  show "works_on g p = works_on g (fb_workers s t)" if "g \<noteq> f" for g
    using that on p by (cases p; cases "fb_workers s t") auto
qed (use same ids cur in auto)

lemma work_facts:
  assumes inv: "fb_inv kind n s" and t: "t < n" and on: "works_on f (fb_workers s t)"
  shows "fiber_good kind n f (fiber_id s) True (coro_rest s f) (coro_done s f) (fb_stat s f) (fb_prog s f) (outs f s) 1 0 (wakes f s)"
    and "fb_live s f" and "count_list (fb_tasks s) (TRun f) = 0"
  using fiber_okD [OF inv, of f] one_worker(1-3) [OF inv t on] by simp_all

lemma wakes_cong: "fb_tasks s' = fb_tasks s \<Longrightarrow> fb_timers s' = fb_timers s \<Longrightarrow> wakes f s' = wakes f s"
  by (simp add: wakes_def)

lemma outs_cong: "fb_out s' = fb_out s \<Longrightarrow> outs f s' = outs f s"
  by (simp add: outs_def)

lemma fb_resume:
  assumes inv: "fb_inv kind n s" and t: "t < n" and pc: "fb_workers s t = WRun f" and s1: "s1 = s\<lparr>current_fiber := (current_fiber s)(t := Some f), fb_stat := st\<rparr>"
    and st: "st = fb_stat s \<or> st = (fb_stat s)(f := Running)"
  shows "fb_inv kind n (Coro_Resume t f s1)"
proof -
  have on: "works_on f (fb_workers s t)" using pc by simp
  note W = work_facts [OF inv t on, unfolded fiber_good_def]
  obtain c where c: "coro_rest s f = Some c" and pre: "\<not> coro_done s f" "wakes f s = 0"
    using fb_invD(3) [OF inv t] pc by (auto simp: worker_ok_def)
  define s' where "s' = Coro_Resume t f s1"
  have s': "s' = s\<lparr>current_fiber := (current_fiber s)(t := Some f), fb_stat := st, coro_rest := (coro_rest s)(f := None),
      fb_workers := (fb_workers s)(t := WCode f c)\<rparr>"
    using c by (simp add: s'_def Coro_Resume_def s1 fb_goto_def)
  have eqs: "wakes g s' = wakes g s" "outs g s' = outs g s" for g by (simp_all add: wakes_def outs_def s')
  have "fb_inv kind n s'"
  proof (rule fb_work [OF inv t on])
    show "fb_workers s' = (fb_workers s)(t := WCode f c)" by (simp add: s')
    show "worker_ok kind n s' t" using W pre c eqs by (simp add: worker_ok_def s' [THEN arg_cong [where f = fb_workers]]) (simp add: s')
  qed (use W pre c eqs st fb_invD(1) [OF inv] in \<open>auto simp: fiber_good_def s'\<close>)
  then show ?thesis by (simp add: s'_def)
qed


lemma code_facts:
  assumes inv: "fb_inv kind n s" and t: "t < n" and pc: "fb_workers s t = WCode f c"
  shows "coro_rest s f = None" "\<not> coro_done s f" "current_fiber s t = Some f" "code_ok kind n c"
    "outs f s @ emits c = emits (fb_prog s f)" "wakes f s = 0 \<or> (\<exists>r. c = FYield # r)"
  using fb_invD(3) [OF inv t] pc by (simp_all add: worker_ok_def)

lemma code_ok_Cons: "code_ok kind n (i # c) \<longleftrightarrow> code_ok kind n c \<and> (kind = KSleep \<and> n = 1 \<or> calm i)"
  by (auto simp: code_ok_def)

lemma fb_code_inv:
  assumes inv: "fb_inv kind n s" and t: "t < n" and pc: "fb_workers s t = WCode f code" and go: "fb_code kind t f code s = Some s'"
  shows "fb_inv kind n s'"
proof (cases code)
  have on: "works_on f (fb_workers s t)" using pc by simp
  note W = work_facts [OF inv t on, unfolded fiber_good_def]
  note C = code_facts [OF inv t pc]
  have nb: "\<not> fb_bad s" by (rule fb_invD(1) [OF inv])
  {
    case Nil
    have s': "s' = fb_goto t (WBack f) (s\<lparr>coro_done := (coro_done s)(f := True)\<rparr>)" using go Nil by simp
    have eqs: "wakes g s' = wakes g s" "outs g s' = outs g s" for g by (simp_all add: wakes_def outs_def s' fb_goto_def)
    show ?thesis
    proof (rule fb_work [OF inv t on])
      show "fb_workers s' = (fb_workers s)(t := WBack f)" by (simp add: s' fb_goto_def)
      show "worker_ok kind n s' t" using W C Nil eqs by (simp add: worker_ok_def s' fb_goto_def)
    qed (use W C Nil eqs nb in \<open>auto simp: fiber_good_def s' fb_goto_def\<close>)
  next
    case (Cons i r)
    note C = C [unfolded Cons code_ok_Cons]
    show ?thesis
    proof (cases i)
      case (FEmit x)
      have s': "s' = fb_goto t (WCode f r) (s\<lparr>fb_out := fb_out s @ [(f, x)]\<rparr>)" using go Cons FEmit by simp
      have eqs: "wakes g s' = wakes g s" "outs g s' = (if g = f then outs g s @ [x] else outs g s)" for g
        by (simp_all add: wakes_def outs_def s' fb_goto_def)
      show ?thesis
      proof (rule fb_work [OF inv t on])
        show "fb_workers s' = (fb_workers s)(t := WCode f r)" by (simp add: s' fb_goto_def)
        show "worker_ok kind n s' t" using W C FEmit eqs by (simp add: worker_ok_def s' fb_goto_def)
      qed (use W C FEmit eqs nb in \<open>auto simp: fiber_good_def s' fb_goto_def\<close>)
    next
      case FYield
      have s': "s' = fb_goto t (WBack f) (if kind = KAwait then Fiber_Suspend_await f YieldAwaiter r s else Fiber_Suspend f r s)"
        using go Cons FYield C(3) by (simp add: fibers_Yield_def)
      have eqs: "wakes g s' = wakes g s" "outs g s' = outs g s" for g
        by (simp_all add: wakes_def outs_def s' fb_goto_def Fiber_Suspend_def Fiber_Suspend_await_def)
      show ?thesis
      proof (rule fb_work [OF inv t on])
        show "fb_workers s' = (fb_workers s)(t := WBack f)" by (simp add: s' fb_goto_def Fiber_Suspend_def Fiber_Suspend_await_def)
        show "worker_ok kind n s' t" using W C FYield eqs
          by (simp add: worker_ok_def s' fb_goto_def Fiber_Suspend_def Fiber_Suspend_await_def)
      qed (use W C FYield eqs nb in \<open>auto simp: fiber_good_def s' fb_goto_def Fiber_Suspend_def Fiber_Suspend_await_def\<close>)
    next
      case FSleep
      have one: "kind = KSleep" "n = 1" using C(4) FSleep by auto
      have s': "s' = fb_goto t (WCode f (FYield # r)) ((MarkSleep f s)\<lparr>fb_tasks := fb_tasks s @ [TWait f]\<rparr>)"
        using go Cons FSleep C(3) one by (simp add: SleepFor_def)
      have eqs: "wakes g s' = wakes g s + of_bool (g = f)" "outs g s' = outs g s" for g
        by (simp_all add: wakes_def outs_def s' fb_goto_def MarkSleep_def)
      show ?thesis
      proof (rule fb_work [OF inv t on])
        show "fb_workers s' = (fb_workers s)(t := WCode f (FYield # r))" by (simp add: s' fb_goto_def MarkSleep_def)
        show "worker_ok kind n s' t" using W C FSleep eqs one
          by (simp add: worker_ok_def s' fb_goto_def MarkSleep_def code_ok_def)
      qed (use W C FSleep eqs nb one in \<open>auto simp: fiber_good_def s' fb_goto_def MarkSleep_def\<close>)
    next
      case (FGo p)
      have s': "s' = fb_goto t (WCode f r) (fibers_Go p s)" using go Cons FGo by simp
      have "code_ok kind n p" using C(4) FGo by (auto simp: code_ok_def)
      then have inv1: "fb_inv kind n (fibers_Go p s)" by (rule fb_new [OF inv])
      let ?s1 = "fibers_Go p s"
      have pc1: "fb_workers ?s1 t = WCode f code" using pc by (simp add: fibers_Go_def Fiber_new_def Fiber_Schedule_def Let_def)
      then have on1: "works_on f (fb_workers ?s1 t)" by simp
      note W1 = work_facts [OF inv1 t on1, unfolded fiber_good_def]
      note C1 = code_facts [OF inv1 t pc1, unfolded Cons FGo code_ok_Cons]
      have eqs: "wakes g s' = wakes g ?s1" "outs g s' = outs g ?s1" for g by (simp_all add: wakes_def outs_def s' fb_goto_def)
      show ?thesis
      proof (rule fb_work [OF inv1 t on1])
        show "fb_workers s' = (fb_workers ?s1)(t := WCode f r)" by (simp add: s' fb_goto_def)
        show "worker_ok kind n s' t" using W1 C1 eqs by (simp add: worker_ok_def s' fb_goto_def)
      qed (use W1 C1 eqs fb_invD(1) [OF inv1] in \<open>auto simp: fiber_good_def s' fb_goto_def\<close>)
    qed
  }
qed


lemmas fb_ends = Run_yield_end_def Run_await_end_def Run_sleep_end_def Run_delete_def Fiber_Schedule_def AwaitSuspend_yield_def Let_def

text \<open>What Run does once the coroutine has switched back, in the three versions alike: delete, go to sleep, or reschedule.\<close>

lemma fb_back:
  assumes inv: "fb_inv kind n s" and t: "t < n" and pc: "fb_workers s t = WBack f"
  shows "fb_inv kind n (fb_goto t WIdle (case kind of KYield \<Rightarrow> Run_yield_end f s | KAwait \<Rightarrow> Run_await_end f s | KSleep \<Rightarrow> Run_sleep_end f s))"
    (is "fb_inv kind n ?s")
proof -
  have on: "works_on f (fb_workers s t)" using pc by simp
  note W = work_facts [OF inv t on, unfolded fiber_good_def]
  note nb = fb_invD(1) [OF inv]
  note O = fb_invD(3) [OF inv t, unfolded worker_ok_def pc, simplified]
  have kf: "fb_stat s f = Sleeping \<longleftrightarrow> wakes f s = 1" "wakes f s \<le> 1" "kind \<noteq> KSleep \<Longrightarrow> wakes f s = 0" using W by auto
  consider (del) "coro_done s f" | (sleep) "\<not> coro_done s f" "wakes f s = 1" | (sched) "\<not> coro_done s f" "wakes f s = 0" using kf by linarith
  then show ?thesis
  proof cases
    case del
    have s': "?s = s\<lparr>fb_live := (fb_live s)(f := False), fb_workers := (fb_workers s)(t := WIdle)\<rparr>"
      using del nb O by (cases kind) (simp_all add: fb_ends fb_goto_def)
    have eqs: "wakes g ?s = wakes g s" "outs g ?s = outs g s" for g unfolding s' by (simp_all add: wakes_def outs_def)
    show ?thesis
    proof (rule fb_work [OF inv t on, where p = WIdle])
      show "fiber_good kind n f (fiber_id s) (fb_live ?s f) (coro_rest ?s f) (coro_done ?s f) (fb_stat ?s f) (fb_prog s f)
        (outs f ?s) (of_bool (WIdle \<noteq> WIdle)) (count_list (fb_tasks ?s) (TRun f)) (wakes f ?s)"
        unfolding eqs unfolding s' using W O del by (auto simp: fiber_good_def split: option.splits)
    qed (use nb eqs in \<open>simp_all add: s' worker_ok_def\<close>)
  next
    case sleep
    have s': "?s = s\<lparr>fb_workers := (fb_workers s)(t := WIdle)\<rparr>"
      using sleep kf by (cases kind) (simp_all add: fb_ends fb_goto_def)
    have eqs: "wakes g ?s = wakes g s" "outs g ?s = outs g s" for g unfolding s' by (simp_all add: wakes_def outs_def)
    show ?thesis
    proof (rule fb_work [OF inv t on, where p = WIdle])
      show "fiber_good kind n f (fiber_id s) (fb_live ?s f) (coro_rest ?s f) (coro_done ?s f) (fb_stat ?s f) (fb_prog s f)
        (outs f ?s) (of_bool (WIdle \<noteq> WIdle)) (count_list (fb_tasks ?s) (TRun f)) (wakes f ?s)"
        unfolding eqs unfolding s' using W O sleep by (auto simp: fiber_good_def)
    qed (use nb eqs in \<open>simp_all add: s' worker_ok_def\<close>)
  next
    case sched
    have s': "?s = s\<lparr>fb_aw := (if kind = KAwait then (fb_aw s)(f := None) else fb_aw s), fb_tasks := fb_tasks s @ [TRun f],
        fb_workers := (fb_workers s)(t := WIdle)\<rparr>"
      using sched kf O by (cases kind) (simp_all add: fb_ends fb_goto_def)
    have eqs: "wakes g ?s = wakes g s" "outs g ?s = outs g s" for g unfolding s' by (simp_all add: wakes_def outs_def)
    show ?thesis
    proof (rule fb_work [OF inv t on, where p = WIdle])
      show "fiber_good kind n f (fiber_id s) (fb_live ?s f) (coro_rest ?s f) (coro_done ?s f) (fb_stat ?s f) (fb_prog s f)
        (outs f ?s) (of_bool (WIdle \<noteq> WIdle)) (count_list (fb_tasks ?s) (TRun f)) (wakes f ?s)"
        unfolding eqs unfolding s' using W O sched by (auto simp: fiber_good_def)
    qed (use nb eqs in \<open>simp_all add: s' worker_ok_def\<close>)
  qed
qed

lemma count_remove1: "count_list (remove1 x q) y = count_list q y - of_bool (x = y)"
  by (induction q) auto

lemma count_pos: "x \<in> set q \<Longrightarrow> 0 < count_list q x"
  by (induction q) auto

text \<open>Timers, with one worker.\<close>

lemma fb_take_wait:
  assumes inv: "fb_inv kind n s" and t: "t < n" and idle: "fb_workers s t = WIdle" and q: "fb_tasks s = TWait f # q"
  shows "fb_inv kind n (s\<lparr>fb_tasks := q, fb_timers := fb_timers s @ [f]\<rparr>)" (is "fb_inv kind n ?s")
proof -
  have wk: "wakes g ?s = wakes g s" "outs g ?s = outs g s" "count_list q (TRun g) = count_list (fb_tasks s) (TRun g)" for g
    using q by (simp_all add: wakes_def outs_def)
  show ?thesis
  proof (rule fb_invI)
    show "fiber_ok kind n ?s g" for g using fb_invD(2) [OF inv, of g] wk [of g] by (simp add: fiber_ok_def)
    show "worker_ok kind n ?s u" if "u < n" for u using fb_invD(3) [OF inv that] wk
      by (cases "fb_workers s u") (simp_all add: worker_ok_def)
  qed (use fb_invD(1) [OF inv] in simp)
qed

lemma fb_fire:
  assumes inv: "fb_inv kind n s" and t: "t < n" and idle: "fb_workers s t = WIdle" and f: "f \<in> set (fb_timers s)"
  shows "fb_inv kind n (WakeAndRun t f (s\<lparr>fb_timers := remove1 f (fb_timers s)\<rparr>))" (is "fb_inv kind n ?s")
proof -
  note F = fiber_okD [OF inv, of f, unfolded fiber_good_def]
  have k: "0 < wakes f s" using count_pos [OF f] by (simp add: wakes_def)
  then have n: "n = 1" using F by blast
  then have w: "cnt n (works_on g) (fb_workers s) = 0" for g using t idle by (simp add: cnt_0_iff)
  have pre: "fb_live s f" "count_list (fb_tasks s) (TRun f) = 0" "wakes f s = 1" "coro_rest s f \<noteq> None" "\<not> coro_done s f"
    using F k w [of f] by (auto split: if_splits)
  have s': "?s = s\<lparr>fb_timers := remove1 f (fb_timers s), fb_stat := (fb_stat s)(f := Runnable), fb_workers := (fb_workers s)(t := WRun f)\<rparr>"
    by (simp add: WakeAndRun_def fb_goto_def)
  have wk: "wakes g ?s = wakes g s - of_bool (g = f)" "outs g ?s = outs g s" for g
    using count_pos [OF f] unfolding s' by (auto simp: wakes_def outs_def count_remove1)
  show ?thesis
  proof (rule fb_upd [OF inv t, where p = "WRun f" and f = f])
    show "fb_workers ?s = (fb_workers s)(t := WRun f)" unfolding s' by simp
    then show "fiber_ok kind n ?s f"
      by (subst fiber_ok_moved [OF t, where s = s and p = "WRun f"])
        (use F pre wk idle w [of f] in \<open>auto simp: fiber_good_def s' split: if_splits\<close>)
    show "worker_ok kind n ?s t" using pre wk [of f] unfolding worker_ok_def by (simp add: s')
    show "\<And>u. u < n \<Longrightarrow> u \<noteq> t \<Longrightarrow> \<not> works_on f (fb_workers s u)" using n t by simp
    show "\<And>g. g \<noteq> f \<Longrightarrow> coro_rest ?s g = coro_rest s g \<and> coro_done ?s g = coro_done s g \<and> fb_aw ?s g = fb_aw s g \<and>
      fb_stat ?s g = fb_stat s g \<and> fb_live ?s g = fb_live s g \<and> fb_prog ?s g = fb_prog s g \<and> outs g ?s = outs g s \<and>
      count_list (fb_tasks ?s) (TRun g) = count_list (fb_tasks s) (TRun g) \<and> wakes g ?s = wakes g s"
      unfolding wk by (simp add: s')
  qed (use fb_invD(1) [OF inv] idle in \<open>simp_all add: s'\<close>)
qed

lemma fb_inv_step:
  assumes inv: "fb_inv kind n s" and step: "fb_step kind n a s = Some s'"
  shows "fb_inv kind n s'"
proof (cases a)
  case (FbFire t f)
  then show ?thesis using fb_fire [OF inv, of t f] step by (auto split: if_splits)
next
  case (FbStep t)
  then have t: "t < n" using step by (simp split: if_splits)
  show ?thesis
  proof (cases "fb_workers s t")
    case WIdle
    then have take: "fb_take t s = Some s'" using step FbStep t by simp
    show ?thesis
    proof (cases "fb_tasks s")
      case (Cons a q)
      then show ?thesis using take fb_take_run [OF inv t WIdle] fb_take_wait [OF inv t WIdle] by (cases a) (auto simp: fb_take_def)
    qed (use take in \<open>simp add: fb_take_def\<close>)
  next
    case (WRun f)
    have s': "s' = (if kind = KSleep then Run_status t f s else Run_plain t f s)" using step FbStep t WRun by simp
    show ?thesis
    proof (cases "kind = KSleep")
      case True
      then show ?thesis using fb_resume [OF inv t WRun, of "s\<lparr>current_fiber := (current_fiber s)(t := Some f), fb_stat := (fb_stat s)(f := Running)\<rparr>"] s'
        by (simp add: Run_status_def)
    next
      case False
      have "s\<lparr>current_fiber := (current_fiber s)(t := Some f)\<rparr> = s\<lparr>current_fiber := (current_fiber s)(t := Some f), fb_stat := fb_stat s\<rparr>" by simp
      from fb_resume [OF inv t WRun this] show ?thesis using s' False by (simp add: Run_plain_def)
    qed
  next
    case (WCode f c)
    then show ?thesis using fb_code_inv [OF inv t WCode] step FbStep t by simp
  next
    case (WBack f)
    then show ?thesis using fb_back [OF inv t WBack] step FbStep t by simp
  qed
qed

text \<open>What a fiber is to do is fixed when it is created.\<close>

definition progs_kept :: "fb_state \<Rightarrow> fb_state \<Rightarrow> bool" where
  "progs_kept s s' = (fiber_id s \<le> fiber_id s' \<and> (\<forall>f\<le>fiber_id s. fb_prog s' f = fb_prog s f))"

lemma progs_kept_trans: "progs_kept a b \<Longrightarrow> progs_kept b c \<Longrightarrow> progs_kept a c"
  by (auto simp: progs_kept_def)

lemma progs_kept_Go: "progs_kept s (fibers_Go p s)"
  by (simp add: progs_kept_def fibers_Go_def Fiber_new_def Fiber_Schedule_def Let_def)

lemma progs_kept_code: "fb_code kind t f c s = Some s' \<Longrightarrow> progs_kept s s'"
proof (induction kind t f c s rule: fb_code.induct)
  case (3 kind t f p r s)
  then show ?case using progs_kept_Go [of s p] by (auto simp: progs_kept_def fb_goto_def)
qed (auto simp: progs_kept_def fb_goto_def fibers_Yield_def SleepFor_def MarkSleep_def Fiber_Suspend_def Fiber_Suspend_await_def
  split: option.splits if_splits)

lemma progs_kept_ends: "progs_kept s (Run_yield_end f s)" "progs_kept s (Run_await_end f s)" "progs_kept s (Run_sleep_end f s)"
  by (simp_all add: progs_kept_def fb_ends split: option.split fb_awaiter.split)

lemma progs_kept_step: "fb_step kind n a s = Some s' \<Longrightarrow> progs_kept s s'"
  using progs_kept_code progs_kept_ends [of s]
  by (cases a)
    (auto simp: fb_take_def fb_goto_def Run_status_def Run_plain_def Coro_Resume_def WakeAndRun_def progs_kept_def
      split: if_splits fb_worker.splits list.splits fb_task.splits option.splits fb_kind.splits)

lemma progs_kept_run: "progs_kept s0 s \<Longrightarrow> progs_kept s0 (run (fb_step kind n) as s)"
  by (rule run_keeps) (use progs_kept_step progs_kept_trans in blast)+

lemma fb_start_snoc: "fb_start (ps @ [p]) = fibers_Go p (fb_start ps)"
  by (simp add: fb_start_def)

lemma fb_start_progs: "fiber_id (fb_start ps) = length ps \<and> (\<forall>i<length ps. fb_prog (fb_start ps) (Suc i) = ps ! i)"
proof (induction ps rule: rev_induct)
  case (snoc p ps)
  then show ?case
    by (auto simp: fb_start_snoc fibers_Go_def Fiber_new_def Fiber_Schedule_def Let_def nth_append less_Suc_eq)
qed (simp add: fb_start_def fb_empty_def)

lemma fb_inv_start: "(\<And>p. p \<in> set ps \<Longrightarrow> code_ok kind n p) \<Longrightarrow> fb_inv kind n (fb_start ps)"
proof (induction ps rule: rev_induct)
  case Nil
  show ?case
    by (rule fb_invI) (auto simp: fb_start_def fb_empty_def fiber_ok_def fiber_good_def worker_ok_def cnt_const wakes_def outs_def)
next
  case (snoc p ps)
  then show ?case using fb_new [of kind n "fb_start ps" p] by (simp add: fb_start_snoc)
qed

text \<open>A worker that has something to do can do it.\<close>

lemma fb_stuck:
  assumes inv: "fb_inv kind n s" and "0 < n" and stuck: "\<And>a. fb_step kind n a s = None"
  shows "fb_tasks s = []" and "fb_timers s = []" and "\<And>t. t < n \<Longrightarrow> fb_workers s t = WIdle"
proof -
  show idle: "fb_workers s t = WIdle" if t: "t < n" for t
  proof (cases "fb_workers s t")
    case (WCode f c)
    have "fb_code kind t f c s \<noteq> None"
    proof (cases c)
      case (Cons i r)
      then show ?thesis using code_facts(4) [OF inv t WCode] by (cases i) (auto simp: code_ok_def)
    qed simp
    then show ?thesis using stuck [of "FbStep t"] t WCode by simp
  qed (use stuck [of "FbStep t"] t in simp_all)
  show "fb_tasks s = []"
    using stuck [of "FbStep 0"] idle [OF assms(2)] assms(2) by (cases "fb_tasks s" rule: list.exhaust) (auto simp: fb_take_def split: fb_task.splits)
  show "fb_timers s = []"
    using stuck [of "FbFire 0 (hd (fb_timers s))"] idle [OF assms(2)] assms(2) by (cases "fb_timers s") auto
qed

text \<open>C18: For any fibers started by Go, any number of workers and any schedule, in the versions with Yield alone and, on one worker, in the
  version with SleepFor: no context, awaiter or fiber is missing when it is used, no fiber has two workers, and when nothing can move
  every fiber, those started by fibers included, ran its routine to the end, once, and was deleted.\<close>

theorem fibers_run_to_completion:
  assumes "0 < n" and "kind = KSleep \<and> n = 1 \<or> (\<forall>p\<in>set ps. \<forall>i\<in>set p. calm i)"
  shows "let s = run (fb_step kind n) sched (fb_start ps) in \<not> fb_bad s \<and>
    (\<forall>f t u. t < n \<and> u < n \<and> works_on f (fb_workers s t) \<and> works_on f (fb_workers s u) \<longrightarrow> t = u) \<and>
    ((\<forall>a. fb_step kind n a s = None) \<longrightarrow> (\<forall>f. \<not> fb_live s f) \<and> length ps \<le> fiber_id s \<and>
       (\<forall>f. 0 < f \<and> f \<le> fiber_id s \<longrightarrow> coro_done s f \<and> outs f s = emits (fb_prog s f)) \<and> (\<forall>i<length ps. outs (Suc i) s = emits (ps ! i)))"
proof -
  define s where "s = run (fb_step kind n) sched (fb_start ps)"
  have "fb_inv kind n (fb_start ps)" by (rule fb_inv_start) (use assms(2) in \<open>auto simp: code_ok_def\<close>)
  then have inv: "fb_inv kind n s" unfolding s_def by (rule run_keeps [rotated]) (rule fb_inv_step)
  have kept: "progs_kept (fb_start ps) s" unfolding s_def by (rule progs_kept_run) (simp add: progs_kept_def)
  note P = fb_start_progs [of ps]
  have len: "length ps \<le> fiber_id s" using kept P by (simp add: progs_kept_def)
  have prog: "fb_prog s (Suc i) = ps ! i" if "i < length ps" for i using kept P that by (simp add: progs_kept_def)
  have one: "t = u" if "t < n" "u < n" "works_on f (fb_workers s t)" "works_on f (fb_workers s u)" for f t u
    using one_worker(4) [OF inv that(1) that(3), of u] that by blast
  have fin: "\<not> fb_live s f \<and> (0 < f \<and> f \<le> fiber_id s \<longrightarrow> coro_done s f \<and> outs f s = emits (fb_prog s f))"
    if "\<forall>a. fb_step kind n a s = None" for f
  proof -
    have st: "\<And>a. fb_step kind n a s = None" using that by blast
    note S = fb_stuck [OF inv assms(1) st]
    have "cnt n (works_on f) (fb_workers s) = 0" using S(3) by (simp add: cnt_0_iff)
    then show ?thesis using fiber_okD [OF inv, of f] S(1, 2) by (auto simp: fiber_good_def wakes_def split: if_splits)
  qed
  have outs: "outs (Suc i) s = emits (ps ! i)" if "\<forall>a. fb_step kind n a s = None" "i < length ps" for i
    using fin [OF that(1), of "Suc i"] that(2) len prog [OF that(2)] by simp
  show ?thesis unfolding s_def [symmetric] Let_def using fb_invD(1) [OF inv] one fin len outs by blast
qed


text \<open>A witness: two workers, a fiber that starts a third one and yields.\<close>

lemma fibers_run_to_completion_witness:
  "\<exists>s. s = run (fb_step KAwait 2) (concat (replicate 20 [FbStep 0, FbStep 1])) (fb_start [[FEmit 1, FYield, FEmit 2], [FGo [FEmit 5], FYield, FEmit 3]]) \<and>
     \<not> fb_bad s \<and> outs 1 s = [1, 2] \<and> outs 2 s = [3] \<and> outs 3 s = [5] \<and> fb_tasks s = []"
proof -
  define s where "s = run (fb_step KAwait 2) (concat (replicate 20 [FbStep 0, FbStep 1])) (fb_start [[FEmit 1, FYield, FEmit 2], [FGo [FEmit 5], FYield, FEmit 3]])"
  have "outs 1 s = [1, 2] \<and> outs 2 s = [3] \<and> outs 3 s = [5] \<and> fb_tasks s = []" unfolding s_def by code_simp
  moreover have "\<not> fb_bad s"
    using fibers_run_to_completion [of 2 KAwait "[[FEmit 1, FYield, FEmit 2], [FGo [FEmit 5], FYield, FEmit 3]]" "concat (replicate 20 [FbStep 0, FbStep 1])"]
    unfolding s_def Let_def by auto
  ultimately show ?thesis unfolding s_def by blast
qed

text \<open>With two workers SleepFor races with its own timer: the timer can expire while the fiber still runs, and Run resumes a coroutine
  that was not suspended.\<close>

theorem sleep_for_race:
  "fb_bad (run (fb_step KSleep 2) [FbStep 0, FbStep 0, FbStep 0, FbStep 1, FbFire 1 1, FbStep 1] (fb_start [[FSleep, FEmit 1]]))"
  by code_simp

end
