(* ===== verification/Hazard.thy ===== *)
theory Hazard
  imports LfStack
begin

section \<open>Hazard pointers and their stack\<close>

text \<open>
  \<open>lockfree/queue/hazard/{thread_state.hpp,mutator.cpp,hazard.cpp}\<close> and \<open>lockfree/queue/lock_free_stack.hpp\<close>. One ThreadState for all
  threads holds the guarded pointers, by slot and by thread and slot, and the retired ones of each thread. A \<open>std::map\<close> is
  an association list; an entry that is null and a missing one are not told apart by any loop. The calls of ThreadState are steps
  of their own here (they are not synchronised in the code); Protect and the stack's operations are split at their atomic accesses.
\<close>

type_synonym slots = "(nat \<times> nat option) list"

datatype hz_pc = HzIdle
  | HuLoad nat | HuCas nat
  | HzLoad | HzGuard nat | HzReload nat | HzCas nat | HzRetire nat

record 'a hz_state =
  guarded_global :: slots
  guarded_local :: "tid \<Rightarrow> slots"
  retired :: "tid \<Rightarrow> nat list"
  retired_pids :: "tid list"              \<comment> \<open>the keys of \<open>retired\<close>\<close>
  mutators_ids :: "tid list"              \<comment> \<open>the keys of \<open>mutators_\<close>\<close>
  hz_top :: "nat option"
  hz_next :: "nat \<Rightarrow> nat option"
  hz_item :: "nat \<Rightarrow> 'a option"            \<comment> \<open>None: moved from\<close>
  hz_live :: "nat \<Rightarrow> bool"
  hz_bad :: bool                          \<comment> \<open>a deleted node was accessed or deleted\<close>
  hz_pc :: "tid \<Rightarrow> hz_pc"
  hz_ret :: "(tid \<times> 'a option) list"
  hz_log :: "(tid \<times> 'a lf_op) list"      \<comment> \<open>ghost: the operations in the order they took effect\<close>

definition hz_start :: "'a hz_state" where
  "hz_start = \<lparr>guarded_global = [], guarded_local = (\<lambda>_. []), retired = (\<lambda>_. []), retired_pids = [], mutators_ids = [], hz_top = None,
     hz_next = (\<lambda>_. None), hz_item = (\<lambda>_. None), hz_live = (\<lambda>_. False), hz_bad = False, hz_pc = (\<lambda>_. HzIdle), hz_ret = [], hz_log = []\<rparr>"

definition hz_goto :: "tid \<Rightarrow> hz_pc \<Rightarrow> 'a hz_state \<Rightarrow> 'a hz_state" where
  "hz_goto t p s = s\<lparr>hz_pc := (hz_pc s)(t := p)\<rparr>"

definition hz_touch :: "nat \<Rightarrow> 'a hz_state \<Rightarrow> 'a hz_state" where
  "hz_touch p s = s\<lparr>hz_bad := hz_bad s \<or> \<not> hz_live s p\<rparr>"

definition hz_delete :: "nat \<Rightarrow> 'a hz_state \<Rightarrow> 'a hz_state" where
  "hz_delete p s = s\<lparr>hz_bad := hz_bad s \<or> \<not> hz_live s p, hz_live := (hz_live s)(p := False)\<rparr>"

subsection \<open>ThreadState\<close>

definition map_set :: "nat \<Rightarrow> nat option \<Rightarrow> slots \<Rightarrow> slots" where
  "map_set k v m = (if k \<in> fst ` set m then map (\<lambda>(i, x). if i = k then (i, v) else (i, x)) m else m @ [(k, v)])"

definition unguard :: "nat \<Rightarrow> slots \<Rightarrow> slots" where
  "unguard p m = map (\<lambda>(i, x). if x = Some p then (i, None) else (i, x)) m"

definition RemoveFromGuardedLocal :: "nat \<Rightarrow> tid \<Rightarrow> 'a hz_state \<Rightarrow> 'a hz_state" where
  "RemoveFromGuardedLocal p t s = s\<lparr>guarded_local := (guarded_local s)(t := unguard p (guarded_local s t))\<rparr>"

definition RemoveFromGuardedGlobal :: "nat \<Rightarrow> 'a hz_state \<Rightarrow> 'a hz_state" where
  "RemoveFromGuardedGlobal p s = s\<lparr>guarded_global := unguard p (guarded_global s)\<rparr>"

definition PushRetired :: "tid \<Rightarrow> nat \<Rightarrow> 'a hz_state \<Rightarrow> 'a hz_state" where
  "PushRetired t p s = (if p \<in> set (retired s t) then s
     else s\<lparr>retired := (retired s)(t := retired s t @ [p]),
            retired_pids := (if t \<in> set (retired_pids s) then retired_pids s else retired_pids s @ [t])\<rparr>)"

definition DeleteForThread :: "tid \<Rightarrow> 'a hz_state \<Rightarrow> 'a hz_state" where
  "DeleteForThread t s = (fold hz_delete (retired s t) s)\<lparr>retired := (retired s)(t := [])\<rparr>"

definition DeleteForAllThreads :: "'a hz_state \<Rightarrow> 'a hz_state" where
  "DeleteForAllThreads s = fold DeleteForThread (retired_pids s) s"

subsection \<open>Mutator and Manager\<close>

definition is_guarded :: "nat \<Rightarrow> 'a hz_state \<Rightarrow> bool" where
  "is_guarded p s = list_ex (\<lambda>g. snd g = Some p) (guarded_global s)"

text \<open>The cleaning loop of Retire: \<open>k\<close> more entries are looked at; an erased one makes room for the next.\<close>

fun clean :: "nat \<Rightarrow> nat list \<Rightarrow> 'a hz_state \<Rightarrow> nat list \<times> 'a hz_state" where
  "clean 0 rtr s = (rtr, s)"
| "clean (Suc k) [] s = ([], s)"
| "clean (Suc k) (p # rtr) s = (if \<not> is_guarded p s then clean k rtr (hz_delete p s)
     else (case clean k rtr s of (rtr', s') \<Rightarrow> (p # rtr', s')))"

definition Retire :: "tid \<Rightarrow> nat \<Rightarrow> 'a hz_state \<Rightarrow> 'a hz_state" where
  "Retire t p s = (let s1 = PushRetired t p (RemoveFromGuardedGlobal p (RemoveFromGuardedLocal p t s)); rtr = retired s1 t in
     if length rtr > 10 then (case clean (length rtr div 2) rtr s1 of (rtr', s2) \<Rightarrow> s2\<lparr>retired := (retired s2)(t := rtr')\<rparr>) else s1)"

definition Clear_slot :: "tid \<Rightarrow> nat \<times> nat option \<Rightarrow> 'a hz_state \<Rightarrow> 'a hz_state" where
  "Clear_slot t gl s = (case snd gl of None \<Rightarrow> s
     | Some p \<Rightarrow> (PushRetired t p s)\<lparr>guarded_local := (guarded_local s)(t := map_set (fst gl) None (guarded_local s t))\<rparr>)"

definition Mutator_Clear :: "tid \<Rightarrow> 'a hz_state \<Rightarrow> 'a hz_state" where
  "Mutator_Clear t s = fold (Clear_slot t) (guarded_local s t) s"

definition MakeMutator :: "tid \<Rightarrow> 'a hz_state \<Rightarrow> 'a hz_state" where
  "MakeMutator t s = s\<lparr>mutators_ids := (if t \<in> set (mutators_ids s) then mutators_ids s else mutators_ids s @ [t])\<rparr>"

text \<open>Collect destroys the mutators, and every destructor clears the slots of the calling thread.\<close>

definition Manager_Collect :: "tid \<Rightarrow> 'a hz_state \<Rightarrow> 'a hz_state" where
  "Manager_Collect t s = (fold (\<lambda>_. Mutator_Clear t) (mutators_ids s) (DeleteForAllThreads s))\<lparr>mutators_ids := []\<rparr>"

definition Protect_load :: "tid \<Rightarrow> 'a hz_state \<Rightarrow> 'a hz_state" where
  "Protect_load t s = (case hz_top s of
     None \<Rightarrow> hz_goto t HzIdle (s\<lparr>hz_ret := hz_ret s @ [(t, None)], hz_log := hz_log s @ [(t, OpPop None)]\<rparr>)
   | Some p \<Rightarrow> hz_goto t (HzGuard p) s)"

definition Protect_guard :: "tid \<Rightarrow> nat \<Rightarrow> nat \<Rightarrow> 'a hz_state \<Rightarrow> 'a hz_state" where
  "Protect_guard t i p s = hz_goto t (HzReload p) (s\<lparr>guarded_global := map_set i (Some p) (guarded_global s),
     guarded_local := (guarded_local s)(t := map_set i (Some p) (guarded_local s t))\<rparr>)"

definition Protect_reload :: "tid \<Rightarrow> nat \<Rightarrow> 'a hz_state \<Rightarrow> 'a hz_state" where
  "Protect_reload t p s = hz_goto t (if hz_top s = Some p then HzCas p else HzLoad) s"

subsection \<open>The stack\<close>

definition HzPush_new :: "tid \<Rightarrow> 'a \<Rightarrow> nat \<Rightarrow> 'a hz_state \<Rightarrow> 'a hz_state option" where
  "HzPush_new t x p s = (if hz_live s p then None
     else Some (hz_goto t (HuLoad p) (s\<lparr>hz_live := (hz_live s)(p := True), hz_item := (hz_item s)(p := Some x), hz_next := (hz_next s)(p := None)\<rparr>)))"

definition HzPush_load :: "tid \<Rightarrow> nat \<Rightarrow> 'a hz_state \<Rightarrow> 'a hz_state" where
  "HzPush_load t p s = hz_goto t (HuCas p) ((hz_touch p s)\<lparr>hz_next := (hz_next s)(p := hz_top s)\<rparr>)"

definition HzPush_cas :: "tid \<Rightarrow> nat \<Rightarrow> bool \<Rightarrow> 'a hz_state \<Rightarrow> 'a hz_state" where
  "HzPush_cas t p spurious s = (let s = hz_touch p s in
     if hz_top s = hz_next s p \<and> \<not> spurious
     then hz_goto t HzIdle (s\<lparr>hz_top := Some p, hz_log := hz_log s @ (case hz_item s p of None \<Rightarrow> [] | Some x \<Rightarrow> [(t, OpPush x)])\<rparr>)
     else s\<lparr>hz_next := (hz_next s)(p := hz_top s)\<rparr>)"

definition HzPop_cas :: "tid \<Rightarrow> nat \<Rightarrow> bool \<Rightarrow> 'a hz_state \<Rightarrow> 'a hz_state" where
  "HzPop_cas t p spurious s = (let s = hz_touch p s in
     if hz_top s = Some p \<and> \<not> spurious
     then hz_goto t (HzRetire p) (s\<lparr>hz_top := hz_next s p, hz_log := hz_log s @ [(t, OpPop (hz_item s p))]\<rparr>)
     else hz_goto t HzLoad s)"

definition HzPop_retire :: "tid \<Rightarrow> nat \<Rightarrow> 'a hz_state \<Rightarrow> 'a hz_state" where
  "HzPop_retire t p s = (let s = hz_touch p s; x = hz_item s p in
     hz_goto t HzIdle ((Retire t p (s\<lparr>hz_item := (hz_item s)(p := None)\<rparr>))\<lparr>hz_ret := hz_ret s @ [(t, x)]\<rparr>))"

datatype 'a hz_act = HzPush tid 'a nat | HzPop tid | HzCollect tid | HzGo tid bool

fun hz_go :: "tid \<Rightarrow> bool \<Rightarrow> 'a hz_state \<Rightarrow> 'a hz_state option" where
  "hz_go t spurious s = (case hz_pc s t of
     HzIdle \<Rightarrow> None
   | HuLoad p \<Rightarrow> Some (HzPush_load t p s)
   | HuCas p \<Rightarrow> Some (HzPush_cas t p spurious s)
   | HzLoad \<Rightarrow> Some (Protect_load t s)
   | HzGuard p \<Rightarrow> Some (Protect_guard t 0 p s)
   | HzReload p \<Rightarrow> Some (Protect_reload t p s)
   | HzCas p \<Rightarrow> Some (HzPop_cas t p spurious s)
   | HzRetire p \<Rightarrow> Some (HzPop_retire t p s))"

fun hz_step :: "nat \<Rightarrow> 'a hz_act \<Rightarrow> 'a hz_state \<Rightarrow> 'a hz_state option" where
  "hz_step n (HzPush t x p) s = (if t < n \<and> hz_pc s t = HzIdle then HzPush_new t x p s else None)"
| "hz_step n (HzPop t) s = (if t < n \<and> hz_pc s t = HzIdle then Some (hz_goto t HzLoad (MakeMutator t s)) else None)"
| "hz_step n (HzCollect t) s = (if t < n \<and> hz_pc s t = HzIdle then Some (Manager_Collect t s) else None)"
| "hz_step n (HzGo t spurious) s = (if t < n then hz_go t spurious s else None)"

text \<open>The destructor of the stack; the fuel bounds the number of nodes.\<close>

fun HzStack_destroy :: "nat \<Rightarrow> nat option \<Rightarrow> 'a hz_state \<Rightarrow> 'a hz_state option" where
  "HzStack_destroy fuel None s = Some s"
| "HzStack_destroy 0 (Some p) s = None"
| "HzStack_destroy (Suc fuel) (Some p) s = HzStack_destroy fuel (hz_next s p) (hz_delete p (hz_touch p s))"


subsection \<open>Calls that do not overlap\<close>

fun hz_actor :: "'a hz_act \<Rightarrow> tid" where
  "hz_actor (HzPush t x p) = t"
| "hz_actor (HzPop t) = t"
| "hz_actor (HzCollect t) = t"
| "hz_actor (HzGo t spurious) = t"

definition hz_serial :: "nat \<Rightarrow> 'a hz_act \<Rightarrow> 'a hz_state \<Rightarrow> 'a hz_state option" where
  "hz_serial n a s = (if list_all (\<lambda>u. u = hz_actor a \<or> hz_pc s u = HzIdle) [0..<n] then hz_step n a s else None)"

fun hz_list :: "'a hz_state \<Rightarrow> nat option \<Rightarrow> nat list \<Rightarrow> bool" where
  "hz_list s q [] = (q = None)"
| "hz_list s q (m # l) = (q = Some m \<and> hz_list s (hz_next s m) l)"

text \<open>The node that a call has in its hands.\<close>

definition hz_own :: "hz_pc \<Rightarrow> nat list" where
  "hz_own p = (case p of HuLoad m \<Rightarrow> [m] | HuCas m \<Rightarrow> [m] | HzRetire m \<Rightarrow> [m] | _ \<Rightarrow> [])"

definition hz_pending :: "'a hz_state \<Rightarrow> hz_pc \<Rightarrow> 'a option list" where
  "hz_pending s p = (case p of HzRetire m \<Rightarrow> [hz_item s m] | _ \<Rightarrow> [])"

text \<open>What the slots of a thread may hold: the node its own call is about.\<close>

definition slot_ok :: "nat option \<Rightarrow> hz_pc \<Rightarrow> nat option \<Rightarrow> bool" where
  "slot_ok tp p x = (case x of None \<Rightarrow> True | Some m \<Rightarrow> (case p of HzLoad \<Rightarrow> tp = Some m | HzGuard q \<Rightarrow> q = m | HzReload q \<Rightarrow> q = m
     | HzCas q \<Rightarrow> q = m | HzRetire q \<Rightarrow> q = m | _ \<Rightarrow> False))"

definition hz_pc_ok :: "nat option \<Rightarrow> hz_pc \<Rightarrow> bool" where
  "hz_pc_ok tp p = (case p of HzGuard q \<Rightarrow> tp = Some q | HzReload q \<Rightarrow> tp = Some q | HzCas q \<Rightarrow> tp = Some q | _ \<Rightarrow> True)"

text \<open>Thread \<open>t\<close> is the only one that may be in a call, and \<open>l\<close> are the nodes of the list.\<close>

definition hz_inv :: "tid \<Rightarrow> nat list \<Rightarrow> 'a hz_state \<Rightarrow> bool" where
  "hz_inv t l s = (\<not> hz_bad s \<and> hz_list s (hz_top s) l \<and> distinct (l @ hz_own (hz_pc s t)) \<and> (\<forall>u. u \<noteq> t \<longrightarrow> hz_pc s u = HzIdle) \<and>
     (\<forall>u. distinct (retired s u) \<and> (\<forall>m\<in>set (retired s u). m \<notin> set (l @ hz_own (hz_pc s t)))) \<and>
     (\<forall>u v m. m \<in> set (retired s u) \<and> m \<in> set (retired s v) \<longrightarrow> u = v) \<and>
     (\<forall>m. hz_live s m \<longleftrightarrow> m \<in> set (l @ hz_own (hz_pc s t)) \<or> (\<exists>u. m \<in> set (retired s u))) \<and>
     distinct (retired_pids s) \<and> (\<forall>u. retired s u \<noteq> [] \<longrightarrow> u \<in> set (retired_pids s)) \<and>
     (\<forall>m\<in>set (l @ hz_own (hz_pc s t)). hz_item s m \<noteq> None) \<and>
     (\<forall>u. \<forall>g\<in>set (guarded_local s u). slot_ok (hz_top s) (hz_pc s u) (snd g)) \<and> hz_pc_ok (hz_top s) (hz_pc s t) \<and>
     lf_spec [] (hz_log s) = Some (map (\<lambda>m. the (hz_item s m)) l) \<and>
     (\<forall>u. pops u (hz_log s) = rets u (hz_ret s) @ hz_pending s (hz_pc s u)))"

lemma hz_invI:
  assumes "\<not> hz_bad s" and "hz_list s (hz_top s) l" and "distinct (l @ hz_own (hz_pc s t))" and "\<And>u. u \<noteq> t \<Longrightarrow> hz_pc s u = HzIdle"
    and "\<And>u. distinct (retired s u)" and "\<And>u m. m \<in> set (retired s u) \<Longrightarrow> m \<notin> set (l @ hz_own (hz_pc s t))"
    and "\<And>u v m. m \<in> set (retired s u) \<Longrightarrow> m \<in> set (retired s v) \<Longrightarrow> u = v"
    and "\<And>m. hz_live s m \<longleftrightarrow> m \<in> set (l @ hz_own (hz_pc s t)) \<or> (\<exists>u. m \<in> set (retired s u))"
    and "distinct (retired_pids s)" and "\<And>u. retired s u \<noteq> [] \<Longrightarrow> u \<in> set (retired_pids s)"
    and "\<And>m. m \<in> set (l @ hz_own (hz_pc s t)) \<Longrightarrow> hz_item s m \<noteq> None"
    and "\<And>u g. g \<in> set (guarded_local s u) \<Longrightarrow> slot_ok (hz_top s) (hz_pc s u) (snd g)" and "hz_pc_ok (hz_top s) (hz_pc s t)"
    and "lf_spec [] (hz_log s) = Some (map (\<lambda>m. the (hz_item s m)) l)"
    and "\<And>u. pops u (hz_log s) = rets u (hz_ret s) @ hz_pending s (hz_pc s u)"
  shows "hz_inv t l s"
  unfolding hz_inv_def by (intro conjI allI impI ballI; (erule conjE)?; (rule assms; assumption?))

lemma hz_invD:
  assumes "hz_inv t l s"
  shows "\<not> hz_bad s" and "hz_list s (hz_top s) l" and "distinct (l @ hz_own (hz_pc s t))" and "\<And>u. u \<noteq> t \<Longrightarrow> hz_pc s u = HzIdle"
    and "\<And>u. distinct (retired s u)" and "\<And>u m. m \<in> set (retired s u) \<Longrightarrow> m \<notin> set (l @ hz_own (hz_pc s t))"
    and "\<And>u v m. m \<in> set (retired s u) \<Longrightarrow> m \<in> set (retired s v) \<Longrightarrow> u = v"
    and "\<And>m. hz_live s m \<longleftrightarrow> m \<in> set (l @ hz_own (hz_pc s t)) \<or> (\<exists>u. m \<in> set (retired s u))"
    and "distinct (retired_pids s)" and "\<And>u. retired s u \<noteq> [] \<Longrightarrow> u \<in> set (retired_pids s)"
    and "\<And>m. m \<in> set (l @ hz_own (hz_pc s t)) \<Longrightarrow> hz_item s m \<noteq> None"
    and "\<And>u g. g \<in> set (guarded_local s u) \<Longrightarrow> slot_ok (hz_top s) (hz_pc s u) (snd g)" and "hz_pc_ok (hz_top s) (hz_pc s t)"
    and "lf_spec [] (hz_log s) = Some (map (\<lambda>m. the (hz_item s m)) l)"
    and "\<And>u. pops u (hz_log s) = rets u (hz_ret s) @ hz_pending s (hz_pc s u)"
  using assms unfolding hz_inv_def by blast+

lemma hz_list_other:
  assumes "hz_list s q l" and "\<And>m. m \<in> set l \<Longrightarrow> hz_next s' m = hz_next s m"
  shows "hz_list s' q l"
  using assms by (induction l arbitrary: q) auto

lemma hz_touch_live: "\<not> hz_bad s \<Longrightarrow> hz_live s p \<Longrightarrow> hz_touch p s = s"
  by (cases s) (simp add: hz_touch_def)

lemmas hz_ops = hz_goto_def hz_touch_def

text \<open>When nobody is in a call, any thread may start one.\<close>

lemma hz_inv_idle:
  assumes "hz_inv t l s" and "hz_pc s t = HzIdle"
  shows "hz_inv u l s"
proof -
  note D = hz_invD [OF assms(1)]
  have idle: "hz_pc s v = HzIdle" for v using D(4) [of v] assms(2) by (cases "v = t") auto
  have own: "hz_own (hz_pc s v) = []" for v by (simp add: idle hz_own_def)
  show ?thesis
  proof (rule hz_invI)
    show "hz_pc_ok (hz_top s) (hz_pc s u)" by (simp add: idle hz_pc_ok_def)
    show "\<And>v. v \<noteq> u \<Longrightarrow> hz_pc s v = HzIdle" by (rule idle)
  qed (fact D [unfolded own] | use D own in \<open>simp; fail\<close>)+
qed

text \<open>A step that changes only where the call is.\<close>

lemma hz_move:
  assumes inv: "hz_inv t l s" and s': "s' = s\<lparr>hz_pc := (hz_pc s)(t := p), guarded_global := gg, guarded_local := gl, mutators_ids := mi,
      hz_ret := hz_ret s @ r, hz_log := hz_log s @ o'\<rparr>"
    and "hz_own p = []" and "hz_own (hz_pc s t) = []" and "hz_pc_ok (hz_top s) p"
    and "\<And>u g. g \<in> set (gl u) \<Longrightarrow> slot_ok (hz_top s) (if u = t then p else HzIdle) (snd g)"
    and "r = [] \<and> o' = [] \<or> r = [(t, None)] \<and> o' = [(t, OpPop None)] \<and> l = []"
  shows "hz_inv t l s'"
proof -
  note D = hz_invD [OF inv]
  have p: "hz_pending s p = []" "hz_pending s (hz_pc s t) = []" using assms(3, 4)
    by (simp_all add: hz_pending_def hz_own_def split: hz_pc.splits)
  have pend: "hz_pending s' q = hz_pending s q" for q by (cases q) (simp_all add: s' hz_pending_def)
  show ?thesis
  proof (rule hz_invI)
    show "hz_list s' (hz_top s') l" using hz_list_other [OF D(2), of s'] by (simp add: s')
    show "lf_spec [] (hz_log s') = Some (map (\<lambda>m. the (hz_item s' m)) l)" using D(14) assms(7) by (auto simp: s' lf_spec_append)
    show "pops u (hz_log s') = rets u (hz_ret s') @ hz_pending s' (hz_pc s' u)" for u
      using D(15) [of u] p assms(7) unfolding pend by (auto simp: s')
    show "slot_ok (hz_top s') (hz_pc s' u) (snd g)" if "g \<in> set (guarded_local s' u)" for u g
      using that assms(6) [of g u] D(4) [of u] by (cases "u = t") (simp_all add: s')
    show "hz_live s' m \<longleftrightarrow> m \<in> set (l @ hz_own (hz_pc s' t)) \<or> (\<exists>u. m \<in> set (retired s' u))" for m
      using D(8) [of m] assms(3, 4) by (simp add: s')
    show "m \<notin> set (l @ hz_own (hz_pc s' t))" if "m \<in> set (retired s' u)" for m u using D(6) [of m u] that assms(3, 4) by (simp add: s')
    show "u = v" if "m \<in> set (retired s' u)" "m \<in> set (retired s' v)" for u v m using D(7) [of m u v] that by (simp add: s')
    show "hz_item s' m \<noteq> None" if "m \<in> set (l @ hz_own (hz_pc s' t))" for m using D(11) [of m] that assms(3, 4) by (simp add: s')
  qed (use D(1, 3, 4, 5, 9, 10) assms(3-5) in \<open>simp_all add: s'\<close>)
qed


lemma slot_ok_None [simp]: "slot_ok tp p None"
  by (simp add: slot_ok_def)

text \<open>The slots of a thread that is not in a call are empty.\<close>

lemma slots_idle:
  assumes "hz_inv t l s" and "hz_pc s u = HzIdle" and "g \<in> set (guarded_local s u)"
  shows "snd g = None"
  using hz_invD(12) [OF assms(1) assms(3)] assms(2) by (simp add: slot_ok_def split: option.splits)

lemma slots_other:
  assumes inv: "hz_inv t l s" and "g \<in> set (guarded_local s u)" and "slot_ok (hz_top s) (hz_pc s t) (snd g) \<Longrightarrow> slot_ok tp p (snd g)"
  shows "slot_ok tp (if u = t then p else HzIdle) (snd g)"
proof (cases "u = t")
  case True
  then show ?thesis using hz_invD(12) [OF inv assms(2)] assms(3) by simp
next
  case False
  then show ?thesis using slots_idle [OF inv hz_invD(4) [OF inv False] assms(2)] by simp
qed

lemma set_map_set: "g \<in> set (map_set k v m) \<Longrightarrow> snd g = v \<or> g \<in> set m"
  by (auto simp: map_set_def split: if_splits)

lemma hz_top_live:
  assumes inv: "hz_inv t l s" and "hz_top s = Some p"
  obtains l' where "l = p # l'" and "hz_list s (hz_next s p) l'" and "hz_live s p"
  using hz_invD(2, 8) [OF inv] assms(2) by (cases l) auto

lemma hz_go_on:
  assumes inv: "hz_inv t l s" and s': "s' = s\<lparr>hz_pc := (hz_pc s)(t := p), mutators_ids := mi, hz_ret := hz_ret s @ r, hz_log := hz_log s @ o'\<rparr>"
    and "hz_own p = []" and "hz_own (hz_pc s t) = []" and "hz_pc_ok (hz_top s) p"
    and slot: "\<And>m. slot_ok (hz_top s) (hz_pc s t) (Some m) \<Longrightarrow> slot_ok (hz_top s) p (Some m)"
    and "r = [] \<and> o' = [] \<or> r = [(t, None)] \<and> o' = [(t, OpPop None)] \<and> l = []"
  shows "hz_inv t l s'"
proof (rule hz_move [OF inv, where p = p and r = r and o' = o' and gg = "guarded_global s" and gl = "guarded_local s" and mi = mi])
  show "slot_ok (hz_top s) (if u = t then p else HzIdle) (snd g)" if "g \<in> set (guarded_local s u)" for u g
    by (rule slots_other [OF inv that]) (use slot in \<open>cases "snd g"; simp\<close>)
qed (use assms in simp_all)

lemma hz_pop_start:
  assumes inv: "hz_inv t l s" and pc: "hz_pc s t = HzIdle"
  shows "hz_inv t l (hz_goto t HzLoad (MakeMutator t s))"
  by (rule hz_go_on [OF inv, where p = HzLoad and r = "[]" and o' = "[]" and mi = "mutators_ids (MakeMutator t s)"])
    (use pc in \<open>simp_all add: hz_goto_def MakeMutator_def hz_own_def hz_pc_ok_def slot_ok_def\<close>)

lemma hz_protect_load:
  assumes inv: "hz_inv t l s" and pc: "hz_pc s t = HzLoad"
  shows "hz_inv t l (Protect_load t s)"
proof (cases "hz_top s")
  case None
  then have "l = []" using hz_invD(2) [OF inv] by (cases l) auto
  then show ?thesis using None pc
    by (intro hz_go_on [OF inv, where p = HzIdle and r = "[(t, None)]" and o' = "[(t, OpPop None)]" and mi = "mutators_ids s"])
      (simp_all add: Protect_load_def hz_goto_def hz_own_def hz_pc_ok_def slot_ok_def)
next
  case (Some p)
  then show ?thesis using pc
    by (intro hz_go_on [OF inv, where p = "HzGuard p" and r = "[]" and o' = "[]" and mi = "mutators_ids s"])
      (simp_all add: Protect_load_def hz_goto_def hz_own_def hz_pc_ok_def slot_ok_def)
qed

lemma hz_protect_guard:
  assumes inv: "hz_inv t l s" and pc: "hz_pc s t = HzGuard p"
  shows "hz_inv t l (Protect_guard t i p s)"
proof (rule hz_move [OF inv, where p = "HzReload p" and r = "[]" and o' = "[]" and gg = "map_set i (Some p) (guarded_global s)"
      and gl = "(guarded_local s)(t := map_set i (Some p) (guarded_local s t))" and mi = "mutators_ids s"])
  show "slot_ok (hz_top s) (if u = t then HzReload p else HzIdle) (snd g)"
    if "g \<in> set (((guarded_local s)(t := map_set i (Some p) (guarded_local s t))) u)" for u g
  proof (cases "u = t")
    case True
    then show ?thesis using that set_map_set [of g i "Some p" "guarded_local s t"] slots_other [OF inv, of g t "hz_top s" "HzReload p"] pc
      by (auto simp: slot_ok_def split: option.splits)
  next
    case False
    then show ?thesis using that slots_idle [OF inv hz_invD(4) [OF inv False]] by simp
  qed
qed (use pc hz_invD(13) [OF inv] in \<open>simp_all add: Protect_guard_def hz_goto_def hz_own_def hz_pc_ok_def\<close>)

lemma hz_protect_reload:
  assumes inv: "hz_inv t l s" and pc: "hz_pc s t = HzReload p"
  shows "hz_inv t l (Protect_reload t p s)"
proof -
  have top: "hz_top s = Some p" using hz_invD(13) [OF inv] pc by (simp add: hz_pc_ok_def)
  show ?thesis
    by (rule hz_go_on [OF inv, where p = "HzCas p" and r = "[]" and o' = "[]" and mi = "mutators_ids s"])
      (use top pc in \<open>simp_all add: Protect_reload_def hz_goto_def hz_own_def hz_pc_ok_def slot_ok_def\<close>)
qed

lemma hz_pop_cas:
  assumes inv: "hz_inv t l s" and pc: "hz_pc s t = HzCas p"
  shows "\<exists>l'. hz_inv t l' (HzPop_cas t p spurious s)"
proof -
  note D = hz_invD [OF inv]
  have top: "hz_top s = Some p" using D(13) pc by (simp add: hz_pc_ok_def)
  obtain l' where l: "l = p # l'" and nx: "hz_list s (hz_next s p) l'" and live: "hz_live s p" by (rule hz_top_live [OF inv top])
  note tch = hz_touch_live [OF D(1) live]
  show ?thesis
  proof (cases spurious)
    case True
    then have "hz_inv t l (HzPop_cas t p spurious s)" using top pc tch
      by (intro hz_go_on [OF inv, where p = HzLoad and r = "[]" and o' = "[]" and mi = "mutators_ids s"])
        (simp_all add: HzPop_cas_def hz_goto_def hz_own_def hz_pc_ok_def slot_ok_def)
    then show ?thesis by blast
  next
    case False
    obtain x where x: "hz_item s p = Some x" using D(11) [of p] l by auto
    define s' where "s' = HzPop_cas t p spurious s"
    have s': "s' = hz_goto t (HzRetire p) (s\<lparr>hz_top := hz_next s p, hz_log := hz_log s @ [(t, OpPop (Some x))]\<rparr>)"
      using False top tch x by (simp add: s'_def HzPop_cas_def)
    have "hz_inv t l' s'"
    proof (rule hz_invI)
      show "hz_list s' (hz_top s') l'" using hz_list_other [OF nx, of s'] by (simp add: s' hz_goto_def)
      show "hz_live s' m \<longleftrightarrow> m \<in> set (l' @ hz_own (hz_pc s' t)) \<or> (\<exists>u. m \<in> set (retired s' u))" for m
        using D(8) [of m] l pc by (auto simp: s' hz_goto_def hz_own_def)
      show "m \<notin> set (l' @ hz_own (hz_pc s' t))" if "m \<in> set (retired s' u)" for m u
        using D(6) [of m u] that l by (auto simp: s' hz_goto_def hz_own_def)
      show "u = v" if "m \<in> set (retired s' u)" "m \<in> set (retired s' v)" for u v m using D(7) [of m u v] that by (simp add: s' hz_goto_def)
      show "hz_item s' m \<noteq> None" if "m \<in> set (l' @ hz_own (hz_pc s' t))" for m
        using D(11) [of m] that l by (auto simp: s' hz_goto_def hz_own_def)
      show "slot_ok (hz_top s') (hz_pc s' u) (snd g)" if "g \<in> set (guarded_local s' u)" for u g
      proof -
        have "slot_ok (hz_top s') (if u = t then HzRetire p else HzIdle) (snd g)"
          by (rule slots_other [OF inv, of _ u]) (use that pc in \<open>cases "snd g"; simp add: s' hz_goto_def slot_ok_def\<close>)+
        then show ?thesis using D(4) [of u] by (cases "u = t") (simp_all add: s' hz_goto_def)
      qed
      show "lf_spec [] (hz_log s') = Some (map (\<lambda>m. the (hz_item s' m)) l')" using D(14) l x by (simp add: s' hz_goto_def lf_spec_append)
      show "pops u (hz_log s') = rets u (hz_ret s') @ hz_pending s' (hz_pc s' u)" for u
        using D(15) [of u] D(4) [of u] pc x by (simp add: s' hz_goto_def hz_pending_def)
    qed (use D(1, 3, 4, 5, 9, 10) l pc in \<open>auto simp: s' hz_goto_def hz_own_def hz_pc_ok_def\<close>)
    then show ?thesis unfolding s'_def by blast
  qed
qed


subsection \<open>Push\<close>

lemma hz_push_new:
  assumes inv: "hz_inv t l s" and pc: "hz_pc s t = HzIdle" and call: "HzPush_new t x p s = Some s'"
  shows "hz_inv t l s'"
proof -
  note D = hz_invD [OF inv]
  have new: "\<not> hz_live s p" using call by (simp add: HzPush_new_def split: if_splits)
  then have p: "p \<notin> set l" "\<And>u. p \<notin> set (retired s u)" using D(8) [of p] by auto
  have s': "s' = hz_goto t (HuLoad p) (s\<lparr>hz_live := (hz_live s)(p := True), hz_item := (hz_item s)(p := Some x), hz_next := (hz_next s)(p := None)\<rparr>)"
    using call new by (simp add: HzPush_new_def)
  show ?thesis
  proof (rule hz_invI)
    have "hz_list s' (hz_top s) l" by (rule hz_list_other [OF D(2)]) (use p(1) in \<open>auto simp: s' hz_goto_def\<close>)
    then show "hz_list s' (hz_top s') l" by (simp add: s' hz_goto_def)
    show "hz_live s' m \<longleftrightarrow> m \<in> set (l @ hz_own (hz_pc s' t)) \<or> (\<exists>u. m \<in> set (retired s' u))" for m
      using D(8) [of m] pc by (auto simp: s' hz_goto_def hz_own_def)
    show "m \<notin> set (l @ hz_own (hz_pc s' t))" if "m \<in> set (retired s' u)" for m u
      using D(6) [of m u] that p by (auto simp: s' hz_goto_def hz_own_def)
    show "u = v" if "m \<in> set (retired s' u)" "m \<in> set (retired s' v)" for u v m using D(7) [of m u v] that by (simp add: s' hz_goto_def)
    show "hz_item s' m \<noteq> None" if "m \<in> set (l @ hz_own (hz_pc s' t))" for m
      using D(11) [of m] that by (auto simp: s' hz_goto_def hz_own_def)
    show "slot_ok (hz_top s') (hz_pc s' u) (snd g)" if "g \<in> set (guarded_local s' u)" for u g
      using slots_idle [OF inv, of u g] that pc D(4) [of u] by (cases "u = t") (simp_all add: s' hz_goto_def)
    show "lf_spec [] (hz_log s') = Some (map (\<lambda>m. the (hz_item s' m)) l)" using D(14) p(1) by (auto simp: s' hz_goto_def)
    show "pops u (hz_log s') = rets u (hz_ret s') @ hz_pending s' (hz_pc s' u)" for u
      using D(15) [of u] D(4) [of u] pc by (simp add: s' hz_goto_def hz_pending_def)
  qed (use D(1, 3, 4, 5, 9, 10) p pc in \<open>auto simp: s' hz_goto_def hz_own_def hz_pc_ok_def\<close>)
qed

text \<open>Link the new node to the top, and publish it.\<close>

lemma hz_push_link:
  assumes inv: "hz_inv t l s" and pc: "hz_pc s t = HuLoad p \<or> hz_pc s t = HuCas p"
  shows "hz_inv t l (hz_goto t (HuCas p) ((hz_touch p s)\<lparr>hz_next := (hz_next s)(p := q)\<rparr>))"
proof -
  note D = hz_invD [OF inv]
  have own: "hz_own (hz_pc s t) = [p]" using pc by (auto simp: hz_own_def)
  have p: "p \<notin> set l" using D(3) own by simp
  have live: "hz_live s p" using D(8) [of p] own by simp
  define s' where "s' = hz_goto t (HuCas p) ((hz_touch p s)\<lparr>hz_next := (hz_next s)(p := q)\<rparr>)"
  note s' = s'_def [unfolded hz_ops]
  have pend: "hz_pending s' r = hz_pending s r" for r by (cases r) (simp_all add: s' hz_pending_def)
  have "hz_inv t l s'"
  proof (rule hz_invI)
    have "hz_list s' (hz_top s) l" by (rule hz_list_other [OF D(2)]) (use p in \<open>auto simp: s'\<close>)
    then show "hz_list s' (hz_top s') l" by (simp add: s')
    show "hz_live s' m \<longleftrightarrow> m \<in> set (l @ hz_own (hz_pc s' t)) \<or> (\<exists>u. m \<in> set (retired s' u))" for m
      using D(8) [of m] own by (auto simp: s' hz_own_def)
    show "m \<notin> set (l @ hz_own (hz_pc s' t))" if "m \<in> set (retired s' u)" for m u
      using D(6) [of m u] that own by (simp add: s' hz_own_def)
    show "u = v" if "m \<in> set (retired s' u)" "m \<in> set (retired s' v)" for u v m using D(7) [of m u v] that by (simp add: s')
    show "hz_item s' m \<noteq> None" if "m \<in> set (l @ hz_own (hz_pc s' t))" for m
      using D(11) [of m] that own by (auto simp: s' hz_own_def)
    show "slot_ok (hz_top s') (hz_pc s' u) (snd g)" if "g \<in> set (guarded_local s' u)" for u g
      using hz_invD(12) [OF inv, of g u] that pc by (cases "u = t") (auto simp: s' slot_ok_def split: option.splits)
    show "lf_spec [] (hz_log s') = Some (map (\<lambda>m. the (hz_item s' m)) l)" using D(14) by (simp add: s')
    show "pops u (hz_log s') = rets u (hz_ret s') @ hz_pending s' (hz_pc s' u)" for u
      unfolding pend using D(15) [of u] pc by (cases "u = t") (auto simp: s' hz_pending_def)
  qed (use D(1, 3, 4, 5, 9, 10) own live in \<open>auto simp: s' hz_own_def hz_pc_ok_def\<close>)
  then show ?thesis by (simp add: s'_def)
qed

lemma hz_push_cas:
  assumes inv: "hz_inv t l s" and pc: "hz_pc s t = HuCas p"
  shows "\<exists>l'. hz_inv t l' (HzPush_cas t p spurious s)"
proof (cases "hz_top s = hz_next s p \<and> \<not> spurious")
  case False
  have "HzPush_cas t p spurious s = hz_goto t (HuCas p) ((hz_touch p s)\<lparr>hz_next := (hz_next s)(p := hz_top s)\<rparr>)"
    using False pc by (auto simp: HzPush_cas_def Let_def hz_ops fun_upd_idem)
  then show ?thesis using hz_push_link [OF inv] pc by metis
next
  case True
  note D = hz_invD [OF inv]
  have own: "hz_own (hz_pc s t) = [p]" using pc by (simp add: hz_own_def)
  have p: "p \<notin> set l" using D(3) own by simp
  have live: "hz_live s p" using D(8) [of p] own by simp
  obtain x where x: "hz_item s p = Some x" using D(11) [of p] own by auto
  define s' where "s' = HzPush_cas t p spurious s"
  have s': "s' = hz_goto t HzIdle (s\<lparr>hz_top := Some p, hz_log := hz_log s @ [(t, OpPush x)]\<rparr>)"
    using True x hz_touch_live [OF D(1) live] by (simp add: s'_def HzPush_cas_def)
  have "hz_inv t (p # l) s'"
  proof (rule hz_invI)
    show "hz_list s' (hz_top s') (p # l)" using hz_list_other [OF D(2), of s'] True by (simp add: s' hz_goto_def)
    show "hz_live s' m \<longleftrightarrow> m \<in> set ((p # l) @ hz_own (hz_pc s' t)) \<or> (\<exists>u. m \<in> set (retired s' u))" for m
      using D(8) [of m] own by (auto simp: s' hz_goto_def hz_own_def)
    show "m \<notin> set ((p # l) @ hz_own (hz_pc s' t))" if "m \<in> set (retired s' u)" for m u
      using D(6) [of m u] that own by (auto simp: s' hz_goto_def hz_own_def)
    show "u = v" if "m \<in> set (retired s' u)" "m \<in> set (retired s' v)" for u v m using D(7) [of m u v] that by (simp add: s' hz_goto_def)
    show "hz_item s' m \<noteq> None" if "m \<in> set ((p # l) @ hz_own (hz_pc s' t))" for m
      using D(11) [of m] that own by (auto simp: s' hz_goto_def hz_own_def)
    show "slot_ok (hz_top s') (hz_pc s' u) (snd g)" if "g \<in> set (guarded_local s' u)" for u g
    proof -
      have "snd g = None" using hz_invD(12) [OF inv, of g u] that pc D(4) [of u]
        by (cases "u = t"; cases "snd g") (simp_all add: s' hz_goto_def slot_ok_def)
      then show ?thesis by simp
    qed
    show "lf_spec [] (hz_log s') = Some (map (\<lambda>m. the (hz_item s' m)) (p # l))" using D(14) x by (simp add: s' hz_goto_def lf_spec_append)
    show "pops u (hz_log s') = rets u (hz_ret s') @ hz_pending s' (hz_pc s' u)" for u
      using D(15) [of u] D(4) [of u] pc by (cases "u = t") (simp_all add: s' hz_goto_def hz_pending_def)
  qed (use D(1, 3, 4, 5, 9, 10) p own in \<open>auto simp: s' hz_goto_def hz_own_def hz_pc_ok_def\<close>)
  then show ?thesis unfolding s'_def by blast
qed


subsection \<open>Retiring and deleting\<close>

text \<open>The cleaning loop deletes each entry that it takes out of the list, once.\<close>

lemma clean_deletes:
  assumes "distinct rtr" and "\<And>m. m \<in> set rtr \<Longrightarrow> hz_live s m" and "clean k rtr s = (rtr', s')"
  shows "distinct rtr' \<and> set rtr' \<subseteq> set rtr \<and> s' = s\<lparr>hz_live := (\<lambda>m. hz_live s m \<and> (m \<in> set rtr \<longrightarrow> m \<in> set rtr'))\<rparr>"
  using assms
proof (induction k rtr s arbitrary: rtr' s' rule: clean.induct)
  case (3 k p rtr s)
  show ?case
  proof (cases "is_guarded p s")
    case True
    obtain q s1 where q: "clean k rtr s = (q, s1)" by (cases "clean k rtr s")
    have IH: "distinct q \<and> set q \<subseteq> set rtr \<and> s1 = s\<lparr>hz_live := (\<lambda>m. hz_live s m \<and> (m \<in> set rtr \<longrightarrow> m \<in> set q))\<rparr>"
      by (rule "3.IH"(2) [OF _ _ _ q]) (use True "3.prems"(1, 2) in auto)
    have r: "rtr' = p # q" "s' = s1" using "3.prems"(3) True q by simp_all
    have live: "(\<lambda>m. hz_live s m \<and> (m \<in> set rtr \<longrightarrow> m \<in> set q)) = (\<lambda>m. hz_live s m \<and> (m \<in> set (p # rtr) \<longrightarrow> m \<in> set (p # q)))"
      using "3.prems"(1) by (auto simp: fun_eq_iff)
    have "distinct rtr'" and "set rtr' \<subseteq> set (p # rtr)" using IH r(1) "3.prems"(1) by auto
    moreover have "s' = s\<lparr>hz_live := (\<lambda>m. hz_live s m \<and> (m \<in> set (p # rtr) \<longrightarrow> m \<in> set rtr'))\<rparr>"
      unfolding r live [symmetric] using IH by blast
    ultimately show ?thesis by blast
  next
    case False
    have del: "hz_delete p s = s\<lparr>hz_live := (hz_live s)(p := False)\<rparr>"
      using "3.prems"(2) [of p] by (cases s) (simp add: hz_delete_def)
    have live: "hz_live (hz_delete p s) m" if "m \<in> set rtr" for m using that "3.prems"(1, 2) by (auto simp: del)
    have "clean k rtr (hz_delete p s) = (rtr', s')" using "3.prems"(3) False by simp
    then have IH: "distinct rtr' \<and> set rtr' \<subseteq> set rtr \<and>
        s' = (hz_delete p s)\<lparr>hz_live := (\<lambda>m. hz_live (hz_delete p s) m \<and> (m \<in> set rtr \<longrightarrow> m \<in> set rtr'))\<rparr>"
      using "3.IH"(1) [OF False _ live] "3.prems"(1) by simp
    have live': "(\<lambda>m. hz_live (hz_delete p s) m \<and> (m \<in> set rtr \<longrightarrow> m \<in> set rtr')) = (\<lambda>m. hz_live s m \<and> (m \<in> set (p # rtr) \<longrightarrow> m \<in> set rtr'))"
      using "3.prems"(1) IH by (auto simp: fun_eq_iff del)
    have "distinct rtr'" and "set rtr' \<subseteq> set (p # rtr)" using IH by auto
    moreover have "s' = s\<lparr>hz_live := (\<lambda>m. hz_live s m \<and> (m \<in> set (p # rtr) \<longrightarrow> m \<in> set rtr'))\<rparr>"
      unfolding live' [symmetric] using IH by (simp add: del)
    ultimately show ?thesis by blast
  qed
qed (auto simp: fun_eq_iff)

lemma clean_code [code]: "clean k rtr s = (if k = 0 then (rtr, s) else case rtr of [] \<Rightarrow> ([], s)
    | p # rtr \<Rightarrow> if \<not> is_guarded p s then clean (k - 1) rtr (hz_delete p s) else (case clean (k - 1) rtr s of (rtr', s') \<Rightarrow> (p # rtr', s')))"
  by (cases k; cases rtr) simp_all

text \<open>What Retire leaves: the node in the list of its thread, or deleted with others of that list.\<close>

lemma Retire_result:
  assumes "distinct (retired s t)" and "p \<notin> set (retired s t)" and "\<And>m. m \<in> set (retired s t) \<Longrightarrow> hz_live s m" and "hz_live s p"
  obtains rtr where "distinct rtr" and "set rtr \<subseteq> insert p (set (retired s t))"
    and "Retire t p s = s\<lparr>guarded_local := (guarded_local s)(t := unguard p (guarded_local s t)), guarded_global := unguard p (guarded_global s),
      retired := (retired s)(t := rtr), retired_pids := (if t \<in> set (retired_pids s) then retired_pids s else retired_pids s @ [t]),
      hz_live := (\<lambda>m. hz_live s m \<and> (m \<in> insert p (set (retired s t)) \<longrightarrow> m \<in> set rtr))\<rparr>"
proof -
  let ?s1 = "PushRetired t p (RemoveFromGuardedGlobal p (RemoveFromGuardedLocal p t s))"
  let ?rtr = "retired s t @ [p]"
  have s1: "?s1 = s\<lparr>guarded_local := (guarded_local s)(t := unguard p (guarded_local s t)), guarded_global := unguard p (guarded_global s),
      retired := (retired s)(t := ?rtr), retired_pids := (if t \<in> set (retired_pids s) then retired_pids s else retired_pids s @ [t])\<rparr>"
    using assms(2) by (simp add: PushRetired_def RemoveFromGuardedGlobal_def RemoveFromGuardedLocal_def)
  show ?thesis
  proof (cases "length ?rtr > 10")
    case False
    have "Retire t p s = ?s1\<lparr>hz_live := hz_live s\<rparr>" using False assms(2)
      by (simp add: Retire_def Let_def PushRetired_def RemoveFromGuardedGlobal_def RemoveFromGuardedLocal_def)
    moreover have "hz_live s = (\<lambda>m. hz_live s m \<and> (m \<in> insert p (set (retired s t)) \<longrightarrow> m \<in> set ?rtr))" by auto
    ultimately show ?thesis using that [of ?rtr] assms(1, 2) unfolding s1 by simp
  next
    case True
    obtain rtr s2 where c: "clean (length ?rtr div 2) ?rtr ?s1 = (rtr, s2)" by (cases "clean (length ?rtr div 2) ?rtr ?s1")
    have "distinct rtr \<and> set rtr \<subseteq> set ?rtr \<and> s2 = ?s1\<lparr>hz_live := (\<lambda>m. hz_live ?s1 m \<and> (m \<in> set ?rtr \<longrightarrow> m \<in> set rtr))\<rparr>"
      by (rule clean_deletes [OF _ _ c]) (use assms in \<open>auto simp: s1\<close>)
    moreover have "Retire t p s = s2\<lparr>retired := (retired s2)(t := rtr)\<rparr>"
    proof -
      have "retired ?s1 t = ?rtr" by (simp add: s1)
      then show ?thesis using True c unfolding Retire_def Let_def by simp
    qed
    ultimately show ?thesis using that [of rtr] by (simp add: s1)
  qed
qed


lemma set_unguard: "g \<in> set (unguard p m) \<Longrightarrow> snd g = None \<or> g \<in> set m \<and> snd g \<noteq> Some p"
  by (auto simp: unguard_def split: if_splits)

lemma hz_pop_retire:
  assumes inv: "hz_inv t l s" and pc: "hz_pc s t = HzRetire p"
  shows "hz_inv t l (HzPop_retire t p s)"
proof -
  note D = hz_invD [OF inv]
  have own: "hz_own (hz_pc s t) = [p]" using pc by (simp add: hz_own_def)
  have p: "p \<notin> set l" "\<And>u. p \<notin> set (retired s u)" using D(3) D(6) [of p] own by auto
  have live: "hz_live s p" using D(8) [of p] own by simp
  have rl: "hz_live s m" if "m \<in> set (retired s t)" for m using D(8) [of m] that by blast
  let ?s0 = "s\<lparr>hz_item := (hz_item s)(p := None)\<rparr>"
  obtain rtr where rtr: "distinct rtr" "set rtr \<subseteq> insert p (set (retired s t))"
    and R: "Retire t p ?s0 = ?s0\<lparr>guarded_local := (guarded_local ?s0)(t := unguard p (guarded_local ?s0 t)),
      guarded_global := unguard p (guarded_global ?s0),
      retired := (retired ?s0)(t := rtr), retired_pids := (if t \<in> set (retired_pids ?s0) then retired_pids ?s0 else retired_pids ?s0 @ [t]),
      hz_live := (\<lambda>m. hz_live ?s0 m \<and> (m \<in> insert p (set (retired ?s0 t)) \<longrightarrow> m \<in> set rtr))\<rparr>"
    using Retire_result [of ?s0 t p] D(5) [of t] p(2) [of t] rl live by auto
  define s' where "s' = HzPop_retire t p s"
  have s': "s' = hz_goto t HzIdle ((Retire t p ?s0)\<lparr>hz_ret := hz_ret s @ [(t, hz_item s p)]\<rparr>)"
    using hz_touch_live [OF D(1) live] by (simp add: s'_def HzPop_retire_def Let_def)
  note s' = s' [unfolded R hz_goto_def]
  have "hz_inv t l s'"
  proof (rule hz_invI)
    have "hz_list s' (hz_top s) l" by (rule hz_list_other [OF D(2)]) (simp add: s')
    then show "hz_list s' (hz_top s') l" by (simp add: s')
    show "hz_live s' m \<longleftrightarrow> m \<in> set (l @ hz_own (hz_pc s' t)) \<or> (\<exists>u. m \<in> set (retired s' u))" for m
    proof -
      have old: "hz_live s m \<longleftrightarrow> m \<in> set l \<or> m = p \<or> (\<exists>u. m \<in> set (retired s u))" using D(8) [of m] own by auto
      have new: "(\<exists>u. m \<in> set (retired s' u)) \<longleftrightarrow> m \<in> set rtr \<or> (\<exists>u. u \<noteq> t \<and> m \<in> set (retired s u))" by (auto simp: s' split: if_splits)
      have live': "hz_live s' m \<longleftrightarrow> hz_live s m \<and> (m = p \<or> m \<in> set (retired s t) \<longrightarrow> m \<in> set rtr)" by (simp add: s')
      have own': "hz_own (hz_pc s' t) = []" by (simp add: s' hz_own_def)
      show ?thesis
      proof (cases "m = p \<or> m \<in> set (retired s t)")
        case True
        then have "m \<notin> set l" "\<And>u. u \<noteq> t \<Longrightarrow> m \<notin> set (retired s u)" using p D(6) [of m t] D(7) [of m t] by auto
        then show ?thesis unfolding live' new own' using True old by auto
      next
        case False
        then have "m \<notin> set rtr" using rtr(2) by auto
        then show ?thesis unfolding live' new own' using False old by auto
      qed
    qed
    show "m \<notin> set (l @ hz_own (hz_pc s' t))" if "m \<in> set (retired s' u)" for m u
      using D(6) [of m u] that p(1) rtr(2) by (auto simp: s' hz_own_def split: if_splits)
    show "u = v" if "m \<in> set (retired s' u)" "m \<in> set (retired s' v)" for u v m
      using that D(7) [of m u v] p(2) rtr(2) by (auto simp: s' split: if_splits dest: D(7))
    show "hz_item s' m \<noteq> None" if "m \<in> set (l @ hz_own (hz_pc s' t))" for m
      using D(11) [of m] that p(1) by (auto simp: s' hz_own_def)
    show "slot_ok (hz_top s') (hz_pc s' u) (snd g)" if "g \<in> set (guarded_local s' u)" for u g
    proof -
      have "snd g = None"
      proof (cases "u = t")
        case True
        then have "snd g = None \<or> g \<in> set (guarded_local s t) \<and> snd g \<noteq> Some p" using that set_unguard [of g p] by (simp add: s')
        then show ?thesis using D(12) [of g t] pc by (auto simp: slot_ok_def split: option.splits)
      next
        case False
        then show ?thesis using that slots_idle [OF inv D(4) [OF False]] by (simp add: s')
      qed
      then show ?thesis by simp
    qed
    have "map (\<lambda>m. the (hz_item s' m)) l = map (\<lambda>m. the (hz_item s m)) l" using p(1) by (auto simp: s')
    then show "lf_spec [] (hz_log s') = Some (map (\<lambda>m. the (hz_item s' m)) l)" using D(14) by (simp add: s')
    show "pops u (hz_log s') = rets u (hz_ret s') @ hz_pending s' (hz_pc s' u)" for u
      using D(15) [of u] D(4) [of u] pc by (cases "u = t") (simp_all add: s' hz_pending_def)
    show "distinct (retired s' u)" for u using D(5) [of u] rtr(1) by (simp add: s')
    show "u \<in> set (retired_pids s')" if "retired s' u \<noteq> []" for u using D(10) [of u] that by (auto simp: s' split: if_splits)
  qed (use D(1, 3, 4, 9) p own in \<open>auto simp: s' hz_own_def hz_pc_ok_def\<close>)
  then show ?thesis by (simp add: s'_def)
qed

lemma fold_delete:
  assumes "distinct q" and "\<And>m. m \<in> set q \<Longrightarrow> hz_live s m"
  shows "fold hz_delete q s = s\<lparr>hz_live := (\<lambda>m. hz_live s m \<and> m \<notin> set q)\<rparr>"
  using assms
proof (induction q arbitrary: s)
  case (Cons p q)
  have del: "hz_delete p s = s\<lparr>hz_live := (hz_live s)(p := False)\<rparr>"
    using Cons.prems(2) [of p] by (cases s) (simp add: hz_delete_def)
  have "fold hz_delete q (hz_delete p s) = (hz_delete p s)\<lparr>hz_live := (\<lambda>m. hz_live (hz_delete p s) m \<and> m \<notin> set q)\<rparr>"
    by (rule Cons.IH) (use Cons.prems in \<open>auto simp: del\<close>)
  moreover have "(\<lambda>m. hz_live (hz_delete p s) m \<and> m \<notin> set q) = (\<lambda>m. hz_live s m \<and> m \<notin> set (p # q))" by (auto simp: del fun_eq_iff)
  ultimately show ?case by (simp add: del)
qed simp

lemma delete_all:
  assumes "distinct ps" and "\<And>u. distinct (retired s u)" and "\<And>u m. m \<in> set (retired s u) \<Longrightarrow> hz_live s m"
    and "\<And>u v m. m \<in> set (retired s u) \<Longrightarrow> m \<in> set (retired s v) \<Longrightarrow> u = v"
  shows "fold DeleteForThread ps s = s\<lparr>retired := (\<lambda>u. if u \<in> set ps then [] else retired s u),
     hz_live := (\<lambda>m. hz_live s m \<and> (\<forall>u\<in>set ps. m \<notin> set (retired s u)))\<rparr>"
  using assms
proof (induction ps arbitrary: s)
  case (Cons t ps)
  let ?s1 = "DeleteForThread t s"
  have s1: "?s1 = s\<lparr>retired := (retired s)(t := []), hz_live := (\<lambda>m. hz_live s m \<and> m \<notin> set (retired s t))\<rparr>"
    using fold_delete [of "retired s t" s] Cons.prems(2, 3) by (simp add: DeleteForThread_def)
  have "fold DeleteForThread ps ?s1 = ?s1\<lparr>retired := (\<lambda>u. if u \<in> set ps then [] else retired ?s1 u),
     hz_live := (\<lambda>m. hz_live ?s1 m \<and> (\<forall>u\<in>set ps. m \<notin> set (retired ?s1 u)))\<rparr>"
  proof (rule Cons.IH)
    show "hz_live ?s1 m" if "m \<in> set (retired ?s1 u)" for u m
      using that Cons.prems(3) [of m u] Cons.prems(4) [of m u t] by (auto simp: s1 split: if_splits)
    show "u = v" if "m \<in> set (retired ?s1 u)" "m \<in> set (retired ?s1 v)" for u v m
      using that Cons.prems(4) [of m u v] by (auto simp: s1 split: if_splits)
  qed (use Cons.prems(1, 2) in \<open>auto simp: s1\<close>)
  moreover have "(\<lambda>u. if u \<in> set ps then [] else retired ?s1 u) = (\<lambda>u. if u \<in> set (t # ps) then [] else retired s u)" by (auto simp: s1)
  moreover have "(\<lambda>m. hz_live ?s1 m \<and> (\<forall>u\<in>set ps. m \<notin> set (retired ?s1 u))) = (\<lambda>m. hz_live s m \<and> (\<forall>u\<in>set (t # ps). m \<notin> set (retired s u)))"
    using Cons.prems(1) by (auto simp: s1 fun_eq_iff)
  ultimately show ?case by (simp add: s1)
qed simp

lemma clear_empty: "(\<And>g. g \<in> set gs \<Longrightarrow> snd g = None) \<Longrightarrow> fold (Clear_slot t) gs s = s"
  by (induction gs arbitrary: s) (simp_all add: Clear_slot_def)

lemma Collect_result:
  assumes inv: "hz_inv t l s" and pc: "hz_pc s t = HzIdle"
  shows "Manager_Collect t s = s\<lparr>retired := (\<lambda>_. []), mutators_ids := [], hz_live := (\<lambda>m. hz_live s m \<and> (\<forall>u. m \<notin> set (retired s u)))\<rparr>"
proof -
  note D = hz_invD [OF inv]
  let ?s1 = "s\<lparr>retired := (\<lambda>u. if u \<in> set (retired_pids s) then [] else retired s u),
     hz_live := (\<lambda>m. hz_live s m \<and> (\<forall>u\<in>set (retired_pids s). m \<notin> set (retired s u)))\<rparr>"
  have "DeleteForAllThreads s = ?s1" unfolding DeleteForAllThreads_def
    by (rule delete_all [OF D(9) D(5)]) (use D(7, 8) in blast)+
  moreover have "Mutator_Clear t ?s1 = ?s1" unfolding Mutator_Clear_def
    by (rule clear_empty) (use slots_idle [OF inv pc] in simp)
  then have "fold (\<lambda>_. Mutator_Clear t) ms ?s1 = ?s1" for ms :: "tid list" by (induction ms) simp_all
  moreover have "(\<lambda>u. if u \<in> set (retired_pids s) then [] else retired s u) = (\<lambda>_. [])" by (intro ext) (metis D(10))
  moreover have "(\<forall>u\<in>set (retired_pids s). m \<notin> set (retired s u)) = (\<forall>u. m \<notin> set (retired s u))" for m
    using D(10) by (metis empty_iff empty_set)
  ultimately show ?thesis by (simp add: Manager_Collect_def)
qed

lemma hz_collect:
  assumes inv: "hz_inv t l s" and pc: "hz_pc s t = HzIdle"
  shows "hz_inv t l (Manager_Collect t s)"
proof -
  note D = hz_invD [OF inv]
  have own: "hz_own (hz_pc s t) = []" using pc by (simp add: hz_own_def)
  define s' where "s' = Manager_Collect t s"
  note s' = s'_def [unfolded Collect_result [OF assms]]
  have pend: "hz_pending s' q = hz_pending s q" for q by (cases q) (simp_all add: hz_pending_def s')
  have "hz_inv t l s'"
  proof (rule hz_invI)
    show "hz_list s' (hz_top s') l" using hz_list_other [OF D(2), of s'] by (simp add: s')
    show "hz_live s' m \<longleftrightarrow> m \<in> set (l @ hz_own (hz_pc s' t)) \<or> (\<exists>u. m \<in> set (retired s' u))" for m
      using D(8) [of m] D(6) [of m] own by (auto simp: s')
    show "slot_ok (hz_top s') (hz_pc s' u) (snd g)" if "g \<in> set (guarded_local s' u)" for u g
      using D(12) [of g u] that by (simp add: s')
    show "hz_item s' m \<noteq> None" if "m \<in> set (l @ hz_own (hz_pc s' t))" for m using D(11) [of m] that by (simp add: s')
    show "pops u (hz_log s') = rets u (hz_ret s') @ hz_pending s' (hz_pc s' u)" for u unfolding pend using D(15) [of u] by (simp add: s')
  qed (use D(1, 3, 4, 9, 13, 14) in \<open>simp_all add: s'\<close>)
  then show ?thesis by (simp add: s'_def)
qed


definition hz_ok :: "nat \<Rightarrow> 'a hz_state \<Rightarrow> bool" where
  "hz_ok n s = (\<exists>t l. hz_inv t l s \<and> (hz_pc s t = HzIdle \<or> t < n))"

lemma hz_step_inv:
  assumes inv: "hz_inv t l s" and step: "hz_step n a s = Some s'" and "hz_actor a = t"
  shows "\<exists>l'. hz_inv t l' s'"
proof (cases a)
  case (HzPush u x p)
  then show ?thesis using assms hz_push_new [OF inv] by (auto split: if_splits)
next
  case (HzPop u)
  then show ?thesis using assms hz_pop_start [OF inv] by (auto split: if_splits)
next
  case (HzCollect u)
  then show ?thesis using assms hz_collect [OF inv] by (auto split: if_splits)
next
  case (HzGo u spurious)
  then have go: "hz_go t spurious s = Some s'" using assms(2, 3) by (auto split: if_splits)
  show ?thesis
  proof (cases "hz_pc s t")
    case (HuLoad p)
    then show ?thesis using go hz_push_link [OF inv, of p "hz_top s"] by (auto simp: HzPush_load_def)
  next
    case (HuCas p)
    then show ?thesis using go hz_push_cas [OF inv] by auto
  next
    case (HzCas p)
    then show ?thesis using go hz_pop_cas [OF inv] by auto
  qed (use go hz_protect_load [OF inv] hz_protect_guard [OF inv] hz_protect_reload [OF inv] hz_pop_retire [OF inv] in auto)
qed

lemma hz_inv_start: "hz_inv t [] hz_start"
  by (rule hz_invI) (simp_all add: hz_start_def hz_own_def hz_pc_ok_def hz_pending_def)

interpretation hz: inv_system hz_start "hz_serial n" "hz_ok n" for n
proof (rule inv_system.intro)
  have "hz_pc hz_start (0 :: tid) = HzIdle" by (simp add: hz_start_def)
  then show "hz_ok n (hz_start :: 'a hz_state)" unfolding hz_ok_def using hz_inv_start by blast
  show "hz_ok n s'" if ok: "hz_ok n s" and step: "hz_serial n a s = Some s'" for a and s s' :: "'a hz_state"
  proof -
    obtain t l where inv: "hz_inv t l s" and t: "hz_pc s t = HzIdle \<or> t < n" using ok unfolding hz_ok_def by blast
    have ser: "hz_step n a s = Some s'" and others: "\<And>u. u < n \<Longrightarrow> u = hz_actor a \<or> hz_pc s u = HzIdle"
      using step by (auto simp: hz_serial_def list_all_iff split: if_splits)
    have "t = hz_actor a \<or> hz_pc s t = HzIdle" using others [of t] t by blast
    then have inv': "hz_inv (hz_actor a) l s" using inv hz_inv_idle by blast
    have "hz_actor a < n" using ser by (cases a) (auto split: if_splits)
    then show ?thesis unfolding hz_ok_def using hz_step_inv [OF inv' ser refl] by blast
  qed
qed

lemma HzStack_destroy_list:
  assumes "hz_list s q l" and "distinct l" and "\<And>m. m \<in> set l \<Longrightarrow> hz_live s m"
  shows "\<exists>s'. HzStack_destroy (length l) q s = Some s' \<and> hz_bad s' = hz_bad s \<and> (\<forall>m. hz_live s' m = (hz_live s m \<and> m \<notin> set l))"
  using assms
proof (induction l arbitrary: q s)
  case (Cons m l)
  let ?s = "hz_delete m (hz_touch m s)"
  have q: "q = Some m" and rest: "hz_list s (hz_next s m) l" using Cons.prems(1) by auto
  have "hz_list ?s (hz_next s m) l" by (rule hz_list_other [OF rest]) (simp add: hz_delete_def hz_touch_def)
  moreover have "hz_live ?s i" if "i \<in> set l" for i using Cons.prems(2, 3) that by (auto simp: hz_delete_def hz_touch_def)
  ultimately obtain s' where "HzStack_destroy (length l) (hz_next s m) ?s = Some s'" and "hz_bad s' = hz_bad ?s"
    and "\<forall>i. hz_live s' i = (hz_live ?s i \<and> i \<notin> set l)" using Cons.IH [of ?s "hz_next s m"] Cons.prems(2) by auto
  then show ?case using Cons.prems by (auto simp: q hz_delete_def hz_touch_def)
qed simp

text \<open>C15: For any calls of Push, TryPop and Collect, by any threads, in any order, none of which starts before another has returned,
  spurious failures included: no deleted node is accessed or deleted again, the operations are the history of a stack, and what a
  thread's calls of TryPop returned is what that history says. Between two calls, Collect deletes every node but those of the list, and
  the destructor then deletes these.\<close>

theorem hazard_stack_serial:
  "let s = run (hz_serial n) sched hz_start in \<not> hz_bad s \<and>
     (\<exists>xs. lf_spec [] (hz_log s) = Some xs \<and>
       ((\<forall>t. hz_pc s t = HzIdle) \<longrightarrow> (\<forall>t. rets t (hz_ret s) = pops t (hz_log s)) \<and>
         (\<forall>t. \<exists>s'. HzStack_destroy (length xs) (hz_top s) (Manager_Collect t s) = Some s' \<and> \<not> hz_bad s' \<and> (\<forall>m. \<not> hz_live s' m))))"
proof -
  define s where "s = run (hz_serial n) sched hz_start"
  have ok: "hz_ok n s" using hz.inv_run [of n sched] by (simp add: s_def)
  obtain t0 l0 where inv0: "hz_inv t0 l0 s" using ok unfolding hz_ok_def by blast
  define xs where "xs = map (\<lambda>m. the (hz_item s m)) l0"
  have rest: "rets t (hz_ret s) = pops t (hz_log s) \<and>
      (\<exists>s'. HzStack_destroy (length xs) (hz_top s) (Manager_Collect t s) = Some s' \<and> \<not> hz_bad s' \<and> (\<forall>m. \<not> hz_live s' m))"
    if idle: "\<forall>t. hz_pc s t = HzIdle" for t
  proof -
    have inv: "hz_inv t l0 s" using hz_inv_idle [OF inv0] idle by blast
    let ?c = "Manager_Collect t s"
    have c: "hz_inv t l0 ?c" using hz_collect [OF inv] idle by blast
    note D = hz_invD [OF c]
    have pc: "hz_pc ?c t = HzIdle" and top: "hz_top ?c = hz_top s" and ret: "\<And>u. retired ?c u = []"
      using Collect_result [OF inv] idle by simp_all
    have live: "hz_live ?c m \<longleftrightarrow> m \<in> set l0" for m using D(8) [of m] pc ret by (simp add: hz_own_def)
    have "\<exists>s'. HzStack_destroy (length l0) (hz_top s) ?c = Some s' \<and> hz_bad s' = hz_bad ?c \<and> (\<forall>m. hz_live s' m = (hz_live ?c m \<and> m \<notin> set l0))"
      by (rule HzStack_destroy_list) (use D(2, 3) top live in auto)
    then show ?thesis using D(1) live hz_invD(15) [OF inv, of t] idle by (auto simp: xs_def hz_pending_def)
  qed
  show ?thesis unfolding s_def [symmetric] Let_def using hz_invD(1, 14) [OF inv0] rest unfolding xs_def by blast
qed

text \<open>Calls that overlap are not safe. Both threads guard the node of the top in the one global slot 0; thread 1 pops the node, and
  its Retire takes the guard of thread 0 out of the slot as well. Ten more pushes and pops later the cleaning deletes the node, and
  thread 0 reads its next field.\<close>

definition hz_race :: "nat hz_act list" where
  "hz_race = [HzPush 0 7 0, HzGo 0 False, HzGo 0 False, HzPop 0, HzGo 0 False, HzGo 0 False, HzGo 0 False] @
     concat (map (\<lambda>p. HzPop 1 # replicate 5 (HzGo 1 False) @ [HzPush 1 p p, HzGo 1 False, HzGo 1 False]) [1..<12]) @ [HzGo 0 False]"

theorem hazard_use_after_free: "hz_bad (run (hz_step 2) hz_race hz_start)"
  by code_simp

text \<open>A witness: thread 0 pushes 7, after a spurious failure; thread 1 pops it, after another.\<close>

lemma hazard_stack_serial_witness:
  "\<exists>s. s = run (hz_serial 2) [HzPush 0 (7::nat) 3, HzGo 0 False, HzGo 0 True, HzGo 0 False, HzPop 1, HzGo 1 False, HzGo 1 False, HzGo 1 False,
       HzGo 1 True, HzGo 1 False, HzGo 1 False, HzGo 1 False, HzGo 1 False, HzGo 1 False, HzCollect 0] hz_start \<and>
     \<not> hz_bad s \<and> hz_ret s = [(1, Some 7)] \<and> hz_log s = [(0, OpPush 7), (1, OpPop (Some 7))] \<and> \<not> hz_live s 3"
proof -
  define sched where "sched = [HzPush 0 (7::nat) 3, HzGo 0 False, HzGo 0 True, HzGo 0 False, HzPop 1, HzGo 1 False, HzGo 1 False, HzGo 1 False,
       HzGo 1 True, HzGo 1 False, HzGo 1 False, HzGo 1 False, HzGo 1 False, HzGo 1 False, HzCollect 0]"
  have "hz_ret (run (hz_serial 2) sched hz_start) = [(1, Some 7)]"
    and "hz_log (run (hz_serial 2) sched hz_start) = [(0, OpPush 7), (1, OpPop (Some 7))]" and "\<not> hz_live (run (hz_serial 2) sched hz_start) 3"
    unfolding sched_def by code_simp+
  moreover have "\<not> hz_bad (run (hz_serial 2) sched hz_start)" using hazard_stack_serial [of 2 sched, unfolded Let_def] by blast
  ultimately show ?thesis unfolding sched_def [symmetric] by blast
qed

end
