(* ===== verification/MSQueueGc.thy ===== *)
theory MSQueueGc
  imports MSQueue
begin

section \<open>The Michael-Scott queue that reclaims its nodes\<close>

text \<open>
  The destructor and Swap of \<open>tasks/executors/exe/support/msqueue.hpp\<close>, and the queue used by one call at a time, as under a
  lock: there its collection of garbage is safe, whatever the uninitialised \<open>curr_tail\<close> of Put holds.
\<close>

definition delete_node :: "node \<Rightarrow> 'a msq \<Rightarrow> 'a msq" where
  "delete_node x s = (touch x s)\<lparr>ms_freed := ms_freed s @ [x]\<rparr>"

text \<open>DeleteList; the fuel bounds the length of the list.\<close>

fun DeleteList_chain :: "nat \<Rightarrow> node option \<Rightarrow> 'a msq \<Rightarrow> 'a msq option" where
  "DeleteList_chain fuel None s = Some s"
| "DeleteList_chain 0 (Some x) s = None"
| "DeleteList_chain (Suc fuel) (Some x) s = (let s = touch x s in DeleteList_chain fuel (ms_next s x) (delete_node x s))"

definition DeleteList :: "nat \<Rightarrow> node option \<Rightarrow> 'a msq \<Rightarrow> 'a msq option" where
  "DeleteList fuel head s = map_option (\<lambda>s. (fold delete_node (ms_deleted s) s)\<lparr>ms_deleted := []\<rparr>) (DeleteList_chain fuel head s)"

definition MSQueue_destroy :: "nat \<Rightarrow> 'a msq \<Rightarrow> 'a msq option" where
  "MSQueue_destroy fuel s = DeleteList fuel (Some (ms_head s)) s"

text \<open>Swap of two queues with their nodes in one heap; the marked nodes stay where they are.\<close>

definition MSQueue_Swap :: "'a msq \<Rightarrow> 'a msq \<Rightarrow> 'a msq \<times> 'a msq" where
  "MSQueue_Swap this other =
     (this\<lparr>ms_head := ms_head other, ms_tail := ms_tail other, ms_size := ms_size other\<rparr>,
      other\<lparr>ms_head := ms_head this, ms_tail := ms_tail this, ms_size := ms_size this\<rparr>)"

text \<open>One call at a time.\<close>

definition ms_serial :: "nat \<Rightarrow> tid \<times> 'a ms_act \<Rightarrow> 'a msq \<Rightarrow> 'a msq option" where
  "ms_serial n a s = (if fst a < n \<and> list_all (\<lambda>u. u = fst a \<or> ms_pc s u = MsIdle) [0..<n] then ms_step True a s else None)"

subsection \<open>What is left when the garbage is forgotten\<close>

definition forget_pc :: "ms_pc \<Rightarrow> ms_pc" where
  "forget_pc p = (case p of TkGarbage ch \<Rightarrow> TkCount | _ \<Rightarrow> p)"

definition forget :: "'a msq \<Rightarrow> 'a msq" where
  "forget s = s\<lparr>ms_deleted := [], ms_freed := [], ms_uaf := False, ms_pc := (\<lambda>t. forget_pc (ms_pc s t))\<rparr>"

lemma forget_pc_simps [simp]: "forget_pc MsIdle = MsIdle" "forget_pc (PtLoadTail x) = PtLoadTail x"
  "forget_pc (PtCheckNext x ct) = PtCheckNext x ct" "forget_pc (PtHelp x ct) = PtHelp x ct" "forget_pc (PtLink x ct) = PtLink x ct"
  "forget_pc (PtTail x) = PtTail x" "forget_pc PtCount = PtCount" "forget_pc TkLoadHead = TkLoadHead" "forget_pc (TkCheck ch) = TkCheck ch"
  "forget_pc (TkCas ch) = TkCas ch" "forget_pc (TkRead ch k) = TkRead ch k" "forget_pc (TkGarbage ch) = TkCount" "forget_pc TkCount = TkCount"
  by (simp_all add: forget_pc_def)

lemma forget_sel [simp]: "ms_next (forget s) = ms_next s" "ms_value (forget s) = ms_value s" "ms_fresh (forget s) = ms_fresh s"
  "ms_head (forget s) = ms_head s" "ms_tail (forget s) = ms_tail s" "ms_size (forget s) = ms_size s" "ms_chain (forget s) = ms_chain s"
  "ms_pushed (forget s) = ms_pushed s" "ms_claimed (forget s) = ms_claimed s" "ms_returned (forget s) = ms_returned s"
  "ms_pc (forget s) t = forget_pc (ms_pc s t)" "ms_freed (forget s) = []"
  by (simp_all add: forget_def)

lemma forget_upd [simp]: "forget (s\<lparr>ms_next := a\<rparr>) = (forget s)\<lparr>ms_next := a\<rparr>" "forget (s\<lparr>ms_value := b\<rparr>) = (forget s)\<lparr>ms_value := b\<rparr>"
  "forget (s\<lparr>ms_fresh := c\<rparr>) = (forget s)\<lparr>ms_fresh := c\<rparr>" "forget (s\<lparr>ms_head := d\<rparr>) = (forget s)\<lparr>ms_head := d\<rparr>"
  "forget (s\<lparr>ms_tail := d\<rparr>) = (forget s)\<lparr>ms_tail := d\<rparr>" "forget (s\<lparr>ms_size := e\<rparr>) = (forget s)\<lparr>ms_size := e\<rparr>"
  "forget (s\<lparr>ms_chain := f\<rparr>) = (forget s)\<lparr>ms_chain := f\<rparr>" "forget (s\<lparr>ms_pushed := g\<rparr>) = (forget s)\<lparr>ms_pushed := g\<rparr>"
  "forget (s\<lparr>ms_claimed := h\<rparr>) = (forget s)\<lparr>ms_claimed := h\<rparr>" "forget (s\<lparr>ms_returned := i\<rparr>) = (forget s)\<lparr>ms_returned := i\<rparr>"
  "forget (s\<lparr>ms_deleted := f\<rparr>) = forget s" "forget (s\<lparr>ms_freed := f\<rparr>) = forget s" "forget (s\<lparr>ms_uaf := j\<rparr>) = forget s"
  by (simp_all add: forget_def)

lemma forget_ops [simp]: "forget (ms_go t p s) = ms_go t (forget_pc p) (forget s)" "forget (touch x s) = forget s" "touch x (forget s) = forget s"
  "forget (CollectGarbage s) = forget s"
proof -
  have "(\<lambda>u. forget_pc (((ms_pc s)(t := p)) u)) = (\<lambda>u. forget_pc (ms_pc s u))(t := forget_pc p)" by auto
  then show "forget (ms_go t p s) = ms_go t (forget_pc p) (forget s)" by (simp add: ms_go_def forget_def)
  show "touch x (forget s) = forget s" by (simp add: touch_def forget_def)
qed (simp_all add: touch_def CollectGarbage_def Let_def)

lemma touch_sel [simp]: "ms_next (touch x s) = ms_next s" "ms_value (touch x s) = ms_value s" "ms_head (touch x s) = ms_head s"
  "ms_tail (touch x s) = ms_tail s" "ms_chain (touch x s) = ms_chain s" "ms_pushed (touch x s) = ms_pushed s"
  "ms_claimed (touch x s) = ms_claimed s" "ms_returned (touch x s) = ms_returned s"
  by (simp_all add: touch_def)

lemma ms_go_same: "ms_pc s t = p \<Longrightarrow> ms_go t p s = s"
  by (auto simp: ms_go_def fun_upd_idem)

lemma forget_step:
  assumes "ms_inv (forget s)" and "ms_step True (t, a) s = Some s'"
  shows "ms_inv (forget s')"
proof (cases "\<exists>ch. ms_pc s t = TkGarbage ch")
  case True
  then have "forget s' = ms_go t TkCount (forget s)" and "ms_pc (forget s) t = TkCount" using assms(2)
    by (cases a; auto simp: Take_garbage_def)+
  then have "forget s' = forget s" by (metis ms_go_same)
  then show ?thesis using assms(1) by simp
next
  case False
  have "ms_step False (t, a) (forget s) = Some (forget s')"
    using assms(2) False by (cases a; cases "ms_pc s t") (auto simp: Put_new_def Put_load_tail_def Put_check_next_def Put_help_def Put_link_def
      Put_tail_def Put_count_def Take_load_head_def Take_check_def Take_cas_def Take_read_def Take_count_def Let_def split: if_splits option.splits)
  then show ?thesis using assms(1) ms_inv_step by blast
qed


subsection \<open>The invariant of one call at a time\<close>

fun gc_pc_ok :: "'a msq \<Rightarrow> ms_pc \<Rightarrow> bool" where
  "gc_pc_ok s (PtCheckNext x ct) = (ct = ms_tail s)"
| "gc_pc_ok s (PtHelp x ct) = (ct = ms_tail s)"
| "gc_pc_ok s (PtLink x ct) = (ct = ms_tail s)"
| "gc_pc_ok s (PtTail x) = (x = ms_chain s ! length (ms_pushed s))"
| "gc_pc_ok s (TkCheck ch) = (ch = ms_head s)"
| "gc_pc_ok s (TkCas ch) = (ch = ms_head s)"
| "gc_pc_ok s (TkRead ch k) = (Suc k = ms_claimed s)"
| "gc_pc_ok s _ = True"

text \<open>The node that was unlinked and is not yet marked.\<close>

fun unmarked :: "ms_pc \<Rightarrow> node list" where
  "unmarked (TkRead ch k) = [ch]"
| "unmarked (TkGarbage ch) = [ch]"
| "unmarked _ = []"

text \<open>The position it had.\<close>

fun taken :: "ms_pc \<Rightarrow> nat list" where
  "taken (TkRead ch k) = [k]"
| "taken _ = []"

text \<open>Thread \<open>t\<close> is the only one that may be in a call. The nodes before the head are freed, marked or about to be, in the order of the
  list; the tail is not more than one node behind the end, and not among the freed ones.\<close>

definition gc_inv :: "tid \<Rightarrow> 'a msq \<Rightarrow> bool" where
  "gc_inv t s \<longleftrightarrow> ms_inv (forget s) \<and> \<not> ms_uaf s \<and> (\<forall>u. u \<noteq> t \<longrightarrow> ms_pc s u = MsIdle) \<and>
     ms_freed s @ ms_deleted s @ unmarked (ms_pc s t) = List.take (ms_claimed s) (ms_chain s) \<and>
     (ms_freed s = [] \<or> length (ms_freed s) < ms_claimed s) \<and>
     (\<exists>j<length (ms_chain s). ms_tail s = ms_chain s ! j \<and> length (ms_pushed s) \<le> Suc j) \<and> gc_pc_ok s (ms_pc s t) \<and>
     set (ms_chain s) \<union> set_option (new_node_of (ms_pc s t)) = {..<ms_fresh s} \<and>
     map fst (ms_returned s) @ taken (ms_pc s t) = [0..<ms_claimed s]"

lemma gc_invI:
  assumes "ms_inv (forget s)" and "\<not> ms_uaf s" and "\<And>u. u \<noteq> t \<Longrightarrow> ms_pc s u = MsIdle"
    and "ms_freed s @ ms_deleted s @ unmarked (ms_pc s t) = List.take (ms_claimed s) (ms_chain s)"
    and "ms_freed s = [] \<or> length (ms_freed s) < ms_claimed s"
    and "\<exists>j<length (ms_chain s). ms_tail s = ms_chain s ! j \<and> length (ms_pushed s) \<le> Suc j" and "gc_pc_ok s (ms_pc s t)"
    and "set (ms_chain s) \<union> set_option (new_node_of (ms_pc s t)) = {..<ms_fresh s}" and "map fst (ms_returned s) @ taken (ms_pc s t) = [0..<ms_claimed s]"
  shows "gc_inv t s"
  using assms unfolding gc_inv_def by blast

lemma gc_invD:
  assumes "gc_inv t s"
  shows "ms_inv (forget s)" and "\<not> ms_uaf s" and "\<And>u. u \<noteq> t \<Longrightarrow> ms_pc s u = MsIdle"
    and "ms_freed s @ ms_deleted s @ unmarked (ms_pc s t) = List.take (ms_claimed s) (ms_chain s)"
    and "ms_freed s = [] \<or> length (ms_freed s) < ms_claimed s"
    and "\<exists>j<length (ms_chain s). ms_tail s = ms_chain s ! j \<and> length (ms_pushed s) \<le> Suc j" and "gc_pc_ok s (ms_pc s t)"
    and "set (ms_chain s) \<union> set_option (new_node_of (ms_pc s t)) = {..<ms_fresh s}" and "map fst (ms_returned s) @ taken (ms_pc s t) = [0..<ms_claimed s]"
  using assms unfolding gc_inv_def by blast+

lemma chain_ok_forget [simp]: "chain_ok (forget s) = chain_ok s" and items_ok_forget [simp]: "items_ok (forget s) = items_ok s"
  by (simp_all add: chain_ok_def items_ok_def)

lemma gc_chain:
  assumes "gc_inv t s"
  shows "chain_ok s" and "ms_claimed s \<le> length (ms_pushed s)" and "length (ms_chain s) = Suc (length (ms_pushed s))"
    and "distinct (ms_chain s)" and "ms_head s = ms_chain s ! ms_claimed s"
proof -
  note I = ms_invD [OF gc_invD(1) [OF assms]]
  show c: "chain_ok s" using I(1) by simp
  show "ms_claimed s \<le> length (ms_pushed s)" "ms_head s = ms_chain s ! ms_claimed s" using I(3, 4) by simp_all
  show "length (ms_chain s) = Suc (length (ms_pushed s))" "distinct (ms_chain s)" using chain_okD [OF c] by blast+
qed

text \<open>The node at or after the last claimed position is not freed.\<close>

lemma gc_alive:
  assumes inv: "gc_inv t s" and "i < length (ms_chain s)" and "ms_claimed s \<le> Suc i"
  shows "ms_chain s ! i \<notin> set (ms_freed s)"
proof
  note D = gc_invD [OF inv] and C = gc_chain [OF inv]
  assume "ms_chain s ! i \<in> set (ms_freed s)"
  then obtain j where j: "j < length (ms_freed s)" "ms_freed s ! j = ms_chain s ! i" by (metis in_set_conv_nth)
  have "length (ms_freed s) < ms_claimed s" using j D(5) by auto
  moreover have "ms_freed s ! j = (List.take (ms_claimed s) (ms_chain s)) ! j" using j(1) by (simp add: D(4) [symmetric] nth_append)
  ultimately have "ms_chain s ! j = ms_chain s ! i" "j < i" using j assms(3) by auto
  then show False using C(4) assms(2) by (simp add: nth_eq_iff_index_eq)
qed

lemma touch_alive: "\<not> ms_uaf s \<Longrightarrow> x \<notin> set (ms_freed s) \<Longrightarrow> touch x s = s"
  by (simp add: touch_def)

lemma gc_touch_head: "gc_inv t s \<Longrightarrow> touch (ms_head s) s = s"
  using gc_alive [of t s "ms_claimed s"] gc_chain [of t s] gc_invD(2) [of t s] by (auto intro!: touch_alive)

lemma gc_touch_tail: "gc_inv t s \<Longrightarrow> touch (ms_tail s) s = s"
proof -
  assume inv: "gc_inv t s"
  obtain j where "j < length (ms_chain s)" "ms_tail s = ms_chain s ! j" "length (ms_pushed s) \<le> Suc j" using gc_invD(6) [OF inv] by blast
  then show ?thesis using gc_alive [OF inv, of j] gc_chain(2) [OF inv] gc_invD(2) [OF inv] by (auto intro!: touch_alive)
qed

text \<open>A step that moves neither the head nor the chain.\<close>

lemma gc_move:
  assumes inv: "gc_inv t s" and step: "ms_step True (t, a) s = Some s'"
    and s': "s' = s\<lparr>ms_pc := (ms_pc s)(t := p), ms_tail := e, ms_size := z\<rparr>"
    and "unmarked p = unmarked (ms_pc s t)" and "taken p = taken (ms_pc s t)" and "new_node_of p = new_node_of (ms_pc s t)" and "gc_pc_ok s' p"
    and "\<exists>j<length (ms_chain s). e = ms_chain s ! j \<and> length (ms_pushed s) \<le> Suc j"
  shows "gc_inv t s'"
proof -
  note D = gc_invD [OF inv]
  show ?thesis
    by (rule gc_invI) (use forget_step [OF D(1) step] D assms(4-8) in \<open>simp_all add: s'\<close>)
qed


lemmas gc_moves = ms_go_def touch_def

lemma gc_new:
  assumes inv: "gc_inv t s" and pc: "ms_pc s t = MsIdle"
  shows "gc_inv t (Put_new t x s)"
proof -
  note D = gc_invD [OF inv]
  have "ms_step True (t, MsPut x) s = Some (Put_new t x s)" using pc by simp
  note f = forget_step [OF D(1) this]
  have "set (ms_chain s) = {..<ms_fresh s}" using D(8) pc by simp
  then show ?thesis
    by (intro gc_invI f) (use D(2-6, 9) pc in \<open>auto simp: Put_new_def ms_go_def\<close>)
qed

lemma gc_last:
  assumes inv: "gc_inv t s" and nxt: "ms_next s (ms_tail s) = None"
  shows "ms_tail s = ms_chain s ! length (ms_pushed s)"
proof -
  have "ms_tail s \<in> set (ms_chain s)" using ms_invD(5) [OF gc_invD(1) [OF inv]] by simp
  then show ?thesis using chain_index [OF gc_chain(1) [OF inv]] nxt by (metis option.distinct(1))
qed

lemma gc_link:
  assumes inv: "gc_inv t s" and pc: "ms_pc s t = PtLink x ct" and "ms_next s ct = None"
  shows "gc_inv t (Put_link t x ct False s)"
proof -
  note D = gc_invD [OF inv] and C = gc_chain [OF inv]
  have ct: "ct = ms_tail s" using D(7) pc by simp
  obtain v where v: "ms_value s x = Some v" using ms_invD(6) [OF D(1), of t] pc by (auto simp: ms_owned_def)
  have "ms_step True (t, MsStep) s = Some (Put_link t x ct False s)" using pc by simp
  note f = forget_step [OF D(1) this]
  have s': "Put_link t x ct False s = s\<lparr>ms_pc := (ms_pc s)(t := PtTail x), ms_next := (ms_next s)(ct := Some x), ms_chain := ms_chain s @ [x],
      ms_pushed := ms_pushed s @ [v]\<rparr>"
    using gc_touch_tail [OF inv] ct assms(3) v by (simp add: Put_link_def ms_go_def)
  show ?thesis
  proof (rule gc_invI [OF f])
    show "\<exists>j<length (ms_chain (Put_link t x ct False s)). ms_tail (Put_link t x ct False s) = ms_chain (Put_link t x ct False s) ! j \<and>
        length (ms_pushed (Put_link t x ct False s)) \<le> Suc j"
      unfolding s' by (rule exI [of _ "length (ms_pushed s)"]) (use gc_last [OF inv] assms(3) ct C(3) in \<open>simp add: nth_append\<close>)
  qed (use D(2-5, 8, 9) C(2, 3) pc in \<open>auto simp: s' nth_append\<close>)
qed

lemma gc_cas:
  assumes inv: "gc_inv t s" and pc: "ms_pc s t = TkCas ch"
  shows "gc_inv t (Take_cas t ch False s)"
proof -
  note D = gc_invD [OF inv] and C = gc_chain [OF inv]
  have ch: "ch = ms_head s" using D(7) pc by simp
  obtain nx where nx: "ms_next s ch = Some nx" using ms_invD(6) [OF D(1), of t] pc by auto
  have "ms_step True (t, MsStep) s = Some (Take_cas t ch False s)" using pc by simp
  note f = forget_step [OF D(1) this]
  have s': "Take_cas t ch False s = s\<lparr>ms_pc := (ms_pc s)(t := TkRead ch (ms_claimed s)), ms_head := nx, ms_claimed := Suc (ms_claimed s)\<rparr>"
    using gc_touch_head [OF inv] ch nx by (simp add: Take_cas_def ms_go_def)
  have "ms_claimed s < length (ms_chain s)" using C(2, 3) by simp
  then have "List.take (Suc (ms_claimed s)) (ms_chain s) = List.take (ms_claimed s) (ms_chain s) @ [ch]"
    using C(5) ch by (simp add: take_Suc_conv_app_nth)
  then show ?thesis
    by (intro gc_invI f) (use D(2-6, 8, 9) pc in \<open>auto simp: s'\<close>)
qed

lemma gc_read:
  assumes inv: "gc_inv t s" and pc: "ms_pc s t = TkRead ch k"
  shows "gc_inv t (Take_read True t ch k s)"
proof -
  note D = gc_invD [OF inv] and C = gc_chain [OF inv]
  have k: "Suc k = ms_claimed s" "ch = ms_chain s ! k" using D(7) ms_invD(6) [OF D(1), of t] pc by auto
  have nx: "ms_next s ch = Some (ms_head s)" using k C(2, 5) chain_okD(4) [OF C(1), of k] by simp
  have "ms_step True (t, MsStep) s = Some (Take_read True t ch k s)" using pc by simp
  note f = forget_step [OF D(1) this]
  have "touch ch s = s" using k C(2, 3) gc_alive [OF inv, of k] D(2) by (intro touch_alive) auto
  then have s': "Take_read True t ch k s = s\<lparr>ms_pc := (ms_pc s)(t := TkGarbage ch), ms_returned := ms_returned s @ [(k, ms_value s (ms_head s))],
      ms_value := (ms_value s)(ms_head s := None)\<rparr>"
    using gc_touch_head [OF inv] nx by (simp add: Take_read_def ms_go_def)
  show ?thesis by (intro gc_invI f) (use D(2-6, 8, 9) pc in \<open>auto simp: s'\<close>)
qed

lemma gc_garbage:
  assumes inv: "gc_inv t s" and pc: "ms_pc s t = TkGarbage ch"
  shows "gc_inv t (Take_garbage t ch s)"
proof -
  note D = gc_invD [OF inv] and C = gc_chain [OF inv]
  have "ms_step True (t, MsStep) s = Some (Take_garbage t ch s)" using pc by simp
  note f = forget_step [OF D(1) this]
  let ?d = "ms_deleted s @ [ch]"
  let ?k = "if length ?d < 10 then 0 else length ?d - length ?d div 2"
  have s': "Take_garbage t ch s = s\<lparr>ms_pc := (ms_pc s)(t := TkCount), ms_freed := ms_freed s @ List.take ?k ?d, ms_deleted := drop ?k ?d\<rparr>"
    unfolding Take_garbage_def CollectGarbage_def ms_go_def Let_def by simp
  have all: "ms_freed s @ ?d = List.take (ms_claimed s) (ms_chain s)" using D(4) pc by simp
  have len: "length (ms_freed s) + length ?d = ms_claimed s" using arg_cong [OF all, of length] C(2, 3) by simp
  have "(ms_freed s @ List.take ?k ?d) @ drop ?k ?d = List.take (ms_claimed s) (ms_chain s)"
    unfolding append_assoc append_take_drop_id by (rule all)
  moreover have "length (ms_freed s @ List.take ?k ?d) < ms_claimed s" using len by auto
  ultimately show ?thesis
    by (intro gc_invI f) (use D(2, 3, 6, 8, 9) pc in \<open>simp_all add: s' del: append_assoc take_append drop_append length_append\<close>)
qed


lemma gc_tail_at: "gc_inv t s \<Longrightarrow> \<exists>j<length (ms_chain s). ms_tail s = ms_chain s ! j \<and> length (ms_pushed s) \<le> Suc j"
  by (rule gc_invD(6))

lemma gc_put_step:
  assumes inv: "gc_inv t s" and step: "ms_step True (t, a) s = Some s'" and "new_node_of (ms_pc s t) \<noteq> None"
  shows "gc_inv t s'"
proof -
  note D = gc_invD [OF inv] and tch = gc_touch_tail [OF inv] and mv = gc_move [OF inv step] and C = gc_chain [OF inv]
  have base: "ms_pc_ok (forget s) (ms_pc (forget s) t)" by (rule ms_invD(6) [OF D(1)])
  show ?thesis
  proof (cases "ms_pc s t")
    case (PtLoadTail x)
    then have "s' = Put_load_tail t x s" using step by (cases a) auto
    then show ?thesis using PtLoadTail
      by (intro mv [where p = "PtCheckNext x (ms_tail s)" and e = "ms_tail s" and z = "ms_size s"] gc_tail_at [OF inv])
        (simp_all add: Put_load_tail_def ms_go_def)
  next
    case (PtCheckNext x ct)
    then have "s' = Put_check_next t x ct s" and ct: "ct = ms_tail s" using step D(7) by (cases a; auto)+
    then have s': "s' = ms_go t (if ms_next s ct \<noteq> None then PtHelp x ct else PtLink x ct) s" using tch by (simp add: Put_check_next_def)
    show ?thesis
      by (rule mv [where p = "if ms_next s ct \<noteq> None then PtHelp x ct else PtLink x ct" and e = "ms_tail s" and z = "ms_size s"])
        (use PtCheckNext ct gc_tail_at [OF inv] in \<open>simp_all add: s' ms_go_def\<close>)
  next
    case (PtHelp x ct)
    then obtain sp where "s' = Put_help t x ct sp s" using step by (cases a) auto
    moreover have ct: "ct = ms_tail s" using D(7) PtHelp by simp
    moreover obtain nx where nx: "ms_next s ct = Some nx" using base PtHelp by auto
    ultimately have s': "s' = (if sp then ms_go t (PtLink x ct) s else ms_go t (PtLoadTail x) (s\<lparr>ms_tail := nx\<rparr>))"
      using tch by (simp add: Put_help_def)
    have ctc: "ct \<in> set (ms_chain s)" using base PtHelp by simp
    obtain i where "i \<le> length (ms_pushed s)" "ct = ms_chain s ! i"
      "ms_next s ct = (if i = length (ms_pushed s) then None else Some (ms_chain s ! Suc i))" by (rule chain_index [OF C(1) ctc])
    then have i: "i < length (ms_pushed s)" "nx = ms_chain s ! Suc i" "ct = ms_chain s ! i" using nx by (auto split: if_splits)
    obtain j where j: "j < length (ms_chain s)" "ms_tail s = ms_chain s ! j" "length (ms_pushed s) \<le> Suc j" using D(6) by blast
    have "i = j" using i j ct C(3, 4) by (simp add: nth_eq_iff_index_eq)
    then have "\<exists>j<length (ms_chain s). nx = ms_chain s ! j \<and> length (ms_pushed s) \<le> Suc j" using i j C(3) by (intro exI [of _ "Suc i"]) auto
    then show ?thesis using PtHelp ct gc_tail_at [OF inv]
      by (intro mv [where p = "if sp then PtLink x ct else PtLoadTail x" and e = "if sp then ms_tail s else nx" and z = "ms_size s"])
        (simp_all add: s' ms_go_def)
  next
    case (PtLink x ct)
    then obtain sp where s': "s' = Put_link t x ct sp s" using step by (cases a) auto
    have ct: "ct = ms_tail s" using D(7) PtLink by simp
    show ?thesis
    proof (cases "ms_next s ct = None \<and> \<not> sp")
      case True
      then show ?thesis using gc_link [OF inv PtLink] s' by auto
    next
      case False
      then have "s' = ms_go t (PtLoadTail x) s" using s' tch ct by (auto simp: Put_link_def)
      then show ?thesis using PtLink
        by (intro mv [where p = "PtLoadTail x" and e = "ms_tail s" and z = "ms_size s"] gc_tail_at [OF inv]) (simp_all add: ms_go_def)
    qed
  qed (use assms(3) in simp_all)
qed

lemma gc_step:
  assumes inv: "gc_inv t s" and step: "ms_step True (t, a) s = Some s'"
  shows "gc_inv t s'"
proof -
  note D = gc_invD [OF inv] and tch = gc_touch_head [OF inv] and mv = gc_move [OF inv step] and C = gc_chain [OF inv]
  show ?thesis
  proof (cases "ms_pc s t")
    case MsIdle
    show ?thesis
    proof (cases a)
      case (MsPut x)
      then show ?thesis using gc_new [OF inv MsIdle] step MsIdle by auto
    next
      case MsTake
      then have "s' = ms_go t TkLoadHead s" using step MsIdle by simp
      then show ?thesis using MsIdle
        by (intro mv [where p = TkLoadHead and e = "ms_tail s" and z = "ms_size s"] gc_tail_at [OF inv]) (simp_all add: ms_go_def)
    qed (use step MsIdle in simp_all)
  next
    case (PtTail x)
    then obtain g where s': "s' = Put_tail t x g s" using step by (cases a) auto
    have x: "x = ms_chain s ! length (ms_pushed s)" using D(7) PtTail by simp
    then have "\<exists>j<length (ms_chain s). x = ms_chain s ! j \<and> length (ms_pushed s) \<le> Suc j" using C(3) by auto
    then show ?thesis using PtTail gc_tail_at [OF inv]
      by (intro mv [where p = PtCount and e = "if ms_tail s = g then x else ms_tail s" and z = "ms_size s"]) (simp_all add: s' Put_tail_def ms_go_def)
  next
    case PtCount
    then have "s' = Put_count t s" using step by (cases a) auto
    then show ?thesis using PtCount
      by (intro mv [where p = MsIdle and e = "ms_tail s" and z = "ms_size s + 1"] gc_tail_at [OF inv]) (simp_all add: Put_count_def ms_go_def)
  next
    case TkLoadHead
    then have "s' = Take_load_head t s" using step by (cases a) auto
    then show ?thesis using TkLoadHead
      by (intro mv [where p = "TkCheck (ms_head s)" and e = "ms_tail s" and z = "ms_size s"] gc_tail_at [OF inv])
        (simp_all add: Take_load_head_def ms_go_def)
  next
    case (TkCheck ch)
    then have "s' = Take_check t ch s" and ch: "ch = ms_head s" using step D(7) by (cases a; auto)+
    then have s': "s' = ms_go t (if ms_next s ch = None then MsIdle else TkCas ch) s" using tch by (simp add: Take_check_def)
    show ?thesis
      by (rule mv [where p = "if ms_next s ch = None then MsIdle else TkCas ch" and e = "ms_tail s" and z = "ms_size s"])
        (use TkCheck ch gc_tail_at [OF inv] in \<open>simp_all add: s' ms_go_def\<close>)
  next
    case (TkCas ch)
    then obtain sp where s': "s' = Take_cas t ch sp s" using step by (cases a) auto
    show ?thesis
    proof (cases sp)
      case True
      obtain nx where "ms_next s ch = Some nx" using ms_invD(6) [OF D(1), of t] TkCas by auto
      then have "s' = ms_go t TkLoadHead s" using s' True tch D(7) TkCas by (simp add: Take_cas_def)
      then show ?thesis using TkCas
        by (intro mv [where p = TkLoadHead and e = "ms_tail s" and z = "ms_size s"] gc_tail_at [OF inv]) (simp_all add: ms_go_def)
    qed (use gc_cas [OF inv TkCas] s' in simp)
  next
    case (TkRead ch k)
    then have "s' = Take_read True t ch k s" using step by (cases a) auto
    then show ?thesis using gc_read [OF inv TkRead] by simp
  next
    case (TkGarbage ch)
    then have "s' = Take_garbage t ch s" using step by (cases a) auto
    then show ?thesis using gc_garbage [OF inv TkGarbage] by simp
  next
    case TkCount
    then have "s' = Take_count t s" using step by (cases a) auto
    then show ?thesis using TkCount
      by (intro mv [where p = MsIdle and e = "ms_tail s" and z = "ms_size s - 1"] gc_tail_at [OF inv]) (simp_all add: Take_count_def ms_go_def)
  qed (rule gc_put_step [OF inv step], simp)+
qed

lemma gc_idle:
  assumes "gc_inv t s" and "ms_pc s t = MsIdle"
  shows "gc_inv u s"
proof -
  note D = gc_invD [OF assms(1)]
  have idle: "ms_pc s v = MsIdle" for v using D(3) [of v] assms(2) by (cases "v = t") auto
  show ?thesis by (rule gc_invI) (use D idle in simp_all)
qed

definition gc_ok :: "nat \<Rightarrow> 'a msq \<Rightarrow> bool" where
  "gc_ok n s \<longleftrightarrow> (\<exists>t. gc_inv t s \<and> (ms_pc s t = MsIdle \<or> t < n))"

interpretation gc: inv_system MSQueue_construct "ms_serial n" "gc_ok n" for n
proof (rule inv_system.intro)
  have "ms_inv (MSQueue_construct :: 'a msq)" using ms.inv_start by blast
  moreover have "forget MSQueue_construct = (MSQueue_construct :: 'a msq)" by (simp add: forget_def MSQueue_construct_def)
  ultimately have "gc_inv 0 (MSQueue_construct :: 'a msq)"
    by (intro gc_invI) (simp_all add: MSQueue_construct_def lessThan_Suc)
  then show "gc_ok n (MSQueue_construct :: 'a msq)" unfolding gc_ok_def by (metis (no_types, lifting) MSQueue_construct_def msq.select_convs(9))
  show "gc_ok n s'" if ok: "gc_ok n s" and step: "ms_serial n a s = Some s'" for a and s s' :: "'a msq"
  proof -
    obtain t where inv: "gc_inv t s" and t: "ms_pc s t = MsIdle \<or> t < n" using ok unfolding gc_ok_def by blast
    have n: "fst a < n" and ser: "ms_step True (fst a, snd a) s = Some s'" and others: "\<And>u. u < n \<Longrightarrow> u = fst a \<or> ms_pc s u = MsIdle"
      using step by (auto simp: ms_serial_def list_all_iff split: if_splits)
    have "t = fst a \<or> ms_pc s t = MsIdle" using others [of t] t by blast
    then have "gc_inv (fst a) s" using inv gc_idle by blast
    then show ?thesis unfolding gc_ok_def using gc_step [OF _ ser] n by blast
  qed
qed


subsection \<open>The destructor\<close>

fun ms_linked :: "'a msq \<Rightarrow> node option \<Rightarrow> node list \<Rightarrow> bool" where
  "ms_linked s q [] = (q = None)"
| "ms_linked s q (x # l) = (q = Some x \<and> ms_linked s (ms_next s x) l)"

lemma ms_linked_frame: "ms_next s' = ms_next s \<Longrightarrow> ms_linked s' q l = ms_linked s q l"
  by (induction l arbitrary: q) simp_all

lemma chain_linked:
  assumes "chain_ok s" and "i \<le> length (ms_pushed s)"
  shows "ms_linked s (Some (ms_chain s ! i)) (drop i (ms_chain s))"
  using assms(2)
proof (induction rule: inc_induct)
  case base
  then show ?case using chain_okD(1, 5) [OF assms(1)] by (simp add: Cons_nth_drop_Suc [symmetric])
next
  case (step k)
  then show ?case using chain_okD(1, 4) [OF assms(1)] by (simp add: Cons_nth_drop_Suc [symmetric, of k])
qed

lemma delete_fresh: "\<not> ms_uaf s \<Longrightarrow> x \<notin> set (ms_freed s) \<Longrightarrow> delete_node x s = s\<lparr>ms_freed := ms_freed s @ [x]\<rparr>"
  by (simp add: delete_node_def touch_alive)

lemma fold_delete_node:
  assumes "\<not> ms_uaf s" and "distinct (ms_freed s @ l)"
  shows "fold delete_node l s = s\<lparr>ms_freed := ms_freed s @ l\<rparr>"
  using assms by (induction l arbitrary: s) (simp_all add: delete_fresh)

lemma DeleteList_chain_all:
  assumes "ms_linked s q l" and "\<not> ms_uaf s" and "distinct (ms_freed s @ l)" and "length l \<le> fuel"
  shows "DeleteList_chain fuel q s = Some (s\<lparr>ms_freed := ms_freed s @ l\<rparr>)"
  using assms
proof (induction l arbitrary: q s fuel)
  case (Cons x l)
  let ?s = "s\<lparr>ms_freed := ms_freed s @ [x]\<rparr>"
  obtain f where f: "fuel = Suc f" "length l \<le> f" using Cons.prems(4) by (cases fuel) auto
  have "ms_linked ?s (ms_next s x) l" using Cons.prems(1) ms_linked_frame [of ?s s] by simp
  then have "DeleteList_chain f (ms_next s x) ?s = Some (?s\<lparr>ms_freed := ms_freed ?s @ l\<rparr>)"
    using Cons.prems(2, 3) f by (intro Cons.IH) simp_all
  then show ?case using Cons.prems f by (simp add: delete_fresh touch_alive)
qed simp

lemma gc_destroy:
  assumes inv: "gc_inv t s" and pc: "ms_pc s t = MsIdle"
  shows "\<exists>s'. MSQueue_destroy (ms_fresh s) s = Some s' \<and> \<not> ms_uaf s' \<and> distinct (ms_freed s') \<and> set (ms_freed s') = {..<ms_fresh s}"
proof -
  note D = gc_invD [OF inv] and C = gc_chain [OF inv]
  let ?l = "drop (ms_claimed s) (ms_chain s)"
  have "ms_freed s @ ms_deleted s = List.take (ms_claimed s) (ms_chain s)" using D(4) pc by simp
  then have ch: "ms_chain s = ms_freed s @ ms_deleted s @ ?l" by (metis append.assoc append_take_drop_id)
  have d: "distinct (ms_freed s @ ms_deleted s @ ?l)" using C(4) ch by metis
  have nodes: "set (ms_chain s) = {..<ms_fresh s}" using D(8) pc by simp
  have st: "set (ms_freed s @ ms_deleted s @ ?l) = {..<ms_fresh s}" using nodes ch by metis
  have "length (ms_chain s) = ms_fresh s" using distinct_card [OF C(4)] nodes by simp
  then have len: "length ?l \<le> ms_fresh s" by simp
  have linked: "ms_linked s (Some (ms_head s)) ?l" using chain_linked [OF C(1) C(2)] C(5) by simp
  have "DeleteList_chain (ms_fresh s) (Some (ms_head s)) s = Some (s\<lparr>ms_freed := ms_freed s @ ?l\<rparr>)"
    by (rule DeleteList_chain_all [OF linked D(2) _ len]) (use d in auto)
  moreover have "fold delete_node (ms_deleted s) (s\<lparr>ms_freed := ms_freed s @ ?l\<rparr>) = s\<lparr>ms_freed := ms_freed s @ ?l @ ms_deleted s\<rparr>"
    using fold_delete_node [of "s\<lparr>ms_freed := ms_freed s @ ?l\<rparr>" "ms_deleted s"] D(2) d by auto
  moreover have "distinct (ms_freed s @ ?l @ ms_deleted s)" using d by auto
  moreover have "set (ms_freed s @ ?l @ ms_deleted s) = {..<ms_fresh s}" using st by auto
  ultimately show ?thesis using D(2) by (simp add: MSQueue_destroy_def DeleteList_def)
qed

text \<open>C16: The queue that reclaims its nodes, used by one call at a time, by any threads in any order, with any garbage in the
  uninitialised \<open>curr_tail\<close> and with spurious failures: no freed node is accessed, what the Takes returned are the first items that were
  put, in order, and between two calls the destructor frees every node that was ever allocated exactly once.\<close>

theorem msqueue_reclaims_serial:
  "let s = run (ms_serial n) sched MSQueue_construct in \<not> ms_uaf s \<and>
     ((\<forall>t. ms_pc s t = MsIdle) \<longrightarrow> map snd (ms_returned s) = map Some (List.take (length (ms_returned s)) (ms_pushed s)) \<and>
       (\<exists>s'. MSQueue_destroy (ms_fresh s) s = Some s' \<and> \<not> ms_uaf s' \<and> distinct (ms_freed s') \<and> set (ms_freed s') = {..<ms_fresh s}))"
proof -
  define s where "s = run (ms_serial n) sched MSQueue_construct"
  obtain t where inv: "gc_inv t s" using gc.inv_run [of n sched] unfolding s_def gc_ok_def by blast
  note D = gc_invD [OF inv] and C = gc_chain [OF inv]
  have "map snd (ms_returned s) = map Some (List.take (length (ms_returned s)) (ms_pushed s))" if "ms_pc s t = MsIdle"
  proof -
    have keys: "map fst (ms_returned s) = [0..<ms_claimed s]" using D(9) that by simp
    have len: "length (ms_returned s) = ms_claimed s" using arg_cong [OF keys, of length] by simp
    have "items_ok s" using ms_invD(2) [OF D(1)] by simp
    then have val: "snd (ms_returned s ! i) = Some (ms_pushed s ! i)" if "i < ms_claimed s" for i
      using that len arg_cong [OF keys, of "\<lambda>l. l ! i"] unfolding items_ok_def by (metis add_0 length_map nth_map nth_mem nth_upt prod.collapse)
    show ?thesis by (rule nth_equalityI) (use val len C(2) in simp_all)
  qed
  then show ?thesis unfolding s_def [symmetric] Let_def using D(2) gc_destroy [OF inv] by blast
qed

text \<open>A witness: thread 0 puts 7, with garbage that leaves the tail behind, and thread 1 takes it.\<close>

lemma msqueue_reclaims_serial_witness:
  "\<exists>s. s = run (ms_serial 2) ((0, MsPut (7::nat)) # replicate 3 (0, MsStep) @ [(0, MsGarbage 99), (0, MsStep), (1, MsTake)] @ replicate 6 (1, MsStep))
       MSQueue_construct \<and> \<not> ms_uaf s \<and> ms_returned s = [(0, Some 7)] \<and> ms_deleted s = [0] \<and> ms_tail s = 0 \<and> ms_head s = 1"
proof -
  define sched where "sched = (0::tid, MsPut (7::nat)) # replicate 3 (0, MsStep) @ [(0, MsGarbage 99), (0, MsStep), (1, MsTake)] @ replicate 6 (1, MsStep)"
  have "ms_returned (run (ms_serial 2) sched MSQueue_construct) = [(0, Some 7)]" "ms_deleted (run (ms_serial 2) sched MSQueue_construct) = [0]"
    "ms_tail (run (ms_serial 2) sched MSQueue_construct) = 0" "ms_head (run (ms_serial 2) sched MSQueue_construct) = 1"
    unfolding sched_def by code_simp+
  moreover have "\<not> ms_uaf (run (ms_serial 2) sched MSQueue_construct)" using msqueue_reclaims_serial [of 2 sched, unfolded Let_def] by blast
  ultimately show ?thesis unfolding sched_def [symmetric] by blast
qed

text \<open>After Swap each list is the one of the other queue.\<close>

lemma Swap_lists:
  assumes "ms_next a = ms_next b" and "MSQueue_Swap a b = (a', b')"
  shows "ms_linked a' (Some (ms_head a')) l = ms_linked b (Some (ms_head b)) l"
    and "ms_linked b' (Some (ms_head b')) l = ms_linked a (Some (ms_head a)) l"
    and "MSQueue_Count a' = MSQueue_Count b" and "MSQueue_Count b' = MSQueue_Count a"
  using assms ms_linked_frame [of a' b] ms_linked_frame [of b' a] by (auto simp: MSQueue_Swap_def MSQueue_Count_def)

end
