(* ===== verification/SpStack.thy ===== *)
theory SpStack
  imports LfStack
begin

section \<open>The stack on AtomicSharedPtr\<close>

text \<open>
  \<open>lockfree/shared_ptr/lock_free_stack.hpp\<close>: Treiber's stack with SharedPtr links and an AtomicSharedPtr as its top. Load and
  the exchange of CompareExchangeWeak are single steps here, each with the count of the reference it creates; that the split counts of the
  cell amount to this is \<open>atomic_shared_ptr_correct\<close> of \<open>SharedPtr\<close>, whose hypothesis holds, as both callers keep another reference to
  \<open>desired\<close>. Every release of a reference is a step: the last one deletes the node, and its destructor releases the node's next. The next
  field of a node that was published never changes, so that it is read when the exchange is made.
\<close>

datatype as_pc = AsIdle
  | AuLoad nat | AuCas nat                  \<comment> \<open>in Push with \<open>new_node\<close>\<close>
  | AoLoad | AoCas nat | AoValue nat        \<comment> \<open>in TryPop with \<open>curr_top\<close>\<close>
  | AsRelease "nat option" as_pc            \<comment> \<open>release a reference, then go on\<close>

record 'a as_state =
  as_top :: "nat option"
  as_next :: "nat \<Rightarrow> nat option"
  as_value :: "nat \<Rightarrow> 'a option"            \<comment> \<open>None: moved from\<close>
  as_count :: "nat \<Rightarrow> nat"                  \<comment> \<open>strong references\<close>
  as_live :: "nat set"
  as_bad :: bool                            \<comment> \<open>a deleted node was accessed\<close>
  as_pc :: "tid \<Rightarrow> as_pc"
  as_ret :: "(tid \<times> 'a option) list"
  as_log :: "(tid \<times> 'a lf_op) list"         \<comment> \<open>ghost: the operations in the order they took effect\<close>

definition as_start :: "'a as_state" where
  "as_start = \<lparr>as_top = None, as_next = (\<lambda>_. None), as_value = (\<lambda>_. None), as_count = (\<lambda>_. 0), as_live = {}, as_bad = False,
     as_pc = (\<lambda>_. AsIdle), as_ret = [], as_log = []\<rparr>"

definition as_goto :: "tid \<Rightarrow> as_pc \<Rightarrow> 'a as_state \<Rightarrow> 'a as_state" where
  "as_goto t p s = s\<lparr>as_pc := (as_pc s)(t := p)\<rparr>"

definition as_touch :: "nat \<Rightarrow> 'a as_state \<Rightarrow> 'a as_state" where
  "as_touch p s = s\<lparr>as_bad := (as_bad s \<or> p \<notin> as_live s)\<rparr>"

text \<open>A new reference to what \<open>x\<close> points to.\<close>

definition as_share :: "nat option \<Rightarrow> 'a as_state \<Rightarrow> 'a as_state" where
  "as_share x s = (case x of None \<Rightarrow> s | Some p \<Rightarrow> (as_touch p s)\<lparr>as_count := (as_count s)(p := as_count s p + 1)\<rparr>)"

definition as_release :: "tid \<Rightarrow> nat option \<Rightarrow> as_pc \<Rightarrow> 'a as_state \<Rightarrow> 'a as_state" where
  "as_release t x k s = (case x of None \<Rightarrow> as_goto t k s
     | Some p \<Rightarrow> let s = as_touch p s; s = s\<lparr>as_count := (as_count s)(p := as_count s p - 1)\<rparr> in
         if as_count s p = 0 then as_goto t (AsRelease (as_next s p) k) (s\<lparr>as_live := as_live s - {p}\<rparr>) else as_goto t k s)"

text \<open>\<open>MakeShared\<close> returns a node at any address that is not in use.\<close>

definition AsPush_new :: "tid \<Rightarrow> 'a \<Rightarrow> nat \<Rightarrow> 'a as_state \<Rightarrow> 'a as_state option" where
  "AsPush_new t x p s = (if p \<in> as_live s then None
     else Some (as_goto t (AuLoad p) (s\<lparr>as_live := insert p (as_live s), as_value := (as_value s)(p := Some x), as_next := (as_next s)(p := None),
       as_count := (as_count s)(p := 1)\<rparr>)))"

text \<open>\<open>new_node->next = top_.Load()\<close>, with the release of the old value.\<close>

definition AsPush_load :: "tid \<Rightarrow> nat \<Rightarrow> 'a as_state \<Rightarrow> 'a as_state" where
  "AsPush_load t p s = as_goto t (AsRelease (as_next s p) (AuCas p)) ((as_share (as_top s) (as_touch p s))\<lparr>as_next := (as_next s)(p := as_top s)\<rparr>)"

definition AsPush_cas :: "tid \<Rightarrow> nat \<Rightarrow> bool \<Rightarrow> 'a as_state \<Rightarrow> 'a as_state" where
  "AsPush_cas t p spurious s = (if as_top s = as_next s p \<and> \<not> spurious
     then as_goto t (AsRelease (as_top s) (AsRelease (Some p) AsIdle)) ((as_share (Some p) s)\<lparr>as_top := Some p,
       as_log := as_log s @ (case as_value s p of None \<Rightarrow> [] | Some x \<Rightarrow> [(t, OpPush x)])\<rparr>)
     else AsPush_load t p s)"

definition AsPop_load :: "tid \<Rightarrow> 'a as_state \<Rightarrow> 'a as_state" where
  "AsPop_load t s = (case as_top s of
     None \<Rightarrow> as_goto t AsIdle (s\<lparr>as_ret := as_ret s @ [(t, None)], as_log := as_log s @ [(t, OpPop None)]\<rparr>)
   | Some p \<Rightarrow> as_goto t (AoCas p) (as_share (Some p) s))"

text \<open>The failed exchange assigns what it loads to \<open>curr_top\<close>, which the end of the iteration releases.\<close>

definition AsPop_cas :: "tid \<Rightarrow> nat \<Rightarrow> bool \<Rightarrow> 'a as_state \<Rightarrow> 'a as_state" where
  "AsPop_cas t p spurious s = (let s = as_touch p s in
     if as_top s = Some p \<and> \<not> spurious
     then as_goto t (AsRelease (Some p) (AoValue p)) ((as_share (as_next s p) s)\<lparr>as_top := as_next s p, as_log := as_log s @ [(t, OpPop (as_value s p))]\<rparr>)
     else as_goto t (AsRelease (Some p) (AsRelease (as_top s) AoLoad)) (as_share (as_top s) s))"

definition AsPop_value :: "tid \<Rightarrow> nat \<Rightarrow> 'a as_state \<Rightarrow> 'a as_state" where
  "AsPop_value t p s = as_goto t (AsRelease (Some p) AsIdle)
     ((as_touch p s)\<lparr>as_ret := as_ret s @ [(t, as_value s p)], as_value := (as_value s)(p := None)\<rparr>)"

datatype 'a as_act = AsPush tid 'a nat | AsPop tid | AsGo tid bool

fun as_go :: "tid \<Rightarrow> bool \<Rightarrow> 'a as_state \<Rightarrow> 'a as_state option" where
  "as_go t spurious s = (case as_pc s t of
     AsIdle \<Rightarrow> None
   | AuLoad p \<Rightarrow> Some (AsPush_load t p s)
   | AuCas p \<Rightarrow> Some (AsPush_cas t p spurious s)
   | AoLoad \<Rightarrow> Some (AsPop_load t s)
   | AoCas p \<Rightarrow> Some (AsPop_cas t p spurious s)
   | AoValue p \<Rightarrow> Some (AsPop_value t p s)
   | AsRelease x k \<Rightarrow> Some (as_release t x k s))"

fun as_step :: "nat \<Rightarrow> 'a as_act \<Rightarrow> 'a as_state \<Rightarrow> 'a as_state option" where
  "as_step n (AsPush t x p) s = (if t < n \<and> as_pc s t = AsIdle then AsPush_new t x p s else None)"
| "as_step n (AsPop t) s = (if t < n \<and> as_pc s t = AsIdle then Some (as_goto t AoLoad s) else None)"
| "as_step n (AsGo t spurious) s = (if t < n then as_go t spurious s else None)"

text \<open>The destructor of \<open>top_\<close> stores a null pointer and releases the old one.\<close>

definition AsStack_destroy :: "tid \<Rightarrow> 'a as_state \<Rightarrow> 'a as_state" where
  "AsStack_destroy t s = as_goto t (AsRelease (as_top s) AsIdle) (s\<lparr>as_top := None\<rparr>)"

lemmas as_ops = as_goto_def as_touch_def as_share_def


subsection \<open>References\<close>

definition ref_to :: "nat option \<Rightarrow> nat \<Rightarrow> nat" where
  "ref_to x p = of_bool (x = Some p)"

lemma ref_to_simps [simp]: "ref_to None p = 0" "ref_to (Some q) p = of_bool (q = p)"
  by (simp_all add: ref_to_def)

text \<open>The references of a thread, of the fields of the nodes, and all of them.\<close>

fun as_hold :: "as_pc \<Rightarrow> nat \<Rightarrow> nat" where
  "as_hold (AuLoad q) p = of_bool (q = p)"
| "as_hold (AuCas q) p = of_bool (q = p)"
| "as_hold (AoCas q) p = of_bool (q = p)"
| "as_hold (AoValue q) p = of_bool (q = p)"
| "as_hold (AsRelease x k) p = ref_to x p + as_hold k p"
| "as_hold _ p = 0"

definition as_links :: "'a as_state \<Rightarrow> nat \<Rightarrow> nat" where
  "as_links s p = ref_to (as_top s) p + (\<Sum>q\<in>as_live s. ref_to (as_next s q) p)"

text \<open>The node that a call has not published yet, and the one that it has taken and not read yet.\<close>

fun as_priv :: "as_pc \<Rightarrow> nat option" where
  "as_priv (AuLoad p) = Some p"
| "as_priv (AuCas p) = Some p"
| "as_priv (AsRelease x k) = as_priv k"
| "as_priv _ = None"

fun as_won :: "as_pc \<Rightarrow> nat option" where
  "as_won (AoValue p) = Some p"
| "as_won (AsRelease x k) = as_won k"
| "as_won _ = None"

fun as_list :: "'a as_state \<Rightarrow> nat option \<Rightarrow> nat list \<Rightarrow> bool" where
  "as_list s q [] = (q = None)"
| "as_list s q (m # l) = (q = Some m \<and> as_list s (as_next s m) l)"

definition as_pending :: "'a as_state \<Rightarrow> as_pc \<Rightarrow> 'a option list" where
  "as_pending s p = (case as_won p of None \<Rightarrow> [] | Some m \<Rightarrow> [as_value s m])"

definition as_inv :: "nat \<Rightarrow> nat list \<Rightarrow> 'a as_state \<Rightarrow> bool" where
  "as_inv n l s = (\<not> as_bad s \<and> finite (as_live s) \<and> (\<forall>p. as_count s p = as_links s p + (\<Sum>t<n. as_hold (as_pc s t) p)) \<and>
     (\<forall>p. p \<in> as_live s \<longleftrightarrow> 0 < as_count s p) \<and> (\<forall>t. \<not> t < n \<longrightarrow> as_pc s t = AsIdle) \<and>
     as_list s (as_top s) l \<and> distinct l \<and> (\<forall>p\<in>set l. as_value s p \<noteq> None) \<and>
     (\<forall>t p. as_priv (as_pc s t) = Some p \<longrightarrow> as_count s p = 1 \<and> as_value s p \<noteq> None) \<and>
     (\<forall>t p. as_won (as_pc s t) = Some p \<longrightarrow> p \<notin> set l \<and> as_value s p \<noteq> None) \<and>
     (\<forall>t u p. as_won (as_pc s t) = Some p \<and> as_won (as_pc s u) = Some p \<longrightarrow> t = u) \<and>
     lf_spec [] (as_log s) = Some (map (\<lambda>m. the (as_value s m)) l) \<and>
     (\<forall>t. pops t (as_log s) = rets t (as_ret s) @ as_pending s (as_pc s t)))"

lemma as_invI:
  assumes "\<not> as_bad s" and "finite (as_live s)" and "\<And>p. as_count s p = as_links s p + (\<Sum>t<n. as_hold (as_pc s t) p)"
    and "\<And>p. p \<in> as_live s \<longleftrightarrow> 0 < as_count s p" and "\<And>t. \<not> t < n \<Longrightarrow> as_pc s t = AsIdle"
    and "as_list s (as_top s) l" and "distinct l" and "\<And>p. p \<in> set l \<Longrightarrow> as_value s p \<noteq> None"
    and "\<And>t p. as_priv (as_pc s t) = Some p \<Longrightarrow> as_count s p = 1 \<and> as_value s p \<noteq> None"
    and "\<And>t p. as_won (as_pc s t) = Some p \<Longrightarrow> p \<notin> set l \<and> as_value s p \<noteq> None"
    and "\<And>t u p. as_won (as_pc s t) = Some p \<Longrightarrow> as_won (as_pc s u) = Some p \<Longrightarrow> t = u"
    and "lf_spec [] (as_log s) = Some (map (\<lambda>m. the (as_value s m)) l)"
    and "\<And>t. pops t (as_log s) = rets t (as_ret s) @ as_pending s (as_pc s t)"
  shows "as_inv n l s"
  using assms unfolding as_inv_def by blast

lemma as_invD:
  assumes "as_inv n l s"
  shows "\<not> as_bad s" and "finite (as_live s)" and "\<And>p. as_count s p = as_links s p + (\<Sum>t<n. as_hold (as_pc s t) p)"
    and "\<And>p. p \<in> as_live s \<longleftrightarrow> 0 < as_count s p" and "\<And>t. \<not> t < n \<Longrightarrow> as_pc s t = AsIdle"
    and "as_list s (as_top s) l" and "distinct l" and "\<And>p. p \<in> set l \<Longrightarrow> as_value s p \<noteq> None"
    and "\<And>t p. as_priv (as_pc s t) = Some p \<Longrightarrow> as_count s p = 1 \<and> as_value s p \<noteq> None"
    and "\<And>t p. as_won (as_pc s t) = Some p \<Longrightarrow> p \<notin> set l \<and> as_value s p \<noteq> None"
    and "\<And>t u p. as_won (as_pc s t) = Some p \<Longrightarrow> as_won (as_pc s u) = Some p \<Longrightarrow> t = u"
    and "lf_spec [] (as_log s) = Some (map (\<lambda>m. the (as_value s m)) l)"
    and "\<And>t. pops t (as_log s) = rets t (as_ret s) @ as_pending s (as_pc s t)"
  using assms unfolding as_inv_def by blast+

lemma priv_held: "as_priv p = Some m \<Longrightarrow> 1 \<le> as_hold p m"
  by (induction p) auto

lemma won_held: "as_won p = Some m \<Longrightarrow> 1 \<le> as_hold p m"
  by (induction p) auto

lemma sum_split:
  fixes f :: "nat \<Rightarrow> nat"
  assumes "t < n"
  shows "(\<Sum>i<n. f i) = f t + (\<Sum>i\<in>{..<n} - {t}. f i)"
  by (rule sum.remove) (use assms in auto)

lemma held_counted:
  assumes "as_inv n l s" and "t < n"
  shows "as_links s p + as_hold (as_pc s t) p \<le> as_count s p"
  using as_invD(3) [OF assms(1), of p] sum_split [OF assms(2), of "\<lambda>i. as_hold (as_pc s i) p"] by simp

lemma held_two:
  assumes "as_inv n l s" and "t < n" and "u < n" and "t \<noteq> u"
  shows "as_links s p + as_hold (as_pc s t) p + as_hold (as_pc s u) p \<le> as_count s p"
proof -
  have "as_hold (as_pc s u) p \<le> (\<Sum>i\<in>{..<n} - {t}. as_hold (as_pc s i) p)" by (rule member_le_sum) (use assms in auto)
  then show ?thesis using as_invD(3) [OF assms(1), of p] sum_split [OF assms(2), of "\<lambda>i. as_hold (as_pc s i) p"] by simp
qed

lemma list_in_live:
  assumes "as_list s q l" and "\<And>m. q = Some m \<Longrightarrow> m \<in> as_live s" and "\<And>p. 0 < as_links s p \<Longrightarrow> p \<in> as_live s" and "finite (as_live s)"
  shows "set l \<subseteq> as_live s"
  using assms(1, 2)
proof (induction l arbitrary: q)
  case (Cons m l)
  have m: "m \<in> as_live s" using Cons.prems by simp
  have "x \<in> as_live s" if "as_next s m = Some x" for x
  proof (rule assms(3))
    have "ref_to (as_next s m) x \<le> (\<Sum>q\<in>as_live s. ref_to (as_next s q) x)" by (rule member_le_sum) (use m assms(4) in auto)
    then show "0 < as_links s x" using that by (simp add: as_links_def)
  qed
  then show ?case using Cons.IH [of "as_next s m"] Cons.prems m by auto
qed simp

text \<open>Every node of the list has a link to it.\<close>

lemma list_linked:
  assumes "as_list s q l" and "set l \<subseteq> as_live s" and "finite (as_live s)" and "p \<in> set l"
  shows "q = Some p \<or> 0 < (\<Sum>q\<in>as_live s. ref_to (as_next s q) p)"
  using assms(1, 2, 4)
proof (induction l arbitrary: q)
  case (Cons m l)
  show ?case
  proof (cases "p = m")
    case False
    then have "as_next s m = Some p \<or> 0 < (\<Sum>q\<in>as_live s. ref_to (as_next s q) p)" using Cons.IH [of "as_next s m"] Cons.prems by auto
    moreover have "ref_to (as_next s m) p \<le> (\<Sum>q\<in>as_live s. ref_to (as_next s q) p)" by (rule member_le_sum) (use Cons.prems assms(3) in auto)
    ultimately show ?thesis by auto
  qed (use Cons.prems in simp)
qed simp

lemma as_list_live:
  assumes inv: "as_inv n l s"
  shows "set l \<subseteq> as_live s"
proof (rule list_in_live [OF as_invD(6) [OF inv]])
  show "p \<in> as_live s" if "0 < as_links s p" for p using that as_invD(3, 4) [OF inv, of p] by simp
  then show "m \<in> as_live s" if "as_top s = Some m" for m using that by (simp add: as_links_def)
qed (rule as_invD(2) [OF inv])

lemma as_list_linked: "as_inv n l s \<Longrightarrow> p \<in> set l \<Longrightarrow> 0 < as_links s p"
  using list_linked [OF as_invD(6) as_list_live as_invD(2)] by (fastforce simp: as_links_def)

text \<open>A step of thread \<open>t\<close>.\<close>

lemma as_upd:
  assumes inv: "as_inv n l s" and t: "t < n" and "\<not> as_bad s'" and "finite (as_live s')"
    and pc: "as_pc s' = (as_pc s)(t := p')"
    and cnt: "\<And>p. as_count s' p + as_links s p + as_hold (as_pc s t) p = as_count s p + as_links s' p + as_hold p' p"
    and live: "\<And>p. p \<in> as_live s' \<longleftrightarrow> 0 < as_count s' p"
    and l': "as_list s' (as_top s') l'" "distinct l'" "\<And>p. p \<in> set l' \<Longrightarrow> as_value s' p \<noteq> None"
    and priv: "\<And>u p. u \<noteq> t \<Longrightarrow> as_priv (as_pc s u) = Some p \<Longrightarrow> as_links s' p = 0 \<and> as_hold p' p = 0 \<and> as_value s' p \<noteq> None"
    and mine: "\<And>p. as_priv p' = Some p \<Longrightarrow> as_count s' p = 1 \<and> as_value s' p \<noteq> None"
    and won: "\<And>u p. u \<noteq> t \<Longrightarrow> as_won (as_pc s u) = Some p \<Longrightarrow> p \<notin> set l' \<and> as_value s' p = as_value s p"
    and win: "\<And>p. as_won p' = Some p \<Longrightarrow> p \<notin> set l' \<and> as_value s' p \<noteq> None \<and> (as_won (as_pc s t) = Some p \<or> p \<in> set l)"
    and log: "lf_spec [] (as_log s') = Some (map (\<lambda>m. the (as_value s' m)) l')"
    and ret: "\<And>u. u \<noteq> t \<Longrightarrow> pops u (as_log s') = pops u (as_log s) \<and> rets u (as_ret s') = rets u (as_ret s)"
      "pops t (as_log s') = rets t (as_ret s') @ as_pending s' p'"
  shows "as_inv n l' s'"
proof (rule as_invI)
  note D = as_invD [OF inv]
  show cnt': "as_count s' p = as_links s' p + (\<Sum>t<n. as_hold (as_pc s' t) p)" for p
  proof -
    have "(\<Sum>i\<in>{..<n} - {t}. as_hold (as_pc s' i) p) = (\<Sum>i\<in>{..<n} - {t}. as_hold (as_pc s i) p)" by (rule sum.cong) (simp_all add: pc)
    then show ?thesis using cnt [of p] D(3) [of p] sum_split [OF t, of "\<lambda>i. as_hold (as_pc s i) p"]
        sum_split [OF t, of "\<lambda>i. as_hold (as_pc s' i) p"] by (simp add: pc)
  qed
  show "as_count s' p = 1 \<and> as_value s' p \<noteq> None" if "as_priv (as_pc s' u) = Some p" for u p
  proof (cases "u = t")
    case False
    then have u: "as_priv (as_pc s u) = Some p" using that by (simp add: pc)
    then have "u < n" using D(5) [of u] by (cases "u < n") auto
    have "as_hold (as_pc s u) p \<ge> 1" by (rule priv_held [OF u])
    then have "as_links s p = 0" "as_hold (as_pc s t) p = 0"
      using held_two [OF inv t \<open>u < n\<close> False [symmetric], of p] D(9) [OF u] by linarith+
    then show ?thesis using cnt [of p] priv [OF False u] D(9) [OF u] by simp
  qed (use that mine pc in simp)
  show "p \<notin> set l' \<and> as_value s' p \<noteq> None" if "as_won (as_pc s' u) = Some p" for u p
    using that won [of u p] win [of p] D(10) [of u p] by (cases "u = t") (auto simp: pc)
  show "u = v" if "as_won (as_pc s' u) = Some p" "as_won (as_pc s' v) = Some p" for u v p
  proof -
    have "w = t" if "as_won (as_pc s w) = Some p" "as_won p' = Some p" for w using win [OF that(2)] D(10) [OF that(1)] D(11) [OF that(1), of t] by auto
    then show ?thesis using that D(11) [of u p v] by (auto simp: pc split: if_splits)
  qed
  show "pops u (as_log s') = rets u (as_ret s') @ as_pending s' (as_pc s' u)" for u
  proof (cases "u = t")
    case False
    have "as_pending s' (as_pc s u) = as_pending s (as_pc s u)" using won [OF False] by (auto simp: as_pending_def split: option.splits)
    then show ?thesis using ret(1) [OF False] D(13) [of u] False by (simp add: pc)
  qed (use ret(2) in \<open>simp add: pc\<close>)
  show "as_pc s' u = AsIdle" if "\<not> u < n" for u using D(5) [OF that] that t by (auto simp: pc)
qed (use assms(3, 4) live l' log in auto)


lemma priv_alone:
  assumes inv: "as_inv n l s" and t: "t < n" and "u \<noteq> t" and u: "as_priv (as_pc s u) = Some p"
  shows "as_links s p = 0" and "as_hold (as_pc s t) p = 0"
proof -
  have "u < n" using as_invD(5) [OF inv, of u] u by (cases "u < n") auto
  then have "as_links s p + as_hold (as_pc s t) p + as_hold (as_pc s u) p \<le> as_count s p" using held_two [OF inv t, of u p] assms(3) by simp
  then show "as_links s p = 0" and "as_hold (as_pc s t) p = 0" using priv_held [OF u] as_invD(9) [OF inv u] by linarith+
qed

lemma priv_own:
  assumes inv: "as_inv n l s" and t: "t < n" and p: "as_priv (as_pc s t) = Some p"
  shows "as_links s p = 0" and "as_hold (as_pc s t) p = 1" and "p \<notin> set l" and "p \<in> as_live s" and "as_top s \<noteq> Some p"
proof -
  have "as_links s p + as_hold (as_pc s t) p \<le> 1" using held_counted [OF inv t, of p] as_invD(9) [OF inv p] by simp
  then show l: "as_links s p = 0" and "as_hold (as_pc s t) p = 1" using priv_held [OF p] by linarith+
  show "p \<notin> set l" using as_list_linked [OF inv, of p] l by auto
  show "p \<in> as_live s" using as_invD(4) [OF inv, of p] as_invD(9) [OF inv p] by simp
  show "as_top s \<noteq> Some p" using l by (auto simp: as_links_def)
qed

lemma held_alive: "as_inv n l s \<Longrightarrow> t < n \<Longrightarrow> 1 \<le> as_hold (as_pc s t) p \<Longrightarrow> p \<in> as_live s"
  using held_counted [of n l s t p] as_invD(4) [of n l s p] by simp

lemma touch_held: "as_inv n l s \<Longrightarrow> p \<in> as_live s \<Longrightarrow> as_touch p s = s"
  using as_invD(1) by (fastforce simp: as_touch_def)

lemma linked_alive: "as_inv n l s \<Longrightarrow> 0 < as_links s p \<Longrightarrow> p \<in> as_live s"
  using as_invD(3, 4) [of n l s p] by simp

lemma top_alive: "as_inv n l s \<Longrightarrow> as_top s = Some p \<Longrightarrow> p \<in> as_live s"
  by (rule linked_alive) (simp_all add: as_links_def)

lemma next_linked: "as_inv n l s \<Longrightarrow> q \<in> as_live s \<Longrightarrow> ref_to (as_next s q) p \<le> as_links s p"
  using member_le_sum [of q "as_live s" "\<lambda>q. ref_to (as_next s q) p"] as_invD(2) [of n l s] by (auto simp: as_links_def)

lemma next_alive: "as_inv n l s \<Longrightarrow> q \<in> as_live s \<Longrightarrow> as_next s q = Some p \<Longrightarrow> p \<in> as_live s"
  using next_linked [of n l s q p] by (intro linked_alive) auto

lemma share_alive: "as_inv n l s \<Longrightarrow> (\<And>p. x = Some p \<Longrightarrow> p \<in> as_live s) \<Longrightarrow> as_share x s = s\<lparr>as_count := (\<lambda>q. as_count s q + ref_to x q)\<rparr>"
  by (cases x) (auto simp: as_share_def touch_held fun_eq_iff)

lemma as_list_frame: "as_list s q l \<Longrightarrow> (\<And>m. m \<in> set l \<Longrightarrow> as_next s' m = as_next s m) \<Longrightarrow> as_list s' q l"
  by (induction l arbitrary: q) auto

lemma as_list_next: "as_next s' = as_next s \<Longrightarrow> as_list s' q l = as_list s q l"
  by (induction l arbitrary: q) simp_all

text \<open>A step that moves no reference, or takes one more.\<close>

lemma as_move:
  assumes inv: "as_inv n l s" and t: "t < n"
    and s': "s' = s\<lparr>as_pc := (as_pc s)(t := p'), as_count := (\<lambda>q. as_count s q + ref_to x q), as_ret := as_ret s @ r, as_log := as_log s @ o'\<rparr>"
    and hold: "\<And>q. as_hold p' q = as_hold (as_pc s t) q + ref_to x q" and x: "\<And>p. x = Some p \<Longrightarrow> 0 < as_links s p"
    and "as_priv p' = as_priv (as_pc s t)" and "as_won p' = as_won (as_pc s t)"
    and "r = [] \<and> o' = [] \<or> r = [(t, None)] \<and> o' = [(t, OpPop None)] \<and> l = [] \<and> as_won p' = None"
  shows "as_inv n l s'"
proof -
  note D = as_invD [OF inv]
  have links: "as_links s' = as_links s" by (simp add: s' as_links_def fun_eq_iff)
  have pend: "as_pending s' p' = as_pending s (as_pc s t)" using assms(7) by (simp add: as_pending_def s' split: option.split)
  show ?thesis
  proof (rule as_upd [OF inv t])
    show "as_count s' p + as_links s p + as_hold (as_pc s t) p = as_count s p + as_links s' p + as_hold p' p" for p
      unfolding links using hold [of p] by (simp add: s')
    show "p \<in> as_live s' \<longleftrightarrow> 0 < as_count s' p" for p using D(4) [of p] x linked_alive [OF inv, of p] by (cases "x = Some p") (auto simp: s' ref_to_def)
    show "as_list s' (as_top s') l" using D(6) as_list_next [of s' s] by (simp add: s')
    show "as_links s' p = 0 \<and> as_hold p' p = 0 \<and> as_value s' p \<noteq> None" if "u \<noteq> t" "as_priv (as_pc s u) = Some p" for u p
      unfolding links using priv_alone [OF inv t that] hold [of p] D(9) [OF that(2)] x [of p] by (auto simp: s' ref_to_def)
    show "as_count s' p = 1 \<and> as_value s' p \<noteq> None" if "as_priv p' = Some p" for p
      using priv_own(1) [OF inv t, of p] D(9) [of t p] that assms(6) x [of p] by (auto simp: s' ref_to_def)
    show "lf_spec [] (as_log s') = Some (map (\<lambda>m. the (as_value s' m)) l)" using D(12) assms(8) by (auto simp: s' lf_spec_append)
    show "pops t (as_log s') = rets t (as_ret s') @ as_pending s' p'"
      using D(13) [of t] assms(7, 8) unfolding pend by (auto simp: s' as_pending_def)
    show "pops u (as_log s') = pops u (as_log s) \<and> rets u (as_ret s') = rets u (as_ret s)" if "u \<noteq> t" for u using assms(8) that by (auto simp: s')
  qed (use D(1, 2, 7, 8, 10) assms(7) in \<open>simp_all add: s'\<close>)
qed

lemma as_release_inv:
  assumes inv: "as_inv n l s" and t: "t < n" and pc: "as_pc s t = AsRelease x k"
  shows "as_inv n l (as_release t x k s)"
proof (cases x)
  case None
  then show ?thesis using pc
    by (intro as_move [OF inv t, where p' = k and x = None and r = "[]" and o' = "[]"]) (simp_all add: as_release_def as_goto_def)
next
  case (Some p)
  note D = as_invD [OF inv]
  have held: "1 \<le> as_hold (as_pc s t) p" using pc Some by simp
  have alive: "p \<in> as_live s" by (rule held_alive [OF inv t held])
  define s' where "s' = as_release t x k s"
  have "as_links s p + as_hold (as_pc s t) p \<le> as_count s p" by (rule held_counted [OF inv t])
  then have cp: "as_links s p + as_hold k p + 1 \<le> as_count s p" using pc Some by simp
  define s1 where "s1 = s\<lparr>as_count := (as_count s)(p := as_count s p - 1)\<rparr>"
  show ?thesis
  proof (cases "as_count s p = 1")
    case False
    then have s': "s' = s\<lparr>as_pc := (as_pc s)(t := k), as_count := (as_count s)(p := as_count s p - 1)\<rparr>"
      using Some touch_held [OF inv alive] cp by (simp add: s'_def as_release_def as_goto_def Let_def)
    have links: "as_links s' = as_links s" by (simp add: s' as_links_def fun_eq_iff)
    have "as_inv n l s'"
    proof (rule as_upd [OF inv t])
      show "as_count s' q + as_links s q + as_hold (as_pc s t) q = as_count s q + as_links s' q + as_hold k q" for q
        unfolding links using pc Some cp by (simp add: s')
      show "q \<in> as_live s' \<longleftrightarrow> 0 < as_count s' q" for q using D(4) [of q] False cp by (auto simp: s')
      show "as_list s' (as_top s') l" using D(6) as_list_next [of s' s] by (simp add: s')
      show "as_links s' q = 0 \<and> as_hold k q = 0 \<and> as_value s' q \<noteq> None" if "u \<noteq> t" "as_priv (as_pc s u) = Some q" for u q
        using priv_alone [OF inv t that] D(9) [OF that(2)] pc unfolding links by (simp add: s')
      show "as_count s' q = 1 \<and> as_value s' q \<noteq> None" if "as_priv k = Some q" for q
        using D(9) [of t q] that pc False by (auto simp: s')
      show "q \<notin> set l \<and> as_value s' q \<noteq> None \<and> (as_won (as_pc s t) = Some q \<or> q \<in> set l)" if "as_won k = Some q" for q
        using D(10) [of t q] that pc by (simp add: s')
      show "pops t (as_log s') = rets t (as_ret s') @ as_pending s' k" using D(13) [of t] pc by (simp add: s' as_pending_def split: option.split)
    qed (use D(1, 2, 7, 8, 10, 12) pc in \<open>simp_all add: s'\<close>)
    then show ?thesis by (simp add: s'_def)
  next
    case True
    then have lk: "as_links s p = 0" "as_hold k p = 0" using cp by simp_all
    have s': "s' = s\<lparr>as_pc := (as_pc s)(t := AsRelease (as_next s p) k), as_count := (as_count s)(p := 0), as_live := as_live s - {p}\<rparr>"
      using Some touch_held [OF inv alive] True by (simp add: s'_def as_release_def as_goto_def Let_def)
    have links: "as_links s q = as_links s' q + ref_to (as_next s p) q" for q
      using sum.remove [OF D(2) alive, of "\<lambda>r. ref_to (as_next s r) q"] by (simp add: s' as_links_def)
    have pl: "p \<notin> set l" using as_list_linked [OF inv, of p] lk by auto
    have "as_inv n l s'"
    proof (rule as_upd [OF inv t])
      show "as_count s' q + as_links s q + as_hold (as_pc s t) q = as_count s q + as_links s' q + as_hold (AsRelease (as_next s p) k) q" for q
        using links [of q] pc Some True by (simp add: s')
      show "q \<in> as_live s' \<longleftrightarrow> 0 < as_count s' q" for q using D(4) [of q] by (auto simp: s')
      show "as_list s' (as_top s') l" using D(6) as_list_next [of s' s] by (simp add: s')
      show "as_links s' q = 0 \<and> as_hold (AsRelease (as_next s p) k) q = 0 \<and> as_value s' q \<noteq> None" if "u \<noteq> t" "as_priv (as_pc s u) = Some q" for u q
        using priv_alone [OF inv t that] D(9) [OF that(2)] pc links [of q] by (simp add: s')
      show "as_count s' q = 1 \<and> as_value s' q \<noteq> None" if "as_priv (AsRelease (as_next s p) k) = Some q" for q
      proof -
        have k: "as_priv k = Some q" using that by simp
        then have "q \<noteq> p" using priv_held [OF k] lk by auto
        then show ?thesis using D(9) [of t q] k pc by (simp add: s')
      qed
      show "q \<notin> set l \<and> as_value s' q \<noteq> None \<and> (as_won (as_pc s t) = Some q \<or> q \<in> set l)"
        if "as_won (AsRelease (as_next s p) k) = Some q" for q using D(10) [of t q] that pc by (simp add: s')
      show "pops t (as_log s') = rets t (as_ret s') @ as_pending s' (AsRelease (as_next s p) k)"
        using D(13) [of t] pc by (simp add: s' as_pending_def split: option.split)
    qed (use D(1, 2, 7, 8, 10, 12) pc in \<open>simp_all add: s'\<close>)
    then show ?thesis by (simp add: s'_def)
  qed
qed


lemma as_push_new:
  assumes inv: "as_inv n l s" and t: "t < n" and pc: "as_pc s t = AsIdle" and step: "AsPush_new t x p s = Some s'"
  shows "as_inv n l s'"
proof -
  note D = as_invD [OF inv]
  have p: "p \<notin> as_live s" using step by (auto simp: AsPush_new_def split: if_splits)
  have s': "s' = s\<lparr>as_pc := (as_pc s)(t := AuLoad p), as_live := insert p (as_live s), as_value := (as_value s)(p := Some x),
      as_next := (as_next s)(p := None), as_count := (as_count s)(p := 1)\<rparr>"
    using step p by (auto simp: AsPush_new_def as_goto_def)
  have pl: "p \<notin> set l" using as_list_live [OF inv] p by auto
  have c0: "as_count s p = 0" "as_links s p = 0" using p D(3, 4) [of p] by simp_all
  have "(\<Sum>q\<in>insert p (as_live s). ref_to (as_next s' q) r) = (\<Sum>q\<in>as_live s. ref_to (as_next s q) r)" for r
    using p D(2) by (simp add: s') (rule sum.cong; auto)
  then have links: "as_links s' = as_links s" by (simp add: as_links_def fun_eq_iff) (simp add: s')
  have others: "u \<noteq> t \<Longrightarrow> as_won (as_pc s u) = Some q \<or> as_priv (as_pc s u) = Some q \<Longrightarrow> q \<noteq> p" for u q
    using p held_alive [OF inv, of u q] won_held [of "as_pc s u" q] priv_held [of "as_pc s u" q] D(5) [of u] by (cases "u < n") auto
  show ?thesis
  proof (rule as_upd [OF inv t, where p' = "AuLoad p"])
    show "as_count s' q + as_links s q + as_hold (as_pc s t) q = as_count s q + as_links s' q + as_hold (AuLoad p) q" for q
      unfolding links using pc c0 by (simp add: s')
    show "q \<in> as_live s' \<longleftrightarrow> 0 < as_count s' q" for q using D(4) [of q] by (auto simp: s')
    have "as_list s' (as_top s) l" by (rule as_list_frame [OF D(6)]) (use pl in \<open>auto simp: s'\<close>)
    then show "as_list s' (as_top s') l" by (simp add: s')
    show "as_links s' q = 0 \<and> as_hold (AuLoad p) q = 0 \<and> as_value s' q \<noteq> None" if "u \<noteq> t" "as_priv (as_pc s u) = Some q" for u q
      unfolding links using priv_alone [OF inv t that] D(9) [OF that(2)] others [OF that(1)] that(2) by (auto simp: s')
    show "q \<notin> set l \<and> as_value s' q = as_value s q" if "u \<noteq> t" "as_won (as_pc s u) = Some q" for u q
      using D(10) [OF that(2)] others [OF that(1)] that(2) by (auto simp: s')
    have "map (\<lambda>m. the (as_value s' m)) l = map (\<lambda>m. the (as_value s m)) l" using pl by (auto simp: s')
    then show "lf_spec [] (as_log s') = Some (map (\<lambda>m. the (as_value s' m)) l)" using D(12) by (simp add: s')
    show "pops t (as_log s') = rets t (as_ret s') @ as_pending s' (AuLoad p)" using D(13) [of t] pc by (simp add: s' as_pending_def)
  qed (use D(1, 2, 7, 8) in \<open>auto simp: s'\<close>)
qed

lemma as_push_load:
  assumes inv: "as_inv n l s" and t: "t < n" and pc: "as_pc s t = AuLoad p \<or> as_pc s t = AuCas p"
  shows "as_inv n l (AsPush_load t p s)"
proof -
  note D = as_invD [OF inv]
  have pr: "as_priv (as_pc s t) = Some p" using pc by auto
  note P = priv_own [OF inv t pr]
  define s' where "s' = AsPush_load t p s"
  have s': "s' = s\<lparr>as_pc := (as_pc s)(t := AsRelease (as_next s p) (AuCas p)), as_next := (as_next s)(p := as_top s),
      as_count := (\<lambda>q. as_count s q + ref_to (as_top s) q)\<rparr>"
    using share_alive [OF inv, of "as_top s"] top_alive [OF inv] touch_held [OF inv P(4)] by (simp add: s'_def AsPush_load_def as_goto_def)
  let ?rest = "\<lambda>q. \<Sum>r\<in>as_live s - {p}. ref_to (as_next s r) q"
  have new: "as_links s' q = ref_to (as_top s) q + (ref_to (as_top s) q + ?rest q)" for q
    using sum.remove [OF D(2) P(4), of "\<lambda>r. ref_to (as_next s' r) q"] by (simp add: as_links_def s')
  have old: "as_links s q = ref_to (as_top s) q + (ref_to (as_next s p) q + ?rest q)" for q
    using sum.remove [OF D(2) P(4), of "\<lambda>r. ref_to (as_next s r) q"] by (simp add: as_links_def)
  have hold: "as_hold (as_pc s t) q = of_bool (p = q)" for q using pc by auto
  have "as_inv n l s'"
  proof (rule as_upd [OF inv t])
    show "as_count s' q + as_links s q + as_hold (as_pc s t) q = as_count s q + as_links s' q + as_hold (AsRelease (as_next s p) (AuCas p)) q" for q
      using new [of q] old [of q] hold [of q] by (simp add: s')
    show "q \<in> as_live s' \<longleftrightarrow> 0 < as_count s' q" for q using D(4) [of q] top_alive [OF inv, of q] by (auto simp: s' ref_to_def)
    have "as_list s' (as_top s) l" by (rule as_list_frame [OF D(6)]) (use P(3) in \<open>auto simp: s'\<close>)
    then show "as_list s' (as_top s') l" by (simp add: s')
    show "as_links s' q = 0 \<and> as_hold (AsRelease (as_next s p) (AuCas p)) q = 0 \<and> as_value s' q \<noteq> None"
      if "u \<noteq> t" "as_priv (as_pc s u) = Some q" for u q
      using priv_alone [OF inv t that] D(9) [OF that(2)] new [of q] old [of q] hold [of q] by (auto simp: s')
    show "as_count s' q = 1 \<and> as_value s' q \<noteq> None" if "as_priv (AsRelease (as_next s p) (AuCas p)) = Some q" for q
      using that D(9) [OF pr] P(5) by (auto simp: s' ref_to_def)
    show "pops t (as_log s') = rets t (as_ret s') @ as_pending s' (AsRelease (as_next s p) (AuCas p))"
      using D(13) [of t] pc by (auto simp: s' as_pending_def)
  qed (use D(1, 2, 7, 8, 10, 12) in \<open>simp_all add: s'\<close>)
  then show ?thesis by (simp add: s'_def)
qed

lemma as_push_cas:
  assumes inv: "as_inv n l s" and t: "t < n" and pc: "as_pc s t = AuCas p"
  shows "\<exists>l'. as_inv n l' (AsPush_cas t p spurious s)"
proof (cases "as_top s = as_next s p \<and> \<not> spurious")
  case False
  then show ?thesis using as_push_load [OF inv t] pc by (auto simp: AsPush_cas_def)
next
  case True
  note D = as_invD [OF inv]
  have pr: "as_priv (as_pc s t) = Some p" using pc by auto
  note P = priv_own [OF inv t pr]
  obtain x where x: "as_value s p = Some x" using D(9) [OF pr] by auto
  let ?k = "AsRelease (as_top s) (AsRelease (Some p) AsIdle)"
  define s' where "s' = AsPush_cas t p spurious s"
  have s': "s' = s\<lparr>as_pc := (as_pc s)(t := ?k), as_count := (\<lambda>q. as_count s q + ref_to (Some p) q), as_top := Some p,
      as_log := as_log s @ [(t, OpPush x)]\<rparr>"
    using share_alive [OF inv, of "Some p"] P(4) True x by (simp add: s'_def AsPush_cas_def as_goto_def)
  have links: "as_links s' q + ref_to (as_top s) q = as_links s q + of_bool (p = q)" for q by (simp add: as_links_def s')
  have "as_inv n (p # l) s'"
  proof (rule as_upd [OF inv t])
    show "as_count s' q + as_links s q + as_hold (as_pc s t) q = as_count s q + as_links s' q + as_hold ?k q" for q
      using links [of q] pc by (simp add: s')
    show "q \<in> as_live s' \<longleftrightarrow> 0 < as_count s' q" for q using D(4) [of q] P(4) by (auto simp: s')
    show "as_list s' (as_top s') (p # l)" using D(6) as_list_next [of s' s] True by (simp add: s')
    show "as_links s' q = 0 \<and> as_hold ?k q = 0 \<and> as_value s' q \<noteq> None" if "u \<noteq> t" "as_priv (as_pc s u) = Some q" for u q
      using priv_alone [OF inv t that] D(9) [OF that(2)] links [of q] pc by (auto simp: s' as_links_def)
    show "q \<notin> set (p # l) \<and> as_value s' q = as_value s q" if "u \<noteq> t" "as_won (as_pc s u) = Some q" for u q
    proof -
      have "u < n" using D(5) [of u] that by (cases "u < n") auto
      then have "as_links s q + as_hold (as_pc s t) q + as_hold (as_pc s u) q \<le> as_count s q" using held_two [OF inv t, of u q] that(1) by simp
      then have "q \<noteq> p" using won_held [OF that(2)] P(2) D(9) [OF pr] by auto
      then show ?thesis using D(10) [OF that(2)] by (simp add: s')
    qed
    show "lf_spec [] (as_log s') = Some (map (\<lambda>m. the (as_value s' m)) (p # l))" using D(12) x by (simp add: s' lf_spec_append)
    show "pops t (as_log s') = rets t (as_ret s') @ as_pending s' ?k" using D(13) [of t] pc by (simp add: s' as_pending_def)
  qed (use D(1, 2, 7, 8) P(3) x in \<open>auto simp: s'\<close>)
  then show ?thesis unfolding s'_def by blast
qed

lemma as_pop_load:
  assumes inv: "as_inv n l s" and t: "t < n" and pc: "as_pc s t = AoLoad"
  shows "as_inv n l (AsPop_load t s)"
proof (cases "as_top s")
  case None
  then have "l = []" using as_invD(6) [OF inv] by (cases l) auto
  then show ?thesis using None pc
    by (intro as_move [OF inv t, where p' = AsIdle and x = None and r = "[(t, None)]" and o' = "[(t, OpPop None)]"])
      (simp_all add: AsPop_load_def as_goto_def)
next
  case (Some p)
  then show ?thesis using pc share_alive [OF inv, of "Some p"] top_alive [OF inv]
    by (intro as_move [OF inv t, where p' = "AoCas p" and x = "Some p" and r = "[]" and o' = "[]"])
      (simp_all add: AsPop_load_def as_goto_def as_links_def)
qed

lemma as_pop_cas:
  assumes inv: "as_inv n l s" and t: "t < n" and pc: "as_pc s t = AoCas p"
  shows "\<exists>l'. as_inv n l' (AsPop_cas t p spurious s)"
proof -
  note D = as_invD [OF inv]
  have alive: "p \<in> as_live s" by (rule held_alive [OF inv t]) (use pc in simp)
  note tch = touch_held [OF inv alive]
  show ?thesis
  proof (cases "as_top s = Some p \<and> \<not> spurious")
    case False
    then have "AsPop_cas t p spurious s = as_goto t (AsRelease (Some p) (AsRelease (as_top s) AoLoad))
        (s\<lparr>as_count := (\<lambda>q. as_count s q + ref_to (as_top s) q)\<rparr>)"
      using tch share_alive [OF inv, of "as_top s"] top_alive [OF inv] by (auto simp: AsPop_cas_def)
    then have "as_inv n l (AsPop_cas t p spurious s)" using pc
      by (intro as_move [OF inv t, where p' = "AsRelease (Some p) (AsRelease (as_top s) AoLoad)" and x = "as_top s" and r = "[]" and o' = "[]"])
        (simp_all add: as_goto_def as_links_def)
    then show ?thesis by blast
  next
    case True
    then obtain l1 where l: "l = p # l1" and l1: "as_list s (as_next s p) l1" using D(6) by (cases l) auto
    obtain x where x: "as_value s p = Some x" using D(8) [of p] l by auto
    let ?k = "AsRelease (Some p) (AoValue p)"
    define s' where "s' = AsPop_cas t p spurious s"
    have s': "s' = s\<lparr>as_pc := (as_pc s)(t := ?k), as_count := (\<lambda>q. as_count s q + ref_to (as_next s p) q), as_top := as_next s p,
        as_log := as_log s @ [(t, OpPop (Some x))]\<rparr>"
      using tch share_alive [OF inv, of "as_next s p"] next_alive [OF inv alive] True x by (simp add: s'_def AsPop_cas_def as_goto_def Let_def)
    have links: "as_links s' q + of_bool (p = q) = as_links s q + ref_to (as_next s p) q" for q using True by (simp add: as_links_def s')
    have "as_inv n l1 s'"
    proof (rule as_upd [OF inv t])
      show "as_count s' q + as_links s q + as_hold (as_pc s t) q = as_count s q + as_links s' q + as_hold ?k q" for q
        using links [of q] pc by (simp add: s')
      show "q \<in> as_live s' \<longleftrightarrow> 0 < as_count s' q" for q using D(4) [of q] next_alive [OF inv alive, of q] by (auto simp: s' ref_to_def)
      show "as_list s' (as_top s') l1" using l1 as_list_next [of s' s] by (simp add: s')
      show "as_links s' q = 0 \<and> as_hold ?k q = 0 \<and> as_value s' q \<noteq> None" if "u \<noteq> t" "as_priv (as_pc s u) = Some q" for u q
        using priv_alone [OF inv t that] D(9) [OF that(2)] links [of q] next_linked [OF inv alive, of q] pc by (auto simp: s')
      show "q \<notin> set l1 \<and> as_value s' q = as_value s q" if "u \<noteq> t" "as_won (as_pc s u) = Some q" for u q
        using D(10) [OF that(2)] l by (simp add: s')
      show "q \<notin> set l1 \<and> as_value s' q \<noteq> None \<and> (as_won (as_pc s t) = Some q \<or> q \<in> set l)" if "as_won ?k = Some q" for q
        using that D(7) l x by (auto simp: s')
      show "lf_spec [] (as_log s') = Some (map (\<lambda>m. the (as_value s' m)) l1)" using D(12) x l by (simp add: s' lf_spec_append)
      show "pops t (as_log s') = rets t (as_ret s') @ as_pending s' ?k" using D(13) [of t] pc x by (simp add: s' as_pending_def)
    qed (use D(1, 2, 7, 8) l in \<open>auto simp: s'\<close>)
    then show ?thesis unfolding s'_def by blast
  qed
qed

lemma as_pop_value:
  assumes inv: "as_inv n l s" and t: "t < n" and pc: "as_pc s t = AoValue p"
  shows "as_inv n l (AsPop_value t p s)"
proof -
  note D = as_invD [OF inv]
  have alive: "p \<in> as_live s" by (rule held_alive [OF inv t]) (use pc in simp)
  have won: "as_won (as_pc s t) = Some p" using pc by simp
  define s' where "s' = AsPop_value t p s"
  have s': "s' = s\<lparr>as_pc := (as_pc s)(t := AsRelease (Some p) AsIdle), as_ret := as_ret s @ [(t, as_value s p)], as_value := (as_value s)(p := None)\<rparr>"
    using touch_held [OF inv alive] by (simp add: s'_def AsPop_value_def as_goto_def)
  have links: "as_links s' = as_links s" by (simp add: s' as_links_def fun_eq_iff)
  have pl: "p \<notin> set l" using D(10) [OF won] by simp
  have "as_inv n l s'"
  proof (rule as_upd [OF inv t])
    show "as_count s' q + as_links s q + as_hold (as_pc s t) q = as_count s q + as_links s' q + as_hold (AsRelease (Some p) AsIdle) q" for q
      unfolding links using pc by (simp add: s')
    show "as_list s' (as_top s') l" using D(6) as_list_next [of s' s] by (simp add: s')
    show "as_links s' q = 0 \<and> as_hold (AsRelease (Some p) AsIdle) q = 0 \<and> as_value s' q \<noteq> None"
      if "u \<noteq> t" "as_priv (as_pc s u) = Some q" for u q
      unfolding links using priv_alone [OF inv t that] D(9) [OF that(2)] pc by (auto simp: s')
    show "q \<notin> set l \<and> as_value s' q = as_value s q" if "u \<noteq> t" "as_won (as_pc s u) = Some q" for u q
      using D(10) [OF that(2)] D(11) [OF that(2), of t] won that(1) by (auto simp: s')
    have "map (\<lambda>m. the (as_value s' m)) l = map (\<lambda>m. the (as_value s m)) l" using pl by (auto simp: s')
    then show "lf_spec [] (as_log s') = Some (map (\<lambda>m. the (as_value s' m)) l)" using D(12) by (simp add: s')
    show "as_value s' q \<noteq> None" if "q \<in> set l" for q using D(8) [OF that] that pl by (auto simp: s')
    show "pops t (as_log s') = rets t (as_ret s') @ as_pending s' (AsRelease (Some p) AsIdle)" using D(13) [of t] pc by (simp add: s' as_pending_def)
  qed (use D(1, 2, 4, 7) in \<open>simp_all add: s'\<close>)
  then show ?thesis by (simp add: s'_def)
qed


lemma as_step_inv:
  assumes inv: "as_inv n l s" and step: "as_step n a s = Some s'"
  shows "\<exists>l'. as_inv n l' s'"
proof (cases a)
  case (AsPush t x p)
  then have "t < n" "as_pc s t = AsIdle" "AsPush_new t x p s = Some s'" using step by (auto split: if_splits)
  then show ?thesis using as_push_new [OF inv] by blast
next
  case (AsPop t)
  then have t: "t < n" "as_pc s t = AsIdle" and s': "s' = as_goto t AoLoad s" using step by (auto split: if_splits)
  have "as_inv n l s'"
    by (rule as_move [OF inv t(1), where p' = AoLoad and x = None and r = "[]" and o' = "[]"]) (simp_all add: s' as_goto_def t(2))
  then show ?thesis by blast
next
  case (AsGo t spurious)
  then have t: "t < n" and go: "as_go t spurious s = Some s'" using step by (auto split: if_splits)
  show ?thesis
  proof (cases "as_pc s t")
    case (AuCas p)
    then show ?thesis using go as_push_cas [OF inv t] by auto
  next
    case (AoCas p)
    then show ?thesis using go as_pop_cas [OF inv t] by auto
  qed (use go as_push_load [OF inv t] as_pop_load [OF inv t] as_pop_value [OF inv t] as_release_inv [OF inv t] in auto)
qed

subsection \<open>No cycles\<close>

definition as_ranked :: "'a as_state \<Rightarrow> bool" where
  "as_ranked s = (\<exists>r :: nat \<Rightarrow> nat. \<forall>q\<in>as_live s. \<forall>m. as_next s q = Some m \<longrightarrow> r m < r q)"

lemma ranked_mono: "as_ranked s \<Longrightarrow> as_live s' \<subseteq> as_live s \<Longrightarrow> as_next s' = as_next s \<Longrightarrow> as_ranked s'"
  unfolding as_ranked_def by (metis subsetD)

text \<open>The next field of a node that no other node points to.\<close>

lemma ranked_upd:
  assumes "as_ranked s" and "as_live s' \<subseteq> insert p (as_live s)" and "as_next s' = (as_next s)(p := x)"
    and nobody: "\<And>q. q \<in> as_live s \<Longrightarrow> as_next s q \<noteq> Some p" and "x \<noteq> Some p"
  shows "as_ranked s'"
proof -
  obtain r :: "nat \<Rightarrow> nat" where r: "\<And>q m. q \<in> as_live s \<Longrightarrow> as_next s q = Some m \<Longrightarrow> r m < r q" using assms(1) unfolding as_ranked_def by blast
  define r' where "r' = r(p := case x of None \<Rightarrow> 0 | Some m \<Rightarrow> Suc (r m))"
  have "r' m < r' q" if "q \<in> as_live s'" "as_next s' q = Some m" for q m
  proof (cases "q = p")
    case True
    then show ?thesis using that assms(3, 5) by (auto simp: r'_def)
  next
    case False
    then have "q \<in> as_live s" "as_next s q = Some m" using that assms(2, 3) by auto
    then show ?thesis using r [of q m] nobody [of q] False by (auto simp: r'_def)
  qed
  then show ?thesis unfolding as_ranked_def by blast
qed

lemma unlinked: "as_inv n l s \<Longrightarrow> as_links s p = 0 \<Longrightarrow> q \<in> as_live s \<Longrightarrow> as_next s q \<noteq> Some p"
  using next_linked [of n l s q p] by (auto simp: ref_to_def)

lemma share_frame [simp]: "as_next (as_share x s) = as_next s" "as_live (as_share x s) = as_live s" "as_next (as_touch p s) = as_next s"
  "as_live (as_touch p s) = as_live s" "as_top (as_touch p s) = as_top s" "as_top (as_share x s) = as_top s"
  by (simp_all add: as_share_def as_touch_def split: option.split)

lemma ranked_push_load:
  assumes inv: "as_inv n l s" and t: "t < n" and "as_ranked s" and p: "as_priv (as_pc s t) = Some p"
  shows "as_ranked (AsPush_load t p s)"
proof -
  note P = priv_own [OF inv t p]
  show ?thesis by (rule ranked_upd [OF assms(3), where p = p and x = "as_top s"])
    (use P unlinked [OF inv P(1)] in \<open>auto simp: AsPush_load_def as_goto_def\<close>)
qed

lemma as_step_ranked:
  assumes inv: "as_inv n l s" and "as_ranked s" and step: "as_step n a s = Some s'"
  shows "as_ranked s'"
proof (cases a)
  case (AsPush t x p)
  then have p: "p \<notin> as_live s" and s': "as_live s' = insert p (as_live s)" "as_next s' = (as_next s)(p := None)"
    using step by (auto simp: AsPush_new_def as_goto_def split: if_splits)
  have "as_links s p = 0" using p as_invD(3, 4) [OF inv, of p] by simp
  then show ?thesis using ranked_upd [OF assms(2), of s' p None] s' unlinked [OF inv] by auto
next
  case (AsPop t)
  then have "as_live s' = as_live s" "as_next s' = as_next s" using step by (auto simp: as_goto_def split: if_splits)
  then show ?thesis using ranked_mono [OF assms(2)] by auto
next
  case (AsGo t spurious)
  then have t: "t < n" and go: "as_go t spurious s = Some s'" using step by (auto split: if_splits)
  have mono: ?thesis if "as_live s' \<subseteq> as_live s" "as_next s' = as_next s" by (rule ranked_mono [OF assms(2) that])
  show ?thesis
  proof (cases "as_pc s t")
    case (AuLoad p)
    then show ?thesis using go ranked_push_load [OF inv t assms(2), of p] by auto
  next
    case (AuCas p)
    show ?thesis
    proof (cases "as_top s = as_next s p \<and> \<not> spurious")
      case True
      then show ?thesis using go AuCas by (intro mono) (auto simp: AsPush_cas_def as_goto_def)
    next
      case False
      then show ?thesis using go AuCas ranked_push_load [OF inv t assms(2), of p] by (auto simp: AsPush_cas_def)
    qed
  qed (rule mono; use go in \<open>auto simp: AsPop_load_def AsPop_cas_def AsPop_value_def as_release_def as_goto_def Let_def
      split: option.splits if_splits\<close>)+
qed

interpretation as: inv_system as_start "as_step n" "\<lambda>s. as_ranked s \<and> (\<exists>l. as_inv n l s)" for n
proof (rule inv_system.intro)
  have "as_inv n [] (as_start :: 'a as_state)" by (rule as_invI) (simp_all add: as_start_def as_links_def as_pending_def)
  moreover have "as_ranked (as_start :: 'a as_state)" by (simp add: as_ranked_def as_start_def)
  ultimately show "as_ranked (as_start :: 'a as_state) \<and> (\<exists>l. as_inv n l (as_start :: 'a as_state))" by blast
qed (use as_step_inv as_step_ranked in blast)

subsection \<open>At rest\<close>

lemma as_list_closed: "as_list s x k \<Longrightarrow> q \<in> set k \<Longrightarrow> as_next s q = Some m \<Longrightarrow> m \<in> set k"
proof (induction k arbitrary: x)
  case (Cons a k)
  then show ?case by (cases "q = a"; cases k) auto
qed simp

text \<open>Between calls every node in use is in the list: a node of the highest rank would have no reference.\<close>

lemma as_rest_live:
  assumes inv: "as_inv n l s" and "as_ranked s" and idle: "\<And>t. as_pc s t = AsIdle"
  shows "as_live s = set l"
proof (rule equalityI; rule subsetI)
  show "p \<in> as_live s" if "p \<in> set l" for p using that as_list_live [OF inv] by auto
  fix p assume p: "p \<in> as_live s"
  show "p \<in> set l"
  proof (rule ccontr)
    assume "p \<notin> set l"
    let ?g = "as_live s - set l"
    obtain r :: "nat \<Rightarrow> nat" where r: "\<And>q m. q \<in> as_live s \<Longrightarrow> as_next s q = Some m \<Longrightarrow> r m < r q" using assms(2) unfolding as_ranked_def by blast
    have g: "finite ?g" "?g \<noteq> {}" using as_invD(2) [OF inv] p \<open>p \<notin> set l\<close> by auto
    then have "Max (r ` ?g) \<in> r ` ?g" by (intro Max_in) simp_all
    then obtain m where m1: "m \<in> ?g" "r m = Max (r ` ?g)" by auto
    have m: "m \<in> ?g" "\<And>q. q \<in> ?g \<Longrightarrow> r q \<le> r m" using m1 g(1) by simp_all
    have "0 < as_links s m" using as_invD(3, 4) [OF inv, of m] m(1) idle by simp
    moreover have "as_top s \<noteq> Some m" using as_invD(6) [OF inv] m(1) by (cases l) auto
    ultimately have "(\<Sum>q\<in>as_live s. ref_to (as_next s q) m) \<noteq> 0" by (simp add: as_links_def ref_to_def)
    then obtain q where "q \<in> as_live s" "ref_to (as_next s q) m \<noteq> 0" by (meson sum.neutral)
    then have q: "q \<in> as_live s" "as_next s q = Some m" by (simp_all add: ref_to_def)
    have "q \<notin> set l" using as_list_closed [OF as_invD(6) [OF inv]] q(2) m(1) by auto
    then show False using m(2) [of q] r [OF q] q(1) by auto
  qed
qed

lemma list_links:
  assumes "as_list s q l" and "distinct l"
  shows "ref_to q p + (\<Sum>r\<in>set l. ref_to (as_next s r) p) = of_bool (p \<in> set l)"
  using assms
proof (induction l arbitrary: q)
  case (Cons m l)
  have "ref_to (as_next s m) p + (\<Sum>r\<in>set l. ref_to (as_next s r) p) = of_bool (p \<in> set l)" using Cons by simp
  then show ?case using Cons.prems by (auto simp: add.assoc)
qed simp

lemma destroy_run:
  assumes "t < n" and "as_pc s t = AsRelease q AsIdle" and "as_list s q l" and "distinct l" and "set l \<subseteq> as_live s"
    and "\<And>p. p \<in> set l \<Longrightarrow> as_count s p = 1"
  shows "let s' = run (as_step n) (replicate (Suc (length l)) (AsGo t False)) s in
    as_bad s' = as_bad s \<and> as_live s' = as_live s - set l \<and> as_pc s' t = AsIdle"
  using assms(2-6)
proof (induction l arbitrary: q s)
  case Nil
  then show ?case using assms(1) by (simp add: stutter_def as_release_def as_goto_def)
next
  case (Cons m l)
  define s1 where "s1 = as_release t (Some m) AsIdle s"
  have q: "q = Some m" using Cons.prems(2) by simp
  have s1: "s1 = s\<lparr>as_pc := (as_pc s)(t := AsRelease (as_next s m) AsIdle), as_count := (as_count s)(m := 0), as_live := as_live s - {m}\<rparr>"
    using Cons.prems(4) Cons.prems(5) [of m] by (auto simp: s1_def as_release_def as_goto_def as_touch_def Let_def)
  have st: "stutter (as_step n) (AsGo t False) s = s1" using assms(1) Cons.prems(1) q by (simp add: stutter_def s1_def)
  have "let s' = run (as_step n) (replicate (Suc (length l)) (AsGo t False)) s1 in
      as_bad s' = as_bad s1 \<and> as_live s' = as_live s1 - set l \<and> as_pc s' t = AsIdle"
  proof (rule Cons.IH)
    show "as_list s1 (as_next s m) l" using Cons.prems(2) as_list_next [of s1 s] by (simp add: s1)
  qed (use Cons.prems in \<open>auto simp: s1\<close>)
  then show ?case by (simp add: st Let_def s1 del: as_step.simps) blast
qed



end
