(* ===== verification/McsDrafts.thy ===== *)
theory McsDrafts
  imports McsLock
begin

section \<open>Two drafts of QueueSpinLock\<close>

text \<open>
  \<open>mutex/queue/queue_spinlock-v1.hpp\<close> and \<open>queue_spinlock-v2.hpp\<close>, step by step as in \<open>McsLock\<close>, and the proof that they refine
  it: each step of a draft is none, one or two steps of \<open>queue_spinlock.hpp\<close>. In the first draft \<open>is_owner\<close> means the opposite, that the guard
  must wait. The fields of a guard are plain here, not atomic; the steps order their accesses as they are written.
\<close>

record 'p dq_state =
  dq_tail :: "tid option"
  dq_next :: "tid \<Rightarrow> tid option"
  dq_is_owner :: "tid \<Rightarrow> bool"
  dq_pc :: "tid \<Rightarrow> 'p"

definition dq_start :: "'p \<Rightarrow> 'p dq_state" where
  "dq_start p = \<lparr>dq_tail = None, dq_next = (\<lambda>_. None), dq_is_owner = (\<lambda>_. False), dq_pc = (\<lambda>_. p)\<rparr>"

definition dq_goto :: "tid \<Rightarrow> 'p \<Rightarrow> 'p dq_state \<Rightarrow> 'p dq_state" where
  "dq_goto t p s = s\<lparr>dq_pc := (dq_pc s)(t := p)\<rparr>"

subsection \<open>The first draft\<close>

datatype v1_pc = V1Idle | V1Load | V1Cas "tid option" | V1Flag "tid option" | V1Link tid | V1Spin | V1Critical
  | V1RelTail | V1RelTest | V1RelCas | V1RelGrant

definition V1_construct :: "tid \<Rightarrow> v1_pc dq_state \<Rightarrow> v1_pc dq_state" where
  "V1_construct t s = dq_goto t V1Load (s\<lparr>dq_next := (dq_next s)(t := None), dq_is_owner := (dq_is_owner s)(t := False)\<rparr>)"

definition V1_cas :: "tid \<Rightarrow> tid option \<Rightarrow> bool \<Rightarrow> v1_pc dq_state \<Rightarrow> v1_pc dq_state" where
  "V1_cas t prev_tail spurious s = (if dq_tail s = prev_tail \<and> \<not> spurious then dq_goto t (V1Flag prev_tail) (s\<lparr>dq_tail := Some t\<rparr>)
     else dq_goto t V1Load s)"

definition V1_flag :: "tid \<Rightarrow> tid option \<Rightarrow> v1_pc dq_state \<Rightarrow> v1_pc dq_state" where
  "V1_flag t prev_tail s = dq_goto t (case prev_tail of None \<Rightarrow> V1Spin | Some p \<Rightarrow> V1Link p)
     (s\<lparr>dq_is_owner := (dq_is_owner s)(t := (prev_tail \<noteq> None))\<rparr>)"

definition V1_link :: "tid \<Rightarrow> tid \<Rightarrow> v1_pc dq_state \<Rightarrow> v1_pc dq_state" where
  "V1_link t p s = dq_goto t V1Spin (s\<lparr>dq_next := (dq_next s)(p := Some t)\<rparr>)"

definition V1_spin :: "tid \<Rightarrow> v1_pc dq_state \<Rightarrow> v1_pc dq_state" where
  "V1_spin t s = (if dq_is_owner s t then s else dq_goto t V1Critical s)"

definition V1_rel_tail :: "tid \<Rightarrow> v1_pc dq_state \<Rightarrow> v1_pc dq_state" where
  "V1_rel_tail t s = dq_goto t (if dq_tail s = None then V1Idle else V1RelTest) s"

definition V1_rel_test :: "tid \<Rightarrow> v1_pc dq_state \<Rightarrow> v1_pc dq_state" where
  "V1_rel_test t s = dq_goto t (if dq_next s t = None then V1RelCas else V1RelGrant) s"

definition V1_rel_cas :: "tid \<Rightarrow> v1_pc dq_state \<Rightarrow> v1_pc dq_state" where
  "V1_rel_cas t s = (if dq_tail s = Some t then dq_goto t V1Idle (s\<lparr>dq_tail := None\<rparr>) else dq_goto t V1RelTest s)"

definition V1_rel_grant :: "tid \<Rightarrow> v1_pc dq_state \<Rightarrow> v1_pc dq_state option" where
  "V1_rel_grant t s = (case dq_next s t of None \<Rightarrow> None
     | Some w \<Rightarrow> Some (dq_goto t V1Idle (s\<lparr>dq_is_owner := (dq_is_owner s)(w := False)\<rparr>)))"

fun v1_step :: "tid \<times> mcs_act \<times> bool \<Rightarrow> v1_pc dq_state \<Rightarrow> v1_pc dq_state option" where
  "v1_step (t, McGuard, _) s = (if dq_pc s t = V1Idle then Some (V1_construct t s) else None)"
| "v1_step (t, McDestroy, _) s = (if dq_pc s t = V1Critical then Some (dq_goto t V1RelTail s) else None)"
| "v1_step (t, McStep, spurious) s = (case dq_pc s t of
     V1Load \<Rightarrow> Some (dq_goto t (V1Cas (dq_tail s)) s)
   | V1Cas prev_tail \<Rightarrow> Some (V1_cas t prev_tail spurious s)
   | V1Flag prev_tail \<Rightarrow> Some (V1_flag t prev_tail s)
   | V1Link p \<Rightarrow> Some (V1_link t p s)
   | V1Spin \<Rightarrow> Some (V1_spin t s)
   | V1RelTail \<Rightarrow> Some (V1_rel_tail t s)
   | V1RelTest \<Rightarrow> Some (V1_rel_test t s)
   | V1RelCas \<Rightarrow> Some (V1_rel_cas t s)
   | V1RelGrant \<Rightarrow> V1_rel_grant t s
   | _ \<Rightarrow> None)"

subsection \<open>The second draft\<close>

datatype v2_pc = V2Idle | V2Flag "tid option" | V2Link tid | V2Spin | V2Critical | V2RelCas | V2RelWait | V2RelGrant

definition V2_construct :: "tid \<Rightarrow> v2_pc dq_state \<Rightarrow> v2_pc dq_state" where
  "V2_construct t s = dq_goto t (V2Flag (dq_tail s))
     (s\<lparr>dq_next := (dq_next s)(t := None), dq_is_owner := (dq_is_owner s)(t := True), dq_tail := Some t\<rparr>)"

definition V2_flag :: "tid \<Rightarrow> tid option \<Rightarrow> v2_pc dq_state \<Rightarrow> v2_pc dq_state" where
  "V2_flag t prev_tail s = dq_goto t (case prev_tail of None \<Rightarrow> V2Critical | Some p \<Rightarrow> V2Link p)
     (s\<lparr>dq_is_owner := (dq_is_owner s)(t := (prev_tail = None))\<rparr>)"

definition V2_link :: "tid \<Rightarrow> tid \<Rightarrow> v2_pc dq_state \<Rightarrow> v2_pc dq_state" where
  "V2_link t p s = dq_goto t V2Spin (s\<lparr>dq_next := (dq_next s)(p := Some t)\<rparr>)"

definition V2_spin :: "tid \<Rightarrow> v2_pc dq_state \<Rightarrow> v2_pc dq_state" where
  "V2_spin t s = (if dq_is_owner s t then dq_goto t V2Critical s else s)"

definition V2_rel_cas :: "tid \<Rightarrow> v2_pc dq_state \<Rightarrow> v2_pc dq_state" where
  "V2_rel_cas t s = (if dq_tail s = Some t then dq_goto t V2Idle (s\<lparr>dq_tail := None\<rparr>) else dq_goto t V2RelWait s)"

definition V2_rel_wait :: "tid \<Rightarrow> v2_pc dq_state \<Rightarrow> v2_pc dq_state" where
  "V2_rel_wait t s = (if dq_next s t = None then s else dq_goto t V2RelGrant s)"

definition V2_rel_grant :: "tid \<Rightarrow> v2_pc dq_state \<Rightarrow> v2_pc dq_state option" where
  "V2_rel_grant t s = (case dq_next s t of None \<Rightarrow> None
     | Some w \<Rightarrow> Some (dq_goto t V2Idle (s\<lparr>dq_is_owner := (dq_is_owner s)(w := True)\<rparr>)))"

fun v2_step :: "tid \<times> mcs_act \<Rightarrow> v2_pc dq_state \<Rightarrow> v2_pc dq_state option" where
  "v2_step (t, McGuard) s = (if dq_pc s t = V2Idle then Some (V2_construct t s) else None)"
| "v2_step (t, McDestroy) s = (if dq_pc s t = V2Critical then Some (dq_goto t V2RelCas s) else None)"
| "v2_step (t, McStep) s = (case dq_pc s t of
     V2Flag prev_tail \<Rightarrow> Some (V2_flag t prev_tail s)
   | V2Link p \<Rightarrow> Some (V2_link t p s)
   | V2Spin \<Rightarrow> Some (V2_spin t s)
   | V2RelCas \<Rightarrow> Some (V2_rel_cas t s)
   | V2RelWait \<Rightarrow> Some (V2_rel_wait t s)
   | V2RelGrant \<Rightarrow> V2_rel_grant t s
   | _ \<Rightarrow> None)"

subsection \<open>Refinement\<close>

text \<open>\<open>ab\<close> reads a program point of a draft as one of \<open>queue_spinlock.hpp\<close>, and \<open>ow\<close> says what the flag means. The fields of a guard
  count from its exchange on; the flag only once it is written.\<close>

definition dq_rel :: "('p \<Rightarrow> mcs_pc) \<Rightarrow> ('p \<Rightarrow> bool) \<Rightarrow> ('p \<Rightarrow> bool) \<Rightarrow> (bool \<Rightarrow> bool) \<Rightarrow> 'p dq_state \<Rightarrow> mcs_state \<Rightarrow> bool" where
  "dq_rel ab unset new ow s m = (mc_tail m = dq_tail s \<and> (\<forall>t. mc_pc m t = ab (dq_pc s t)) \<and>
     (\<forall>t. mc_pc m t \<noteq> McIdle \<longrightarrow> mc_next m t = dq_next s t) \<and>
     (\<forall>t. mc_pc m t \<noteq> McIdle \<and> \<not> unset (dq_pc s t) \<longrightarrow> mc_owner m t = ow (dq_is_owner s t)) \<and>
     (\<forall>t. new (dq_pc s t) \<longrightarrow> dq_next s t = None))"

lemma dq_relI:
  assumes "mc_tail m = dq_tail s" and "\<And>t. mc_pc m t = ab (dq_pc s t)" and "\<And>t. mc_pc m t \<noteq> McIdle \<Longrightarrow> mc_next m t = dq_next s t"
    and "\<And>t. mc_pc m t \<noteq> McIdle \<Longrightarrow> \<not> unset (dq_pc s t) \<Longrightarrow> mc_owner m t = ow (dq_is_owner s t)"
    and "\<And>t. new (dq_pc s t) \<Longrightarrow> dq_next s t = None"
  shows "dq_rel ab unset new ow s m"
  using assms unfolding dq_rel_def by blast

lemma dq_relD:
  assumes "dq_rel ab unset new ow s m"
  shows "mc_tail m = dq_tail s" and "\<And>t. mc_pc m t = ab (dq_pc s t)" and "\<And>t. mc_pc m t \<noteq> McIdle \<Longrightarrow> mc_next m t = dq_next s t"
    and "\<And>t. mc_pc m t \<noteq> McIdle \<Longrightarrow> \<not> unset (dq_pc s t) \<Longrightarrow> mc_owner m t = ow (dq_is_owner s t)"
    and "\<And>t. new (dq_pc s t) \<Longrightarrow> dq_next s t = None"
  using assms unfolding dq_rel_def by blast+

lemma mcs_last_next: "mcs_inv m \<Longrightarrow> mc_tail m = Some t \<Longrightarrow> mc_next m t = None"
  unfolding mcs_inv_def using mcs_qD(3, 5) by (metis option.distinct(1) option.inject)

lemma mcs_live_tail: "mcs_inv m \<Longrightarrow> mc_pc m t \<noteq> McIdle \<Longrightarrow> mc_tail m \<noteq> None"
  unfolding mcs_inv_def using mcs_qD(2, 3) by (metis list.set(1) empty_iff option.distinct(1))

lemma mcs_link_live: "mcs_inv m \<Longrightarrow> mc_pc m t = McLink p \<Longrightarrow> mc_pc m p \<noteq> McIdle"
  unfolding mcs_inv_def using mcs_q_link(3) by blast

fun v1_point :: "v1_pc \<Rightarrow> mcs_pc" where
  "v1_point (V1Flag prev) = McSetOwner prev"
| "v1_point (V1Link p) = McLink p"
| "v1_point V1Spin = McSpin"
| "v1_point V1Critical = McCritical"
| "v1_point V1RelTail = McCritical"
| "v1_point V1RelTest = McCritical"
| "v1_point V1RelCas = McCritical"
| "v1_point V1RelGrant = McRelGrant"
| "v1_point _ = McIdle"

fun v1_unset :: "v1_pc \<Rightarrow> bool" where
  "v1_unset (V1Flag prev) = True"
| "v1_unset _ = False"

fun v1_new :: "v1_pc \<Rightarrow> bool" where
  "v1_new V1Load = True"
| "v1_new (V1Cas prev) = True"
| "v1_new _ = False"

abbreviation v1_rel :: "v1_pc dq_state \<Rightarrow> mcs_state \<Rightarrow> bool" where
  "v1_rel \<equiv> dq_rel v1_point v1_unset v1_new Not"

fun v2_point :: "v2_pc \<Rightarrow> mcs_pc" where
  "v2_point V2Idle = McIdle"
| "v2_point (V2Flag prev) = McSetOwner prev"
| "v2_point (V2Link p) = McLink p"
| "v2_point V2Spin = McSpin"
| "v2_point V2RelGrant = McRelGrant"
| "v2_point _ = McCritical"

fun v2_unset :: "v2_pc \<Rightarrow> bool" where
  "v2_unset (V2Flag prev) = True"
| "v2_unset _ = False"

abbreviation v2_rel :: "v2_pc dq_state \<Rightarrow> mcs_state \<Rightarrow> bool" where
  "v2_rel \<equiv> dq_rel v2_point v2_unset (\<lambda>_. False) (\<lambda>b. b)"

lemmas v2_ops = V2_construct_def V2_flag_def V2_link_def V2_spin_def V2_rel_cas_def V2_rel_wait_def V2_rel_grant_def dq_goto_def
lemmas v1_ops = V1_construct_def V1_cas_def V1_flag_def V1_link_def V1_spin_def V1_rel_tail_def V1_rel_test_def V1_rel_cas_def
  V1_rel_grant_def dq_goto_def

lemma v2_sim:
  assumes rel: "v2_rel s m" and inv: "mcs_inv m" and step: "v2_step (t, a) s = Some s'"
  shows "\<exists>as. v2_rel s' (run mcs_step as m)"
proof -
  note D = dq_relD [OF rel]
  have sim: ?thesis if "v2_rel s' (run mcs_step as m)" for as using that by blast
  show ?thesis
  proof (cases a)
    case McGuard
    then show ?thesis using step D(2) [of t]
      by (intro sim [of "[(t, McGuard)]"] dq_relI) (use D in \<open>auto simp: v2_ops mcs_ops stutter_def split: if_splits\<close>)
  next
    case McDestroy
    then show ?thesis using step D(2) [of t]
      by (intro sim [of "[]"] dq_relI) (use D in \<open>auto simp: v2_ops split: if_splits\<close>)
  next
    case McStep
    show ?thesis
    proof (cases "dq_pc s t")
      case (V2Flag prev)
      then show ?thesis using McStep step D(2) [of t]
        by (intro sim [of "case prev of None \<Rightarrow> [(t, McStep), (t, McStep)] | Some p \<Rightarrow> [(t, McStep)]"] dq_relI)
          (use D in \<open>auto simp: v2_ops mcs_ops stutter_def split: if_splits option.splits\<close>)
    next
      case (V2Link p)
      then show ?thesis using McStep step D(2) [of t]
        by (intro sim [of "[(t, McStep)]"] dq_relI) (use D in \<open>auto simp: v2_ops mcs_ops stutter_def split: if_splits\<close>)
    next
      case V2Spin
      then show ?thesis using McStep step D(2) [of t]
        by (intro sim [of "[(t, McStep)]"] dq_relI) (use D D(4) [of t] in \<open>auto simp: v2_ops mcs_ops stutter_def split: if_splits\<close>)
    next
      case V2RelCas
      show ?thesis
      proof (cases "dq_tail s = Some t")
        case True
        then have "mc_next m t = None" using mcs_last_next [OF inv] D(1) by simp
        then show ?thesis using McStep step D(2) [of t] True V2RelCas
          by (intro sim [of "[(t, McDestroy), (t, McStep)]"] dq_relI) (use D in \<open>auto simp: v2_ops mcs_ops stutter_def split: if_splits\<close>)
      next
        case False
        then show ?thesis using McStep step D(2) [of t] V2RelCas
          by (intro sim [of "[]"] dq_relI) (use D in \<open>auto simp: v2_ops split: if_splits\<close>)
      qed
    next
      case V2RelWait
      then show ?thesis using McStep step D(2) [of t]
        by (intro sim [of "if dq_next s t = None then [] else [(t, McDestroy)]"] dq_relI)
          (use D D(3) [of t] in \<open>auto simp: v2_ops mcs_ops stutter_def split: if_splits\<close>)
    next
      case V2RelGrant
      then show ?thesis using McStep step D(2) [of t]
        by (intro sim [of "[(t, McStep)]"] dq_relI)
          (use D D(3) [of t] in \<open>auto simp: v2_ops mcs_ops stutter_def split: if_splits option.splits\<close>)
    qed (use McStep step in simp_all)
  qed
qed

lemma v1_sim:
  assumes rel: "v1_rel s m" and inv: "mcs_inv m" and step: "v1_step (t, a, spurious) s = Some s'"
  shows "\<exists>as. v1_rel s' (run mcs_step as m)"
proof -
  note D = dq_relD [OF rel]
  have sim: ?thesis if "v1_rel s' (run mcs_step as m)" for as using that by blast
  show ?thesis
  proof (cases a)
    case McGuard
    then show ?thesis using step D(2) [of t]
      by (intro sim [of "[]"] dq_relI) (use D in \<open>auto simp: v1_ops split: if_splits\<close>)
  next
    case McDestroy
    then show ?thesis using step D(2) [of t]
      by (intro sim [of "[]"] dq_relI) (use D in \<open>auto simp: v1_ops split: if_splits\<close>)
  next
    case McStep
    show ?thesis
    proof (cases "dq_pc s t")
      case V1Load
      then show ?thesis using McStep step D(2) [of t] D(5) [of t]
        by (intro sim [of "[]"] dq_relI) (use D in \<open>auto simp: v1_ops split: if_splits\<close>)
    next
      case (V1Cas prev)
      then show ?thesis using McStep step D(2) [of t] D(5) [of t]
        by (intro sim [of "if dq_tail s = prev \<and> \<not> spurious then [(t, McGuard)] else []"] dq_relI)
          (use D in \<open>auto simp: v1_ops mcs_ops stutter_def split: if_splits\<close>)
    next
      case (V1Flag prev)
      then show ?thesis using McStep step D(2) [of t]
        by (intro sim [of "[(t, McStep)]"] dq_relI)
          (use D in \<open>auto simp: v1_ops mcs_ops stutter_def split: if_splits option.splits\<close>)
    next
      case (V1Link p)
      then have "mc_pc m p \<noteq> McIdle" using mcs_link_live [OF inv, of t p] D(2) [of t] by simp
      then have "\<not> v1_new (dq_pc s p)" using D(2) [of p] by (cases "dq_pc s p") auto
      then show ?thesis using V1Link McStep step D(2) [of t]
        by (intro sim [of "[(t, McStep)]"] dq_relI) (use D in \<open>auto simp: v1_ops mcs_ops stutter_def split: if_splits\<close>)
    next
      case V1Spin
      then show ?thesis using McStep step D(2) [of t]
        by (intro sim [of "[(t, McStep)]"] dq_relI) (use D D(4) [of t] in \<open>auto simp: v1_ops mcs_ops stutter_def split: if_splits\<close>)
    next
      case V1RelTail
      then have "dq_tail s \<noteq> None" using mcs_live_tail [OF inv, of t] D(1) D(2) [of t] by simp
      then show ?thesis using V1RelTail McStep step D(2) [of t]
        by (intro sim [of "[]"] dq_relI) (use D in \<open>auto simp: v1_ops split: if_splits\<close>)
    next
      case V1RelTest
      then show ?thesis using McStep step D(2) [of t]
        by (intro sim [of "if dq_next s t = None then [] else [(t, McDestroy)]"] dq_relI)
          (use D D(3) [of t] in \<open>auto simp: v1_ops mcs_ops stutter_def split: if_splits\<close>)
    next
      case V1RelCas
      show ?thesis
      proof (cases "dq_tail s = Some t")
        case True
        then have "mc_next m t = None" using mcs_last_next [OF inv] D(1) by simp
        then show ?thesis using McStep step D(2) [of t] True V1RelCas
          by (intro sim [of "[(t, McDestroy), (t, McStep)]"] dq_relI) (use D in \<open>auto simp: v1_ops mcs_ops stutter_def split: if_splits\<close>)
      next
        case False
        then show ?thesis using McStep step D(2) [of t] V1RelCas
          by (intro sim [of "[]"] dq_relI) (use D in \<open>auto simp: v1_ops split: if_splits\<close>)
      qed
    next
      case V1RelGrant
      then show ?thesis using McStep step D(2) [of t]
        by (intro sim [of "[(t, McStep)]"] dq_relI)
          (use D D(3) [of t] in \<open>auto simp: v1_ops mcs_ops stutter_def split: if_splits option.splits\<close>)
    qed (use McStep step in simp_all)
  qed
qed

interpretation v1: simulation mcs_start mcs_step mcs_inv "dq_start V1Idle" v1_step v1_rel
proof unfold_locales
  show "\<exists>bs. v1_rel s' (run mcs_step bs m)" if "v1_rel s m" "mcs_inv m" "v1_step a s = Some s'" for s m a s'
    using v1_sim that by (cases a) blast
qed (simp add: dq_rel_def dq_start_def mcs_start_def)

interpretation v2: simulation mcs_start mcs_step mcs_inv "dq_start V2Idle" v2_step v2_rel
proof unfold_locales
  show "\<exists>bs. v2_rel s' (run mcs_step bs m)" if "v2_rel s m" "mcs_inv m" "v2_step a s = Some s'" for s m a s'
    using v2_sim that by (cases a) blast
qed (simp add: dq_rel_def dq_start_def mcs_start_def)

lemma refines_excl:
  assumes "\<exists>as. dq_rel ab unset new ow s (run mcs_step as mcs_start)"
  shows "card {t. ab (dq_pc s t) = McCritical} \<le> 1"
proof -
  obtain as where "dq_rel ab unset new ow s (run mcs_step as mcs_start)" using assms by blast
  then have "\<And>t. mc_pc (run mcs_step as mcs_start) t = ab (dq_pc s t)" by (rule dq_relD(2))
  then show ?thesis using mcs.run_excl [of as] by (intro card_le_1I) metis
qed

text \<open>Both drafts implement \<open>queue_spinlock.hpp\<close>: on every interleaving, spurious failures of the first one's exchange included, the
  state of a draft is a state that \<open>queue_spinlock.hpp\<close> reaches, with the same tail, the same links and ownership of the live guards, and
  every thread at a matching point. So at most one thread is in its critical section or deciding how to release it.\<close>

theorem drafts_refine_queue_spinlock:
  "(let s = run v1_step sched1 (dq_start V1Idle) in (\<exists>as. v1_rel s (run mcs_step as mcs_start)) \<and> card {t. v1_point (dq_pc s t) = McCritical} \<le> 1) \<and>
   (let s = run v2_step sched2 (dq_start V2Idle) in (\<exists>as. v2_rel s (run mcs_step as mcs_start)) \<and> card {t. v2_point (dq_pc s t) = McCritical} \<le> 1)"
  unfolding Let_def by (intro conjI v1.sim_run v2.sim_run refines_excl [OF v1.sim_run] refines_excl [OF v2.sim_run])

end
