(* ===== verification/StealDraft.thy ===== *)
theory StealDraft
  imports Prelude
begin

section \<open>The draft of the work-stealing queue\<close>

text \<open>
  \<open>lockfree/steal/work_stealing_queue-wrong-and-verbose.hpp\<close>, one call at a time: its test for a full ring compares the
  wrong position, so that the queue refuses a second element whatever its capacity. Positions stay below the size of the ring,
  so their sums do not wrap for any capacity that fits in memory.
\<close>

record 'a draft =
  dr_head :: nat
  dr_tail :: nat
  dr_buffer :: "'a list"

definition draft_start :: "'a list \<Rightarrow> 'a draft" where
  "draft_start slots = \<lparr>dr_head = 0, dr_tail = 0, dr_buffer = slots\<rparr>"

definition Dr_ToIndex :: "nat \<Rightarrow> nat \<Rightarrow> nat" where
  "Dr_ToIndex Capacity pos = pos mod (Capacity + 1)"

definition Dr_Increment :: "nat \<Rightarrow> nat \<Rightarrow> nat" where
  "Dr_Increment Capacity value = Dr_ToIndex Capacity (value + 1)"

definition Dr_IsEmpty :: "'a draft \<Rightarrow> bool" where
  "Dr_IsEmpty s \<longleftrightarrow> dr_head s = dr_tail s"

definition Dr_IsFull :: "nat \<Rightarrow> 'a draft \<Rightarrow> bool" where
  "Dr_IsFull Capacity s \<longleftrightarrow> Dr_Increment Capacity (dr_tail s + Capacity - 1) = dr_head s"

definition Dr_CountElements :: "nat \<Rightarrow> 'a draft \<Rightarrow> nat" where
  "Dr_CountElements Capacity s = (if dr_tail s \<ge> dr_head s then dr_tail s - dr_head s else Capacity + 1 - (dr_head s - dr_tail s))"

definition Dr_TryPush :: "nat \<Rightarrow> 'a \<Rightarrow> 'a draft \<Rightarrow> bool \<times> 'a draft" where
  "Dr_TryPush Capacity item s = (if Dr_IsFull Capacity s then (False, s)
     else (True, s\<lparr>dr_buffer := (dr_buffer s)[dr_tail s := item], dr_tail := Dr_Increment Capacity (dr_tail s)\<rparr>))"

definition Dr_TryPop :: "nat \<Rightarrow> 'a draft \<Rightarrow> 'a option \<times> 'a draft" where
  "Dr_TryPop Capacity s = (if Dr_IsEmpty s then (None, s)
     else (Some (dr_buffer s ! dr_head s), s\<lparr>dr_head := Dr_Increment Capacity (dr_head s)\<rparr>))"

definition Dr_Grab :: "nat \<Rightarrow> nat \<Rightarrow> 'a draft \<Rightarrow> 'a list \<times> 'a draft" where
  "Dr_Grab Capacity out_size s = (let size = Dr_CountElements Capacity s; to_grab = (if out_size < size then out_size else size) in
     if size = 0 then ([], s)
     else (map (\<lambda>i. dr_buffer s ! Dr_ToIndex Capacity (dr_head s + i)) [0..<to_grab], s\<lparr>dr_head := Dr_ToIndex Capacity (dr_head s + to_grab)\<rparr>))"

datatype 'a dr_op = DrPush 'a | DrPop | DrGrab nat

datatype 'a dr_result = DrPushed bool | DrPopped "'a option" | DrGrabbed "'a list"

fun dr_call :: "nat \<Rightarrow> 'a dr_op \<Rightarrow> 'a draft \<Rightarrow> 'a dr_result \<times> 'a draft" where
  "dr_call C (DrPush x) s = (case Dr_TryPush C x s of (b, s') \<Rightarrow> (DrPushed b, s'))"
| "dr_call C DrPop s = (case Dr_TryPop C s of (r, s') \<Rightarrow> (DrPopped r, s'))"
| "dr_call C (DrGrab k) s = (case Dr_Grab C k s of (r, s') \<Rightarrow> (DrGrabbed r, s'))"

text \<open>What it amounts to: a cell for one element.\<close>

fun one_call :: "'a dr_op \<Rightarrow> 'a option \<Rightarrow> 'a dr_result \<times> 'a option" where
  "one_call (DrPush x) c = (if c = None then (DrPushed True, Some x) else (DrPushed False, c))"
| "one_call DrPop c = (DrPopped c, None)"
| "one_call (DrGrab k) c = (case c of None \<Rightarrow> (DrGrabbed [], None) | Some x \<Rightarrow> if k = 0 then (DrGrabbed [], c) else (DrGrabbed [x], None))"

fun results :: "('o \<Rightarrow> 's \<Rightarrow> 'r \<times> 's) \<Rightarrow> 'o list \<Rightarrow> 's \<Rightarrow> 'r list" where
  "results call [] s = []"
| "results call (a # as) s = (case call a s of (r, s') \<Rightarrow> r # results call as s')"

subsection \<open>Refinement\<close>

definition dr_abs :: "'a draft \<Rightarrow> 'a option" where
  "dr_abs s = (if dr_head s = dr_tail s then None else Some (dr_buffer s ! dr_head s))"

definition dr_ok :: "nat \<Rightarrow> 'a draft \<Rightarrow> bool" where
  "dr_ok C s \<longleftrightarrow> length (dr_buffer s) = C + 1 \<and> dr_head s \<le> C \<and> (dr_tail s = dr_head s \<or> dr_tail s = Dr_Increment C (dr_head s))"

lemma Increment_cases: "h \<le> C \<Longrightarrow> Dr_Increment C h = (if h = C then 0 else h + 1)"
  by (simp add: Dr_Increment_def Dr_ToIndex_def)

lemma full_cases:
  assumes "0 < C" and "t \<le> C"
  shows "Dr_Increment C (t + C - 1) = (if t = 0 then C else t - 1)"
proof -
  have m: "(t + C) mod (C + 1) = (if t = 0 then C else t - 1)"
  proof (cases t)
    case (Suc k)
    then have e: "t + C = k + (C + 1)" by simp
    have "k < C + 1" using Suc assms(2) by simp
    then have "(k + (C + 1)) mod (C + 1) = k" by (simp only: mod_add_self2 mod_less)
    then show ?thesis unfolding e using Suc by simp
  qed simp
  have "t + C - 1 + 1 = t + C" using assms by simp
  then show ?thesis unfolding Dr_Increment_def Dr_ToIndex_def by (simp only: m)
qed

lemma dr_ok_cases:
  assumes "dr_ok C s"
  obtains "dr_tail s = dr_head s" "dr_head s \<le> C"
  | "dr_head s < C" "dr_tail s = dr_head s + 1"
  | "dr_head s = C" "dr_tail s = 0"
  using assms Increment_cases [of "dr_head s" C] by (fastforce simp: dr_ok_def split: if_splits)

lemma dr_full:
  assumes "0 < C" and "dr_ok C s"
  shows "Dr_IsFull C s \<longleftrightarrow> dr_head s \<noteq> dr_tail s"
proof -
  have "dr_tail s \<le> C" using assms(2) by (rule dr_ok_cases) simp_all
  then have f: "Dr_IsFull C s \<longleftrightarrow> (if dr_tail s = 0 then C else dr_tail s - 1) = dr_head s"
    unfolding Dr_IsFull_def by (simp only: full_cases [OF assms(1)])
  show ?thesis unfolding f using assms(2) by (rule dr_ok_cases) (use assms(1) in auto)
qed

lemma dr_count:
  assumes "0 < C" and "dr_ok C s"
  shows "Dr_CountElements C s = (if dr_head s = dr_tail s then 0 else 1)"
  using assms(2) by (rule dr_ok_cases) (use assms(1) in \<open>auto simp: Dr_CountElements_def\<close>)

lemma dr_refines:
  assumes "0 < C" and "dr_ok C s" and "dr_call C a s = (r, s')"
  shows "one_call a (dr_abs s) = (r, dr_abs s')" and "dr_ok C s'"
proof -
  have I: "dr_head s \<le> C" "length (dr_buffer s) = C + 1" using assms(2) by (simp_all add: dr_ok_def)
  note inc = Increment_cases [OF I(1)]
  have ix: "Dr_ToIndex C (dr_head s) = dr_head s" using I by (simp add: Dr_ToIndex_def)
  have "one_call a (dr_abs s) = (r, dr_abs s') \<and> dr_ok C s'"
  proof (cases a)
    case (DrPush x)
    then show ?thesis using assms dr_full [OF assms(1, 2)] inc I
      by (auto simp: Dr_TryPush_def dr_abs_def dr_ok_def split: if_splits)
  next
    case DrPop
    then show ?thesis using assms inc I
      by (auto simp: Dr_TryPop_def Dr_IsEmpty_def dr_abs_def dr_ok_def split: if_splits)
  next
    case (DrGrab k)
    have "Dr_ToIndex C (dr_head s + 1) = Dr_Increment C (dr_head s)" by (simp add: Dr_Increment_def)
    then show ?thesis using DrGrab assms dr_count [OF assms(1, 2)] inc I ix
      by (cases k) (auto simp: Dr_Grab_def Let_def dr_abs_def dr_ok_def split: if_splits)
  qed
  then show "one_call a (dr_abs s) = (r, dr_abs s')" and "dr_ok C s'" by blast+
qed

text \<open>With any capacity of at least 1, the draft's results are those of a cell for one element, for any sequence of TryPush, TryPop
  and Grab: the second of two pushes is refused.\<close>

theorem steal_draft_holds_one:
  assumes "0 < Capacity" and "length slots = Capacity + 1"
  shows "results (dr_call Capacity) ops (draft_start slots) = results one_call ops None"
proof -
  have "dr_ok Capacity s \<Longrightarrow> results (dr_call Capacity) ops s = results one_call ops (dr_abs s)" for s
  proof (induction ops arbitrary: s)
    case (Cons a ops)
    obtain r s' where c: "dr_call Capacity a s = (r, s')" by fastforce
    then show ?case using dr_refines [OF assms(1) Cons.prems c] Cons.IH by simp
  qed simp
  moreover have "dr_ok Capacity (draft_start slots)" and "dr_abs (draft_start slots) = None"
    using assms(2) by (simp_all add: dr_ok_def dr_abs_def draft_start_def)
  ultimately show ?thesis by metis
qed

lemma steal_draft_holds_one_witness:
  "results (dr_call 7) [DrPush (1::nat), DrPush 2, DrPop, DrPop] (draft_start (replicate 8 0))
     = [DrPushed True, DrPushed False, DrPopped (Some 1), DrPopped None]"
  using steal_draft_holds_one [of 7 "replicate 8 0" "[DrPush (1::nat), DrPush 2, DrPop, DrPop]"] by simp

end
