(* ===== verification/FiberMutexDraft.thy ===== *)
theory FiberMutexDraft
  imports FiberMutex
begin

section \<open>Earlier draft of the mutex for fibers\<close>

text \<open>
  \<open>fibers/mutex/exe/fibers/sync/mutex-verbose.hpp\<close>, step by step as in \<open>FiberMutex\<close>, and the proof that it implements
  \<open>mutex.hpp\<close>. Lock tries the compare-exchange before the load; Unlock takes \<open>mtx_\<close> before its compare-exchange, releases it
  after \<open>Take\<close>, and takes it again to store the status, so another fiber can enqueue itself in between.
\<close>

datatype dm_pc =
    DmIdle | DmTry | DmSpin | DmCas | DmLoad | DmPut | DmUnlockParked | DmUnlockRetry | DmParked | DmReady | DmHold
  | DuSpin | DuCas | DuRelease
  | DuTake | DuTaken "nat option"   \<comment> \<open>with \<open>fiber_opt\<close>\<close>
  | DuEmpty                         \<comment> \<open>\<open>Unexpectedly empty queue\<close>\<close>
  | DuSpin2 nat | DuStore nat | DuUnlock nat | DuSched nat     \<comment> \<open>with \<open>woken_fiber\<close>\<close>

record dm_state =
  dm_st :: fm_status
  dm_park_q :: "nat list"
  dm_mtx :: "nat option"
  dm_pc :: "nat \<Rightarrow> dm_pc"
  dm_depth :: "nat \<Rightarrow> nat"
  dm_fault :: bool

definition dm_construct :: dm_state where
  "dm_construct = \<lparr>dm_st = StNone, dm_park_q = [], dm_mtx = None, dm_pc = (\<lambda>_. DmIdle), dm_depth = (\<lambda>_. 1), dm_fault = False\<rparr>"

definition dm_go :: "nat \<Rightarrow> dm_pc \<Rightarrow> dm_state \<Rightarrow> dm_state" where
  "dm_go f p s = s\<lparr>dm_pc := (dm_pc s)(f := p)\<rparr>"

definition dm_Run :: "nat \<Rightarrow> dm_pc \<Rightarrow> dm_state \<Rightarrow> dm_state" where
  "dm_Run f p s = dm_go f p (s\<lparr>dm_depth := (dm_depth s)(f := Suc (dm_depth s f))\<rparr>)"

definition dm_mtx_Lock :: "nat \<Rightarrow> dm_pc \<Rightarrow> dm_state \<Rightarrow> dm_state option" where
  "dm_mtx_Lock f p s = (if dm_mtx s = None then Some (dm_go f p (s\<lparr>dm_mtx := Some f\<rparr>)) else None)"

subsection \<open>Lock\<close>

definition DmLock_cas :: "nat \<Rightarrow> dm_state \<Rightarrow> dm_state" where
  "DmLock_cas f s = (if dm_st s = StNone then dm_Run f DmHold (s\<lparr>dm_st := LockedNoWaiter\<rparr>) else dm_go f DmSpin s)"

definition DmLock_cas_waiters :: "nat \<Rightarrow> dm_state \<Rightarrow> dm_state" where
  "DmLock_cas_waiters f s = (if dm_st s = LockedNoWaiter then dm_go f DmPut (s\<lparr>dm_st := LockedWithWaiters\<rparr>) else dm_go f DmLoad s)"

definition DmLock_load :: "nat \<Rightarrow> dm_state \<Rightarrow> dm_state" where
  "DmLock_load f s = dm_go f (if dm_st s = LockedWithWaiters then DmPut else DmUnlockRetry) s"

definition DmLock_put :: "nat \<Rightarrow> dm_state \<Rightarrow> dm_state" where
  "DmLock_put f s = dm_go f DmUnlockParked (s\<lparr>dm_park_q := dm_park_q s @ [f]\<rparr>)"

subsection \<open>Unlock\<close>

definition DmUnlock_cas :: "nat \<Rightarrow> dm_state \<Rightarrow> dm_state" where
  "DmUnlock_cas f s = (if dm_st s = LockedNoWaiter then dm_go f DuRelease (s\<lparr>dm_st := StNone\<rparr>) else dm_go f DuTake s)"

text \<open>\<open>mtx_.Unlock(); fiber->Run();\<close>\<close>

definition DmUnlock_release :: "nat \<Rightarrow> dm_state \<Rightarrow> dm_state" where
  "DmUnlock_release f s = dm_Run f DmIdle (s\<lparr>dm_mtx := None\<rparr>)"

definition DmUnlock_take :: "nat \<Rightarrow> dm_state \<Rightarrow> dm_state" where
  "DmUnlock_take f s = (case dm_park_q s of [] \<Rightarrow> dm_go f (DuTaken None) s
     | g # q \<Rightarrow> dm_go f (DuTaken (Some g)) (s\<lparr>dm_park_q := q\<rparr>))"

definition DmUnlock_taken :: "nat \<Rightarrow> nat option \<Rightarrow> dm_state \<Rightarrow> dm_state" where
  "DmUnlock_taken f fiber_opt s = dm_go f (case fiber_opt of None \<Rightarrow> DuEmpty | Some g \<Rightarrow> DuSpin2 g) (s\<lparr>dm_mtx := None\<rparr>)"

definition DmUnlock_empty :: "nat \<Rightarrow> dm_state \<Rightarrow> dm_state" where
  "DmUnlock_empty f s = dm_Run f DmIdle (s\<lparr>dm_st := StNone\<rparr>)"

definition DmUnlock_store :: "nat \<Rightarrow> nat \<Rightarrow> dm_state \<Rightarrow> dm_state" where
  "DmUnlock_store f g s = dm_go f (DuUnlock g) (s\<lparr>dm_st := (if dm_park_q s = [] then LockedNoWaiter else LockedWithWaiters)\<rparr>)"

definition DmUnlock_schedule :: "nat \<Rightarrow> nat \<Rightarrow> dm_state \<Rightarrow> dm_state" where
  "DmUnlock_schedule f g s = (if dm_pc s g = DmParked then dm_Run f DmIdle (dm_go g DmReady s) else s\<lparr>dm_fault := True\<rparr>)"

fun dm_fiber :: "nat \<Rightarrow> dm_pc \<Rightarrow> dm_state \<Rightarrow> dm_state option" where
  "dm_fiber f DmTry s = Some (DmLock_cas f s)"
| "dm_fiber f DmSpin s = dm_mtx_Lock f DmCas s"
| "dm_fiber f DmCas s = Some (DmLock_cas_waiters f s)"
| "dm_fiber f DmLoad s = Some (DmLock_load f s)"
| "dm_fiber f DmPut s = Some (DmLock_put f s)"
| "dm_fiber f DmUnlockParked s = Some (dm_go f DmParked (s\<lparr>dm_mtx := None\<rparr>))"
| "dm_fiber f DmUnlockRetry s = Some (dm_go f DmTry (s\<lparr>dm_mtx := None\<rparr>))"
| "dm_fiber f DmReady s = Some (dm_go f DmHold (s\<lparr>dm_depth := (dm_depth s)(f := 1)\<rparr>))"
| "dm_fiber f DuSpin s = dm_mtx_Lock f DuCas s"
| "dm_fiber f DuCas s = Some (DmUnlock_cas f s)"
| "dm_fiber f DuRelease s = Some (DmUnlock_release f s)"
| "dm_fiber f DuTake s = Some (DmUnlock_take f s)"
| "dm_fiber f (DuTaken r) s = Some (DmUnlock_taken f r s)"
| "dm_fiber f DuEmpty s = Some (DmUnlock_empty f s)"
| "dm_fiber f (DuSpin2 g) s = dm_mtx_Lock f (DuStore g) s"
| "dm_fiber f (DuStore g) s = Some (DmUnlock_store f g s)"
| "dm_fiber f (DuUnlock g) s = Some (dm_go f (DuSched g) (s\<lparr>dm_mtx := None\<rparr>))"
| "dm_fiber f (DuSched g) s = Some (DmUnlock_schedule f g s)"
| "dm_fiber f _ s = None"

fun dm_step :: "nat \<Rightarrow> fm_act \<Rightarrow> dm_state \<Rightarrow> dm_state option" where
  "dm_step n (FmCallLock f) s = (if f < n \<and> dm_pc s f = DmIdle then Some (dm_go f DmTry s) else None)"
| "dm_step n (FmCallUnlock f) s = (if f < n \<and> dm_pc s f = DmHold then Some (dm_go f DuSpin s) else None)"
| "dm_step n (FmFiber f) s = (if f < n then dm_fiber f (dm_pc s f) s else None)"

lemmas dm_ops = dm_go_def dm_Run_def dm_mtx_Lock_def DmLock_cas_def DmLock_cas_waiters_def DmLock_load_def DmLock_put_def
  DmUnlock_cas_def DmUnlock_release_def DmUnlock_take_def DmUnlock_taken_def DmUnlock_empty_def DmUnlock_store_def
  DmUnlock_schedule_def

subsection \<open>Refinement\<close>

text \<open>The program point of \<open>mutex.hpp\<close> that a point of the draft stands for. \<open>mtx_\<close> counts as held there only from Lock's first
  test to its release, and from Unlock's store to its release: the draft's earlier \<open>Take\<close> happens with the store.\<close>

fun dm_point :: "fm_status \<Rightarrow> dm_pc \<Rightarrow> fm_pc" where
  "dm_point st DmIdle = FmIdle" | "dm_point st DmTry = FmTry" | "dm_point st DmSpin = FmSpin" | "dm_point st DmCas = FmLoad"
| "dm_point st DmLoad = (if st = LockedWithWaiters then FmPut else FmUnlockRetry)"
| "dm_point st DmPut = FmPut" | "dm_point st DmUnlockParked = FmUnlockParked" | "dm_point st DmUnlockRetry = FmUnlockRetry"
| "dm_point st DmParked = FmParked" | "dm_point st DmReady = FmReady" | "dm_point st DmHold = FmHold"
| "dm_point st DuSpin = FuCas" | "dm_point st DuCas = FuCas" | "dm_point st DuRelease = FmIdle"
| "dm_point st DuTake = FuSpin" | "dm_point st (DuTaken r) = FuSpin" | "dm_point st DuEmpty = FuSpin" | "dm_point st (DuSpin2 g) = FuSpin"
| "dm_point st (DuStore g) = FuStore g" | "dm_point st (DuUnlock g) = FuUnlock g" | "dm_point st (DuSched g) = FuSched g"

fun dm_locked :: "dm_pc \<Rightarrow> bool" where
  "dm_locked DmCas = True" | "dm_locked DmLoad = True" | "dm_locked DmPut = True" | "dm_locked DmUnlockParked = True"
| "dm_locked DmUnlockRetry = True" | "dm_locked DuCas = True" | "dm_locked DuRelease = True" | "dm_locked DuTake = True"
| "dm_locked (DuTaken r) = True" | "dm_locked (DuStore g) = True" | "dm_locked (DuUnlock g) = True" | "dm_locked _ = False"

fun dm_pending :: "dm_pc \<Rightarrow> nat option" where
  "dm_pending (DuTaken r) = r" | "dm_pending (DuSpin2 g) = Some g" | "dm_pending _ = None"

definition dm_rel :: "dm_state \<Rightarrow> fm_state \<Rightarrow> bool" where
  "dm_rel s m = (fm_st m = dm_st s \<and> \<not> dm_fault s \<and>
     (\<forall>f. fm_pc m f = dm_point (dm_st s) (dm_pc s f)) \<and>
     (\<forall>f. dm_mtx s = Some f \<longleftrightarrow> dm_locked (dm_pc s f)) \<and>
     (\<forall>f. run_depth m f = dm_depth s f + of_bool (dm_pc s f = DuRelease)) \<and>
     (\<forall>f g. dm_pending (dm_pc s f) = Some g \<longrightarrow> park_q m = g # dm_park_q s) \<and>
     ((\<forall>f. dm_pending (dm_pc s f) = None) \<longrightarrow> park_q m = dm_park_q s) \<and>
     (\<forall>f. dm_pc s f \<noteq> DuEmpty \<and> dm_pc s f \<noteq> DuTaken None))"

lemma dm_relI:
  assumes "fm_st m = dm_st s" and "\<not> dm_fault s" and "\<And>f. fm_pc m f = dm_point (dm_st s) (dm_pc s f)"
    and "\<And>f. dm_mtx s = Some f \<longleftrightarrow> dm_locked (dm_pc s f)"
    and "\<And>f. run_depth m f = dm_depth s f + of_bool (dm_pc s f = DuRelease)"
    and "\<And>f g. dm_pending (dm_pc s f) = Some g \<Longrightarrow> park_q m = g # dm_park_q s"
    and "(\<forall>f. dm_pending (dm_pc s f) = None) \<Longrightarrow> park_q m = dm_park_q s"
    and "\<And>f. dm_pc s f \<noteq> DuEmpty \<and> dm_pc s f \<noteq> DuTaken None"
  shows "dm_rel s m"
  using assms unfolding dm_rel_def by blast

lemma dm_relD:
  assumes "dm_rel s m"
  shows "fm_st m = dm_st s" and "\<not> dm_fault s" and "\<And>f. fm_pc m f = dm_point (dm_st s) (dm_pc s f)"
    and "\<And>f. dm_mtx s = Some f \<longleftrightarrow> dm_locked (dm_pc s f)"
    and "\<And>f. run_depth m f = dm_depth s f + of_bool (dm_pc s f = DuRelease)"
    and "\<And>f g. dm_pending (dm_pc s f) = Some g \<Longrightarrow> park_q m = g # dm_park_q s"
    and "(\<forall>f. dm_pending (dm_pc s f) = None) \<Longrightarrow> park_q m = dm_park_q s"
    and "\<And>f. dm_pc s f \<noteq> DuEmpty \<and> dm_pc s f \<noteq> DuTaken None"
  using assms unfolding dm_rel_def by blast+

lemma dm_pending_owner: "dm_pending p \<noteq> None \<Longrightarrow> fm_owns (dm_point st p)"
  by (cases p) auto

lemma dm_pending_none:
  assumes rel: "dm_rel s m" and i: "fm_inv n m" and "fm_owns (fm_pc m f)" and "g \<noteq> f"
  shows "dm_pending (dm_pc s g) = None"
proof -
  have "\<not> fm_owns (dm_point (dm_st s) (dm_pc s g))" using fm_others(1) [OF i assms(4,3)] rel by (simp add: dm_rel_def)
  then show ?thesis using dm_pending_owner by blast
qed

lemma dm_locked_point: "fm_locked (dm_point st p) \<Longrightarrow> dm_locked p"
  by (cases p) (auto split: if_splits)

text \<open>The spinlock of \<open>mutex.hpp\<close> is free whenever the draft's is, and whenever the draft's holder does not count.\<close>

lemma dm_mtx_free:
  assumes rel: "dm_rel s m" and i: "fm_inv n m"
    and "dm_mtx s = None \<or> (\<exists>f. dm_mtx s = Some f \<and> \<not> fm_locked (dm_point (dm_st s) (dm_pc s f)))"
  shows "fm_mtx m = None"
proof (cases "fm_mtx m")
  case (Some g)
  then have "fm_locked (dm_point (dm_st s) (dm_pc s g))" using fm_invD(2) [OF i, of g] dm_relD(3) [OF rel] by simp
  with dm_locked_point have "dm_mtx s = Some g" using dm_relD(4) [OF rel] by blast
  with assms(3) \<open>fm_locked _\<close> show ?thesis by auto
qed

text \<open>A fiber moves: what is left to show of the relation.\<close>

lemma dm_move:
  assumes rel: "dm_rel s m" and "fm_pc m' = (fm_pc m)(f := dm_point (dm_st s') p)" and "dm_pc s' = (dm_pc s)(f := p)"
    and "fm_st m' = dm_st s'" and "\<not> dm_fault s'"
    and "\<And>g. g \<noteq> f \<Longrightarrow> dm_pc s g = DmLoad \<Longrightarrow> (dm_st s' = LockedWithWaiters) = (dm_st s = LockedWithWaiters)"
    and "\<And>g. dm_mtx s' = Some g \<longleftrightarrow> dm_locked (((dm_pc s)(f := p)) g)"
    and "\<And>g. run_depth m' g = dm_depth s' g + of_bool (((dm_pc s)(f := p)) g = DuRelease)"
    and "\<And>g h. dm_pending (((dm_pc s)(f := p)) g) = Some h \<Longrightarrow> park_q m' = h # dm_park_q s'"
    and "(\<forall>g. dm_pending (((dm_pc s)(f := p)) g) = None) \<Longrightarrow> park_q m' = dm_park_q s'"
    and "p \<noteq> DuEmpty \<and> p \<noteq> DuTaken None"
  shows "dm_rel s' m'"
proof (rule dm_relI)
  fix g
  show "fm_pc m' g = dm_point (dm_st s') (dm_pc s' g)"
  proof (cases "g = f")
    case False
    have "dm_point (dm_st s') (dm_pc s g) = dm_point (dm_st s) (dm_pc s g)"
      using assms(6) [OF False] by (cases "dm_pc s g") auto
    then show ?thesis using assms(2,3) dm_relD(3) [OF rel] False by simp
  qed (simp add: assms(2,3))
  show "dm_pc s' g \<noteq> DuEmpty \<and> dm_pc s' g \<noteq> DuTaken None"
    using assms(3,11) dm_relD(8) [OF rel, of g] by simp
qed (use assms(4,5) in simp, use assms(5) in simp, use assms(3,7) in simp, use assms(3,8) in simp,
   use assms(3,9) in simp, use assms(3,10) in simp)

text \<open>What becomes of \<open>mtx_\<close>.\<close>

lemma dm_mtx_cases:
  assumes rel: "dm_rel s m"
    and "dm_mtx s' = dm_mtx s \<and> dm_locked p = dm_locked (dm_pc s f) \<or> dm_mtx s = None \<and> dm_mtx s' = Some f \<and> dm_locked p \<or>
      dm_locked (dm_pc s f) \<and> dm_mtx s' = None \<and> \<not> dm_locked p"
  shows "dm_mtx s' = Some g \<longleftrightarrow> dm_locked (((dm_pc s)(f := p)) g)"
  using assms(2) dm_relD(4) [OF rel, of g] dm_relD(4) [OF rel, of f] by (cases "g = f") auto

lemma dm_keep:
  assumes rel: "dm_rel s m" and "fm_pc m' = (fm_pc m)(f := dm_point (dm_st s') p)" and "dm_pc s' = (dm_pc s)(f := p)"
    and "fm_st m' = dm_st s'" and "\<not> dm_fault s'"
    and "\<And>g. g \<noteq> f \<Longrightarrow> dm_pc s g = DmLoad \<Longrightarrow> (dm_st s' = LockedWithWaiters) = (dm_st s = LockedWithWaiters)"
    and "dm_mtx s' = dm_mtx s \<and> dm_locked p = dm_locked (dm_pc s f) \<or> dm_mtx s = None \<and> dm_mtx s' = Some f \<and> dm_locked p \<or>
      dm_locked (dm_pc s f) \<and> dm_mtx s' = None \<and> \<not> dm_locked p"
    and "\<And>g. run_depth m' g = dm_depth s' g + of_bool (((dm_pc s)(f := p)) g = DuRelease)"
    and "park_q m' = park_q m @ xs" and "dm_park_q s' = dm_park_q s @ xs" and "dm_pending p = dm_pending (dm_pc s f)"
    and "p \<noteq> DuEmpty \<and> p \<noteq> DuTaken None"
  shows "dm_rel s' m'"
proof (rule dm_move [OF rel assms(2-6) dm_mtx_cases [OF rel assms(7)] assms(8) _ _ assms(12)], goal_cases)
  case (3 g h)
  then have "dm_pending (dm_pc s g) = Some h" using assms(11) by (cases "g = f") auto
  then show ?case using dm_relD(6) [OF rel] assms(9,10) by simp
next
  case 4
  then have "\<forall>g. dm_pending (dm_pc s g) = None" using assms(11) by (metis fun_upd_apply)
  then show ?case using dm_relD(7) [OF rel] assms(9,10) by simp
qed

lemmas dm_ops_all = dm_ops fm_ops stutter_def

text \<open>Lock.\<close>

lemma dm_sim_try:
  assumes rel: "dm_rel s m" and f: "f < n" and p: "dm_pc s f = DmTry"
  shows "dm_rel (DmLock_cas f s) (run (fm_step n) [FmFiber f] m)"
proof -
  note D = dm_relD [OF rel]
  have P: "fm_pc m f = FmTry" using D(3) [of f] p by simp
  show ?thesis
    by (rule dm_keep [OF rel, of _ f _ "if dm_st s = StNone then DmHold else DmSpin"])
      (use f p P D(1,2,5) in \<open>auto simp: dm_ops_all\<close>)
qed

lemma dm_sim_spin:
  assumes rel: "dm_rel s m" and i: "fm_inv n m" and f: "f < n" and p: "dm_pc s f = DmSpin" and st: "dm_mtx_Lock f DmCas s = Some s'"
  shows "dm_rel s' (run (fm_step n) [FmFiber f] m)"
proof -
  note D = dm_relD [OF rel]
  have P: "fm_pc m f = FmSpin" using D(3) [of f] p by simp
  have l: "dm_mtx s = None" and s': "s' = dm_go f DmCas (s\<lparr>dm_mtx := Some f\<rparr>)"
    using st by (auto simp: dm_mtx_Lock_def split: if_splits)
  have m: "fm_mtx m = None" by (rule dm_mtx_free [OF rel i]) (simp add: l)
  show ?thesis unfolding s'
    by (rule dm_keep [OF rel, of _ f _ DmCas]) (use f p P l m D(1,2,5) in \<open>auto simp: dm_ops_all\<close>)
qed

lemma dm_sim_cas:
  assumes rel: "dm_rel s m" and f: "f < n" and p: "dm_pc s f = DmCas"
  shows "dm_rel (DmLock_cas_waiters f s) (run (fm_step n) (if dm_st s = LockedWithWaiters then [FmFiber f] else [FmFiber f, FmFiber f]) m)"
proof -
  note D = dm_relD [OF rel]
  have P: "fm_pc m f = FmLoad" using D(3) [of f] p by simp
  have h: "g \<noteq> f \<Longrightarrow> dm_pc s g \<noteq> DmLoad" for g using D(4) [of f] D(4) [of g] p by auto
  show ?thesis
    by (rule dm_keep [OF rel, of _ f _ "if dm_st s = LockedNoWaiter then DmPut else DmLoad"])
      (use f p P h D(1,2,5) in \<open>auto simp: dm_ops_all\<close>)
qed

lemma dm_sim_put:
  assumes rel: "dm_rel s m" and f: "f < n" and p: "dm_pc s f = DmPut"
  shows "dm_rel (DmLock_put f s) (run (fm_step n) [FmFiber f] m)"
proof -
  note D = dm_relD [OF rel]
  have P: "fm_pc m f = FmPut" using D(3) [of f] p by simp
  show ?thesis
    by (rule dm_keep [OF rel, of _ f _ DmUnlockParked]) (use f p P D(1,2,5) in \<open>auto simp: dm_ops_all\<close>)
qed

text \<open>A step in which only the program points and \<open>mtx_\<close> change, matched by no step or by one step.\<close>

lemma dm_sim_none:
  assumes rel: "dm_rel s m" and "fm_pc m f = dm_point (dm_st s) p" and "dm_pending p = dm_pending (dm_pc s f)"
    and "p \<noteq> DuEmpty \<and> p \<noteq> DuTaken None" and "(p = DuRelease) = (dm_pc s f = DuRelease)"
    and "x = dm_mtx s \<and> dm_locked p = dm_locked (dm_pc s f) \<or> dm_mtx s = None \<and> x = Some f \<and> dm_locked p \<or>
      dm_locked (dm_pc s f) \<and> x = None \<and> \<not> dm_locked p"
  shows "dm_rel (dm_go f p (s\<lparr>dm_mtx := x\<rparr>)) m"
proof -
  note D = dm_relD [OF rel]
  have "fm_pc m = (fm_pc m)(f := dm_point (dm_st s) p)" using assms(2) by auto
  then show ?thesis
    by (intro dm_keep [OF rel, of _ f _ p]) (use assms(3-6) D(1,2,5) in \<open>auto simp: dm_go_def\<close>)
qed

lemma dm_sim_release:
  assumes rel: "dm_rel s m" and f: "f < n" and "fm_fiber f (fm_pc m f) m = Some (fm_go f q (m\<lparr>fm_mtx := None\<rparr>))"
    and "q = dm_point (dm_st s) p" and "dm_pending p = dm_pending (dm_pc s f)"
    and "p \<noteq> DuEmpty \<and> p \<noteq> DuTaken None" and "p \<noteq> DuRelease" "dm_pc s f \<noteq> DuRelease"
    and "dm_locked (dm_pc s f)" "\<not> dm_locked p"
  shows "dm_rel (dm_go f p (s\<lparr>dm_mtx := None\<rparr>)) (run (fm_step n) [FmFiber f] m)"
  by (rule dm_keep [OF rel, of _ f _ p]) (use assms(2-) dm_relD(1,2,5) [OF rel] in \<open>auto simp: dm_go_def fm_go_def stutter_def\<close>)

text \<open>Unlock.\<close>

lemma dm_sim_ucas:
  assumes rel: "dm_rel s m" and f: "f < n" and p: "dm_pc s f = DuCas"
  shows "dm_rel (DmUnlock_cas f s) (run (fm_step n) [FmFiber f] m)"
proof -
  note D = dm_relD [OF rel]
  have P: "fm_pc m f = FuCas" using D(3) [of f] p by simp
  show ?thesis
    by (rule dm_keep [OF rel, of _ f _ "if dm_st s = LockedNoWaiter then DuRelease else DuTake"])
      (use f p P D(1,2,5) in \<open>auto simp: dm_ops_all\<close>)
qed

lemma dm_sim_urelease:
  assumes rel: "dm_rel s m" and p: "dm_pc s f = DuRelease"
  shows "dm_rel (DmUnlock_release f s) m"
proof -
  note D = dm_relD [OF rel]
  have P: "fm_pc m = (fm_pc m)(f := FmIdle)" using D(3) [of f] p by auto
  show ?thesis
    by (rule dm_keep [OF rel, of _ f _ DmIdle]) (use p P D(1,2,5) in \<open>auto simp: dm_ops\<close>)
qed

lemma dm_sim_take:
  assumes rel: "dm_rel s m" and i: "fm_inv n m" and p: "dm_pc s f = DuTake"
  shows "dm_rel (DmUnlock_take f s) m"
proof -
  note D = dm_relD [OF rel] and I = fm_invD [OF i]
  have P: "fm_pc m f = FuSpin" using D(3) [of f] p by simp
  have none: "dm_pending (dm_pc s g) = None" for g
    using dm_pending_none [OF rel i, of f g] P p by (cases "g = f") auto
  have lww: "fm_st m = LockedWithWaiters" using I(10) [of f] P by simp
  have ml: "fm_mtx m = None" by (rule dm_mtx_free [OF rel i]) (use D(4) [of f] p in auto)
  then have "\<not> fm_locked (fm_pc m g)" for g using I(2) [of g] by simp
  then have "\<not> (fm_pc m g = FmPut \<or> fm_storing (fm_pc m g))" for g using fm_pc_owner(3) by (metis fm_locked.simps(3))
  then have "park_q m \<noteq> []" using I(9) [OF lww] by blast
  then obtain h q where mq: "park_q m = h # q" by (cases "park_q m") auto
  then have q: "dm_park_q s = h # q" using D(7) none by simp
  have pc: "fm_pc m = (fm_pc m)(f := FuSpin)" using P by auto
  have s': "DmUnlock_take f s = s\<lparr>dm_park_q := q, dm_pc := (dm_pc s)(f := DuTaken (Some h))\<rparr>"
    by (simp add: DmUnlock_take_def dm_go_def q)
  show ?thesis unfolding s'
  proof (rule dm_move [OF rel, of _ f _ "DuTaken (Some h)"], goal_cases)
    case (6 g) show ?case using dm_mtx_cases [OF rel, of s "DuTaken (Some h)" f g] p by simp
  next
    case (8 g k) then show ?case using none mq by (auto split: if_splits)
  next
    case 9 then show ?case by (metis dm_pending.simps(1) fun_upd_same option.distinct(1))
  qed (use pc p D(1,2,5) in auto)
qed

lemma dm_sim_spin2:
  assumes rel: "dm_rel s m" and i: "fm_inv n m" and f: "f < n" and p: "dm_pc s f = DuSpin2 h"
    and st: "dm_mtx_Lock f (DuStore h) s = Some s'"
  shows "dm_rel s' (run (fm_step n) [FmFiber f, FmFiber f] m)"
proof -
  note D = dm_relD [OF rel]
  have P: "fm_pc m f = FuSpin" using D(3) [of f] p by simp
  have l: "dm_mtx s = None" and s': "s' = dm_go f (DuStore h) (s\<lparr>dm_mtx := Some f\<rparr>)"
    using st by (auto simp: dm_mtx_Lock_def split: if_splits)
  have mtx: "fm_mtx m = None" by (rule dm_mtx_free [OF rel i]) (simp add: l)
  have q: "park_q m = h # dm_park_q s" using D(6) [of f h] p by simp
  have none: "dm_pending (dm_pc s g) = None" if "g \<noteq> f" for g using dm_pending_none [OF rel i _ that] P by simp
  have m': "run (fm_step n) [FmFiber f, FmFiber f] m = m\<lparr>park_q := dm_park_q s, fm_mtx := Some f, fm_pc := (fm_pc m)(f := FuStore h)\<rparr>"
    using f P mtx q by (simp add: dm_ops_all)
  show ?thesis unfolding s' m'
  proof (rule dm_move [OF rel, of _ f _ "DuStore h"], goal_cases)
    case (6 g) show ?case using dm_mtx_cases [OF rel, of "s\<lparr>dm_mtx := Some f\<rparr>" "DuStore h" f g] l by (simp add: dm_go_def)
  next
    case (8 g k) then show ?case using none by (auto split: if_splits)
  qed (use p D(1,2,5) in \<open>auto simp: dm_go_def\<close>)
qed

lemma dm_sim_store:
  assumes rel: "dm_rel s m" and i: "fm_inv n m" and f: "f < n" and p: "dm_pc s f = DuStore h"
  shows "dm_rel (DmUnlock_store f h s) (run (fm_step n) [FmFiber f] m)"
proof -
  note D = dm_relD [OF rel]
  have P: "fm_pc m f = FuStore h" using D(3) [of f] p by simp
  have hl: "g \<noteq> f \<Longrightarrow> dm_pc s g \<noteq> DmLoad" for g using D(4) [of f] D(4) [of g] p by auto
  have none: "dm_pending (dm_pc s g) = None" for g
    using dm_pending_none [OF rel i, of f g] P p by (cases "g = f") auto
  then have q: "park_q m = dm_park_q s" using D(7) by simp
  show ?thesis
    by (rule dm_keep [OF rel, of _ f _ "DuUnlock h"]) (use f p P hl q D(1,2,5) in \<open>auto simp: dm_ops_all\<close>)
qed

lemma dm_sim_schedule:
  assumes rel: "dm_rel s m" and i: "fm_inv n m" and f: "f < n" and p: "dm_pc s f = DuSched h"
  shows "dm_rel (DmUnlock_schedule f h s) (run (fm_step n) [FmFiber f] m)"
proof -
  note D = dm_relD [OF rel]
  have P: "fm_pc m f = FuSched h" using D(3) [of f] p by simp
  have h: "fm_pc m h = FmParked" using fm_invD(6) [OF i, of f h] P by simp
  have "dm_pc s h = DmParked" using h D(3) [of h] by (cases "dm_pc s h") (auto split: if_splits)
  moreover have hf: "h \<noteq> f" using h P by auto
  ultimately have s': "DmUnlock_schedule f h s = dm_Run f DmIdle (dm_go h DmReady s)" and hp: "dm_pc s h = DmParked"
    by (simp_all add: DmUnlock_schedule_def)
  have m1: "dm_rel (dm_go h DmReady s) (fm_go h FmReady m)"
    by (rule dm_keep [OF rel, of _ h _ DmReady]) (use hp h D(1,2,5) in \<open>auto simp: dm_ops_all\<close>)
  have "run (fm_step n) [FmFiber f] m = Fiber_Run_nested f FmIdle (fm_go h FmReady m)"
    using f P h by (simp add: stutter_def Unlock_schedule_def)
  then show ?thesis unfolding s'
    by (simp only:) (rule dm_keep [OF m1, of _ f _ DmIdle], use p hp hf D(1,2,5) in \<open>auto simp: dm_ops_all\<close>)
qed

lemma dm_fiber_sim:
  assumes rel: "dm_rel s m" and i: "fm_inv n m" and f: "f < n" and st: "dm_fiber f (dm_pc s f) s = Some s'"
  shows "\<exists>bs. dm_rel s' (run (fm_step n) bs m)"
proof -
  note P = dm_relD(3) [OF rel, of f]
  have sim: ?thesis if "dm_rel s' (run (fm_step n) bs m)" for bs using that by blast
  have sim0: ?thesis if "dm_rel s' m" using sim [of "[]"] that by simp
  show ?thesis
  proof (cases "dm_pc s f")
    case DmTry
    then show ?thesis using st dm_sim_try [OF rel f] by (auto simp del: run.simps)
  next
    case DmSpin
    then show ?thesis using st dm_sim_spin [OF rel i f] by (auto simp del: run.simps)
  next
    case DmCas
    then show ?thesis using st dm_sim_cas [OF rel f] by (auto simp del: run.simps)
  next
    case DmLoad
    then show ?thesis using st P dm_sim_none [OF rel, of f "if dm_st s = LockedWithWaiters then DmPut else DmUnlockRetry" "dm_mtx s"]
      by (intro sim0) (auto simp: DmLock_load_def)
  next
    case DmPut
    then show ?thesis using st dm_sim_put [OF rel f] by (auto simp del: run.simps)
  next
    case DmUnlockParked
    then show ?thesis using st P dm_sim_release [OF rel f, of FmParked DmParked] by (intro sim [of "[FmFiber f]"]) (auto simp: mtx_Unlock_def)
  next
    case DmUnlockRetry
    then show ?thesis using st P dm_sim_release [OF rel f, of FmTry DmTry] by (intro sim [of "[FmFiber f]"]) (auto simp: mtx_Unlock_def)
  next
    case DmReady
    then show ?thesis using st P f dm_relD(1,2,5) [OF rel]
      by (intro sim [of "[FmFiber f]"] dm_keep [OF rel, of _ f _ DmHold]) (auto simp: dm_ops_all)
  next
    case DuSpin
    then show ?thesis using st P dm_sim_none [OF rel, of f DuCas "Some f"] by (intro sim0) (auto simp: dm_mtx_Lock_def split: if_splits)
  next
    case DuCas
    then show ?thesis using st dm_sim_ucas [OF rel f] by (auto simp del: run.simps)
  next
    case DuRelease
    then show ?thesis using st dm_sim_urelease [OF rel] by (intro sim0) auto
  next
    case DuTake
    then show ?thesis using st dm_sim_take [OF rel i] by (intro sim0) auto
  next
    case (DuTaken r)
    then obtain g where "r = Some g" using dm_relD(8) [OF rel, of f] by auto
    then show ?thesis using DuTaken st P dm_sim_none [OF rel, of f "DuSpin2 g" None] by (intro sim0) (auto simp: DmUnlock_taken_def)
  next
    case (DuSpin2 g)
    then show ?thesis using st dm_sim_spin2 [OF rel i f] by (auto simp del: run.simps)
  next
    case (DuStore g)
    then show ?thesis using st dm_sim_store [OF rel i f] by (auto simp del: run.simps)
  next
    case (DuUnlock g)
    have "fm_fiber f (fm_pc m f) m = Some (fm_go f (FuSched g) (m\<lparr>fm_mtx := None\<rparr>))" using DuUnlock P by (simp add: mtx_Unlock_def)
    from dm_sim_release [OF rel f this, of "DuSched g"] show ?thesis using DuUnlock st by (intro sim [of "[FmFiber f]"]) simp
  next
    case (DuSched g)
    then show ?thesis using st dm_sim_schedule [OF rel i f] by (auto simp del: run.simps)
  qed (use st dm_relD(8) [OF rel, of f] in auto)
qed

lemma dm_step_sim:
  assumes rel: "dm_rel s m" and i: "fm_inv n m" and st: "dm_step n a s = Some s'"
  shows "\<exists>bs. dm_rel s' (run (fm_step n) bs m)"
proof (cases a)
  case (FmCallLock f)
  then have s': "s' = dm_go f DmTry s" "f < n" "dm_pc s f = DmIdle" using st by (auto split: if_splits)
  have "dm_rel s' (run (fm_step n) [FmCallLock f] m)" unfolding s'(1)
    by (rule dm_keep [OF rel, of _ f _ DmTry]) (use s' dm_relD(1,2,3,5) [OF rel] in \<open>auto simp: dm_ops_all\<close>)
  then show ?thesis by blast
next
  case (FmCallUnlock f)
  then have s': "s' = dm_go f DuSpin s" "f < n" "dm_pc s f = DmHold" using st by (auto split: if_splits)
  have "dm_rel s' (run (fm_step n) [FmCallUnlock f] m)" unfolding s'(1)
    by (rule dm_keep [OF rel, of _ f _ DuSpin]) (use s' dm_relD(1,2,3,5) [OF rel] in \<open>auto simp: dm_ops_all\<close>)
  then show ?thesis by blast
next
  case (FmFiber f)
  then show ?thesis using st dm_fiber_sim [OF rel i, of f] by (auto split: if_splits)
qed

interpretation mutex_draft: simulation FiberMutex_construct "fm_step n" "fm_inv n" dm_construct "dm_step n" dm_rel for n
  by unfold_locales (simp add: dm_rel_def dm_construct_def FiberMutex_construct_def, rule dm_step_sim)

subsection \<open>Properties\<close>

definition dm_quiet :: "nat \<Rightarrow> dm_state \<Rightarrow> bool" where
  "dm_quiet n s = list_all (\<lambda>f. dm_step n (FmFiber f) s = None \<and> dm_pc s f \<noteq> DmHold) [0..<n]"

lemma dm_fiber_other:
  assumes "dm_fiber f (dm_pc s f) s = Some s'" and "g \<noteq> f"
  shows "dm_pc s' g = dm_pc s g \<or> dm_pc s g = DmParked"
  using assms by (cases "dm_pc s f") (auto simp: dm_ops split: if_splits list.splits)

lemma dm_step_bound:
  assumes i: "dm_pc s g \<noteq> DmIdle \<Longrightarrow> g < n" and st: "dm_step n a s = Some s'" and "dm_pc s' g \<noteq> DmIdle"
  shows "g < n"
proof (cases a)
  case (FmFiber f)
  then show ?thesis using assms dm_fiber_other [of f s s' g] by (cases "g = f") (auto split: if_splits)
qed (use assms in \<open>auto simp: dm_go_def split: if_splits\<close>)

lemma dm_bound: "\<forall>f. dm_pc (run (dm_step n) as dm_construct) f \<noteq> DmIdle \<longrightarrow> f < n"
  by (rule run_keeps [where I = "\<lambda>s. \<forall>f. dm_pc s f \<noteq> DmIdle \<longrightarrow> f < n"])
    (use dm_step_bound in blast, simp add: dm_construct_def)

lemma dm_quiet_idle:
  assumes rel: "dm_rel s m" and i: "fm_inv n m" and b: "\<forall>f. dm_pc s f \<noteq> DmIdle \<longrightarrow> f < n" and q: "dm_quiet n s"
  shows "dm_pc s f = DmIdle"
proof -
  note D = dm_relD [OF rel]
  have st: "dm_fiber g (dm_pc s g) s = None \<and> dm_pc s g \<noteq> DmHold" if "dm_pc s g \<noteq> DmIdle" for g
    using q b that by (auto simp: dm_quiet_def list_all_iff)
  have un: "\<not> dm_locked (dm_pc s g)" for g using st [of g] by (cases "dm_pc s g") (auto simp: dm_mtx_Lock_def)
  then have "dm_mtx s = None" using D(4) by (cases "dm_mtx s") auto
  then have pcs: "dm_pc s g = DmIdle \<or> dm_pc s g = DmParked" for g
    using st [of g] by (cases "dm_pc s g") (auto simp: dm_mtx_Lock_def)
  then have mp: "fm_pc m g = FmIdle \<or> fm_pc m g = FmParked" for g using D(3) [of g] by (metis dm_point.simps(1,9))
  have "fm_fiber g (fm_pc m g) m = None \<and> fm_pc m g \<noteq> FmHold" for g using mp [of g] by auto
  then have "fm_quiet n m" by (simp add: fm_quiet_def list_all_iff)
  from fm_quiet_idle [OF i this, of f] show ?thesis using pcs [of f] D(3) [of f] by auto
qed

text \<open>The draft implements \<open>mutex.hpp\<close>: on every schedule its state corresponds to one that \<open>mutex.hpp\<close> reaches, with the same
  status word and every fiber at a matching point. So at most one fiber is between Lock and Unlock; the queue is never found empty
  unexpectedly and only parked fibers are scheduled; and when nobody holds the mutex and no worker can move, no fiber is left waiting.\<close>

theorem fiber_mutex_draft_correct:
  "let s = run (dm_step n) as dm_construct in
   (\<exists>bs. dm_rel s (run (fm_step n) bs FiberMutex_construct)) \<and> card {f. dm_pc s f = DmHold} \<le> 1 \<and>
   \<not> dm_fault s \<and> (\<forall>f. dm_pc s f \<noteq> DuEmpty) \<and> (\<not> dm_quiet n s \<or> (\<forall>f. dm_pc s f = DmIdle))"
proof -
  define s where "s = run (dm_step n) as dm_construct"
  obtain bs where r: "dm_rel s (run (fm_step n) bs FiberMutex_construct)"
    unfolding s_def using mutex_draft.sim_run by blast
  let ?m = "run (fm_step n) bs FiberMutex_construct"
  note i = fibermutex.inv_run [of n bs]
  have "f = g" if "dm_pc s f = DmHold" and "dm_pc s g = DmHold" for f g
    using fm_invD(3) [OF i, of f g] dm_relD(3) [OF r] that by simp
  moreover note dm_quiet_idle [OF r i dm_bound [of n as, folded s_def]]
  ultimately show ?thesis
    unfolding Let_def s_def [symmetric] using r dm_relD(2,8) [OF r] by (intro conjI card_le_1I) blast+
qed

text \<open>A witness: fiber 1 parks while fiber 0 holds the mutex, fiber 2 parks between the Take and the store of fiber 0's Unlock.\<close>

lemma fiber_mutex_draft_correct_witness:
  "let s = run (dm_step 3) ([FmCallLock 0, FmFiber 0, FmCallLock 1] @ replicate 5 (FmFiber 1) @
       [FmCallLock 2, FmFiber 2, FmCallUnlock 0] @ replicate 4 (FmFiber 0) @ replicate 5 (FmFiber 2) @ replicate 4 (FmFiber 0) @ [FmFiber 1])
       dm_construct
   in dm_pc s 1 = DmHold \<and> dm_pc s 0 \<noteq> DmHold \<and> dm_pc s 2 = DmParked \<and> \<not> dm_fault s"
proof -
  let ?as = "[FmCallLock 0, FmFiber 0, FmCallLock 1] @ replicate 5 (FmFiber 1) @
       [FmCallLock 2, FmFiber 2, FmCallUnlock 0] @ replicate 4 (FmFiber 0) @ replicate 5 (FmFiber 2) @ replicate 4 (FmFiber 0) @ [FmFiber 1]"
  define s where "s = run (dm_step 3) ?as dm_construct"
  have p: "dm_pc s 1 = DmHold \<and> dm_pc s 0 \<noteq> DmHold \<and> dm_pc s 2 = DmParked" unfolding s_def by code_simp
  have "\<not> dm_fault s" using fiber_mutex_draft_correct [of 3 ?as] unfolding Let_def s_def [symmetric] by blast
  with p show ?thesis unfolding Let_def s_def [symmetric] by blast
qed

end
