(* ===== verification/BarrierSteps.thy ===== *)
theory BarrierSteps
  imports Barrier
begin

section \<open>The three versions of CyclicBarrier, access by access\<close>

text \<open>
  \<open>cond/barrier/cyclic_barrier.hpp\<close> and its drafts \<open>-v1\<close> and \<open>-v2\<close> with \<open>mtx_\<close> as a lock and every write of a counter a step of
  its own, so that the tests before the lock can see what a critical section has written so far; and the proof that this amounts to
  \<open>Barrier\<close>, where a critical section is one step. The versions differ in how they increment the counters: \<open>Atomics\<close> by a
  \<open>fetch_add\<close>, the drafts by a read and a write, which \<open>-v2\<close> puts under a mutex more (\<open>InnerMutexes\<close>). The accesses are taken in
  program order: that the drafts' tests before the lock race with the writes is a finding. Several reads under \<open>mtx_\<close>, of what is only
  written under \<open>mtx_\<close>, are one step.
\<close>

datatype bf_version = PlainCounters | InnerMutexes | Atomics

datatype bf_pc =
    BfIdle
  | BfArrivedTest | BfDepartedTest               \<comment> \<open>the test without a lock\<close>
  | BfLimitLock | BfLimitTest | BfLimitSleep | BfLimitUnlock
  | BfLock
  | BfArrMtx | BfArrRead | BfArrStore size_t | BfArrUnlock
  | BfWaitTest | BfWaitSleep | BfWaitLock
  | BfNotifyTest | BfNotify
  | BfDepMtx | BfDepRead | BfDepStore size_t | BfDepUnlock
  | BfDoneTest | BfResetArrived | BfResetDeparted | BfResetNotified
  | BfUnlock

record bf_state =
  bf_arrived :: size_t
  bf_departed :: size_t
  bf_notified :: bool
  bf_mtx :: "tid option"
  bf_arrived_mtx :: "tid option"
  bf_departed_mtx :: "tid option"
  bf_pc :: "tid \<Rightarrow> bf_pc"
  bf_entered :: "tid \<Rightarrow> nat"    \<comment> \<open>ghost: calls that have incremented \<open>arrived_\<close>\<close>
  bf_passed :: "tid \<Rightarrow> nat"     \<comment> \<open>ghost: calls that have done all but unlock\<close>

definition bf_init :: bf_state where
  "bf_init = \<lparr>bf_arrived = 0, bf_departed = 0, bf_notified = False, bf_mtx = None, bf_arrived_mtx = None, bf_departed_mtx = None,
     bf_pc = (\<lambda>_. BfIdle), bf_entered = (\<lambda>_. 0), bf_passed = (\<lambda>_. 0)\<rparr>"

definition bf_go :: "tid \<Rightarrow> bf_pc \<Rightarrow> bf_state \<Rightarrow> bf_state" where
  "bf_go t q s = s\<lparr>bf_pc := (bf_pc s)(t := q)\<rparr>"

definition bf_lock :: "tid \<Rightarrow> bf_pc \<Rightarrow> bf_state \<Rightarrow> bf_state option" where
  "bf_lock t q s = (if bf_mtx s = None then Some (bf_go t q (s\<lparr>bf_mtx := Some t\<rparr>)) else None)"

text \<open>Unlocking, and the wait of a condition variable, which unlocks and sleeps at once.\<close>

definition bf_unlock :: "tid \<Rightarrow> bf_pc \<Rightarrow> bf_state \<Rightarrow> bf_state" where
  "bf_unlock t q s = bf_go t q (s\<lparr>bf_mtx := None\<rparr>)"

subsection \<open>The limit\<close>

definition bf_test_arrived :: "size_t \<Rightarrow> tid \<Rightarrow> bf_state \<Rightarrow> bf_state" where
  "bf_test_arrived participants t s = bf_go t (if bf_arrived s \<ge> participants then BfLimitLock else BfDepartedTest) s"

definition bf_test_departed :: "tid \<Rightarrow> bf_state \<Rightarrow> bf_state" where
  "bf_test_departed t s = bf_go t (if bf_departed s \<noteq> 0 then BfLimitLock else BfLock) s"

definition bf_limit_test :: "size_t \<Rightarrow> tid \<Rightarrow> bf_state \<Rightarrow> bf_state" where
  "bf_limit_test participants t s = (if bf_arrived s < participants \<and> bf_departed s = 0 then bf_go t BfLimitUnlock s
     else bf_unlock t BfLimitSleep s)"

subsection \<open>Arrival\<close>

text \<open>\<open>arrived_mtx_\<close> and \<open>departed_mtx_\<close> exist in \<open>-v2\<close> only.\<close>

definition bf_arrived_mtx_lock :: "bf_version \<Rightarrow> tid \<Rightarrow> bf_state \<Rightarrow> bf_state option" where
  "bf_arrived_mtx_lock v t s = (if v \<noteq> InnerMutexes then Some (bf_go t BfArrRead s)
     else if bf_arrived_mtx s = None then Some (bf_go t BfArrRead (s\<lparr>bf_arrived_mtx := Some t\<rparr>)) else None)"

definition bf_arrived_store :: "tid \<Rightarrow> size_t \<Rightarrow> bf_state \<Rightarrow> bf_state" where
  "bf_arrived_store t x s = bf_go t BfArrUnlock (s\<lparr>bf_arrived := x + 1, bf_entered := (bf_entered s)(t := Suc (bf_entered s t))\<rparr>)"

definition bf_arrived_read :: "bf_version \<Rightarrow> tid \<Rightarrow> bf_state \<Rightarrow> bf_state" where
  "bf_arrived_read v t s = (if v = Atomics then bf_arrived_store t (bf_arrived s) s else bf_go t (BfArrStore (bf_arrived s)) s)"

definition bf_arrived_mtx_unlock :: "bf_version \<Rightarrow> tid \<Rightarrow> bf_state \<Rightarrow> bf_state" where
  "bf_arrived_mtx_unlock v t s = bf_go t BfWaitTest (if v = InnerMutexes then s\<lparr>bf_arrived_mtx := None\<rparr> else s)"

definition bf_wait_test :: "size_t \<Rightarrow> tid \<Rightarrow> bf_state \<Rightarrow> bf_state" where
  "bf_wait_test participants t s = (if bf_arrived s = participants then bf_go t BfNotifyTest s else bf_unlock t BfWaitSleep s)"

definition bf_notify_test :: "size_t \<Rightarrow> tid \<Rightarrow> bf_state \<Rightarrow> bf_state" where
  "bf_notify_test participants t s = bf_go t (if bf_arrived s = participants \<and> \<not> bf_notified s then BfNotify else BfDepMtx) s"

definition bf_wake_arrival :: "(tid \<Rightarrow> bf_pc) \<Rightarrow> tid \<Rightarrow> bf_pc" where
  "bf_wake_arrival f = (\<lambda>u. if f u = BfWaitSleep then BfWaitLock else f u)"

definition bf_wake_limit :: "(tid \<Rightarrow> bf_pc) \<Rightarrow> tid \<Rightarrow> bf_pc" where
  "bf_wake_limit f = (\<lambda>u. if f u = BfLimitSleep then BfLimitLock else f u)"

definition bf_notify :: "tid \<Rightarrow> bf_state \<Rightarrow> bf_state" where
  "bf_notify t s = bf_go t BfDepMtx (s\<lparr>bf_notified := True, bf_pc := bf_wake_arrival (bf_pc s)\<rparr>)"

subsection \<open>Departure\<close>

definition bf_departed_mtx_lock :: "bf_version \<Rightarrow> tid \<Rightarrow> bf_state \<Rightarrow> bf_state option" where
  "bf_departed_mtx_lock v t s = (if v \<noteq> InnerMutexes then Some (bf_go t BfDepRead s)
     else if bf_departed_mtx s = None then Some (bf_go t BfDepRead (s\<lparr>bf_departed_mtx := Some t\<rparr>)) else None)"

definition bf_departed_store :: "tid \<Rightarrow> size_t \<Rightarrow> bf_state \<Rightarrow> bf_state" where
  "bf_departed_store t x s = bf_go t BfDepUnlock (s\<lparr>bf_departed := x + 1\<rparr>)"

definition bf_departed_read :: "bf_version \<Rightarrow> tid \<Rightarrow> bf_state \<Rightarrow> bf_state" where
  "bf_departed_read v t s = (if v = Atomics then bf_departed_store t (bf_departed s) s else bf_go t (BfDepStore (bf_departed s)) s)"

definition bf_departed_mtx_unlock :: "bf_version \<Rightarrow> tid \<Rightarrow> bf_state \<Rightarrow> bf_state" where
  "bf_departed_mtx_unlock v t s = bf_go t BfDoneTest (if v = InnerMutexes then s\<lparr>bf_departed_mtx := None\<rparr> else s)"

definition bf_pass :: "tid \<Rightarrow> bf_state \<Rightarrow> bf_state" where
  "bf_pass t s = bf_go t BfUnlock (s\<lparr>bf_passed := (bf_passed s)(t := Suc (bf_passed s t))\<rparr>)"

definition bf_done_test :: "tid \<Rightarrow> bf_state \<Rightarrow> bf_state" where
  "bf_done_test t s = (if bf_departed s = bf_arrived s then bf_go t BfResetArrived s else bf_pass t s)"

definition bf_reset_notified :: "tid \<Rightarrow> bf_state \<Rightarrow> bf_state" where
  "bf_reset_notified t s = bf_pass t (s\<lparr>bf_notified := False, bf_pc := bf_wake_limit (bf_pc s)\<rparr>)"

fun bf_thread :: "bf_version \<Rightarrow> size_t \<Rightarrow> tid \<Rightarrow> bf_pc \<Rightarrow> bf_state \<Rightarrow> bf_state option" where
  "bf_thread v participants t BfIdle s = Some (bf_go t BfArrivedTest s)"
| "bf_thread v participants t BfArrivedTest s = Some (bf_test_arrived participants t s)"
| "bf_thread v participants t BfDepartedTest s = Some (bf_test_departed t s)"
| "bf_thread v participants t BfLimitLock s = bf_lock t BfLimitTest s"
| "bf_thread v participants t BfLimitTest s = Some (bf_limit_test participants t s)"
| "bf_thread v participants t BfLimitUnlock s = Some (bf_unlock t BfLock s)"
| "bf_thread v participants t BfLock s = bf_lock t BfArrMtx s"
| "bf_thread v participants t BfArrMtx s = bf_arrived_mtx_lock v t s"
| "bf_thread v participants t BfArrRead s = Some (bf_arrived_read v t s)"
| "bf_thread v participants t (BfArrStore x) s = Some (bf_arrived_store t x s)"
| "bf_thread v participants t BfArrUnlock s = Some (bf_arrived_mtx_unlock v t s)"
| "bf_thread v participants t BfWaitTest s = Some (bf_wait_test participants t s)"
| "bf_thread v participants t BfWaitLock s = bf_lock t BfWaitTest s"
| "bf_thread v participants t BfNotifyTest s = Some (bf_notify_test participants t s)"
| "bf_thread v participants t BfNotify s = Some (bf_notify t s)"
| "bf_thread v participants t BfDepMtx s = bf_departed_mtx_lock v t s"
| "bf_thread v participants t BfDepRead s = Some (bf_departed_read v t s)"
| "bf_thread v participants t (BfDepStore x) s = Some (bf_departed_store t x s)"
| "bf_thread v participants t BfDepUnlock s = Some (bf_departed_mtx_unlock v t s)"
| "bf_thread v participants t BfDoneTest s = Some (bf_done_test t s)"
| "bf_thread v participants t BfResetArrived s = Some (bf_go t BfResetDeparted (s\<lparr>bf_arrived := 0\<rparr>))"
| "bf_thread v participants t BfResetDeparted s = Some (bf_go t BfResetNotified (s\<lparr>bf_departed := 0\<rparr>))"
| "bf_thread v participants t BfResetNotified s = Some (bf_reset_notified t s)"
| "bf_thread v participants t BfUnlock s = Some (bf_unlock t BfIdle s)"
| "bf_thread v participants t _ s = None"

text \<open>\<open>n\<close> threads call ArriveAndWait again and again; a sleeping thread may wake spuriously.\<close>

fun bf_step :: "bf_version \<Rightarrow> nat \<Rightarrow> size_t \<Rightarrow> tid \<times> cb_act \<Rightarrow> bf_state \<Rightarrow> bf_state option" where
  "bf_step v n participants (t, CbStep) s = (if t < n then bf_thread v participants t (bf_pc s t) s else None)"
| "bf_step v n participants (t, CbSpurious) s =
     (if bf_pc s t = BfLimitSleep then Some (bf_go t BfLimitLock s)
      else if bf_pc s t = BfWaitSleep then Some (bf_go t BfWaitLock s) else None)"

lemmas bf_ops = bf_go_def bf_lock_def bf_unlock_def bf_test_arrived_def bf_test_departed_def bf_limit_test_def
  bf_arrived_mtx_lock_def bf_arrived_store_def bf_arrived_read_def bf_arrived_mtx_unlock_def bf_wait_test_def bf_notify_test_def
  bf_notify_def bf_departed_mtx_lock_def bf_departed_store_def bf_departed_read_def bf_departed_mtx_unlock_def bf_pass_def
  bf_done_test_def bf_reset_notified_def

subsection \<open>The mutexes\<close>

fun bf_locked :: "bf_pc \<Rightarrow> bool" where
  "bf_locked BfIdle = False" | "bf_locked BfArrivedTest = False" | "bf_locked BfDepartedTest = False" | "bf_locked BfLimitLock = False"
| "bf_locked BfLimitSleep = False" | "bf_locked BfLock = False" | "bf_locked BfWaitSleep = False" | "bf_locked BfWaitLock = False"
| "bf_locked _ = True"

fun bf_arriving :: "bf_pc \<Rightarrow> bool" where    \<comment> \<open>between the calls on \<open>arrived_mtx_\<close>\<close>
  "bf_arriving BfArrRead = True" | "bf_arriving (BfArrStore x) = True" | "bf_arriving BfArrUnlock = True" | "bf_arriving _ = False"

fun bf_departing :: "bf_pc \<Rightarrow> bool" where   \<comment> \<open>between the calls on \<open>departed_mtx_\<close>\<close>
  "bf_departing BfDepRead = True" | "bf_departing (BfDepStore x) = True" | "bf_departing BfDepUnlock = True" | "bf_departing _ = False"

lemma bf_locked_inner: "bf_arriving q \<Longrightarrow> bf_locked q" "bf_departing q \<Longrightarrow> bf_locked q"
  by (cases q; simp)+

definition bf_mutexes :: "bf_version \<Rightarrow> nat \<Rightarrow> bf_state \<Rightarrow> bool" where
  "bf_mutexes v p s = ((\<forall>f. bf_mtx s = Some f \<longleftrightarrow> bf_locked (bf_pc s f)) \<and>
     (\<forall>f. bf_arrived_mtx s = Some f \<longleftrightarrow> v = InnerMutexes \<and> bf_arriving (bf_pc s f)) \<and>
     (\<forall>f. bf_departed_mtx s = Some f \<longleftrightarrow> v = InnerMutexes \<and> bf_departing (bf_pc s f)) \<and>
     (\<forall>f\<ge>p. bf_pc s f = BfIdle))"

text \<open>What one step does to the stepping thread's hold on a mutex.\<close>

definition bf_hand :: "tid \<Rightarrow> bool \<Rightarrow> bool \<Rightarrow> tid option \<Rightarrow> tid option \<Rightarrow> bool" where
  "bf_hand t held holds x x' = (x' = x \<and> holds = held \<or> x = None \<and> x' = Some t \<and> holds \<or> held \<and> x' = None \<and> \<not> holds)"

lemma bf_handD:
  assumes "bf_hand t (H t) (H' t) x x'" and "\<And>f. f \<noteq> t \<Longrightarrow> H' f = H f" and "\<And>f. x = Some f \<longleftrightarrow> H f"
  shows "x' = Some f \<longleftrightarrow> H' f"
  using assms(1) assms(2) [of f] assms(3) [of f] assms(3) [of t] unfolding bf_hand_def by (cases "f = t") auto

lemma bf_thread_self:
  assumes "bf_thread v c t (bf_pc s t) s = Some s'"
  shows "bf_hand t (bf_locked (bf_pc s t)) (bf_locked (bf_pc s' t)) (bf_mtx s) (bf_mtx s')"
    and "bf_hand t (v = InnerMutexes \<and> bf_arriving (bf_pc s t)) (v = InnerMutexes \<and> bf_arriving (bf_pc s' t)) (bf_arrived_mtx s) (bf_arrived_mtx s')"
    and "bf_hand t (v = InnerMutexes \<and> bf_departing (bf_pc s t)) (v = InnerMutexes \<and> bf_departing (bf_pc s' t)) (bf_departed_mtx s) (bf_departed_mtx s')"
  using assms by (cases "bf_pc s t"; auto simp: bf_ops bf_hand_def split: if_splits)+

lemma bf_thread_other:
  assumes "bf_thread v c t (bf_pc s t) s = Some s'" and "u \<noteq> t"
  shows "bf_pc s' u = bf_pc s u \<or> bf_pc s u = BfWaitSleep \<and> bf_pc s' u = BfWaitLock \<or> bf_pc s u = BfLimitSleep \<and> bf_pc s' u = BfLimitLock"
  using assms by (cases "bf_pc s t") (auto simp: bf_ops bf_wake_arrival_def bf_wake_limit_def split: if_splits)

lemma bf_mutexes_step:
  assumes i: "bf_mutexes v p s" and st: "bf_step v p c a s = Some s'"
  shows "bf_mutexes v p s'"
proof -
  obtain t b where a: "a = (t, b)" by (cases a)
  note D = i [unfolded bf_mutexes_def]
  show ?thesis
  proof (cases b)
    case CbSpurious
    have "bf_pc s t \<noteq> BfIdle" using st a CbSpurious by (auto split: if_splits)
    then have "t < p" using D by (meson not_less)
    then show ?thesis using st a CbSpurious D by (auto simp: bf_mutexes_def bf_go_def split: if_splits)
  next
    case CbStep
    then have t: "t < p" and th: "bf_thread v c t (bf_pc s t) s = Some s'" using st a by (auto split: if_splits)
    note O = bf_thread_other [OF th] and S = bf_thread_self [OF th]
    have o: "bf_locked (bf_pc s' u) = bf_locked (bf_pc s u)" "bf_arriving (bf_pc s' u) = bf_arriving (bf_pc s u)"
      "bf_departing (bf_pc s' u) = bf_departing (bf_pc s u)" "bf_pc s u = BfIdle \<Longrightarrow> bf_pc s' u = BfIdle" if "u \<noteq> t" for u
      using O [OF that] by auto
    have "bf_mtx s' = Some f \<longleftrightarrow> bf_locked (bf_pc s' f)" for f
      by (rule bf_handD [where t = t and H = "\<lambda>f. bf_locked (bf_pc s f)" and H' = "\<lambda>f. bf_locked (bf_pc s' f)", OF S(1)]) (use o D in auto)
    moreover have "bf_arrived_mtx s' = Some f \<longleftrightarrow> v = InnerMutexes \<and> bf_arriving (bf_pc s' f)" for f
      by (rule bf_handD [where t = t and H = "\<lambda>f. v = InnerMutexes \<and> bf_arriving (bf_pc s f)" and H' = "\<lambda>f. v = InnerMutexes \<and> bf_arriving (bf_pc s' f)", OF S(2)]) (use o D in auto)
    moreover have "bf_departed_mtx s' = Some f \<longleftrightarrow> v = InnerMutexes \<and> bf_departing (bf_pc s' f)" for f
      by (rule bf_handD [where t = t and H = "\<lambda>f. v = InnerMutexes \<and> bf_departing (bf_pc s f)" and H' = "\<lambda>f. v = InnerMutexes \<and> bf_departing (bf_pc s' f)", OF S(3)]) (use o D in auto)
    moreover have "bf_pc s' f = BfIdle" if "f \<ge> p" for f using that t o(4) [of f] D by auto
    ultimately show ?thesis unfolding bf_mutexes_def by blast
  qed
qed

interpretation barrier_mutexes: inv_system bf_init "bf_step v p c" "bf_mutexes v p" for v p c
  by unfold_locales (simp add: bf_mutexes_def bf_init_def, rule bf_mutexes_step)

text \<open>While a thread holds \<open>mtx_\<close>, it can move.\<close>

lemma bf_holder_moves:
  assumes i: "bf_mutexes v p s" and l: "bf_locked (bf_pc s t)"
  shows "bf_thread v c t (bf_pc s t) s \<noteq> None"
proof -
  note D = i [unfolded bf_mutexes_def]
  have m: "f = t" if "bf_locked (bf_pc s f)" for f using D l that by (metis option.inject)
  have "bf_arrived_mtx s = None" if "bf_pc s t = BfArrMtx"
    using D m that bf_locked_inner(1) by (cases "bf_arrived_mtx s") (auto, metis bf_arriving.simps)
  moreover have "bf_departed_mtx s = None" if "bf_pc s t = BfDepMtx"
    using D m that bf_locked_inner(2) by (cases "bf_departed_mtx s") (auto, metis bf_departing.simps)
  ultimately show ?thesis using l by (cases "bf_pc s t") (auto simp: bf_arrived_mtx_lock_def bf_departed_mtx_lock_def)
qed

subsection \<open>The correspondence\<close>

text \<open>
  \<open>m\<close> is the state of \<open>Barrier\<close>, where a critical section takes place at its last write, or where it goes to sleep. While one is
  running, the values it has written so far depend on where it is: \<open>b\<close> says that it belongs to a thread that has arrived in it, and
  not to one that was woken.
\<close>

definition bf_same :: "bf_state \<Rightarrow> cb_state \<Rightarrow> bool" where
  "bf_same s m = (bf_arrived s = arrived m \<and> bf_departed s = departed m \<and> bf_notified s = is_notified m)"

fun bf_vals :: "size_t \<Rightarrow> bf_pc \<Rightarrow> bool \<Rightarrow> bf_state \<Rightarrow> cb_state \<Rightarrow> bool" where
  "bf_vals c (BfArrStore x) b s m = (bf_same s m \<and> x = arrived m)"
| "bf_vals c BfArrUnlock b s m = (bf_arrived s = arrived m + of_bool b \<and> bf_departed s = departed m \<and> bf_notified s = is_notified m)"
| "bf_vals c BfWaitTest b s m = (bf_arrived s = arrived m + of_bool b \<and> bf_departed s = departed m \<and> bf_notified s = is_notified m)"
| "bf_vals c BfNotifyTest b s m = (bf_arrived s = c \<and> c = arrived m + of_bool b \<and> bf_departed s = departed m \<and> bf_notified s = is_notified m)"
| "bf_vals c BfNotify b s m = (bf_arrived s = c \<and> c = arrived m + of_bool b \<and> bf_departed s = departed m \<and> bf_notified s = is_notified m)"
| "bf_vals c BfDepMtx b s m = (bf_arrived s = c \<and> c = arrived m + of_bool b \<and> bf_departed s = departed m \<and> bf_notified s)"
| "bf_vals c BfDepRead b s m = (bf_arrived s = c \<and> c = arrived m + of_bool b \<and> bf_departed s = departed m \<and> bf_notified s)"
| "bf_vals c (BfDepStore x) b s m = (bf_arrived s = c \<and> c = arrived m + of_bool b \<and> bf_departed s = departed m \<and> bf_notified s \<and> x = departed m)"
| "bf_vals c BfDepUnlock b s m = (bf_arrived s = c \<and> c = arrived m + of_bool b \<and> bf_departed s = departed m + 1 \<and> bf_notified s)"
| "bf_vals c BfDoneTest b s m = (bf_arrived s = c \<and> c = arrived m + of_bool b \<and> bf_departed s = departed m + 1 \<and> bf_notified s)"
| "bf_vals c BfResetArrived b s m = (bf_arrived s = c \<and> c = arrived m + of_bool b \<and> bf_departed s = c \<and> c = departed m + 1 \<and> bf_notified s)"
| "bf_vals c BfResetDeparted b s m = (bf_arrived s = 0 \<and> c = arrived m + of_bool b \<and> bf_departed s = c \<and> c = departed m + 1 \<and> bf_notified s)"
| "bf_vals c BfResetNotified b s m = (bf_arrived s = 0 \<and> c = arrived m + of_bool b \<and> bf_departed s = 0 \<and> c = departed m + 1 \<and> bf_notified s)"
| "bf_vals c _ b s m = bf_same s m"

fun bf_window :: "bf_pc \<Rightarrow> bool" where     \<comment> \<open>\<open>arrived_\<close> is reset, the critical section not over\<close>
  "bf_window BfResetDeparted = True" | "bf_window BfResetNotified = True" | "bf_window _ = False"

fun bf_post :: "bf_pc \<Rightarrow> bool" where       \<comment> \<open>the waiting threads have been notified\<close>
  "bf_post BfDepMtx = True" | "bf_post BfDepRead = True" | "bf_post (BfDepStore x) = True" | "bf_post BfDepUnlock = True"
| "bf_post BfDoneTest = True" | "bf_post BfResetArrived = True" | "bf_post BfResetDeparted = True" | "bf_post BfResetNotified = True"
| "bf_post _ = False"

fun bf_stored :: "bf_pc \<Rightarrow> bool" where     \<comment> \<open>\<open>arrived_\<close> was incremented\<close>
  "bf_stored BfArrUnlock = True" | "bf_stored BfWaitTest = True" | "bf_stored BfNotifyTest = True" | "bf_stored BfNotify = True"
| "bf_stored q = bf_post q"

text \<open>
  The program points that correspond. A thread whose test before the lock has read \<open>arrived_\<close> after the reset, but before the end of
  the critical section, has not done the test yet in \<open>Barrier\<close> (\<open>lag\<close>); one that was notified by a critical section that is still
  running is asleep there (\<open>post\<close>).
\<close>

fun bf_point :: "bool \<Rightarrow> bool \<Rightarrow> bf_pc \<Rightarrow> cb_pc \<Rightarrow> bool" where
  "bf_point lag post BfIdle q = (q = CbIdle)"
| "bf_point lag post BfUnlock q = (q = CbIdle)"
| "bf_point lag post BfArrivedTest q = (q = CbCheckArrived)"
| "bf_point lag post BfDepartedTest q = (q = CbCheckDeparted \<or> lag \<and> q = CbCheckArrived)"
| "bf_point lag post BfLimitLock q = (q = CbLimit)"
| "bf_point lag post BfLimitTest q = (q = CbLimit)"
| "bf_point lag post BfLimitSleep q = (q = CbLimitSleep)"
| "bf_point lag post BfLock q = (q = CbArrive \<or> lag \<and> q = CbCheckArrived)"
| "bf_point lag post BfLimitUnlock q = (q = CbArrive)"
| "bf_point lag post BfArrMtx q = (q = CbArrive)"
| "bf_point lag post BfArrRead q = (q = CbArrive)"
| "bf_point lag post (BfArrStore x) q = (q = CbArrive)"
| "bf_point lag post BfArrUnlock q = (q = CbArrive)"
| "bf_point lag post BfWaitSleep q = (q = CbWaitSleep)"
| "bf_point lag post BfWaitLock q = (q = CbWait \<or> post \<and> q = CbWaitSleep)"
| "bf_point lag post _ q = (q = CbArrive \<or> q = CbWait)"

definition bf_lag :: "nat \<Rightarrow> bf_state \<Rightarrow> cb_state \<Rightarrow> bool" where
  "bf_lag p s m = (arrived m \<noteq> of_nat p \<or> (\<exists>h. bf_window (bf_pc s h)))"

definition bf_posted :: "bf_state \<Rightarrow> bool" where
  "bf_posted s = (\<exists>h. bf_post (bf_pc s h))"

definition bf_rel :: "bf_version \<Rightarrow> nat \<Rightarrow> bf_state \<Rightarrow> cb_state \<Rightarrow> bool" where
  "bf_rel v p s m = (bf_mutexes v p s \<and>
     (\<forall>u. bf_point (bf_lag p s m) (bf_posted s) (bf_pc s u) (cb_pc m u)) \<and>
     (bf_mtx s = None \<longrightarrow> bf_same s m) \<and>
     (\<forall>h. bf_locked (bf_pc s h) \<longrightarrow> bf_vals (of_nat p) (bf_pc s h) (cb_pc m h = CbArrive) s m) \<and>
     (bf_posted s \<longrightarrow> (\<forall>u. bf_pc s u \<noteq> BfWaitSleep)) \<and>
     (\<forall>u. bf_entered s u = cb_entered m u + of_bool (cb_pc m u = CbArrive \<and> bf_stored (bf_pc s u))) \<and>
     (\<forall>u. bf_passed s u = cb_passed m u))"

lemma bf_relI:
  assumes "bf_mutexes v p s" and "\<And>u. bf_point (bf_lag p s m) (bf_posted s) (bf_pc s u) (cb_pc m u)"
    and "bf_mtx s = None \<Longrightarrow> bf_same s m"
    and "\<And>h. bf_locked (bf_pc s h) \<Longrightarrow> bf_vals (of_nat p) (bf_pc s h) (cb_pc m h = CbArrive) s m"
    and "\<And>u. bf_posted s \<Longrightarrow> bf_pc s u \<noteq> BfWaitSleep"
    and "\<And>u. bf_entered s u = cb_entered m u + of_bool (cb_pc m u = CbArrive \<and> bf_stored (bf_pc s u))"
    and "\<And>u. bf_passed s u = cb_passed m u"
  shows "bf_rel v p s m"
  using assms unfolding bf_rel_def by blast

lemma bf_relD:
  assumes "bf_rel v p s m"
  shows "bf_mutexes v p s" and "\<And>u. bf_point (bf_lag p s m) (bf_posted s) (bf_pc s u) (cb_pc m u)"
    and "bf_mtx s = None \<Longrightarrow> bf_same s m"
    and "\<And>h. bf_locked (bf_pc s h) \<Longrightarrow> bf_vals (of_nat p) (bf_pc s h) (cb_pc m h = CbArrive) s m"
    and "\<And>u. bf_posted s \<Longrightarrow> bf_pc s u \<noteq> BfWaitSleep"
    and "\<And>u. bf_entered s u = cb_entered m u + of_bool (cb_pc m u = CbArrive \<and> bf_stored (bf_pc s u))"
    and "\<And>u. bf_passed s u = cb_passed m u"
  using assms unfolding bf_rel_def by blast+

lemma bf_only_holder: "bf_mutexes v p s \<Longrightarrow> bf_locked (bf_pc s t) \<Longrightarrow> bf_locked (bf_pc s u) \<Longrightarrow> u = t"
  unfolding bf_mutexes_def by (metis option.inject)

lemma bf_unlocked: "bf_mutexes v p s \<Longrightarrow> bf_mtx s = None \<longleftrightarrow> (\<forall>u. \<not> bf_locked (bf_pc s u))"
  unfolding bf_mutexes_def by (metis not_Some_eq)

lemma bf_window_locked: "bf_window q \<Longrightarrow> bf_locked q" "bf_post q \<Longrightarrow> bf_locked q" "bf_window q \<Longrightarrow> bf_post q"
  by (cases q; simp)+

lemma bf_point_mono: "bf_point lag post q c \<Longrightarrow> (lag \<Longrightarrow> lag') \<Longrightarrow> (post \<Longrightarrow> post') \<Longrightarrow> bf_point lag' post' q c"
  by (cases q) auto

lemma bf_same_cong:
  "bf_arrived s' = bf_arrived s \<Longrightarrow> bf_departed s' = bf_departed s \<Longrightarrow> bf_notified s' = bf_notified s \<Longrightarrow>
   arrived m' = arrived m \<Longrightarrow> departed m' = departed m \<Longrightarrow> is_notified m' = is_notified m \<Longrightarrow>
   bf_same s' m' = bf_same s m \<and> bf_vals c q b s' m' = bf_vals c q b s m"
  by (cases q) (auto simp: bf_same_def)

text \<open>A step of \<open>t\<close> that is no step of \<open>Barrier\<close> or only moves \<open>t\<close> there.\<close>

lemma bf_stay:
  assumes rel: "bf_rel v p s m" and mx: "bf_mutexes v p s'" and pc: "bf_pc s' = (bf_pc s)(t := q)"
    and m': "m' = cb_go t c m"
    and own: "bf_point (bf_lag p s' m) (bf_posted s') q c"
    and out: "\<not> bf_locked (bf_pc s t) \<Longrightarrow> \<not> bf_locked q \<Longrightarrow>
      bf_arrived s' = bf_arrived s \<and> bf_departed s' = bf_departed s \<and> bf_notified s' = bf_notified s"
    and vals: "bf_locked q \<Longrightarrow> bf_vals (of_nat p) q (c = CbArrive) s' m"
    and rls: "bf_locked (bf_pc s t) \<Longrightarrow> \<not> bf_locked q \<Longrightarrow> bf_same s' m"
    and win: "bf_window (bf_pc s t) \<Longrightarrow> bf_window q" and post: "bf_post (bf_pc s t) \<Longrightarrow> bf_post q"
    and sleep: "\<And>u. bf_post q \<Longrightarrow> \<not> bf_post (bf_pc s t) \<Longrightarrow> bf_pc s u \<noteq> BfWaitSleep" "q = BfWaitSleep \<Longrightarrow> bf_locked (bf_pc s t)"
    and ent: "\<And>u. bf_entered s' u = (if u = t then cb_entered m t + of_bool (c = CbArrive \<and> bf_stored q) else bf_entered s u)"
    and pas: "bf_passed s' = bf_passed s"
  shows "bf_rel v p s' m'"
proof -
  note D = bf_relD [OF rel]
  have w: "bf_window (bf_pc s' h)" if "bf_window (bf_pc s h)" for h using that win by (cases "h = t") (auto simp: pc)
  have po: "bf_post (bf_pc s' h)" if "bf_post (bf_pc s h)" for h using that post by (cases "h = t") (auto simp: pc)
  have lag: "bf_lag p s m \<Longrightarrow> bf_lag p s' m'" using w by (auto simp: bf_lag_def m' cb_go_def)
  have lagm: "bf_lag p s' m' = bf_lag p s' m" by (simp add: bf_lag_def m' cb_go_def)
  have posted: "bf_posted s \<Longrightarrow> bf_posted s'" using po by (auto simp: bf_posted_def)
  have sh: "arrived m' = arrived m" "departed m' = departed m" "is_notified m' = is_notified m"
    "cb_entered m' = cb_entered m" "cb_passed m' = cb_passed m" "cb_pc m' = (cb_pc m)(t := c)" by (simp_all add: m' cb_go_def)
  show ?thesis
  proof (rule bf_relI [OF mx], goal_cases)
    case (1 u)
    show ?case
    proof (cases "u = t")
      case False
      then show ?thesis using bf_point_mono [OF D(2) [of u] lag posted] by (simp add: pc sh)
    qed (simp add: pc sh own lagm)
  next
    case 2
    then have un: "\<not> bf_locked (bf_pc s' u)" for u using bf_unlocked [OF mx] by blast
    then have q: "\<not> bf_locked q" by (metis pc fun_upd_same)
    show ?case
    proof (cases "bf_locked (bf_pc s t)")
      case True
      from rls [OF this q] show ?thesis using bf_same_cong [of s' s' m' m] sh by auto
    next
      case False
      then have "\<not> bf_locked (bf_pc s u)" for u using un [of u] by (cases "u = t") (auto simp: pc)
      then have "bf_mtx s = None" using bf_unlocked [OF D(1)] by simp
      then have "bf_same s m" by (rule D(3))
      then show ?thesis using out [OF False q] bf_same_cong [of s' s m' m] sh by auto
    qed
  next
    case (3 h)
    show ?case
    proof (cases "h = t")
      case True
      with 3 have "bf_vals (of_nat p) q (c = CbArrive) s' m" using vals by (simp add: pc)
      then show ?thesis using bf_same_cong [of s' s' m' m] sh True by (simp add: pc)
    next
      case False
      then have h: "bf_locked (bf_pc s h)" using 3 by (simp add: pc)
      have "\<not> bf_locked (bf_pc s t)" using bf_only_holder [OF D(1) h, of t] False by auto
      moreover have "\<not> bf_locked q" using bf_only_holder [OF mx 3, of t] False by (auto simp: pc)
      ultimately have "bf_vals (of_nat p) (bf_pc s h) (cb_pc m h = CbArrive) s' m'"
        using out D(4) [OF h] bf_same_cong [of s' s m' m] sh by auto
      then show ?thesis using False by (simp add: pc sh)
    qed
  next
    case (4 u)
    then obtain h where h: "bf_post (bf_pc s' h)" by (auto simp: bf_posted_def)
    then have hl: "bf_locked (bf_pc s' h)" by (rule bf_window_locked(2))
    show ?case
    proof (cases "h = t")
      case True
      then have q: "bf_post q" using h by (simp add: pc)
      have "bf_pc s u \<noteq> BfWaitSleep"
      proof (cases "bf_post (bf_pc s t)")
        case True
        then show ?thesis using D(5) by (auto simp: bf_posted_def)
      qed (use sleep(1) q in auto)
      then show ?thesis using q by (auto simp: pc)
    next
      case False
      then have ph: "bf_post (bf_pc s h)" "bf_locked (bf_pc s h)" using h hl by (simp_all add: pc)
      have "\<not> bf_locked (bf_pc s t)" using bf_only_holder [OF D(1) ph(2), of t] False by auto
      then have "q \<noteq> BfWaitSleep" using sleep(2) by auto
      moreover have "bf_pc s u \<noteq> BfWaitSleep" using D(5) ph(1) by (auto simp: bf_posted_def)
      ultimately show ?thesis by (simp add: pc)
    qed
  next
    case (5 u) show ?case using D(6) [of u] ent [of u] by (simp add: pc sh)
  next
    case (6 u) show ?case using D(7) [of u] pas by (simp add: sh)
  qed
qed

subsection \<open>What the invariant of the barrier says\<close>

lemma cb_gathering:
  assumes "cb_inv p m" and "p < 2 ^ 64" and "arrived m \<noteq> of_nat p"
  shows "departed m = 0" and "\<not> is_notified m" and "arrived m < of_nat p"
proof -
  from assms(1,3) obtain g where g: "cb_gather p g m" unfolding cb_inv_def cb_drain_def by blast
  then show "departed m = 0" "\<not> is_notified m" unfolding cb_gather_def by simp_all
  have "cnt p cb_inside (cb_pc m) < p" "arrived m = of_nat (cnt p cb_inside (cb_pc m))" using g unfolding cb_gather_def by simp_all
  then show "arrived m < of_nat p"
    using assms(2) unat_of_nat_64 [of "cnt p cb_inside (cb_pc m)"] unat_of_nat_64 [of p] by (simp add: word_less_nat_alt)
qed

lemma cb_draining:
  assumes i: "cb_inv p m" and p: "p < 2 ^ 64" and a: "arrived m = of_nat p" and u: "u < p"
  shows "is_notified m" and "cb_pc m u \<noteq> CbWaitSleep" and "cb_inside (cb_pc m u) \<or> cb_late (cb_pc m u)"
proof -
  have "\<not> cb_gather p g m" for g
  proof
    assume g: "cb_gather p g m"
    then have "cnt p cb_inside (cb_pc m) < p" "arrived m = of_nat (cnt p cb_inside (cb_pc m))" unfolding cb_gather_def by simp_all
    then show False using a p of_nat_size_t_inj [of "cnt p cb_inside (cb_pc m)" p] by simp
  qed
  with i obtain g where "cb_drain p g m" unfolding cb_inv_def by blast
  then show "is_notified m" "cb_pc m u \<noteq> CbWaitSleep" "cb_inside (cb_pc m u) \<or> cb_late (cb_pc m u)"
    using u unfolding cb_drain_def by auto
qed

text \<open>When the last one arrives, all others are inside.\<close>

lemma cb_last_arrives:
  assumes i: "cb_inv p m" and p: "p < 2 ^ 64" and a: "arrived m + 1 = of_nat p" and t: "t < p" and n: "\<not> cb_inside (cb_pc m t)"
    and u: "u < p" "u \<noteq> t"
  shows "cb_inside (cb_pc m u)"
proof -
  have "arrived m \<noteq> of_nat p" using a by (metis add_cancel_right_right zero_neq_one)
  then obtain g where g: "cb_gather p g m" using i unfolding cb_inv_def cb_drain_def by blast
  then have c: "cnt p cb_inside (cb_pc m) < p" "arrived m = of_nat (cnt p cb_inside (cb_pc m))" unfolding cb_gather_def by simp_all
  then have "of_nat (Suc (cnt p cb_inside (cb_pc m))) = (of_nat p :: size_t)" using a by (simp add: add.commute)
  then have "Suc (cnt p cb_inside (cb_pc m)) = p" using c(1) p of_nat_size_t_inj [of "Suc (cnt p cb_inside (cb_pc m))" p] by simp
  from cnt_all_but [OF this t n u] show ?thesis .
qed

lemma cb_outside_idle: "cb_inv p m \<Longrightarrow> cb_pc m u \<noteq> CbIdle \<Longrightarrow> u < p"
  unfolding cb_inv_def by (meson not_less)

lemma cb_on_the_way:
  assumes "cb_inv p m" and "p < 2 ^ 64" and "cb_pc m u = CbArrive \<or> cb_pc m u = CbCheckDeparted"
  shows "arrived m \<noteq> of_nat p"
  using cb_draining(3) [OF assms(1,2)] cb_outside_idle [OF assms(1), of u] assms(3) by fastforce

subsection \<open>What the tests before the lock can see\<close>

lemma bf_holder_vals:
  assumes rel: "bf_rel v p s m"
  obtains "bf_same s m" "\<forall>h. \<not> bf_locked (bf_pc s h)"
  | h where "bf_locked (bf_pc s h)" "bf_vals (of_nat p) (bf_pc s h) (cb_pc m h = CbArrive) s m"
proof (cases "bf_mtx s")
  case None
  then show thesis using that(1) bf_relD(3) [OF rel] bf_unlocked [OF bf_relD(1) [OF rel]] by simp
next
  case (Some h)
  moreover have "bf_mtx s = Some h \<longleftrightarrow> bf_locked (bf_pc s h)" using bf_relD(1) [OF rel] unfolding bf_mutexes_def by blast
  ultimately have "bf_locked (bf_pc s h)" by simp
  then show thesis using that(2) bf_relD(4) [OF rel] by simp
qed

text \<open>A thread that is on its way to the barrier excludes that another one is the last to arrive.\<close>

lemma bf_not_last:
  assumes i: "cb_inv p m" and p: "p < 2 ^ 64" and u: "cb_pc m u \<noteq> CbIdle" "\<not> cb_inside (cb_pc m u)" and "u \<noteq> h"
  shows "of_nat p = arrived m + of_bool (cb_pc m h = CbArrive) \<longleftrightarrow> cb_pc m h \<noteq> CbArrive \<and> of_nat p = arrived m"
proof (cases "cb_pc m h = CbArrive")
  case True
  have "h < p" "u < p" using cb_outside_idle [OF i] True u by auto
  then have "arrived m + 1 \<noteq> of_nat p" using cb_last_arrives [OF i p _ \<open>h < p\<close> _ \<open>u < p\<close>] True u assms(5) by auto
  then show ?thesis using True by auto
qed simp

lemma bf_arrived_seen:
  assumes rel: "bf_rel v p s m" and i: "cb_inv p m" and p: "p < 2 ^ 64"
    and u: "cb_pc m u \<noteq> CbIdle" "\<not> cb_inside (cb_pc m u)" and un: "\<not> bf_locked (bf_pc s u)"
  shows "bf_arrived s = arrived m \<or> bf_arrived s < of_nat p \<and> arrived m < of_nat p \<or>
    bf_arrived s = 0 \<and> arrived m = of_nat p \<and> (\<exists>h. bf_window (bf_pc s h))"
proof (rule bf_holder_vals [OF rel])
  fix h
  assume l: "bf_locked (bf_pc s h)" and v: "bf_vals (of_nat p) (bf_pc s h) (cb_pc m h = CbArrive) s m"
  then have uh: "u \<noteq> h" using un by auto
  note nl = bf_not_last [OF i p u uh]
  have arr: "arrived m + 1 < of_nat p" if "cb_pc m h = CbArrive"
  proof -
    have "arrived m < of_nat p" using cb_gathering(3) [OF i p] cb_on_the_way [OF i p] that by blast
    moreover have "arrived m + 1 \<noteq> of_nat p" using nl that by auto
    ultimately show ?thesis using inc_less_eq_iff [of "arrived m" "of_nat p"] by (metis add.commute inc_le order_neq_le_trans)
  qed
  show ?thesis
  proof (cases "bf_pc s h")
    case BfArrUnlock
    then show ?thesis using v arr cb_gathering(3) [OF i p] cb_on_the_way [OF i p, of h] by (cases "cb_pc m h = CbArrive") auto
  next
    case BfWaitTest
    then show ?thesis using v arr cb_gathering(3) [OF i p] cb_on_the_way [OF i p, of h] by (cases "cb_pc m h = CbArrive") auto
  next
    case BfResetDeparted
    then show ?thesis using v nl by (auto intro: exI [of _ h])
  next
    case BfResetNotified
    then show ?thesis using v nl by (auto intro: exI [of _ h])
  qed (use v nl in \<open>auto simp: bf_same_def\<close>)
qed (simp add: bf_same_def)

lemma bf_departed_seen:
  assumes rel: "bf_rel v p s m" and i: "cb_inv p m" and p: "p < 2 ^ 64" and a: "arrived m \<noteq> of_nat p"
    and u: "cb_pc m u \<noteq> CbIdle" "\<not> cb_inside (cb_pc m u)" and un: "\<not> bf_locked (bf_pc s u)"
  shows "bf_departed s = 0"
proof (rule bf_holder_vals [OF rel])
  fix h
  assume l: "bf_locked (bf_pc s h)" and v: "bf_vals (of_nat p) (bf_pc s h) (cb_pc m h = CbArrive) s m"
  then have uh: "u \<noteq> h" using un by auto
  show ?thesis using v cb_gathering(1) [OF i p a] a bf_not_last [OF i p u uh]
    by (cases "bf_pc s h") (auto simp: bf_same_def)
qed (use cb_gathering(1) [OF i p a] in \<open>simp add: bf_same_def\<close>)

subsection \<open>Every step is matched\<close>

lemma cb_go_same: "cb_go t (cb_pc m t) m = m"
  by (simp add: cb_go_def)

lemmas bf_silent = bf_stay [OF _ _ _ cb_go_same [symmetric]]

text \<open>The tests before the lock.\<close>

lemma bf_sim_tests:
  assumes rel: "bf_rel v p s m" and i: "cb_inv p m" and p: "p < 2 ^ 64" and t: "t < p" and mx: "bf_mutexes v p s'"
    and st: "bf_thread v (of_nat p) t (bf_pc s t) s = Some s'"
    and pc: "bf_pc s t \<in> {BfIdle, BfArrivedTest, BfDepartedTest}"
  shows "\<exists>bs. bf_rel v p s' (run (ArriveAndWait p (of_nat p)) bs m)"
proof -
  note D = bf_relD [OF rel]
  consider "bf_pc s t = BfIdle" | "bf_pc s t = BfArrivedTest" | "bf_pc s t = BfDepartedTest" using pc by blast
  then show ?thesis
  proof cases
    case 1
    then have c: "cb_pc m t = CbIdle" and s': "s' = bf_go t BfArrivedTest s" using D(2) [of t] st by simp_all
    have "bf_rel v p s' (cb_go t CbCheckArrived m)"
      by (rule bf_stay [OF rel mx, of t BfArrivedTest]) (use 1 c D(6) in \<open>auto simp: s' bf_go_def\<close>)
    moreover have "run (ArriveAndWait p (of_nat p)) [(t, CbStep)] m = cb_go t CbCheckArrived m" using c t by (simp add: stutter_def)
    ultimately show ?thesis by metis
  next
    case 2
    then have c: "cb_pc m t = CbCheckArrived" and s': "s' = bf_go t (if bf_arrived s \<ge> of_nat p then BfLimitLock else BfDepartedTest) s"
      using D(2) [of t] st by (simp_all add: bf_test_arrived_def)
    have r: "run (ArriveAndWait p (of_nat p)) [(t, CbStep)] m = cb_go t (limit_check_arrived (of_nat p) m) m" using c t by (simp add: stutter_def)
    from bf_arrived_seen [OF rel i p, of t] 2 c
    have seen: "bf_arrived s = arrived m \<or> bf_arrived s < of_nat p \<and> arrived m < of_nat p \<or>
      bf_arrived s = 0 \<and> arrived m = of_nat p \<and> (\<exists>h. bf_window (bf_pc s h))" by simp
    show ?thesis
    proof (cases "(bf_arrived s \<ge> of_nat p) = (arrived m \<ge> of_nat p)")
      case True
      have "bf_rel v p s' (cb_go t (limit_check_arrived (of_nat p) m) m)"
        by (rule bf_stay [OF rel mx, of t "if bf_arrived s \<ge> of_nat p then BfLimitLock else BfDepartedTest"])
          (use 2 c True D(6) in \<open>auto simp: s' bf_go_def limit_check_arrived_def\<close>)
      then show ?thesis using r by metis
    next
      case False
      then have w: "\<not> bf_arrived s \<ge> of_nat p" "\<exists>h. bf_window (bf_pc s h)" using seen by auto
      then obtain h where "bf_window (bf_pc s h)" by blast
      then have "bf_window (bf_pc s' h)" using 2 s' by (auto simp: bf_go_def)
      then have lag: "bf_lag p s' m" by (auto simp: bf_lag_def)
      have "bf_rel v p s' m"
        by (rule bf_silent [OF rel mx, of t BfDepartedTest]) (use 2 c w(1) lag D(6) in \<open>auto simp: s' bf_go_def cb_go_def\<close>)
      then show ?thesis by (intro exI [of _ "[]"]) simp
    qed
  next
    case 3
    then have c: "cb_pc m t = CbCheckDeparted \<or> bf_lag p s m \<and> cb_pc m t = CbCheckArrived"
      and s': "s' = bf_go t (if bf_departed s \<noteq> 0 then BfLimitLock else BfLock) s"
      using D(2) [of t] st by (simp_all add: bf_test_departed_def)
    have out: "cb_pc m t \<noteq> CbIdle" "\<not> cb_inside (cb_pc m t)" "\<not> bf_locked (bf_pc s t)" using c 3 by auto
    note seen = bf_departed_seen [OF rel i p _ out]
    have "bf_window (bf_pc s' h) = bf_window (bf_pc s h)" for h using 3 s' by (cases "h = t") (auto simp: bf_go_def)
    then have lag: "bf_lag p s' m = bf_lag p s m" by (simp add: bf_lag_def)
    from c show ?thesis
    proof
      assume c: "cb_pc m t = CbCheckDeparted"
      then have a: "arrived m \<noteq> of_nat p" using cb_on_the_way [OF i p] by blast
      have "bf_rel v p s' (cb_go t CbArrive m)"
        by (rule bf_stay [OF rel mx, of t BfLock]) (use 3 c seen [OF a] D(6) in \<open>auto simp: s' bf_go_def\<close>)
      moreover have "run (ArriveAndWait p (of_nat p)) [(t, CbStep)] m = cb_go t CbArrive m"
        using c t cb_gathering(1) [OF i p a] by (simp add: stutter_def limit_check_departed_def)
      ultimately show ?thesis by metis
    next
      assume c: "bf_lag p s m \<and> cb_pc m t = CbCheckArrived"
      show ?thesis
      proof (cases "bf_departed s = 0")
        case True
        have "bf_rel v p s' m"
          by (rule bf_silent [OF rel mx, of t BfLock]) (use 3 c True lag D(6) in \<open>auto simp: s' bf_go_def cb_go_def\<close>)
        then show ?thesis by (intro exI [of _ "[]"]) simp
      next
        case False
        then have a: "arrived m = of_nat p" using seen by blast
        have "bf_rel v p s' (cb_go t CbLimit m)"
          by (rule bf_stay [OF rel mx, of t BfLimitLock]) (use 3 c False D(6) in \<open>auto simp: s' bf_go_def\<close>)
        moreover have "run (ArriveAndWait p (of_nat p)) [(t, CbStep)] m = cb_go t CbLimit m"
          using c t a by (simp add: stutter_def limit_check_arrived_def)
        ultimately show ?thesis by metis
      qed
    qed
  qed
qed

text \<open>The steps that take or release \<open>mtx_\<close> outside the critical section proper.\<close>

lemma bf_sim_limit:
  assumes rel: "bf_rel v p s m" and i: "cb_inv p m" and p: "p < 2 ^ 64" and t: "t < p" and mx: "bf_mutexes v p s'"
    and st: "bf_thread v (of_nat p) t (bf_pc s t) s = Some s'"
    and pc: "bf_pc s t \<in> {BfLimitLock, BfLimitTest, BfLimitUnlock, BfLock}"
  shows "\<exists>bs. bf_rel v p s' (run (ArriveAndWait p (of_nat p)) bs m)"
proof -
  note D = bf_relD [OF rel]
  consider "bf_pc s t = BfLimitLock" | "bf_pc s t = BfLimitTest" | "bf_pc s t = BfLimitUnlock" | "bf_pc s t = BfLock" using pc by blast
  then show ?thesis
  proof cases
    case 1
    then have c: "cb_pc m t = CbLimit" and l: "bf_mtx s = None" and s': "s' = bf_go t BfLimitTest (s\<lparr>bf_mtx := Some t\<rparr>)"
      using D(2) [of t] st by (simp_all add: bf_lock_def split: if_splits)
    have "bf_rel v p s' m"
      by (rule bf_silent [OF rel mx, of t BfLimitTest])
        (use 1 c D(3) [OF l] D(6) in \<open>auto simp: s' bf_go_def cb_go_def bf_same_def\<close>)
    then show ?thesis by (intro exI [of _ "[]"]) simp
  next
    case 2
    then have c: "cb_pc m t = CbLimit" using D(2) [of t] by simp
    have v: "bf_same s m" using D(4) [of t] 2 by simp
    have s': "s' = (if arrived m < of_nat p \<and> departed m = 0 then bf_go t BfLimitUnlock s else bf_unlock t BfLimitSleep s)"
      using 2 st v by (simp add: bf_limit_test_def bf_same_def)
    have "bf_rel v p s' (cb_go t (limit_wait (of_nat p) m) m)"
      by (rule bf_stay [OF rel mx, of t "if arrived m < of_nat p \<and> departed m = 0 then BfLimitUnlock else BfLimitSleep"])
        (use 2 c v D(6) in \<open>auto simp: s' bf_go_def bf_unlock_def bf_same_def limit_wait_def split: if_splits\<close>)
    moreover have "run (ArriveAndWait p (of_nat p)) [(t, CbStep)] m = cb_go t (limit_wait (of_nat p) m) m" using c t by (simp add: stutter_def)
    ultimately show ?thesis by metis
  next
    case 3
    then have c: "cb_pc m t = CbArrive" and s': "s' = bf_unlock t BfLock s" and v: "bf_same s m"
      using D(2) [of t] D(4) [of t] st by simp_all
    have "bf_rel v p s' m"
      by (rule bf_silent [OF rel mx, of t BfLock]) (use 3 c v D(6) in \<open>auto simp: s' bf_unlock_def bf_go_def cb_go_def bf_same_def\<close>)
    then show ?thesis by (intro exI [of _ "[]"]) simp
  next
    case 4
    then have c: "cb_pc m t = CbArrive \<or> bf_lag p s m \<and> cb_pc m t = CbCheckArrived" and l: "bf_mtx s = None"
      and s': "s' = bf_go t BfArrMtx (s\<lparr>bf_mtx := Some t\<rparr>)"
      using D(2) [of t] st by (simp_all add: bf_lock_def split: if_splits)
    have r: "bf_rel v p s' (cb_go t CbArrive m)"
      by (rule bf_stay [OF rel mx, of t BfArrMtx]) (use 4 c D(3) [OF l] D(6) in \<open>auto simp: s' bf_go_def bf_same_def\<close>)
    from c show ?thesis
    proof
      assume "cb_pc m t = CbArrive"
      then show ?thesis using r by (intro exI [of _ "[]"]) (simp add: cb_go_def fun_upd_idem)
    next
      assume c: "bf_lag p s m \<and> cb_pc m t = CbCheckArrived"
      have "\<not> bf_window (bf_pc s h)" for h using bf_unlocked [OF D(1)] l bf_window_locked(1) by blast
      then have a: "arrived m \<noteq> of_nat p" using c by (simp add: bf_lag_def)
      have "run (ArriveAndWait p (of_nat p)) [(t, CbStep), (t, CbStep)] m = cb_go t CbArrive m"
        using c t cb_gathering [OF i p a] by (simp add: stutter_def limit_check_arrived_def limit_check_departed_def cb_go_def not_le [symmetric])
      then show ?thesis using r by metis
    qed
  qed
qed

text \<open>The steps inside a critical section of which \<open>Barrier\<close> sees nothing.\<close>

lemma bf_internal:
  assumes rel: "bf_rel v p s m" and mx: "bf_mutexes v p s'" and pc: "bf_pc s' = (bf_pc s)(t := q)"
    and l: "bf_locked (bf_pc s t)" "bf_locked q"
    and own: "\<And>lag post. bf_point lag post (bf_pc s t) (cb_pc m t) \<Longrightarrow> bf_point lag post q (cb_pc m t)"
    and vals: "bf_vals (of_nat p) (bf_pc s t) (cb_pc m t = CbArrive) s m \<Longrightarrow> bf_vals (of_nat p) q (cb_pc m t = CbArrive) s' m"
    and win: "bf_window (bf_pc s t) \<Longrightarrow> bf_window q" and post: "bf_post (bf_pc s t) \<Longrightarrow> bf_post q"
    and sleep: "\<And>u. bf_post q \<Longrightarrow> \<not> bf_post (bf_pc s t) \<Longrightarrow> bf_pc s u \<noteq> BfWaitSleep"
    and ent: "bf_entered s' = (bf_entered s)(t := bf_entered s t + of_bool (cb_pc m t = CbArrive \<and> bf_stored q \<and> \<not> bf_stored (bf_pc s t)))"
    and sto: "bf_stored (bf_pc s t) \<Longrightarrow> bf_stored q"
    and pas: "bf_passed s' = bf_passed s"
  shows "bf_rel v p s' m"
proof (rule bf_silent [OF rel mx pc], goal_cases)
  case 1
  have w: "bf_window (bf_pc s' h)" if "bf_window (bf_pc s h)" for h using that win by (cases "h = t") (auto simp: pc)
  have po: "bf_post (bf_pc s' h)" if "bf_post (bf_pc s h)" for h using that post by (cases "h = t") (auto simp: pc)
  show ?case
    by (rule bf_point_mono [OF own [OF bf_relD(2) [OF rel, of t]]]) (use w po in \<open>auto simp: bf_lag_def bf_posted_def\<close>)
next
  case (9 u)
  show ?case using bf_relD(6) [OF rel, of t] sto unfolding ent by (auto simp: of_bool_def)
qed (use l vals bf_relD(4) [OF rel l(1)] win post sleep pas in auto)

lemma bf_sim_arrive:
  assumes rel: "bf_rel v p s m" and mx: "bf_mutexes v p s'"
    and st: "bf_thread v (of_nat p) t (bf_pc s t) s = Some s'"
    and pc: "bf_pc s t \<in> {BfArrMtx, BfArrRead, BfArrUnlock} \<union> range BfArrStore"
  shows "bf_rel v p s' m"
proof -
  consider "bf_pc s t = BfArrMtx" | "bf_pc s t = BfArrRead" | x where "bf_pc s t = BfArrStore x" | "bf_pc s t = BfArrUnlock" using pc by blast
  then show ?thesis
  proof cases
    case 1
    then show ?thesis using st
      by (intro bf_internal [OF rel mx, of t BfArrRead]) (auto simp: bf_arrived_mtx_lock_def bf_go_def bf_same_def split: if_splits)
  next
    case 2
    then show ?thesis using st bf_relD(2) [OF rel, of t]
      by (intro bf_internal [OF rel mx, of t "if v = Atomics then BfArrUnlock else BfArrStore (bf_arrived s)"])
        (auto simp: bf_arrived_read_def bf_arrived_store_def bf_go_def bf_same_def split: if_splits)
  next
    case (3 x)
    then show ?thesis using st bf_relD(2) [OF rel, of t]
      by (intro bf_internal [OF rel mx, of t BfArrUnlock]) (auto simp: bf_arrived_store_def bf_go_def bf_same_def)
  next
    case 4
    then show ?thesis using st bf_relD(2) [OF rel, of t]
      by (intro bf_internal [OF rel mx, of t BfWaitTest]) (auto simp: bf_arrived_mtx_unlock_def bf_go_def bf_same_def split: if_splits)
  qed
qed

text \<open>A thread that finds the others notified: then none is asleep.\<close>

lemma cb_none_asleep:
  assumes i: "cb_inv p m" and p: "p < 2 ^ 64" and n: "is_notified m"
  shows "cb_pc m u \<noteq> CbWaitSleep"
proof
  assume c: "cb_pc m u = CbWaitSleep"
  then have "u < p" using cb_outside_idle [OF i] by simp
  moreover have "arrived m = of_nat p" using cb_gathering(2) [OF i p] n by blast
  ultimately show False using cb_draining(2) [OF i p] c by blast
qed

lemma bf_none_asleep: "bf_rel v p s m \<Longrightarrow> cb_inv p m \<Longrightarrow> p < 2 ^ 64 \<Longrightarrow> is_notified m \<Longrightarrow> bf_pc s u \<noteq> BfWaitSleep"
  using bf_relD(2) [of v p s m u] cb_none_asleep [of p m u] by fastforce

lemma bf_sim_depart:
  assumes rel: "bf_rel v p s m" and i: "cb_inv p m" and p: "p < 2 ^ 64" and mx: "bf_mutexes v p s'"
    and st: "bf_thread v (of_nat p) t (bf_pc s t) s = Some s'"
    and pc: "bf_pc s t \<in> {BfNotifyTest, BfDepMtx, BfDepRead, BfDepUnlock, BfResetArrived, BfResetDeparted} \<union> range BfDepStore \<or>
      bf_pc s t = BfWaitTest \<and> bf_arrived s = of_nat p \<or> bf_pc s t = BfDoneTest \<and> bf_departed s = bf_arrived s"
  shows "bf_rel v p s' m"
proof -
  note D = bf_relD [OF rel]
  consider "bf_pc s t = BfNotifyTest" | "bf_pc s t = BfDepMtx" | "bf_pc s t = BfDepRead" | x where "bf_pc s t = BfDepStore x"
    | "bf_pc s t = BfDepUnlock" | "bf_pc s t = BfResetArrived" | "bf_pc s t = BfResetDeparted"
    | "bf_pc s t = BfWaitTest" "bf_arrived s = of_nat p" | "bf_pc s t = BfDoneTest" "bf_departed s = bf_arrived s" using pc by blast
  then show ?thesis
  proof cases
    case 1
    then have v: "bf_arrived s = of_nat p" "bf_notified s = is_notified m" using D(4) [of t] by simp_all
    have na: "bf_notified s \<Longrightarrow> bf_pc s u \<noteq> BfWaitSleep" for u using bf_none_asleep [OF rel i p] v(2) by simp
    show ?thesis using 1 st D(2) [of t] v na
      by (intro bf_internal [OF rel mx, of t "if bf_notified s then BfDepMtx else BfNotify"]) (auto simp: bf_notify_test_def bf_go_def)
  next
    case 2
    then show ?thesis using st
      by (intro bf_internal [OF rel mx, of t BfDepRead]) (auto simp: bf_departed_mtx_lock_def bf_go_def split: if_splits)
  next
    case 3
    then show ?thesis using st
      by (intro bf_internal [OF rel mx, of t "if v = Atomics then BfDepUnlock else BfDepStore (bf_departed s)"])
        (auto simp: bf_departed_read_def bf_departed_store_def bf_go_def split: if_splits)
  next
    case (4 x)
    then show ?thesis using st by (intro bf_internal [OF rel mx, of t BfDepUnlock]) (auto simp: bf_departed_store_def bf_go_def)
  next
    case 5
    then show ?thesis using st
      by (intro bf_internal [OF rel mx, of t BfDoneTest]) (auto simp: bf_departed_mtx_unlock_def bf_go_def split: if_splits)
  next
    case 6
    then show ?thesis using st by (intro bf_internal [OF rel mx, of t BfResetDeparted]) (auto simp: bf_go_def)
  next
    case 7
    then show ?thesis using st by (intro bf_internal [OF rel mx, of t BfResetNotified]) (auto simp: bf_go_def)
  next
    case 8
    then show ?thesis using st by (intro bf_internal [OF rel mx, of t BfNotifyTest]) (auto simp: bf_wait_test_def bf_go_def)
  next
    case 9
    then show ?thesis using st by (intro bf_internal [OF rel mx, of t BfResetArrived]) (auto simp: bf_done_test_def bf_go_def)
  qed
qed

lemma bf_sim_unlock:
  assumes rel: "bf_rel v p s m" and t: "t < p" and mx: "bf_mutexes v p s'"
    and st: "bf_thread v (of_nat p) t (bf_pc s t) s = Some s'"
    and pc: "bf_pc s t = BfUnlock \<or> bf_pc s t = BfWaitLock"
  shows "bf_rel v p s' m"
  using pc
proof
  assume pc: "bf_pc s t = BfUnlock"
  then have c: "cb_pc m t = CbIdle" and v: "bf_same s m" and s': "s' = bf_unlock t BfIdle s"
    using bf_relD(2,4) [OF rel, of t] st by simp_all
  show ?thesis
    by (rule bf_silent [OF rel mx, of t BfIdle]) (use pc c v bf_relD(6) [OF rel] in \<open>auto simp: s' bf_unlock_def bf_go_def bf_same_def\<close>)
next
  assume pc: "bf_pc s t = BfWaitLock"
  then have l: "bf_mtx s = None" and s': "s' = bf_go t BfWaitTest (s\<lparr>bf_mtx := Some t\<rparr>)"
    using st by (simp_all add: bf_lock_def split: if_splits)
  have "\<not> bf_posted s" using bf_unlocked [OF bf_relD(1) [OF rel]] l bf_window_locked(2) unfolding bf_posted_def by blast
  then have c: "cb_pc m t = CbWait" using bf_relD(2) [OF rel, of t] pc by simp
  show ?thesis
    by (rule bf_silent [OF rel mx, of t BfWaitTest])
      (use pc c bf_relD(3) [OF rel l] bf_relD(6) [OF rel] in \<open>auto simp: s' bf_go_def bf_same_def\<close>)
qed

text \<open>Going to sleep: a thread that was woken too early, or one that has arrived and is not the last.\<close>

lemma bf_sim_sleep:
  assumes rel: "bf_rel v p s m" and i: "cb_inv p m" and p: "p < 2 ^ 64" and t: "t < p" and mx: "bf_mutexes v p s'"
    and st: "bf_thread v (of_nat p) t (bf_pc s t) s = Some s'"
    and pc: "bf_pc s t = BfWaitTest" and a: "bf_arrived s \<noteq> of_nat p"
  shows "bf_rel v p s' (run (ArriveAndWait p (of_nat p)) [(t, CbStep)] m)"
proof -
  note D = bf_relD [OF rel]
  have s': "s' = bf_unlock t BfWaitSleep s" using st pc a by (simp add: bf_wait_test_def)
  have v: "bf_arrived s = arrived m + of_bool (cb_pc m t = CbArrive)" "bf_departed s = departed m" "bf_notified s = is_notified m"
    using D(4) [of t] pc by simp_all
  have "cb_pc m t = CbArrive \<or> cb_pc m t = CbWait" using D(2) [of t] pc by simp
  then show ?thesis
  proof
    assume c: "cb_pc m t = CbWait"
    then have "run (ArriveAndWait p (of_nat p)) [(t, CbStep)] m = cb_go t CbWaitSleep m"
      using t v a by (simp add: stutter_def arrival_wait_def cb_go_def)
    then show ?thesis
      by (intro bf_stay [OF rel mx, of t BfWaitSleep _ CbWaitSleep])
        (use pc c v D(6) in \<open>auto simp: s' bf_unlock_def bf_go_def bf_same_def\<close>)
  next
    assume c: "cb_pc m t = CbArrive"
    define m' where "m' = run (ArriveAndWait p (of_nat p)) [(t, CbStep)] m"
    have a': "arrived m + 1 \<noteq> of_nat p" using v(1) a c by simp
    have m': "arrived m' = arrived m + 1" "departed m' = departed m" "is_notified m' = is_notified m"
      "cb_pc m' = (cb_pc m)(t := CbWaitSleep)" "cb_entered m' = (cb_entered m)(t := Suc (cb_entered m t))" "cb_passed m' = cb_passed m"
      unfolding m'_def using t c a' by (simp_all add: stutter_def arrive_def arrival_wait_def)
    have only: "\<not> bf_locked (bf_pc s u)" if "u \<noteq> t" for u using bf_only_holder [OF D(1), of t u] pc that by auto
    have np: "\<not> bf_posted s" "\<not> bf_posted s'" using only bf_window_locked(2) pc by (auto simp: bf_posted_def s' bf_unlock_def bf_go_def) (metis bf_post.simps)+
    have lag: "bf_lag p s' m'" using a' m'(1) by (simp add: bf_lag_def)
    have "bf_rel v p s' m'"
    proof (rule bf_relI [OF mx], goal_cases)
      case (1 u)
      show ?case
      proof (cases "u = t")
        case False
        then show ?thesis using bf_point_mono [OF D(2) [of u], of True False] lag np by (simp add: s' m' bf_unlock_def bf_go_def)
      qed (simp add: s' m' bf_unlock_def bf_go_def)
    next
      case 2 show ?case using v c by (simp add: s' m' bf_same_def bf_unlock_def bf_go_def)
    next
      case (3 h) then show ?case using only by (auto simp: s' bf_unlock_def bf_go_def split: if_splits)
    next
      case (4 u) then show ?case using np by blast
    next
      case (5 u) show ?case using D(6) [of u] pc c by (simp add: s' m' bf_unlock_def bf_go_def)
    next
      case (6 u) show ?case using D(7) [of u] by (simp add: s' m' bf_unlock_def bf_go_def)
    qed
    then show ?thesis by (simp add: m'_def)
  qed
qed

text \<open>Notifying the waiting threads, which \<open>Barrier\<close> does at the end of the critical section.\<close>

lemma bf_sim_notify:
  assumes rel: "bf_rel v p s m" and mx: "bf_mutexes v p s'" and pc: "bf_pc s t = BfNotify" and s': "s' = bf_notify t s"
  shows "bf_rel v p s' m"
proof -
  note D = bf_relD [OF rel]
  have f: "bf_pc s' = (bf_wake_arrival (bf_pc s))(t := BfDepMtx)" "bf_notified s'" "bf_arrived s' = bf_arrived s"
    "bf_departed s' = bf_departed s" "bf_mtx s' = bf_mtx s" "bf_entered s' = bf_entered s" "bf_passed s' = bf_passed s"
    by (simp_all add: s' bf_notify_def bf_go_def)
  have only: "\<not> bf_locked (bf_pc s u)" if "u \<noteq> t" for u using bf_only_holder [OF D(1), of t u] pc that by auto
  have po: "bf_posted s'" unfolding bf_posted_def by (rule exI [of _ t]) (simp add: f)
  have "\<not> bf_window (bf_pc s h)" for h using only [of h] bf_window_locked(1) pc by (cases "h = t") auto
  then have lag: "bf_lag p s m \<Longrightarrow> bf_lag p s' m" by (simp add: bf_lag_def)
  have v: "bf_arrived s = of_nat p" "of_nat p = arrived m + of_bool (cb_pc m t = CbArrive)" "bf_departed s = departed m"
    using D(4) [of t] pc by simp_all
  show ?thesis
  proof (rule bf_relI [OF mx], goal_cases)
    case (1 u)
    show ?case
    proof (cases "u = t")
      case True then show ?thesis using D(2) [of t] pc by (simp add: f)
    next
      case False
      show ?thesis
      proof (cases "bf_pc s u = BfWaitSleep")
        case True then show ?thesis using D(2) [of u] False po by (simp add: f bf_wake_arrival_def)
      next
        case wk: False
        then show ?thesis using bf_point_mono [OF D(2) [of u] lag] False po by (simp add: f bf_wake_arrival_def)
      qed
    qed
  next
    case 2
    then have "\<not> bf_locked (bf_pc s' t)" using bf_unlocked [OF mx] by blast
    then show ?case by (simp add: f)
  next
    case (3 h)
    then have "h = t" using only [of h] by (cases "h = t") (auto simp: f bf_wake_arrival_def split: if_splits)
    then show ?case using v by (simp add: f)
  next
    case (4 u) show ?case by (simp add: f bf_wake_arrival_def)
  next
    case (5 u) show ?case using D(6) [of u] D(2) [of u] pc by (cases "bf_pc s u") (auto simp: f bf_wake_arrival_def)
  next
    case (6 u) show ?case using D(7) [of u] by (simp add: f)
  qed
qed

text \<open>The critical section of the last arrival and of a departure in \<open>Barrier\<close>.\<close>

definition cb_woken :: "cb_state \<Rightarrow> tid \<Rightarrow> cb_pc" where
  "cb_woken m = (if is_notified m then cb_pc m else notify_arrival (cb_pc m))"

lemma cb_section:
  assumes t: "t < n" and c: "cb_pc m t = CbArrive \<or> cb_pc m t = CbWait" and a: "c = arrived m + of_bool (cb_pc m t = CbArrive)"
    and m': "m' = run (ArriveAndWait n c) [(t, CbStep)] m"
  shows "departed m + 1 \<noteq> c \<Longrightarrow> arrived m' = c \<and> departed m' = departed m + 1 \<and> is_notified m' \<and> cb_pc m' = (cb_woken m)(t := CbIdle)"
    and "departed m + 1 = c \<Longrightarrow> arrived m' = 0 \<and> departed m' = 0 \<and> \<not> is_notified m' \<and> cb_pc m' = (notify_limit (cb_woken m))(t := CbIdle)"
    and "cb_entered m' = (cb_entered m)(t := cb_entered m t + of_bool (cb_pc m t = CbArrive))"
    and "cb_passed m' = (cb_passed m)(t := Suc (cb_passed m t))"
  using c a t unfolding m'
  by (auto simp: stutter_def arrive_def arrival_wait_def depart_def Let_def cb_woken_def notify_limit_def)

text \<open>The corresponding end of a critical section, when the counters are not reset and when they are.\<close>

lemma bf_sim_pass:
  assumes rel: "bf_rel v p s m" and i: "cb_inv p m" and p: "0 < p" "p < 2 ^ 64" and t: "t < p" and mx: "bf_mutexes v p s'"
    and pc: "bf_pc s t = BfDoneTest \<and> bf_departed s \<noteq> bf_arrived s \<and> wake = (\<lambda>f. f) \<and> s' = bf_pass t s \<or>
      bf_pc s t = BfResetNotified \<and> wake = bf_wake_limit \<and> s' = bf_reset_notified t s"
  shows "bf_rel v p s' (run (ArriveAndWait p (of_nat p)) [(t, CbStep)] m)"
proof -
  note D = bf_relD [OF rel]
  define m' where "m' = run (ArriveAndWait p (of_nat p)) [(t, CbStep)] m"
  have c: "cb_pc m t = CbArrive \<or> cb_pc m t = CbWait" using D(2) [of t] pc by auto
  have a: "of_nat p = arrived m + of_bool (cb_pc m t = CbArrive)" using D(4) [of t] pc by auto
  note sec = cb_section [OF t c a m'_def]
  have po: "bf_posted s" unfolding bf_posted_def by (rule exI [of _ t]) (use pc in auto)
  have f: "bf_pc s' = (wake (bf_pc s))(t := BfUnlock)" "bf_entered s' = bf_entered s" "bf_passed s' = (bf_passed s)(t := Suc (bf_passed s t))"
    using pc by (auto simp: bf_pass_def bf_reset_notified_def bf_go_def)
  have only: "\<not> bf_locked (bf_pc s u)" if "u \<noteq> t" for u using bf_only_holder [OF D(1), of t u] pc that by auto
  have wk: "bf_locked (wake (bf_pc s) u) = bf_locked (bf_pc s u)" for u using pc by (auto simp: bf_wake_limit_def split: if_splits)
  have "\<not> bf_post (bf_pc s' h)" for h
    using only [of h] wk [of h] bf_window_locked(2) [of "wake (bf_pc s) h"] by (cases "h = t") (auto simp: f(1))
  then have np: "\<not> bf_posted s'" by (simp add: bf_posted_def)
  have same: "bf_same s' m'"
    using pc D(4) [of t] sec(1,2) by (auto simp: bf_same_def bf_pass_def bf_reset_notified_def bf_go_def)
  have pts: "bf_point (bf_lag p s' m') False (wake (bf_pc s) u) (cb_pc m' u)" if u: "u \<noteq> t" for u
    using pc
  proof (elim disjE conjE)
    assume q: "bf_pc s t = BfDoneTest" "bf_departed s \<noteq> bf_arrived s" "wake = (\<lambda>f. f)"
    then have d: "departed m + 1 \<noteq> of_nat p" using D(4) [of t] by auto
    have nw: "\<not> bf_window (bf_pc s h)" for h using only [of h] bf_window_locked(1) q(1) by (cases "h = t") auto
    have "\<not> (bf_lag p s m \<and> cb_pc m u = CbCheckArrived)"
    proof
      assume l: "bf_lag p s m \<and> cb_pc m u = CbCheckArrived"
      then have "arrived m \<noteq> of_nat p" using nw by (simp add: bf_lag_def)
      then show False using bf_not_last [OF i p(2), of u t] l a u by auto
    qed
    then show ?thesis using D(2) [of u] D(5) [OF po, of u] sec(1) [OF d] u q(3) cb_none_asleep [OF i p(2), of u]
      by (cases "bf_pc s u") (auto simp: cb_woken_def notify_arrival_def)
  next
    assume q: "bf_pc s t = BfResetNotified" "wake = bf_wake_limit"
    then have d: "departed m + 1 = of_nat p" using D(4) [of t] by auto
    have "(of_nat p :: size_t) \<noteq> 0" using of_nat_size_t_inj [of p 0] p by simp
    then have lag: "bf_lag p s' m'" using sec(2) [OF d] by (simp add: bf_lag_def)
    show ?thesis using D(2) [of u] D(5) [OF po, of u] sec(2) [OF d] u q(2) lag cb_none_asleep [OF i p(2), of u]
      by (cases "bf_pc s u") (auto simp: cb_woken_def notify_arrival_def notify_limit_def bf_wake_limit_def)
  qed
  have "bf_rel v p s' m'"
  proof (rule bf_relI [OF mx], goal_cases)
    case (1 u)
    show ?case
    proof (cases "u = t")
      case True then show ?thesis using sec(1,2) by (cases "departed m + 1 = of_nat p") (auto simp: f)
    next
      case False then show ?thesis using pts [OF False] np by (simp add: f)
    qed
  next
    case 2 show ?case by (rule same)
  next
    case (3 h)
    then have "h = t" using only [of h] wk [of h] by (cases "h = t") (auto simp: f)
    then show ?case using same by (simp add: f)
  next
    case (4 u) then show ?case using np by blast
  next
    case (5 u) 
    show ?case
    proof (cases "u = t")
      case True
      have "cb_pc m' t = CbIdle" using sec(1,2) by (cases "departed m + 1 = of_nat p") auto
      then show ?thesis using True D(6) [of t] pc sec(3) by (auto simp: f)
    next
      case False
      have "\<not> bf_stored (bf_pc s u)" "\<not> bf_stored (wake (bf_pc s) u)" using only [OF False] wk [of u] 
        by (cases "bf_pc s u"; cases "wake (bf_pc s) u"; simp)+
      then show ?thesis using False D(6) [of u] sec(3) by (simp add: f)
    qed
  next
    case (6 u) show ?case using D(7) [of u] D(7) [of t] sec(4) by (auto simp: f)
  qed
  then show ?thesis by (simp add: m'_def)
qed

lemma bf_sim_spurious:
  assumes rel: "bf_rel v p s m" and mx: "bf_mutexes v p s'" and st: "bf_step v p (of_nat p) (t, CbSpurious) s = Some s'"
  shows "bf_rel v p s' (run (ArriveAndWait p (of_nat p)) [(t, CbSpurious)] m)"
proof -
  note D = bf_relD [OF rel]
  have "bf_pc s t = BfLimitSleep \<and> s' = bf_go t BfLimitLock s \<or> bf_pc s t = BfWaitSleep \<and> s' = bf_go t BfWaitLock s"
    using st by (auto split: if_splits)
  then show ?thesis
  proof (elim disjE conjE)
    assume s': "bf_pc s t = BfLimitSleep" "s' = bf_go t BfLimitLock s"
    then have c: "cb_pc m t = CbLimitSleep" using D(2) [of t] by simp
    have "bf_rel v p s' (cb_go t CbLimit m)"
      by (rule bf_stay [OF rel mx, of t BfLimitLock]) (use s' c D(6) in \<open>auto simp: bf_go_def\<close>)
    then show ?thesis using c by (simp add: stutter_def)
  next
    assume s': "bf_pc s t = BfWaitSleep" "s' = bf_go t BfWaitLock s"
    then have c: "cb_pc m t = CbWaitSleep" using D(2) [of t] by simp
    have "bf_rel v p s' (cb_go t CbWait m)"
      by (rule bf_stay [OF rel mx, of t BfWaitLock]) (use s' c D(6) in \<open>auto simp: bf_go_def\<close>)
    then show ?thesis using c by (simp add: stutter_def)
  qed
qed

lemma bf_step_sim:
  assumes rel: "bf_rel v p s m" and i: "cb_inv p m" and p: "0 < p" "p < 2 ^ 64" and st: "bf_step v p (of_nat p) a s = Some s'"
  shows "\<exists>bs. bf_rel v p s' (run (ArriveAndWait p (of_nat p)) bs m)"
proof -
  obtain t b where a: "a = (t, b)" by (cases a)
  note mx = bf_mutexes_step [OF bf_relD(1) [OF rel] st]
  have silent: ?thesis if "bf_rel v p s' m" using that by (intro exI [of _ "[]"]) simp
  show ?thesis
  proof (cases b)
    case CbSpurious
    then show ?thesis using bf_sim_spurious [OF rel mx] st a by blast
  next
    case CbStep
    then have t: "t < p" and th: "bf_thread v (of_nat p) t (bf_pc s t) s = Some s'" using st a by (auto split: if_splits)
    note arr = silent [OF bf_sim_arrive [OF rel mx th]] and dep = silent [OF bf_sim_depart [OF rel i p(2) mx th]]
    note tests = bf_sim_tests [OF rel i p(2) t mx th] and limit = bf_sim_limit [OF rel i p(2) t mx th]
    note unlock = silent [OF bf_sim_unlock [OF rel t mx th]]
    show ?thesis
    proof (cases "bf_pc s t")
      case BfWaitTest
      then show ?thesis
      proof (cases "bf_arrived s = of_nat p")
        case True
        then show ?thesis using dep BfWaitTest by blast
      next
        case False
        then show ?thesis using bf_sim_sleep [OF rel i p(2) t mx th BfWaitTest] by blast
      qed
    next
      case BfNotify
      then show ?thesis using silent bf_sim_notify [OF rel mx BfNotify] th by simp
    next
      case BfDoneTest
      then show ?thesis
      proof (cases "bf_departed s = bf_arrived s")
        case True
        then show ?thesis using dep BfDoneTest by blast
      next
        case False
        then have "s' = bf_pass t s" using th BfDoneTest by (simp add: bf_done_test_def)
        then show ?thesis using bf_sim_pass [OF rel i p t mx, of "\<lambda>f. f"] BfDoneTest False by blast
      qed
    next
      case BfResetNotified
      then have "s' = bf_reset_notified t s" using th by simp
      then show ?thesis using bf_sim_pass [OF rel i p t mx, of bf_wake_limit] BfResetNotified by blast
    qed (use arr dep tests limit unlock th in auto)
  qed
qed

definition bf_sound :: "bf_version \<Rightarrow> nat \<Rightarrow> bf_state \<Rightarrow> cb_state \<Rightarrow> bool" where
  "bf_sound v p s m = (0 < p \<and> p < 2 ^ 64 \<longrightarrow> bf_rel v p s m)"

interpretation barrier_steps: simulation CyclicBarrier_init "ArriveAndWait p (of_nat p)" "\<lambda>m. 0 < p \<and> p < 2 ^ 64 \<longrightarrow> cb_inv p m"
  bf_init "bf_step v p (of_nat p)" "bf_sound v p" for v p
proof unfold_locales
  show "bf_sound v p bf_init CyclicBarrier_init"
    by (simp add: bf_sound_def bf_rel_def bf_mutexes_def bf_init_def CyclicBarrier_init_def bf_same_def bf_posted_def)
qed (use cb_inv_start cb_inv_step bf_step_sim in \<open>auto simp: bf_sound_def\<close>)

subsection \<open>Property\<close>

lemma bf_entered_bound:
  assumes rel: "bf_rel v p s m" and i: "cb_inv p m" and p: "p < 2 ^ 64" and "t < p" "u < p"
  shows "bf_entered s t \<le> Suc (bf_passed s u)"
proof (cases "cb_pc m t = CbArrive")
  case True
  then obtain g where "cb_gather p g m" using cb_on_the_way [OF i p, of t] i unfolding cb_inv_def cb_drain_def by blast
  then have "cb_entered m t = g" "cb_passed m u = g" using True assms(4,5) unfolding cb_gather_def by auto
  then show ?thesis using bf_relD(6,7) [OF rel] by simp
next
  case False
  then show ?thesis using cb_inv_barrier(2) [OF i assms(4,5)] bf_relD(6,7) [OF rel] by simp
qed

lemma bf_can_move:
  assumes rel: "bf_rel v p s m" and i: "cb_inv p m"
  shows "\<exists>w<p. bf_step v p c (w, CbStep) s \<noteq> None"
proof (cases "\<exists>h. bf_locked (bf_pc s h)")
  case True
  then obtain h where h: "bf_locked (bf_pc s h)" by blast
  have "h < p" using bf_relD(1) [OF rel] h unfolding bf_mutexes_def by (metis bf_locked.simps(1) not_less)
  then show ?thesis using bf_holder_moves [OF bf_relD(1) [OF rel] h] by auto
next
  case False
  then have l: "bf_mtx s = None" using bf_unlocked [OF bf_relD(1) [OF rel]] by simp
  obtain w where w: "w < p" "cb_pc m w \<noteq> CbLimitSleep" "cb_pc m w \<noteq> CbWaitSleep" using cb_inv_awake [OF i] by blast
  have "bf_thread v c w (bf_pc s w) s \<noteq> None"
    using bf_relD(2) [OF rel, of w] w(2,3) not_ex [THEN iffD1, OF False, rule_format, of w] l by (cases "bf_pc s w") (auto simp: bf_lock_def)
  then show ?thesis using w(1) by auto
qed

text \<open>C12: All three versions of the cyclic barrier, access by access, implement the barrier whose critical sections are single steps: on
  every schedule of as many threads as participants the state corresponds to one that \<open>Barrier\<close> reaches. So no thread has finished
  its k-th call before every thread has entered its k-th, none is two cycles ahead, and some thread can always move.\<close>

theorem cyclic_barrier_access_by_access:
  assumes "0 < p" and "p < 2 ^ 64" and "t < p" and "u < p" and "s = run (bf_step v p (of_nat p)) sched bf_init"
  shows "(\<exists>bs. bf_rel v p s (run (ArriveAndWait p (of_nat p)) bs CyclicBarrier_init)) \<and>
    bf_passed s t \<le> bf_entered s u \<and> bf_entered s t \<le> Suc (bf_passed s u) \<and>
    (\<exists>w<p. bf_step v p (of_nat p) (w, CbStep) s \<noteq> None)"
proof -
  obtain bs where r: "bf_rel v p s (run (ArriveAndWait p (of_nat p)) bs CyclicBarrier_init)"
    using barrier_steps.sim_run [of v p sched] assms(1,2,5) by (auto simp: bf_sound_def)
  note i = cb_inv_run [OF assms(1,2), of bs]
  have "bf_passed s t \<le> bf_entered s u" using cb_inv_barrier(1) [OF i assms(3,4)] bf_relD(6,7) [OF r] by simp
  then show ?thesis using r bf_entered_bound [OF r i assms(2-4)] bf_can_move [OF r i] by blast
qed

text \<open>A witness: two threads in the version with the inner mutexes, the second one past its call.\<close>

lemma cyclic_barrier_access_by_access_witness:
  "let s = run (bf_step InnerMutexes 2 2) (replicate 12 (0, CbStep) @ replicate 20 (1, CbStep)) bf_init
   in bf_passed s 1 = 1 \<and> bf_passed s 1 \<le> bf_entered s 0 \<and> (\<exists>w<2. bf_step InnerMutexes 2 2 (w, CbStep) s \<noteq> None)"
proof -
  define s where "s = run (bf_step InnerMutexes 2 2) (replicate 12 (0, CbStep) @ replicate 20 (1, CbStep)) bf_init"
  have "bf_passed s 1 = 1" unfolding s_def by code_simp
  with cyclic_barrier_access_by_access [of 2 1 0 s InnerMutexes "replicate 12 (0, CbStep) @ replicate 20 (1, CbStep)"]
  show ?thesis unfolding s_def [symmetric] by (simp add: s_def)
qed

end
