(* ===== verification/FuturesPar.thy ===== *)
theory FuturesPar
  imports Futures
begin

section \<open>Both, First and Flatten on every schedule\<close>

text \<open>
  The inputs are futures of Submit on any two executors, with any results. Tasks may run between the calls that build the pipeline
  and after them, in any order. \<open>always n Q w\<close> says that \<open>Q\<close> holds in \<open>w\<close> and after any tasks run from there, of which there
  are at most \<open>n\<close>.
\<close>

fun nexts :: "fworld \<Rightarrow> task list \<Rightarrow> task list \<Rightarrow> fworld list" where
  "nexts w before [] = []"
| "nexts w before (t # after) = run_task t (w\<lparr>ftasks := before @ after\<rparr>) # nexts w (before @ [t]) after"

fun always :: "nat \<Rightarrow> (fworld \<Rightarrow> bool) \<Rightarrow> fworld \<Rightarrow> bool" where
  "always 0 Q w = (Q w \<and> (crashed w \<or> ftasks w = []))"
| "always (Suc n) Q w = (Q w \<and> (crashed w \<or> list_all (always n Q) (nexts w [] (ftasks w))))"

lemma nexts_nth:
  "k < length ts \<Longrightarrow> run_task (ts ! k) (w\<lparr>ftasks := before @ List.take k ts @ drop (Suc k) ts\<rparr>) \<in> set (nexts w before ts)"
proof (induction w before ts arbitrary: k rule: nexts.induct)
  case (2 w before t after)
  then show ?case by (cases k) auto
qed simp

lemma always_now: "always n Q w \<Longrightarrow> Q w"
  by (cases n) auto

lemma always_step: "always n Q w \<Longrightarrow> fut_step k w = Some w' \<Longrightarrow> \<exists>n'. always n' Q w'"
  using nexts_nth [where before = "[]" and ts = "ftasks w" and w = w and k = k]
  by (cases n) (auto simp: fut_step_def take_task_def list_all_iff split: if_splits)

lemma always_run: "always n Q w \<Longrightarrow> Q (run fut_step ks w)"
proof (induction ks arbitrary: n w)
  case Nil
  then show ?case by (simp add: always_now)
next
  case (Cons k ks)
  show ?case
  proof (cases "fut_step k w")
    case None
    then show ?thesis using Cons by simp
  next
    case (Some w')
    with always_step [OF Cons.prems] obtain n' where "always n' Q w'" by blast
    then show ?thesis using Some Cons.IH by simp
  qed
qed

text \<open>The results the combinators may have. When both inputs of Both fail, or both of First succeed, either result is possible, and one
  may replace the other.\<close>

fun both_may :: "res \<Rightarrow> res \<Rightarrow> res \<Rightarrow> bool" where
  "both_may (Inr x) (Inr y) r = (r = Inr (Tup x y))"
| "both_may (Inr x) (Inl e) r = (r = Inl e)"
| "both_may (Inl e) (Inr y) r = (r = Inl e)"
| "both_may (Inl e1) (Inl e2) r = (r = Inl e1 \<or> r = Inl e2)"

fun first_may :: "res \<Rightarrow> res \<Rightarrow> res \<Rightarrow> bool" where
  "first_may (Inr x) (Inr y) r = (r = Inr x \<or> r = Inr y)"
| "first_may (Inr x) (Inl e) r = (r = Inr x)"
| "first_may (Inl e) (Inr y) r = (r = Inr y)"
| "first_may (Inl e1) (Inl e2) r = (r = Inl e1 \<or> r = Inl e2)"

text \<open>The program has not thrown, the result is pending or as specified, and when no task is left it is there and the counter block
  has been freed.\<close>

definition par_done :: "(res \<Rightarrow> bool) \<Rightarrow> nat \<Rightarrow> fworld \<Rightarrow> bool" where
  "par_done may p w = (\<not> crashed w \<and> (case GetResult p w of None \<Rightarrow> ftasks w \<noteq> [] | Some r \<Rightarrow> may r) \<and>
     (ftasks w = [] \<longrightarrow> ct_freed (counters w 0)))"

fun flatten_done :: "res \<Rightarrow> nat \<Rightarrow> fworld \<Rightarrow> bool" where
  "flatten_done (Inr v) p w = (\<not> crashed w \<and> (case GetResult p w of None \<Rightarrow> ftasks w \<noteq> [] | Some r \<Rightarrow> r = Inr v))"
| "flatten_done (Inl e) p w = (GetResult p w = None \<and> (crashed w \<or> ftasks w \<noteq> []))"

text \<open>Two Submits and the combinator \<open>C\<close>, with any tasks run after each of the three.\<close>

definition par_third :: "(nat \<Rightarrow> nat \<Rightarrow> fworld \<Rightarrow> nat \<times> fworld) \<Rightarrow> (nat \<Rightarrow> fworld \<Rightarrow> bool) \<Rightarrow> nat \<Rightarrow> nat \<Rightarrow> fworld \<Rightarrow> bool" where
  "par_third C Q fx fy w = (case C fx fy w of (p, w) \<Rightarrow> always 4 (Q p) w)"

definition par_second :: "(nat \<Rightarrow> nat \<Rightarrow> fworld \<Rightarrow> nat \<times> fworld) \<Rightarrow> (nat \<Rightarrow> fworld \<Rightarrow> bool) \<Rightarrow> executor \<Rightarrow> res \<Rightarrow> nat \<Rightarrow> fworld \<Rightarrow> bool" where
  "par_second C Q y r2 fx w = (case Submit y r2 w of (fy, w) \<Rightarrow> always 2 (par_third C Q fx fy) w)"

definition par_first :: "(nat \<Rightarrow> nat \<Rightarrow> fworld \<Rightarrow> nat \<times> fworld) \<Rightarrow> (nat \<Rightarrow> fworld \<Rightarrow> bool) \<Rightarrow> executor \<Rightarrow> res \<Rightarrow> executor \<Rightarrow> res \<Rightarrow> bool" where
  "par_first C Q x r1 y r2 = (case Submit x r1 fworld_init of (fx, w) \<Rightarrow> always 1 (par_second C Q y r2 fx) w)"

lemma par_run:
  assumes "par_first C Q x r1 y r2"
  shows "case Submit x r1 fworld_init of (fx, w) \<Rightarrow> case Submit y r2 (run fut_step ks0 w) of (fy, w) \<Rightarrow>
    case C fx fy (run fut_step ks1 w) of (p, w) \<Rightarrow> Q p (run fut_step ks2 w)"
proof -
  obtain fx w0 where a: "Submit x r1 fworld_init = (fx, w0)" by fastforce
  obtain fy w1 where b: "Submit y r2 (run fut_step ks0 w0) = (fy, w1)" by fastforce
  obtain p w2 where c: "C fx fy (run fut_step ks1 w1) = (p, w2)" by fastforce
  have "always 1 (par_second C Q y r2 fx) w0" using assms a by (simp add: par_first_def)
  from always_run [OF this, of ks0] have "always 2 (par_third C Q fx fy) w1" using b by (simp add: par_second_def)
  from always_run [OF this, of ks1] have "always 4 (Q p) w2" using c by (simp add: par_third_def)
  from always_run [OF this, of ks2] show ?thesis using a b c by simp
qed

lemmas par_simps = par_first_def par_second_def par_third_def Submit_def fut_ops both_ops

lemma always_numeral:
  "always 1 Q w = (Q w \<and> (crashed w \<or> list_all (always 0 Q) (nexts w [] (ftasks w))))"
  "always 2 Q w = (Q w \<and> (crashed w \<or> list_all (always 1 Q) (nexts w [] (ftasks w))))"
  "always 3 Q w = (Q w \<and> (crashed w \<or> list_all (always 2 Q) (nexts w [] (ftasks w))))"
  "always 4 Q w = (Q w \<and> (crashed w \<or> list_all (always 3 Q) (nexts w [] (ftasks w))))"
  by (simp_all add: numeral_eq_Suc)

lemma both_always: "par_first Both (par_done (both_may r1 r2)) x r1 y r2"
  by (cases r1; cases r2; simp add: always_numeral par_simps par_done_def)

lemma first_always: "par_first First (par_done (first_may r1 r2)) x r1 y r2"
  by (cases r1; cases r2; simp add: always_numeral par_simps par_done_def)

lemma flatten_always: "par_first (\<lambda>j i. Flatten i) (flatten_done r) x r y (Inr (FutV 0))"
  by (cases r; simp add: always_numeral par_simps cb_defs Flatten_def Inner_cb_def throw_def)



text \<open>Flatten of a submitted future that yields another submitted future: on every schedule it has the value of the inner future,
  if that succeeds; if it fails, the result never comes and the program throws once the tasks have run.\<close>

theorem flatten_any_schedule:
  "case Submit x r fworld_init of (j, w) \<Rightarrow> case Submit y (Inr (FutV j)) (run fut_step ks0 w) of (i, w) \<Rightarrow>
    case Flatten i (run fut_step ks1 w) of (p, w) \<Rightarrow> flatten_done r p (run fut_step ks2 w)"
proof -
  have "fst (Submit x r fworld_init) = 0" by (simp add: Submit_def fut_ops)
  then obtain w where w: "Submit x r fworld_init = (0, w)" by (metis prod.collapse)
  show ?thesis using par_run [OF flatten_always [where r = r and x = x and y = y], where ?ks0.0 = ks0 and ?ks1.0 = ks1 and ?ks2.0 = ks2] unfolding w by simp
qed

end
