(* ===== verification/Spec2Isabelle.thy ===== *)
theory Spec2Isabelle
  imports
    SpinLocks TicketLock McsLock FutexMutex Dining Semaphores WaitGroups Barrier BlockingQueue
    ThreadPool StealQueue SharedState Futures MSQueue Strand Executors Refer StampedPtr MemAtomic
    StdFuture CondVar Mutexed FiberEvent FiberMutex FiberMutexV2 FiberWaitGroup Coroutine LfStack
    SharedPtr Fibers Hazard MSQueueGc SpStack McsDrafts StealDraft FiberMutexDraft BarrierSteps
    FuturesPar
begin

text \<open>
  A verification development for the solutions of a course on concurrency in C++ (\<open>src/tasks\<close>): locks, condition variables,
  queues, thread pools, futures, strands, lock-free containers, stackful coroutines and fibers.

  How the programs are modelled.
  A component is a record with the code's fields, one definition per operation or per step of it, and a step function
  that says what one thread (or fiber, or task) does next. A step is one access to something shared: an atomic operation, a mutex
  operation, a futex call, an access to a heap node that another thread may free. Local computation is part of the step that precedes or
  follows it. \<open>Prelude\<close> defines \<open>run step sched s\<close>, which interprets a schedule, any list of actions, and skips an action
  that is not enabled; a theorem about every schedule is a theorem about every interleaving. Blocking is a step that is not enabled.
  Spurious failures and wakeups are choices of the schedule. Fields and counters that the code does not have are marked ghost in the
  records: they record history (what was put, which nodes were linked) and no branch of the code's steps reads them. Memory is
  sequentially consistent except in \<open>MemAtomic\<close>, which has store buffers. Machine integers are words where they can wrap;
  where a theorem needs that a counter does not, the bound is a hypothesis on the length of the schedule or a ghost flag.
  Objects that the code frees stay addressable in the model with a flag, and an access to a freed one raises a fault that the
  theorems exclude.

  The parts, from the bottom up.

  \<^item> \<open>mutex/\<close>: \<open>SpinLocks\<close> (spinlock, exe/threads/spinlock.hpp, livelock), \<open>TicketLock\<close> (try-lock), \<open>McsLock\<close>
    (queue/queue_spinlock.hpp), \<open>McsDrafts\<close> (its two drafts, which refine it), \<open>FutexMutex\<close> (mutex and condvar/mutex.hpp), \<open>Mutexed\<close> (mutexed, lock_guard) and \<open>Dining\<close>
    (dining, deadlock). Shown: mutual exclusion, fairness where there is any, no lost wakeups, absence or presence of deadlock.
    The locales \<open>mutual_exclusion\<close> of \<open>Prelude\<close> and \<open>spin_lock\<close> are the contracts the locks share.
  \<^item> \<open>mm/atomic\<close>: \<open>MemAtomic\<close>, the assembly operations under x86 total store order.
  \<^item> \<open>cond/\<close>: \<open>CondVar\<close>, \<open>Semaphores\<close> (semaphore, tagged semaphore and the bounded queue built from them), \<open>WaitGroups\<close>
    (the five versions in cond, tasks and futures), \<open>Barrier\<close> (critical sections as single steps) and \<open>BarrierSteps\<close> (the three
    versions of the barrier, each write a step, refining it).
  \<^item> \<open>tasks/\<close>: \<open>BlockingQueue\<close> and its linked-list draft, \<open>ThreadPool\<close>, \<open>Executors\<close> (manual, inline), \<open>MSQueue\<close> (the
    lock-free queue of the strand; also lockfree/queue) and \<open>MSQueueGc\<close> (its collection of garbage and destructor), \<open>Strand\<close> and \<open>Refer\<close> (intrusive reference counts). A strand pushes
    into an MSQueue, runs batches and resubmits itself to an executor; the pool's queue is the blocking queue.
  \<^item> \<open>lockfree/\<close>: \<open>StealQueue\<close> and \<open>StealDraft\<close> (its draft, which holds one element only), \<open>StampedPtr\<close> (packing of pointers and stamps), and on it \<open>LfStack\<close> (the stack with split
    reference counts) and \<open>SharedPtr\<close> (SharedPtr and AtomicSharedPtr), \<open>SpStack\<close> (the
    stack on them, which takes their operations as steps), \<open>Hazard\<close> (the hazard pointers of lockfree/queue and the
    stack on them: correct for calls that do not overlap, and a run of two threads in which they are not safe).
  \<^item> \<open>futures/\<close>: \<open>StdFuture\<close> (std), \<open>SharedState\<close> (the rendezvous of promise and future step by step) and \<open>Futures\<close> (the
    combinators as a rewriting of pipelines on shared states and tasks, refined against a denotational meaning) and \<open>FuturesPar\<close>
    (Both, First and Flatten on every schedule).
  \<^item> \<open>fibers/\<close>: \<open>Coroutine\<close> (context switches, refined against call stacks), \<open>Fibers\<close> (Run, Suspend, Go, Yield, SleepFor on worker
    threads), and on them \<open>FiberEvent\<close>, \<open>FiberMutex\<close>, \<open>FiberMutexDraft\<close> (which refines it), \<open>FiberMutexV2\<close> and \<open>FiberWaitGroup\<close>, which park fibers in awaiters and
    schedule them again.

  What the lemmas are.
  Each theory has an invariant with a pair of lemmas, \<open>_invI\<close> and \<open>_invD\<close>, that introduce and unpack it, one preservation lemma per
  operation, a step lemma, and theorems that follow from the invariant of a run. Locales state the interfaces (\<open>inv_system\<close>,
  \<open>counted_inv_system\<close>, \<open>mutual_exclusion\<close>, \<open>simulation\<close>, \<open>spin_lock\<close>, \<open>token_counter\<close>, \<open>wait_group\<close>, \<open>blocking_queue\<close> and
  \<open>notifying_queue\<close>) and are interpreted on the models. Theorems with a
  hypothesis have a witness, a concrete run in which the hypothesis holds. Theorems about single runs show defects: a counterexample
  found in the model, named in the comment before it.

  Bounds.
  \<open>TicketLock\<close>, \<open>StealQueue\<close>, \<open>CondVar\<close> and \<open>FiberWaitGroup\<close> bound the number of steps or calls by the width of their counters;
  \<open>LfStack\<close> and \<open>SharedPtr\<close> exclude schedules in which a 16-bit stamp wraps (or passes the limit of Load). Fuel appears in
  destructors and drain loops only, with a theorem that the length of the list, or the rank of the tasks, is enough.

  Not modelled.
  Weak memory orders beyond \<open>MemAtomic\<close>; the libraries twist, wheels, sure, fmt and asio, of which the documented behaviour of
  mutexes, condition variables, futexes, context switches and timers is used; logging; tests and demonstrations; the verbose copies of modelled files, and
  the drafts \<open>lock_free_stack-verbose.hpp\<close> and \<open>shared_ptr-verbose copy.hpp\<close>, which differ from the modelled ones in details.
  \<open>fibers/chan\<close>, \<open>tasks/scheduler\<close>, \<open>coro/task\<close>, \<open>coro/gorroutines\<close> and \<open>futures/lazy\<close> are skeletons whose functions are not
  implemented.
\<close>

end
